(* ===== verification/Lwip_Prelude.thy ===== *)
theory Lwip_Prelude
  imports Main "HOL-Library.Word"
begin

text \<open>
  Shared vocabulary of the development: the machine integer types of the port (\<open>arch/cc.h\<close>),
  lwIP's error codes (\<open>lwip/err.h\<close>), big-endian byte access, the first-fit scan of a fixed array that
  several components use, and the theorem collections their proofs draw on.
\<close>

unbundle bit_operations_syntax

section \<open>Machine integers and error codes\<close>

type_synonym u8 = "8 word"
type_synonym u16 = "16 word"
type_synonym u32 = "32 word"

text \<open>The values of \<open>err_t\<close>, in the order of \<open>lwip/err.h\<close>.\<close>

datatype err_t =
    ERR_OK | ERR_MEM | ERR_BUF | ERR_TIMEOUT | ERR_RTE | ERR_INPROGRESS | ERR_VAL
  | ERR_WOULDBLOCK | ERR_USE | ERR_ISCONN | ERR_ABRT | ERR_RST | ERR_CLSD | ERR_CONN
  | ERR_ARG | ERR_IF

text \<open>The numeric value the code prints and returns through \<open>s8_t\<close>.\<close>

fun err_code :: "err_t \<Rightarrow> int" where
  "err_code ERR_OK = 0"
| "err_code ERR_MEM = -1"
| "err_code ERR_BUF = -2"
| "err_code ERR_TIMEOUT = -3"
| "err_code ERR_RTE = -4"
| "err_code ERR_INPROGRESS = -5"
| "err_code ERR_VAL = -6"
| "err_code ERR_WOULDBLOCK = -7"
| "err_code ERR_USE = -8"
| "err_code ERR_ISCONN = -9"
| "err_code ERR_ABRT = -10"
| "err_code ERR_RST = -11"
| "err_code ERR_CLSD = -12"
| "err_code ERR_CONN = -13"
| "err_code ERR_ARG = -14"
| "err_code ERR_IF = -15"

text \<open>
  The target is big-endian (\<open>arch/cc.h\<close> selects \<open>BIG_ENDIAN\<close>), so \<open>lwip/def.h\<close> defines the byte
  order conversions as identities. They are kept in the model at the places the code calls them.
\<close>

definition htonl :: "u32 \<Rightarrow> u32" where
  "htonl x = x"

definition ntohl :: "u32 \<Rightarrow> u32" where
  "ntohl x = x"

definition htons :: "u16 \<Rightarrow> u16" where
  "htons x = x"

definition ntohs :: "u16 \<Rightarrow> u16" where
  "ntohs x = x"

lemmas byteorder_simps [simp] = htonl_def ntohl_def htons_def ntohs_def

lemma unat_u8_less [simp]: "unat (b :: u8) < 256"
  using unsigned_less [of b] by simp

lemma unat_u16_less [simp]: "unat (x :: u16) < 65536"
  using unsigned_less [of x] by simp

lemma unat_u32_less [simp]: "unat (x :: u32) < 4294967296"
  using unsigned_less [of x] by simp

section \<open>Theorem collections\<close>

named_theorems wf_intros \<open>preservation of the component invariants\<close>
named_theorems frame_simps \<open>fields an operation leaves unchanged\<close>

section \<open>Big-endian bytes\<close>

definition be16 :: "u16 \<Rightarrow> u8 list" where
  "be16 x = [ucast (drop_bit 8 x), ucast x]"

definition be32 :: "u32 \<Rightarrow> u8 list" where
  "be32 x = [ucast (drop_bit 24 x), ucast (drop_bit 16 x), ucast (drop_bit 8 x), ucast x]"

definition mk16 :: "u8 \<Rightarrow> u8 \<Rightarrow> u16" where
  "mk16 a b = push_bit 8 (ucast a) OR ucast b"

definition mk32 :: "u8 \<Rightarrow> u8 \<Rightarrow> u8 \<Rightarrow> u8 \<Rightarrow> u32" where
  "mk32 a b c d =
     push_bit 24 (ucast a) OR push_bit 16 (ucast b) OR push_bit 8 (ucast c) OR ucast d"

text \<open>Reading a field at an offset; the callers check the length first.\<close>

definition get8 :: "u8 list \<Rightarrow> nat \<Rightarrow> u8" where
  "get8 bs i = bs ! i"

definition get16 :: "u8 list \<Rightarrow> nat \<Rightarrow> u16" where
  "get16 bs i = mk16 (bs ! i) (bs ! (i + 1))"

definition get32 :: "u8 list \<Rightarrow> nat \<Rightarrow> u32" where
  "get32 bs i = mk32 (bs ! i) (bs ! (i + 1)) (bs ! (i + 2)) (bs ! (i + 3))"

text \<open>Storing a run of bytes at an offset (a struct member write, or \<open>SMEMCPY\<close>).\<close>

definition put_bytes :: "nat \<Rightarrow> u8 list \<Rightarrow> u8 list \<Rightarrow> u8 list" where
  "put_bytes i xs bs = take i bs @ xs @ drop (i + length xs) bs"

lemma length_be16 [simp]: "length (be16 x) = 2"
  by (simp add: be16_def)

lemma length_be32 [simp]: "length (be32 x) = 4"
  by (simp add: be32_def)

lemma mk16_be16 [simp]: "mk16 (ucast (drop_bit 8 x)) (ucast x) = x"
proof (rule bit_word_eqI)
  fix n
  assume "n < LENGTH(16)"
  then have "n < 16" by simp
  then show "bit (mk16 (ucast (drop_bit 8 x)) (ucast x)) n \<longleftrightarrow> bit x n"
    by (cases "n < 8")
      (auto simp: mk16_def bit_or_iff bit_push_bit_iff bit_ucast_iff bit_drop_bit_eq not_less)
qed

lemma mk32_be32 [simp]:
  "mk32 (ucast (drop_bit 24 x)) (ucast (drop_bit 16 x)) (ucast (drop_bit 8 x)) (ucast x) = x"
proof (rule bit_word_eqI)
  fix n
  assume "n < LENGTH(32)"
  then consider "n < 8" | "8 \<le> n" "n < 16" | "16 \<le> n" "n < 24" | "24 \<le> n" "n < 32"
    by fastforce
  then show "bit (mk32 (ucast (drop_bit 24 x)) (ucast (drop_bit 16 x)) (ucast (drop_bit 8 x))
      (ucast x)) n \<longleftrightarrow> bit x n"
    by cases (auto simp: mk32_def bit_or_iff bit_push_bit_iff bit_ucast_iff bit_drop_bit_eq)
qed

lemma nth_append_at [simp]: "length as = i \<Longrightarrow> (as @ x # xs) ! i = x"
  by auto

lemma get16_be16: "length as = i \<Longrightarrow> get16 (as @ be16 x @ bs) i = x"
  by (simp add: get16_def be16_def nth_append)

lemma get32_be32: "length as = i \<Longrightarrow> get32 (as @ be32 x @ bs) i = x"
  by (simp add: get32_def be32_def nth_append)

lemma length_put_bytes [simp]:
  "i + length xs \<le> length bs \<Longrightarrow> length (put_bytes i xs bs) = length bs"
  by (simp add: put_bytes_def)

lemma nth_put_bytes:
  assumes "i + length xs \<le> length bs"
  shows "put_bytes i xs bs ! k =
    (if i \<le> k \<and> k < i + length xs then xs ! (k - i) else bs ! k)"
proof -
  consider "k < i" | "i \<le> k" "k < i + length xs" | "i + length xs \<le> k"
    by linarith
  then show ?thesis
    by cases (use assms in \<open>auto simp: put_bytes_def nth_append\<close>)
qed

section \<open>First-fit scan of a fixed array\<close>

text \<open>
  \<open>for (idx = 0; idx < N; idx++) if (P (a[idx])) \<dots> return\<close>: the position of the first element that
  satisfies the test. Used by the alias pool, the socket registry and the ARP table.
\<close>

fun first_idx :: "('a \<Rightarrow> bool) \<Rightarrow> 'a list \<Rightarrow> nat option" where
  "first_idx P [] = None"
| "first_idx P (x # xs) = (if P x then Some 0 else map_option Suc (first_idx P xs))"

lemma first_idx_None: "first_idx P xs = None \<longleftrightarrow> (\<forall>x \<in> set xs. \<not> P x)"
  by (induction xs) auto

lemma first_idx_None_nth: "first_idx P xs = None \<longleftrightarrow> (\<forall>i < length xs. \<not> P (xs ! i))"
  by (auto simp: first_idx_None all_set_conv_all_nth)

lemma first_idx_SomeD:
  "first_idx P xs = Some i \<Longrightarrow> i < length xs \<and> P (xs ! i) \<and> (\<forall>j < i. \<not> P (xs ! j))"
proof (induction xs arbitrary: i)
  case Nil
  then show ?case by simp
next
  case (Cons x xs)
  show ?case
  proof (cases "P x")
    case True
    with Cons.prems show ?thesis by simp
  next
    case False
    with Cons.prems obtain k where k: "first_idx P xs = Some k" "i = Suc k" by auto
    with Cons.IH [OF k(1)] False show ?thesis by (auto simp: less_Suc_eq_0_disj)
  qed
qed

lemma first_idx_exists: "i < length xs \<Longrightarrow> P (xs ! i) \<Longrightarrow> \<exists>j \<le> i. first_idx P xs = Some j"
proof -
  assume i: "i < length xs" "P (xs ! i)"
  then have "first_idx P xs \<noteq> None" by (auto simp: first_idx_None_nth)
  then obtain j where j: "first_idx P xs = Some j" by auto
  then have "j \<le> i" using first_idx_SomeD [OF j] i(2) by (meson not_le_imp_less)
  with j show ?thesis by blast
qed

section \<open>Lists\<close>

lemma length_filter_update:
  assumes "i < length xs"
  shows "length (filter P (xs[i := y])) + (if P (xs ! i) then 1 else 0) =
         length (filter P xs) + (if P y then 1 else 0)"
  using assms
proof (induction xs arbitrary: i)
  case Nil
  then show ?case by simp
next
  case (Cons x xs)
  then show ?case by (cases i) auto
qed

lemma nth_error_case [simp]: "i < length xs \<Longrightarrow> xs[i := y] ! i = y"
  by simp

end
