(* ===== verification/Interfaces.thy ===== *)
theory Interfaces
  imports Lwip_Prelude
begin

text \<open>
  The contracts between components, as locales: a pool of slots taken first-fit, handles with generations,
  the control-block provider the socket registry is built on, heap allocators, and texts that can be read back. Each is interpreted on the definitions of the
  component that provides it, and the client's lemmas are proved here once.
\<close>

section \<open>First-fit slot pools\<close>

text \<open>
  A table of \<open>size\<close> slots. \<open>acquire s\<close> is the slot the next allocation uses; \<open>take i\<close> and \<open>give i\<close> mark a slot used and free.
\<close>

locale slot_pool =
  fixes size :: nat
    and used :: "'s \<Rightarrow> nat \<Rightarrow> bool"
    and acquire :: "'s \<Rightarrow> nat option"
    and take_slot :: "nat \<Rightarrow> 's \<Rightarrow> 's"
    and give_slot :: "nat \<Rightarrow> 's \<Rightarrow> 's"
    and ok :: "'s \<Rightarrow> bool"
  assumes acquire_None: "ok s \<Longrightarrow> acquire s = None \<longleftrightarrow> (\<forall>i < size. used s i)"
    and acquire_Some: "ok s \<Longrightarrow> acquire s = Some i \<Longrightarrow> i < size \<and> \<not> used s i \<and> (\<forall>j < i. used s j)"
    and take_used: "ok s \<Longrightarrow> i < size \<Longrightarrow> j < size \<Longrightarrow> used (take_slot i s) j \<longleftrightarrow> j = i \<or> used s j"
    and take_ok: "ok s \<Longrightarrow> i < size \<Longrightarrow> ok (take_slot i s)"
    and give_used: "ok s \<Longrightarrow> i < size \<Longrightarrow> j < size \<Longrightarrow> used (give_slot i s) j \<longleftrightarrow> j \<noteq> i \<and> used s j"
    and give_ok: "ok s \<Longrightarrow> i < size \<Longrightarrow> ok (give_slot i s)"
begin

definition load :: "'s \<Rightarrow> nat" where
  "load s = card {i. i < size \<and> used s i}"

lemma load_le: "load s \<le> size"
proof -
  have "card {i. i < size \<and> used s i} \<le> card {..<size}" by (intro card_mono) auto
  then show ?thesis by (simp add: load_def)
qed

lemma load_full: "load s = size \<longleftrightarrow> (\<forall>i < size. used s i)"
proof
  assume "load s = size"
  then have "card {i. i < size \<and> used s i} = card {..<size}" by (simp add: load_def)
  then have "{i. i < size \<and> used s i} = {..<size}" by (intro card_subset_eq) auto
  then show "\<forall>i < size. used s i" by auto
next
  assume "\<forall>i < size. used s i"
  then have "{i. i < size \<and> used s i} = {..<size}" by auto
  then show "load s = size" by (simp add: load_def)
qed

text \<open>The pool refuses exactly when all slots are taken.\<close>

lemma refuses_iff_full: "ok s \<Longrightarrow> acquire s = None \<longleftrightarrow> load s = size"
  by (simp add: acquire_None load_full)

lemma load_take: "ok s \<Longrightarrow> acquire s = Some i \<Longrightarrow> load (take_slot i s) = Suc (load s)"
proof -
  assume s: "ok s" "acquire s = Some i"
  then have i: "i < size" "\<not> used s i" using acquire_Some by blast+
  then have "{j. j < size \<and> used (take_slot i s) j} = insert i {j. j < size \<and> used s j}"
    using take_used [OF s(1) i(1)] by auto
  with i show ?thesis by (simp add: load_def)
qed

lemma load_give: "ok s \<Longrightarrow> i < size \<Longrightarrow> used s i \<Longrightarrow> Suc (load (give_slot i s)) = load s"
proof -
  assume s: "ok s" "i < size" "used s i"
  have "{j. j < size \<and> used (give_slot i s) j} = {j. j < size \<and> used s j} - {i}"
    using give_used [OF s(1,2)] by auto
  then have "load (give_slot i s) = load s - 1" using s by (simp add: load_def)
  moreover have "0 < load s" unfolding load_def using s by (subst card_gt_0_iff) auto
  ultimately show ?thesis by simp
qed

text \<open>A slot that was given back is available again: the next allocation succeeds, at or below it.\<close>

lemma reuse: "ok s \<Longrightarrow> i < size \<Longrightarrow> \<exists>j \<le> i. acquire (give_slot i s) = Some j"
proof -
  assume s: "ok s" "i < size"
  note g = give_ok [OF s]
  have "\<not> used (give_slot i s) i" using give_used [OF s s(2)] by simp
  then have "acquire (give_slot i s) \<noteq> None" using acquire_None [OF g] s(2) by auto
  then obtain j where j: "acquire (give_slot i s) = Some j" by auto
  then have "j \<le> i" using acquire_Some [OF g j] \<open>\<not> used (give_slot i s) i\<close> by (meson not_le_imp_less)
  with j show ?thesis by blast
qed

end

section \<open>Handles with generations\<close>

text \<open>
  A handle is made from a slot and its generation and is valid while the slot is live in that generation.
  Releasing a slot makes it dead and advances its generation.
\<close>

locale gen_handles =
  fixes size :: nat
    and ok :: "'s \<Rightarrow> bool"
    and live :: "'s \<Rightarrow> nat \<Rightarrow> bool"
    and generation :: "'s \<Rightarrow> nat \<Rightarrow> u8"
    and encode :: "nat \<Rightarrow> u8 \<Rightarrow> u16"
    and decode :: "u16 \<Rightarrow> 's \<Rightarrow> nat option"
    and release :: "nat \<Rightarrow> 's \<Rightarrow> 's"
  assumes decode_iff: "decode h s = Some i \<longleftrightarrow> i < size \<and> live s i \<and> h = encode i (generation s i)"
    and encode_inj: "i < size \<Longrightarrow> j < size \<Longrightarrow> encode i g = encode j k \<Longrightarrow> i = j \<and> g = k"
    and release_ok: "ok s \<Longrightarrow> ok (release i s)"
    and release_live: "ok s \<Longrightarrow> i < size \<Longrightarrow> j < size \<Longrightarrow> live (release i s) j \<longleftrightarrow> j \<noteq> i \<and> live s j"
    and release_generation: "ok s \<Longrightarrow> i < size \<Longrightarrow> j < size \<Longrightarrow>
      generation (release i s) j = (if j = i then generation s i + 1 else generation s j)"
begin

definition handle :: "'s \<Rightarrow> nat \<Rightarrow> u16" where
  "handle s i = encode i (generation s i)"

lemma decode_handle: "i < size \<Longrightarrow> live s i \<Longrightarrow> decode (handle s i) s = Some i"
  by (simp add: handle_def decode_iff)

lemma decode_unique: "decode h s = Some i \<Longrightarrow> h = handle s i"
  by (simp add: handle_def decode_iff)

lemma handles_distinct: "i < size \<Longrightarrow> j < size \<Longrightarrow> handle s i = handle s j \<Longrightarrow> i = j"
  using encode_inj by (auto simp: handle_def)

text \<open>
  A stale handle is rejected in every later state in which the slot's generation differs or the slot is dead.
\<close>

lemma stale_rejected:
  assumes "i < size" and "generation t i \<noteq> generation s i \<or> \<not> live t i"
  shows "decode (handle s i) t = None"
proof (rule ccontr)
  assume "decode (handle s i) t \<noteq> None"
  then obtain j where j: "decode (handle s i) t = Some j" by auto
  then have "j < size" "live t j" "handle s i = encode j (generation t j)" by (simp_all add: decode_iff)
  with assms encode_inj [of i j "generation s i" "generation t j"] show False by (auto simp: handle_def)
qed

text \<open>A released handle is rejected, and the handles of the other slots keep their meaning.\<close>

lemma decode_released: "ok s \<Longrightarrow> i < size \<Longrightarrow> decode (handle s i) (release i s) = None"
  by (rule stale_rejected) (simp_all add: release_live)

lemma decode_other:
  "ok s \<Longrightarrow> i < size \<Longrightarrow> decode h s = Some j \<Longrightarrow> j \<noteq> i \<Longrightarrow> decode h (release i s) = Some j"
  by (auto simp: decode_iff release_live release_generation)

lemma release_pow_ok: "ok s \<Longrightarrow> ok ((release i ^^ k) s)"
  by (induction k) (simp_all add: release_ok)

lemma generation_release_pow:
  assumes "ok s" and "i < size"
  shows "generation ((release i ^^ k) s) i = generation s i + of_nat k"
  by (induction k) (simp_all add: release_generation release_pow_ok assms algebra_simps)

text \<open>
  The slot may be reopened and closed many times: as long as its generation is that after one to 255 releases, the
  old handle is rejected, whether or not the slot is live. After 256 releases it is accepted again.
\<close>

lemma stale_after_releases:
  assumes "i < size" and "generation t i = generation s i + of_nat k" and "0 < k" and "k < 256"
  shows "decode (handle s i) t = None"
proof (rule stale_rejected [OF assms(1)])
  have "(of_nat k :: u8) \<noteq> 0" using assms(3,4) by (simp add: word_unat_eq_iff unat_of_nat)
  then show "generation t i \<noteq> generation s i \<or> \<not> live t i" by (simp add: assms(2))
qed

lemma wraps_after_256:
  assumes "i < size" and "generation t i = generation s i + of_nat 256" and "live t i"
  shows "decode (handle s i) t = Some i"
proof -
  have "(of_nat 256 :: u8) = 0" by (simp add: word_unat_eq_iff)
  with assms show ?thesis by (simp add: decode_iff handle_def del: of_nat_numeral)
qed

end

section \<open>Control-block provider\<close>

text \<open>
  What the socket registry needs of the protocol: control blocks are allocated, bound, and given back. \<open>owned s\<close> are
  the control blocks in use; \<open>ok\<close> is the provider's invariant.
\<close>

locale pcb_provider =
  fixes ok :: "'s \<Rightarrow> bool"
    and owned :: "'s \<Rightarrow> nat set"
    and alloc :: "'s \<Rightarrow> nat option \<times> 's"
    and bind :: "nat \<Rightarrow> u32 \<Rightarrow> u16 \<Rightarrow> 's \<Rightarrow> err_t \<times> 's"
    and remove :: "nat \<Rightarrow> 's \<Rightarrow> 's"
  assumes alloc_Some: "ok s \<Longrightarrow> alloc s = (Some p, t) \<Longrightarrow> ok t \<and> p \<notin> owned s \<and> owned t = insert p (owned s)"
    and alloc_None: "ok s \<Longrightarrow> alloc s = (None, t) \<Longrightarrow> t = s"
    and bind_ok: "ok s \<Longrightarrow> p \<in> owned s \<Longrightarrow> bind p a q s = (e, t) \<Longrightarrow> ok t \<and> owned t = owned s"
    and bind_err: "ok s \<Longrightarrow> p \<in> owned s \<Longrightarrow> bind p a q s = (e, t) \<Longrightarrow> e = ERR_OK \<or> e = ERR_USE"
    and remove_ok: "ok s \<Longrightarrow> p \<in> owned s \<Longrightarrow> ok (remove p s) \<and> owned (remove p s) = owned s - {p}"
begin

text \<open>Allocate, bind, and give back on failure: nothing leaks.\<close>

lemma open_rollback:
  assumes "ok s" and "alloc s = (Some p, t)" and "bind p a q t = (e, u)" and "e \<noteq> ERR_OK"
  shows "ok (remove p u) \<and> owned (remove p u) = owned s \<and> e = ERR_USE"
proof -
  have t: "ok t" "p \<notin> owned s" "owned t = insert p (owned s)" using alloc_Some [OF assms(1,2)] by simp_all
  then have u: "ok u" "owned u = insert p (owned s)" "e = ERR_OK \<or> e = ERR_USE"
    using bind_ok [OF t(1) _ assms(3)] bind_err [OF t(1) _ assms(3)] by auto
  then show ?thesis using remove_ok [OF u(1), of p] t(2) assms(4) by auto
qed

lemma open_success:
  assumes "ok s" and "alloc s = (Some p, t)" and "bind p a q t = (ERR_OK, u)"
  shows "ok u \<and> owned u = insert p (owned s) \<and> p \<notin> owned s"
  using alloc_Some [OF assms(1,2)] bind_ok [OF _ _ assms(3)] by auto

end

section \<open>Heap allocators\<close>

text \<open>
  A region is a pointer with a number of bytes. An allocation always returns; it adds one region that overlaps no other,
  or nothing. Neither allocation nor release changes a byte of a region that stays.
\<close>

locale region_allocator =
  fixes ok :: "'s \<Rightarrow> bool"
    and held :: "'s \<Rightarrow> (int \<times> int) set"
    and byte :: "'s \<Rightarrow> int \<Rightarrow> u8"
    and alloc :: "u16 \<Rightarrow> 's \<Rightarrow> (int option \<times> 's) option"
    and release :: "int option \<Rightarrow> 's \<Rightarrow> 's"
  assumes alloc_returns: "ok s \<Longrightarrow> \<exists>q t. alloc n s = Some (q, t) \<and> ok t"
    and alloc_Some: "ok s \<Longrightarrow> alloc n s = Some (Some q, t) \<Longrightarrow> \<exists>m. (q, m) \<notin> held s \<and> held t = insert (q, m) (held s)"
    and alloc_None: "ok s \<Longrightarrow> alloc n s = Some (None, t) \<Longrightarrow> held t = held s"
    and release_ok: "ok s \<Longrightarrow> (q, m) \<in> held s \<Longrightarrow> ok (release (Some q) s) \<and> held (release (Some q) s) = held s - {(q, m)}"
    and apart: "ok s \<Longrightarrow> (q, m) \<in> held s \<Longrightarrow> (q', m') \<in> held s \<Longrightarrow> (q, m) \<noteq> (q', m') \<Longrightarrow> q + m \<le> q' \<or> q' + m' \<le> q"
    and alloc_keeps: "ok s \<Longrightarrow> alloc n s = Some (r, t) \<Longrightarrow> (q, m) \<in> held s \<Longrightarrow> q \<le> i \<Longrightarrow> i < q + m \<Longrightarrow> byte t i = byte s i"
    and release_keeps: "ok s \<Longrightarrow> (p, k) \<in> held s \<Longrightarrow> (q, m) \<in> held s - {(p, k)} \<Longrightarrow> q \<le> i \<Longrightarrow> i < q + m \<Longrightarrow>
      byte (release (Some p) s) i = byte s i"
begin

lemma alloc_ok: "ok s \<Longrightarrow> alloc n s = Some (r, t) \<Longrightarrow> ok t"
  using alloc_returns [of s n] by auto

text \<open>A new region is apart from all the others, and giving it back restores the set of regions.\<close>

lemma alloc_fresh:
  assumes "ok s" and "alloc n s = Some (Some q, t)"
  shows "\<exists>m. (q, m) \<in> held t \<and> (\<forall>(q', m') \<in> held s. q + m \<le> q' \<or> q' + m' \<le> q)"
proof -
  obtain m where m: "(q, m) \<notin> held s" "held t = insert (q, m) (held s)" using alloc_Some [OF assms] by blast
  have "q + m \<le> q' \<or> q' + m' \<le> q" if "(q', m') \<in> held s" for q' m'
    using apart [OF alloc_ok [OF assms], of q m q' m'] m that by auto
  with m show ?thesis by blast
qed

lemma alloc_release:
  assumes "ok s" and "alloc n s = Some (Some q, t)"
  shows "ok (release (Some q) t) \<and> held (release (Some q) t) = held s"
proof -
  obtain m where m: "(q, m) \<notin> held s" "held t = insert (q, m) (held s)" using alloc_Some [OF assms] by blast
  then show ?thesis using release_ok [OF alloc_ok [OF assms], of q m] by auto
qed

text \<open>Regions may be given back in any order.\<close>

definition release_all :: "(int \<times> int) list \<Rightarrow> 's \<Rightarrow> 's" where
  "release_all ps s = fold (\<lambda>(q, m). release (Some q)) ps s"

lemma release_all_held:
  "ok s \<Longrightarrow> distinct ps \<Longrightarrow> set ps \<subseteq> held s \<Longrightarrow> ok (release_all ps s) \<and> held (release_all ps s) = held s - set ps"
proof (induction ps arbitrary: s)
  case Nil
  then show ?case by (simp add: release_all_def)
next
  case (Cons x ps)
  obtain q m where x: "x = (q, m)" by force
  have r: "ok (release (Some q) s)" "held (release (Some q) s) = held s - {(q, m)}"
    using release_ok [of s q m] Cons.prems x by auto
  have "ok (release_all ps (release (Some q) s)) \<and>
    held (release_all ps (release (Some q) s)) = held (release (Some q) s) - set ps"
    by (rule Cons.IH) (use Cons.prems r x in auto)
  with r x show ?case by (auto simp: release_all_def)
qed

end

section \<open>Transmit queue\<close>

text \<open>
  A queue of jobs that sends frames in the background: \<open>send\<close> hands a job over, \<open>drain\<close> gives back the jobs that are done, and
  \<open>poll\<close> lets the background work go on.
\<close>

datatype 'p queue_event = Send 'p | Drain | Poll

fun queue_run :: "('p \<Rightarrow> 's \<Rightarrow> 's option) \<Rightarrow> ('s \<Rightarrow> 's option) \<Rightarrow> ('s \<Rightarrow> 's) \<Rightarrow> 'p queue_event list \<Rightarrow> 's \<Rightarrow> 's option" where
  "queue_run send drain poll [] s = Some s"
| "queue_run send drain poll (Send p # es) s = (case send p s of None \<Rightarrow> None | Some t \<Rightarrow> queue_run send drain poll es t)"
| "queue_run send drain poll (Drain # es) s = (case drain s of None \<Rightarrow> None | Some t \<Rightarrow> queue_run send drain poll es t)"
| "queue_run send drain poll (Poll # es) s = queue_run send drain poll es (poll s)"

fun sent_jobs :: "'p queue_event list \<Rightarrow> 'p list" where
  "sent_jobs [] = []"
| "sent_jobs (Send p # es) = p # sent_jobs es"
| "sent_jobs (Drain # es) = sent_jobs es"
| "sent_jobs (Poll # es) = sent_jobs es"

text \<open>Every job is good, and at each hand-over the places of the jobs that were not given back yet leave room for it.\<close>

fun room_for :: "('p \<Rightarrow> bool) \<Rightarrow> ('p \<Rightarrow> nat) \<Rightarrow> nat \<Rightarrow> nat \<Rightarrow> 'p queue_event list \<Rightarrow> bool" where
  "room_for good cost cap used [] = True"
| "room_for good cost cap used (Send p # es) = (good p \<and> used + cost p < cap \<and> room_for good cost cap (used + cost p) es)"
| "room_for good cost cap used (Drain # es) = room_for good cost cap 0 es"
| "room_for good cost cap used (Poll # es) = room_for good cost cap used es"

lemma queue_run_append:
  "queue_run send drain poll (es @ es') s =
     (case queue_run send drain poll es s of None \<Rightarrow> None | Some t \<Rightarrow> queue_run send drain poll es' t)"
  by (induction send drain poll es s rule: queue_run.induct) (auto split: option.split)

text \<open>\<open>rel s ws fs ps\<close>: in state \<open>s\<close> the frames \<open>ws\<close> were handed over, the jobs \<open>fs\<close> given back, and \<open>ps\<close> not yet.\<close>

locale transmit_queue =
  fixes send :: "'p \<Rightarrow> 's \<Rightarrow> 's option"
    and drain :: "'s \<Rightarrow> 's option"
    and poll :: "'s \<Rightarrow> 's"
    and good :: "'p \<Rightarrow> bool"
    and cost :: "'p \<Rightarrow> nat"
    and cap :: nat
    and frame :: "'p \<Rightarrow> 'f"
    and ident :: "'p \<Rightarrow> 'i"
    and rel :: "'s \<Rightarrow> 'f list \<Rightarrow> 'i list \<Rightarrow> 'p list \<Rightarrow> bool"
  assumes send_rel: "rel s ws fs ps \<Longrightarrow> good p \<Longrightarrow> sum_list (map cost ps) + cost p < cap \<Longrightarrow>
      \<exists>t. send p s = Some t \<and> rel t (ws @ [frame p]) fs (ps @ [p])"
    and drain_rel: "rel s ws fs ps \<Longrightarrow> \<exists>t. drain s = Some t \<and> rel t ws (fs @ map ident ps) []"
    and poll_rel: "rel s ws fs ps \<Longrightarrow> rel (poll s) ws fs ps"
begin

lemma run_rel:
  "rel s ws fs ps \<Longrightarrow> room_for good cost cap (sum_list (map cost ps)) es \<Longrightarrow>
     \<exists>t fs' ps'. queue_run send drain poll es s = Some t \<and> rel t (ws @ map frame (sent_jobs es)) fs' ps' \<and>
       fs' @ map ident ps' = fs @ map ident (ps @ sent_jobs es)"
proof (induction es arbitrary: s ws fs ps)
  case Nil
  then show ?case by auto
next
  case (Cons e es)
  show ?case
  proof (cases e)
    case (Send p)
    then have "good p" "sum_list (map cost ps) + cost p < cap" using Cons.prems(2) by simp_all
    then obtain t where t: "send p s = Some t" "rel t (ws @ [frame p]) fs (ps @ [p])" using send_rel [OF Cons.prems(1)] by blast
    have "room_for good cost cap (sum_list (map cost (ps @ [p]))) es" using Cons.prems(2) Send by simp
    from Cons.IH [OF t(2) this] t(1) Send show ?thesis by simp
  next
    case Drain
    obtain t where t: "drain s = Some t" "rel t ws (fs @ map ident ps) []" using drain_rel [OF Cons.prems(1)] by blast
    have "room_for good cost cap (sum_list (map cost [])) es" using Cons.prems(2) Drain by simp
    from Cons.IH [OF t(2) this] t(1) Drain show ?thesis by simp
  next
    case Poll
    then show ?thesis using Cons.IH [OF poll_rel [OF Cons.prems(1)]] Cons.prems(2) by simp
  qed
qed

lemma run_drained:
  assumes "rel s [] [] []" and "room_for good cost cap 0 es"
  shows "\<exists>t. queue_run send drain poll (es @ [Drain]) s = Some t \<and> rel t (map frame (sent_jobs es)) (map ident (sent_jobs es)) []"
proof -
  obtain t fs' ps' where t: "queue_run send drain poll es s = Some t" "rel t (map frame (sent_jobs es)) fs' ps'"
    "fs' @ map ident ps' = map ident (sent_jobs es)" using run_rel [OF assms(1), of es] assms(2) by auto
  obtain u where "drain t = Some u" "rel u (map frame (sent_jobs es)) (fs' @ map ident ps') []" using drain_rel [OF t(2)] by blast
  with t(1,3) show ?thesis by (simp add: queue_run_append)
qed

end

section \<open>Textual forms\<close>

text \<open>A printer and a parser that accepts what it prints.\<close>

locale text_form =
  fixes print :: "'a \<Rightarrow> string" and parse :: "string \<Rightarrow> 'a option" and width :: nat
  assumes parse_print: "parse (print x) = Some x" and print_width: "length (print x) \<le> width"
begin

lemma print_inj: "print x = print y \<Longrightarrow> x = y"
  by (metis option.inject parse_print)

lemma print_fits: "width < n \<Longrightarrow> take (n - 1) (print x) = print x"
  using print_width [of x] by simp

end

end
