(* ===== verification/Ip_Addr.thy ===== *)
theory Ip_Addr
  imports Interfaces
begin

text \<open>
  IPv4 addresses: the address macros of \<open>ipv4/lwip/ip_addr.h\<close>, the broadcast test and the text
  conversions of \<open>core/ipv4/ip_addr.c\<close>, and \<open>struct netif\<close> (\<open>lwip/netif.h\<close>), which the broadcast
  test reads. The text conversions are related by a round-trip theorem.
\<close>

section \<open>Interface records\<close>

text \<open>
  The objects a \<open>struct netif *\<close> can point to in this firmware: an element of \<open>hdkNetIF[]\<close> or the
  \<open>netif\<close> member of an element of \<open>alias_list[]\<close> (\<open>lwiplib.c\<close>). \<open>NULL\<close> is \<open>None\<close> of an option.
\<close>

datatype netif_ptr = Hdk nat | Alias nat

text \<open>The two function pointers of a netif have one possible target each, or are unset.\<close>

datatype output_fn = No_output | Etharp_output
datatype linkoutput_fn = No_linkoutput | Hdkif_output

text \<open>
  \<open>struct netif\<close> with the members of the selected configuration. \<open>next\<close> is not a member: the linked
  list \<open>netif_list\<close> is a list of pointers. \<open>state\<close> points to an element of \<open>hdkif_data[]\<close> or is NULL;
  \<open>dhcp\<close> is NULL unless DHCP is started, and then carries the index of its pcb.
\<close>

record netif =
  if_ip_addr :: u32
  if_netmask :: u32
  if_gw :: u32
  if_output :: output_fn
  if_linkoutput :: linkoutput_fn
  if_state :: "nat option"
  if_dhcp :: "nat option"
  if_mtu :: u16
  if_hwaddr_len :: u8
  if_hwaddr :: "u8 list"
  if_flags :: u8
  if_name :: string
  if_num :: u8

definition NETIF_FLAG_UP :: u8 where "NETIF_FLAG_UP = 0x01"
definition NETIF_FLAG_BROADCAST :: u8 where "NETIF_FLAG_BROADCAST = 0x02"
definition NETIF_FLAG_LINK_UP :: u8 where "NETIF_FLAG_LINK_UP = 0x10"
definition NETIF_FLAG_ETHARP :: u8 where "NETIF_FLAG_ETHARP = 0x20"

lemmas netif_flag_defs =
  NETIF_FLAG_UP_def NETIF_FLAG_BROADCAST_def NETIF_FLAG_LINK_UP_def NETIF_FLAG_ETHARP_def

text \<open>A zero-initialised static netif.\<close>

definition netif_zero :: netif where
  "netif_zero = \<lparr>if_ip_addr = 0, if_netmask = 0, if_gw = 0, if_output = No_output,
     if_linkoutput = No_linkoutput, if_state = None, if_dhcp = None, if_mtu = 0,
     if_hwaddr_len = 0, if_hwaddr = replicate 6 0, if_flags = 0, if_name = [CHR 0x00, CHR 0x00], if_num = 0\<rparr>"

definition netif_is_up :: "netif \<Rightarrow> bool" where
  "netif_is_up n \<longleftrightarrow> if_flags n AND NETIF_FLAG_UP \<noteq> 0"

section \<open>Address macros\<close>

definition IPADDR_ANY :: u32 where "IPADDR_ANY = 0"
definition IPADDR_BROADCAST :: u32 where "IPADDR_BROADCAST = 0xffffffff"

definition ip_addr_netcmp :: "u32 \<Rightarrow> u32 \<Rightarrow> u32 \<Rightarrow> bool" where
  "ip_addr_netcmp a b m \<longleftrightarrow> a AND m = b AND m"

definition ip_addr_isany :: "u32 \<Rightarrow> bool" where
  "ip_addr_isany a \<longleftrightarrow> a = IPADDR_ANY"

definition ip_addr_ismulticast :: "u32 \<Rightarrow> bool" where
  "ip_addr_ismulticast a \<longleftrightarrow> a AND 0xf0000000 = 0xe0000000"

definition ip_addr_islinklocal :: "u32 \<Rightarrow> bool" where
  "ip_addr_islinklocal a \<longleftrightarrow> a AND 0xffff0000 = 0xa9fe0000"

definition IP4_ADDR :: "u8 \<Rightarrow> u8 \<Rightarrow> u8 \<Rightarrow> u8 \<Rightarrow> u32" where
  "IP4_ADDR a b c d = mk32 a b c d"

definition ip4_addr_isbroadcast :: "u32 \<Rightarrow> netif \<Rightarrow> bool" where
  "ip4_addr_isbroadcast addr n =
     (if NOT addr = IPADDR_ANY \<or> addr = IPADDR_ANY then True
      else if if_flags n AND NETIF_FLAG_BROADCAST = 0 then False
      else if addr = if_ip_addr n then False
      else if ip_addr_netcmp addr (if_ip_addr n) (if_netmask n)
            \<and> addr AND NOT (if_netmask n) = IPADDR_BROADCAST AND NOT (if_netmask n) then True
      else False)"

text \<open>\<open>ip4_addr_netmask_valid\<close>: look for the first zero bit, then for a one after it.\<close>

lemma unat_drop_bit_1_less: "m \<noteq> 0 \<Longrightarrow> unat (drop_bit 1 m) < unat m" for m :: u32
  by (simp add: drop_bit_eq_div unat_div word_neq_0_conv unat_gt_0)

function netmask_first_zero :: "u32 \<Rightarrow> u32 \<Rightarrow> u32" where
  "netmask_first_zero nm m =
     (if m = 0 then m else if nm AND m = 0 then m else netmask_first_zero nm (drop_bit 1 m))"
  by pat_completeness auto
termination
  by (relation "measure (\<lambda>(nm, m). unat m)") (auto simp: unat_drop_bit_1_less simp del: One_nat_def)

function netmask_no_one :: "u32 \<Rightarrow> u32 \<Rightarrow> bool" where
  "netmask_no_one nm m =
     (if m = 0 then True else if nm AND m \<noteq> 0 then False else netmask_no_one nm (drop_bit 1 m))"
  by pat_completeness auto
termination
  by (relation "measure (\<lambda>(nm, m). unat m)") (auto simp: unat_drop_bit_1_less simp del: One_nat_def)

definition ip4_addr_netmask_valid :: "u32 \<Rightarrow> bool" where
  "ip4_addr_netmask_valid netmask =
     (let nm = htonl netmask in netmask_no_one nm (netmask_first_zero nm (push_bit 31 1)))"

declare netmask_first_zero.simps [simp del] netmask_no_one.simps [simp del]

section \<open>Character classes\<close>

definition chr_code :: "char \<Rightarrow> nat" where
  "chr_code c = of_char c"

definition in_range :: "char \<Rightarrow> nat \<Rightarrow> nat \<Rightarrow> bool" where
  "in_range c lo up \<longleftrightarrow> lo \<le> chr_code c \<and> chr_code c \<le> up"

definition isdigit :: "char \<Rightarrow> bool" where
  "isdigit c \<longleftrightarrow> in_range c 48 57"

definition isxdigit :: "char \<Rightarrow> bool" where
  "isxdigit c \<longleftrightarrow> isdigit c \<or> in_range c 97 102 \<or> in_range c 65 70"

definition islower :: "char \<Rightarrow> bool" where
  "islower c \<longleftrightarrow> in_range c 97 122"

definition isspace :: "char \<Rightarrow> bool" where
  "isspace c \<longleftrightarrow> chr_code c \<in> {32, 12, 10, 13, 9, 11}"

section \<open>Parsing: ipaddr\_aton\<close>

text \<open>
  A C string is a list of characters without its terminator; \<open>cur\<close> is \<open>*cp\<close>, which is NUL at the end.
\<close>

definition cur :: "string \<Rightarrow> char" where
  "cur cp = (case cp of [] \<Rightarrow> CHR 0x00 | c # _ \<Rightarrow> c)"

text \<open>The inner loop that collects the digits of one number, with the 32-bit wrap-around of \<open>val\<close>.\<close>

fun aton_digits :: "u32 \<Rightarrow> u32 \<Rightarrow> string \<Rightarrow> u32 \<times> string" where
  "aton_digits base val [] = (val, [])"
| "aton_digits base val (c # cp) =
     (if isdigit c then aton_digits base (val * base + of_nat (chr_code c - 48)) cp
      else if base = 16 \<and> isxdigit c then
        aton_digits base
          (push_bit 4 val OR of_nat (chr_code c + 10 - (if islower c then 97 else 65))) cp
      else (val, c # cp))"

text \<open>One number: \<open>0x\<close> is hexadecimal, a leading \<open>0\<close> octal, otherwise decimal.\<close>

definition aton_number :: "string \<Rightarrow> (u32 \<times> string) option" where
  "aton_number cp =
     (if \<not> isdigit (cur cp) then None
      else if cur cp = CHR ''0'' then
        (let cp = tl cp in
         if cur cp = CHR ''x'' \<or> cur cp = CHR ''X'' then Some (aton_digits 16 0 (tl cp))
         else Some (aton_digits 8 0 cp))
      else Some (aton_digits 10 0 cp))"

text \<open>
  The outer loop. \<open>parts\<close> holds the numbers stored so far and \<open>room\<close> is \<open>parts + 3 - pp\<close>, the number
  of dots still allowed.
\<close>

fun aton_parts :: "nat \<Rightarrow> u32 list \<Rightarrow> string \<Rightarrow> (u32 list \<times> u32 \<times> string) option" where
  "aton_parts room parts cp =
     (case aton_number cp of
        None \<Rightarrow> None
      | Some (val, cp) \<Rightarrow>
          if cur cp = CHR ''.'' then
            (case room of 0 \<Rightarrow> None | Suc r \<Rightarrow> aton_parts r (parts @ [val]) (tl cp))
          else Some (parts, val, cp))"

declare aton_parts.simps [simp del]

text \<open>The final \<open>switch\<close>: only the last number is checked against the width of its part.\<close>

definition aton_concoct :: "u32 list \<Rightarrow> u32 \<Rightarrow> u32 option" where
  "aton_concoct parts val =
     (case parts of
        [] \<Rightarrow> Some val
      | [p0] \<Rightarrow> if val > 0xffffff then None else Some (val OR push_bit 24 p0)
      | [p0, p1] \<Rightarrow>
          if val > 0xffff then None else Some (val OR (push_bit 24 p0 OR push_bit 16 p1))
      | [p0, p1, p2] \<Rightarrow>
          if val > 0xff then None
          else Some (val OR (push_bit 24 p0 OR push_bit 16 p1 OR push_bit 8 p2))
      | _ \<Rightarrow> Some val)"

definition ipaddr_aton :: "string \<Rightarrow> u32 option" where
  "ipaddr_aton cp =
     (case aton_parts 3 [] cp of
        None \<Rightarrow> None
      | Some (parts, val, cp) \<Rightarrow>
          if cur cp \<noteq> CHR 0x00 \<and> \<not> isspace (cur cp) then None
          else map_option htonl (aton_concoct parts val))"

section \<open>Printing: ipaddr\_ntoa\_r\<close>

text \<open>The \<open>do \<dots> while\<close> loop that splits one byte into digits, least significant first.\<close>

function inv_digits :: "u8 \<Rightarrow> string" where
  "inv_digits ap = char_of (48 + unat (ap mod 10)) #
     (if ap div 10 = 0 then [] else inv_digits (ap div 10))"
  by pat_completeness auto
termination
proof (relation "measure unat")
  show "wf (measure unat)" by simp
  fix ap :: u8
  assume "ap div 10 \<noteq> 0"
  then have "ap \<noteq> 0" by auto
  then have "0 < unat ap" by (simp add: unat_gt_0)
  then show "(ap div 10, ap) \<in> measure unat" by (simp add: unat_div)
qed

declare inv_digits.simps [simp del]

text \<open>\<open>if (len++ >= buflen) return NULL; *rp++ = c\<close> for each character of a run.\<close>

fun emit :: "nat \<Rightarrow> string \<Rightarrow> string \<Rightarrow> string option" where
  "emit buflen out [] = Some out"
| "emit buflen out (c # cs) =
     (if length out \<ge> buflen then None else emit buflen (out @ [c]) cs)"

text \<open>The loop over the four bytes: the digits in reverse, then a dot.\<close>

fun ntoa_bytes :: "nat \<Rightarrow> string \<Rightarrow> u8 list \<Rightarrow> string option" where
  "ntoa_bytes buflen out [] = Some out"
| "ntoa_bytes buflen out (ap # aps) =
     (case emit buflen out (rev (inv_digits ap)) of
        None \<Rightarrow> None
      | Some out \<Rightarrow>
          (case emit buflen out [CHR ''.''] of
             None \<Rightarrow> None
           | Some out \<Rightarrow> ntoa_bytes buflen out aps))"

text \<open>The last dot is overwritten with the terminator. \<open>None\<close> is the NULL result.\<close>

definition ipaddr_ntoa_r :: "u32 \<Rightarrow> nat \<Rightarrow> string option" where
  "ipaddr_ntoa_r addr buflen = map_option butlast (ntoa_bytes buflen [] (be32 addr))"

text \<open>The text the callers print: every caller passes a 16-byte buffer.\<close>

definition ipaddr_ntoa :: "u32 \<Rightarrow> string" where
  "ipaddr_ntoa addr = (case ipaddr_ntoa_r addr 16 of None \<Rightarrow> [] | Some s \<Rightarrow> s)"

section \<open>Lemmas: decimal digits of a byte\<close>

definition digit_chr :: "nat \<Rightarrow> char" where
  "digit_chr d = char_of (48 + d)"

definition byte_digits :: "nat \<Rightarrow> nat list" where
  "byte_digits n =
     (if n < 10 then [n]
      else if n < 100 then [n div 10, n mod 10]
      else [n div 100, n div 10 mod 10, n mod 10])"

lemma chr_code_digit_chr [simp]: "d < 10 \<Longrightarrow> chr_code (digit_chr d) = 48 + d"
  by (simp add: chr_code_def digit_chr_def of_char_of)

lemma isdigit_digit_chr [simp]: "d < 10 \<Longrightarrow> isdigit (digit_chr d)"
  by (simp add: isdigit_def in_range_def)

lemma byte_digits_less: "n < 256 \<Longrightarrow> d \<in> set (byte_digits n) \<Longrightarrow> d < 10"
  by (auto simp: byte_digits_def split: if_splits)

lemma length_byte_digits: "length (byte_digits n) \<le> 3"
  by (simp add: byte_digits_def)

lemma foldl_byte_digits: "foldl (\<lambda>v d. v * 10 + d) 0 (byte_digits n) = n"
proof -
  have "n div 100 * 10 + n div 10 mod 10 = n div 10"
    using div_mult_mod_eq [of "n div 10" 10] by (simp only: div_mult2_eq [symmetric]) simp
  then have "(n div 100 * 10 + n div 10 mod 10) * 10 + n mod 10 = n"
    by (simp only: div_mult_mod_eq)
  then show ?thesis by (simp add: byte_digits_def)
qed

lemma unat_ten_u8 [simp]: "unat (10 :: u8) = 10"
  by simp

lemma u8_div10_eq_0: "ap div 10 = 0 \<longleftrightarrow> unat ap < 10" for ap :: u8
proof -
  have "ap div 10 = 0 \<longleftrightarrow> unat (ap div 10) = 0" by (metis unat_0 unat_eq_zero)
  also have "\<dots> \<longleftrightarrow> unat ap div 10 = 0" by (simp only: unat_div unat_ten_u8)
  also have "\<dots> \<longleftrightarrow> unat ap < 10" by (simp add: div_eq_0_iff)
  finally show ?thesis .
qed

lemma inv_digits_small: "unat ap < 10 \<Longrightarrow> inv_digits ap = [digit_chr (unat ap)]"
  by (subst inv_digits.simps) (simp add: u8_div10_eq_0 digit_chr_def unat_mod)

lemma inv_digits_step:
  "10 \<le> unat ap \<Longrightarrow> inv_digits ap = digit_chr (unat ap mod 10) # inv_digits (ap div 10)"
  by (subst inv_digits.simps) (simp add: u8_div10_eq_0 digit_chr_def unat_mod)

lemma rev_inv_digits: "rev (inv_digits ap) = map digit_chr (byte_digits (unat ap))"
proof -
  have b: "unat ap < 256" using unsigned_less [of ap] by simp
  have d1: "unat (ap div 10) = unat ap div 10" by (simp add: unat_div)
  have d2: "unat (ap div 10 div 10) = unat ap div 10 div 10" by (simp add: unat_div)
  consider "unat ap < 10" | "10 \<le> unat ap" "unat ap < 100" | "100 \<le> unat ap" by linarith
  then show ?thesis
  proof cases
    case 1
    then show ?thesis by (simp add: inv_digits_small byte_digits_def)
  next
    case 2
    then have "inv_digits (ap div 10) = [digit_chr (unat ap div 10)]"
      using d1 by (simp add: inv_digits_small)
    with 2 show ?thesis by (simp add: inv_digits_step byte_digits_def)
  next
    case 3
    have "unat (ap div 10 div 10) < 10" unfolding d2 using b by linarith
    then have "inv_digits (ap div 10 div 10) = [digit_chr (unat ap div 10 div 10)]"
      using d2 by (simp add: inv_digits_small)
    moreover have "inv_digits (ap div 10) =
        digit_chr (unat ap div 10 mod 10) # inv_digits (ap div 10 div 10)"
      using 3 d1 by (simp add: inv_digits_step)
    ultimately show ?thesis
      using 3 by (simp add: inv_digits_step byte_digits_def div_mult2_eq [symmetric])
  qed
qed

lemma length_rev_inv_digits: "length (rev (inv_digits ap)) \<le> 3"
  by (simp only: rev_inv_digits length_map length_byte_digits)

lemma emit_Some: "length out + length cs \<le> buflen \<Longrightarrow> emit buflen out cs = Some (out @ cs)"
  by (induction cs arbitrary: out) auto

text \<open>The printed form without the buffer check: each byte in decimal and a dot.\<close>

definition dotted :: "u8 list \<Rightarrow> string" where
  "dotted aps = concat (map (\<lambda>ap. map digit_chr (byte_digits (unat ap)) @ ''.'') aps)"

lemma length_dotted: "length (dotted aps) \<le> 4 * length aps"
proof (induction aps)
  case Nil
  then show ?case by (simp add: dotted_def)
next
  case (Cons ap aps)
  then show ?case using length_byte_digits [of "unat ap"] by (simp add: dotted_def)
qed

lemma ntoa_bytes_Some:
  "length out + 4 * length aps \<le> buflen \<Longrightarrow> ntoa_bytes buflen out aps = Some (out @ dotted aps)"
proof (induction aps arbitrary: out)
  case Nil
  then show ?case by (simp add: dotted_def)
next
  case (Cons ap aps)
  let ?ds = "rev (inv_digits ap)"
  have l: "length ?ds \<le> 3" by (rule length_rev_inv_digits)
  have 1: "emit buflen out ?ds = Some (out @ ?ds)"
    by (rule emit_Some) (use l Cons.prems in simp)
  have 2: "emit buflen (out @ ?ds) ''.'' = Some (out @ ?ds @ ''.'')"
    by (subst emit_Some) (use l Cons.prems in simp_all)
  have "ntoa_bytes buflen (out @ ?ds @ ''.'') aps = Some ((out @ ?ds @ ''.'') @ dotted aps)"
    by (rule Cons.IH) (use l Cons.prems in simp)
  with 1 2 show ?case by (simp add: dotted_def rev_inv_digits)
qed

lemma ipaddr_ntoa_r_Some: "ipaddr_ntoa_r addr 16 = Some (butlast (dotted (be32 addr)))"
  using ntoa_bytes_Some [of "[]" "be32 addr" 16] by (simp add: ipaddr_ntoa_r_def)

lemma ipaddr_ntoa_dotted: "ipaddr_ntoa addr = butlast (dotted (be32 addr))"
  by (simp add: ipaddr_ntoa_def ipaddr_ntoa_r_Some)

lemma length_ipaddr_ntoa: "length (ipaddr_ntoa addr) \<le> 15"
  using length_dotted [of "be32 addr"] by (simp add: ipaddr_ntoa_dotted)

section \<open>Lemmas: parsing what was printed\<close>

lemma aton_digits_decimal:
  assumes "\<forall>d \<in> set ds. d < 10" and "\<not> isdigit (cur rest)"
  shows "aton_digits 10 v (map digit_chr ds @ rest) = (foldl (\<lambda>v d. v * 10 + of_nat d) v ds, rest)"
  using assms
proof (induction ds arbitrary: v)
  case Nil
  then show ?case by (cases rest) (auto simp: cur_def)
next
  case (Cons d ds)
  then show ?case by simp
qed

lemma aton_digits_stop: "\<not> isdigit (cur rest) \<Longrightarrow> base \<noteq> 16 \<Longrightarrow> aton_digits base v rest = (v, rest)"
  by (cases rest) (auto simp: cur_def)

lemma foldl_of_nat:
  "foldl (\<lambda>v d. v * 10 + of_nat d) (of_nat v) ds = (of_nat (foldl (\<lambda>v d. v * 10 + d) v ds) :: u32)"
proof (induction ds arbitrary: v)
  case Nil
  then show ?case by simp
next
  case (Cons d ds)
  have "of_nat v * 10 + of_nat d = (of_nat (v * 10 + d) :: u32)" by simp
  then show ?case by (simp only: foldl.simps Cons)
qed

lemma hd_byte_digits:
  assumes "n < 256" and "n \<noteq> 0"
  shows "hd (byte_digits n) \<noteq> 0 \<and> hd (byte_digits n) < 10"
proof -
  have "10 \<le> n \<Longrightarrow> n < 100 \<Longrightarrow> n div 10 \<noteq> 0 \<and> n div 10 < 10"
    by (simp add: div_eq_0_iff less_mult_imp_div_less)
  moreover have "100 \<le> n \<Longrightarrow> n div 100 \<noteq> 0 \<and> n div 100 < 10"
    using assms by (simp add: div_eq_0_iff less_mult_imp_div_less)
  ultimately show ?thesis using assms by (simp add: byte_digits_def)
qed

lemma digit_chr_eq_0: "d < 10 \<Longrightarrow> digit_chr d = CHR ''0'' \<longleftrightarrow> d = 0"
proof -
  assume d: "d < 10"
  have "digit_chr d = CHR ''0'' \<longleftrightarrow> chr_code (digit_chr d) = chr_code (CHR ''0'')"
    unfolding chr_code_def by (rule of_char_eq_iff [symmetric])
  also have "\<dots> \<longleftrightarrow> 48 + d = 48"
    unfolding chr_code_digit_chr [OF d] by (simp add: chr_code_def)
  finally show ?thesis by simp
qed

lemma aton_number_decimal:
  assumes n: "n < 256" and stop: "\<not> isdigit (cur rest)"
    and nox: "cur rest \<noteq> CHR ''x''" "cur rest \<noteq> CHR ''X''"
  shows "aton_number (map digit_chr (byte_digits n) @ rest) = Some (of_nat n, rest)"
proof (cases "n = 0")
  case True
  have "aton_number (digit_chr 0 # rest) = Some (aton_digits 8 0 rest)"
    using nox by (simp add: aton_number_def cur_def digit_chr_eq_0)
  with True stop show ?thesis by (simp add: byte_digits_def aton_digits_stop)
next
  case False
  let ?ds = "byte_digits n"
  obtain d ds where ds: "?ds = d # ds" by (cases ?ds) (auto simp: byte_digits_def split: if_splits)
  have d: "d \<noteq> 0" "d < 10" using hd_byte_digits [OF n False] ds by auto
  have "aton_number (map digit_chr ?ds @ rest) = Some (aton_digits 10 0 (map digit_chr ?ds @ rest))"
    using d by (simp add: aton_number_def cur_def ds digit_chr_eq_0)
  also have "aton_digits 10 0 (map digit_chr ?ds @ rest) =
      (foldl (\<lambda>v d. v * 10 + of_nat d) (of_nat 0) ?ds, rest)"
    using aton_digits_decimal [of ?ds rest 0] byte_digits_less [OF n] stop by simp
  also have "\<dots> = (of_nat n, rest)"
    by (simp only: foldl_of_nat foldl_byte_digits)
  finally show ?thesis .
qed

lemma cur_dot [simp]: "cur (CHR ''.'' # rest) = CHR ''.''"
  by (simp add: cur_def)

lemma not_isdigit_dot [simp]: "\<not> isdigit (CHR ''.'')" "\<not> isdigit (CHR 0x00)"
  by (simp_all add: isdigit_def in_range_def chr_code_def)

lemma aton_parts_dot:
  "n < 256 \<Longrightarrow> aton_parts (Suc r) parts (map digit_chr (byte_digits n) @ CHR ''.'' # rest) =
     aton_parts r (parts @ [of_nat n]) rest"
  by (subst aton_parts.simps) (simp add: aton_number_decimal)

lemma aton_parts_end:
  "n < 256 \<Longrightarrow> aton_parts r parts (map digit_chr (byte_digits n)) = Some (parts, of_nat n, [])"
  using aton_number_decimal [of n "[]"] by (subst aton_parts.simps) (simp add: cur_def)

lemma aton_concoct_bytes:
  "aton_concoct [ucast a, ucast b, ucast c] (ucast d) = Some (mk32 a b c d)" for a b c d :: u8
proof -
  have "unat (ucast d :: u32) \<le> unat (0xff :: u32)"
    using le_less_trans [OF take_bit_nat_less_eq_self [of 32 "unat d"] unat_u8_less]
    by (simp add: unsigned_ucast_eq)
  then have "(ucast d :: u32) \<le> 0xff" by (simp only: word_le_nat_alt)
  then show ?thesis
    by (simp add: aton_concoct_def mk32_def not_less or.assoc or.commute or.left_commute)
qed

lemma dotted4:
  "butlast (dotted [a, b, c, d]) =
     map digit_chr (byte_digits (unat a)) @ CHR ''.'' #
     map digit_chr (byte_digits (unat b)) @ CHR ''.'' #
     map digit_chr (byte_digits (unat c)) @ CHR ''.'' #
     map digit_chr (byte_digits (unat d))"
  by (simp add: dotted_def butlast_append)

lemma aton_ntoa: "ipaddr_aton (ipaddr_ntoa addr) = Some addr"
proof -
  obtain a b c d where abcd: "be32 addr = [a, b, c, d]" by (simp add: be32_def)
  then have addr: "mk32 a b c d = addr" by (auto simp: be32_def)
  have parts: "aton_parts 3 [] (butlast (dotted [a, b, c, d])) =
      Some ([ucast a, ucast b, ucast c], ucast d, [])"
    by (simp add: dotted4 numeral_3_eq_3 aton_parts_dot aton_parts_end)
  show ?thesis
    unfolding ipaddr_aton_def ipaddr_ntoa_dotted abcd parts
    by (simp add: cur_def aton_concoct_bytes addr)
qed

interpretation ip_text: text_form ipaddr_ntoa ipaddr_aton 15
  by unfold_locales (rule aton_ntoa length_ipaddr_ntoa)+

section \<open>Lemmas: netmasks\<close>

lemma bit_power_u32: "bit ((2 :: u32) ^ j) i \<longleftrightarrow> i = j \<and> j < 32"
  by (auto simp: bit_exp_iff)

lemma power_neq_0_u32: "j < 32 \<Longrightarrow> (2 :: u32) ^ j \<noteq> 0"
  using bit_power_u32 [of j j] by auto

lemma and_power_eq_0: "j < 32 \<Longrightarrow> nm AND 2 ^ j = 0 \<longleftrightarrow> \<not> bit nm j" for nm :: u32
proof -
  assume j: "j < 32"
  have "nm AND 2 ^ j = (if bit nm j then 2 ^ j else 0)"
    by (rule bit_word_eqI) (auto simp: bit_and_iff bit_power_u32)
  with power_neq_0_u32 [OF j] show ?thesis by simp
qed

lemma drop_bit_1_power: "drop_bit 1 ((2 :: u32) ^ Suc j) = 2 ^ j" if "Suc j < 32"
  using that
  by (intro bit_word_eqI) (auto simp: bit_drop_bit_eq bit_power_u32 simp del: power_Suc)

lemma netmask_no_one_power:
  "j < 32 \<Longrightarrow> netmask_no_one nm (2 ^ j) \<longleftrightarrow> (\<forall>i \<le> j. \<not> bit nm i)"
proof (induction j)
  case 0
  have "drop_bit 1 (1 :: u32) = 0" by simp
  with 0 show ?case
    using and_power_eq_0 [of 0 nm]
    by (subst netmask_no_one.simps, subst netmask_no_one.simps) simp
next
  case (Suc j)
  then have "netmask_no_one nm (2 ^ Suc j) \<longleftrightarrow> \<not> bit nm (Suc j) \<and> netmask_no_one nm (2 ^ j)"
    using and_power_eq_0 [of "Suc j" nm] power_neq_0_u32 [of "Suc j"] drop_bit_1_power [of j]
    by (subst netmask_no_one.simps) (simp del: power_Suc One_nat_def)
  with Suc show ?case by (auto simp: le_Suc_eq simp del: power_Suc)
qed

lemma netmask_scan_power:
  "j < 32 \<Longrightarrow> netmask_no_one nm (netmask_first_zero nm (2 ^ j)) \<longleftrightarrow>
     (\<forall>i k. i < k \<longrightarrow> k \<le> j \<longrightarrow> bit nm i \<longrightarrow> bit nm k)"
proof (induction j)
  case 0
  have "drop_bit 1 (1 :: u32) = 0" by simp
  then have "netmask_first_zero nm 1 = (if bit nm 0 then 0 else 1)"
    using and_power_eq_0 [of 0 nm]
    by (subst netmask_first_zero.simps, subst netmask_first_zero.simps) simp
  moreover have "netmask_no_one nm 0" by (subst netmask_no_one.simps) simp
  ultimately show ?case using netmask_no_one_power [of 0 nm] by auto
next
  case (Suc j)
  show ?case
  proof (cases "bit nm (Suc j)")
    case True
    then have "netmask_first_zero nm (2 ^ Suc j) = netmask_first_zero nm (2 ^ j)"
      using Suc.prems and_power_eq_0 [of "Suc j" nm] drop_bit_1_power [of j]
      by (subst netmask_first_zero.simps) (simp add: power_neq_0_u32 del: power_Suc One_nat_def)
    with Suc True show ?thesis by (auto simp: le_Suc_eq simp del: power_Suc)
  next
    case False
    then have "netmask_first_zero nm (2 ^ Suc j) = 2 ^ Suc j"
      using Suc.prems and_power_eq_0 [of "Suc j" nm]
      by (subst netmask_first_zero.simps) (simp del: power_Suc)
    then have "netmask_no_one nm (netmask_first_zero nm (2 ^ Suc j)) \<longleftrightarrow> (\<forall>i \<le> Suc j. \<not> bit nm i)"
      using Suc.prems by (simp only: netmask_no_one_power)
    also have "\<dots> \<longleftrightarrow> (\<forall>i k. i < k \<longrightarrow> k \<le> Suc j \<longrightarrow> bit nm i \<longrightarrow> bit nm k)"
      using False by (metis le_Suc_eq less_Suc_eq_le less_imp_le order_less_le_trans)
    finally show ?thesis .
  qed
qed

lemma netmask_valid_iff:
  "ip4_addr_netmask_valid m \<longleftrightarrow> (\<forall>i k. i < k \<longrightarrow> k < 32 \<longrightarrow> bit m i \<longrightarrow> bit m k)"
  using netmask_scan_power [of 31 m]
  by (simp add: ip4_addr_netmask_valid_def push_bit_eq_mult less_Suc_eq_le [symmetric])

end
