(* ===== verification/Pbuf.thy ===== *)
theory Pbuf
  imports Lwip_Prelude
begin

text \<open>
  Packet buffers (\<open>core/pbuf.c\<close>). A pbuf chain is the list of its elements, each with its type, the bytes of
  its memory in front of the payload and its payload; \<open>len\<close> and \<open>tot_len\<close> are lengths of these lists.
  Reference counts and the return of memory to the pools are the subject of \<open>Pbuf_Store\<close>. An allocation may fail:
  \<open>ms_alloc\<close> lists the outcomes of the coming calls of the allocators (\<open>mem_malloc\<close>, \<open>memp_malloc\<close>; when
  it is exhausted they succeed), and \<open>ms_junk\<close> gives the contents of fresh memory.
\<close>

section \<open>Buffers and allocation\<close>

datatype pbuf_layer = PBUF_TRANSPORT | PBUF_IP | PBUF_LINK | PBUF_RAW
datatype pbuf_type = PBUF_RAM | PBUF_ROM | PBUF_REF | PBUF_POOL

record pseg =
  ps_type :: pbuf_type
  ps_hidden :: "u8 list"
  ps_payload :: "u8 list"

type_synonym pbuf = "pseg list"

record mem_st =
  ms_alloc :: "bool list"
  ms_junk :: "nat \<Rightarrow> u8"

definition pbuf_bytes :: "pbuf \<Rightarrow> u8 list" where
  "pbuf_bytes p = concat (map ps_payload p)"

definition pbuf_len :: "pbuf \<Rightarrow> nat" where
  "pbuf_len p = (case p of [] \<Rightarrow> 0 | s # _ \<Rightarrow> length (ps_payload s))"

definition pbuf_tot_len :: "pbuf \<Rightarrow> nat" where
  "pbuf_tot_len p = sum_list (map (\<lambda>s. length (ps_payload s)) p)"

definition mem_ok :: "mem_st \<Rightarrow> bool \<times> mem_st" where
  "mem_ok m = (case ms_alloc m of [] \<Rightarrow> (True, m) | b # bs \<Rightarrow> (b, m\<lparr>ms_alloc := bs\<rparr>))"

definition junk_bytes :: "mem_st \<Rightarrow> nat \<Rightarrow> u8 list" where
  "junk_bytes m n = map (ms_junk m) [0..<n]"

definition layer_offset :: "pbuf_layer \<Rightarrow> nat" where
  "layer_offset l = (case l of PBUF_TRANSPORT \<Rightarrow> 14 + 20 + 20 | PBUF_IP \<Rightarrow> 14 + 20 | PBUF_LINK \<Rightarrow> 14
     | PBUF_RAW \<Rightarrow> 0)"

definition LWIP_MEM_ALIGN_SIZE :: "nat \<Rightarrow> nat" where
  "LWIP_MEM_ALIGN_SIZE n = (n + 3) div 4 * 4"

definition PBUF_POOL_BUFSIZE :: nat where
  "PBUF_POOL_BUFSIZE = 256"

text \<open>The loop that appends pool pbufs until \<open>rem_len\<close> bytes are covered.\<close>

function pool_tail :: "nat \<Rightarrow> mem_st \<Rightarrow> pbuf option \<times> mem_st" where
  "pool_tail rem_len m =
     (if rem_len = 0 then (Some [], m)
      else case mem_ok m of
        (False, m) \<Rightarrow> (None, m)
      | (True, m) \<Rightarrow>
         (let l = min rem_len PBUF_POOL_BUFSIZE;
              q = \<lparr>ps_type = PBUF_POOL, ps_hidden = [], ps_payload = junk_bytes m l\<rparr>
          in case pool_tail (rem_len - l) m of
               (None, m) \<Rightarrow> (None, m)
             | (Some r, m) \<Rightarrow> (Some (q # r), m)))"
  by pat_completeness auto
termination
  by (relation "measure fst") (auto simp: PBUF_POOL_BUFSIZE_def)

declare pool_tail.simps [simp del]

definition pbuf_alloc :: "pbuf_layer \<Rightarrow> nat \<Rightarrow> pbuf_type \<Rightarrow> mem_st \<Rightarrow> pbuf option \<times> mem_st" where
  "pbuf_alloc layer len type m =
     (let off = LWIP_MEM_ALIGN_SIZE (layer_offset layer) in
      case mem_ok m of
        (False, m) \<Rightarrow> (None, m)
      | (True, m) \<Rightarrow>
         (case type of
            PBUF_POOL \<Rightarrow>
              (let l = min len (PBUF_POOL_BUFSIZE - off);
                   p = \<lparr>ps_type = type, ps_hidden = junk_bytes m off, ps_payload = junk_bytes m l\<rparr>
               in case pool_tail (len - l) m of
                    (None, m) \<Rightarrow> (None, m)
                  | (Some r, m) \<Rightarrow> (Some (p # r), m))
          | PBUF_RAM \<Rightarrow>
              (Some [\<lparr>ps_type = type, ps_hidden = junk_bytes m off, ps_payload = junk_bytes m len\<rparr>], m)
          | _ \<Rightarrow>
              (Some [\<lparr>ps_type = type, ps_hidden = [], ps_payload = junk_bytes m len\<rparr>], m)))"

section \<open>Operations on chains\<close>

fun realloc_segs :: "nat \<Rightarrow> pbuf \<Rightarrow> pbuf" where
  "realloc_segs rem_len [] = []"
| "realloc_segs rem_len (q # qs) =
     (if rem_len > length (ps_payload q) then q # realloc_segs (rem_len - length (ps_payload q)) qs
      else [q\<lparr>ps_payload := take rem_len (ps_payload q)\<rparr>])"

definition pbuf_realloc :: "pbuf \<Rightarrow> nat \<Rightarrow> pbuf" where
  "pbuf_realloc p new_len = (if new_len \<ge> pbuf_tot_len p then p else realloc_segs new_len p)"

text \<open>\<open>pbuf_header\<close>: \<open>None\<close> when the code returns non-zero. The increment is signed.\<close>

definition pbuf_header :: "pbuf \<Rightarrow> int \<Rightarrow> pbuf option" where
  "pbuf_header p inc =
     (case p of
        [] \<Rightarrow> Some []
      | s # qs \<Rightarrow>
         if inc = 0 then Some p
         else if inc < 0 then
           (let k = nat (- inc) in
            if k \<le> length (ps_payload s)
            then Some (s\<lparr>ps_hidden := ps_hidden s @ take k (ps_payload s),
                         ps_payload := drop k (ps_payload s)\<rparr> # qs)
            else None)
         else
           (let k = nat inc; h = ps_hidden s in
            if ps_type s \<in> {PBUF_RAM, PBUF_POOL} \<and> k \<le> length h
            then Some (s\<lparr>ps_hidden := take (length h - k) h,
                         ps_payload := drop (length h - k) h @ ps_payload s\<rparr> # qs)
            else None))"

definition pbuf_clen :: "pbuf \<Rightarrow> nat" where
  "pbuf_clen p = length p mod 256"

definition pbuf_chain :: "pbuf \<Rightarrow> pbuf \<Rightarrow> pbuf" where
  "pbuf_chain h t = h @ t"

text \<open>
  \<open>pbuf_copy\<close>, on the payloads: \<open>done\<close> are the target elements already left behind, \<open>oto\<close> and \<open>ofrom\<close> the
  offsets into the current ones. Each round exhausts the target element, the source element or both.
\<close>

definition queue_check :: "u8 list list \<Rightarrow> bool" where
  "queue_check c = (case c of [] \<Rightarrow> True | x # r \<Rightarrow> sum_list (map length r) = 0 \<longrightarrow> r = [])"

function copy_loop ::
    "u8 list list \<Rightarrow> nat \<Rightarrow> u8 list list \<Rightarrow> nat \<Rightarrow> u8 list list \<Rightarrow> err_t \<times> u8 list list" where
  "copy_loop done oto [] ofrom from = (ERR_ARG, done)"
| "copy_loop done oto (t # ts) ofrom [] = (ERR_OK, done @ t # ts)"
| "copy_loop done oto (t # ts) ofrom (f # fs) =
     (let n = min (length f - ofrom) (length t - oto);
          t' = put_bytes oto (take n (drop ofrom f)) t
      in if length t - oto < length f - ofrom then
           (if ts = [] then (ERR_ARG, done @ [t'])
            else if \<not> queue_check (f # fs) \<or> \<not> queue_check ts then (ERR_VAL, done @ t' # ts)
            else copy_loop (done @ [t']) 0 ts (ofrom + n) (f # fs))
         else if length t - oto = length f - ofrom then
           (if ts = [] \<and> fs \<noteq> [] then (ERR_ARG, done @ [t'])
            else if \<not> queue_check fs \<or> \<not> queue_check ts then (ERR_VAL, done @ t' # ts)
            else if fs = [] then (ERR_OK, done @ t' # ts)
            else copy_loop (done @ [t']) 0 ts 0 fs)
         else
           (if \<not> queue_check fs \<or> \<not> queue_check (t' # ts) then (ERR_VAL, done @ t' # ts)
            else if fs = [] then (ERR_OK, done @ t' # ts)
            else copy_loop done (oto + n) (t' # ts) 0 fs))"
  by pat_completeness auto
termination
  by (relation "measure (\<lambda>(_, _, ts, _, fs). length ts + length fs)") simp_all

declare copy_loop.simps(3) [simp del]

fun set_payloads :: "pbuf \<Rightarrow> u8 list list \<Rightarrow> pbuf" where
  "set_payloads (s # ss) (d # ds) = s\<lparr>ps_payload := d\<rparr> # set_payloads ss ds"
| "set_payloads ss ds = ss"

definition pbuf_copy :: "pbuf \<Rightarrow> pbuf \<Rightarrow> err_t \<times> pbuf" where
  "pbuf_copy p_to p_from =
     (if p_to = [] \<or> p_from = [] \<or> pbuf_tot_len p_to < pbuf_tot_len p_from then (ERR_ARG, p_to)
      else let (e, ds) = copy_loop [] 0 (map ps_payload p_to) 0 (map ps_payload p_from)
           in (e, set_payloads p_to ds))"

text \<open>\<open>pbuf_copy_partial\<close>: the bytes stored at \<open>dataptr\<close>; their number is the returned count.\<close>

fun pbuf_copy_partial :: "pbuf \<Rightarrow> nat \<Rightarrow> nat \<Rightarrow> u8 list" where
  "pbuf_copy_partial [] len off = []"
| "pbuf_copy_partial (p # ps) len off =
     (if len = 0 then []
      else if off \<noteq> 0 \<and> off \<ge> length (ps_payload p)
      then pbuf_copy_partial ps len (off - length (ps_payload p))
      else let n = min (length (ps_payload p) - off) len
           in take n (drop off (ps_payload p)) @ pbuf_copy_partial ps (len - n) 0)"

fun take_segs :: "pbuf \<Rightarrow> u8 list \<Rightarrow> pbuf" where
  "take_segs [] d = []"
| "take_segs (p # ps) d =
     (if d = [] then p # ps
      else let n = min (length d) (length (ps_payload p))
           in p\<lparr>ps_payload := put_bytes 0 (take n d) (ps_payload p)\<rparr> # take_segs ps (drop n d))"

definition pbuf_take :: "pbuf \<Rightarrow> u8 list \<Rightarrow> err_t \<times> pbuf" where
  "pbuf_take p d = (if p = [] \<or> pbuf_tot_len p < length d then (ERR_ARG, p) else (ERR_OK, take_segs p d))"

text \<open>Writing a header structure at the payload pointer of the first pbuf.\<close>

definition pbuf_put :: "nat \<Rightarrow> u8 list \<Rightarrow> pbuf \<Rightarrow> pbuf" where
  "pbuf_put i bs p = (case p of [] \<Rightarrow> [] | s # r \<Rightarrow> s\<lparr>ps_payload := put_bytes i bs (ps_payload s)\<rparr> # r)"

section \<open>Lemmas: allocation\<close>

lemma length_junk_bytes [simp]: "length (junk_bytes m n) = n"
  by (simp add: junk_bytes_def)

lemma pbuf_tot_len_bytes: "pbuf_tot_len p = length (pbuf_bytes p)"
  by (simp add: pbuf_tot_len_def pbuf_bytes_def length_concat comp_def)

lemma pbuf_bytes_simps [simp]: "pbuf_bytes [] = []" "pbuf_bytes (s # p) = ps_payload s @ pbuf_bytes p"
  by (simp_all add: pbuf_bytes_def)

lemma seg_length_le: "x \<in> set p \<Longrightarrow> length (ps_payload x) \<le> length (pbuf_bytes p)"
  by (induction p) auto

lemma pool_tail_length:
  "pool_tail n m = (Some r, m') \<Longrightarrow> length (pbuf_bytes r) = n \<and> (\<forall>s \<in> set r. ps_type s = PBUF_POOL)"
proof (induction n m arbitrary: r m' rule: pool_tail.induct)
  case (1 n m)
  show ?case
  proof (cases "n = 0")
    case True
    with "1.prems" show ?thesis by (simp add: pool_tail.simps [of 0 m])
  next
    case False
    obtain b m1 where b: "mem_ok m = (b, m1)" by (meson surj_pair)
    with "1.prems" False have bT: "b"
      by (cases b) (simp_all add: pool_tail.simps [of n m])
    let ?l = "min n PBUF_POOL_BUFSIZE"
    obtain o1 m2 where o1: "pool_tail (n - ?l) m1 = (o1, m2)" by (meson surj_pair)
    with "1.prems" False b bT obtain r1 where r1: "o1 = Some r1"
      "r = \<lparr>ps_type = PBUF_POOL, ps_hidden = [], ps_payload = junk_bytes m1 ?l\<rparr> # r1"
      by (cases o1) (auto simp: pool_tail.simps [of n m] Let_def)
    have "length (pbuf_bytes r1) = n - ?l \<and> (\<forall>s \<in> set r1. ps_type s = PBUF_POOL)"
      using "1.IH" [OF False b [symmetric] bT [THEN eqTrueI] refl refl] o1 r1(1) bT by simp
    with r1(2) show ?thesis by simp
  qed
qed

lemma pbuf_alloc_Some:
  assumes "pbuf_alloc layer len type m = (Some p, m')"
  shows "pbuf_tot_len p = len \<and> p \<noteq> [] \<and> ps_type (hd p) = type \<and>
    (type = PBUF_RAM \<longrightarrow>
       length p = 1 \<and> length (ps_hidden (hd p)) = LWIP_MEM_ALIGN_SIZE (layer_offset layer))"
  using assms
  by (auto simp: pbuf_alloc_def Let_def pbuf_tot_len_bytes split: prod.splits bool.splits
      pbuf_type.splits option.splits dest!: pool_tail_length)

section \<open>Lemmas: contents\<close>

lemma pbuf_realloc_bytes: "pbuf_bytes (pbuf_realloc p n) = take n (pbuf_bytes p)"
proof -
  have "n < pbuf_tot_len p \<Longrightarrow> pbuf_bytes (realloc_segs n p) = take n (pbuf_bytes p)"
    by (induction n p rule: realloc_segs.induct) (auto simp: pbuf_tot_len_def)
  then show ?thesis by (simp add: pbuf_realloc_def pbuf_tot_len_bytes)
qed

lemma pbuf_copy_partial_bytes: "pbuf_copy_partial p len off = take len (drop off (pbuf_bytes p))"
  by (induction p len off rule: pbuf_copy_partial.induct) (auto simp: Let_def min_def)

lemma put_bytes_0: "length xs \<le> length bs \<Longrightarrow> put_bytes 0 xs bs = xs @ drop (length xs) bs"
  by (simp add: put_bytes_def)

lemma take_segs_bytes:
  "length d \<le> pbuf_tot_len p \<Longrightarrow> pbuf_bytes (take_segs p d) = d @ drop (length d) (pbuf_bytes p)"
proof (induction p d rule: take_segs.induct)
  case (2 p ps d)
  show ?case
  proof (cases "d = []")
    case False
    let ?n = "min (length d) (length (ps_payload p))"
    have "length (drop ?n d) \<le> pbuf_tot_len ps" using "2.prems" by (simp add: pbuf_tot_len_def)
    with "2.IH" False have "pbuf_bytes (take_segs ps (drop ?n d)) =
        drop ?n d @ drop (length d - ?n) (pbuf_bytes ps)" by simp
    then show ?thesis using False by (simp add: Let_def put_bytes_0 min_def)
  qed simp
qed (simp add: pbuf_tot_len_def)

lemma pbuf_take_bytes:
  assumes "p \<noteq> []" and "pbuf_tot_len p = length d"
  shows "fst (pbuf_take p d) = ERR_OK \<and> pbuf_bytes (snd (pbuf_take p d)) = d"
  using assms take_segs_bytes [of d p] by (simp add: pbuf_take_def pbuf_tot_len_bytes)

text \<open>Hiding the bytes that were just revealed, and the other way round, restores the chain.\<close>

lemma pbuf_header_back:
  assumes "pbuf_header p inc = Some q" and "p \<noteq> []" and "ps_type (hd p) \<in> {PBUF_RAM, PBUF_POOL}"
  shows "pbuf_header q (- inc) = Some p"
proof -
  obtain s r where p: "p = s # r" using assms(2) by (cases p) auto
  consider "inc = 0" | "inc < 0" | "inc > 0" by linarith
  then show ?thesis
  proof cases
    case 2
    with assms p show ?thesis by (auto simp: pbuf_header_def Let_def split: if_splits)
  next
    case 3
    let ?h = "ps_hidden s" and ?k = "nat inc"
    from 3 assms p have k: "?k \<le> length ?h"
      and q: "q = s\<lparr>ps_hidden := take (length ?h - ?k) ?h,
        ps_payload := drop (length ?h - ?k) ?h @ ps_payload s\<rparr> # r"
      by (auto simp: pbuf_header_def Let_def split: if_splits)
    with 3 show ?thesis unfolding p by (simp add: pbuf_header_def Let_def)
  qed (use assms p in \<open>auto simp: pbuf_header_def\<close>)
qed

lemma pbuf_header_bytes_hide:
  "pbuf_header p (- int k) = Some q \<Longrightarrow> pbuf_bytes q = drop k (pbuf_bytes p)"
  by (auto simp: pbuf_header_def Let_def split: list.splits if_splits)

lemma pbuf_header_bytes_show:
  assumes "pbuf_header p (int k) = Some q" and "p \<noteq> []"
  shows "drop k (pbuf_bytes q) = pbuf_bytes p \<and> k \<le> pbuf_len q"
  using assms by (auto simp: pbuf_header_def Let_def pbuf_len_def split: list.splits if_splits)

text \<open>Copying into one buffer that is large enough flattens the chain.\<close>

lemma copy_loop_one:
  assumes "oto + length (concat from) \<le> length t" and "\<forall>f \<in> set from. f \<noteq> []" and "from \<noteq> []"
  shows "copy_loop [] oto [t] 0 from = (ERR_OK, [put_bytes oto (concat from) t])"
  using assms
proof (induction "from" arbitrary: oto t)
  case (Cons f fs)
  let ?t = "put_bytes oto f t"
  have f: "oto + length f \<le> length t" "0 < length f" using Cons.prems by auto
  have len: "length ?t = length t" using f(1) by simp
  have q: "queue_check fs" "queue_check [?t]" "queue_check []"
    using Cons.prems(2) by (auto simp: queue_check_def split: list.splits)
  show ?case
  proof (cases "fs = []")
    case True
    with f q len show ?thesis by (auto simp: copy_loop.simps(3) Let_def)
  next
    case False
    then have "0 < length (concat fs)" using Cons.prems(2) by (cases fs) auto
    moreover have "length (concat (f # fs)) = length f + length (concat fs)" by simp
    ultimately have lt: "oto + length f < length t" using Cons.prems(1) by linarith
    have "copy_loop [] oto [t] 0 (f # fs) = copy_loop [] (oto + length f) [?t] 0 fs"
      using f lt q False len by (auto simp: copy_loop.simps(3) Let_def)
    also have "\<dots> = (ERR_OK, [put_bytes (oto + length f) (concat fs) ?t])"
      using Cons.prems False len by (intro Cons.IH) auto
    also have "put_bytes (oto + length f) (concat fs) ?t = put_bytes oto (concat (f # fs)) t"
      using f lt by (auto simp: put_bytes_def min_def ac_simps simp del: length_greater_0_conv)
    finally show ?thesis .
  qed
qed simp

lemma pbuf_copy_one:
  assumes "p_to = [s]" and "length (ps_payload s) = pbuf_tot_len p_from" and "p_from \<noteq> []"
    and "\<forall>f \<in> set p_from. ps_payload f \<noteq> []"
  shows "pbuf_copy p_to p_from = (ERR_OK, [s\<lparr>ps_payload := pbuf_bytes p_from\<rparr>])"
proof -
  have "copy_loop [] 0 [ps_payload s] 0 (map ps_payload p_from) =
      (ERR_OK, [put_bytes 0 (pbuf_bytes p_from) (ps_payload s)])"
    using copy_loop_one [of 0 "map ps_payload p_from" "ps_payload s"] assms
    by (simp add: pbuf_tot_len_bytes pbuf_bytes_def)
  then show ?thesis using assms by (simp add: pbuf_copy_def pbuf_tot_len_bytes put_bytes_def)
qed

end
