(* ===== verification/Etharp.thy ===== *)
theory Etharp
  imports Ip_Addr Pbuf
begin

text \<open>
  Address resolution (\<open>netif/etharp.c\<close>): the ten-entry ARP cache, the output of IP packets through it, and
  the processing of received ARP packets. \<open>ARP_QUEUEING\<close> is off, so an entry holds at most one waiting packet.
  The link state also collects the frames handed to the EMAC driver and the state of the allocators.
  The invariant \<open>arp_wf\<close> (no two entries for one address, packets wait on pending entries only) is preserved by
  every operation; the other lemmas give the functional behaviour of lookup, update, output and input.
\<close>

section \<open>State\<close>

datatype etharp_state =
  ETHARP_STATE_EMPTY | ETHARP_STATE_PENDING | ETHARP_STATE_STABLE | ETHARP_STATE_STABLE_REREQUESTING

text \<open>\<open>state >= ETHARP_STATE_STABLE\<close>\<close>

definition ge_stable :: "etharp_state \<Rightarrow> bool" where
  "ge_stable st \<longleftrightarrow> st = ETHARP_STATE_STABLE \<or> st = ETHARP_STATE_STABLE_REREQUESTING"

record etharp_entry =
  ae_q :: "pbuf option"
  ae_ipaddr :: u32
  ae_netif :: "netif_ptr option"
  ae_ethaddr :: "u8 list"
  ae_state :: etharp_state
  ae_ctime :: u8

definition ARP_TABLE_SIZE :: nat where "ARP_TABLE_SIZE = 10"
definition ARP_MAXAGE :: u8 where "ARP_MAXAGE = 240"
definition ARP_AGE_REREQUEST_USED :: u8 where "ARP_AGE_REREQUEST_USED = ARP_MAXAGE - 12"
definition ARP_MAXPENDING :: u8 where "ARP_MAXPENDING = 2"
definition ETHARP_FLAG_TRY_HARD :: u8 where "ETHARP_FLAG_TRY_HARD = 1"
definition ETHARP_FLAG_FIND_ONLY :: u8 where "ETHARP_FLAG_FIND_ONLY = 2"
definition ETHTYPE_ARP :: u16 where "ETHTYPE_ARP = 0x0806"
definition ETHTYPE_IP :: u16 where "ETHTYPE_IP = 0x0800"
definition ARP_REQUEST :: u16 where "ARP_REQUEST = 1"
definition ARP_REPLY :: u16 where "ARP_REPLY = 2"
definition SIZEOF_ETH_HDR :: nat where "SIZEOF_ETH_HDR = 14"
definition SIZEOF_ETHARP_PACKET :: nat where "SIZEOF_ETHARP_PACKET = 42"
definition ethbroadcast :: "u8 list" where "ethbroadcast = replicate 6 0xff"
definition ethzero :: "u8 list" where "ethzero = replicate 6 0"

lemmas etharp_const_defs =
  ARP_TABLE_SIZE_def ARP_MAXAGE_def ARP_AGE_REREQUEST_USED_def ARP_MAXPENDING_def
  ETHARP_FLAG_TRY_HARD_def ETHARP_FLAG_FIND_ONLY_def

text \<open>
  A frame given to the driver: the driver instance (\<open>netif->state\<close>), the bytes of the packet, and the length
  written to the transmit descriptor, which \<open>hdkif_output\<close> raises to the Ethernet minimum.
\<close>

record tx_frame =
  tf_inst :: nat
  tf_bytes :: "u8 list"
  tf_len :: nat

text \<open>\<open>lk_fault\<close> records a call through a null function pointer or driver state.\<close>

record link_st =
  arp_table :: "etharp_entry list"
  etharp_cached_entry :: nat
  lk_mem :: mem_st
  lk_tx :: "tx_frame list"
  lk_fault :: bool

section \<open>Transmission\<close>

definition MIN_PKT_LEN :: nat where "MIN_PKT_LEN = 60"

definition hdkif_output :: "netif \<Rightarrow> pbuf \<Rightarrow> link_st \<Rightarrow> err_t \<times> link_st" where
  "hdkif_output n p s =
     (case if_state n of
        None \<Rightarrow> (ERR_OK, s\<lparr>lk_fault := True\<rparr>)
      | Some inst \<Rightarrow>
         (ERR_OK, s\<lparr>lk_tx := lk_tx s @ [\<lparr>tf_inst = inst, tf_bytes = pbuf_bytes p,
            tf_len = (if pbuf_tot_len p < MIN_PKT_LEN then MIN_PKT_LEN else pbuf_tot_len p)\<rparr>]\<rparr>))"

definition netif_linkoutput :: "netif \<Rightarrow> pbuf \<Rightarrow> link_st \<Rightarrow> err_t \<times> link_st" where
  "netif_linkoutput n p s =
     (case if_linkoutput n of
        No_linkoutput \<Rightarrow> (ERR_OK, s\<lparr>lk_fault := True\<rparr>)
      | Hdkif_output \<Rightarrow> hdkif_output n p s)"

definition etharp_send_ip :: "netif \<Rightarrow> pbuf \<Rightarrow> u8 list \<Rightarrow> u8 list \<Rightarrow> link_st \<Rightarrow> err_t \<times> link_st" where
  "etharp_send_ip n p src dst s =
     netif_linkoutput n (pbuf_put 0 (dst @ src @ be16 ETHTYPE_IP) p) s"

definition link_alloc :: "pbuf_layer \<Rightarrow> nat \<Rightarrow> pbuf_type \<Rightarrow> link_st \<Rightarrow> pbuf option \<times> link_st" where
  "link_alloc layer len type s =
     (let (r, m) = pbuf_alloc layer len type (lk_mem s) in (r, s\<lparr>lk_mem := m\<rparr>))"

text \<open>The contents of an ARP packet with its Ethernet header, in the order of the structures.\<close>

definition arp_packet ::
    "u8 list \<Rightarrow> u8 list \<Rightarrow> u8 list \<Rightarrow> u32 \<Rightarrow> u8 list \<Rightarrow> u32 \<Rightarrow> u16 \<Rightarrow> u8 list" where
  "arp_packet ethsrc ethdst hwsrc ipsrc hwdst ipdst opcode =
     ethdst @ ethsrc @ be16 ETHTYPE_ARP @
     be16 1 @ be16 ETHTYPE_IP @ [6, 4] @ be16 opcode @ hwsrc @ be32 ipsrc @ hwdst @ be32 ipdst"

definition etharp_raw ::
    "netif \<Rightarrow> u8 list \<Rightarrow> u8 list \<Rightarrow> u8 list \<Rightarrow> u32 \<Rightarrow> u8 list \<Rightarrow> u32 \<Rightarrow> u16 \<Rightarrow> link_st \<Rightarrow> err_t \<times> link_st" where
  "etharp_raw n ethsrc ethdst hwsrc ipsrc hwdst ipdst opcode s =
     (case link_alloc PBUF_RAW SIZEOF_ETHARP_PACKET PBUF_RAM s of
        (None, s) \<Rightarrow> (ERR_MEM, s)
      | (Some p, s) \<Rightarrow>
         netif_linkoutput n
           (pbuf_put 0 (arp_packet ethsrc ethdst hwsrc ipsrc hwdst ipdst (htons opcode)) p) s)"

definition etharp_request :: "netif \<Rightarrow> u32 \<Rightarrow> link_st \<Rightarrow> err_t \<times> link_st" where
  "etharp_request n ipaddr s =
     etharp_raw n (if_hwaddr n) ethbroadcast (if_hwaddr n) (if_ip_addr n) ethzero ipaddr ARP_REQUEST s"

section \<open>The table\<close>

definition free_entry :: "etharp_entry \<Rightarrow> etharp_entry" where
  "free_entry e = e\<lparr>ae_q := None, ae_state := ETHARP_STATE_EMPTY\<rparr>"

definition etharp_free_entry :: "nat \<Rightarrow> etharp_entry list \<Rightarrow> etharp_entry list" where
  "etharp_free_entry i tab = tab[i := free_entry (tab ! i)]"

definition tmr_entry :: "etharp_entry \<Rightarrow> etharp_entry" where
  "tmr_entry e =
     (if ae_state e = ETHARP_STATE_EMPTY then e
      else let e = e\<lparr>ae_ctime := ae_ctime e + 1\<rparr> in
        if ae_ctime e \<ge> ARP_MAXAGE \<or>
           ae_state e = ETHARP_STATE_PENDING \<and> ae_ctime e \<ge> ARP_MAXPENDING then free_entry e
        else if ae_state e = ETHARP_STATE_STABLE_REREQUESTING then e\<lparr>ae_state := ETHARP_STATE_STABLE\<rparr>
        else e)"

definition etharp_tmr :: "link_st \<Rightarrow> link_st" where
  "etharp_tmr s = s\<lparr>arp_table := map tmr_entry (arp_table s)\<rparr>"

definition etharp_cleanup_netif :: "netif_ptr \<Rightarrow> link_st \<Rightarrow> link_st" where
  "etharp_cleanup_netif nif s =
     s\<lparr>arp_table := map (\<lambda>e. if ae_state e \<noteq> ETHARP_STATE_EMPTY \<and> ae_netif e = Some nif
                          then free_entry e else e) (arp_table s)\<rparr>"

text \<open>
  The search sweep of \<open>etharp_find_entry\<close>: the local variables \<open>empty\<close>, \<open>old_pending\<close>, \<open>old_stable\<close> and \<open>old_queue\<close> are
  \<open>None\<close> where the code holds \<open>ARP_TABLE_SIZE\<close>. \<open>Inl i\<close> is the early return of a match.
\<close>

record scan_st =
  sc_empty :: "nat option"
  sc_old_pending :: "nat option"
  sc_age_pending :: u8
  sc_old_stable :: "nat option"
  sc_age_stable :: u8
  sc_old_queue :: "nat option"
  sc_age_queue :: u8

definition scan_init :: scan_st where
  "scan_init = \<lparr>sc_empty = None, sc_old_pending = None, sc_age_pending = 0, sc_old_stable = None,
     sc_age_stable = 0, sc_old_queue = None, sc_age_queue = 0\<rparr>"

definition scan_entry :: "nat \<Rightarrow> etharp_entry \<Rightarrow> scan_st \<Rightarrow> scan_st" where
  "scan_entry i e c =
     (if ae_state e = ETHARP_STATE_EMPTY then
        (if sc_empty c = None then c\<lparr>sc_empty := Some i\<rparr> else c)
      else if ae_state e = ETHARP_STATE_PENDING then
        (if ae_q e \<noteq> None then
           (if ae_ctime e \<ge> sc_age_queue c
            then c\<lparr>sc_old_queue := Some i, sc_age_queue := ae_ctime e\<rparr> else c)
         else
           (if ae_ctime e \<ge> sc_age_pending c
            then c\<lparr>sc_old_pending := Some i, sc_age_pending := ae_ctime e\<rparr> else c))
      else
        (if ae_ctime e \<ge> sc_age_stable c
         then c\<lparr>sc_old_stable := Some i, sc_age_stable := ae_ctime e\<rparr> else c))"

fun find_scan :: "u32 \<Rightarrow> nat \<Rightarrow> etharp_entry list \<Rightarrow> scan_st \<Rightarrow> nat + scan_st" where
  "find_scan ipaddr i [] c = Inr c"
| "find_scan ipaddr i (e # es) c =
     (if ae_state e \<noteq> ETHARP_STATE_EMPTY \<and> ae_ipaddr e = ipaddr then Inl i
      else find_scan ipaddr (i + 1) es (scan_entry i e c))"

text \<open>The choice of an entry to recycle, in the order of the code.\<close>

definition find_victim :: "scan_st \<Rightarrow> nat option" where
  "find_victim c =
     (if sc_old_stable c \<noteq> None then sc_old_stable c
      else if sc_old_pending c \<noteq> None then sc_old_pending c
      else sc_old_queue c)"

definition fresh_entry :: "u32 \<Rightarrow> etharp_entry \<Rightarrow> etharp_entry" where
  "fresh_entry ipaddr e = e\<lparr>ae_ipaddr := ipaddr, ae_ctime := 0\<rparr>"

text \<open>\<open>None\<close> is \<open>ERR_MEM\<close>. Every caller passes a non-null address.\<close>

definition etharp_find_entry :: "u32 \<Rightarrow> u8 \<Rightarrow> etharp_entry list \<Rightarrow> nat option \<times> etharp_entry list" where
  "etharp_find_entry ipaddr flags tab =
     (case find_scan ipaddr 0 tab scan_init of
        Inl i \<Rightarrow> (Some i, tab)
      | Inr c \<Rightarrow>
         if flags AND ETHARP_FLAG_FIND_ONLY \<noteq> 0 \<or>
            sc_empty c = None \<and> flags AND ETHARP_FLAG_TRY_HARD = 0 then (None, tab)
         else case sc_empty c of
           Some i \<Rightarrow> (Some i, tab[i := fresh_entry ipaddr (tab ! i)])
         | None \<Rightarrow>
            (case find_victim c of
               None \<Rightarrow> (None, tab)
             | Some i \<Rightarrow>
                (let tab = etharp_free_entry i tab
                 in (Some i, tab[i := fresh_entry ipaddr (tab ! i)]))))"

definition etharp_find_addr :: "u32 \<Rightarrow> link_st \<Rightarrow> (nat \<times> u8 list) option" where
  "etharp_find_addr ipaddr s =
     (case fst (etharp_find_entry ipaddr ETHARP_FLAG_FIND_ONLY (arp_table s)) of
        None \<Rightarrow> None
      | Some i \<Rightarrow>
         if ge_stable (ae_state (arp_table s ! i)) then Some (i, ae_ethaddr (arp_table s ! i)) else None)"

definition etharp_update_arp_entry ::
    "netif_ptr \<Rightarrow> netif \<Rightarrow> u32 \<Rightarrow> u8 list \<Rightarrow> u8 \<Rightarrow> link_st \<Rightarrow> err_t \<times> link_st" where
  "etharp_update_arp_entry nif n ipaddr ethaddr flags s =
     (if ip_addr_isany ipaddr \<or> ip4_addr_isbroadcast ipaddr n \<or> ip_addr_ismulticast ipaddr
      then (ERR_ARG, s)
      else case etharp_find_entry ipaddr flags (arp_table s) of
        (None, tab) \<Rightarrow> (ERR_MEM, s\<lparr>arp_table := tab\<rparr>)
      | (Some i, tab) \<Rightarrow>
         (let q = ae_q (tab ! i);
              e = (tab ! i)\<lparr>ae_state := ETHARP_STATE_STABLE, ae_netif := Some nif,
                            ae_ethaddr := ethaddr, ae_ctime := 0, ae_q := None\<rparr>;
              s = s\<lparr>arp_table := tab[i := e]\<rparr>
          in case q of
               None \<Rightarrow> (ERR_OK, s)
             | Some p \<Rightarrow> (ERR_OK, snd (etharp_send_ip n p (if_hwaddr n) ethaddr s))))"

section \<open>Output\<close>

definition etharp_output_to_arp_index :: "netif \<Rightarrow> pbuf \<Rightarrow> nat \<Rightarrow> link_st \<Rightarrow> err_t \<times> link_st" where
  "etharp_output_to_arp_index n q idx s =
     (let e = arp_table s ! idx;
          s = (if ae_state e = ETHARP_STATE_STABLE \<and> ae_ctime e \<ge> ARP_AGE_REREQUEST_USED then
                 (let (r, s) = etharp_request n (ae_ipaddr e) s in
                  if r = ERR_OK
                  then s\<lparr>arp_table := (arp_table s)[idx := (arp_table s ! idx)
                           \<lparr>ae_state := ETHARP_STATE_STABLE_REREQUESTING\<rparr>]\<rparr>
                  else s)
               else s)
      in etharp_send_ip n q (if_hwaddr n) (ae_ethaddr (arp_table s ! idx)) s)"

text \<open>
  The packet queued on a pending entry: \<open>q\<close> itself when all its parts are \<open>PBUF_ROM\<close>, otherwise a copy of the
  whole packet in one \<open>PBUF_RAM\<close> buffer, if memory allows.
\<close>

definition query_copy :: "pbuf \<Rightarrow> link_st \<Rightarrow> pbuf option \<times> link_st" where
  "query_copy q s =
     (case dropWhile (\<lambda>p. ps_type p = PBUF_ROM) q of
        [] \<Rightarrow> (Some q, s)
      | p \<Rightarrow>
         (case link_alloc PBUF_RAW (pbuf_tot_len p) PBUF_RAM s of
            (None, s) \<Rightarrow> (None, s)
          | (Some r, s) \<Rightarrow>
             (case pbuf_copy r q of
                (ERR_OK, r) \<Rightarrow> (Some r, s)
              | _ \<Rightarrow> (None, s))))"

definition mark_pending :: "nat \<Rightarrow> etharp_entry list \<Rightarrow> etharp_entry list" where
  "mark_pending i tab =
     (if ae_state (tab ! i) = ETHARP_STATE_EMPTY
      then tab[i := (tab ! i)\<lparr>ae_state := ETHARP_STATE_PENDING\<rparr>] else tab)"

text \<open>The part of \<open>etharp_query\<close> that works on the entry \<open>i\<close>, now pending or stable.\<close>

definition query_entry :: "netif \<Rightarrow> u32 \<Rightarrow> pbuf option \<Rightarrow> nat \<Rightarrow> link_st \<Rightarrow> err_t \<times> link_st" where
  "query_entry n ipaddr q i s =
     (let st = ae_state (arp_table s ! i);
          (result, s) = (if st = ETHARP_STATE_PENDING \<or> q = None then etharp_request n ipaddr s
                         else (ERR_MEM, s))
      in case q of
           None \<Rightarrow> (result, s)
         | Some p \<Rightarrow>
            if ge_stable st then
              etharp_send_ip n p (if_hwaddr n) (ae_ethaddr (arp_table s ! i))
                (s\<lparr>etharp_cached_entry := i\<rparr>)
            else
              (case query_copy p s of
                 (None, s) \<Rightarrow> (ERR_MEM, s)
               | (Some p, s) \<Rightarrow>
                  (ERR_OK, s\<lparr>arp_table := (arp_table s)[i := (arp_table s ! i)\<lparr>ae_q := Some p\<rparr>]\<rparr>)))"

definition etharp_query :: "netif \<Rightarrow> u32 \<Rightarrow> pbuf option \<Rightarrow> link_st \<Rightarrow> err_t \<times> link_st" where
  "etharp_query n ipaddr q s =
     (if ip4_addr_isbroadcast ipaddr n \<or> ip_addr_ismulticast ipaddr \<or> ip_addr_isany ipaddr
      then (ERR_ARG, s)
      else case etharp_find_entry ipaddr ETHARP_FLAG_TRY_HARD (arp_table s) of
        (None, tab) \<Rightarrow> (ERR_MEM, s\<lparr>arp_table := tab\<rparr>)
      | (Some i, tab) \<Rightarrow> query_entry n ipaddr q i (s\<lparr>arp_table := mark_pending i tab\<rparr>))"

definition mcast_hwaddr :: "u32 \<Rightarrow> u8 list" where
  "mcast_hwaddr ipaddr =
     [0x01, 0x00, 0x5e, be32 ipaddr ! 1 AND 0x7f, be32 ipaddr ! 2, be32 ipaddr ! 3]"

definition stable_for :: "u32 \<Rightarrow> etharp_entry \<Rightarrow> bool" where
  "stable_for ipaddr e \<longleftrightarrow> ge_stable (ae_state e) \<and> ae_ipaddr e = ipaddr"

definition etharp_output :: "netif \<Rightarrow> pbuf \<Rightarrow> u32 \<Rightarrow> link_st \<Rightarrow> err_t \<times> link_st" where
  "etharp_output n q ipaddr s =
     (case pbuf_header q (int SIZEOF_ETH_HDR) of
        None \<Rightarrow> (ERR_BUF, s)
      | Some q \<Rightarrow>
         if ip4_addr_isbroadcast ipaddr n then etharp_send_ip n q (if_hwaddr n) ethbroadcast s
         else if ip_addr_ismulticast ipaddr then
           etharp_send_ip n q (if_hwaddr n) (mcast_hwaddr ipaddr) s
         else
           (let off_link = \<not> ip_addr_netcmp ipaddr (if_ip_addr n) (if_netmask n)
                           \<and> \<not> ip_addr_islinklocal ipaddr in
            if off_link \<and> ip_addr_isany (if_gw n) then (ERR_RTE, s)
            else
              (let dst_addr = (if off_link then if_gw n else ipaddr) in
               if stable_for dst_addr (arp_table s ! etharp_cached_entry s)
               then etharp_output_to_arp_index n q (etharp_cached_entry s) s
               else case first_idx (stable_for dst_addr) (arp_table s) of
                 Some i \<Rightarrow> etharp_output_to_arp_index n q i (s\<lparr>etharp_cached_entry := i\<rparr>)
               | None \<Rightarrow> etharp_query n dst_addr (Some q) s)))"

section \<open>Input\<close>

text \<open>The reply is built in the received buffer, in the order of the assignments.\<close>

definition arp_reply_bytes :: "u32 \<Rightarrow> u8 list \<Rightarrow> u8 list \<Rightarrow> u8 list" where
  "arp_reply_bytes my_ip my_hw bs =
     (let bs = put_bytes 20 (be16 (htons ARP_REPLY)) bs;
          bs = put_bytes 38 (take 4 (drop 28 bs)) bs;
          bs = put_bytes 28 (be32 my_ip) bs;
          bs = put_bytes 32 (take 6 (drop 22 bs)) bs;
          bs = put_bytes 0 (take 6 (drop 22 bs)) bs;
          bs = put_bytes 22 my_hw bs;
          bs = put_bytes 6 my_hw bs
      in bs)"

definition etharp_arp_input :: "netif_ptr \<Rightarrow> netif \<Rightarrow> pbuf \<Rightarrow> link_st \<Rightarrow> link_st" where
  "etharp_arp_input nif n p s =
     (case p of
        [] \<Rightarrow> s
      | sg # rest \<Rightarrow>
         (let bs = ps_payload sg in
          if length bs < SIZEOF_ETHARP_PACKET then s
          else if get16 bs 14 \<noteq> 1 \<or> get8 bs 18 \<noteq> 6 \<or> get8 bs 19 \<noteq> 4 \<or> get16 bs 16 \<noteq> ETHTYPE_IP then s
          else
            (let sipaddr = get32 bs 28; dipaddr = get32 bs 38; shwaddr = take 6 (drop 22 bs);
                 for_us = (if ip_addr_isany (if_ip_addr n) then False else dipaddr = if_ip_addr n);
                 s = snd (etharp_update_arp_entry nif n sipaddr shwaddr
                       (if for_us then ETHARP_FLAG_TRY_HARD else ETHARP_FLAG_FIND_ONLY) s)
             in if get16 bs 20 = ARP_REQUEST \<and> for_us
                then snd (netif_linkoutput n
                       (sg\<lparr>ps_payload := arp_reply_bytes (if_ip_addr n) (if_hwaddr n) bs\<rparr> # rest) s)
                else s)))"

section \<open>The table invariant\<close>

definition active :: "etharp_entry \<Rightarrow> bool" where
  "active e \<longleftrightarrow> ae_state e \<noteq> ETHARP_STATE_EMPTY"

definition entry_wf :: "etharp_entry \<Rightarrow> bool" where
  "entry_wf e \<longleftrightarrow> (ae_q e \<noteq> None \<longrightarrow> ae_state e = ETHARP_STATE_PENDING) \<and> length (ae_ethaddr e) = 6 \<and>
     (ae_state e = ETHARP_STATE_PENDING \<longrightarrow> ae_ctime e < ARP_MAXPENDING) \<and> (ge_stable (ae_state e) \<longrightarrow> ae_ctime e < ARP_MAXAGE)"

definition arp_tab_wf :: "etharp_entry list \<Rightarrow> bool" where
  "arp_tab_wf tab \<longleftrightarrow> length tab = ARP_TABLE_SIZE \<and> (\<forall>e \<in> set tab. entry_wf e) \<and>
     (\<forall>i < length tab. \<forall>j < length tab. active (tab ! i) \<longrightarrow> active (tab ! j) \<longrightarrow>
        ae_ipaddr (tab ! i) = ae_ipaddr (tab ! j) \<longrightarrow> i = j)"

definition arp_wf :: "link_st \<Rightarrow> bool" where
  "arp_wf s \<longleftrightarrow> arp_tab_wf (arp_table s) \<and> etharp_cached_entry s < ARP_TABLE_SIZE"

lemma active_stable: "ge_stable (ae_state e) \<Longrightarrow> active e"
  by (auto simp: ge_stable_def active_def)

lemma ge_stable_simps [simp]:
  "ge_stable ETHARP_STATE_STABLE" "ge_stable ETHARP_STATE_STABLE_REREQUESTING"
  "\<not> ge_stable ETHARP_STATE_PENDING" "\<not> ge_stable ETHARP_STATE_EMPTY"
  by (simp_all add: ge_stable_def)

lemma not_ge_stable: "\<not> ge_stable st \<longleftrightarrow> st = ETHARP_STATE_EMPTY \<or> st = ETHARP_STATE_PENDING"
  by (cases st) simp_all

lemma arp_tab_wfD:
  assumes "arp_tab_wf tab"
  shows "length tab = ARP_TABLE_SIZE" and "i < length tab \<Longrightarrow> entry_wf (tab ! i)"
    and "i < length tab \<Longrightarrow> j < length tab \<Longrightarrow> active (tab ! i) \<Longrightarrow> active (tab ! j) \<Longrightarrow>
      ae_ipaddr (tab ! i) = ae_ipaddr (tab ! j) \<Longrightarrow> i = j"
  using assms by (auto simp: arp_tab_wf_def)

text \<open>
  Replacing one entry keeps the invariant when the new entry is well formed and, if active, no other active
  entry has its address.
\<close>

lemma arp_tab_wf_update:
  assumes "arp_tab_wf tab" and "entry_wf e"
    and "active e \<Longrightarrow> (\<forall>j < length tab. j \<noteq> i \<longrightarrow> active (tab ! j) \<longrightarrow> ae_ipaddr (tab ! j) \<noteq> ae_ipaddr e)"
  shows "arp_tab_wf (tab[i := e])"
proof -
  have "\<forall>x \<in> set (tab[i := e]). entry_wf x"
    using assms(1,2) set_update_subset_insert [of tab i e] by (auto simp: arp_tab_wf_def)
  moreover have "k = j" if "k < length tab" "j < length tab" "active (tab[i := e] ! k)"
    "active (tab[i := e] ! j)" "ae_ipaddr (tab[i := e] ! k) = ae_ipaddr (tab[i := e] ! j)" for k j
    using that assms(3) arp_tab_wfD(3) [OF assms(1), of k j]
    by (cases "k = i"; cases "j = i") auto
  ultimately show ?thesis using arp_tab_wfD(1) [OF assms(1)] by (simp add: arp_tab_wf_def)
qed

text \<open>A change that keeps the address and does not activate the entry needs no check against the others.\<close>

lemma arp_tab_wf_same:
  assumes "arp_tab_wf tab" and "i < length tab" and "entry_wf e"
    and "active e \<Longrightarrow> active (tab ! i) \<and> ae_ipaddr e = ae_ipaddr (tab ! i)"
  shows "arp_tab_wf (tab[i := e])"
proof (rule arp_tab_wf_update [OF assms(1,3)])
  assume "active e"
  then show "\<forall>j < length tab. j \<noteq> i \<longrightarrow> active (tab ! j) \<longrightarrow> ae_ipaddr (tab ! j) \<noteq> ae_ipaddr e"
    using assms(4) arp_tab_wfD(3) [OF assms(1,2)] by metis
qed

lemma arp_tab_wf_map:
  assumes "arp_tab_wf tab"
    and "\<And>e. entry_wf e \<Longrightarrow> entry_wf (f e)"
    and "\<And>e. active (f e) \<Longrightarrow> active e \<and> ae_ipaddr (f e) = ae_ipaddr e"
  shows "arp_tab_wf (map f tab)"
proof -
  have "i = j" if "i < length tab" "j < length tab" "active (f (tab ! i))" "active (f (tab ! j))"
    "ae_ipaddr (f (tab ! i)) = ae_ipaddr (f (tab ! j))" for i j
    using that arp_tab_wfD(3) [OF assms(1), of i j] assms(3) [of "tab ! i"] assms(3) [of "tab ! j"]
    by simp
  with assms(1,2) show ?thesis by (simp add: arp_tab_wf_def)
qed

lemma free_entry_simps [simp]:
  "ae_state (free_entry e) = ETHARP_STATE_EMPTY" "ae_q (free_entry e) = None"
  "ae_ethaddr (free_entry e) = ae_ethaddr e" "\<not> active (free_entry e)"
  by (simp_all add: free_entry_def active_def)

lemma entry_wf_free [simp]: "entry_wf e \<Longrightarrow> entry_wf (free_entry e)"
  by (simp add: entry_wf_def)

lemma fresh_entry_simps [simp]:
  "ae_state (fresh_entry a e) = ae_state e" "ae_q (fresh_entry a e) = ae_q e"
  "ae_ipaddr (fresh_entry a e) = a" "ae_ethaddr (fresh_entry a e) = ae_ethaddr e"
  "active (fresh_entry a e) = active e" "ae_ctime (fresh_entry a e) = 0"
  by (simp_all add: fresh_entry_def active_def)

lemma fresh_entry_wf [simp]: "entry_wf e \<Longrightarrow> entry_wf (fresh_entry a e)"
  by (simp add: fresh_entry_def entry_wf_def etharp_const_defs)

section \<open>The search sweep\<close>

text \<open>\<open>v\<close> is the last position below \<open>i\<close> with the greatest age among the entries that satisfy \<open>P\<close>.\<close>

definition oldest :: "(etharp_entry \<Rightarrow> bool) \<Rightarrow> etharp_entry list \<Rightarrow> nat \<Rightarrow> nat option \<Rightarrow> u8 \<Rightarrow> bool" where
  "oldest P tab i v age \<longleftrightarrow>
     (case v of
        None \<Rightarrow> age = 0 \<and> (\<forall>j < i. \<not> P (tab ! j))
      | Some j \<Rightarrow> j < i \<and> P (tab ! j) \<and> age = ae_ctime (tab ! j) \<and>
          (\<forall>k < i. P (tab ! k) \<longrightarrow> ae_ctime (tab ! k) \<le> age))"

lemma oldest_skip: "oldest P tab i v age \<Longrightarrow> \<not> P (tab ! i) \<Longrightarrow> oldest P tab (Suc i) v age"
  by (auto simp: oldest_def less_Suc_eq split: option.splits)

lemma oldest_keep:
  "oldest P tab i v age \<Longrightarrow> \<not> age \<le> ae_ctime (tab ! i) \<Longrightarrow> oldest P tab (Suc i) v age"
  by (auto simp: oldest_def less_Suc_eq split: option.splits)

lemma oldest_take:
  "oldest P tab i v age \<Longrightarrow> P (tab ! i) \<Longrightarrow> age \<le> ae_ctime (tab ! i) \<Longrightarrow>
   oldest P tab (Suc i) (Some i) (ae_ctime (tab ! i))"
  by (auto simp: oldest_def less_Suc_eq split: option.splits intro: order_trans)

definition pending_idle :: "etharp_entry \<Rightarrow> bool" where
  "pending_idle e \<longleftrightarrow> ae_state e = ETHARP_STATE_PENDING \<and> ae_q e = None"

definition pending_busy :: "etharp_entry \<Rightarrow> bool" where
  "pending_busy e \<longleftrightarrow> ae_state e = ETHARP_STATE_PENDING \<and> ae_q e \<noteq> None"

definition scan_inv :: "u32 \<Rightarrow> etharp_entry list \<Rightarrow> nat \<Rightarrow> scan_st \<Rightarrow> bool" where
  "scan_inv a tab i c \<longleftrightarrow>
     (\<forall>j < i. active (tab ! j) \<longrightarrow> ae_ipaddr (tab ! j) \<noteq> a) \<and>
     (case sc_empty c of None \<Rightarrow> (\<forall>j < i. active (tab ! j)) | Some j \<Rightarrow> j < i \<and> \<not> active (tab ! j)) \<and>
     oldest (\<lambda>e. ge_stable (ae_state e)) tab i (sc_old_stable c) (sc_age_stable c) \<and>
     oldest pending_idle tab i (sc_old_pending c) (sc_age_pending c) \<and>
     oldest pending_busy tab i (sc_old_queue c) (sc_age_queue c)"

lemma scan_inv_init: "scan_inv a tab 0 scan_init"
  by (simp add: scan_inv_def scan_init_def oldest_def)

lemma scan_inv_step:
  assumes "scan_inv a tab i c" and "\<not> (active (tab ! i) \<and> ae_ipaddr (tab ! i) = a)"
  shows "scan_inv a tab (Suc i) (scan_entry i (tab ! i) c)"
proof -
  let ?e = "tab ! i"
  note inv = assms(1) [unfolded scan_inv_def]
  have a: "\<forall>j < Suc i. active (tab ! j) \<longrightarrow> ae_ipaddr (tab ! j) \<noteq> a"
    using inv assms(2) by (auto simp: less_Suc_eq)
  consider "ae_state ?e = ETHARP_STATE_EMPTY" | "pending_idle ?e" | "pending_busy ?e"
    | "ge_stable (ae_state ?e)"
    by (cases "ae_state ?e") (auto simp: pending_idle_def pending_busy_def)
  then show ?thesis
  proof cases
    case 1
    then have "\<not> active ?e" "\<not> pending_idle ?e" "\<not> pending_busy ?e" "\<not> ge_stable (ae_state ?e)"
      by (simp_all add: active_def pending_idle_def pending_busy_def)
    with inv a 1 show ?thesis
      by (auto simp: scan_inv_def scan_entry_def less_Suc_eq intro!: oldest_skip split: option.splits)
  next
    case 2
    then have "active ?e" "\<not> pending_busy ?e" "\<not> ge_stable (ae_state ?e)"
      by (simp_all add: active_def pending_idle_def pending_busy_def)
    with inv a 2 show ?thesis
      by (cases "sc_age_pending c \<le> ae_ctime ?e")
        (auto simp: scan_inv_def scan_entry_def less_Suc_eq pending_idle_def [of ?e]
          pending_busy_def [of ?e] active_def [of ?e] oldest_skip oldest_take oldest_keep
          split: option.splits)
  next
    case 3
    then have "active ?e" "\<not> pending_idle ?e" "\<not> ge_stable (ae_state ?e)"
      by (simp_all add: active_def pending_idle_def pending_busy_def)
    with inv a 3 show ?thesis
      by (cases "sc_age_queue c \<le> ae_ctime ?e")
        (auto simp: scan_inv_def scan_entry_def less_Suc_eq pending_idle_def [of ?e]
          pending_busy_def [of ?e] active_def [of ?e] oldest_skip oldest_take oldest_keep
          split: option.splits)
  next
    case 4
    then have "active ?e" "\<not> pending_idle ?e" "\<not> pending_busy ?e"
      by (auto simp: active_def pending_idle_def pending_busy_def)
    with inv a 4 show ?thesis
      by (cases "sc_age_stable c \<le> ae_ctime ?e")
        (auto simp: scan_inv_def scan_entry_def less_Suc_eq pending_idle_def [of ?e]
          pending_busy_def [of ?e] active_def [of ?e] oldest_skip oldest_take oldest_keep
          split: option.splits)
  qed
qed

lemma find_scan_inv:
  assumes "scan_inv a tab i c" and "i + length es = length tab" and "es = drop i tab"
  shows "case find_scan a i es c of
      Inl k \<Rightarrow> k < length tab \<and> active (tab ! k) \<and> ae_ipaddr (tab ! k) = a
    | Inr c' \<Rightarrow> scan_inv a tab (length tab) c'"
  using assms
proof (induction a i es c rule: find_scan.induct)
  case (1 a i c)
  then show ?case by simp
next
  case (2 a i e es c)
  have i: "i < length tab" using "2.prems"(2) by simp
  with "2.prems"(3) have e: "e = tab ! i" "es = drop (Suc i) tab"
    by (simp_all add: Cons_nth_drop_Suc [symmetric])
  show ?case
  proof (cases "active (tab ! i) \<and> ae_ipaddr (tab ! i) = a")
    case True
    with e i show ?thesis by (simp add: active_def)
  next
    case False
    then have c: "\<not> (ae_state e \<noteq> ETHARP_STATE_EMPTY \<and> ae_ipaddr e = a)" using e by (simp add: active_def)
    have "i + 1 + length es = length tab" using "2.prems"(2) by simp
    with "2.IH" [OF c] e scan_inv_step [OF "2.prems"(1) False]
    have "case find_scan a (i + 1) es (scan_entry i e c) of
        Inl k \<Rightarrow> k < length tab \<and> active (tab ! k) \<and> ae_ipaddr (tab ! k) = a
      | Inr c' \<Rightarrow> scan_inv a tab (length tab) c'" by simp
    then show ?thesis unfolding find_scan.simps if_not_P [OF c] .
  qed
qed

lemma find_scan_cases:
  obtains (found) k where "find_scan a 0 tab scan_init = Inl k" "k < length tab" "active (tab ! k)"
      "ae_ipaddr (tab ! k) = a"
  | (absent) c where "find_scan a 0 tab scan_init = Inr c" "scan_inv a tab (length tab) c"
  using find_scan_inv [OF scan_inv_init [of a tab], of tab]
  by (cases "find_scan a 0 tab scan_init") auto

text \<open>When there is no empty entry, something can be recycled.\<close>

lemma victim_exists:
  assumes "scan_inv a tab (length tab) c" and "sc_empty c = None" and "tab \<noteq> []"
  obtains i where "find_victim c = Some i" "i < length tab"
proof -
  have act: "active (tab ! 0)" using assms by (simp add: scan_inv_def)
  let ?e = "tab ! 0"
  have "ge_stable (ae_state ?e) \<or> pending_idle ?e \<or> pending_busy ?e"
    using act by (cases "ae_state ?e") (auto simp: active_def pending_idle_def pending_busy_def)
  then have "find_victim c \<noteq> None"
    using assms by (auto simp: find_victim_def scan_inv_def oldest_def split: option.splits)
  moreover have "find_victim c = Some i \<Longrightarrow> i < length tab" for i
    using assms by (auto simp: find_victim_def scan_inv_def oldest_def split: option.splits if_splits)
  ultimately show ?thesis using that by blast
qed

text \<open>The three outcomes of a search: a hit, a refusal, and a newly reserved entry.\<close>

lemma find_entry_cases [consumes 1, case_names found absent fresh]:
  assumes "arp_tab_wf tab"
  obtains (found) i where "etharp_find_entry a flags tab = (Some i, tab)" "i < length tab"
      "active (tab ! i)" "ae_ipaddr (tab ! i) = a"
  | (absent) "etharp_find_entry a flags tab = (None, tab)"
      "\<forall>j < length tab. active (tab ! j) \<longrightarrow> ae_ipaddr (tab ! j) \<noteq> a"
      "flags AND ETHARP_FLAG_FIND_ONLY \<noteq> 0 \<or> flags AND ETHARP_FLAG_TRY_HARD = 0"
  | (fresh) i e where "etharp_find_entry a flags tab = (Some i, tab[i := e])" "i < length tab"
      "ae_state e = ETHARP_STATE_EMPTY" "ae_q e = None" "ae_ipaddr e = a" "entry_wf e" "ae_ctime e = 0"
      "\<forall>j < length tab. active (tab ! j) \<longrightarrow> ae_ipaddr (tab ! j) \<noteq> a"
      "flags AND ETHARP_FLAG_FIND_ONLY = 0"
proof (cases rule: find_scan_cases [of a tab])
  case (found k)
  then show ?thesis using that(1) by (simp add: etharp_find_entry_def)
next
  case (absent c)
  note sc = absent(1)
  have no: "\<forall>j < length tab. active (tab ! j) \<longrightarrow> ae_ipaddr (tab ! j) \<noteq> a"
    using absent(2) by (simp add: scan_inv_def)
  have ne: "tab \<noteq> []" using arp_tab_wfD(1) [OF assms] by (auto simp: ARP_TABLE_SIZE_def)
  consider "flags AND ETHARP_FLAG_FIND_ONLY \<noteq> 0 \<or>
      sc_empty c = None \<and> flags AND ETHARP_FLAG_TRY_HARD = 0"
    | i where "flags AND ETHARP_FLAG_FIND_ONLY = 0" "sc_empty c = Some i"
    | "flags AND ETHARP_FLAG_FIND_ONLY = 0" "sc_empty c = None" "flags AND ETHARP_FLAG_TRY_HARD \<noteq> 0"
    by (cases "sc_empty c") auto
  then show ?thesis
  proof cases
    case 1
    then show ?thesis using that(2) no by (auto simp: etharp_find_entry_def sc)
  next
    case (2 i)
    have i: "i < length tab" "\<not> active (tab ! i)" using absent(2) 2 by (auto simp: scan_inv_def)
    have e: "entry_wf (tab ! i)" using arp_tab_wfD(2) [OF assms i(1)] .
    have "etharp_find_entry a flags tab = (Some i, tab[i := fresh_entry a (tab ! i)])"
      using 2 by (simp add: etharp_find_entry_def sc)
    then show ?thesis using that(3) i e no 2(1) by (auto simp: active_def entry_wf_def)
  next
    case 3
    obtain i where i: "find_victim c = Some i" "i < length tab"
      using victim_exists [OF absent(2) 3(2) ne] .
    let ?e = "fresh_entry a (free_entry (tab ! i))"
    have "entry_wf (tab ! i)" using arp_tab_wfD(2) [OF assms i(2)] .
    moreover have "etharp_find_entry a flags tab = (Some i, tab[i := ?e])"
      using 3 i by (simp add: etharp_find_entry_def sc etharp_free_entry_def Let_def)
    ultimately show ?thesis using that(3) [of i ?e] i no 3(1) by simp
  qed
qed

lemma flag_simps [simp]:
  "ETHARP_FLAG_TRY_HARD AND ETHARP_FLAG_FIND_ONLY = 0"
  "ETHARP_FLAG_TRY_HARD \<noteq> 0" "ETHARP_FLAG_FIND_ONLY \<noteq> 0"
  by (simp_all add: etharp_const_defs)

lemma find_entry_wf [wf_intros]:
  assumes "arp_tab_wf tab"
  shows "arp_tab_wf (snd (etharp_find_entry a flags tab))"
  using assms
proof (cases rule: find_entry_cases [of tab a flags])
  case (fresh i e)
  then have "arp_tab_wf (tab[i := e])" by (intro arp_tab_wf_same [OF assms]) (auto simp: active_def)
  with fresh(1) show ?thesis by simp
qed (simp_all add: assms)

text \<open>Making the entry returned by a search active keeps addresses unique.\<close>

lemma found_entry_update_wf:
  assumes "arp_tab_wf tab" and "etharp_find_entry a flags tab = (Some i, tab')"
    and "entry_wf e" and "ae_ipaddr e = a"
  shows "arp_tab_wf (tab'[i := e]) \<and> i < length tab' \<and> length tab' = ARP_TABLE_SIZE"
  using assms(1)
proof (cases rule: find_entry_cases [of tab a flags])
  case (found k)
  with assms show ?thesis using arp_tab_wfD(1) [OF assms(1)] by (simp add: arp_tab_wf_same)
next
  case absent
  with assms(2) show ?thesis by simp
next
  case (fresh k x)
  with assms show ?thesis using arp_tab_wfD(1) [OF assms(1)] by (auto intro!: arp_tab_wf_update)
qed

lemma try_hard_finds:
  assumes "arp_tab_wf tab"
  obtains i tab' where "etharp_find_entry a ETHARP_FLAG_TRY_HARD tab = (Some i, tab')" "i < length tab'"
    "ae_ipaddr (tab' ! i) = a" "length tab' = ARP_TABLE_SIZE" "entry_wf (tab' ! i)"
    "ae_state (tab' ! i) = ETHARP_STATE_EMPTY \<Longrightarrow> ae_ctime (tab' ! i) = 0"
  using assms
proof (cases rule: find_entry_cases [of tab a ETHARP_FLAG_TRY_HARD])
  case (found i)
  with that [of i tab] show ?thesis using arp_tab_wfD [OF assms] by (simp add: active_def)
next
  case (fresh i e)
  with that [of i "tab[i := e]"] show ?thesis using arp_tab_wfD [OF assms] by simp
qed simp

lemma find_only_keeps:
  assumes "arp_tab_wf tab"
  shows "snd (etharp_find_entry a ETHARP_FLAG_FIND_ONLY tab) = tab"
  using assms
  by (cases rule: find_entry_cases [of tab a ETHARP_FLAG_FIND_ONLY]) simp_all

section \<open>Preservation of the invariant\<close>

lemma linkoutput_frame [frame_simps]:
  "arp_table (snd (netif_linkoutput n p s)) = arp_table s"
  "etharp_cached_entry (snd (netif_linkoutput n p s)) = etharp_cached_entry s"
  "lk_mem (snd (netif_linkoutput n p s)) = lk_mem s"
  by (simp_all add: netif_linkoutput_def hdkif_output_def split: linkoutput_fn.splits option.splits)

lemma send_ip_frame [frame_simps]:
  "arp_table (snd (etharp_send_ip n p a b s)) = arp_table s"
  "etharp_cached_entry (snd (etharp_send_ip n p a b s)) = etharp_cached_entry s"
  "lk_mem (snd (etharp_send_ip n p a b s)) = lk_mem s"
  by (simp_all add: etharp_send_ip_def frame_simps)

lemma link_alloc_frame [frame_simps]:
  "arp_table (snd (link_alloc l k t s)) = arp_table s"
  "etharp_cached_entry (snd (link_alloc l k t s)) = etharp_cached_entry s"
  "lk_tx (snd (link_alloc l k t s)) = lk_tx s"
  "lk_fault (snd (link_alloc l k t s)) = lk_fault s"
  by (simp_all add: link_alloc_def split: prod.splits)

lemma request_frame [frame_simps]:
  "arp_table (snd (etharp_request n a s)) = arp_table s"
  "etharp_cached_entry (snd (etharp_request n a s)) = etharp_cached_entry s"
proof -
  obtain r s1 where 1: "link_alloc PBUF_RAW SIZEOF_ETHARP_PACKET PBUF_RAM s = (r, s1)" by (meson surj_pair)
  have s1: "arp_table s1 = arp_table s" "etharp_cached_entry s1 = etharp_cached_entry s"
    using link_alloc_frame(1,2) [of PBUF_RAW SIZEOF_ETHARP_PACKET PBUF_RAM s] 1 by simp_all
  show "arp_table (snd (etharp_request n a s)) = arp_table s"
    "etharp_cached_entry (snd (etharp_request n a s)) = etharp_cached_entry s"
    by (cases r; simp add: etharp_request_def etharp_raw_def 1 s1 frame_simps)+
qed

lemma query_copy_frame [frame_simps]:
  "arp_table (snd (query_copy q s)) = arp_table s"
  "etharp_cached_entry (snd (query_copy q s)) = etharp_cached_entry s"
  "lk_tx (snd (query_copy q s)) = lk_tx s"
  "lk_fault (snd (query_copy q s)) = lk_fault s"
proof -
  let ?p = "dropWhile (\<lambda>p. ps_type p = PBUF_ROM) q"
  obtain r s1 where 1: "link_alloc PBUF_RAW (pbuf_tot_len ?p) PBUF_RAM s = (r, s1)" by (meson surj_pair)
  have s1: "arp_table s1 = arp_table s" "etharp_cached_entry s1 = etharp_cached_entry s"
    "lk_tx s1 = lk_tx s" "lk_fault s1 = lk_fault s"
    using link_alloc_frame [of PBUF_RAW "pbuf_tot_len ?p" PBUF_RAM s] 1 by simp_all
  have "snd (query_copy q s) = s \<or> snd (query_copy q s) = s1"
    using 1 by (auto simp: query_copy_def split: list.splits option.splits prod.splits err_t.splits)
  with s1 show "arp_table (snd (query_copy q s)) = arp_table s"
    "etharp_cached_entry (snd (query_copy q s)) = etharp_cached_entry s"
    "lk_tx (snd (query_copy q s)) = lk_tx s" "lk_fault (snd (query_copy q s)) = lk_fault s"
    by auto
qed

lemma arp_wf_cong:
  "arp_table t = arp_table s \<Longrightarrow> etharp_cached_entry t = etharp_cached_entry s \<Longrightarrow> arp_wf t = arp_wf s"
  by (simp add: arp_wf_def)

lemma tmr_entry_wf: "entry_wf e \<Longrightarrow> entry_wf (tmr_entry e)"
  by (auto simp: tmr_entry_def Let_def entry_wf_def not_le)

lemma tmr_entry_active: "active (tmr_entry e) \<Longrightarrow> active e \<and> ae_ipaddr (tmr_entry e) = ae_ipaddr e"
  by (auto simp: tmr_entry_def Let_def active_def split: if_splits)

lemma etharp_tmr_wf [wf_intros]: "arp_wf s \<Longrightarrow> arp_wf (etharp_tmr s)"
  by (auto simp: arp_wf_def etharp_tmr_def intro!: arp_tab_wf_map tmr_entry_wf dest: tmr_entry_active)

lemma etharp_cleanup_netif_wf [wf_intros]: "arp_wf s \<Longrightarrow> arp_wf (etharp_cleanup_netif nif s)"
  by (auto simp: arp_wf_def etharp_cleanup_netif_def intro!: arp_tab_wf_map split: if_splits)

lemma etharp_update_wf [wf_intros]:
  assumes "arp_wf s" and "length ethaddr = 6"
  shows "arp_wf (snd (etharp_update_arp_entry nif n a ethaddr flags s))"
proof -
  obtain r tab where f: "etharp_find_entry a flags (arp_table s) = (r, tab)" by (meson surj_pair)
  have wf: "arp_tab_wf (arp_table s)" using assms by (simp add: arp_wf_def)
  show ?thesis
  proof (cases r)
    case None
    have "arp_tab_wf tab" using find_entry_wf [OF wf, of a flags] f by simp
    with None f assms show ?thesis by (simp add: etharp_update_arp_entry_def arp_wf_def)
  next
    case (Some i)
    let ?e = "(tab ! i)\<lparr>ae_state := ETHARP_STATE_STABLE, ae_netif := Some nif, ae_ethaddr := ethaddr,
      ae_ctime := 0, ae_q := None\<rparr>"
    have "ae_ipaddr (tab ! i) = a"
      using wf f Some by (cases rule: find_entry_cases [of "arp_table s" a flags]) auto
    then have "arp_tab_wf (tab[i := ?e])"
      using found_entry_update_wf [OF wf f [unfolded Some], of ?e] assms(2) by (simp add: entry_wf_def etharp_const_defs)
    with Some f assms show ?thesis
      by (auto simp: etharp_update_arp_entry_def arp_wf_def Let_def frame_simps split: option.splits)
  qed
qed

lemma output_to_arp_index_wf [wf_intros]:
  assumes "arp_wf s" and "idx < ARP_TABLE_SIZE"
  shows "arp_wf (snd (etharp_output_to_arp_index n q idx s))"
proof -
  let ?e = "arp_table s ! idx"
  obtain r s1 where 1: "etharp_request n (ae_ipaddr ?e) s = (r, s1)" by (meson surj_pair)
  have s1: "arp_table s1 = arp_table s" "etharp_cached_entry s1 = etharp_cached_entry s"
    using request_frame [of n "ae_ipaddr ?e" s] 1 by simp_all
  have tab: "arp_tab_wf (arp_table s)" and len: "idx < length (arp_table s)"
    using assms arp_tab_wfD(1) by (auto simp: arp_wf_def)
  have "arp_tab_wf ((arp_table s)[idx := ?e\<lparr>ae_state := ETHARP_STATE_STABLE_REREQUESTING\<rparr>])"
    if "ae_state ?e = ETHARP_STATE_STABLE"
    using that arp_tab_wfD(2) [OF tab len]
    by (intro arp_tab_wf_same [OF tab len]) (auto simp: entry_wf_def active_def)
  with assms tab 1 s1 show ?thesis
    by (auto simp: etharp_output_to_arp_index_def arp_wf_def Let_def frame_simps)
qed

lemma query_entry_wf:
  assumes "arp_wf s" and i: "i < ARP_TABLE_SIZE" and act: "active (arp_table s ! i)"
  shows "arp_wf (snd (query_entry n a q i s))"
proof -
  let ?tab = "arp_table s" and ?st = "ae_state (arp_table s ! i)"
  have tab: "arp_tab_wf ?tab" and c: "etharp_cached_entry s < ARP_TABLE_SIZE" and il: "i < length ?tab"
    using assms arp_tab_wfD(1) by (auto simp: arp_wf_def)
  have upd: "arp_tab_wf (?tab[i := (?tab ! i)\<lparr>ae_q := Some p\<rparr>])" if "\<not> ge_stable ?st" for p
    using that act arp_tab_wfD(2) [OF tab il]
    by (intro arp_tab_wf_same [OF tab il]) (auto simp: entry_wf_def not_ge_stable active_def)
  obtain r s1 where 1: "(if ?st = ETHARP_STATE_PENDING \<or> q = None then etharp_request n a s
      else (ERR_MEM, s)) = (r, s1)" by (meson surj_pair)
  have s1: "arp_table s1 = ?tab" "etharp_cached_entry s1 = etharp_cached_entry s"
    using 1 request_frame [of n a s] by (auto split: if_splits)
  show ?thesis
  proof (cases q)
    case None
    with 1 s1 tab c show ?thesis by (simp add: query_entry_def Let_def arp_wf_def)
  next
    case (Some p)
    obtain o1 s2 where 2: "query_copy p s1 = (o1, s2)" by (meson surj_pair)
    have s2: "arp_table s2 = ?tab" "etharp_cached_entry s2 = etharp_cached_entry s"
      using query_copy_frame(1,2) [of p s1] 2 s1 by simp_all
    have e: "query_entry n a q i s = (if ge_stable ?st
        then etharp_send_ip n p (if_hwaddr n) (ae_ethaddr (arp_table s1 ! i)) (s1\<lparr>etharp_cached_entry := i\<rparr>)
        else case o1 of None \<Rightarrow> (ERR_MEM, s2)
          | Some p \<Rightarrow> (ERR_OK, s2\<lparr>arp_table := (arp_table s2)[i := (arp_table s2 ! i)\<lparr>ae_q := Some p\<rparr>]\<rparr>))"
      unfolding query_entry_def Let_def 1 prod.case using Some 2 by (cases o1) simp_all
    show ?thesis unfolding e using s1 s2 tab c i upd
      by (auto simp: arp_wf_def frame_simps split: option.splits)
  qed
qed

lemma mark_pending_wf:
  assumes "arp_tab_wf tab" and "etharp_find_entry a ETHARP_FLAG_TRY_HARD tab = (Some i, tab')"
  shows "arp_tab_wf (mark_pending i tab') \<and> active (mark_pending i tab' ! i) \<and> i < ARP_TABLE_SIZE
    \<and> ae_ipaddr (mark_pending i tab' ! i) = a"
proof -
  obtain k t where k: "etharp_find_entry a ETHARP_FLAG_TRY_HARD tab = (Some k, t)" "k < length t"
    "ae_ipaddr (t ! k) = a" "length t = ARP_TABLE_SIZE" "entry_wf (t ! k)"
    "ae_state (t ! k) = ETHARP_STATE_EMPTY \<Longrightarrow> ae_ctime (t ! k) = 0"
    using try_hard_finds [OF assms(1), of a] by metis
  then have f: "i < length tab'" "ae_ipaddr (tab' ! i) = a" "length tab' = ARP_TABLE_SIZE"
    "entry_wf (tab' ! i)" "ae_state (tab' ! i) = ETHARP_STATE_EMPTY \<Longrightarrow> ae_ctime (tab' ! i) = 0"
    using assms(2) by simp_all
  have w: "entry_wf ((tab' ! i)\<lparr>ae_state := ETHARP_STATE_PENDING\<rparr>)" if "ae_state (tab' ! i) = ETHARP_STATE_EMPTY"
    using f(4) f(5) [OF that] by (simp add: entry_wf_def etharp_const_defs)
  show ?thesis
    using found_entry_update_wf [OF assms, of "(tab' ! i)\<lparr>ae_state := ETHARP_STATE_PENDING\<rparr>"] w find_entry_wf [OF assms(1), of a ETHARP_FLAG_TRY_HARD]
      f assms(2)
    by (auto simp: mark_pending_def active_def)
qed

lemma etharp_query_wf [wf_intros]:
  assumes "arp_wf s"
  shows "arp_wf (snd (etharp_query n a q s))"
proof -
  have wf: "arp_tab_wf (arp_table s)" using assms by (simp add: arp_wf_def)
  obtain i tab where f: "etharp_find_entry a ETHARP_FLAG_TRY_HARD (arp_table s) = (Some i, tab)"
    using try_hard_finds [OF wf] .
  have "arp_wf (snd (query_entry n a q i (s\<lparr>arp_table := mark_pending i tab\<rparr>)))"
    using mark_pending_wf [OF wf f] assms by (intro query_entry_wf) (simp_all add: arp_wf_def)
  with f assms show ?thesis by (simp add: etharp_query_def)
qed

lemma etharp_output_wf [wf_intros]:
  assumes "arp_wf s"
  shows "arp_wf (snd (etharp_output n q a s))"
proof -
  have send: "arp_wf (snd (etharp_send_ip n p x y s))" for p x y
    using assms arp_wf_cong [OF send_ip_frame(1,2)] by blast
  have idx: "arp_wf (snd (etharp_output_to_arp_index n p i (s\<lparr>etharp_cached_entry := i\<rparr>)))"
    if "first_idx P (arp_table s) = Some i" for P p i
    using that assms first_idx_SomeD [OF that] arp_tab_wfD(1)
    by (intro output_to_arp_index_wf) (auto simp: arp_wf_def)
  have "etharp_cached_entry s < ARP_TABLE_SIZE" using assms by (simp add: arp_wf_def)
  then show ?thesis
    using assms send idx
    by (auto simp: etharp_output_def Let_def intro: output_to_arp_index_wf etharp_query_wf
        split: option.splits)
qed

lemma etharp_arp_input_wf [wf_intros]:
  assumes "arp_wf s"
  shows "arp_wf (etharp_arp_input nif n p s)"
proof (cases p)
  case (Cons sg rest)
  let ?bs = "ps_payload sg"
  have upd: "arp_wf (snd (etharp_update_arp_entry nif n a (take 6 (drop 22 ?bs)) fl s))"
    if "\<not> length ?bs < SIZEOF_ETHARP_PACKET" for a fl
    using that by (intro etharp_update_wf [OF assms]) (simp add: SIZEOF_ETHARP_PACKET_def)
  have "arp_wf (snd (netif_linkoutput n x t))" if "arp_wf t" for x t
    using that arp_wf_cong [OF linkoutput_frame(1,2)] by blast
  with assms Cons upd show ?thesis
    by (auto simp: etharp_arp_input_def Let_def)
qed (simp add: etharp_arp_input_def assms)

section \<open>Lookup and update\<close>

lemma find_entry_hit:
  assumes "arp_tab_wf tab" and "i < length tab" and "active (tab ! i)" and "ae_ipaddr (tab ! i) = a"
  shows "etharp_find_entry a flags tab = (Some i, tab)"
  using assms(1)
proof (cases rule: find_entry_cases [of tab a flags])
  case (found k)
  with arp_tab_wfD(3) [OF assms(1), of k i] assms show ?thesis by simp
qed (use assms in auto)

lemma find_addr_iff:
  assumes "arp_tab_wf (arp_table s)"
  shows "etharp_find_addr a s = Some (i, m) \<longleftrightarrow>
    i < length (arp_table s) \<and> stable_for a (arp_table s ! i) \<and> ae_ethaddr (arp_table s ! i) = m"
proof
  assume h: "etharp_find_addr a s = Some (i, m)"
  show "i < length (arp_table s) \<and> stable_for a (arp_table s ! i) \<and> ae_ethaddr (arp_table s ! i) = m"
    using assms
  proof (cases rule: find_entry_cases [of "arp_table s" a ETHARP_FLAG_FIND_ONLY])
    case (found k)
    with h show ?thesis by (auto simp: etharp_find_addr_def stable_for_def split: if_splits)
  qed (use h in \<open>auto simp: etharp_find_addr_def\<close>)
next
  assume "i < length (arp_table s) \<and> stable_for a (arp_table s ! i) \<and> ae_ethaddr (arp_table s ! i) = m"
  then show "etharp_find_addr a s = Some (i, m)"
    using find_entry_hit [OF assms, of i a] active_stable
    by (auto simp: etharp_find_addr_def stable_for_def)
qed

definition unicast_for :: "u32 \<Rightarrow> netif \<Rightarrow> bool" where
  "unicast_for a n \<longleftrightarrow>
     \<not> ip_addr_isany a \<and> \<not> ip4_addr_isbroadcast a n \<and> \<not> ip_addr_ismulticast a"

text \<open>The table after an update that reaches an entry.\<close>

lemma update_entry_table:
  assumes "unicast_for a n" and "etharp_find_entry a flags (arp_table s) = (Some i, tab)"
  shows "arp_table (snd (etharp_update_arp_entry nif n a m flags s)) =
      tab[i := (tab ! i)\<lparr>ae_state := ETHARP_STATE_STABLE, ae_netif := Some nif, ae_ethaddr := m,
        ae_ctime := 0, ae_q := None\<rparr>] \<and>
    fst (etharp_update_arp_entry nif n a m flags s) = ERR_OK"
  using assms
  by (auto simp: etharp_update_arp_entry_def unicast_for_def Let_def frame_simps split: option.splits)

lemma update_try_hard_lookup:
  assumes "arp_wf s" and "unicast_for a n" and "length m = 6"
  shows "\<exists>i. etharp_find_addr a (snd (etharp_update_arp_entry nif n a m ETHARP_FLAG_TRY_HARD s)) = Some (i, m)"
proof -
  let ?s = "snd (etharp_update_arp_entry nif n a m ETHARP_FLAG_TRY_HARD s)"
  have wf: "arp_tab_wf (arp_table s)" using assms by (simp add: arp_wf_def)
  obtain i tab where f: "etharp_find_entry a ETHARP_FLAG_TRY_HARD (arp_table s) = (Some i, tab)"
    "i < length tab" "ae_ipaddr (tab ! i) = a"
    using try_hard_finds [OF wf] .
  have "arp_tab_wf (arp_table ?s)" using etharp_update_wf [OF assms(1,3)] by (simp add: arp_wf_def)
  moreover have "i < length (arp_table ?s)" "stable_for a (arp_table ?s ! i)"
    "ae_ethaddr (arp_table ?s ! i) = m"
    using update_entry_table [OF assms(2) f(1), of nif m] f(2,3) by (simp_all add: stable_for_def)
  ultimately show ?thesis using find_addr_iff by blast
qed

text \<open>An update never changes what is known about another address, except that it may evict it.\<close>

lemma update_other_lookup:
  assumes "arp_wf s" and "length m = 6" and "b \<noteq> a"
    and "etharp_find_addr b (snd (etharp_update_arp_entry nif n a m flags s)) = Some (i, x)"
  shows "etharp_find_addr b s = Some (i, x)"
proof -
  let ?s = "snd (etharp_update_arp_entry nif n a m flags s)"
  have wf: "arp_tab_wf (arp_table s)" using assms by (simp add: arp_wf_def)
  have "arp_tab_wf (arp_table ?s)" using etharp_update_wf [OF assms(1,2)] by (simp add: arp_wf_def)
  with assms(4) have h: "i < length (arp_table ?s)" "stable_for b (arp_table ?s ! i)"
    "ae_ethaddr (arp_table ?s ! i) = x" by (simp_all add: find_addr_iff)
  have "arp_table ?s = arp_table s \<or> (\<exists>k e. arp_table ?s = (arp_table s)[k := e] \<and> ae_ipaddr e = a)"
  proof (cases "unicast_for a n")
    case True
    show ?thesis
      using wf
    proof (cases rule: find_entry_cases [of "arp_table s" a flags])
      case (found k)
      from update_entry_table [OF True found(1), of nif m] found(4) show ?thesis
        by (intro disjI2 exI conjI) (erule conjunct1, simp)
    next
      case absent
      then show ?thesis by (simp add: etharp_update_arp_entry_def)
    next
      case (fresh k e)
      from update_entry_table [OF True fresh(1), of nif m] fresh(2,5) show ?thesis
        by (intro disjI2 exI [of _ k] exI conjI) (simp, simp)
    qed
  next
    case False
    then have "etharp_update_arp_entry nif n a m flags s = (ERR_ARG, s)"
      unfolding etharp_update_arp_entry_def unicast_for_def by (intro if_P) blast
    then show ?thesis by simp
  qed
  then have "arp_table ?s ! i = arp_table s ! i \<and> length (arp_table ?s) = length (arp_table s)"
  proof
    assume "\<exists>k e. arp_table ?s = (arp_table s)[k := e] \<and> ae_ipaddr e = a"
    then obtain k e where ke: "arp_table ?s = (arp_table s)[k := e]" "ae_ipaddr e = a" by blast
    then have "i \<noteq> k" using h assms(3) by (auto simp: stable_for_def)
    with ke show ?thesis by simp
  qed simp
  with h show ?thesis by (simp add: find_addr_iff [OF wf])
qed

section \<open>Delivery\<close>

text \<open>An interface whose driver hooks are set, as \<open>hdkif_init\<close> leaves it.\<close>

definition link_ready :: "netif \<Rightarrow> nat \<Rightarrow> bool" where
  "link_ready n inst \<longleftrightarrow>
     if_linkoutput n = Hdkif_output \<and> if_state n = Some inst \<and> length (if_hwaddr n) = 6"

definition wire_frame :: "nat \<Rightarrow> u8 list \<Rightarrow> tx_frame" where
  "wire_frame inst bs = \<lparr>tf_inst = inst, tf_bytes = bs, tf_len = max 60 (length bs)\<rparr>"

definition ip_frame :: "netif \<Rightarrow> u8 list \<Rightarrow> u8 list \<Rightarrow> u8 list" where
  "ip_frame n dst packet = dst @ if_hwaddr n @ be16 ETHTYPE_IP @ packet"

lemma linkoutput_ready:
  "link_ready n inst \<Longrightarrow>
   netif_linkoutput n p s = (ERR_OK, s\<lparr>lk_tx := lk_tx s @ [wire_frame inst (pbuf_bytes p)]\<rparr>)"
  by (simp add: link_ready_def netif_linkoutput_def hdkif_output_def wire_frame_def pbuf_tot_len_bytes
      MIN_PKT_LEN_def max_def)

lemma pbuf_put_bytes:
  "length bs \<le> pbuf_len p \<Longrightarrow> pbuf_bytes (pbuf_put 0 bs p) = bs @ drop (length bs) (pbuf_bytes p)"
  by (auto simp: pbuf_put_def pbuf_len_def put_bytes_def split: list.splits)

lemma send_ip_ready:
  assumes "link_ready n inst" and "pbuf_header q 14 = Some q'" and "q \<noteq> []" and "length dst = 6"
  shows "etharp_send_ip n q' (if_hwaddr n) dst s =
    (ERR_OK, s\<lparr>lk_tx := lk_tx s @ [wire_frame inst (ip_frame n dst (pbuf_bytes q))]\<rparr>)"
proof -
  have "drop 14 (pbuf_bytes q') = pbuf_bytes q \<and> 14 \<le> pbuf_len q'"
    using pbuf_header_bytes_show [of q 14 q'] assms by simp
  then have "pbuf_bytes (pbuf_put 0 (dst @ if_hwaddr n @ be16 ETHTYPE_IP) q') = ip_frame n dst (pbuf_bytes q)"
    using pbuf_put_bytes [of "dst @ if_hwaddr n @ be16 ETHTYPE_IP" q'] assms
    by (simp add: link_ready_def ip_frame_def)
  then show ?thesis using linkoutput_ready [OF assms(1)] by (simp add: etharp_send_ip_def)
qed

text \<open>The address whose hardware address is needed, as \<open>etharp_output\<close> chooses it.\<close>

definition next_hop :: "netif \<Rightarrow> u32 \<Rightarrow> u32 option" where
  "next_hop n a =
     (if \<not> ip_addr_netcmp a (if_ip_addr n) (if_netmask n) \<and> \<not> ip_addr_islinklocal a
      then (if ip_addr_isany (if_gw n) then None else Some (if_gw n)) else Some a)"

lemma etharp_output_next_hop:
  assumes "pbuf_header q 14 = Some q'" and "\<not> ip4_addr_isbroadcast a n" and "\<not> ip_addr_ismulticast a"
    and "next_hop n a = Some h"
  shows "etharp_output n q a s =
    (if stable_for h (arp_table s ! etharp_cached_entry s)
     then etharp_output_to_arp_index n q' (etharp_cached_entry s) s
     else case first_idx (stable_for h) (arp_table s) of
       Some i \<Rightarrow> etharp_output_to_arp_index n q' i (s\<lparr>etharp_cached_entry := i\<rparr>)
     | None \<Rightarrow> etharp_query n h (Some q') s)"
  using assms
  by (auto simp: etharp_output_def SIZEOF_ETH_HDR_def next_hop_def Let_def split: if_splits)

lemma output_known_host:
  assumes wf: "arp_wf s" and rdy: "link_ready n inst" and q: "pbuf_header q 14 = Some q'" "q \<noteq> []"
    and a: "\<not> ip4_addr_isbroadcast a n" "\<not> ip_addr_ismulticast a" "next_hop n a = Some h"
    and hit: "etharp_find_addr h s = Some (i, m)"
    and young: "ae_ctime (arp_table s ! i) < ARP_AGE_REREQUEST_USED"
  shows "etharp_output n q a s =
    (ERR_OK, s\<lparr>etharp_cached_entry := i, lk_tx := lk_tx s @ [wire_frame inst (ip_frame n m (pbuf_bytes q))]\<rparr>)"
proof -
  have tab: "arp_tab_wf (arp_table s)" using wf by (simp add: arp_wf_def)
  have i: "i < length (arp_table s)" "stable_for h (arp_table s ! i)" "ae_ethaddr (arp_table s ! i) = m"
    using hit by (simp_all add: find_addr_iff [OF tab])
  have uniq: "j = i" if "j < length (arp_table s)" "stable_for h (arp_table s ! j)" for j
    using that i arp_tab_wfD(3) [OF tab, of j i] active_stable by (auto simp: stable_for_def)
  have m: "length m = 6" using arp_tab_wfD(2) [OF tab i(1)] i(3) by (auto simp: entry_wf_def)
  have "etharp_output_to_arp_index n q' i (s\<lparr>etharp_cached_entry := i\<rparr>) =
      (ERR_OK, s\<lparr>etharp_cached_entry := i, lk_tx := lk_tx s @ [wire_frame inst (ip_frame n m (pbuf_bytes q))]\<rparr>)"
  proof -
    have "\<not> ARP_AGE_REREQUEST_USED \<le> ae_ctime (arp_table s ! i)" using young by (simp only: not_le)
    then show ?thesis
      using i send_ip_ready [OF rdy q m] by (simp add: etharp_output_to_arp_index_def Let_def)
  qed
  moreover have "etharp_output n q a s = etharp_output_to_arp_index n q' i (s\<lparr>etharp_cached_entry := i\<rparr>)"
  proof (cases "stable_for h (arp_table s ! etharp_cached_entry s)")
    case True
    then have "etharp_cached_entry s = i"
      using wf arp_tab_wfD(1) [OF tab] by (intro uniq) (auto simp: arp_wf_def)
    then have i: "s\<lparr>etharp_cached_entry := i\<rparr> = s" "etharp_cached_entry s = i" by auto
    from True show ?thesis unfolding i(1) by (simp add: etharp_output_next_hop [OF q(1) a] i(2))
  next
    case False
    obtain j where "first_idx (stable_for h) (arp_table s) = Some j"
      using first_idx_exists [of i "arp_table s" "stable_for h"] i(1,2) by blast
    moreover from this have "j = i" using first_idx_SomeD uniq by blast
    ultimately show ?thesis using False by (simp add: etharp_output_next_hop [OF q(1) a])
  qed
  ultimately show ?thesis by simp
qed

text \<open>
  The packet for an unresolved neighbour waits on the entry while the request is out: the entry is pending, it holds
  a copy of the packet with room for the Ethernet header, and the request is the one frame that was sent.
\<close>

definition arp_request_frame :: "netif \<Rightarrow> u32 \<Rightarrow> u8 list" where
  "arp_request_frame n a =
     arp_packet (if_hwaddr n) ethbroadcast (if_hwaddr n) (if_ip_addr n) ethzero a ARP_REQUEST"

lemma length_arp_packet:
  "length es = 6 \<Longrightarrow> length ed = 6 \<Longrightarrow> length hs = 6 \<Longrightarrow> length ht = 6 \<Longrightarrow>
   length (arp_packet es ed hs a ht b op) = 42"
  by (simp add: arp_packet_def)

lemma mem_ok_always: "ms_alloc m = [] \<Longrightarrow> mem_ok m = (True, m)"
  by (simp add: mem_ok_def)

lemma link_alloc_RAM:
  "ms_alloc (lk_mem s) = [] \<Longrightarrow>
   link_alloc layer k PBUF_RAM s =
     (Some [\<lparr>ps_type = PBUF_RAM, ps_hidden = junk_bytes (lk_mem s) (LWIP_MEM_ALIGN_SIZE (layer_offset layer)),
       ps_payload = junk_bytes (lk_mem s) k\<rparr>], s)"
  by (simp add: link_alloc_def pbuf_alloc_def mem_ok_always Let_def)

lemma request_ready:
  assumes "link_ready n inst" and "ms_alloc (lk_mem s) = []"
  shows "etharp_request n a s = (ERR_OK, s\<lparr>lk_tx := lk_tx s @ [wire_frame inst (arp_request_frame n a)]\<rparr>)"
proof -
  have len: "length (arp_request_frame n a) = 42"
    using assms(1) by (simp add: arp_request_frame_def length_arp_packet link_ready_def ethbroadcast_def
        ethzero_def)
  let ?p = "[\<lparr>ps_type = PBUF_RAM, ps_hidden = [], ps_payload = junk_bytes (lk_mem s) 42\<rparr>]"
  have "pbuf_bytes (pbuf_put 0 (arp_request_frame n a) ?p) = arp_request_frame n a"
    using len by (simp add: pbuf_put_bytes pbuf_len_def)
  then show ?thesis
    using linkoutput_ready [OF assms(1)] link_alloc_RAM [OF assms(2), of PBUF_RAW 42]
    by (simp add: etharp_request_def etharp_raw_def SIZEOF_ETHARP_PACKET_def arp_request_frame_def
        layer_offset_def LWIP_MEM_ALIGN_SIZE_def junk_bytes_def)
qed

lemma query_copy_ready:
  assumes "ms_alloc (lk_mem s) = []" and "q \<noteq> []" and "ps_type (hd q) \<noteq> PBUF_ROM"
    and "\<forall>x \<in> set q. ps_payload x \<noteq> []"
  obtains r where "query_copy q s = (Some [r], s)" "ps_payload r = pbuf_bytes q" "ps_type r = PBUF_RAM"
proof -
  have d: "dropWhile (\<lambda>p. ps_type p = PBUF_ROM) q = q" using assms(2,3) by (cases q) simp_all
  let ?r = "\<lparr>ps_type = PBUF_RAM, ps_hidden = junk_bytes (lk_mem s) 0,
    ps_payload = junk_bytes (lk_mem s) (pbuf_tot_len q)\<rparr>"
  have "link_alloc PBUF_RAW (pbuf_tot_len q) PBUF_RAM s = (Some [?r], s)"
    using link_alloc_RAM [OF assms(1), of PBUF_RAW] by (simp add: layer_offset_def LWIP_MEM_ALIGN_SIZE_def)
  moreover have "pbuf_copy [?r] q = (ERR_OK, [?r\<lparr>ps_payload := pbuf_bytes q\<rparr>])"
    using assms by (intro pbuf_copy_one) simp_all
  ultimately have "query_copy q s = (Some [?r\<lparr>ps_payload := pbuf_bytes q\<rparr>], s)"
    unfolding query_copy_def d using assms(2) by (cases q) simp_all
  with that show ?thesis by simp
qed

lemma output_unknown_host:
  assumes wf: "arp_wf s" and rdy: "link_ready n inst" and q: "pbuf_header q 14 = Some q'" "q \<noteq> []"
    "\<forall>x \<in> set (tl q). ps_payload x \<noteq> []"
    and a: "\<not> ip4_addr_isbroadcast a n" "\<not> ip_addr_ismulticast a" "next_hop n a = Some h" "unicast_for h n"
    and mem: "ms_alloc (lk_mem s) = []"
    and unknown: "\<forall>j < ARP_TABLE_SIZE. active (arp_table s ! j) \<longrightarrow> ae_ipaddr (arp_table s ! j) \<noteq> h"
  obtains s' i e r where "etharp_output n q a s = (ERR_OK, s')" "arp_wf s'"
    "lk_tx s' = lk_tx s @ [wire_frame inst (arp_request_frame n h)]"
    "i < length (arp_table s')" "arp_table s' ! i = e" "ae_state e = ETHARP_STATE_PENDING"
    "ae_ipaddr e = h" "ae_q e = Some [r]" "14 \<le> length (ps_payload r)"
    "drop 14 (ps_payload r) = pbuf_bytes q"
proof -
  have tab: "arp_tab_wf (arp_table s)" using wf by (simp add: arp_wf_def)
  have len: "length (arp_table s) = ARP_TABLE_SIZE" using arp_tab_wfD(1) [OF tab] .
  have none: "\<not> stable_for h (arp_table s ! j)" if "j < length (arp_table s)" for j
    using that unknown len active_stable by (auto simp: stable_for_def)
  then have "first_idx (stable_for h) (arp_table s) = None" by (simp add: first_idx_None_nth)
  moreover have "\<not> stable_for h (arp_table s ! etharp_cached_entry s)"
    using wf len by (intro none) (simp add: arp_wf_def)
  ultimately have out: "etharp_output n q a s = etharp_query n h (Some q') s"
    by (simp add: etharp_output_next_hop [OF q(1) a(1-3)])
  have q': "q' \<noteq> []" "ps_type (hd q') \<noteq> PBUF_ROM" "\<forall>x \<in> set q'. ps_payload x \<noteq> []"
    "drop 14 (pbuf_bytes q') = pbuf_bytes q" "14 \<le> pbuf_len q'"
    using q pbuf_header_bytes_show [of q 14 q']
    by (auto simp: pbuf_header_def Let_def split: list.splits if_splits)
  have pl: "pbuf_len q' \<le> length (pbuf_bytes q')" using q'(1) by (cases q') (simp_all add: pbuf_len_def)
  show ?thesis
    using tab
  proof (cases rule: find_entry_cases [of "arp_table s" h ETHARP_FLAG_TRY_HARD])
    case (fresh i e)
    let ?e = "e\<lparr>ae_state := ETHARP_STATE_PENDING\<rparr>"
    let ?s0 = "s\<lparr>arp_table := (arp_table s)[i := ?e]\<rparr>"
    let ?s1 = "?s0\<lparr>lk_tx := lk_tx s @ [wire_frame inst (arp_request_frame n h)]\<rparr>"
    obtain r where r: "query_copy q' ?s1 = (Some [r], ?s1)" "ps_payload r = pbuf_bytes q'"
      using query_copy_ready [of ?s1 q'] q'(1-3) mem by auto
    have "mark_pending i ((arp_table s)[i := e]) = (arp_table s)[i := ?e]"
      using fresh(2,3) by (simp add: mark_pending_def)
    then have "etharp_query n h (Some q') s = query_entry n h (Some q') i ?s0"
      using a(4) fresh(1) by (simp add: etharp_query_def unicast_for_def)
    also have "\<dots> = (ERR_OK, ?s1\<lparr>arp_table := (arp_table s)[i := ?e\<lparr>ae_q := Some [r]\<rparr>]\<rparr>)"
      using request_ready [OF rdy, of ?s0 h] mem fresh(2) r(1) by (simp add: query_entry_def Let_def)
    finally have res: "etharp_output n q a s =
        (ERR_OK, ?s1\<lparr>arp_table := (arp_table s)[i := ?e\<lparr>ae_q := Some [r]\<rparr>]\<rparr>)" using out by simp
    with etharp_output_wf [OF wf, of n q a]
    have "arp_wf (?s1\<lparr>arp_table := (arp_table s)[i := ?e\<lparr>ae_q := Some [r]\<rparr>]\<rparr>)" by simp
    with that [OF res this, of i "?e\<lparr>ae_q := Some [r]\<rparr>" r] fresh r(2) q'(4,5) pl show ?thesis
      by simp
  qed (use unknown len in auto)
qed

text \<open>The reply of the neighbour releases the waiting packet.\<close>

lemma update_releases:
  assumes wf: "arp_wf s" and rdy: "link_ready n inst" and a: "unicast_for a n" and m: "length m = 6"
    and i: "i < length (arp_table s)" "active (arp_table s ! i)" "ae_ipaddr (arp_table s ! i) = a"
    and q: "ae_q (arp_table s ! i) = Some [r]" "14 \<le> length (ps_payload r)" "drop 14 (ps_payload r) = packet"
  shows "fst (etharp_update_arp_entry nif n a m flags s) = ERR_OK \<and>
    lk_tx (snd (etharp_update_arp_entry nif n a m flags s)) =
      lk_tx s @ [wire_frame inst (ip_frame n m packet)]"
proof -
  have tab: "arp_tab_wf (arp_table s)" using wf by (simp add: arp_wf_def)
  have "pbuf_bytes (pbuf_put 0 (m @ if_hwaddr n @ be16 ETHTYPE_IP) [r]) = ip_frame n m packet"
    using pbuf_put_bytes [of "m @ if_hwaddr n @ be16 ETHTYPE_IP" "[r]"] q(2,3) m rdy
    by (simp add: pbuf_len_def link_ready_def ip_frame_def)
  then have "etharp_send_ip n [r] (if_hwaddr n) m t =
      (ERR_OK, t\<lparr>lk_tx := lk_tx t @ [wire_frame inst (ip_frame n m packet)]\<rparr>)" for t
    using linkoutput_ready [OF rdy] by (simp add: etharp_send_ip_def)
  then show ?thesis
    using find_entry_hit [OF tab i] a q(1) by (simp add: etharp_update_arp_entry_def unicast_for_def Let_def)
qed

text \<open>A request for the interface's own address is answered by a unicast reply to the asker.\<close>

lemma put_bytes_at: "length pre = i \<Longrightarrow> length xs = length mid \<Longrightarrow> put_bytes i xs (pre @ mid @ post) = pre @ xs @ post"
  by (simp add: put_bytes_def)

lemma slice_at: "length pre = i \<Longrightarrow> length mid = k \<Longrightarrow> take k (drop i (pre @ mid @ post)) = mid"
  by simp

lemma arp_reply_bytes_packet:
  assumes l: "length es = 6" "length ed = 6" "length hs = 6" "length ht = 6" "length hw = 6"
  shows "arp_reply_bytes ip hw (arp_packet es ed hs sip ht dip opc @ pad) =
    arp_packet hw hs hw ip hs sip ARP_REPLY @ pad"
proof -
  let ?t = "be16 ETHTYPE_ARP" and ?h = "be16 1 @ be16 ETHTYPE_IP @ [6, 4]"
  let ?p = "\<lambda>d e o1 h s t u. d @ e @ ?t @ ?h @ be16 o1 @ h @ be32 s @ t @ be32 u @ pad"
  have 1: "put_bytes 20 (be16 x) (?p ed es opc hs sip ht dip) = ?p ed es x hs sip ht dip" for x
    using put_bytes_at [of "ed @ es @ ?t @ ?h" 20 "be16 x" "be16 opc"] l by simp
  have 2: "put_bytes 38 (be32 x) (?p ed es ARP_REPLY hs sip ht dip) = ?p ed es ARP_REPLY hs sip ht x" for x
    using put_bytes_at [of "ed @ es @ ?t @ ?h @ be16 ARP_REPLY @ hs @ be32 sip @ ht" 38 "be32 x" "be32 dip" pad] l
    by simp
  have 3: "put_bytes 28 (be32 x) (?p ed es ARP_REPLY hs sip ht sip) = ?p ed es ARP_REPLY hs x ht sip" for x
    using put_bytes_at [of "ed @ es @ ?t @ ?h @ be16 ARP_REPLY @ hs" 28 "be32 x" "be32 sip"] l by simp
  have 4: "put_bytes 32 hs (?p ed es ARP_REPLY hs ip ht sip) = ?p ed es ARP_REPLY hs ip hs sip"
    using put_bytes_at [of "ed @ es @ ?t @ ?h @ be16 ARP_REPLY @ hs @ be32 ip" 32 hs ht] l by simp
  have 5: "put_bytes 0 hs (?p ed es ARP_REPLY hs ip hs sip) = ?p hs es ARP_REPLY hs ip hs sip"
    using put_bytes_at [of "[]" 0 hs ed] l by simp
  have 6: "put_bytes 22 hw (?p hs es ARP_REPLY hs ip hs sip) = ?p hs es ARP_REPLY hw ip hs sip"
    using put_bytes_at [of "hs @ es @ ?t @ ?h @ be16 ARP_REPLY" 22 hw hs] l by simp
  have 7: "put_bytes 6 hw (?p hs es ARP_REPLY hw ip hs sip) = ?p hs hw ARP_REPLY hw ip hs sip"
    using put_bytes_at [of hs 6 hw es] l by simp
  have s2: "take 4 (drop 28 (?p ed es ARP_REPLY hs sip ht dip)) = be32 sip"
    using slice_at [of "ed @ es @ ?t @ ?h @ be16 ARP_REPLY @ hs" 28 "be32 sip" 4] l by simp
  have s4: "take 6 (drop 22 (?p ed es ARP_REPLY hs ip t sip)) = hs" for t
    using slice_at [of "ed @ es @ ?t @ ?h @ be16 ARP_REPLY" 22 hs 6] l by simp
  have p: "arp_packet es ed hs sip ht dip opc @ pad = ?p ed es opc hs sip ht dip"
    "arp_packet hw hs hw ip hs sip ARP_REPLY @ pad = ?p hs hw ARP_REPLY hw ip hs sip"
    by (simp_all add: arp_packet_def)
  show ?thesis
    unfolding p arp_reply_bytes_def Let_def htons_def
    by (simp only: 1 s2 2 3 s4 4 5 6 7)
qed

end
