(* ===== verification/Inet_Chksum.thy ===== *)
theory Inet_Chksum
  imports Lwip_Prelude
begin

text \<open>
  The Internet checksum of \<open>core/ipv4/inet_chksum.c\<close>: the two-bytes-at-a-time routine selected by
  \<open>LWIP_CHKSUM_ALGORITHM == 2\<close>, with its alignment handling, and the sums over pbuf chains built on it.
  The lemmas relate every routine to one reference, the ones' complement sum of the bytes as
  big-endian 16-bit words, and so show that neither the alignment of a buffer nor the way a packet is
  cut into pbufs matters.
\<close>

section \<open>The routines\<close>

definition FOLD_U32T :: "u32 \<Rightarrow> u32" where
  "FOLD_U32T u = drop_bit 16 u + (u AND 0xffff)"

definition SWAP_BYTES_IN_WORD :: "u32 \<Rightarrow> u32" where
  "SWAP_BYTES_IN_WORD w = push_bit 8 (w AND 0xff) OR drop_bit 8 (w AND 0xff00)"

text \<open>The bulk loop: \<open>while (len > 1) { sum += *ps++; len -= 2; }\<close>, returning the left-over bytes.\<close>

fun chksum_words :: "u32 \<Rightarrow> u8 list \<Rightarrow> u32 \<times> u8 list" where
  "chksum_words s (a # b # ps) = chksum_words (s + ucast (mk16 a b)) ps"
| "chksum_words s ps = (s, ps)"

text \<open>
  \<open>al\<close> (the code's \<open>odd\<close>) says whether the data starts at an odd address. \<open>t1\<close> and \<open>t0\<close> are the bytes \<open>((u8_t*)&t)[1]\<close>
  and \<open>((u8_t*)&t)[0]\<close> of the 16-bit variable \<open>t\<close>, the low and the high byte on this target.
\<close>

definition lwip_standard_chksum :: "bool \<Rightarrow> u8 list \<Rightarrow> u16" where
  "lwip_standard_chksum al data =
     (let (t1, pb) = (if al \<and> data \<noteq> [] then (hd data, tl data) else (0, data));
          (s, ps) = chksum_words 0 pb;
          t0 = (case ps of [] \<Rightarrow> 0 | b # _ \<Rightarrow> b);
          s = s + ucast (mk16 t0 t1);
          s = FOLD_U32T s;
          s = FOLD_U32T s;
          s = (if al then SWAP_BYTES_IN_WORD s else s)
      in ucast s)"

definition inet_chksum :: "bool \<Rightarrow> u8 list \<Rightarrow> u16" where
  "inet_chksum al data = NOT (lwip_standard_chksum al data)"

text \<open>A pbuf chain: each element with the alignment of its payload and its bytes.\<close>

type_synonym chain = "(bool \<times> u8 list) list"

fun chksum_chain :: "u32 \<Rightarrow> bool \<Rightarrow> chain \<Rightarrow> u32 \<times> bool" where
  "chksum_chain acc swapped [] = (acc, swapped)"
| "chksum_chain acc swapped ((al, bs) # qs) =
     (let acc = acc + ucast (lwip_standard_chksum al bs);
          acc = FOLD_U32T acc
      in if length bs mod 2 \<noteq> 0
         then chksum_chain (SWAP_BYTES_IN_WORD acc) (\<not> swapped) qs
         else chksum_chain acc swapped qs)"

definition inet_chksum_pbuf :: "chain \<Rightarrow> u16" where
  "inet_chksum_pbuf p =
     (let (acc, swapped) = chksum_chain 0 False p;
          acc = (if swapped then SWAP_BYTES_IN_WORD acc else acc)
      in ucast (NOT (acc AND 0xffff)))"

definition inet_chksum_pseudo :: "chain \<Rightarrow> u32 \<Rightarrow> u32 \<Rightarrow> u8 \<Rightarrow> u16 \<Rightarrow> u16" where
  "inet_chksum_pseudo p src dest proto proto_len =
     (let (acc, swapped) = chksum_chain 0 False p;
          acc = (if swapped then SWAP_BYTES_IN_WORD acc else acc);
          acc = acc + (src AND 0xffff);
          acc = acc + (drop_bit 16 src AND 0xffff);
          acc = acc + (dest AND 0xffff);
          acc = acc + (drop_bit 16 dest AND 0xffff);
          acc = acc + ucast (htons (ucast proto));
          acc = acc + ucast (htons proto_len);
          acc = FOLD_U32T acc;
          acc = FOLD_U32T acc
      in ucast (NOT (acc AND 0xffff)))"

section \<open>The reference: ones' complement sums of natural numbers\<close>

text \<open>The sum of the big-endian words of a byte sequence, the last odd byte padded with zero.\<close>

fun nsum :: "u8 list \<Rightarrow> nat" where
  "nsum (a # b # ps) = unat a * 256 + unat b + nsum ps"
| "nsum [a] = unat a * 256"
| "nsum [] = 0"

text \<open>
  The ones' complement representative of a sum: congruent modulo 65535, and 0 only for 0 (a positive
  multiple of 65535 is represented by 65535).
\<close>

definition ones_sum :: "nat \<Rightarrow> nat" where
  "ones_sum n = (if n = 0 then 0 else (n - 1) mod 65535 + 1)"

lemma ones_sum_unique:
  assumes "r \<le> 65535" and "r mod 65535 = n mod 65535" and "r = 0 \<longleftrightarrow> n = 0"
  shows "r = ones_sum n"
proof (cases "n = 0")
  case True
  with assms show ?thesis by (simp add: ones_sum_def)
next
  case False
  with assms(3) obtain r' n' where rn: "r = Suc r'" "n = Suc n'" by (meson not0_implies_Suc)
  have "Suc r' mod 65535 = Suc n' mod 65535" using assms(2) rn by simp
  moreover have "r' mod 65535 = r'" using assms(1) rn by simp
  ultimately have "r' = n' mod 65535"
    by (simp add: mod_Suc split: if_splits)
  with rn show ?thesis by (simp add: ones_sum_def)
qed

section \<open>Folding and swapping as arithmetic modulo 65535\<close>

lemma and_ffff: "x AND 0xffff = take_bit 16 x" for x :: u32
  by (simp add: take_bit_eq_mask mask_eq_exp_minus_1)

lemma unat_and_ffff: "unat (x AND 0xffff) = unat x mod 65536" for x :: u32
  by (simp add: and_ffff take_bit_eq_mod unat_mod)

lemma unat_FOLD: "unat (FOLD_U32T x) = unat x div 65536 + unat x mod 65536"
proof -
  have "unat x div 65536 + unat x mod 65536 < 4294967296"
    using div_mult_mod_eq [of "unat x" 65536] unat_u32_less [of x] by linarith
  then show ?thesis
    by (simp add: FOLD_U32T_def unat_word_ariths unat_and_ffff drop_bit_eq_div unat_div)
qed

lemma fold_mod: "((n :: nat) div 65536 + n mod 65536) mod 65535 = n mod 65535"
proof -
  have "n = n div 65536 * 65535 + (n div 65536 + n mod 65536)"
    using div_mult_mod_eq [of n 65536] by linarith
  then show ?thesis by (metis mod_mult_self3)
qed

lemma fold_zero: "(n :: nat) div 65536 + n mod 65536 = 0 \<longleftrightarrow> n = 0"
  using div_mult_mod_eq [of n 65536] by linarith

lemma ones_sum_le: "ones_sum n \<le> 65535"
  by (simp add: ones_sum_def less_Suc_eq_le [symmetric])

lemma ones_sum_mod: "ones_sum n mod 65535 = n mod 65535"
  by (cases n) (simp_all add: ones_sum_def mod_Suc_eq)

lemma ones_sum_eq_0 [simp]: "ones_sum n = 0 \<longleftrightarrow> n = 0"
  by (simp add: ones_sum_def)

lemma FOLD_small: "unat x \<le> 131070 \<Longrightarrow> unat (FOLD_U32T x) = ones_sum (unat x)"
proof -
  assume x: "unat x \<le> 131070"
  have "unat x div 65536 + unat x mod 65536 \<le> 65535"
  proof (cases "unat x < 65536")
    case False
    then obtain y where "unat x = y + 65536" using le_Suc_ex by (metis add.commute not_less)
    with x show ?thesis by simp
  qed simp
  then show ?thesis unfolding unat_FOLD by (rule ones_sum_unique) (simp_all only: fold_mod fold_zero)
qed

lemma FOLD_twice: "unat (FOLD_U32T (FOLD_U32T x)) = ones_sum (unat x)"
proof -
  have "unat x div 65536 \<le> 65535" using unat_u32_less [of x] by (simp add: less_mult_imp_div_less less_Suc_eq_le [symmetric])
  moreover have "unat x mod 65536 \<le> 65535" by (simp add: less_Suc_eq_le [symmetric])
  ultimately have "unat (FOLD_U32T x) \<le> 131070" unfolding unat_FOLD by linarith
  then have *: "unat (FOLD_U32T (FOLD_U32T x)) = ones_sum (unat (FOLD_U32T x))" by (rule FOLD_small)
  show ?thesis unfolding *
    by (rule ones_sum_unique [OF ones_sum_le])
      (simp_all only: ones_sum_mod ones_sum_eq_0 unat_FOLD fold_mod fold_zero)
qed

text \<open>Swapping the bytes of a 16-bit value multiplies it by 256 modulo 65535.\<close>

lemma and_ff: "x AND 0xff = take_bit 8 x" for x :: u32
  by (simp add: take_bit_eq_mask mask_eq_exp_minus_1)

lemma unat_take8: "unat (take_bit 8 x) = unat x mod 256" for x :: u32
  by (simp add: take_bit_eq_mod unat_mod)

lemma unat_u32_length: "2 ^ LENGTH(32) = (4294967296 :: nat)"
  by simp

lemma unat_shift_or:
  "unat (push_bit 8 (take_bit 8 a) OR take_bit 8 b) = unat a mod 256 * 256 + unat b mod 256"
  for a b :: u32
proof -
  have "push_bit 8 (take_bit 8 a) + take_bit 8 b = push_bit 8 (take_bit 8 a) OR take_bit 8 b"
    by (rule disjunctive_add) (auto simp: bit_push_bit_iff bit_take_bit_iff)
  moreover have "unat (push_bit 8 (take_bit 8 a)) = unat a mod 256 * 256"
    by (simp add: push_bit_eq_mult unat_word_ariths unat_take8)
  moreover have "unat a mod 256 * 256 + unat b mod 256 < 4294967296"
  proof -
    have "unat a mod 256 < 256" "unat b mod 256 < 256" by simp_all
    then show ?thesis by linarith
  qed
  ultimately show ?thesis
    by (metis unat_take8 unat_word_ariths(1) mod_less unat_u32_length)
qed

lemma unat_SWAP: "unat (SWAP_BYTES_IN_WORD w) = unat w mod 256 * 256 + unat w div 256 mod 256"
proof -
  have "drop_bit 8 (w AND 0xff00) = drop_bit 8 w AND 0xff" by simp
  then have "SWAP_BYTES_IN_WORD w = push_bit 8 (take_bit 8 w) OR take_bit 8 (drop_bit 8 w)"
    by (simp only: SWAP_BYTES_IN_WORD_def and_ff)
  then show ?thesis by (simp add: unat_shift_or drop_bit_eq_div unat_div)
qed

lemma SWAP_small:
  assumes "unat w \<le> 65535"
  shows "unat (SWAP_BYTES_IN_WORD w) = ones_sum (256 * unat w)"
proof -
  let ?h = "unat w div 256" and ?l = "unat w mod 256"
  have h: "?h < 256" using assms by (simp add: less_mult_imp_div_less)
  have l: "?l < 256" by simp
  have w: "unat w = ?h * 256 + ?l" by simp
  have v: "unat (SWAP_BYTES_IN_WORD w) = ?l * 256 + ?h" using h by (simp add: unat_SWAP)
  have "256 * unat w = ?h * 65535 + (?l * 256 + ?h)" using w by linarith
  then have "(?l * 256 + ?h) mod 65535 = 256 * unat w mod 65535" by (metis mod_mult_self3)
  moreover have "?l * 256 + ?h \<le> 65535" using h l by linarith
  moreover have "?l * 256 + ?h = 0 \<longleftrightarrow> 256 * unat w = 0" using w by linarith
  ultimately show ?thesis unfolding v by (intro ones_sum_unique) simp_all
qed

lemma unat_mk16: "unat (mk16 a b) = unat a * 256 + unat b"
proof -
  have eq: "push_bit 8 (ucast a) + ucast b = mk16 a b"
    unfolding mk16_def
    by (rule disjunctive_add) (auto simp: bit_push_bit_iff bit_ucast_iff dest: bit_imp_le_length)
  have lt: "unat a * 256 + unat b < 65536"
    using unat_u8_less [of a] unat_u8_less [of b] by linarith
  have a: "unat (ucast a :: u16) = unat a" and b: "unat (ucast b :: u16) = unat b"
    by (simp_all add: unsigned_ucast_eq take_bit_nat_eq_self order_less_trans [OF unat_u8_less])
  have "unat (push_bit 8 (ucast a :: u16) + ucast b) = unat a * 256 + unat b"
    using lt by (simp add: push_bit_eq_mult unat_word_ariths a b)
  then show ?thesis by (simp only: eq)
qed

section \<open>The routine computes the reference sum\<close>

lemma chksum_words_nsum:
  assumes "unat s + nsum ps < 4294967296" and "chksum_words s ps = (s', r)"
  shows "unat s' + nsum r = unat s + nsum ps \<and> length r \<le> 1 \<and> (length r = length ps mod 2)"
  using assms
proof (induction s ps rule: chksum_words.induct)
  case (1 s a b ps)
  have w: "unat (ucast (mk16 a b) :: u32) = unat a * 256 + unat b"
    using unat_u16_less [of "mk16 a b"]
    by (simp add: unsigned_ucast_eq take_bit_nat_eq_self unat_mk16)
  from "1.prems"(1) have s: "unat (s + ucast (mk16 a b)) = unat s + (unat a * 256 + unat b)"
    by (simp add: unat_word_ariths w)
  with "1.IH" "1.prems" show ?case by simp
qed auto

text \<open>
  The sum taken from an odd address pairs the bytes the other way round; modulo 65535 that is a
  factor of 256.
\<close>

lemma nsum_bound: "nsum ps \<le> 65535 * ((length ps + 1) div 2)"
proof (induction ps rule: nsum.induct)
  case (1 a b ps)
  have "(length (a # b # ps) + 1) div 2 = Suc ((length ps + 1) div 2)" by simp
  moreover have "unat a * 256 + unat b \<le> 65535"
    using unat_u8_less [of a] unat_u8_less [of b] by linarith
  ultimately show ?case using 1 by (simp only: nsum.simps mult_Suc_right)
next
  case (2 a)
  have "unat a * 256 \<le> 65535" using unat_u8_less [of a] by linarith
  then show ?case by simp
qed simp

lemma nsum_Cons: "\<exists>k. nsum (a # ps) + k * 65535 = 256 * (unat a + nsum ps)"
proof (induction ps arbitrary: a rule: nsum.induct)
  case (1 b c ps)
  from "1.IH" [of c] obtain k where "nsum (c # ps) + k * 65535 = 256 * (unat c + nsum ps)" ..
  then have "nsum (a # b # c # ps) + (k + unat b) * 65535 = 256 * (unat a + nsum (b # c # ps))"
    by simp
  then show ?case ..
next
  case (2 b)
  have "nsum [a, b] + unat b * 65535 = 256 * (unat a + nsum [b])" by simp
  then show ?case ..
next
  case 3
  have "nsum [a] + 0 * 65535 = 256 * (unat a + nsum [])" by simp
  then show ?case ..
qed

lemma nsum_eq_0: "nsum ps = 0 \<longleftrightarrow> (\<forall>b \<in> set ps. b = 0)"
  by (induction ps rule: nsum.induct) (auto simp: unat_eq_zero)

lemma nsum_append:
  "\<exists>k. nsum (ps @ qs) + k * 65535 = nsum ps + (if even (length ps) then 1 else 256) * nsum qs"
proof (induction ps rule: nsum.induct)
  case (1 a b ps)
  then show ?case by auto
next
  case (2 a)
  from nsum_Cons [of a qs] obtain k where "nsum (a # qs) + k * 65535 = 256 * (unat a + nsum qs)" ..
  then have "nsum ([a] @ qs) + k * 65535 = nsum [a] + 256 * nsum qs" by simp
  then show ?case by auto
next
  case 3
  have "nsum ([] @ qs) + 0 * 65535 = nsum [] + 1 * nsum qs" by simp
  then show ?case by auto
qed

lemma nsum_append_even: "even (length ps) \<Longrightarrow> nsum (ps @ qs) = nsum ps + nsum qs"
  by (induction ps rule: nsum.induct) auto

lemma mod_cong_add: "a + k * 65535 = (b :: nat) \<Longrightarrow> a mod 65535 = b mod 65535"
  by auto

text \<open>Equality of ones' complement sums is a congruence.\<close>

lemma ones_sum_cong:
  "m mod 65535 = n mod 65535 \<Longrightarrow> (m = 0 \<longleftrightarrow> n = 0) \<Longrightarrow> ones_sum m = ones_sum n"
  using ones_sum_unique [of "ones_sum m" n] by (simp add: ones_sum_le ones_sum_mod)

lemma ones_sum_add [simp]: "ones_sum (ones_sum a + b) = ones_sum (a + b)"
  "ones_sum (a + ones_sum b) = ones_sum (a + b)"
proof -
  show l: "ones_sum (ones_sum a + b) = ones_sum (a + b)" for a b
    by (rule ones_sum_cong) (metis mod_add_left_eq ones_sum_mod, simp)
  show "ones_sum (a + ones_sum b) = ones_sum (a + b)"
    using l [of b a] by (simp only: add.commute)
qed

lemma ones_sum_mult [simp]: "ones_sum (c * ones_sum a) = ones_sum (c * a)"
  by (rule ones_sum_cong) (metis mod_mult_right_eq ones_sum_mod, simp)

lemma ones_sum_65536 [simp]: "ones_sum (65536 * a) = ones_sum a"
proof (rule ones_sum_cong)
  have "a + a * 65535 = 65536 * a" by simp
  then show "65536 * a mod 65535 = a mod 65535" by (metis mod_cong_add)
qed simp

lemma ones_sum_idem [simp]: "ones_sum (ones_sum a) = ones_sum a"
  using ones_sum_add(1) [of a 0] by simp

lemma ones_sum_small: "n \<le> 65535 \<Longrightarrow> ones_sum n = n"
  by (rule ones_sum_unique [symmetric]) simp_all

lemma ones_nsum_Cons: "ones_sum (nsum (a # ps)) = ones_sum (256 * (unat a + nsum ps))"
proof (rule ones_sum_cong)
  obtain k where "nsum (a # ps) + k * 65535 = 256 * (unat a + nsum ps)" using nsum_Cons ..
  then show "nsum (a # ps) mod 65535 = 256 * (unat a + nsum ps) mod 65535" by (rule mod_cong_add)
qed (auto simp: nsum_eq_0 unat_eq_zero)

lemma ones_nsum_append:
  "ones_sum (nsum (ps @ qs)) = ones_sum (nsum ps + (if even (length ps) then 1 else 256) * nsum qs)"
proof (rule ones_sum_cong)
  obtain k where "nsum (ps @ qs) + k * 65535 =
      nsum ps + (if even (length ps) then 1 else 256) * nsum qs" using nsum_append ..
  then show "nsum (ps @ qs) mod 65535 =
      (nsum ps + (if even (length ps) then 1 else 256) * nsum qs) mod 65535" by (rule mod_cong_add)
qed (auto simp: nsum_eq_0)

lemma nsum_fits: "length ps \<le> 65536 \<Longrightarrow> nsum ps \<le> 2147450880"
proof -
  assume "length ps \<le> 65536"
  then have "(length ps + 1) div 2 \<le> 32768" by linarith
  then show ?thesis using nsum_bound [of ps] by linarith
qed

lemma unat_ucast16: "unat (ucast x :: u32) = unat x" for x :: u16
  by (simp add: unsigned_ucast_eq take_bit_nat_eq_self order.strict_trans [OF unat_u16_less])

lemma unat_plus_small: "unat x + unat y < 4294967296 \<Longrightarrow> unat (x + y) = unat x + unat y" for x y :: u32
  by (simp add: unat_word_ariths)

lemma chksum_tail:
  assumes "chksum_words 0 pb = (s, r)" and "length pb \<le> 65536"
  shows "unat (s + ucast (mk16 (case r of [] \<Rightarrow> 0 | b # _ \<Rightarrow> b) t)) = unat t + nsum pb"
proof -
  have sr: "unat s + nsum r = nsum pb" "length r \<le> 1"
    using chksum_words_nsum [of 0 pb s r] assms nsum_fits [OF assms(2)] by auto
  moreover have "unat t + nsum pb < 4294967296"
    using nsum_fits [OF assms(2)] unat_u8_less [of t] by linarith
  moreover from sr(2) have "(case r of [] \<Rightarrow> 0 | b # _ \<Rightarrow> unat b) * 256 = nsum r"
    by (cases r) (auto simp: Suc_le_eq)
  then have "unat (ucast (mk16 (case r of [] \<Rightarrow> 0 | b # _ \<Rightarrow> b) t) :: u32) = nsum r + unat t"
    by (cases r) (simp_all add: unat_ucast16 unat_mk16)
  ultimately show ?thesis by (simp add: unat_plus_small)
qed

lemma unat_standard_chksum:
  assumes "length data \<le> 65536"
  shows "unat (lwip_standard_chksum al data) = ones_sum (nsum data)"
proof -
  obtain t pb where tp: "(if al \<and> data \<noteq> [] then (hd data, tl data) else (0, data)) = (t, pb)"
    by (meson surj_pair)
  obtain s r where sr: "chksum_words 0 pb = (s, r)" by (meson surj_pair)
  let ?s = "FOLD_U32T (FOLD_U32T (s + ucast (mk16 (case r of [] \<Rightarrow> 0 | b # _ \<Rightarrow> b) t)))"
  have "length pb \<le> 65536" using tp assms by (auto split: if_splits)
  from chksum_tail [OF sr this] have s: "unat ?s = ones_sum (unat t + nsum pb)"
    by (simp only: FOLD_twice)
  then have "unat (if al then SWAP_BYTES_IN_WORD ?s else ?s) = ones_sum (nsum data)"
  proof (cases al)
    case True
    have "unat (SWAP_BYTES_IN_WORD ?s) = ones_sum (256 * unat ?s)"
      by (rule SWAP_small) (simp only: s ones_sum_le)
    then have "unat (SWAP_BYTES_IN_WORD ?s) = ones_sum (256 * (unat t + nsum pb))"
      by (simp only: s ones_sum_mult)
    with True tp show ?thesis
      by (cases data) (simp_all add: ones_nsum_Cons add_mult_distrib2)
  qed (use tp in auto)
  then have *: "unat (if al then SWAP_BYTES_IN_WORD ?s else ?s) = ones_sum (nsum data)" .
  have "lwip_standard_chksum al data = ucast (if al then SWAP_BYTES_IN_WORD ?s else ?s)"
    by (simp add: lwip_standard_chksum_def tp sr Let_def)
  then show ?thesis using ones_sum_le [of "nsum data"]
    by (simp only: unsigned_ucast_eq *) (simp add: take_bit_nat_eq_self)
qed

section \<open>Sums over pbuf chains\<close>

lemma chksum_chain_ones:
  assumes "chksum_chain acc sw ch = (acc', sw')" and "unat acc \<le> 65535"
    and "\<forall>(al, bs) \<in> set ch. length bs \<le> 65536"
  shows "unat acc' \<le> 65535 \<and> ones_sum ((if sw' then 256 else 1) * unat acc') =
    ones_sum ((if sw then 256 else 1) * (unat acc + nsum (concat (map snd ch))))"
  using assms
proof (induction acc sw ch rule: chksum_chain.induct)
  case (2 acc sw al bs qs)
  let ?a = "FOLD_U32T (acc + ucast (lwip_standard_chksum al bs))"
  let ?f = "if sw then 256 else (1 :: nat)" and ?r = "concat (map snd qs)"
  have chk: "unat (lwip_standard_chksum al bs) = ones_sum (nsum bs)"
    using "2.prems"(3) by (intro unat_standard_chksum) auto
  have "unat (acc + ucast (lwip_standard_chksum al bs)) = unat acc + ones_sum (nsum bs)"
    using "2.prems"(2) ones_sum_le [of "nsum bs"]
    by (subst unat_plus_small) (simp_all add: unat_ucast16 chk)
  then have a: "unat ?a = ones_sum (unat acc + nsum bs)"
    using "2.prems"(2) ones_sum_le [of "nsum bs"] by (subst FOLD_small) simp_all
  have cat: "ones_sum (?f * (unat acc + nsum (bs @ ?r))) =
      ones_sum (?f * (unat acc + (nsum bs + (if even (length bs) then 1 else 256) * nsum ?r)))"
    by (metis ones_nsum_append ones_sum_add(2) ones_sum_mult)
  show ?case
  proof (cases "even (length bs)")
    case True
    have a': "unat ?a \<le> 65535" unfolding a by (rule ones_sum_le)
    from True "2.IH"(2) [OF refl refl] "2.prems"(1,3) a'
    have "unat acc' \<le> 65535 \<and> ones_sum ((if sw' then 256 else 1) * unat acc') =
        ones_sum (?f * (unat ?a + nsum ?r))"
      by (simp add: Let_def even_iff_mod_2_eq_zero)
    moreover have "ones_sum (?f * (unat ?a + nsum ?r)) = ones_sum (?f * (unat acc + nsum bs + nsum ?r))"
      unfolding a by (metis ones_sum_add(1) ones_sum_mult)
    ultimately show ?thesis using cat True by (simp add: add.assoc cong: if_cong)
  next
    case False
    let ?b = "SWAP_BYTES_IN_WORD ?a"
    have b: "unat ?b = ones_sum (256 * (unat acc + nsum bs))"
      by (subst SWAP_small) (simp_all add: a ones_sum_le)
    have b': "unat ?b \<le> 65535" unfolding b by (rule ones_sum_le)
    let ?g = "if \<not> sw then 256 else (1 :: nat)"
    have "unat acc' \<le> 65535 \<and> ones_sum ((if sw' then 256 else 1) * unat acc') =
        ones_sum (?g * (unat ?b + nsum ?r))"
      using "2.IH"(1) [OF refl refl] "2.prems"(1,3) False b'
      by (simp add: Let_def odd_iff_mod_2_eq_one)
    moreover have "ones_sum (?g * (unat ?b + nsum ?r)) =
        ones_sum (?f * (unat acc + (nsum bs + 256 * nsum ?r)))"
    proof -
      have "ones_sum (?g * (unat ?b + nsum ?r)) =
          ones_sum (?g * (256 * (unat acc + nsum bs) + nsum ?r))"
        unfolding b by (metis ones_sum_add(1) ones_sum_mult)
      also have "\<dots> = ones_sum (?f * (unat acc + (nsum bs + 256 * nsum ?r)))"
      proof (cases sw)
        case True
        have "ones_sum (256 * (unat acc + (nsum bs + 256 * nsum ?r))) =
            ones_sum (256 * (unat acc + nsum bs) + 65536 * nsum ?r)"
          by (simp add: algebra_simps)
        also have "\<dots> = ones_sum (256 * (unat acc + nsum bs) + nsum ?r)"
          by (metis ones_sum_65536 ones_sum_add(2))
        finally show ?thesis using True by simp
      next
        case False
        have "ones_sum (256 * (256 * (unat acc + nsum bs) + nsum ?r)) =
            ones_sum (65536 * (unat acc + nsum bs) + 256 * nsum ?r)"
          by (simp add: algebra_simps)
        also have "\<dots> = ones_sum (unat acc + nsum bs + 256 * nsum ?r)"
          by (metis ones_sum_65536 ones_sum_add(1))
        finally show ?thesis using False by (simp add: algebra_simps)
      qed
      finally show ?thesis .
    qed
    ultimately show ?thesis using cat False by simp
  qed
qed auto

lemma chksum_chain_final:
  assumes "chksum_chain 0 False ch = (acc, sw)" and "\<forall>(al, bs) \<in> set ch. length bs \<le> 65536"
  shows "unat (if sw then SWAP_BYTES_IN_WORD acc else acc) = ones_sum (nsum (concat (map snd ch)))"
proof -
  have "unat acc \<le> 65535"
    and "ones_sum ((if sw then 256 else 1) * unat acc) = ones_sum (nsum (concat (map snd ch)))"
    using chksum_chain_ones [OF assms(1) _ assms(2)] by auto
  then show ?thesis by (cases sw) (simp_all only: SWAP_small ones_sum_small if_True if_False mult_1)
qed

lemma ucast_NOT_low: "ucast (NOT (x AND 0xffff)) = NOT (ucast x :: u16)" for x :: u32
  by (rule bit_word_eqI) (simp add: and_ffff bit_ucast_iff bit_not_iff bit_take_bit_iff)

lemma ucast_of_unat: "unat x = n \<Longrightarrow> ucast x = (of_nat n :: u16)" for x :: u32
  by auto

lemma unat_drop_bit: "unat (drop_bit k x) = unat x div 2 ^ k" for x :: u32
  by (simp only: unat_drop_bit_eq) (simp only: drop_bit_eq_div)

lemma unat_ucast_drop_bit: "unat (ucast (drop_bit k x) :: u8) = unat x div 2 ^ k mod 256" for x :: u32
  by (simp add: unsigned_ucast_eq take_bit_eq_mod unat_drop_bit)

lemma mod_65536: "(m :: nat) div 256 mod 256 * 256 + m mod 256 = m mod 65536"
  using mod_mult2_eq [of m 256 256] by simp

lemma nsum_be32: "nsum (be32 x) = unat (x AND 0xffff) + unat (drop_bit 16 x AND 0xffff)"
proof -
  have "unat (ucast x :: u8) = unat x mod 256"
    using unat_ucast_drop_bit [of 0 x] by simp
  then have "nsum (be32 x) = unat x div 65536 div 256 mod 256 * 256 + unat x div 65536 mod 256 +
      (unat x div 256 mod 256 * 256 + unat x mod 256)"
    unfolding be32_def by (simp add: unat_ucast_drop_bit div_mult2_eq [symmetric])
  then show ?thesis
    by (simp add: mod_65536 unat_and_ffff unat_drop_bit)
qed

lemma nsum_be16: "nsum (be16 x) = unat x"
  by (metis be16_def mk16_be16 nsum.simps(1,3) unat_mk16 add_0_right)

lemma unat_ucast8: "unat (ucast x :: u16) = unat x" for x :: u8
  by (simp add: unsigned_ucast_eq take_bit_nat_eq_self order.strict_trans [OF unat_u8_less])

theorem inet_chksum_pseudo_reference:
  assumes "\<forall>(al, bs) \<in> set p. length bs \<le> 65536"
  shows "inet_chksum_pseudo p src dest proto len =
    NOT (of_nat (ones_sum (nsum (be32 src @ be32 dest @ [0, proto] @ be16 len @ concat (map snd p)))))"
proof -
  obtain acc sw where c: "chksum_chain 0 False p = (acc, sw)" by (meson surj_pair)
  define a where "a = (if sw then SWAP_BYTES_IN_WORD acc else acc)"
  let ?d = "concat (map snd p)"
  have a: "unat a = ones_sum (nsum ?d)" unfolding a_def by (rule chksum_chain_final [OF c assms])
  let ?x = "a + (src AND 0xffff) + (drop_bit 16 src AND 0xffff) + (dest AND 0xffff)
      + (drop_bit 16 dest AND 0xffff) + ucast (ucast proto :: u16) + ucast len"
  have b16: "unat (y AND 0xffff) < 65536" for y :: u32 unfolding unat_and_ffff by simp
  have x: "unat ?x = ones_sum (nsum ?d) + nsum (be32 src) + nsum (be32 dest) + unat proto + unat len"
  proof -
    have "unat proto \<le> 255" "unat len \<le> 65535"
      using unat_u8_less [of proto] unat_u16_less [of len] by linarith+
    with ones_sum_le [of "nsum ?d"] b16 [of src] b16 [of "drop_bit 16 src"] b16 [of dest]
      b16 [of "drop_bit 16 dest"]
    show ?thesis
      by (simp add: unat_word_ariths(1) mod_simps unat_ucast16 unat_ucast8 nsum_be32 a)
  qed
  have "nsum (be32 src @ be32 dest @ [0, proto] @ be16 len @ ?d) =
      nsum (be32 src) + nsum (be32 dest) + unat proto + unat len + nsum ?d"
    by (simp add: nsum_append_even nsum_be16)
  then have "ones_sum (unat ?x) = ones_sum (nsum (be32 src @ be32 dest @ [0, proto] @ be16 len @ ?d))"
    unfolding x by (metis (no_types, lifting) add.assoc add.commute ones_sum_add(1))
  then have "unat (FOLD_U32T (FOLD_U32T ?x)) =
      ones_sum (nsum (be32 src @ be32 dest @ [0, proto] @ be16 len @ ?d))"
    by (simp only: FOLD_twice)
  then show ?thesis
    unfolding inet_chksum_pseudo_def c
    by (simp only: Let_def prod.case a_def [symmetric] byteorder_simps ucast_NOT_low)
      (simp only: ucast_of_unat)
qed

theorem inet_chksum_reference:
  assumes "length data \<le> 65536"
  shows "inet_chksum al data = NOT (of_nat (ones_sum (nsum data)))"
  unfolding inet_chksum_def unat_standard_chksum [OF assms, of al, symmetric] by simp

theorem inet_chksum_pbuf_reference:
  assumes "\<forall>(al, bs) \<in> set p. length bs \<le> 65536"
  shows "inet_chksum_pbuf p = NOT (of_nat (ones_sum (nsum (concat (map snd p)))))"
proof -
  obtain acc sw where c: "chksum_chain 0 False p = (acc, sw)" by (meson surj_pair)
  show ?thesis
    unfolding inet_chksum_pbuf_def c
    by (simp only: Let_def prod.case ucast_NOT_low ucast_of_unat [OF chksum_chain_final [OF c assms]])
qed

text \<open>
  Storing the computed checksum in a zeroed field at an even offset makes the data verify: the
  receiver's sum over it is zero.
\<close>

lemma ones_sum_complete: "ones_sum (65535 - ones_sum n + n) = 65535"
proof -
  have "ones_sum (65535 - ones_sum n + n) = ones_sum (65535 - ones_sum n + ones_sum n)"
    by (simp only: ones_sum_add(2))
  then show ?thesis using ones_sum_le [of n] by (simp add: ones_sum_small)
qed

lemma unat_NOT_ones_sum: "unat (NOT (of_nat (ones_sum n)) :: u16) = 65535 - ones_sum n"
proof -
  have "NOT (of_nat (ones_sum n)) = (of_nat (65535 - ones_sum n) :: u16)"
    using ones_sum_le [of n] by (simp add: not_eq_complement of_nat_diff)
  moreover have "65535 - ones_sum n < 65536" by simp
  ultimately show ?thesis by (simp add: unat_of_nat)
qed

theorem inet_chksum_verifies:
  assumes "even (length pre)" and "length pre + length post + 2 \<le> 65536"
  shows "inet_chksum al' (pre @ be16 (inet_chksum al (pre @ [0, 0] @ post)) @ post) = 0"
proof -
  let ?n = "nsum (pre @ [0, 0] @ post)"
  have "nsum (pre @ be16 (inet_chksum al (pre @ [0, 0] @ post)) @ post) = 65535 - ones_sum ?n + ?n"
    using assms
    by (simp add: nsum_append_even inet_chksum_reference nsum_be16 unat_NOT_ones_sum)
  then show ?thesis using assms
    by (simp add: inet_chksum_reference ones_sum_complete)
qed

end
