(* ===== verification/Netif.thy ===== *)
theory Netif
  imports Etharp Inet_Chksum
begin

text \<open>
  The interface list (\<open>core/netif.c\<close>), routing and the output half of IP (\<open>core/ipv4/ip.c\<close>). \<open>net_st\<close> is the state
  shared by these files: the link layer, the interface structures, the list \<open>netif_list\<close> as a list of pointers in
  list order, the default interface, the counters, and of TCP the local addresses that \<open>netif_set_ipaddr\<close> visits.
  \<open>netif_wf\<close> is the invariant of the list; the inline header checksum of \<open>ip_output_if\<close> is shown equal to the
  reference checksum of the finished header.
\<close>

section \<open>State\<close>

record net_st =
  ns_link :: link_st
  netifs :: "netif_ptr \<Rightarrow> netif"
  netif_list :: "netif_ptr list"
  netif_default :: "netif_ptr option"
  netif_num :: u8
  tcp_active_ips :: "u32 list"
  tcp_listen_ips :: "u32 list"
  ip_id :: u16
  ns_cyclic :: bool

definition set_netif :: "netif_ptr \<Rightarrow> netif \<Rightarrow> net_st \<Rightarrow> net_st" where
  "set_netif nif n st = st\<lparr>netifs := (netifs st)(nif := n)\<rparr>"

definition net_link :: "(link_st \<Rightarrow> err_t \<times> link_st) \<Rightarrow> net_st \<Rightarrow> err_t \<times> net_st" where
  "net_link f st = (let (e, l) = f (ns_link st) in (e, st\<lparr>ns_link := l\<rparr>))"

section \<open>Configuration of an interface\<close>

text \<open>
  When the address changes, active TCP connections on the old address are aborted and listening ones follow
  the interface.
\<close>

definition netif_set_ipaddr :: "netif_ptr \<Rightarrow> u32 \<Rightarrow> net_st \<Rightarrow> net_st" where
  "netif_set_ipaddr nif ipaddr st =
     (let old = if_ip_addr (netifs st nif);
          st = (if ipaddr \<noteq> old then
                  st\<lparr>tcp_active_ips := filter (\<lambda>a. a \<noteq> old) (tcp_active_ips st),
                     tcp_listen_ips := map (\<lambda>a. if \<not> ip_addr_isany a \<and> a = old then ipaddr else a)
                       (tcp_listen_ips st)\<rparr>
                else st)
      in set_netif nif ((netifs st nif)\<lparr>if_ip_addr := ipaddr\<rparr>) st)"

definition netif_set_gw :: "netif_ptr \<Rightarrow> u32 \<Rightarrow> net_st \<Rightarrow> net_st" where
  "netif_set_gw nif gw st = set_netif nif ((netifs st nif)\<lparr>if_gw := gw\<rparr>) st"

definition netif_set_netmask :: "netif_ptr \<Rightarrow> u32 \<Rightarrow> net_st \<Rightarrow> net_st" where
  "netif_set_netmask nif m st = set_netif nif ((netifs st nif)\<lparr>if_netmask := m\<rparr>) st"

definition netif_set_addr :: "netif_ptr \<Rightarrow> u32 \<Rightarrow> u32 \<Rightarrow> u32 \<Rightarrow> net_st \<Rightarrow> net_st" where
  "netif_set_addr nif ipaddr netmask gw st =
     netif_set_gw nif gw (netif_set_netmask nif netmask (netif_set_ipaddr nif ipaddr st))"

definition netif_set_default :: "netif_ptr option \<Rightarrow> net_st \<Rightarrow> net_st" where
  "netif_set_default nif st = st\<lparr>netif_default := nif\<rparr>"

definition netif_set_up :: "netif_ptr \<Rightarrow> net_st \<Rightarrow> net_st" where
  "netif_set_up nif st =
     (if if_flags (netifs st nif) AND NETIF_FLAG_UP = 0 then
        (let st = set_netif nif ((netifs st nif)\<lparr>if_flags := if_flags (netifs st nif) OR NETIF_FLAG_UP\<rparr>) st;
             n = netifs st nif
         in if if_flags n AND NETIF_FLAG_LINK_UP \<noteq> 0 \<and> if_flags n AND NETIF_FLAG_ETHARP \<noteq> 0
            then snd (net_link (etharp_request n (if_ip_addr n)) st) else st)
      else st)"

definition netif_set_down :: "netif_ptr \<Rightarrow> net_st \<Rightarrow> net_st" where
  "netif_set_down nif st =
     (if if_flags (netifs st nif) AND NETIF_FLAG_UP \<noteq> 0 then
        (let st = set_netif nif ((netifs st nif)
                    \<lparr>if_flags := if_flags (netifs st nif) AND NOT NETIF_FLAG_UP\<rparr>) st
         in if if_flags (netifs st nif) AND NETIF_FLAG_ETHARP \<noteq> 0
            then st\<lparr>ns_link := etharp_cleanup_netif nif (ns_link st)\<rparr> else st)
      else st)"

section \<open>The interface list\<close>

text \<open>
  \<open>netif_add\<close> with the driver's \<open>init\<close> function as a function on the structure. The result tells whether the code
  returns the interface (and not NULL). Adding an interface that is already on the list would make the C list
  cyclic; \<open>ns_cyclic\<close> records that.
\<close>

definition netif_reset :: "netif_ptr \<Rightarrow> nat option \<Rightarrow> net_st \<Rightarrow> net_st" where
  "netif_reset nif state st =
     (set_netif nif ((netifs st nif)\<lparr>if_ip_addr := 0, if_netmask := 0, if_gw := 0, if_flags := 0,
        if_dhcp := None, if_state := state, if_num := netif_num st\<rparr>) st)\<lparr>netif_num := netif_num st + 1\<rparr>"

definition netif_add ::
    "netif_ptr \<Rightarrow> u32 \<Rightarrow> u32 \<Rightarrow> u32 \<Rightarrow> nat option \<Rightarrow> (netif \<Rightarrow> err_t \<times> netif) \<Rightarrow> net_st \<Rightarrow> bool \<times> net_st" where
  "netif_add nif ipaddr netmask gw state init st =
     (let st = netif_set_addr nif ipaddr netmask gw (netif_reset nif state st);
          (err, n) = init (netifs st nif);
          st = set_netif nif n st
      in if err \<noteq> ERR_OK \<and> err \<noteq> ERR_CONN then (False, st)
         else (True, st\<lparr>netif_list := nif # netif_list st,
                        ns_cyclic := (ns_cyclic st \<or> nif \<in> set (netif_list st))\<rparr>))"

definition netif_remove :: "netif_ptr \<Rightarrow> net_st \<Rightarrow> net_st" where
  "netif_remove nif st =
     (let st = (if netif_is_up (netifs st nif) then netif_set_down nif st else st)
      in if nif \<notin> set (netif_list st) then st
         else
           (let st = st\<lparr>netif_list := remove1 nif (netif_list st)\<rparr>
            in if netif_default st = Some nif then netif_set_default None st else st))"

definition netif_find :: "string \<Rightarrow> net_st \<Rightarrow> netif_ptr option" where
  "netif_find name st =
     find (\<lambda>nif. (of_char (name ! 2) - 48 :: u8) = if_num (netifs st nif) \<and>
                 name ! 0 = if_name (netifs st nif) ! 0 \<and> name ! 1 = if_name (netifs st nif) ! 1)
       (netif_list st)"

section \<open>Routing and output\<close>

definition route_match :: "u32 \<Rightarrow> netif \<Rightarrow> bool" where
  "route_match dest n \<longleftrightarrow> netif_is_up n \<and> ip_addr_netcmp dest (if_ip_addr n) (if_netmask n)"

definition ip_route :: "u32 \<Rightarrow> net_st \<Rightarrow> netif_ptr option" where
  "ip_route dest st =
     (case find (\<lambda>nif. route_match dest (netifs st nif)) (netif_list st) of
        Some nif \<Rightarrow> Some nif
      | None \<Rightarrow>
         (case netif_default st of
            None \<Rightarrow> None
          | Some d \<Rightarrow> if netif_is_up (netifs st d) then Some d else None))"

text \<open>\<open>LWIP_MAKE_U16(a, b)\<close> on a big-endian target, as an operand of the 32-bit sum.\<close>

definition LWIP_MAKE_U16 :: "u8 \<Rightarrow> u8 \<Rightarrow> u32" where
  "LWIP_MAKE_U16 a b = push_bit 8 (ucast b) OR ucast a"

text \<open>The checksum accumulated while the header fields are written (\<open>CHECKSUM_GEN_IP_INLINE\<close>).\<close>

definition ip_chksum_inline :: "u8 \<Rightarrow> u8 \<Rightarrow> u32 \<Rightarrow> u8 \<Rightarrow> u8 \<Rightarrow> u16 \<Rightarrow> u16 \<Rightarrow> u32 \<Rightarrow> u16" where
  "ip_chksum_inline proto ttl dest tos v_hl len idn src =
     (let c = 0 + LWIP_MAKE_U16 proto ttl;
          c = c + (dest AND 0xffff);
          c = c + drop_bit 16 dest;
          c = c + LWIP_MAKE_U16 tos v_hl;
          c = c + ucast len;
          c = c + ucast idn;
          c = c + (src AND 0xffff);
          c = c + drop_bit 16 src;
          c = drop_bit 16 c + (c AND 0xffff);
          c = drop_bit 16 c + c;
          c = NOT c
      in ucast c)"

definition ip_hdr_bytes :: "u8 \<Rightarrow> u8 \<Rightarrow> u16 \<Rightarrow> u16 \<Rightarrow> u16 \<Rightarrow> u8 \<Rightarrow> u8 \<Rightarrow> u16 \<Rightarrow> u32 \<Rightarrow> u32 \<Rightarrow> u8 list" where
  "ip_hdr_bytes v_hl tos len idn off ttl proto chksum src dest =
     [v_hl, tos] @ be16 len @ be16 idn @ be16 off @ [ttl, proto] @ be16 chksum @ be32 src @ be32 dest"

definition IP_HLEN :: nat where "IP_HLEN = 20"

definition netif_output :: "netif \<Rightarrow> pbuf \<Rightarrow> u32 \<Rightarrow> link_st \<Rightarrow> err_t \<times> link_st" where
  "netif_output n p dest l =
     (case if_output n of
        No_output \<Rightarrow> (ERR_OK, l\<lparr>lk_fault := True\<rparr>)
      | Etharp_output \<Rightarrow> etharp_output n p dest l)"

text \<open>
  \<open>ip_output_if\<close> for a destination other than \<open>IP_HDRINCL\<close>; the branch for \<open>IP_HDRINCL\<close>, which the ICMP responder uses,
  is \<open>ip_output_if_hdrincl\<close> of the theory \<open>Icmp\<close>.
\<close>

definition ip_output_if :: "pbuf \<Rightarrow> u32 \<Rightarrow> u32 \<Rightarrow> u8 \<Rightarrow> u8 \<Rightarrow> u8 \<Rightarrow> netif_ptr \<Rightarrow> net_st \<Rightarrow> err_t \<times> net_st" where
  "ip_output_if p src dest ttl tos proto nif st =
     (case pbuf_header p (int IP_HLEN) of
        None \<Rightarrow> (ERR_BUF, st)
      | Some p \<Rightarrow>
         (let n = netifs st nif;
              v_hl = push_bit 4 4 OR of_nat (IP_HLEN div 4);
              len = htons (of_nat (pbuf_tot_len p));
              idn = htons (ip_id st);
              s = (if ip_addr_isany src then if_ip_addr n else src);
              st = st\<lparr>ip_id := ip_id st + 1\<rparr>;
              c = ip_chksum_inline proto ttl dest tos v_hl len idn s;
              p = pbuf_put 0 (ip_hdr_bytes v_hl tos len idn 0 ttl proto c s dest) p
          in net_link (netif_output n p dest) st))"

definition ip_output :: "pbuf \<Rightarrow> u32 \<Rightarrow> u32 \<Rightarrow> u8 \<Rightarrow> u8 \<Rightarrow> u8 \<Rightarrow> net_st \<Rightarrow> err_t \<times> net_st" where
  "ip_output p src dest ttl tos proto st =
     (case ip_route dest st of
        None \<Rightarrow> (ERR_RTE, st)
      | Some nif \<Rightarrow> ip_output_if p src dest ttl tos proto nif st)"

section \<open>The inline checksum is the header checksum\<close>

lemma unat_LWIP_MAKE_U16: "unat (LWIP_MAKE_U16 a b) = unat b * 256 + unat a"
proof -
  have m: "LWIP_MAKE_U16 a b = ucast (mk16 b a)"
    by (rule bit_word_eqI)
      (auto simp: LWIP_MAKE_U16_def mk16_def bit_or_iff bit_push_bit_iff bit_ucast_iff dest: bit_imp_le_length)
  show ?thesis unfolding m unat_ucast16 unat_mk16 by simp
qed

lemma FOLD_second: "ucast (drop_bit 16 c + c) = (ucast (FOLD_U32T c) :: u16)"
  by (rule word_unat_eq_iff [THEN iffD2])
    (simp add: FOLD_U32T_def unsigned_ucast_eq take_bit_eq_mod unat_word_ariths unat_and_ffff mod_simps mod_mod_cancel)

lemma ip_chksum_inline_reference:
  "ip_chksum_inline proto ttl dest tos v_hl len idn src =
   inet_chksum al (ip_hdr_bytes v_hl tos len idn 0 ttl proto 0 src dest)"
proof -
  let ?h = "ip_hdr_bytes v_hl tos len idn 0 ttl proto 0 src dest"
  let ?c = "0 + LWIP_MAKE_U16 proto ttl + (dest AND 0xffff) + drop_bit 16 dest + LWIP_MAKE_U16 tos v_hl
    + ucast len + ucast idn + (src AND 0xffff) + drop_bit 16 src"
  have d16: "drop_bit 16 x = drop_bit 16 x AND 0xffff" for x :: u32
    by (rule bit_word_eqI) (auto simp: and_ffff bit_take_bit_iff bit_drop_bit_eq dest: bit_imp_le_length)
  have lt: "unat (y AND 0xffff) \<le> 65535" for y :: u32 unfolding unat_and_ffff by linarith
  have l16: "unat x \<le> 65535" for x :: u16 using unat_u16_less [of x] by linarith
  have l8: "unat x \<le> 255" for x :: u8 using unat_u8_less [of x] by linarith
  have "unat ?c = unat ttl * 256 + unat proto + (unat (dest AND 0xffff) + unat (drop_bit 16 dest AND 0xffff))
      + (unat v_hl * 256 + unat tos) + unat len + unat idn
      + (unat (src AND 0xffff) + unat (drop_bit 16 src AND 0xffff))"
    using lt [of dest] lt [of "drop_bit 16 dest"] lt [of src] lt [of "drop_bit 16 src"] l16 [of len] l16 [of idn]
      l8 [of ttl] l8 [of proto] l8 [of v_hl] l8 [of tos]
    by (subst (1 2) d16) (simp add: unat_word_ariths(1) mod_simps unat_LWIP_MAKE_U16 unat_ucast16)
  also have "\<dots> = nsum ?h"
    unfolding ip_hdr_bytes_def by (simp add: nsum_append_even nsum_be16 nsum_be32)
  finally have "unat (FOLD_U32T (FOLD_U32T ?c)) = ones_sum (nsum ?h)" by (simp only: FOLD_twice)
  then have "(ucast (drop_bit 16 (FOLD_U32T ?c) + FOLD_U32T ?c) :: u16) = of_nat (ones_sum (nsum ?h))"
    by (simp only: FOLD_second ucast_of_unat)
  moreover have "ucast (NOT x) = NOT (ucast x :: u16)" for x :: u32
    by (rule bit_word_eqI) (simp add: bit_ucast_iff bit_not_iff)
  ultimately have "ip_chksum_inline proto ttl dest tos v_hl len idn src = NOT (of_nat (ones_sum (nsum ?h)))"
    by (simp only: ip_chksum_inline_def Let_def FOLD_U32T_def)
  moreover have "length ?h \<le> 65536" by (simp add: ip_hdr_bytes_def)
  ultimately show ?thesis by (simp only: inet_chksum_reference)
qed

section \<open>Invariant\<close>

text \<open>
  Every interface on the list is fully initialised, the list has no repetition, the default interface is on
  it, the ARP cache is consistent, and no null pointer has been called.
\<close>

definition netif_ready :: "netif \<Rightarrow> bool" where
  "netif_ready n \<longleftrightarrow> if_output n = Etharp_output \<and> (\<exists>inst. link_ready n inst)"

definition netif_wf :: "net_st \<Rightarrow> bool" where
  "netif_wf st \<longleftrightarrow> distinct (netif_list st) \<and> \<not> ns_cyclic st \<and> arp_wf (ns_link st) \<and>
     \<not> lk_fault (ns_link st) \<and>
     (\<forall>nif \<in> set (netif_list st). netif_ready (netifs st nif)) \<and>
     (\<forall>d. netif_default st = Some d \<longrightarrow> d \<in> set (netif_list st))"

text \<open>The link layer never faults on an initialised interface.\<close>

lemma linkoutput_fault: "netif_ready n \<Longrightarrow> lk_fault (snd (netif_linkoutput n p s)) = lk_fault s"
  by (auto simp: netif_ready_def linkoutput_ready)

lemma send_ip_fault: "netif_ready n \<Longrightarrow> lk_fault (snd (etharp_send_ip n p a b s)) = lk_fault s"
  by (simp add: etharp_send_ip_def linkoutput_fault)

lemma request_fault: "netif_ready n \<Longrightarrow> lk_fault (snd (etharp_request n a s)) = lk_fault s"
  using link_alloc_frame(4) [of PBUF_RAW SIZEOF_ETHARP_PACKET PBUF_RAM s]
  by (auto simp: etharp_request_def etharp_raw_def linkoutput_fault split: prod.splits option.splits)

lemma output_to_arp_index_fault:
  "netif_ready n \<Longrightarrow> lk_fault (snd (etharp_output_to_arp_index n q i s)) = lk_fault s"
  using request_fault [of n "ae_ipaddr (arp_table s ! i)" s]
  by (auto simp: etharp_output_to_arp_index_def Let_def send_ip_fault split: prod.splits)

lemma query_fault:
  assumes "netif_ready n"
  shows "lk_fault (snd (etharp_query n a q s)) = lk_fault s"
proof -
  have "lk_fault (snd (query_entry n a q i t)) = lk_fault t" for i t
    using query_copy_frame(4) [of "the q" t]
      query_copy_frame(4) [of "the q" "snd (etharp_request n a t)"] request_fault [OF assms, of a t]
    by (auto simp: query_entry_def Let_def send_ip_fault [OF assms] split: prod.splits option.splits)
  then show ?thesis by (auto simp: etharp_query_def split: prod.splits option.splits)
qed

lemma etharp_output_fault:
  "netif_ready n \<Longrightarrow> lk_fault (snd (etharp_output n q a s)) = lk_fault s"
  by (auto simp: etharp_output_def Let_def send_ip_fault output_to_arp_index_fault query_fault
      split: option.splits)

lemma update_arp_fault: "netif_ready n \<Longrightarrow> lk_fault (snd (etharp_update_arp_entry nif n a e f s)) = lk_fault s"
  by (auto simp: etharp_update_arp_entry_def Let_def send_ip_fault split: prod.splits option.splits)

lemma arp_input_fault: "netif_ready n \<Longrightarrow> lk_fault (etharp_arp_input nif n p s) = lk_fault s"
  by (auto simp: etharp_arp_input_def Let_def linkoutput_fault update_arp_fault split: list.splits)

lemma netif_output_wf:
  assumes "netif_ready n" and "arp_wf l" and "\<not> lk_fault l"
  shows "arp_wf (snd (netif_output n p dest l)) \<and> \<not> lk_fault (snd (netif_output n p dest l))"
  using assms etharp_output_wf [OF assms(2), of n p dest] etharp_output_fault [OF assms(1), of p dest l]
  by (simp add: netif_output_def netif_ready_def)

lemma net_link_frame [frame_simps]:
  "netifs (snd (net_link f st)) = netifs st" "netif_list (snd (net_link f st)) = netif_list st"
  "netif_default (snd (net_link f st)) = netif_default st" "ns_cyclic (snd (net_link f st)) = ns_cyclic st"
  "netif_num (snd (net_link f st)) = netif_num st" "ip_id (snd (net_link f st)) = ip_id st"
  "ns_link (snd (net_link f st)) = snd (f (ns_link st))" "fst (net_link f st) = fst (f (ns_link st))"
  by (simp_all add: net_link_def split: prod.splits)

lemma ip_output_if_wf [wf_intros]:
  assumes "netif_wf st" and "nif \<in> set (netif_list st)"
  shows "netif_wf (snd (ip_output_if p src dest ttl tos proto nif st))"
proof -
  have "netif_ready (netifs st nif)" using assms by (simp add: netif_wf_def)
  from netif_output_wf [OF this] assms(1) show ?thesis
    by (auto simp: ip_output_if_def Let_def netif_wf_def frame_simps split: option.splits)
qed

lemma ip_output_if_frame [frame_simps]:
  "netifs (snd (ip_output_if p src dest ttl tos proto nif st)) = netifs st"
  "netif_list (snd (ip_output_if p src dest ttl tos proto nif st)) = netif_list st"
  "netif_default (snd (ip_output_if p src dest ttl tos proto nif st)) = netif_default st"
  "netif_num (snd (ip_output_if p src dest ttl tos proto nif st)) = netif_num st"
  by (simp_all add: ip_output_if_def Let_def frame_simps split: option.splits)

lemma set_netif_simps [simp]:
  "netif_list (set_netif nif n st) = netif_list st" "netif_default (set_netif nif n st) = netif_default st"
  "ns_link (set_netif nif n st) = ns_link st" "ns_cyclic (set_netif nif n st) = ns_cyclic st"
  "netifs (set_netif nif n st) = (netifs st)(nif := n)" "netif_num (set_netif nif n st) = netif_num st"
  by (simp_all add: set_netif_def)

lemma set_netif_wf:
  "netif_wf st \<Longrightarrow> (nif \<in> set (netif_list st) \<Longrightarrow> netif_ready n) \<Longrightarrow> netif_wf (set_netif nif n st)"
  by (auto simp: netif_wf_def)

lemma netif_ready_cong:
  "if_output m = if_output n \<Longrightarrow> if_linkoutput m = if_linkoutput n \<Longrightarrow> if_state m = if_state n \<Longrightarrow>
   if_hwaddr m = if_hwaddr n \<Longrightarrow> netif_ready m = netif_ready n"
  by (simp add: netif_ready_def link_ready_def)

lemma netif_set_ipaddr_wf [wf_intros]: "netif_wf st \<Longrightarrow> netif_wf (netif_set_ipaddr nif a st)"
  by (auto simp: netif_set_ipaddr_def Let_def netif_wf_def netif_ready_def link_ready_def)

lemma netif_set_netmask_wf [wf_intros]: "netif_wf st \<Longrightarrow> netif_wf (netif_set_netmask nif a st)"
  by (auto simp: netif_set_netmask_def netif_wf_def netif_ready_def link_ready_def)

lemma netif_set_gw_wf [wf_intros]: "netif_wf st \<Longrightarrow> netif_wf (netif_set_gw nif a st)"
  by (auto simp: netif_set_gw_def netif_wf_def netif_ready_def link_ready_def)

lemma netif_set_default_wf:
  "netif_wf st \<Longrightarrow> (\<forall>d. nif = Some d \<longrightarrow> d \<in> set (netif_list st)) \<Longrightarrow> netif_wf (netif_set_default nif st)"
  by (auto simp: netif_set_default_def netif_wf_def)

lemma netif_set_up_wf [wf_intros]:
  assumes "netif_wf st" and "nif \<in> set (netif_list st)"
  shows "netif_wf (netif_set_up nif st)"
proof -
  let ?n = "(netifs st nif)\<lparr>if_flags := if_flags (netifs st nif) OR NETIF_FLAG_UP\<rparr>"
  have n: "netif_ready ?n"
    using assms netif_ready_cong [of ?n "netifs st nif"] by (simp add: netif_wf_def)
  have "arp_wf (snd (etharp_request m a l)) = arp_wf l" for m a l
    by (rule arp_wf_cong) (simp_all add: frame_simps)
  then have "netif_wf (snd (net_link (etharp_request ?n (if_ip_addr ?n)) (set_netif nif ?n st)))"
    using set_netif_wf [OF assms(1), of nif ?n] n request_fault [OF n]
    by (simp add: netif_wf_def frame_simps)
  then show ?thesis
    using assms set_netif_wf [OF assms(1), of nif ?n] n by (simp add: netif_set_up_def Let_def)
qed

lemma netif_set_down_wf [wf_intros]:
  assumes "netif_wf st"
  shows "netif_wf (netif_set_down nif st)"
proof -
  let ?n = "(netifs st nif)\<lparr>if_flags := if_flags (netifs st nif) AND NOT NETIF_FLAG_UP\<rparr>"
  have "netif_wf (set_netif nif ?n st)"
    using assms by (intro set_netif_wf) (auto simp: netif_wf_def netif_ready_def link_ready_def)
  then show ?thesis
    using assms etharp_cleanup_netif_wf [of "ns_link st" nif]
    by (auto simp: netif_set_down_def Let_def netif_wf_def etharp_cleanup_netif_def)
qed

lemma netif_set_down_frame [frame_simps]:
  "netif_list (netif_set_down nif st) = netif_list st"
  "netif_default (netif_set_down nif st) = netif_default st"
  "ns_cyclic (netif_set_down nif st) = ns_cyclic st"
  "m \<noteq> nif \<Longrightarrow> netifs (netif_set_down nif st) m = netifs st m"
  "lk_tx (ns_link (netif_set_down nif st)) = lk_tx (ns_link st)"
  by (simp_all add: netif_set_down_def Let_def etharp_cleanup_netif_def)

lemma netif_set_up_frame [frame_simps]:
  "netif_list (netif_set_up nif st) = netif_list st"
  "netif_default (netif_set_up nif st) = netif_default st"
  "ns_cyclic (netif_set_up nif st) = ns_cyclic st"
  "netif_num (netif_set_up nif st) = netif_num st"
  "m \<noteq> nif \<Longrightarrow> netifs (netif_set_up nif st) m = netifs st m"
  "if_ip_addr (netifs (netif_set_up nif st) m) = if_ip_addr (netifs st m)"
  by (auto simp: netif_set_up_def Let_def frame_simps)

lemma netif_remove_wf [wf_intros]:
  assumes "netif_wf st"
  shows "netif_wf (netif_remove nif st)"
proof -
  let ?s = "if netif_is_up (netifs st nif) then netif_set_down nif st else st"
  have s: "netif_wf ?s" using assms by (simp add: netif_set_down_wf)
  let ?t = "?s\<lparr>netif_list := remove1 nif (netif_list ?s)\<rparr>"
  have "netif_wf (if netif_default ?t = Some nif then netif_set_default None ?t else ?t)"
    using s by (auto simp: netif_wf_def netif_set_default_def set_remove1_eq)
  with s show ?thesis by (simp add: netif_remove_def Let_def)
qed

lemma netif_remove_list: "netif_wf st \<Longrightarrow> set (netif_list (netif_remove nif st)) = set (netif_list st) - {nif}"
  by (auto simp: netif_remove_def Let_def frame_simps netif_set_default_def netif_wf_def set_remove1_eq)

text \<open>
  Adding an interface that is not on the list, with an initialiser that sets the driver hooks whenever it does not
  report an error.
\<close>

lemma netif_set_addr_frame [frame_simps]:
  "netif_list (netif_set_addr nif a m g st) = netif_list st"
  "netif_default (netif_set_addr nif a m g st) = netif_default st"
  "ns_link (netif_set_addr nif a m g st) = ns_link st"
  "ns_cyclic (netif_set_addr nif a m g st) = ns_cyclic st"
  "netif_num (netif_set_addr nif a m g st) = netif_num st"
  "netifs (netif_set_addr nif a m g st) =
     (netifs st)(nif := (netifs st nif)\<lparr>if_ip_addr := a, if_netmask := m, if_gw := g\<rparr>)"
  by (simp_all add: netif_set_addr_def netif_set_gw_def netif_set_netmask_def netif_set_ipaddr_def Let_def)

lemma netif_reset_frame [frame_simps]:
  "netif_list (netif_reset nif state st) = netif_list st"
  "netif_default (netif_reset nif state st) = netif_default st"
  "ns_link (netif_reset nif state st) = ns_link st"
  "ns_cyclic (netif_reset nif state st) = ns_cyclic st"
  "m \<noteq> nif \<Longrightarrow> netifs (netif_reset nif state st) m = netifs st m"
  by (simp_all add: netif_reset_def)

lemma netif_add_cases:
  obtains e n where "init (netifs (netif_set_addr nif a m g (netif_reset nif state st)) nif) = (e, n)"
    "netif_add nif a m g state init st =
      (let st = set_netif nif n (netif_set_addr nif a m g (netif_reset nif state st))
       in if e \<noteq> ERR_OK \<and> e \<noteq> ERR_CONN then (False, st)
          else (True, st\<lparr>netif_list := nif # netif_list st,
                         ns_cyclic := (ns_cyclic st \<or> nif \<in> set (netif_list st))\<rparr>))"
  by (cases "init (netifs (netif_set_addr nif a m g (netif_reset nif state st)) nif)")
    (simp add: netif_add_def Let_def)

lemma netif_add_wf [wf_intros]:
  assumes "netif_wf st" and "nif \<notin> set (netif_list st)"
    and "\<And>n e n'. init n = (e, n') \<Longrightarrow> e = ERR_OK \<or> e = ERR_CONN \<Longrightarrow> netif_ready n'"
  shows "netif_wf (snd (netif_add nif a m g state init st))"
proof (cases rule: netif_add_cases [of init nif a m g state st])
  case (1 e n)
  from assms(3) [OF 1(1)] assms(1,2) show ?thesis
    unfolding 1(2) by (auto simp: Let_def netif_wf_def frame_simps)
qed

lemma netif_add_list:
  "netif_list (snd (netif_add nif a m g state init st)) =
     (if fst (netif_add nif a m g state init st) then nif # netif_list st else netif_list st)"
  by (cases rule: netif_add_cases [of init nif a m g state st]) (simp add: Let_def frame_simps)

lemma netif_add_others:
  "x \<noteq> nif \<Longrightarrow> netifs (snd (netif_add nif a m g state init st)) x = netifs st x"
  by (cases rule: netif_add_cases [of init nif a m g state st]) (simp add: Let_def frame_simps)

section \<open>Routing\<close>

lemma find_SomeD: "find P xs = Some x \<Longrightarrow> x \<in> set xs \<and> P x"
  by (induction xs) (auto split: if_splits)

lemma ip_route_Some:
  assumes "netif_wf st" and "ip_route dest st = Some nif"
  shows "nif \<in> set (netif_list st) \<and> netif_is_up (netifs st nif) \<and>
    (route_match dest (netifs st nif) \<or> netif_default st = Some nif \<and>
       (\<forall>m \<in> set (netif_list st). \<not> route_match dest (netifs st m)))"
  using assms
  by (auto simp: ip_route_def netif_wf_def route_match_def find_None_iff dest!: find_SomeD
      split: option.splits if_splits)

lemma ip_output_wf [wf_intros]:
  "netif_wf st \<Longrightarrow> netif_wf (snd (ip_output p src dest ttl tos proto st))"
  using ip_route_Some [of st dest] by (auto simp: ip_output_def ip_output_if_wf split: option.splits)

text \<open>What is handed to the link layer: the header with a valid checksum in front of the payload.\<close>

definition ip_packet :: "netif \<Rightarrow> u32 \<Rightarrow> u32 \<Rightarrow> u8 \<Rightarrow> u8 \<Rightarrow> u8 \<Rightarrow> u16 \<Rightarrow> u8 list \<Rightarrow> u8 list" where
  "ip_packet n src dest ttl tos proto idn data =
     (let s = (if ip_addr_isany src then if_ip_addr n else src);
          len = of_nat (20 + length data)
      in ip_hdr_bytes 0x45 tos len idn 0 ttl proto
           (inet_chksum False (ip_hdr_bytes 0x45 tos len idn 0 ttl proto 0 s dest)) s dest @ data)"

lemma length_ip_hdr_bytes [simp]: "length (ip_hdr_bytes v t l i off ttl p c s d) = 20"
  by (simp add: ip_hdr_bytes_def)

lemma ip_output_if_link:
  assumes "pbuf_header p 20 = Some p'" and "p \<noteq> []" and "if_output (netifs st nif) = Etharp_output"
  obtains q where "ip_output_if p src dest ttl tos proto nif st =
      net_link (etharp_output (netifs st nif) q dest) (st\<lparr>ip_id := ip_id st + 1\<rparr>)"
    "pbuf_bytes q = ip_packet (netifs st nif) src dest ttl tos proto (ip_id st) (pbuf_bytes p)"
    "map ps_hidden q = map ps_hidden p'" "map ps_type q = map ps_type p'" "tl q = tl p'"
proof -
  let ?n = "netifs st nif" and ?s = "if ip_addr_isany src then if_ip_addr (netifs st nif) else src"
  let ?l = "of_nat (pbuf_tot_len p') :: u16"
  have p': "drop 20 (pbuf_bytes p') = pbuf_bytes p" "20 \<le> pbuf_len p'" "p' \<noteq> []"
    using pbuf_header_bytes_show [of p 20 p'] assms by (auto simp: pbuf_len_def)
  have "pbuf_len p' \<le> length (pbuf_bytes p')" using p'(3) by (cases p') (simp_all add: pbuf_len_def)
  then have len: "pbuf_tot_len p' = 20 + length (pbuf_bytes p)"
    using p'(1,2) by (auto simp: pbuf_tot_len_bytes dest!: arg_cong [where f = length])
  let ?h = "ip_hdr_bytes 0x45 tos ?l (ip_id st) 0 ttl proto
    (inet_chksum False (ip_hdr_bytes 0x45 tos ?l (ip_id st) 0 ttl proto 0 ?s dest)) ?s dest"
  have v: "push_bit 4 4 OR of_nat (IP_HLEN div 4) = (0x45 :: u8)" by (simp add: IP_HLEN_def)
  have eq: "ip_output_if p src dest ttl tos proto nif st =
      net_link (etharp_output ?n (pbuf_put 0 ?h p') dest) (st\<lparr>ip_id := ip_id st + 1\<rparr>)"
  proof -
    have hdr: "pbuf_header p (int IP_HLEN) = Some p'" using assms(1) by (simp add: IP_HLEN_def)
    have out: "netif_output ?n q dest = etharp_output ?n q dest" for q
      by (rule ext) (simp add: netif_output_def assms(3))
    show ?thesis
      unfolding ip_output_if_def hdr option.case Let_def byteorder_simps v out
        ip_chksum_inline_reference [where al = False] ..
  qed
  have bytes: "pbuf_bytes (pbuf_put 0 ?h p') = ip_packet ?n src dest ttl tos proto (ip_id st) (pbuf_bytes p)"
    using pbuf_put_bytes [of ?h p'] p' len by (simp add: ip_packet_def Let_def)
  have "map ps_hidden (pbuf_put 0 ?h p') = map ps_hidden p'" "map ps_type (pbuf_put 0 ?h p') = map ps_type p'"
    "tl (pbuf_put 0 ?h p') = tl p'"
    using p'(3) by (cases p'; simp add: pbuf_put_def)+
  with that [OF eq bytes] show ?thesis .
qed

end
