(* ===== verification/Udp.thy ===== *)
theory Udp
  imports Netif Interfaces
begin

text \<open>
  UDP control blocks (\<open>core/udp.c\<close>) and the pool they come from (\<open>core/memp.c\<close>, \<open>MEMP_UDP_PCB\<close>). A pointer to a
  \<open>struct udp_pcb\<close> is its position in the pool of \<open>MEMP_NUM_UDP_PCB\<close> elements. \<open>udp_wf\<close> is the invariant of the pool
  and the active list; it includes that no two active control blocks claim the same address and port, which
  \<open>udp_bind\<close> is shown to maintain. \<open>udp_new_port\<close> is shown to return an unused port of the private range.
\<close>

section \<open>State\<close>

text \<open>The receive functions that are registered in this firmware, with their argument.\<close>

datatype udp_recv_fn = No_recv | Udp_rx_callback nat | LocatorReceive

record udp_pcb =
  pcb_local_ip :: u32
  pcb_remote_ip :: u32
  pcb_tos :: u8
  pcb_ttl :: u8
  pcb_flags :: u8
  pcb_local_port :: u16
  pcb_remote_port :: u16
  pcb_recv :: udp_recv_fn

record udp_st =
  udp_pcbs :: "nat list"
  pcb_at :: "nat \<Rightarrow> udp_pcb"
  pcb_free :: "nat list"
  udp_port :: u16

definition MEMP_NUM_UDP_PCB :: nat where "MEMP_NUM_UDP_PCB = 20"
definition UDP_LOCAL_PORT_RANGE_START :: u16 where "UDP_LOCAL_PORT_RANGE_START = 0xc000"
definition UDP_LOCAL_PORT_RANGE_END :: u16 where "UDP_LOCAL_PORT_RANGE_END = 0xffff"
definition UDP_FLAGS_NOCHKSUM :: u8 where "UDP_FLAGS_NOCHKSUM = 0x01"
definition UDP_FLAGS_CONNECTED :: u8 where "UDP_FLAGS_CONNECTED = 0x04"
definition UDP_TTL :: u8 where "UDP_TTL = 255"
definition UDP_HLEN :: nat where "UDP_HLEN = 8"
definition IP_PROTO_UDP :: u8 where "IP_PROTO_UDP = 17"

definition upd_pcb :: "nat \<Rightarrow> (udp_pcb \<Rightarrow> udp_pcb) \<Rightarrow> udp_st \<Rightarrow> udp_st" where
  "upd_pcb pcb f u = u\<lparr>pcb_at := (pcb_at u)(pcb := f (pcb_at u pcb))\<rparr>"

section \<open>The pool\<close>

definition memp_malloc :: "udp_st \<Rightarrow> nat option \<times> udp_st" where
  "memp_malloc u = (case pcb_free u of [] \<Rightarrow> (None, u) | m # ms \<Rightarrow> (Some m, u\<lparr>pcb_free := ms\<rparr>))"

definition memp_free :: "nat \<Rightarrow> udp_st \<Rightarrow> udp_st" where
  "memp_free pcb u = u\<lparr>pcb_free := pcb # pcb_free u\<rparr>"

definition pcb_zero :: udp_pcb where
  "pcb_zero = \<lparr>pcb_local_ip = 0, pcb_remote_ip = 0, pcb_tos = 0, pcb_ttl = 0, pcb_flags = 0,
     pcb_local_port = 0, pcb_remote_port = 0, pcb_recv = No_recv\<rparr>"

definition udp_new :: "udp_st \<Rightarrow> nat option \<times> udp_st" where
  "udp_new u =
     (case memp_malloc u of
        (None, u) \<Rightarrow> (None, u)
      | (Some pcb, u) \<Rightarrow> (Some pcb, upd_pcb pcb (\<lambda>_. pcb_zero\<lparr>pcb_ttl := UDP_TTL\<rparr>) u))"

definition udp_remove :: "nat \<Rightarrow> udp_st \<Rightarrow> udp_st" where
  "udp_remove pcb u = memp_free pcb (u\<lparr>udp_pcbs := remove1 pcb (udp_pcbs u)\<rparr>)"

section \<open>Ports and binding\<close>

text \<open>
  The loop \<open>again:\<close> of \<open>udp_new_port\<close> for the local ports in \<open>used\<close>. The result is the returned port (0 when the range
  is exhausted) and the new value of the static variable \<open>udp_port\<close>.
\<close>

definition next_port :: "u16 \<Rightarrow> u16" where
  "next_port port = (if port = UDP_LOCAL_PORT_RANGE_END then UDP_LOCAL_PORT_RANGE_START else port + 1)"

function new_port_loop :: "nat \<Rightarrow> u16 \<Rightarrow> u16 list \<Rightarrow> u16 \<times> u16" where
  "new_port_loop n port used =
     (let port = next_port port in
      if port \<in> set used then
        (if n + 1 > unat (UDP_LOCAL_PORT_RANGE_END - UDP_LOCAL_PORT_RANGE_START) then (0, port)
         else new_port_loop (n + 1) port used)
      else (port, port))"
  by pat_completeness auto
termination
  by (relation "measure (\<lambda>(n, _, _). 0x4000 - n)")
    (auto simp: UDP_LOCAL_PORT_RANGE_START_def UDP_LOCAL_PORT_RANGE_END_def)

declare new_port_loop.simps [simp del]

definition udp_new_port :: "udp_st \<Rightarrow> u16 \<times> udp_st" where
  "udp_new_port u =
     (let (r, port) = new_port_loop 0 (udp_port u) (map (\<lambda>p. pcb_local_port (pcb_at u p)) (udp_pcbs u))
      in (r, u\<lparr>udp_port := port\<rparr>))"

definition bind_conflict :: "udp_st \<Rightarrow> nat \<Rightarrow> u32 \<Rightarrow> u16 \<Rightarrow> nat \<Rightarrow> bool" where
  "bind_conflict u pcb ipaddr port ipcb \<longleftrightarrow>
     pcb \<noteq> ipcb \<and> pcb_local_port (pcb_at u ipcb) = port \<and>
     (ip_addr_isany (pcb_local_ip (pcb_at u ipcb)) \<or> ip_addr_isany ipaddr \<or>
      pcb_local_ip (pcb_at u ipcb) = ipaddr)"

definition udp_bind :: "nat \<Rightarrow> u32 \<Rightarrow> u16 \<Rightarrow> udp_st \<Rightarrow> err_t \<times> udp_st" where
  "udp_bind pcb ipaddr port u =
     (if list_ex (bind_conflict u pcb ipaddr port) (udp_pcbs u) then (ERR_USE, u)
      else
        (let rebind = pcb \<in> set (udp_pcbs u);
             u = upd_pcb pcb (\<lambda>c. c\<lparr>pcb_local_ip := ipaddr\<rparr>) u;
             (port, u) = (if port = 0 then udp_new_port u else (port, u))
         in if port = 0 then (ERR_USE, u)
            else
              (let u = upd_pcb pcb (\<lambda>c. c\<lparr>pcb_local_port := port\<rparr>) u
               in (ERR_OK, if rebind then u else u\<lparr>udp_pcbs := pcb # udp_pcbs u\<rparr>))))"

definition udp_connect :: "nat \<Rightarrow> u32 \<Rightarrow> u16 \<Rightarrow> udp_st \<Rightarrow> err_t \<times> udp_st" where
  "udp_connect pcb ipaddr port u =
     (let (err, u) = (if pcb_local_port (pcb_at u pcb) = 0
                      then udp_bind pcb (pcb_local_ip (pcb_at u pcb)) 0 u else (ERR_OK, u))
      in if err \<noteq> ERR_OK then (err, u)
         else
           (let u = upd_pcb pcb (\<lambda>c. c\<lparr>pcb_remote_ip := ipaddr, pcb_remote_port := port,
                      pcb_flags := pcb_flags c OR UDP_FLAGS_CONNECTED\<rparr>) u
            in (ERR_OK, if pcb \<in> set (udp_pcbs u) then u else u\<lparr>udp_pcbs := pcb # udp_pcbs u\<rparr>)))"

definition udp_disconnect :: "nat \<Rightarrow> udp_st \<Rightarrow> udp_st" where
  "udp_disconnect pcb u =
     upd_pcb pcb (\<lambda>c. c\<lparr>pcb_remote_ip := IPADDR_ANY, pcb_remote_port := 0,
       pcb_flags := pcb_flags c AND NOT UDP_FLAGS_CONNECTED\<rparr>) u"

definition udp_recv :: "nat \<Rightarrow> udp_recv_fn \<Rightarrow> udp_st \<Rightarrow> udp_st" where
  "udp_recv pcb f u = upd_pcb pcb (\<lambda>c. c\<lparr>pcb_recv := f\<rparr>) u"

section \<open>Sending\<close>

record stack_st =
  st_net :: net_st
  st_udp :: udp_st

text \<open>The view of a pbuf chain that the checksum routines take; pbuf memory starts at an aligned address.\<close>

definition chksum_view :: "pbuf \<Rightarrow> chain" where
  "chksum_view p = map (\<lambda>s. (odd (length (ps_hidden s)), ps_payload s)) p"

definition udp_hdr_bytes :: "u16 \<Rightarrow> u16 \<Rightarrow> u16 \<Rightarrow> u16 \<Rightarrow> u8 list" where
  "udp_hdr_bytes src dest len chksum = be16 src @ be16 dest @ be16 len @ be16 chksum"

text \<open>Room for the UDP header: in the given chain, or in a pbuf of its own in front of it.\<close>

definition udp_add_header :: "pbuf \<Rightarrow> net_st \<Rightarrow> pbuf option \<times> net_st" where
  "udp_add_header p net =
     (case pbuf_header p (int UDP_HLEN) of
        Some q \<Rightarrow> (Some q, net)
      | None \<Rightarrow>
         (case link_alloc PBUF_IP UDP_HLEN PBUF_RAM (ns_link net) of
            (None, l) \<Rightarrow> (None, net\<lparr>ns_link := l\<rparr>)
          | (Some q, l) \<Rightarrow>
             (Some (if pbuf_tot_len p \<noteq> 0 then pbuf_chain q p else q), net\<lparr>ns_link := l\<rparr>)))"

definition udp_checksum :: "udp_pcb \<Rightarrow> pbuf \<Rightarrow> u32 \<Rightarrow> u32 \<Rightarrow> u16" where
  "udp_checksum c q src_ip dst_ip =
     (if pcb_flags c AND UDP_FLAGS_NOCHKSUM = 0 then
        (let k = inet_chksum_pseudo (chksum_view q) src_ip dst_ip IP_PROTO_UDP (of_nat (pbuf_tot_len q))
         in if k = 0 then 0xffff else k)
      else 0)"

text \<open>The part of \<open>udp_sendto_if\<close> that follows the automatic bind.\<close>

definition udp_send_bound :: "udp_pcb \<Rightarrow> pbuf \<Rightarrow> u32 \<Rightarrow> u16 \<Rightarrow> netif_ptr \<Rightarrow> net_st \<Rightarrow> err_t \<times> net_st" where
  "udp_send_bound c p dst_ip dst_port nif net =
     (case udp_add_header p net of
        (None, net) \<Rightarrow> (ERR_MEM, net)
      | (Some q, net) \<Rightarrow>
         if \<not> ip_addr_isany (pcb_local_ip c) \<and> pcb_local_ip c \<noteq> if_ip_addr (netifs net nif)
         then (ERR_VAL, net)
         else
           (let src_ip = (if ip_addr_isany (pcb_local_ip c) then if_ip_addr (netifs net nif)
                          else pcb_local_ip c);
                hdr = udp_hdr_bytes (htons (pcb_local_port c)) (htons dst_port)
                        (htons (of_nat (pbuf_tot_len q)));
                q = pbuf_put 0 (hdr 0) q;
                q = pbuf_put 0 (hdr (udp_checksum c q src_ip dst_ip)) q
            in ip_output_if q src_ip dst_ip (pcb_ttl c) (pcb_tos c) IP_PROTO_UDP nif net))"

definition udp_sendto_if :: "nat \<Rightarrow> pbuf \<Rightarrow> u32 \<Rightarrow> u16 \<Rightarrow> netif_ptr \<Rightarrow> stack_st \<Rightarrow> err_t \<times> stack_st" where
  "udp_sendto_if pcb p dst_ip dst_port nif st =
     (let u = st_udp st;
          (err, u) = (if pcb_local_port (pcb_at u pcb) = 0
                      then udp_bind pcb (pcb_local_ip (pcb_at u pcb)) (pcb_local_port (pcb_at u pcb)) u
                      else (ERR_OK, u));
          st = st\<lparr>st_udp := u\<rparr>
      in if err \<noteq> ERR_OK then (err, st)
         else
           (let (e, net) = udp_send_bound (pcb_at u pcb) p dst_ip dst_port nif (st_net st)
            in (e, st\<lparr>st_net := net\<rparr>)))"

definition udp_sendto :: "nat \<Rightarrow> pbuf \<Rightarrow> u32 \<Rightarrow> u16 \<Rightarrow> stack_st \<Rightarrow> err_t \<times> stack_st" where
  "udp_sendto pcb p dst_ip dst_port st =
     (case ip_route dst_ip (st_net st) of
        None \<Rightarrow> (ERR_RTE, st)
      | Some nif \<Rightarrow> udp_sendto_if pcb p dst_ip dst_port nif st)"

definition udp_send :: "nat \<Rightarrow> pbuf \<Rightarrow> stack_st \<Rightarrow> err_t \<times> stack_st" where
  "udp_send pcb p st =
     udp_sendto pcb p (pcb_remote_ip (pcb_at (st_udp st) pcb)) (pcb_remote_port (pcb_at (st_udp st) pcb)) st"

section \<open>Ephemeral ports\<close>

lemmas port_range_defs = UDP_LOCAL_PORT_RANGE_START_def UDP_LOCAL_PORT_RANGE_END_def

definition port_in_range :: "u16 \<Rightarrow> bool" where
  "port_in_range port \<longleftrightarrow> UDP_LOCAL_PORT_RANGE_START \<le> port"

lemma port_in_range_unat: "port_in_range port \<longleftrightarrow> 0xc000 \<le> unat port"
  by (simp add: port_in_range_def port_range_defs word_le_nat_alt)

lemma unat_next_port:
  assumes "0xc000 \<le> unat port"
  shows "unat (next_port port) = 0xc000 + (unat port - 0xc000 + 1) mod 0x4000"
proof (cases "port = UDP_LOCAL_PORT_RANGE_END")
  case True
  then show ?thesis by (simp add: next_port_def port_range_defs)
next
  case False
  then have "unat port \<noteq> 65535" by (auto simp: port_range_defs word_unat_eq_iff)
  with unat_u16_less [of port] have "unat port + 1 < 65536" by linarith
  then have "unat (port + 1) = unat port + 1" by (simp add: unat_word_ariths)
  moreover have "(unat port - 0xc000 + 1) mod 0x4000 = unat port - 0xc000 + 1"
    using \<open>unat port + 1 < 65536\<close> assms by simp
  ultimately show ?thesis using False assms by (simp add: next_port_def)
qed

lemma unat_next_port_pow:
  "0xc000 \<le> unat port \<Longrightarrow>
   unat ((next_port ^^ k) port) = 0xc000 + (unat port - 0xc000 + k) mod 0x4000"
proof (induction k)
  case 0
  then show ?case using unat_u16_less [of port] by (simp del: unat_u16_less)
next
  case (Suc k)
  then show ?case by (simp add: unat_next_port mod_Suc_eq)
qed

lemma new_port_loop_spec:
  assumes "n \<le> 0x3fff" and "new_port_loop n port used = (r, port')"
  shows "\<exists>k. 1 \<le> k \<and> k \<le> 0x4000 - n \<and> port' = (next_port ^^ k) port \<and>
    (r = port' \<and> r \<notin> set used \<or>
     r = 0 \<and> k = 0x4000 - n \<and> (\<forall>j. 1 \<le> j \<and> j \<le> k \<longrightarrow> (next_port ^^ j) port \<in> set used))"
  using assms
proof (induction n port used rule: new_port_loop.induct)
  case (1 n port used)
  let ?p = "next_port port"
  have sz: "unat (UDP_LOCAL_PORT_RANGE_END - UDP_LOCAL_PORT_RANGE_START) = 0x3fff"
    by (simp add: port_range_defs)
  show ?case
  proof (cases "?p \<in> set used")
    case False
    with "1.prems"(2) have "r = ?p" "port' = ?p" by (auto simp: new_port_loop.simps [of n] Let_def)
    with False "1.prems"(1) show ?thesis by (intro exI [of _ 1]) simp
  next
    case used: True
    show ?thesis
    proof (cases "n = 0x3fff")
      case True
      have "new_port_loop n port used = (0, ?p)"
        by (subst new_port_loop.simps) (simp add: Let_def sz True used)
      with "1.prems"(2) have "r = 0" "port' = ?p" by simp_all
      with True used show ?thesis by (intro exI [of _ 1]) (auto simp: le_Suc_eq)
    next
      case False
      with "1.prems"(1) have n: "n + 1 \<le> 0x3fff" "\<not> n + 1 > 0x3fff" by auto
      with used "1.prems"(2) have loop: "new_port_loop (n + 1) ?p used = (r, port')"
        by (simp add: new_port_loop.simps [of n] Let_def sz)
      from "1.IH" [OF refl used] n loop sz obtain k where k: "1 \<le> k" "k \<le> 0x4000 - (n + 1)"
        "port' = (next_port ^^ k) ?p"
        "r = port' \<and> r \<notin> set used \<or> r = 0 \<and> k = 0x4000 - (n + 1) \<and>
          (\<forall>j. 1 \<le> j \<and> j \<le> k \<longrightarrow> (next_port ^^ j) ?p \<in> set used)"
        by auto
      have "(next_port ^^ j) port \<in> set used"
        if all: "\<forall>j. 1 \<le> j \<and> j \<le> k \<longrightarrow> (next_port ^^ j) ?p \<in> set used" and j: "1 \<le> j" "j \<le> Suc k" for j
      proof (cases "j = 1")
        case False
        then obtain i where "j = Suc i" "1 \<le> i" using j(1) by (cases j) auto
        with all j(2) show ?thesis by (simp add: funpow_swap1)
      qed (use used in simp)
      with k n show ?thesis
        by (intro exI [of _ "Suc k"]) (auto simp: funpow_swap1)
    qed
  qed
qed

lemma shifted_mod_inj:
  fixes i j :: nat
  assumes "(b + i) mod 0x4000 = (b + j) mod 0x4000" and "1 \<le> i" "i \<le> 0x4000" "1 \<le> j" "j \<le> 0x4000"
  shows "i = j"
proof -
  have le: "x = y" if "x \<le> y" "(b + x) mod 0x4000 = (b + y) mod 0x4000" "1 \<le> x" "y \<le> 0x4000" for x y :: nat
  proof -
    have "0x4000 dvd (b + y) - (b + x)" using that(1,2) by (subst mod_eq_dvd_iff_nat [symmetric]) auto
    then have "0x4000 dvd y - x" by simp
    moreover have "y - x < 0x4000" using that by simp
    ultimately show ?thesis using that(1) by (auto dest: dvd_imp_le)
  qed
  show ?thesis using assms le [of i j] le [of j i] by (cases "i \<le> j") auto
qed

text \<open>With fewer control blocks than ports the search succeeds.\<close>

lemma new_port_loop_finds:
  assumes "port_in_range port" and "length used < 0x4000" and "new_port_loop 0 port used = (r, port')"
  shows "r = port' \<and> r \<notin> set used \<and> port_in_range r \<and> r \<noteq> 0"
proof -
  have u: "0xc000 \<le> unat port" using assms(1) by (simp add: port_in_range_unat)
  obtain k where k: "port' = (next_port ^^ k) port"
    "r = port' \<and> r \<notin> set used \<or>
     r = 0 \<and> k = 0x4000 \<and> (\<forall>j. 1 \<le> j \<and> j \<le> k \<longrightarrow> (next_port ^^ j) port \<in> set used)"
    using new_port_loop_spec [OF _ assms(3)] by auto
  have range: "0xc000 \<le> unat port'" unfolding k(1) unat_next_port_pow [OF u] by simp
  have False if all: "k = 0x4000" "\<forall>j. 1 \<le> j \<and> j \<le> k \<longrightarrow> (next_port ^^ j) port \<in> set used"
  proof -
    have inj: "inj_on (\<lambda>j. (next_port ^^ j) port) {1..0x4000}"
    proof (rule inj_onI)
      fix i j :: nat
      assume ij: "i \<in> {1..0x4000}" "j \<in> {1..0x4000}" "(next_port ^^ i) port = (next_port ^^ j) port"
      let ?b = "unat port - 0xc000"
      have "(?b + i) mod 0x4000 = (?b + j) mod 0x4000"
        using arg_cong [OF ij(3), of unat] unfolding unat_next_port_pow [OF u] by simp
      with ij(1,2) show "i = j" by (auto intro: shifted_mod_inj [of ?b])
    qed
    have "0x4000 = card ((\<lambda>j. (next_port ^^ j) port) ` {1..0x4000})"
      using card_image [OF inj] by simp
    also have "\<dots> \<le> card (set used)" using all by (intro card_mono) auto
    also have "\<dots> \<le> length used" by (rule card_length)
    finally show False using assms(2) by simp
  qed
  with k(2) have "r = port'" "r \<notin> set used" by auto
  with range show ?thesis by (auto simp: port_in_range_unat)
qed

section \<open>The invariant\<close>

text \<open>Two active control blocks on one port have different, specific addresses.\<close>

definition bindings_unique :: "udp_st \<Rightarrow> bool" where
  "bindings_unique u \<longleftrightarrow>
     (\<forall>p \<in> set (udp_pcbs u). \<forall>q \<in> set (udp_pcbs u).
        p \<noteq> q \<longrightarrow> pcb_local_port (pcb_at u p) = pcb_local_port (pcb_at u q) \<longrightarrow>
        \<not> ip_addr_isany (pcb_local_ip (pcb_at u p)) \<and> \<not> ip_addr_isany (pcb_local_ip (pcb_at u q)) \<and>
        pcb_local_ip (pcb_at u p) \<noteq> pcb_local_ip (pcb_at u q))"

definition udp_wf :: "udp_st \<Rightarrow> bool" where
  "udp_wf u \<longleftrightarrow> distinct (udp_pcbs u @ pcb_free u) \<and>
     set (udp_pcbs u) \<union> set (pcb_free u) \<subseteq> {..<MEMP_NUM_UDP_PCB} \<and>
     port_in_range (udp_port u) \<and>
     (\<forall>p \<in> set (udp_pcbs u). pcb_local_port (pcb_at u p) \<noteq> 0) \<and> bindings_unique u"

lemma udp_wf_length: "udp_wf u \<Longrightarrow> length (udp_pcbs u) + length (pcb_free u) \<le> MEMP_NUM_UDP_PCB"
  using card_mono [of "{..<MEMP_NUM_UDP_PCB}" "set (udp_pcbs u) \<union> set (pcb_free u)"]
  by (auto simp: udp_wf_def distinct_card [of "udp_pcbs u @ pcb_free u", simplified, symmetric])

lemma pcb_at_upd [simp]: "pcb_at (upd_pcb p f u) q = (if q = p then f (pcb_at u p) else pcb_at u q)"
  by (simp add: upd_pcb_def)

lemma upd_pcb_frame [simp]:
  "udp_pcbs (upd_pcb p f u) = udp_pcbs u" "pcb_free (upd_pcb p f u) = pcb_free u"
  "udp_port (upd_pcb p f u) = udp_port u"
  by (simp_all add: upd_pcb_def)

text \<open>A change of fields other than the binding keeps the invariant.\<close>

lemma upd_pcb_wf:
  assumes "udp_wf u" and "\<And>c. pcb_local_port (f c) = pcb_local_port c" "\<And>c. pcb_local_ip (f c) = pcb_local_ip c"
  shows "udp_wf (upd_pcb p f u)"
  using assms by (simp add: udp_wf_def bindings_unique_def)

lemma udp_new_wf [wf_intros]: "udp_wf u \<Longrightarrow> udp_wf (snd (udp_new u))"
  by (auto simp: udp_new_def memp_malloc_def udp_wf_def bindings_unique_def split: list.splits)

lemma udp_new_Some:
  assumes "udp_new u = (Some p, u')" and "udp_wf u"
  shows "p \<notin> set (udp_pcbs u') \<and> p \<notin> set (pcb_free u') \<and> p < MEMP_NUM_UDP_PCB \<and>
    udp_pcbs u' = udp_pcbs u \<and> pcb_free u = p # pcb_free u' \<and>
    pcb_at u' = (pcb_at u)(p := pcb_zero\<lparr>pcb_ttl := UDP_TTL\<rparr>) \<and> udp_port u' = udp_port u"
  using assms by (auto simp: udp_new_def memp_malloc_def upd_pcb_def udp_wf_def split: list.splits)

lemma udp_new_None: "fst (udp_new u) = None \<longleftrightarrow> pcb_free u = []"
  by (simp add: udp_new_def memp_malloc_def split: list.splits)

lemma udp_remove_wf [wf_intros]:
  assumes "udp_wf u" and "p \<notin> set (pcb_free u)" and "p < MEMP_NUM_UDP_PCB"
  shows "udp_wf (udp_remove p u)"
proof -
  have "set (remove1 p (udp_pcbs u)) = set (udp_pcbs u) - {p}"
    using assms(1) by (simp add: udp_wf_def)
  with assms show ?thesis
    by (auto simp: udp_remove_def memp_free_def udp_wf_def bindings_unique_def)
qed

lemma udp_new_port_spec:
  assumes "udp_wf u"
  obtains r where "udp_new_port u = (r, u\<lparr>udp_port := r\<rparr>)" "r \<noteq> 0" "port_in_range r"
    "\<forall>p \<in> set (udp_pcbs u). pcb_local_port (pcb_at u p) \<noteq> r"
    "new_port_loop 0 (udp_port u) (map (\<lambda>p. pcb_local_port (pcb_at u p)) (udp_pcbs u)) = (r, r)"
proof -
  let ?used = "map (\<lambda>p. pcb_local_port (pcb_at u p)) (udp_pcbs u)"
  obtain r port where l: "new_port_loop 0 (udp_port u) ?used = (r, port)" by (meson surj_pair)
  have "length ?used < 0x4000" using udp_wf_length [OF assms] by (simp add: MEMP_NUM_UDP_PCB_def)
  moreover have "port_in_range (udp_port u)" using assms by (simp add: udp_wf_def)
  ultimately have "r = port \<and> r \<notin> set ?used \<and> port_in_range r \<and> r \<noteq> 0"
    by (intro new_port_loop_finds [OF _ _ l])
  with that [of r] l show ?thesis by (auto simp: udp_new_port_def)
qed

text \<open>The two outcomes of a bind.\<close>

lemma udp_bind_cases [consumes 1, case_names in_use bound]:
  assumes "udp_wf u"
  obtains (in_use) q where "udp_bind p a port u = (ERR_USE, u)" "q \<in> set (udp_pcbs u)"
      "bind_conflict u p a port q"
  | (bound) port' up where "udp_bind p a port u = (ERR_OK,
        (upd_pcb p (\<lambda>c. c\<lparr>pcb_local_ip := a, pcb_local_port := port'\<rparr>) u)
          \<lparr>udp_pcbs := (if p \<in> set (udp_pcbs u) then udp_pcbs u else p # udp_pcbs u), udp_port := up\<rparr>)"
      "port' \<noteq> 0" "port_in_range up" "port \<noteq> 0 \<longrightarrow> port' = port \<and> up = udp_port u"
      "port = 0 \<longrightarrow> port_in_range port'"
      "\<forall>q \<in> set (udp_pcbs u). \<not> bind_conflict u p a port' q"
proof (cases "list_ex (bind_conflict u p a port) (udp_pcbs u)")
  case True
  then obtain q where "q \<in> set (udp_pcbs u)" "bind_conflict u p a port q" by (auto simp: list_ex_iff)
  with True in_use show ?thesis by (simp add: udp_bind_def)
next
  case False
  then have no: "\<forall>q \<in> set (udp_pcbs u). \<not> bind_conflict u p a port q" by (auto simp: list_ex_iff)
  let ?u = "upd_pcb p (\<lambda>c. c\<lparr>pcb_local_ip := a\<rparr>) u"
  show ?thesis
  proof (cases "port = 0")
    case zero: True
    let ?used = "map (\<lambda>p. pcb_local_port (pcb_at ?u p)) (udp_pcbs u)"
    have used: "?used = map (\<lambda>p. pcb_local_port (pcb_at u p)) (udp_pcbs u)" by simp
    obtain r where r: "udp_new_port u = (r, u\<lparr>udp_port := r\<rparr>)" "r \<noteq> 0" "port_in_range r"
      "\<forall>q \<in> set (udp_pcbs u). pcb_local_port (pcb_at u q) \<noteq> r"
      "new_port_loop 0 (udp_port u) (map (\<lambda>p. pcb_local_port (pcb_at u p)) (udp_pcbs u)) = (r, r)"
      using udp_new_port_spec [OF assms] .
    have r': "udp_new_port ?u = (r, ?u\<lparr>udp_port := r\<rparr>)"
      unfolding udp_new_port_def upd_pcb_frame used r(5) by simp
    have "udp_bind p a port u = (ERR_OK,
        (upd_pcb p (\<lambda>c. c\<lparr>pcb_local_ip := a, pcb_local_port := r\<rparr>) u)
          \<lparr>udp_pcbs := (if p \<in> set (udp_pcbs u) then udp_pcbs u else p # udp_pcbs u), udp_port := r\<rparr>)"
      using False zero r r' by (simp add: udp_bind_def Let_def) (simp add: upd_pcb_def)
    from bound [OF this] r zero show ?thesis by (auto simp: bind_conflict_def)
  next
    case nz: False
    have "udp_bind p a port u = (ERR_OK,
        (upd_pcb p (\<lambda>c. c\<lparr>pcb_local_ip := a, pcb_local_port := port\<rparr>) u)
          \<lparr>udp_pcbs := (if p \<in> set (udp_pcbs u) then udp_pcbs u else p # udp_pcbs u),
           udp_port := udp_port u\<rparr>)"
      using False nz by (simp add: udp_bind_def Let_def) (simp add: upd_pcb_def)
    from bound [OF this] nz no assms show ?thesis by (simp add: udp_wf_def)
  qed
qed

lemma udp_bind_wf [wf_intros]:
  assumes "udp_wf u" and "p \<notin> set (pcb_free u)" and "p < MEMP_NUM_UDP_PCB"
  shows "udp_wf (snd (udp_bind p a port u))"
  using assms(1)
proof (cases rule: udp_bind_cases [of u p a port])
  case (bound port' up)
  let ?u = "(upd_pcb p (\<lambda>c. c\<lparr>pcb_local_ip := a, pcb_local_port := port'\<rparr>) u)
    \<lparr>udp_pcbs := (if p \<in> set (udp_pcbs u) then udp_pcbs u else p # udp_pcbs u), udp_port := up\<rparr>"
  have L: "set (udp_pcbs ?u) = insert p (set (udp_pcbs u))" by auto
  have "bindings_unique ?u"
    using assms(1) bound(6) unfolding bindings_unique_def L
    by (auto simp: udp_wf_def bindings_unique_def bind_conflict_def)
  then show ?thesis
    using assms bound(2,3) unfolding bound(1) by (auto simp: udp_wf_def)
qed (use assms in simp)

lemma udp_connect_wf [wf_intros]:
  assumes "udp_wf u" and "p \<notin> set (pcb_free u)" and "p < MEMP_NUM_UDP_PCB"
    and "pcb_local_port (pcb_at u p) \<noteq> 0 \<Longrightarrow> p \<in> set (udp_pcbs u)"
  shows "udp_wf (snd (udp_connect p a port u))"
proof (cases "pcb_local_port (pcb_at u p) = 0")
  case True
  show ?thesis
    using assms(1)
  proof (cases rule: udp_bind_cases [of u p "pcb_local_ip (pcb_at u p)" 0])
    case (bound port' up)
    have wf: "udp_wf (snd (udp_bind p (pcb_local_ip (pcb_at u p)) 0 u))"
      using assms by (intro udp_bind_wf)
    from upd_pcb_wf [OF this, of "\<lambda>c. c\<lparr>pcb_remote_ip := a, pcb_remote_port := port,
        pcb_flags := pcb_flags c OR UDP_FLAGS_CONNECTED\<rparr>" p]
    show ?thesis using True bound(1) by (auto simp: udp_connect_def Let_def)
  qed (use True assms in \<open>simp add: udp_connect_def Let_def\<close>)
next
  case False
  with assms upd_pcb_wf [OF assms(1), of "\<lambda>c. c\<lparr>pcb_remote_ip := a, pcb_remote_port := port,
      pcb_flags := pcb_flags c OR UDP_FLAGS_CONNECTED\<rparr>" p]
  show ?thesis by (simp add: udp_connect_def Let_def)
qed

lemma udp_disconnect_wf [wf_intros]: "udp_wf u \<Longrightarrow> udp_wf (udp_disconnect p u)"
  by (simp add: udp_disconnect_def upd_pcb_wf)

lemma udp_recv_wf [wf_intros]: "udp_wf u \<Longrightarrow> udp_wf (udp_recv p f u)"
  by (simp add: udp_recv_def upd_pcb_wf)

section \<open>The provider contract\<close>

definition owned_pcbs :: "udp_st \<Rightarrow> nat set" where
  "owned_pcbs u = {..<MEMP_NUM_UDP_PCB} - set (pcb_free u)"

lemma udp_bind_free: "pcb_free (snd (udp_bind p a q u)) = pcb_free u"
  by (auto simp: udp_bind_def udp_new_port_def Let_def split: prod.splits if_splits)

lemma udp_bind_err: "udp_wf u \<Longrightarrow> udp_bind p a q u = (e, t) \<Longrightarrow> e = ERR_OK \<or> e = ERR_USE"
  by (cases rule: udp_bind_cases [of u p a q]) auto

interpretation udpp: pcb_provider udp_wf owned_pcbs udp_new udp_bind udp_remove
proof unfold_locales
  fix s p t assume s: "udp_wf s" "udp_new s = (Some p, t)"
  then show "udp_wf t \<and> p \<notin> owned_pcbs s \<and> owned_pcbs t = insert p (owned_pcbs s)"
    using udp_new_Some [OF s(2,1)] udp_new_wf [OF s(1)] by (auto simp: owned_pcbs_def)
next
  fix s t assume "udp_new s = (None, t)"
  then show "t = s" by (auto simp: udp_new_def memp_malloc_def split: list.splits)
next
  fix s p a q e t assume s: "udp_wf s" "p \<in> owned_pcbs s" "udp_bind p a q s = (e, t)"
  show "udp_wf t \<and> owned_pcbs t = owned_pcbs s"
    using udp_bind_wf [OF s(1), of p a q] udp_bind_free [of p a q s] s by (auto simp: owned_pcbs_def)
  show "e = ERR_OK \<or> e = ERR_USE" using udp_bind_err [OF s(1,3)] .
next
  fix s p assume "udp_wf s" "p \<in> owned_pcbs s"
  then show "udp_wf (udp_remove p s) \<and> owned_pcbs (udp_remove p s) = owned_pcbs s - {p}"
    using udp_remove_wf [of s p] by (auto simp: owned_pcbs_def udp_remove_def memp_free_def)
qed

section \<open>The datagram on the wire\<close>

definition udp_datagram :: "u32 \<Rightarrow> u32 \<Rightarrow> u16 \<Rightarrow> u16 \<Rightarrow> u8 list \<Rightarrow> u8 list" where
  "udp_datagram src_ip dst_ip sport dport data =
     (let len = of_nat (8 + length data);
          k = inet_chksum_pseudo [(False, udp_hdr_bytes sport dport len 0 @ data)] src_ip dst_ip
                IP_PROTO_UDP len
      in udp_hdr_bytes sport dport len (if k = 0 then 0xffff else k) @ data)"

lemma length_udp_hdr_bytes [simp]: "length (udp_hdr_bytes a b c d) = 8"
  by (simp add: udp_hdr_bytes_def)

lemma length_udp_datagram [simp]: "length (udp_datagram a b c d data) = 8 + length data"
  by (simp add: udp_datagram_def Let_def)

lemma nsum_udp_field:
  "nsum (be32 src @ be32 dst @ [0, proto] @ be16 len @ udp_hdr_bytes a b c k @ data) =
   nsum (be32 src @ be32 dst @ [0, proto] @ be16 len @ udp_hdr_bytes a b c 0 @ data) + unat k"
  by (simp add: udp_hdr_bytes_def nsum_append_even nsum_be16)

text \<open>A receiver that sums the datagram, however it is cut into buffers, finds the checksum correct.\<close>

lemma udp_datagram_verifies:
  assumes "concat (map snd p) = udp_datagram src dst sport dport data"
    and "\<forall>(al, bs) \<in> set p. length bs \<le> 65536" and "length data \<le> 65507"
  shows "inet_chksum_pseudo p src dst IP_PROTO_UDP (of_nat (8 + length data)) = 0"
proof -
  let ?len = "of_nat (8 + length data) :: u16"
  let ?d = "\<lambda>k. be32 src @ be32 dst @ [0, IP_PROTO_UDP] @ be16 ?len @ udp_hdr_bytes sport dport ?len k @ data"
  define k where "k = inet_chksum_pseudo [(False, udp_hdr_bytes sport dport ?len 0 @ data)] src dst IP_PROTO_UDP ?len"
  let ?n = "nsum (?d 0)"
  have k: "k = NOT (of_nat (ones_sum ?n))"
    unfolding k_def using assms(3) by (subst inet_chksum_pseudo_reference) simp_all
  have uk: "unat k = 65535 - ones_sum ?n" unfolding k by (rule unat_NOT_ones_sum)
  let ?k = "if k = 0 then 0xffff else k"
  have "inet_chksum_pseudo p src dst IP_PROTO_UDP ?len = NOT (of_nat (ones_sum (nsum (?d ?k))))"
    using inet_chksum_pseudo_reference [OF assms(2), of src dst IP_PROTO_UDP ?len] assms(1)
    by (simp add: udp_datagram_def Let_def k_def del: of_nat_add)
  moreover have "ones_sum (nsum (?d ?k)) = 65535"
  proof (cases "k = 0")
    case True
    then have one: "ones_sum ?n = 65535" using uk ones_sum_le [of ?n] by simp
    then have "?n \<noteq> 0" by (metis ones_sum_eq_0 zero_neq_numeral)
    then have "ones_sum (?n + 65535) = ones_sum ?n" by (intro ones_sum_cong) simp_all
    moreover have "nsum (?d ?k) = ?n + 65535" using True by (subst nsum_udp_field) simp
    ultimately show ?thesis using one by simp
  next
    case False
    then have "nsum (?d ?k) = 65535 - ones_sum ?n + ?n" using uk by (subst nsum_udp_field) simp
    then show ?thesis by (simp only: ones_sum_complete)
  qed
  ultimately show ?thesis by simp
qed

text \<open>One buffer with enough room in front for all headers.\<close>

definition roomy :: "nat \<Rightarrow> pseg \<Rightarrow> bool" where
  "roomy k s \<longleftrightarrow> ps_type s = PBUF_RAM \<and> k \<le> length (ps_hidden s)"

lemma pbuf_header_roomy:
  assumes "roomy k s" and "0 < k"
  obtains s' where "pbuf_header [s] (int k) = Some [s']" "ps_type s' = PBUF_RAM"
    "length (ps_hidden s') = length (ps_hidden s) - k" "drop k (ps_payload s') = ps_payload s"
    "length (ps_payload s') = k + length (ps_payload s)"
  using assms that
  by (auto simp: pbuf_header_def roomy_def Let_def)

lemma align_size_le: "n \<le> LWIP_MEM_ALIGN_SIZE n"
  by (simp add: LWIP_MEM_ALIGN_SIZE_def)

text \<open>A fresh buffer that is filled completely, and allocation from a pool that is not exhausted.\<close>

lemma link_alloc_fill:
  assumes "link_alloc layer (length bs) PBUF_RAM l = (Some p, l')" and "k \<le> layer_offset layer"
  obtains s where "pbuf_put 0 bs p = [s]" "ps_payload s = bs" "roomy k s"
proof -
  obtain m where m: "pbuf_alloc layer (length bs) PBUF_RAM (lk_mem l) = (Some p, m)"
    using assms(1) by (auto simp: link_alloc_def split: prod.splits)
  obtain s where s: "p = [s]" "ps_type s = PBUF_RAM" "length (ps_payload s) = length bs"
    "length (ps_hidden s) = LWIP_MEM_ALIGN_SIZE (layer_offset layer)"
    using pbuf_alloc_Some [OF m] by (cases p) (auto simp: pbuf_tot_len_bytes)
  have "roomy k (s\<lparr>ps_payload := bs\<rparr>)"
    using s assms(2) align_size_le [of "layer_offset layer"] by (simp add: roomy_def)
  with s that [of "s\<lparr>ps_payload := bs\<rparr>"] show ?thesis by (simp add: pbuf_put_def put_bytes_def)
qed

lemma link_alloc_succeeds:
  assumes "ms_alloc (lk_mem l) = []"
  obtains p l' where "link_alloc layer n PBUF_RAM l = (Some p, l')"
  using assms by (auto simp: link_alloc_def pbuf_alloc_def mem_ok_def Let_def)

lemma find_addr_cong: "arp_table l = arp_table s \<Longrightarrow> etharp_find_addr a l = etharp_find_addr a s"
  unfolding etharp_find_addr_def by (rule arg_cong [where f = "\<lambda>t. case fst (etharp_find_entry a ETHARP_FLAG_FIND_ONLY t) of
    None \<Rightarrow> None | Some i \<Rightarrow> if ge_stable (ae_state (t ! i)) then Some (i, ae_ethaddr (t ! i)) else None"])

lemma chksum_view_reference:
  assumes "length (ps_payload s) \<le> 65536"
  shows "inet_chksum_pseudo (chksum_view [s]) a b pr l = inet_chksum_pseudo [(False, ps_payload s)] a b pr l"
  using assms by (simp add: chksum_view_def inet_chksum_pseudo_reference)

lemma udp_send_bound_packet:
  assumes s: "roomy 42 s" and len: "length (ps_payload s) \<le> 65507"
    and out: "if_output (netifs net nif) = Etharp_output"
    and ip: "ip_addr_isany (pcb_local_ip c) \<or> pcb_local_ip c = if_ip_addr (netifs net nif)"
    and chk: "pcb_flags c AND UDP_FLAGS_NOCHKSUM = 0"
  obtains t where "roomy 14 t"
    "udp_send_bound c [s] dst dport nif net =
       net_link (etharp_output (netifs net nif) [t] dst) (net\<lparr>ip_id := ip_id net + 1\<rparr>)"
    "ps_payload t = ip_packet (netifs net nif) (if_ip_addr (netifs net nif)) dst (pcb_ttl c) (pcb_tos c)
       IP_PROTO_UDP (ip_id net)
       (udp_datagram (if_ip_addr (netifs net nif)) dst (pcb_local_port c) dport (ps_payload s))"
proof -
  let ?n = "netifs net nif" and ?src = "if_ip_addr (netifs net nif)"
  let ?len = "of_nat (8 + length (ps_payload s)) :: u16"
  have r8: "roomy 8 s" using s by (simp add: roomy_def)
  obtain q where q: "pbuf_header [s] 8 = Some [q]" "ps_type q = PBUF_RAM"
    "length (ps_hidden q) = length (ps_hidden s) - 8" "drop 8 (ps_payload q) = ps_payload s"
    "length (ps_payload q) = 8 + length (ps_payload s)"
    using pbuf_header_roomy [OF r8] by auto
  let ?q0 = "q\<lparr>ps_payload := udp_hdr_bytes (pcb_local_port c) dport ?len 0 @ ps_payload s\<rparr>"
  let ?q1 = "q\<lparr>ps_payload := udp_datagram ?src dst (pcb_local_port c) dport (ps_payload s)\<rparr>"
  have put: "pbuf_put 0 (udp_hdr_bytes a b e k) [q\<lparr>ps_payload := udp_hdr_bytes x y z w @ ps_payload s\<rparr>] =
      [q\<lparr>ps_payload := udp_hdr_bytes a b e k @ ps_payload s\<rparr>]" for a b e k x y z w
    by (simp add: pbuf_put_def put_bytes_def)
  have put0: "pbuf_put 0 (udp_hdr_bytes a b e k) [q] = [q\<lparr>ps_payload := udp_hdr_bytes a b e k @ ps_payload s\<rparr>]"
    for a b e k using q(4) by (simp add: pbuf_put_def put_bytes_def)
  have k: "udp_checksum c [?q0] ?src dst =
      (let k = inet_chksum_pseudo [(False, ps_payload ?q0)] ?src dst IP_PROTO_UDP ?len in if k = 0 then 0xffff else k)"
    using chk len chksum_view_reference [of ?q0]
    by (simp add: udp_checksum_def pbuf_tot_len_bytes del: of_nat_add)
  have "udp_send_bound c [s] dst dport nif net =
      ip_output_if [?q1] ?src dst (pcb_ttl c) (pcb_tos c) IP_PROTO_UDP nif net"
  proof -
    have h: "udp_add_header [s] net = (Some [q], net)" using q(1) by (simp add: udp_add_header_def UDP_HLEN_def)
    have l: "of_nat (pbuf_tot_len [q]) = ?len" using q(5) by (simp add: pbuf_tot_len_bytes)
    have src: "(if ip_addr_isany (pcb_local_ip c) then ?src else pcb_local_ip c) = ?src"
      and nv: "\<not> (\<not> ip_addr_isany (pcb_local_ip c) \<and> pcb_local_ip c \<noteq> ?src)" using ip by auto
    show ?thesis
      unfolding udp_send_bound_def h prod.case option.case if_not_P [OF nv] src Let_def byteorder_simps l put0 k put
      by (simp add: udp_datagram_def Let_def del: of_nat_add)
  qed
  moreover have r20: "roomy 20 ?q1" using s q(2,3) by (auto simp: roomy_def)
  obtain p' where p': "pbuf_header [?q1] 20 = Some [p']" "ps_type p' = PBUF_RAM"
    "length (ps_hidden p') = length (ps_hidden q) - 20"
    using pbuf_header_roomy [OF r20] by auto
  obtain t where t: "ip_output_if [?q1] ?src dst (pcb_ttl c) (pcb_tos c) IP_PROTO_UDP nif net =
      net_link (etharp_output ?n t dst) (net\<lparr>ip_id := ip_id net + 1\<rparr>)"
    "pbuf_bytes t = ip_packet ?n ?src dst (pcb_ttl c) (pcb_tos c) IP_PROTO_UDP (ip_id net) (pbuf_bytes [?q1])"
    "map ps_hidden t = map ps_hidden [p']" "map ps_type t = map ps_type [p']" "tl t = tl [p']"
    using ip_output_if_link [OF p'(1) _ out] by blast
  obtain t' where t': "t = [t']" "ps_hidden t' = ps_hidden p'" "ps_type t' = PBUF_RAM"
    using t(3,4,5) p'(2) by (cases t) auto
  have "roomy 14 t'" using s q(3) p'(3) t' by (auto simp: roomy_def)
  ultimately show ?thesis using that [of t'] t t' by simp
qed

lemma udp_send_bound_delivers:
  assumes "netif_wf net" and nif: "nif \<in> set (netif_list net)" and s: "roomy 42 s"
    and len: "length (ps_payload s) \<le> 65507"
    and ip: "ip_addr_isany (pcb_local_ip c) \<or> pcb_local_ip c = if_ip_addr (netifs net nif)"
    and chk: "pcb_flags c AND UDP_FLAGS_NOCHKSUM = 0"
    and dst: "\<not> ip4_addr_isbroadcast dst (netifs net nif)" "\<not> ip_addr_ismulticast dst"
      "next_hop (netifs net nif) dst = Some h"
    and hit: "etharp_find_addr h (ns_link net) = Some (i, m)"
    and young: "ae_ctime (arp_table (ns_link net) ! i) < ARP_AGE_REREQUEST_USED"
  obtains inst where "if_state (netifs net nif) = Some inst"
    "fst (udp_send_bound c [s] dst dport nif net) = ERR_OK"
    "lk_tx (ns_link (snd (udp_send_bound c [s] dst dport nif net))) = lk_tx (ns_link net) @
      [wire_frame inst (ip_frame (netifs net nif) m
        (ip_packet (netifs net nif) (if_ip_addr (netifs net nif)) dst (pcb_ttl c) (pcb_tos c) IP_PROTO_UDP
          (ip_id net) (udp_datagram (if_ip_addr (netifs net nif)) dst (pcb_local_port c) dport (ps_payload s))))]"
proof -
  let ?n = "netifs net nif"
  obtain inst where rdy: "link_ready ?n inst" and out: "if_output ?n = Etharp_output"
    using assms(1) nif by (auto simp: netif_wf_def netif_ready_def)
  have wf: "arp_wf (ns_link net)" using assms(1) by (simp add: netif_wf_def)
  obtain t where t: "roomy 14 t" "udp_send_bound c [s] dst dport nif net =
       net_link (etharp_output ?n [t] dst) (net\<lparr>ip_id := ip_id net + 1\<rparr>)"
    "ps_payload t = ip_packet ?n (if_ip_addr ?n) dst (pcb_ttl c) (pcb_tos c) IP_PROTO_UDP (ip_id net)
       (udp_datagram (if_ip_addr ?n) dst (pcb_local_port c) dport (ps_payload s))"
    using udp_send_bound_packet [OF s len out ip chk] .
  obtain t' where t': "pbuf_header [t] 14 = Some [t']" using pbuf_header_roomy [OF t(1)] by auto
  from output_known_host [OF wf rdy t' _ dst hit young] t(2,3) rdy that
  show ?thesis by (simp add: frame_simps link_ready_def)
qed

lemma udp_send_bound_wf [wf_intros]:
  assumes "netif_wf net" and "nif \<in> set (netif_list net)"
  shows "netif_wf (snd (udp_send_bound c p dst dport nif net))"
proof -
  obtain q net1 where q: "udp_add_header p net = (q, net1)" by (meson surj_pair)
  have net1: "netif_wf net1" "netif_list net1 = netif_list net"
    using q assms(1) link_alloc_frame [of PBUF_IP UDP_HLEN PBUF_RAM "ns_link net"]
    by (auto simp: udp_add_header_def netif_wf_def arp_wf_def split: option.splits prod.splits)
  then show ?thesis
    using assms q by (auto simp: udp_send_bound_def Let_def intro!: ip_output_if_wf split: option.splits)
qed

lemma udp_send_bound_frame [frame_simps]:
  "netifs (snd (udp_send_bound c p dst dport nif net)) = netifs net"
  "netif_list (snd (udp_send_bound c p dst dport nif net)) = netif_list net"
  "netif_default (snd (udp_send_bound c p dst dport nif net)) = netif_default net"
  by (auto simp: udp_send_bound_def udp_add_header_def Let_def frame_simps split: option.splits prod.splits)

end
