(* ===== verification/Lwiplib.thy ===== *)
theory Lwiplib
  imports Udp
begin

text \<open>
  The port's interface layer (\<open>ports/hdk/lwiplib.c\<close>): start-up, the primary interface on the EMAC, and the pool of
  \<open>MAX_ALIAS_NETIF\<close> alias interfaces that share its driver state; with the initialisation of \<open>struct netif\<close> by the
  driver (\<open>netif/hdkif.c\<close>). \<open>alias_wf\<close> ties the pool's \<open>used\<close> flags to the interface list and says that every alias
  transmits through the driver state of the primary interface.
\<close>

section \<open>State\<close>

record lib_st =
  alias_used :: "bool list"
  lwIPCoreReady :: bool
  hdkif_mac :: "nat \<Rightarrow> u8 list"

definition MAX_ALIAS_NETIF :: nat where "MAX_ALIAS_NETIF = 7"
definition ETHARP_HWADDR_LEN :: nat where "ETHARP_HWADDR_LEN = 6"
definition MAX_TRANSFER_UNIT :: u16 where "MAX_TRANSFER_UNIT = 1514"

section \<open>The driver's part of the interface structure\<close>

definition hdkif_macaddrset :: "nat \<Rightarrow> u8 list \<Rightarrow> lib_st \<Rightarrow> lib_st" where
  "hdkif_macaddrset inst mac lib =
     lib\<lparr>hdkif_mac := (hdkif_mac lib)(inst :=
       map (\<lambda>t. mac ! ((ETHARP_HWADDR_LEN - 1) - t)) [0..<ETHARP_HWADDR_LEN])\<rparr>"

text \<open>
  What the PHY reports during \<open>hdkif_hw_init\<close>: whether it is alive and whether the link could be negotiated.
\<close>

record phy_st =
  phy_alive :: bool
  phy_autoneg :: bool

definition hdkif_link_setup :: "nat \<Rightarrow> phy_st \<Rightarrow> err_t" where
  "hdkif_link_setup inst phy = (if inst = 0 then (if phy_autoneg phy then ERR_OK else ERR_CONN) else ERR_CONN)"

definition hdkif_hw_init :: "nat \<Rightarrow> u8 list \<Rightarrow> phy_st \<Rightarrow> netif \<Rightarrow> err_t \<times> netif" where
  "hdkif_hw_init inst mac phy n =
     (let n = n\<lparr>if_hwaddr_len := of_nat ETHARP_HWADDR_LEN,
                if_hwaddr := map (\<lambda>t. mac ! ((ETHARP_HWADDR_LEN - 1) - t)) [0..<ETHARP_HWADDR_LEN],
                if_mtu := MAX_TRANSFER_UNIT,
                if_flags := NETIF_FLAG_BROADCAST OR NETIF_FLAG_ETHARP OR NETIF_FLAG_LINK_UP\<rparr>
      in if \<not> phy_alive phy then (ERR_CONN, n)
         else if hdkif_link_setup inst phy \<noteq> ERR_OK then (ERR_CONN, n)
         else (ERR_OK, n))"

definition hdkif_init :: "lib_st \<Rightarrow> phy_st \<Rightarrow> netif \<Rightarrow> err_t \<times> netif" where
  "hdkif_init lib phy n =
     (let inst = the (if_state n);
          n = n\<lparr>if_state := Some inst, if_name := ''en'', if_num := of_nat inst,
                if_output := Etharp_output, if_linkoutput := Hdkif_output\<rparr>
      in hdkif_hw_init inst (hdkif_mac lib inst) phy n)"

definition hdkif_alias_init :: "netif option \<Rightarrow> netif \<Rightarrow> err_t \<times> netif" where
  "hdkif_alias_init src n =
     (case src of
        None \<Rightarrow> (ERR_ARG, n)
      | Some s \<Rightarrow>
         (ERR_OK, n\<lparr>if_state := if_state s, if_output := if_output s, if_linkoutput := if_linkoutput s,
            if_mtu := if_mtu s, if_hwaddr_len := if_hwaddr_len s,
            if_hwaddr := take (unat (if_hwaddr_len s)) (if_hwaddr s) @
                         drop (unat (if_hwaddr_len s)) (if_hwaddr n),
            if_flags := if_flags s\<rparr>))"

section \<open>Start-up\<close>

text \<open>The pools as \<open>memp_init\<close> builds them: each element is put in front of the free list.\<close>

definition memp_init :: "udp_st \<Rightarrow> udp_st" where
  "memp_init u = u\<lparr>pcb_free := rev [0..<MEMP_NUM_UDP_PCB]\<rparr>"

definition lwIPCoreInit :: "nat \<Rightarrow> u8 list \<Rightarrow> lib_st \<Rightarrow> udp_st \<Rightarrow> lib_st \<times> udp_st" where
  "lwIPCoreInit inst mac lib u =
     (if lwIPCoreReady lib then (lib, u)
      else ((hdkif_macaddrset inst mac lib)\<lparr>lwIPCoreReady := True\<rparr>, memp_init u))"

definition lwIPNetifAdd ::
    "nat \<Rightarrow> u32 \<Rightarrow> u32 \<Rightarrow> u32 \<Rightarrow> bool \<Rightarrow> phy_st \<Rightarrow> lib_st \<Rightarrow> net_st \<Rightarrow> u32 \<times> net_st" where
  "lwIPNetifAdd inst ipAddr netMask gwAddr makeDefault phy lib net =
     (if \<not> lwIPCoreReady lib then (0, net)
      else
        (let (ok, net) = netif_add (Hdk inst) (htonl ipAddr) (htonl netMask) (htonl gwAddr) (Some inst)
                           (hdkif_init lib phy) net
         in if \<not> ok then (0, net)
            else
              (let net = (if makeDefault then netif_set_default (Some (Hdk inst)) net else net);
                   net = netif_set_up (Hdk inst) net
               in (if_ip_addr (netifs net (Hdk inst)), net))))"

section \<open>Alias interfaces\<close>

definition lwIPAliasAdd :: "nat \<Rightarrow> u32 \<Rightarrow> u32 \<Rightarrow> u32 \<Rightarrow> lib_st \<Rightarrow> net_st \<Rightarrow> u32 \<times> lib_st \<times> net_st" where
  "lwIPAliasAdd primary ipAddr netMask gwAddr lib net =
     (if \<not> lwIPCoreReady lib then (0, lib, net)
      else case first_idx Not (alias_used lib) of
        None \<Rightarrow> (0, lib, net)
      | Some idx \<Rightarrow>
         (let (ok, net') = netif_add (Alias idx) (htonl ipAddr) (htonl netMask) (htonl gwAddr) None
                            (hdkif_alias_init (Some (netifs net (Hdk primary)))) net
          in if \<not> ok then (0, lib, net')
             else
               (let net' = netif_set_up (Alias idx) net'
                in (if_ip_addr (netifs net' (Alias idx)), lib\<lparr>alias_used := (alias_used lib)[idx := True]\<rparr>,
                    net'))))"

definition lwIPAliasRemove :: "netif_ptr option \<Rightarrow> lib_st \<Rightarrow> net_st \<Rightarrow> lib_st \<times> net_st" where
  "lwIPAliasRemove netif lib net =
     (case netif of
        Some (Alias idx) \<Rightarrow>
          if idx < length (alias_used lib) \<and> alias_used lib ! idx
          then (lib\<lparr>alias_used := (alias_used lib)[idx := False]\<rparr>, netif_remove (Alias idx) net)
          else (lib, net)
      | _ \<Rightarrow> (lib, net))"

definition lwIPNetifPtrGet :: "nat \<Rightarrow> netif_ptr" where
  "lwIPNetifPtrGet inst = Hdk inst"

definition lwIPAliasNetifPtrGet :: "nat \<Rightarrow> lib_st \<Rightarrow> netif_ptr option" where
  "lwIPAliasNetifPtrGet idx lib =
     (if idx \<ge> MAX_ALIAS_NETIF \<or> \<not> alias_used lib ! idx then None else Some (Alias idx))"

section \<open>Invariant\<close>

definition shares_driver :: "netif \<Rightarrow> netif \<Rightarrow> bool" where
  "shares_driver a n \<longleftrightarrow> if_state a = if_state n \<and> if_output a = if_output n \<and>
     if_linkoutput a = if_linkoutput n \<and> if_hwaddr a = if_hwaddr n \<and> if_hwaddr_len a = if_hwaddr_len n"

definition alias_wf :: "lib_st \<Rightarrow> net_st \<Rightarrow> bool" where
  "alias_wf lib net \<longleftrightarrow> lwIPCoreReady lib \<and> length (alias_used lib) = MAX_ALIAS_NETIF \<and>
     (\<forall>p. length (if_hwaddr (netifs net p)) = 6) \<and>
     Hdk 0 \<in> set (netif_list net) \<and> if_hwaddr_len (netifs net (Hdk 0)) = 6 \<and>
     (\<forall>i. Alias i \<in> set (netif_list net) \<longleftrightarrow> i < MAX_ALIAS_NETIF \<and> alias_used lib ! i) \<and>
     (\<forall>i. Hdk i \<in> set (netif_list net) \<longrightarrow> i = 0) \<and>
     (\<forall>i. Alias i \<in> set (netif_list net) \<longrightarrow> shares_driver (netifs net (Alias i)) (netifs net (Hdk 0)))"

lemma hdkif_hw_init_ready:
  assumes "hdkif_hw_init inst mac phy n = (e, n')" and "if_output n = Etharp_output"
    and "if_linkoutput n = Hdkif_output" and "if_state n = Some inst"
  shows "netif_ready n' \<and> if_hwaddr_len n' = 6 \<and> if_ip_addr n' = if_ip_addr n \<and> if_netmask n' = if_netmask n \<and>
    length (if_hwaddr n') = 6 \<and> (e = ERR_OK \<or> e = ERR_CONN)"
  using assms by (auto simp: hdkif_hw_init_def Let_def netif_ready_def link_ready_def ETHARP_HWADDR_LEN_def
      split: if_splits)

lemma hdkif_init_ready:
  "hdkif_init lib phy n = (e, n') \<Longrightarrow>
   netif_ready n' \<and> if_hwaddr_len n' = 6 \<and> if_ip_addr n' = if_ip_addr n \<and> if_netmask n' = if_netmask n \<and>
   length (if_hwaddr n') = 6 \<and> (e = ERR_OK \<or> e = ERR_CONN)"
  by (auto simp: hdkif_init_def Let_def dest: hdkif_hw_init_ready)

lemma alias_init_shares:
  assumes "hdkif_alias_init (Some s) n = (e, n')" and "if_hwaddr_len s = 6" and "netif_ready s"
    and "length (if_hwaddr n) \<le> 6"
  shows "e = ERR_OK \<and> shares_driver n' s \<and> netif_ready n' \<and> if_flags n' = if_flags s \<and>
    if_ip_addr n' = if_ip_addr n"
  using assms by (auto simp: hdkif_alias_init_def shares_driver_def netif_ready_def link_ready_def)

lemma shares_driver_flags [simp]:
  "shares_driver (a\<lparr>if_flags := f\<rparr>) n = shares_driver a n" "shares_driver a (n\<lparr>if_flags := f\<rparr>) = shares_driver a n"
  by (simp_all add: shares_driver_def)

lemma netif_set_up_driver:
  "shares_driver (netifs (netif_set_up nif st) p) n = shares_driver (netifs st p) n"
  "shares_driver a (netifs (netif_set_up nif st) p) = shares_driver a (netifs st p)"
  "if_hwaddr (netifs (netif_set_up nif st) p) = if_hwaddr (netifs st p)"
  "if_hwaddr_len (netifs (netif_set_up nif st) p) = if_hwaddr_len (netifs st p)"
  by (auto simp: netif_set_up_def Let_def frame_simps)

lemma netif_set_down_driver:
  "shares_driver (netifs (netif_set_down nif st) p) n = shares_driver (netifs st p) n"
  "shares_driver a (netifs (netif_set_down nif st) p) = shares_driver a (netifs st p)"
  "if_hwaddr (netifs (netif_set_down nif st) p) = if_hwaddr (netifs st p)"
  "if_hwaddr_len (netifs (netif_set_down nif st) p) = if_hwaddr_len (netifs st p)"
  by (auto simp: netif_set_down_def Let_def)

lemma netif_remove_netifs: "netifs (netif_remove nif st) = netifs (if netif_is_up (netifs st nif) then netif_set_down nif st else st)"
  by (simp add: netif_remove_def Let_def netif_set_default_def)

text \<open>
  Adding an alias: it takes the first free slot, the new interface heads the list and has the configured
  addresses and the driver state and flags of the primary.
\<close>

lemma alias_netif_add:
  assumes "netif_wf net" and "alias_wf lib net" and "Alias idx \<notin> set (netif_list net)"
    and "netif_add (Alias idx) a m g None (hdkif_alias_init (Some (netifs net (Hdk 0)))) net = (ok, net')"
  shows "ok \<and> netif_wf net' \<and> netif_list net' = Alias idx # netif_list net \<and>
    (\<forall>p. p \<noteq> Alias idx \<longrightarrow> netifs net' p = netifs net p) \<and>
    shares_driver (netifs net' (Alias idx)) (netifs net (Hdk 0)) \<and>
    if_ip_addr (netifs net' (Alias idx)) = a \<and> if_netmask (netifs net' (Alias idx)) = m \<and>
    if_gw (netifs net' (Alias idx)) = g \<and>
    if_flags (netifs net' (Alias idx)) = if_flags (netifs net (Hdk 0)) \<and> ns_link net' = ns_link net \<and>
    netif_default net' = netif_default net"
proof -
  let ?s = "netifs net (Hdk 0)"
  let ?st = "netif_set_addr (Alias idx) a m g (netif_reset (Alias idx) None net)"
  have s: "if_hwaddr_len ?s = 6" "netif_ready ?s" "length (if_hwaddr ?s) = 6"
    "length (if_hwaddr (netifs ?st (Alias idx))) \<le> 6"
    using assms(1,2) by (auto simp: alias_wf_def netif_wf_def frame_simps netif_reset_def)
  obtain n where n: "hdkif_alias_init (Some ?s) (netifs ?st (Alias idx)) = (ERR_OK, n)"
    by (simp add: hdkif_alias_init_def)
  have sh: "shares_driver n ?s" "netif_ready n" "if_flags n = if_flags ?s"
    using alias_init_shares [OF n s(1,2,4)] by auto
  have nf: "if_ip_addr n = a" "if_netmask n = m" "if_gw n = g"
    using n by (auto simp: hdkif_alias_init_def frame_simps)
  have eq: "netif_add (Alias idx) a m g None (hdkif_alias_init (Some ?s)) net =
      (True, (set_netif (Alias idx) n ?st)\<lparr>netif_list := Alias idx # netif_list net, ns_cyclic := False\<rparr>)"
    using assms(1,3) n by (simp add: netif_add_def Let_def frame_simps netif_wf_def)
  show ?thesis
    using assms sh nf unfolding eq by (auto simp: netif_wf_def frame_simps)
qed

lemma alias_add_wf [wf_intros]:
  assumes "netif_wf net" and "alias_wf lib net" and "lwIPAliasAdd 0 a m g lib net = (r, lib', net')"
  shows "netif_wf net' \<and> alias_wf lib' net'"
proof (cases "first_idx Not (alias_used lib)")
  case None
  with assms show ?thesis by (auto simp: lwIPAliasAdd_def split: if_splits)
next
  case (Some idx)
  from first_idx_SomeD [OF Some] assms(2) have idx: "idx < MAX_ALIAS_NETIF" "\<not> alias_used lib ! idx"
    by (auto simp: alias_wf_def)
  then have new: "Alias idx \<notin> set (netif_list net)" using assms(2) by (simp add: alias_wf_def)
  obtain ok n1 where 1: "netif_add (Alias idx) a m g None (hdkif_alias_init (Some (netifs net (Hdk 0)))) net = (ok, n1)"
    by (meson surj_pair)
  note n1 = alias_netif_add [OF assms(1,2) new 1]
  have eq: "net' = netif_set_up (Alias idx) n1" "lib' = lib\<lparr>alias_used := (alias_used lib)[idx := True]\<rparr>"
    using assms(2,3) Some 1 n1 by (simp_all add: lwIPAliasAdd_def alias_wf_def Let_def)
  have "netif_wf net'" unfolding eq using n1 by (intro netif_set_up_wf) auto
  moreover have hw: "if_hwaddr (netifs n1 (Alias idx)) = if_hwaddr (netifs net (Hdk 0))"
    using n1 by (simp add: shares_driver_def)
  have "alias_wf lib' net'"
    unfolding alias_wf_def eq netif_set_up_frame netif_set_up_driver
  proof (intro conjI allI)
    fix p show "length (if_hwaddr (netifs n1 p)) = 6"
      using assms(2) n1 hw by (cases "p = Alias idx") (auto simp: alias_wf_def)
  next
    fix i show "(Alias i \<in> set (netif_list n1)) = (i < MAX_ALIAS_NETIF \<and>
        alias_used (lib\<lparr>alias_used := (alias_used lib)[idx := True]\<rparr>) ! i)"
      using assms(2) n1 idx by (auto simp: alias_wf_def nth_list_update)
  next
    fix i show "Alias i \<in> set (netif_list n1) \<longrightarrow> shares_driver (netifs n1 (Alias i)) (netifs n1 (Hdk 0))"
      using assms(2) n1 by (cases "i = idx") (auto simp: alias_wf_def)
  qed (use assms(2) n1 in \<open>auto simp: alias_wf_def\<close>)
  ultimately show ?thesis by simp
qed

lemma alias_remove_wf [wf_intros]:
  assumes "netif_wf net" and "alias_wf lib net" and "lwIPAliasRemove nif lib net = (lib', net')"
  shows "netif_wf net' \<and> alias_wf lib' net'"
proof (cases "\<exists>i. nif = Some (Alias i) \<and> i < length (alias_used lib) \<and> alias_used lib ! i")
  case True
  then obtain i where i: "nif = Some (Alias i)" "i < length (alias_used lib)" "alias_used lib ! i" by blast
  then have eq: "net' = netif_remove (Alias i) net" "lib' = lib\<lparr>alias_used := (alias_used lib)[i := False]\<rparr>"
    using assms(3) by (simp_all add: lwIPAliasRemove_def)
  have "shares_driver (netifs net' p) n = shares_driver (netifs net p) n"
    "shares_driver a (netifs net' p) = shares_driver a (netifs net p)"
    "if_hwaddr (netifs net' p) = if_hwaddr (netifs net p)"
    "if_hwaddr_len (netifs net' p) = if_hwaddr_len (netifs net p)" for p n a
    by (simp_all add: eq netif_remove_netifs netif_set_down_driver)
  moreover have "set (netif_list net') = set (netif_list net) - {Alias i}"
    unfolding eq using netif_remove_list [OF assms(1)] .
  ultimately have "alias_wf lib' net'"
    using assms(2) i unfolding eq(2) by (auto simp: alias_wf_def nth_list_update)
  with netif_remove_wf [OF assms(1)] show ?thesis by (simp add: eq(1))
next
  case False
  then have "lib' = lib" "net' = net"
    using assms(3) by (auto simp: lwIPAliasRemove_def split: option.splits netif_ptr.splits if_splits)
  with assms show ?thesis by simp
qed

lemma netifadd_wf:
  assumes "netif_wf net" and "netif_list net = []" and "lwIPCoreReady lib"
    and "alias_used lib = replicate MAX_ALIAS_NETIF False"
    and "\<forall>p. length (if_hwaddr (netifs net p)) = 6"
    and "lwIPNetifAdd 0 a m g d phy lib net = (r, net')"
  shows "netif_wf net' \<and> alias_wf lib net' \<and> r = a \<and> netif_list net' = [Hdk 0]"
proof -
  obtain ok n1 where 1: "netif_add (Hdk 0) a m g (Some 0) (hdkif_init lib phy) net = (ok, n1)"
    by (meson surj_pair)
  let ?st = "netif_set_addr (Hdk 0) a m g (netif_reset (Hdk 0) (Some 0) net)"
  obtain e n where n: "hdkif_init lib phy (netifs ?st (Hdk 0)) = (e, n)" by (meson surj_pair)
  have rdy: "netif_ready n" "if_hwaddr_len n = 6" "if_ip_addr n = a" "length (if_hwaddr n) = 6"
    "e = ERR_OK \<or> e = ERR_CONN"
    using hdkif_init_ready [OF n] by (auto simp: frame_simps)
  have eq: "netif_add (Hdk 0) a m g (Some 0) (hdkif_init lib phy) net =
      (True, (set_netif (Hdk 0) n ?st)\<lparr>netif_list := [Hdk 0], ns_cyclic := False\<rparr>)"
    using assms(1,2) n rdy(5) by (auto simp: netif_add_def Let_def frame_simps netif_wf_def)
  have n1: "netif_wf n1" "netif_list n1 = [Hdk 0]" "netifs n1 (Hdk 0) = n" "ok"
    "\<forall>p. p \<noteq> Hdk 0 \<longrightarrow> netifs n1 p = netifs net p"
    using 1 eq rdy assms(1,2) by (auto simp: netif_wf_def frame_simps)
  let ?n2 = "if d then netif_set_default (Some (Hdk 0)) n1 else n1"
  have n2: "netif_wf ?n2" "netif_list ?n2 = [Hdk 0]" "netifs ?n2 = netifs n1"
    using n1 by (auto simp: netif_set_default_def netif_wf_def)
  have net': "net' = netif_set_up (Hdk 0) ?n2" "r = if_ip_addr (netifs net' (Hdk 0))"
    using assms(3,6) 1 n1(4) by (auto simp: lwIPNetifAdd_def Let_def)
  have "netif_wf net'" unfolding net' using n2 by (intro netif_set_up_wf) auto
  moreover have "alias_wf lib net'"
    unfolding alias_wf_def net' netif_set_up_frame netif_set_up_driver n2(2,3)
  proof (intro conjI allI)
    fix p show "length (if_hwaddr (netifs n1 p)) = 6"
      using assms(5) n1(3,5) rdy(4) by (cases "p = Hdk 0") auto
  qed (use assms(3,4) n1 rdy in auto)
  moreover have "r = a" unfolding net'(2) net'(1) netif_set_up_frame n2(3) n1(3) by (rule rdy(3))
  ultimately show ?thesis using net'(1) n2(2) by (simp add: netif_set_up_frame)
qed

section \<open>The alias pool as a slot pool\<close>

interpretation aliases: slot_pool MAX_ALIAS_NETIF "\<lambda>lib i. alias_used lib ! i"
  "\<lambda>lib. first_idx Not (alias_used lib)"
  "\<lambda>i lib. lib\<lparr>alias_used := (alias_used lib)[i := True]\<rparr>"
  "\<lambda>i lib. lib\<lparr>alias_used := (alias_used lib)[i := False]\<rparr>"
  "\<lambda>lib. length (alias_used lib) = MAX_ALIAS_NETIF"
  by unfold_locales (auto simp: first_idx_None_nth nth_list_update dest: first_idx_SomeD)

definition alias_count :: "lib_st \<Rightarrow> nat" where
  "alias_count lib = card {i. i < MAX_ALIAS_NETIF \<and> alias_used lib ! i}"

lemma alias_add_full:
  assumes "alias_wf lib net"
  shows "first_idx Not (alias_used lib) = None \<longleftrightarrow> alias_count lib = MAX_ALIAS_NETIF"
proof -
  have "length (alias_used lib) = MAX_ALIAS_NETIF" using assms by (simp add: alias_wf_def)
  from aliases.refuses_iff_full [OF this] show ?thesis by (simp add: alias_count_def aliases.load_def)
qed

lemma alias_count_le: "alias_count lib \<le> MAX_ALIAS_NETIF"
  using aliases.load_le [of lib] by (simp add: alias_count_def aliases.load_def)

end
