(* ===== verification/Udp_Source.thy ===== *)
theory Udp_Source
  imports Lwiplib
begin

text \<open>
  The UDP socket registry (\<open>src/UDP_source.c\<close>): sixteen listener slots, each with a control block, the interface it
  is open on, a one-message receive box and a generation counter. A socket is named by a 16-bit identifier that
  carries the slot and its generation. Interrupt-protected sections are single steps of the model; the receive
  callback, which runs in the interrupt, is a step of its own.
\<close>

section \<open>State\<close>

record udp_rx_msg =
  rm_src_ip :: u32
  rm_src_port :: u16
  rm_data :: "u8 list"
  rm_data_len :: u16
  rm_valid :: bool

record udp_listener =
  ls_pcb :: "nat option"
  ls_netif :: "netif_ptr option"
  ls_rx_msg :: udp_rx_msg
  ls_rx_count :: u32
  ls_rx_drop_count :: u32
  ls_generation :: u8
  ls_in_use :: bool

type_synonym udp_sock_id = u16

definition UDP_RX_BUF_SIZE :: nat where "UDP_RX_BUF_SIZE = 256"
definition UDP_MAX_LISTENERS :: nat where "UDP_MAX_LISTENERS = 16"
definition UDP_SOCK_ID_INVALID :: udp_sock_id where "UDP_SOCK_ID_INVALID = 0xffff"

text \<open>The protocol stack, the interface library and the registry together.\<close>

record host_st =
  h_net :: net_st
  h_udp :: udp_st
  h_lib :: lib_st
  s_listeners :: "udp_listener list"

definition upd_slot :: "nat \<Rightarrow> (udp_listener \<Rightarrow> udp_listener) \<Rightarrow> host_st \<Rightarrow> host_st" where
  "upd_slot idx f h = h\<lparr>s_listeners := (s_listeners h)[idx := f (s_listeners h ! idx)]\<rparr>"

section \<open>Identifiers\<close>

definition make_id :: "nat \<Rightarrow> udp_listener list \<Rightarrow> udp_sock_id" where
  "make_id idx ls = push_bit 8 (ucast (ls_generation (ls ! idx))) OR of_nat idx"

definition resolve :: "udp_sock_id \<Rightarrow> udp_listener list \<Rightarrow> nat option" where
  "resolve sid ls =
     (let idx = unat (sid AND 0xff); generation = ucast (drop_bit 8 sid) :: u8 in
      if idx \<ge> UDP_MAX_LISTENERS \<or> \<not> ls_in_use (ls ! idx) \<or> generation \<noteq> ls_generation (ls ! idx)
      then None else Some idx)"

section \<open>Opening and closing\<close>

definition clear_slot :: "udp_listener \<Rightarrow> udp_listener" where
  "clear_slot l = l\<lparr>ls_pcb := None, ls_rx_msg := (ls_rx_msg l)\<lparr>rm_valid := False\<rparr>, ls_in_use := False,
     ls_generation := ls_generation l + 1\<rparr>"

definition remove_slot :: "nat \<Rightarrow> host_st \<Rightarrow> host_st" where
  "remove_slot idx h =
     (let h = (case ls_pcb (s_listeners h ! idx) of
                 None \<Rightarrow> h
               | Some pcb \<Rightarrow> h\<lparr>h_udp := udp_remove pcb (h_udp h)\<rparr>)
      in upd_slot idx clear_slot h)"

definition open_slot :: "nat \<Rightarrow> netif_ptr \<Rightarrow> udp_listener \<Rightarrow> udp_listener" where
  "open_slot pcb nif l = l\<lparr>ls_pcb := Some pcb, ls_netif := Some nif, ls_in_use := True, ls_rx_count := 0,
     ls_rx_drop_count := 0, ls_rx_msg := (ls_rx_msg l)\<lparr>rm_valid := False\<rparr>\<rparr>"

text \<open>
  The identifier is the value stored through \<open>socket_id\<close>, which callers never pass as NULL; it is written on
  success only.
\<close>

definition udp_source_add_listener ::
    "netif_ptr option \<Rightarrow> u16 \<Rightarrow> host_st \<Rightarrow> err_t \<times> udp_sock_id option \<times> host_st" where
  "udp_source_add_listener netif local_port h =
     (case netif of
        None \<Rightarrow> (ERR_VAL, None, h)
      | Some nif \<Rightarrow>
         (case first_idx (\<lambda>l. \<not> ls_in_use l) (s_listeners h) of
            None \<Rightarrow> (ERR_MEM, None, h)
          | Some idx \<Rightarrow>
             (case udp_new (h_udp h) of
                (None, u) \<Rightarrow> (ERR_MEM, None, h\<lparr>h_udp := u\<rparr>)
              | (Some pcb, u) \<Rightarrow>
                 (let (err, u) = udp_bind pcb (if_ip_addr (netifs (h_net h) nif)) local_port u
                  in if err \<noteq> ERR_OK then (err, None, h\<lparr>h_udp := udp_remove pcb u\<rparr>)
                     else
                       (let h = h\<lparr>h_udp := udp_recv pcb (Udp_rx_callback idx) u\<rparr>;
                            h = upd_slot idx (open_slot pcb nif) h
                        in (ERR_OK, Some (make_id idx (s_listeners h)), h))))))"

definition udp_source_remove_listener :: "udp_sock_id \<Rightarrow> host_st \<Rightarrow> host_st" where
  "udp_source_remove_listener sid h =
     (case resolve sid (s_listeners h) of None \<Rightarrow> h | Some idx \<Rightarrow> remove_slot idx h)"

definition slot_on :: "netif_ptr \<Rightarrow> udp_listener \<Rightarrow> bool" where
  "slot_on nif l \<longleftrightarrow> ls_netif l = Some nif \<and> ls_in_use l"

fun remove_on_loop :: "netif_ptr \<Rightarrow> nat list \<Rightarrow> host_st \<Rightarrow> host_st" where
  "remove_on_loop nif [] h = h"
| "remove_on_loop nif (idx # is) h =
     remove_on_loop nif is (if slot_on nif (s_listeners h ! idx) then remove_slot idx h else h)"

definition udp_source_remove_all_on_netif :: "netif_ptr option \<Rightarrow> host_st \<Rightarrow> host_st" where
  "udp_source_remove_all_on_netif netif h =
     (case netif of None \<Rightarrow> h | Some nif \<Rightarrow> remove_on_loop nif [0..<UDP_MAX_LISTENERS] h)"

text \<open>The loop that rebinds the sockets of an interface; the result of \<open>udp_bind\<close> is not looked at.\<close>

fun rebind_loop :: "netif_ptr \<Rightarrow> nat list \<Rightarrow> host_st \<Rightarrow> host_st" where
  "rebind_loop nif [] h = h"
| "rebind_loop nif (idx # is) h =
     rebind_loop nif is
       (let l = s_listeners h ! idx in
        if slot_on nif l then
          (case ls_pcb l of
             None \<Rightarrow> h
           | Some pcb \<Rightarrow>
              h\<lparr>h_udp := snd (udp_bind pcb (if_ip_addr (netifs (h_net h) nif))
                              (pcb_local_port (pcb_at (h_udp h) pcb)) (h_udp h))\<rparr>)
        else h)"

definition udp_source_netif_ip_changed :: "netif_ptr option \<Rightarrow> host_st \<Rightarrow> host_st" where
  "udp_source_netif_ip_changed netif h =
     (case netif of None \<Rightarrow> h | Some nif \<Rightarrow> rebind_loop nif [0..<UDP_MAX_LISTENERS] h)"

section \<open>Sending and receiving\<close>

text \<open>\<open>data\<close> are the \<open>data_len\<close> bytes the caller's pointer refers to; a NULL pointer is never passed.\<close>

definition udp_source_data_send ::
    "udp_sock_id \<Rightarrow> netif_ptr option \<Rightarrow> u32 \<Rightarrow> u16 \<Rightarrow> u8 list \<Rightarrow> host_st \<Rightarrow> err_t \<times> host_st" where
  "udp_source_data_send sid tx_netif ip_addr_rx port_number data h =
     (case (resolve sid (s_listeners h), tx_netif) of
        (Some idx, Some nif) \<Rightarrow>
          if data = [] then (ERR_VAL, h)
          else
            (case link_alloc PBUF_TRANSPORT (length data) PBUF_RAM (ns_link (h_net h)) of
               (None, l) \<Rightarrow> (ERR_MEM, h\<lparr>h_net := (h_net h)\<lparr>ns_link := l\<rparr>\<rparr>)
             | (Some p, l) \<Rightarrow>
                (let (e, st) = udp_sendto_if (the (ls_pcb (s_listeners h ! idx))) (pbuf_put 0 data p)
                                 ip_addr_rx port_number nif
                                 \<lparr>st_net = (h_net h)\<lparr>ns_link := l\<rparr>, st_udp = h_udp h\<rparr>
                 in (e, h\<lparr>h_net := st_net st, h_udp := st_udp st\<rparr>)))
      | _ \<Rightarrow> (ERR_VAL, h))"

definition udp_source_poll_rx :: "udp_sock_id \<Rightarrow> host_st \<Rightarrow> udp_rx_msg option \<times> host_st" where
  "udp_source_poll_rx sid h =
     (case resolve sid (s_listeners h) of
        None \<Rightarrow> (None, h)
      | Some idx \<Rightarrow>
         (let l = s_listeners h ! idx in
          if \<not> rm_valid (ls_rx_msg l) then (None, h)
          else (Some (ls_rx_msg l),
                upd_slot idx (\<lambda>l. l\<lparr>ls_rx_msg := (ls_rx_msg l)\<lparr>rm_valid := False\<rparr>,
                                     ls_rx_count := ls_rx_count l + 1\<rparr>) h)))"

text \<open>
  The receive callback. The boolean tells whether it has released the pbuf; on the early return for a slot that is
  not in use it has not. \<open>udp_input\<close> never passes a null pointer, so that the return for it is not a branch.
\<close>

definition store_msg :: "pbuf \<Rightarrow> u32 \<Rightarrow> u16 \<Rightarrow> udp_rx_msg \<Rightarrow> udp_rx_msg" where
  "store_msg p addr port m =
     (let copy_len = (if pbuf_tot_len p > UDP_RX_BUF_SIZE then UDP_RX_BUF_SIZE else pbuf_tot_len p)
      in m\<lparr>rm_src_ip := addr, rm_src_port := port, rm_data_len := of_nat copy_len,
           rm_data := put_bytes 0 (pbuf_copy_partial p copy_len 0) (rm_data m), rm_valid := True\<rparr>)"

definition udp_rx_callback :: "nat \<Rightarrow> pbuf \<Rightarrow> u32 \<Rightarrow> u16 \<Rightarrow> host_st \<Rightarrow> bool \<times> host_st" where
  "udp_rx_callback idx p addr port h =
     (if \<not> (idx < UDP_MAX_LISTENERS \<and> ls_in_use (s_listeners h ! idx)) then (False, h)
      else if rm_valid (ls_rx_msg (s_listeners h ! idx))
      then (True, upd_slot idx (\<lambda>l. l\<lparr>ls_rx_drop_count := ls_rx_drop_count l + 1\<rparr>) h)
      else (True, upd_slot idx (\<lambda>l. l\<lparr>ls_rx_msg := store_msg p addr port (ls_rx_msg l)\<rparr>) h))"

section \<open>Queries\<close>

definition slot_port :: "host_st \<Rightarrow> udp_listener \<Rightarrow> u16" where
  "slot_port h l = pcb_local_port (pcb_at (h_udp h) (the (ls_pcb l)))"

definition udp_source_get_local_port :: "udp_sock_id \<Rightarrow> host_st \<Rightarrow> u16" where
  "udp_source_get_local_port sid h =
     (case resolve sid (s_listeners h) of None \<Rightarrow> 0 | Some idx \<Rightarrow> slot_port h (s_listeners h ! idx))"

definition udp_source_count_sockets :: "netif_ptr option \<Rightarrow> host_st \<Rightarrow> nat" where
  "udp_source_count_sockets netif h =
     (case netif of None \<Rightarrow> 0 | Some nif \<Rightarrow> length (filter (slot_on nif) (s_listeners h)))"

record udp_netif_socket_info =
  si_netif :: "netif_ptr option"
  si_local_port :: u16
  si_socket_id :: udp_sock_id

fun get_socket_loop :: "netif_ptr \<Rightarrow> nat \<Rightarrow> nat \<Rightarrow> nat list \<Rightarrow> udp_listener list \<Rightarrow> nat option" where
  "get_socket_loop nif n socket_count [] ls = None"
| "get_socket_loop nif n socket_count (idx # is) ls =
     (if slot_on nif (ls ! idx) then
        (if n = socket_count then Some idx else get_socket_loop nif n (socket_count + 1) is ls)
      else get_socket_loop nif n socket_count is ls)"

definition no_socket :: udp_netif_socket_info where
  "no_socket = \<lparr>si_netif = None, si_local_port = 0, si_socket_id = UDP_SOCK_ID_INVALID\<rparr>"

definition udp_source_get_socket :: "netif_ptr option \<Rightarrow> nat \<Rightarrow> host_st \<Rightarrow> udp_netif_socket_info" where
  "udp_source_get_socket netif n h =
     (case netif of
        None \<Rightarrow> no_socket
      | Some nif \<Rightarrow>
         (case get_socket_loop nif n 0 [0..<UDP_MAX_LISTENERS] (s_listeners h) of
            None \<Rightarrow> no_socket
          | Some idx \<Rightarrow> \<lparr>si_netif = Some nif, si_local_port = slot_port h (s_listeners h ! idx),
                          si_socket_id = make_id idx (s_listeners h)\<rparr>))"

section \<open>Identifiers as generational handles\<close>

definition sock_encode :: "nat \<Rightarrow> u8 \<Rightarrow> udp_sock_id" where
  "sock_encode idx g = push_bit 8 (ucast g) OR of_nat idx"

lemma make_id_encode: "make_id i ls = sock_encode i (ls_generation (ls ! i))"
  by (simp add: make_id_def sock_encode_def)

lemma sock_encode_mk16: "i < 256 \<Longrightarrow> sock_encode i g = mk16 g (of_nat i)"
proof -
  assume "i < 256"
  then have "ucast (of_nat i :: u8) = (of_nat i :: u16)"
    by (simp add: word_unat_eq_iff unsigned_ucast_eq unat_of_nat take_bit_eq_mod)
  then show ?thesis by (simp add: sock_encode_def mk16_def)
qed

lemma mk16_low: "mk16 a b AND 0xff = ucast b"
proof -
  have "x AND 0xff = take_bit 8 x" for x :: u16 by (simp add: take_bit_eq_mask mask_eq_exp_minus_1)
  then show ?thesis
    by (intro bit_word_eqI)
      (auto simp: mk16_def bit_take_bit_iff bit_or_iff bit_push_bit_iff bit_ucast_iff dest: bit_imp_le_length)
qed

lemma mk16_high: "ucast (drop_bit 8 (mk16 a b)) = a"
  by (rule bit_word_eqI)
    (auto simp: mk16_def bit_ucast_iff bit_drop_bit_eq bit_or_iff bit_push_bit_iff dest: bit_imp_le_length)

lemma unat_low: "i < 256 \<Longrightarrow> unat (ucast (of_nat i :: u8) :: u16) = i"
  by (simp add: unsigned_ucast_eq unat_of_nat take_bit_eq_mod)

lemma sock_id_split: "sid = mk16 (ucast (drop_bit 8 sid)) (ucast sid)"
  by simp

lemma resolve_iff:
  "resolve sid ls = Some i \<longleftrightarrow>
     i < UDP_MAX_LISTENERS \<and> ls_in_use (ls ! i) \<and> sid = sock_encode i (ls_generation (ls ! i))"
proof -
  let ?g = "ucast (drop_bit 8 sid) :: u8"
  have low: "unat (sid AND 0xff) = unat (ucast sid :: u8)"
    using mk16_low [of ?g "ucast sid"] by (simp add: unat_ucast8)
  have id: "sid = sock_encode (unat (sid AND 0xff)) ?g"
    unfolding low using sock_encode_mk16 [of "unat (ucast sid :: u8)" ?g] by simp
  have enc: "unat (sock_encode k g AND 0xff) = k" "ucast (drop_bit 8 (sock_encode k g)) = g"
    if "k < UDP_MAX_LISTENERS" for k g
    using that by (simp_all add: sock_encode_mk16 mk16_low mk16_high unat_low UDP_MAX_LISTENERS_def)
  show ?thesis
  proof
    assume "resolve sid ls = Some i"
    then show "i < UDP_MAX_LISTENERS \<and> ls_in_use (ls ! i) \<and> sid = sock_encode i (ls_generation (ls ! i))"
      using id by (auto simp: resolve_def Let_def split: if_splits)
  next
    assume h: "i < UDP_MAX_LISTENERS \<and> ls_in_use (ls ! i) \<and> sid = sock_encode i (ls_generation (ls ! i))"
    then have "unat (sid AND 0xff) = i" "ucast (drop_bit 8 sid) = ls_generation (ls ! i)" using enc by auto
    with h show "resolve sid ls = Some i" by (simp add: resolve_def Let_def)
  qed
qed

lemma sock_encode_inj:
  assumes "i < UDP_MAX_LISTENERS" "j < UDP_MAX_LISTENERS" "sock_encode i g = sock_encode j k"
  shows "i = j \<and> g = k"
proof -
  have i: "i < 256" "j < 256" using assms(1,2) by (simp_all add: UDP_MAX_LISTENERS_def)
  then have eq: "mk16 g (of_nat i) = mk16 k (of_nat j)" using assms(3) by (simp add: sock_encode_mk16)
  have "ucast (drop_bit 8 (mk16 g (of_nat i))) = (ucast (drop_bit 8 (mk16 k (of_nat j))) :: u8)" by (simp only: eq)
  then have "g = k" by (simp only: mk16_high)
  moreover have "mk16 g (of_nat i) AND 0xff = mk16 k (of_nat j) AND 0xff" by (simp only: eq)
  then have "unat (ucast (of_nat i :: u8) :: u16) = unat (ucast (of_nat j :: u8) :: u16)"
    by (simp only: mk16_low)
  then have "i = j" by (simp only: unat_low [OF i(1)] unat_low [OF i(2)])
  ultimately show ?thesis by simp
qed

lemma remove_slot_listeners:
  "s_listeners (remove_slot i h) = (s_listeners h)[i := clear_slot (s_listeners h ! i)]"
  by (simp add: remove_slot_def upd_slot_def Let_def split: option.splits)

lemma clear_slot_simps [simp]:
  "ls_in_use (clear_slot l) = False" "ls_generation (clear_slot l) = ls_generation l + 1"
  "ls_pcb (clear_slot l) = None" "ls_netif (clear_slot l) = ls_netif l"
  "rm_data (ls_rx_msg (clear_slot l)) = rm_data (ls_rx_msg l)"
  by (simp_all add: clear_slot_def)

definition reg_ok :: "host_st \<Rightarrow> bool" where
  "reg_ok h \<longleftrightarrow> length (s_listeners h) = UDP_MAX_LISTENERS"

interpretation sock: gen_handles UDP_MAX_LISTENERS reg_ok "\<lambda>h i. ls_in_use (s_listeners h ! i)"
  "\<lambda>h i. ls_generation (s_listeners h ! i)" sock_encode "\<lambda>sid h. resolve sid (s_listeners h)" remove_slot
  by unfold_locales
    (auto simp: resolve_iff reg_ok_def remove_slot_listeners nth_list_update dest: sock_encode_inj)

interpretation slots: slot_pool UDP_MAX_LISTENERS "\<lambda>h i. ls_in_use (s_listeners h ! i)"
  "\<lambda>h. first_idx (\<lambda>l. \<not> ls_in_use l) (s_listeners h)"
  "\<lambda>i. upd_slot i (open_slot pcb nif)" remove_slot reg_ok for pcb nif
  by unfold_locales
    (auto simp: first_idx_None_nth reg_ok_def upd_slot_def open_slot_def remove_slot_listeners nth_list_update
      dest: first_idx_SomeD)

lemma handle_make_id: "sock.handle h i = make_id i (s_listeners h)"
  by (simp add: sock.handle_def make_id_encode)

section \<open>The registry invariant\<close>

definition slot_wf :: "net_st \<Rightarrow> udp_st \<Rightarrow> nat \<Rightarrow> udp_listener \<Rightarrow> bool" where
  "slot_wf net u i l \<longleftrightarrow> length (rm_data (ls_rx_msg l)) = UDP_RX_BUF_SIZE \<and>
     (rm_valid (ls_rx_msg l) \<longrightarrow> unat (rm_data_len (ls_rx_msg l)) \<le> UDP_RX_BUF_SIZE) \<and>
     (if ls_in_use l then
        (\<exists>pcb nif. ls_pcb l = Some pcb \<and> ls_netif l = Some nif \<and> pcb \<in> set (udp_pcbs u) \<and>
           pcb_recv (pcb_at u pcb) = Udp_rx_callback i \<and> nif \<in> set (netif_list net))
      else ls_pcb l = None)"

text \<open>Every socket callback belongs to the slot it names.\<close>

definition callbacks_wf :: "udp_st \<Rightarrow> udp_listener list \<Rightarrow> bool" where
  "callbacks_wf u ls \<longleftrightarrow> (\<forall>p \<in> set (udp_pcbs u). \<forall>i. pcb_recv (pcb_at u p) = Udp_rx_callback i \<longrightarrow>
     i < UDP_MAX_LISTENERS \<and> ls_in_use (ls ! i) \<and> ls_pcb (ls ! i) = Some p)"

definition host_wf :: "host_st \<Rightarrow> bool" where
  "host_wf h \<longleftrightarrow> netif_wf (h_net h) \<and> udp_wf (h_udp h) \<and> alias_wf (h_lib h) (h_net h) \<and> reg_ok h \<and>
     (\<forall>i < UDP_MAX_LISTENERS. slot_wf (h_net h) (h_udp h) i (s_listeners h ! i)) \<and>
     callbacks_wf (h_udp h) (s_listeners h)"

lemma host_wf_slot:
  assumes "host_wf h" and "i < UDP_MAX_LISTENERS" and "ls_in_use (s_listeners h ! i)"
  obtains pcb nif where "ls_pcb (s_listeners h ! i) = Some pcb" "ls_netif (s_listeners h ! i) = Some nif"
    "pcb \<in> set (udp_pcbs (h_udp h))" "pcb_recv (pcb_at (h_udp h) pcb) = Udp_rx_callback i"
    "nif \<in> set (netif_list (h_net h))" "pcb \<notin> set (pcb_free (h_udp h))" "pcb < MEMP_NUM_UDP_PCB"
proof -
  obtain pcb nif where p: "ls_pcb (s_listeners h ! i) = Some pcb" "ls_netif (s_listeners h ! i) = Some nif"
    "pcb \<in> set (udp_pcbs (h_udp h))" "pcb_recv (pcb_at (h_udp h) pcb) = Udp_rx_callback i"
    "nif \<in> set (netif_list (h_net h))"
  proof -
    have "slot_wf (h_net h) (h_udp h) i (s_listeners h ! i)" using assms(1,2) by (simp add: host_wf_def)
    with assms(3) that show ?thesis by (auto simp: slot_wf_def)
  qed
  moreover have "pcb \<notin> set (pcb_free (h_udp h))" "pcb < MEMP_NUM_UDP_PCB"
    using assms(1) p(3) by (auto simp: host_wf_def udp_wf_def)
  ultimately show ?thesis using that by blast
qed

text \<open>Two slots in use have different control blocks.\<close>

lemma slots_distinct_pcbs:
  assumes "host_wf h" and "i < UDP_MAX_LISTENERS" "j < UDP_MAX_LISTENERS" "i \<noteq> j"
    and "ls_in_use (s_listeners h ! i)" "ls_in_use (s_listeners h ! j)"
  shows "ls_pcb (s_listeners h ! i) \<noteq> ls_pcb (s_listeners h ! j)"
proof
  assume eq: "ls_pcb (s_listeners h ! i) = ls_pcb (s_listeners h ! j)"
  obtain p where p: "ls_pcb (s_listeners h ! i) = Some p" "pcb_recv (pcb_at (h_udp h) p) = Udp_rx_callback i"
    using host_wf_slot [OF assms(1,2,5)] by metis
  obtain q where "ls_pcb (s_listeners h ! j) = Some q" "pcb_recv (pcb_at (h_udp h) q) = Udp_rx_callback j"
    using host_wf_slot [OF assms(1,3,6)] by metis
  with p eq assms(4) show False by simp
qed

text \<open>Closing a slot.\<close>

lemma udp_remove_simps:
  "udp_wf u \<Longrightarrow> set (udp_pcbs (udp_remove p u)) = set (udp_pcbs u) - {p}"
  "pcb_at (udp_remove p u) = pcb_at u"
  by (simp_all add: udp_remove_def memp_free_def udp_wf_def)

lemma remove_slot_wf [wf_intros]:
  assumes "host_wf h" and "i < UDP_MAX_LISTENERS" and "ls_in_use (s_listeners h ! i)"
  shows "host_wf (remove_slot i h)"
proof -
  obtain p where p: "ls_pcb (s_listeners h ! i) = Some p" "p \<in> set (udp_pcbs (h_udp h))"
    "pcb_recv (pcb_at (h_udp h) p) = Udp_rx_callback i" "p \<notin> set (pcb_free (h_udp h))" "p < MEMP_NUM_UDP_PCB"
    using host_wf_slot [OF assms] by metis
  let ?u = "udp_remove p (h_udp h)" and ?ls = "(s_listeners h)[i := clear_slot (s_listeners h ! i)]"
  have h': "remove_slot i h = h\<lparr>h_udp := ?u, s_listeners := ?ls\<rparr>"
    using p(1) by (simp add: remove_slot_def upd_slot_def)
  have u: "udp_wf ?u" "set (udp_pcbs ?u) = set (udp_pcbs (h_udp h)) - {p}" "pcb_at ?u = pcb_at (h_udp h)"
    using assms(1) p udp_remove_wf udp_remove_simps by (auto simp: host_wf_def)
  have len: "length (s_listeners h) = UDP_MAX_LISTENERS" using assms(1) by (simp add: host_wf_def reg_ok_def)
  have slots: "slot_wf (h_net h) ?u k (?ls ! k)" if k: "k < UDP_MAX_LISTENERS" for k
  proof (cases "k = i")
    case True
    have "slot_wf (h_net h) (h_udp h) i (s_listeners h ! i)" using assms(1,2) by (simp add: host_wf_def)
    with True len assms(2) show ?thesis by (auto simp: slot_wf_def clear_slot_def)
  next
    case False
    have "slot_wf (h_net h) (h_udp h) k (s_listeners h ! k)" using assms(1) k by (simp add: host_wf_def)
    moreover have "ls_in_use (s_listeners h ! k) \<Longrightarrow> ls_pcb (s_listeners h ! k) \<noteq> Some p"
      using slots_distinct_pcbs [OF assms(1) k assms(2) False] assms(3) p(1) by auto
    ultimately show ?thesis using False u by (auto simp: slot_wf_def split: if_splits)
  qed
  have "callbacks_wf ?u ?ls"
    using assms(1) u p len unfolding callbacks_wf_def host_wf_def
    by (metis DiffE insertI1 nth_list_update_neq option.inject)
  with assms(1) u slots len show ?thesis unfolding h' by (simp add: host_wf_def reg_ok_def)
qed

lemma remove_slot_frame [frame_simps]:
  "h_net (remove_slot i h) = h_net h" "h_lib (remove_slot i h) = h_lib h"
  by (simp_all add: remove_slot_def upd_slot_def Let_def split: option.splits)

lemma remove_listener_wf [wf_intros]: "host_wf h \<Longrightarrow> host_wf (udp_source_remove_listener sid h)"
  by (auto simp: udp_source_remove_listener_def resolve_iff intro: remove_slot_wf split: option.splits)

lemma remove_on_loop_wf:
  "host_wf h \<Longrightarrow> set is \<subseteq> {..<UDP_MAX_LISTENERS} \<Longrightarrow> host_wf (remove_on_loop nif is h)"
proof (induction nif "is" h rule: remove_on_loop.induct)
  case (2 nif idx "is" h)
  then show ?case using remove_slot_wf [of h idx] by (simp add: slot_on_def)
qed simp

text \<open>The slots after the loop: those on the interface are cleared, the others untouched.\<close>

lemma remove_on_loop_slots:
  "reg_ok h \<Longrightarrow> distinct is \<Longrightarrow> set is \<subseteq> {..<UDP_MAX_LISTENERS} \<Longrightarrow> i < UDP_MAX_LISTENERS \<Longrightarrow>
   s_listeners (remove_on_loop nif is h) ! i =
     (if i \<in> set is \<and> slot_on nif (s_listeners h ! i) then clear_slot (s_listeners h ! i)
      else s_listeners h ! i) \<and>
   reg_ok (remove_on_loop nif is h) \<and> h_net (remove_on_loop nif is h) = h_net h \<and>
   h_lib (remove_on_loop nif is h) = h_lib h"
proof (induction nif "is" h rule: remove_on_loop.induct)
  case (2 nif idx "is" h)
  let ?h = "if slot_on nif (s_listeners h ! idx) then remove_slot idx h else h"
  have "reg_ok ?h" using "2.prems"(1) by (simp add: sock.release_ok)
  moreover have "s_listeners ?h ! i =
      (if i = idx \<and> slot_on nif (s_listeners h ! i) then clear_slot (s_listeners h ! i) else s_listeners h ! i)"
    using "2.prems" by (auto simp: remove_slot_listeners nth_list_update reg_ok_def)
  moreover have "\<not> slot_on nif (clear_slot l)" for l by (simp add: slot_on_def)
  ultimately show ?case using "2.IH" "2.prems" by (auto simp: frame_simps)
qed simp

lemma remove_all_slots:
  assumes "reg_ok h" and "i < UDP_MAX_LISTENERS"
  shows "s_listeners (udp_source_remove_all_on_netif (Some nif) h) ! i =
    (if slot_on nif (s_listeners h ! i) then clear_slot (s_listeners h ! i) else s_listeners h ! i)"
  using remove_on_loop_slots [OF assms(1) _ _ assms(2), of "[0..<UDP_MAX_LISTENERS]" nif] assms(2)
  by (auto simp: udp_source_remove_all_on_netif_def atLeast0LessThan)

lemma remove_all_frame [frame_simps]:
  assumes "reg_ok h"
  shows "reg_ok (udp_source_remove_all_on_netif nif h)" "h_net (udp_source_remove_all_on_netif nif h) = h_net h"
    "h_lib (udp_source_remove_all_on_netif nif h) = h_lib h"
  using remove_on_loop_slots [OF assms, of "[0..<UDP_MAX_LISTENERS]" 0] assms
  by (auto simp: udp_source_remove_all_on_netif_def UDP_MAX_LISTENERS_def atLeast0LessThan split: option.splits)

lemma remove_all_wf [wf_intros]: "host_wf h \<Longrightarrow> host_wf (udp_source_remove_all_on_netif nif h)"
  using remove_on_loop_wf [of h "[0..<UDP_MAX_LISTENERS]"]
  by (auto simp: udp_source_remove_all_on_netif_def atLeast0LessThan split: option.splits)

section \<open>Opening a socket\<close>

lemma host_wf_cong_udp:
  assumes "host_wf h" and "udp_wf u" and "set (udp_pcbs u) = set (udp_pcbs (h_udp h))"
    and "\<forall>p \<in> set (udp_pcbs u). pcb_recv (pcb_at u p) = pcb_recv (pcb_at (h_udp h) p)"
  shows "host_wf (h\<lparr>h_udp := u\<rparr>)"
proof -
  have "slot_wf (h_net h) u i (s_listeners h ! i)" if "i < UDP_MAX_LISTENERS" for i
  proof -
    have "slot_wf (h_net h) (h_udp h) i (s_listeners h ! i)" using assms(1) that by (simp add: host_wf_def)
    with assms(3,4) show ?thesis by (auto simp: slot_wf_def split: if_splits)
  qed
  then show ?thesis using assms by (simp add: host_wf_def reg_ok_def callbacks_wf_def)
qed

text \<open>The outcomes of opening a socket on an interface of the list.\<close>

lemma add_listener_cases [consumes 1, case_names full no_pcb in_use opened]:
  assumes "host_wf h"
  obtains (full) "udp_source_add_listener (Some nif) port h = (ERR_MEM, None, h)"
      "\<forall>i < UDP_MAX_LISTENERS. ls_in_use (s_listeners h ! i)"
  | (no_pcb) "udp_source_add_listener (Some nif) port h = (ERR_MEM, None, h)" "pcb_free (h_udp h) = []"
  | (in_use) p u q where
      "udp_source_add_listener (Some nif) port h = (ERR_USE, None, h\<lparr>h_udp := u\<rparr>)"
      "udp_wf u" "udp_pcbs u = udp_pcbs (h_udp h)" "pcb_free u = pcb_free (h_udp h)"
      "\<forall>r. r \<noteq> p \<longrightarrow> pcb_at u r = pcb_at (h_udp h) r" "p \<notin> set (udp_pcbs u)" "q \<in> set (udp_pcbs u)"
      "bind_conflict (h_udp h) p (if_ip_addr (netifs (h_net h) nif)) port q"
  | (opened) idx p u port' where
      "udp_source_add_listener (Some nif) port h =
        (ERR_OK, Some (make_id idx (s_listeners h)), upd_slot idx (open_slot p nif) (h\<lparr>h_udp := u\<rparr>))"
      "first_idx (\<lambda>l. \<not> ls_in_use l) (s_listeners h) = Some idx"
      "idx < UDP_MAX_LISTENERS" "\<not> ls_in_use (s_listeners h ! idx)" "udp_wf u"
      "p \<notin> set (udp_pcbs (h_udp h))" "udp_pcbs u = p # udp_pcbs (h_udp h)" "pcb_free (h_udp h) = p # pcb_free u"
      "pcb_at u = (pcb_at (h_udp h))(p := pcb_zero\<lparr>pcb_ttl := UDP_TTL,
         pcb_local_ip := if_ip_addr (netifs (h_net h) nif), pcb_local_port := port',
         pcb_recv := Udp_rx_callback idx\<rparr>)"
      "port' \<noteq> 0" "port \<noteq> 0 \<longrightarrow> port' = port" "port = 0 \<longrightarrow> port_in_range port'"
proof (cases "first_idx (\<lambda>l. \<not> ls_in_use l) (s_listeners h)")
  case None
  then have "\<forall>i < UDP_MAX_LISTENERS. ls_in_use (s_listeners h ! i)"
    using assms by (simp add: first_idx_None_nth host_wf_def reg_ok_def)
  with None full show ?thesis by (simp add: udp_source_add_listener_def)
next
  case (Some idx)
  have idx: "idx < UDP_MAX_LISTENERS" "\<not> ls_in_use (s_listeners h ! idx)"
    using first_idx_SomeD [OF Some] assms by (auto simp: host_wf_def reg_ok_def)
  have wf: "udp_wf (h_udp h)" using assms by (simp add: host_wf_def)
  let ?a = "if_ip_addr (netifs (h_net h) nif)"
  obtain o1 t where new: "udp_new (h_udp h) = (o1, t)" by (meson surj_pair)
  show ?thesis
  proof (cases o1)
    case None
    have t: "t = h_udp h" using udpp.alloc_None [OF wf] new None by simp
    have "pcb_free (h_udp h) = []" using udp_new_None [of "h_udp h"] new None by simp
    moreover have "h\<lparr>h_udp := t\<rparr> = h" using t by simp
    ultimately show ?thesis using no_pcb Some new None by (simp add: udp_source_add_listener_def)
  next
    case (Some p)
    note n = udp_new_Some [OF new [unfolded Some] wf]
    have t: "udp_wf t" using udp_new_wf [OF wf] new by simp
    have po: "p \<in> owned_pcbs t" using n by (simp add: owned_pcbs_def)
    show ?thesis
      using t
    proof (cases rule: udp_bind_cases [of t p ?a port])
      case (in_use q)
      have rb: "udp_wf (udp_remove p t)" using udp_remove_wf [OF t] n by simp
      have "udp_source_add_listener (Some nif) port h = (ERR_USE, None, h\<lparr>h_udp := udp_remove p t\<rparr>)"
        using \<open>first_idx _ _ = Some idx\<close> new Some in_use(1) by (simp add: udp_source_add_listener_def)
      moreover have "q \<noteq> p" using in_use(3) by (auto simp: bind_conflict_def)
      then have "bind_conflict (h_udp h) p ?a port q" using in_use(3) n by (simp add: bind_conflict_def)
      moreover have "p \<notin> set (udp_pcbs t)" using n by blast
      then have "udp_pcbs (udp_remove p t) = udp_pcbs (h_udp h)"
        "pcb_free (udp_remove p t) = pcb_free (h_udp h)" "pcb_at (udp_remove p t) = pcb_at t"
        using n by (simp_all add: udp_remove_def memp_free_def remove1_idem)
      moreover have "p \<notin> set (udp_pcbs (h_udp h))" using n by metis
      ultimately show ?thesis using that(3) [of "udp_remove p t" p q] rb n in_use(2) by simp
    next
      case (bound port' up)
      let ?u = "udp_recv p (Udp_rx_callback idx) (snd (udp_bind p ?a port t))"
      have nl: "p \<notin> set (udp_pcbs t)" using n by metis
      have add: "udp_source_add_listener (Some nif) port h =
          (ERR_OK, Some (make_id idx (s_listeners (upd_slot idx (open_slot p nif) (h\<lparr>h_udp := ?u\<rparr>)))),
           upd_slot idx (open_slot p nif) (h\<lparr>h_udp := ?u\<rparr>))"
        using \<open>first_idx _ _ = Some idx\<close> new Some bound(1)
        by (simp add: udp_source_add_listener_def Let_def)
      have mk: "make_id idx (s_listeners (upd_slot idx (open_slot p nif) (h\<lparr>h_udp := ?u\<rparr>))) =
          make_id idx (s_listeners h)"
        using idx assms by (simp add: make_id_def upd_slot_def open_slot_def host_wf_def reg_ok_def)
      have "udp_wf ?u" using t n by (intro udp_recv_wf udp_bind_wf) auto
      moreover have "udp_pcbs ?u = p # udp_pcbs (h_udp h)" "pcb_free (h_udp h) = p # pcb_free ?u"
        using n nl bound(1) by (simp_all add: udp_recv_def)
      moreover have "pcb_at ?u = (pcb_at (h_udp h))(p := pcb_zero\<lparr>pcb_ttl := UDP_TTL, pcb_local_ip := ?a,
          pcb_local_port := port', pcb_recv := Udp_rx_callback idx\<rparr>)"
        using n bound(1) by (auto simp: udp_recv_def)
      moreover have "p \<notin> set (udp_pcbs (h_udp h))" using n by metis
      ultimately show ?thesis
        using opened [OF add [unfolded mk] \<open>first_idx _ _ = Some idx\<close> idx, of port'] bound(2,4,5) by simp
    qed
  qed
qed

lemma add_listener_wf [wf_intros]:
  assumes "host_wf h" and nif: "nif \<in> set (netif_list (h_net h))"
  shows "host_wf (snd (snd (udp_source_add_listener (Some nif) port h)))"
  using assms(1)
proof (cases rule: add_listener_cases [of h nif port])
  case (in_use p u q)
  then show ?thesis using assms(1) by (auto intro!: host_wf_cong_udp)
next
  case (opened idx p u port')
  let ?ls = "(s_listeners h)[idx := open_slot p nif (s_listeners h ! idx)]"
  have len: "length (s_listeners h) = UDP_MAX_LISTENERS" using assms(1) by (simp add: host_wf_def reg_ok_def)
  have slots: "slot_wf (h_net h) u k (?ls ! k)" if k: "k < UDP_MAX_LISTENERS" for k
  proof -
    have s: "slot_wf (h_net h) (h_udp h) k (s_listeners h ! k)" using assms(1) k by (simp add: host_wf_def)
    show ?thesis
    proof (cases "k = idx")
      case True
      with s nif len opened show ?thesis by (auto simp: slot_wf_def open_slot_def)
    next
      case False
      with s opened(6,7,9) show ?thesis by (auto simp: slot_wf_def split: if_splits)
    qed
  qed
  have "callbacks_wf u ?ls"
    unfolding callbacks_wf_def
  proof (intro ballI allI impI)
    fix r k assume r: "r \<in> set (udp_pcbs u)" "pcb_recv (pcb_at u r) = Udp_rx_callback k"
    show "k < UDP_MAX_LISTENERS \<and> ls_in_use (?ls ! k) \<and> ls_pcb (?ls ! k) = Some r"
    proof (cases "r = p")
      case True
      with r opened(9) have "k = idx" by simp
      with True opened(3) len show ?thesis by (simp add: open_slot_def)
    next
      case False
      with r opened(7,9) have "r \<in> set (udp_pcbs (h_udp h))" "pcb_recv (pcb_at (h_udp h) r) = Udp_rx_callback k"
        by auto
      with assms(1) have k: "k < UDP_MAX_LISTENERS" "ls_in_use (s_listeners h ! k)"
        "ls_pcb (s_listeners h ! k) = Some r" by (auto simp: host_wf_def callbacks_wf_def)
      with opened(4) have "k \<noteq> idx" by auto
      with k show ?thesis by simp
    qed
  qed
  then show ?thesis
    using assms(1) opened(1,5) slots len by (simp add: host_wf_def upd_slot_def reg_ok_def)
qed (use assms in simp_all)

section \<open>Capacity\<close>

text \<open>Control blocks in use that no slot owns, such as the locator's.\<close>

definition slot_pcbs :: "host_st \<Rightarrow> nat set" where
  "slot_pcbs h = (\<lambda>i. the (ls_pcb (s_listeners h ! i))) `
     {i. i < UDP_MAX_LISTENERS \<and> ls_in_use (s_listeners h ! i)}"

definition foreign_pcbs :: "host_st \<Rightarrow> nat set" where
  "foreign_pcbs h = owned_pcbs (h_udp h) - slot_pcbs h"

lemma finite_slot_pcbs [simp]: "finite (slot_pcbs h)"
  by (simp add: slot_pcbs_def)

lemma card_slot_pcbs: "card (slot_pcbs h) \<le> slots.load h"
  unfolding slot_pcbs_def slots.load_def by (rule card_image_le) simp

lemma pcb_available:
  assumes "host_wf h" and "card (foreign_pcbs h) \<le> MEMP_NUM_UDP_PCB - UDP_MAX_LISTENERS"
    and "slots.load h < UDP_MAX_LISTENERS"
  shows "pcb_free (h_udp h) \<noteq> []"
proof
  assume "pcb_free (h_udp h) = []"
  then have "card (owned_pcbs (h_udp h)) = MEMP_NUM_UDP_PCB" by (simp add: owned_pcbs_def)
  moreover have "card (owned_pcbs (h_udp h)) \<le> card (foreign_pcbs h \<union> slot_pcbs h)"
    by (intro card_mono) (auto simp: foreign_pcbs_def owned_pcbs_def)
  ultimately have "MEMP_NUM_UDP_PCB \<le> card (foreign_pcbs h) + card (slot_pcbs h)"
    using card_Un_le [of "foreign_pcbs h" "slot_pcbs h"] by linarith
  then show False using card_slot_pcbs [of h] assms(2,3) by (simp add: MEMP_NUM_UDP_PCB_def UDP_MAX_LISTENERS_def)
qed

section \<open>The receive box\<close>

text \<open>What a box holds, as the reader sees it.\<close>

definition box :: "udp_listener \<Rightarrow> (u32 \<times> u16 \<times> u8 list) option" where
  "box l = (let m = ls_rx_msg l in
     if rm_valid m then Some (rm_src_ip m, rm_src_port m, take (unat (rm_data_len m)) (rm_data m)) else None)"

lemma box_store:
  assumes "length (rm_data (ls_rx_msg l)) = UDP_RX_BUF_SIZE"
  shows "box (l\<lparr>ls_rx_msg := store_msg p addr port (ls_rx_msg l)\<rparr>) =
    Some (addr, port, take UDP_RX_BUF_SIZE (pbuf_bytes p))"
proof -
  let ?n = "min (pbuf_tot_len p) UDP_RX_BUF_SIZE"
  have n: "(if pbuf_tot_len p > UDP_RX_BUF_SIZE then UDP_RX_BUF_SIZE else pbuf_tot_len p) = ?n" by simp
  have u: "unat (of_nat ?n :: u16) = ?n" by (simp add: unat_of_nat UDP_RX_BUF_SIZE_def)
  have t: "take ?n (pbuf_bytes p) = take UDP_RX_BUF_SIZE (pbuf_bytes p)"
    by (cases "pbuf_tot_len p \<le> UDP_RX_BUF_SIZE") (simp_all add: pbuf_tot_len_bytes)
  have c: "pbuf_copy_partial p ?n 0 = take UDP_RX_BUF_SIZE (pbuf_bytes p)"
    by (simp add: pbuf_copy_partial_bytes t)
  have l: "length (take UDP_RX_BUF_SIZE (pbuf_bytes p)) = ?n" by (simp add: pbuf_tot_len_bytes)
  show ?thesis
    unfolding box_def store_msg_def Let_def n c
    using u l assms t by (simp add: put_bytes_def)
qed

text \<open>
  The callback fills an empty box with the sender and the first 256 bytes, and leaves a full box alone, counting
  the loss.
\<close>

lemma rx_callback_box:
  assumes "host_wf h" and "i < UDP_MAX_LISTENERS" and "ls_in_use (s_listeners h ! i)"
    and "udp_rx_callback i p addr port h = (freed, h')"
  shows "freed \<and>
    (case box (s_listeners h ! i) of
       None \<Rightarrow> box (s_listeners h' ! i) = Some (addr, port, take UDP_RX_BUF_SIZE (pbuf_bytes p)) \<and>
               ls_rx_drop_count (s_listeners h' ! i) = ls_rx_drop_count (s_listeners h ! i)
     | Some m \<Rightarrow> box (s_listeners h' ! i) = Some m \<and>
               ls_rx_drop_count (s_listeners h' ! i) = ls_rx_drop_count (s_listeners h ! i) + 1) \<and>
    (\<forall>j. j \<noteq> i \<longrightarrow> s_listeners h' ! j = s_listeners h ! j)"
proof -
  have len: "length (s_listeners h) = UDP_MAX_LISTENERS" using assms(1) by (simp add: host_wf_def reg_ok_def)
  have d: "length (rm_data (ls_rx_msg (s_listeners h ! i))) = UDP_RX_BUF_SIZE"
    using assms(1,2) by (simp add: host_wf_def slot_wf_def)
  show ?thesis
  proof (cases "rm_valid (ls_rx_msg (s_listeners h ! i))")
    case True
    with assms len show ?thesis by (auto simp: udp_rx_callback_def upd_slot_def box_def Let_def)
  next
    case False
    then have "box (s_listeners h ! i) = None" by (simp add: box_def Let_def)
    with False assms len box_store [OF d] show ?thesis by (auto simp: udp_rx_callback_def upd_slot_def)
  qed
qed

text \<open>The reader takes the message out and empties the box.\<close>

lemma poll_rx_box:
  assumes "host_wf h" and "resolve sid (s_listeners h) = Some i" and "udp_source_poll_rx sid h = (r, h')"
  shows "box (s_listeners h' ! i) = None \<and>
    map_option (\<lambda>m. (rm_src_ip m, rm_src_port m, take (unat (rm_data_len m)) (rm_data m))) r =
      box (s_listeners h ! i) \<and>
    ls_rx_count (s_listeners h' ! i) =
      ls_rx_count (s_listeners h ! i) + (if box (s_listeners h ! i) = None then 0 else 1) \<and>
    (\<forall>j. j \<noteq> i \<longrightarrow> s_listeners h' ! j = s_listeners h ! j)"
proof -
  have "i < length (s_listeners h)" using assms(1,2) by (simp add: resolve_iff host_wf_def reg_ok_def)
  with assms show ?thesis
    by (auto simp: udp_source_poll_rx_def upd_slot_def box_def Let_def split: if_splits)
qed

lemma upd_slot_wf:
  assumes "host_wf h" and "i < UDP_MAX_LISTENERS"
    and "\<And>l. ls_pcb (f l) = ls_pcb l" "\<And>l. ls_netif (f l) = ls_netif l" "\<And>l. ls_in_use (f l) = ls_in_use l"
    and "length (rm_data (ls_rx_msg (f (s_listeners h ! i)))) = UDP_RX_BUF_SIZE"
    and "rm_valid (ls_rx_msg (f (s_listeners h ! i))) \<Longrightarrow>
      unat (rm_data_len (ls_rx_msg (f (s_listeners h ! i)))) \<le> UDP_RX_BUF_SIZE"
  shows "host_wf (upd_slot i f h)"
proof -
  have len: "length (s_listeners h) = UDP_MAX_LISTENERS" using assms(1) by (simp add: host_wf_def reg_ok_def)
  let ?ls = "(s_listeners h)[i := f (s_listeners h ! i)]"
  have "slot_wf (h_net h) (h_udp h) k (?ls ! k)" if "k < UDP_MAX_LISTENERS" for k
  proof -
    have "slot_wf (h_net h) (h_udp h) k (s_listeners h ! k)" using assms(1) that by (simp add: host_wf_def)
    then show ?thesis using assms(2-7) len by (cases "k = i") (auto simp: slot_wf_def)
  qed
  moreover have "callbacks_wf (h_udp h) ?ls"
    using assms(1) len unfolding callbacks_wf_def host_wf_def
    by (metis assms(3,5) nth_list_update_eq nth_list_update_neq)
  ultimately show ?thesis using assms(1) len by (simp add: host_wf_def upd_slot_def reg_ok_def)
qed

lemma poll_rx_wf [wf_intros]: "host_wf h \<Longrightarrow> host_wf (snd (udp_source_poll_rx sid h))"
proof -
  assume h: "host_wf h"
  show ?thesis
  proof (cases "resolve sid (s_listeners h)")
    case (Some i)
    then have i: "i < UDP_MAX_LISTENERS" by (simp add: resolve_iff)
    have "host_wf (upd_slot i (\<lambda>l. l\<lparr>ls_rx_msg := (ls_rx_msg l)\<lparr>rm_valid := False\<rparr>, ls_rx_count := ls_rx_count l + 1\<rparr>) h)"
      using h i by (intro upd_slot_wf) (auto simp: host_wf_def slot_wf_def)
    with Some h show ?thesis by (simp add: udp_source_poll_rx_def Let_def)
  qed (simp add: udp_source_poll_rx_def h)
qed

lemma store_msg_len:
  "length (rm_data m) = UDP_RX_BUF_SIZE \<Longrightarrow>
   length (rm_data (store_msg p a q m)) = UDP_RX_BUF_SIZE \<and> unat (rm_data_len (store_msg p a q m)) \<le> UDP_RX_BUF_SIZE"
proof -
  assume m: "length (rm_data m) = UDP_RX_BUF_SIZE"
  let ?n = "if pbuf_tot_len p > UDP_RX_BUF_SIZE then UDP_RX_BUF_SIZE else pbuf_tot_len p"
  have n: "?n \<le> UDP_RX_BUF_SIZE" by simp
  then have "?n < 65536" by (simp add: UDP_RX_BUF_SIZE_def)
  then have "unat (of_nat ?n :: u16) = ?n" by (simp add: unat_of_nat)
  moreover have "length (pbuf_copy_partial p ?n 0) \<le> ?n" by (simp add: pbuf_copy_partial_bytes)
  ultimately show ?thesis using m n by (simp add: store_msg_def Let_def length_put_bytes)
qed

lemma rx_callback_wf [wf_intros]: "host_wf h \<Longrightarrow> host_wf (snd (udp_rx_callback i p a q h))"
proof -
  assume h: "host_wf h"
  show ?thesis
  proof (cases "i < UDP_MAX_LISTENERS \<and> ls_in_use (s_listeners h ! i)")
    case True
    then have s: "length (rm_data (ls_rx_msg (s_listeners h ! i))) = UDP_RX_BUF_SIZE"
      "rm_valid (ls_rx_msg (s_listeners h ! i)) \<Longrightarrow> unat (rm_data_len (ls_rx_msg (s_listeners h ! i))) \<le> UDP_RX_BUF_SIZE"
      using h by (auto simp: host_wf_def slot_wf_def)
    have "host_wf (upd_slot i (\<lambda>l. l\<lparr>ls_rx_drop_count := ls_rx_drop_count l + 1\<rparr>) h)"
      using h s True by (intro upd_slot_wf) auto
    moreover have "host_wf (upd_slot i (\<lambda>l. l\<lparr>ls_rx_msg := store_msg p a q (ls_rx_msg l)\<rparr>) h)"
      using h s True store_msg_len [OF s(1), of p a q] by (intro upd_slot_wf) auto
    ultimately show ?thesis using True by (simp add: udp_rx_callback_def)
  next
    case False
    then show ?thesis using h by (auto simp: udp_rx_callback_def)
  qed
qed

section \<open>Rebinding after an address change\<close>

lemma rebind_wf_aux:
  assumes "host_wf h" and "p \<in> set (udp_pcbs (h_udp h))"
  shows "host_wf (h\<lparr>h_udp := snd (udp_bind p a q (h_udp h))\<rparr>)"
proof -
  have wf: "udp_wf (h_udp h)" using assms(1) by (simp add: host_wf_def)
  show ?thesis
    using wf
  proof (cases rule: udp_bind_cases [of "h_udp h" p a q])
    case (bound port' up)
    have "p \<notin> set (pcb_free (h_udp h))" "p < MEMP_NUM_UDP_PCB"
      using wf assms(2) by (auto simp: udp_wf_def)
    then have "udp_wf (snd (udp_bind p a q (h_udp h)))" by (intro udp_bind_wf wf)
    with assms bound(1) show ?thesis by (intro host_wf_cong_udp) auto
  qed (use assms in simp)
qed

lemma rebind_loop_wf:
  "host_wf h \<Longrightarrow> set is \<subseteq> {..<UDP_MAX_LISTENERS} \<Longrightarrow> host_wf (rebind_loop nif is h)"
proof (induction nif "is" h rule: rebind_loop.induct)
  case (2 nif idx "is" h)
  let ?l = "s_listeners h ! idx"
  have "host_wf (case ls_pcb ?l of None \<Rightarrow> h
      | Some pcb \<Rightarrow> h\<lparr>h_udp := snd (udp_bind pcb (if_ip_addr (netifs (h_net h) nif))
          (pcb_local_port (pcb_at (h_udp h) pcb)) (h_udp h))\<rparr>)" if "slot_on nif ?l"
  proof -
    have "idx < UDP_MAX_LISTENERS" "ls_in_use ?l" using "2.prems"(2) that by (simp_all add: slot_on_def)
    then obtain p where "ls_pcb ?l = Some p" "p \<in> set (udp_pcbs (h_udp h))"
      using host_wf_slot [OF "2.prems"(1)] by metis
    then show ?thesis using rebind_wf_aux [OF "2.prems"(1)] by simp
  qed
  with "2.prems" "2.IH" show ?case by (simp add: Let_def)
qed simp

lemma netif_ip_changed_wf [wf_intros]: "host_wf h \<Longrightarrow> host_wf (udp_source_netif_ip_changed nif h)"
  using rebind_loop_wf [of h "[0..<UDP_MAX_LISTENERS]"]
  by (auto simp: udp_source_netif_ip_changed_def atLeast0LessThan split: option.splits)

text \<open>Rebinding touches nothing but the control blocks.\<close>

lemma rebind_loop_frame:
  "h_net (rebind_loop nif is h) = h_net h \<and> h_lib (rebind_loop nif is h) = h_lib h \<and>
   s_listeners (rebind_loop nif is h) = s_listeners h"
  by (induction nif "is" h rule: rebind_loop.induct) (auto simp: Let_def split: option.splits)

lemma netif_ip_changed_frame [frame_simps]:
  "h_net (udp_source_netif_ip_changed nif h) = h_net h" "h_lib (udp_source_netif_ip_changed nif h) = h_lib h"
  "s_listeners (udp_source_netif_ip_changed nif h) = s_listeners h"
  by (simp_all add: udp_source_netif_ip_changed_def rebind_loop_frame split: option.splits)

section \<open>Sending\<close>

lemma udp_sendto_if_bound:
  assumes "pcb_local_port (pcb_at (st_udp st) pcb) \<noteq> 0"
  shows "udp_sendto_if pcb p dst dport nif st =
    (fst (udp_send_bound (pcb_at (st_udp st) pcb) p dst dport nif (st_net st)),
     st\<lparr>st_net := snd (udp_send_bound (pcb_at (st_udp st) pcb) p dst dport nif (st_net st))\<rparr>)"
  using assms by (simp add: udp_sendto_if_def Let_def split: prod.splits)

lemma slot_port_bound:
  assumes "host_wf h" and "pcb \<in> set (udp_pcbs (h_udp h))"
  shows "pcb_local_port (pcb_at (h_udp h) pcb) \<noteq> 0"
  using assms by (simp add: host_wf_def udp_wf_def)

text \<open>Sending is the interface output of the bound control block; the registry does not change.\<close>

lemma data_send_cases [consumes 3, case_names no_mem sent]:
  assumes "host_wf h" and "data \<noteq> []" and "resolve sid (s_listeners h) = Some i"
  obtains (no_mem) l where
      "udp_source_data_send sid (Some nif) dst dport data h = (ERR_MEM, h\<lparr>h_net := (h_net h)\<lparr>ns_link := l\<rparr>\<rparr>)"
      "l = snd (link_alloc PBUF_TRANSPORT (length data) PBUF_RAM (ns_link (h_net h)))"
      "fst (link_alloc PBUF_TRANSPORT (length data) PBUF_RAM (ns_link (h_net h))) = None"
  | (sent) l pcb s net where
      "l = snd (link_alloc PBUF_TRANSPORT (length data) PBUF_RAM (ns_link (h_net h)))"
      "ls_pcb (s_listeners h ! i) = Some pcb" "pcb \<in> set (udp_pcbs (h_udp h))"
      "roomy 42 s" "ps_payload s = data" "net = (h_net h)\<lparr>ns_link := l\<rparr>"
      "udp_source_data_send sid (Some nif) dst dport data h =
        (fst (udp_send_bound (pcb_at (h_udp h) pcb) [s] dst dport nif net),
         h\<lparr>h_net := snd (udp_send_bound (pcb_at (h_udp h) pcb) [s] dst dport nif net)\<rparr>)"
proof -
  have i: "i < UDP_MAX_LISTENERS" "ls_in_use (s_listeners h ! i)" using assms(3) by (simp_all add: resolve_iff)
  obtain pcb where pcb: "ls_pcb (s_listeners h ! i) = Some pcb" "pcb \<in> set (udp_pcbs (h_udp h))"
    using host_wf_slot [OF assms(1) i] by metis
  note bound = slot_port_bound [OF assms(1) pcb(2)]
  obtain r l where a: "link_alloc PBUF_TRANSPORT (length data) PBUF_RAM (ns_link (h_net h)) = (r, l)"
    by (meson surj_pair)
  show ?thesis
  proof (cases r)
    case None
    then have "udp_source_data_send sid (Some nif) dst dport data h =
        (ERR_MEM, h\<lparr>h_net := (h_net h)\<lparr>ns_link := l\<rparr>\<rparr>)"
      using a assms(2,3) by (simp add: udp_source_data_send_def)
    then show ?thesis by (rule no_mem) (simp_all add: a None)
  next
    case (Some p)
    obtain s where put: "pbuf_put 0 data p = [s]" and data: "ps_payload s = data" and room: "roomy 42 s"
      using link_alloc_fill [of PBUF_TRANSPORT data _ p l 42] a Some by (auto simp: layer_offset_def)
    have send: "udp_source_data_send sid (Some nif) dst dport data h =
        (fst (udp_send_bound (pcb_at (h_udp h) pcb) [s] dst dport nif ((h_net h)\<lparr>ns_link := l\<rparr>)),
         h\<lparr>h_net := snd (udp_send_bound (pcb_at (h_udp h) pcb) [s] dst dport nif ((h_net h)\<lparr>ns_link := l\<rparr>))\<rparr>)"
    proof -
      let ?st = "\<lparr>st_net = (h_net h)\<lparr>ns_link := l\<rparr>, st_udp = h_udp h\<rparr>"
      have "udp_source_data_send sid (Some nif) dst dport data h =
          (let (e, st) = udp_sendto_if pcb [s] dst dport nif ?st in (e, h\<lparr>h_net := st_net st, h_udp := st_udp st\<rparr>))"
        unfolding udp_source_data_send_def assms(3) a Some prod.case option.case pcb(1) option.sel put
        using assms(2) by simp
      moreover have "pcb_local_port (pcb_at (st_udp ?st) pcb) \<noteq> 0" using bound by simp
      note udp_sendto_if_bound [OF this, of "[s]" dst dport nif]
      ultimately show ?thesis by simp
    qed
    show ?thesis by (rule sent [OF _ pcb room data _ send]) (simp_all add: a)
  qed
qed

lemma link_alloc_netif_wf:
  "netif_wf net \<Longrightarrow> netif_wf (net\<lparr>ns_link := snd (link_alloc layer k t (ns_link net))\<rparr>)"
  by (simp add: netif_wf_def arp_wf_def frame_simps)

text \<open>Changes of the interfaces' transmit side leave the registry invariant alone.\<close>

lemma host_wf_cong_net:
  assumes "host_wf h" and "netif_wf net" and "netifs net = netifs (h_net h)" "netif_list net = netif_list (h_net h)"
  shows "host_wf (h\<lparr>h_net := net\<rparr>)"
proof -
  have "slot_wf net (h_udp h) i (s_listeners h ! i)" if "i < UDP_MAX_LISTENERS" for i
  proof -
    have "slot_wf (h_net h) (h_udp h) i (s_listeners h ! i)" using assms(1) that by (simp add: host_wf_def)
    then show ?thesis unfolding slot_wf_def assms(4) .
  qed
  then show ?thesis using assms by (simp add: host_wf_def reg_ok_def alias_wf_def)
qed

lemma data_send_wf [wf_intros]:
  assumes "host_wf h" and "nif \<in> set (netif_list (h_net h))"
  shows "host_wf (snd (udp_source_data_send sid (Some nif) dst dport data h))"
proof (cases "data = [] \<or> resolve sid (s_listeners h) = None")
  case True
  then show ?thesis using assms(1) by (auto simp: udp_source_data_send_def split: option.splits)
next
  case False
  then obtain i where d: "data \<noteq> []" and i: "resolve sid (s_listeners h) = Some i" by auto
  have net: "netif_wf (h_net h)" using assms(1) by (simp add: host_wf_def)
  show ?thesis
    using assms(1) d i
  proof (cases rule: data_send_cases [of h data sid i nif dst dport])
    case (no_mem l)
    then show ?thesis using assms(1) link_alloc_netif_wf [OF net] by (simp add: host_wf_cong_net)
  next
    case (sent l pcb s net')
    have "netif_wf net'" "netif_list net' = netif_list (h_net h)" "netifs net' = netifs (h_net h)"
      using link_alloc_netif_wf [OF net] sent(1,6) by simp_all
    then show ?thesis
      using assms unfolding sent(7) by (simp add: host_wf_cong_net udp_send_bound_wf frame_simps)
  qed
qed

section \<open>Listing\<close>

definition slots_on :: "netif_ptr \<Rightarrow> udp_listener list \<Rightarrow> nat list" where
  "slots_on nif ls = filter (\<lambda>i. slot_on nif (ls ! i)) [0..<UDP_MAX_LISTENERS]"

lemma get_socket_loop_nth:
  "k \<le> n \<Longrightarrow> get_socket_loop nif n k is ls =
    (let on = filter (\<lambda>i. slot_on nif (ls ! i)) is in if n - k < length on then Some (on ! (n - k)) else None)"
proof (induction nif n k "is" ls rule: get_socket_loop.induct)
  case (2 nif n k idx "is" ls)
  show ?case
  proof (cases "slot_on nif (ls ! idx) \<and> n \<noteq> k")
    case True
    then obtain d where "n - k = Suc d" "n - (k + 1) = d" using "2.prems" by (cases "n - k") auto
    with True 2 show ?thesis by (simp add: Let_def)
  next
    case False
    with 2 show ?thesis by (auto simp: Let_def)
  qed
qed simp

lemma count_sockets_length:
  "reg_ok h \<Longrightarrow> udp_source_count_sockets (Some nif) h = length (slots_on nif (s_listeners h))"
  using filter_map [of "slot_on nif" "(!) (s_listeners h)" "[0..<UDP_MAX_LISTENERS]"]
    map_nth [of "s_listeners h"]
  by (simp add: udp_source_count_sockets_def slots_on_def reg_ok_def comp_def)

lemma slots_on_nth:
  assumes "n < length (slots_on nif ls)"
  shows "slots_on nif ls ! n < UDP_MAX_LISTENERS" "slot_on nif (ls ! (slots_on nif ls ! n))"
  using nth_mem [OF assms] by (auto simp: slots_on_def)

lemma get_socket_in_range:
  assumes "reg_ok h" and "n < udp_source_count_sockets (Some nif) h"
  obtains i where "i = slots_on nif (s_listeners h) ! n" "i < UDP_MAX_LISTENERS" "slot_on nif (s_listeners h ! i)"
    "udp_source_get_socket (Some nif) n h =
      \<lparr>si_netif = Some nif, si_local_port = slot_port h (s_listeners h ! i),
       si_socket_id = make_id i (s_listeners h)\<rparr>"
proof -
  have n: "n < length (slots_on nif (s_listeners h))" using assms count_sockets_length by simp
  from n slots_on_nth [OF n] that show ?thesis
    by (simp add: udp_source_get_socket_def get_socket_loop_nth slots_on_def Let_def)
qed

lemma get_socket_past_end:
  assumes "reg_ok h" and "udp_source_count_sockets (Some nif) h \<le> n"
  shows "udp_source_get_socket (Some nif) n h = no_socket"
  using assms by (simp add: count_sockets_length udp_source_get_socket_def get_socket_loop_nth slots_on_def Let_def)

lemma resolve_make_id:
  "i < UDP_MAX_LISTENERS \<Longrightarrow> ls_in_use (ls ! i) \<Longrightarrow> resolve (make_id i ls) ls = Some i"
  by (simp add: resolve_iff make_id_encode)

lemma make_id_valid: "i < UDP_MAX_LISTENERS \<Longrightarrow> make_id i ls \<noteq> UDP_SOCK_ID_INVALID"
proof
  assume i: "i < UDP_MAX_LISTENERS" and eq: "make_id i ls = UDP_SOCK_ID_INVALID"
  have "unat (make_id i ls AND 0xff) = i"
    using i by (simp add: make_id_encode sock_encode_mk16 mk16_low unat_low UDP_MAX_LISTENERS_def)
  moreover have "unat (UDP_SOCK_ID_INVALID AND 0xff) = 255" by (simp add: UDP_SOCK_ID_INVALID_def)
  ultimately show False using eq i by (simp add: UDP_MAX_LISTENERS_def)
qed

text \<open>Opening a free slot adds it to the sockets of its interface, in the order of the slots.\<close>

lemma slots_on_open:
  assumes "i < length ls" and "length ls = UDP_MAX_LISTENERS" and "\<not> ls_in_use (ls ! i)"
  shows "slots_on nif (ls[i := open_slot p nif (ls ! i)]) = sort (i # slots_on nif ls)"
proof (rule sorted_distinct_set_unique)
  have on: "slot_on nif (ls[i := open_slot p nif (ls ! i)] ! k) \<longleftrightarrow> k = i \<or> slot_on nif (ls ! k)" for k
    using assms(1) by (cases "k = i") (auto simp: slot_on_def open_slot_def)
  have "\<not> slot_on nif (ls ! i)" using assms(3) by (simp add: slot_on_def)
  then show "distinct (sort (i # slots_on nif ls))" unfolding distinct_sort by (simp add: slots_on_def)
  show "set (slots_on nif (ls[i := open_slot p nif (ls ! i)])) = set (sort (i # slots_on nif ls))"
    unfolding set_sort using assms(1,2) by (auto simp: slots_on_def on)
qed (simp_all add: slots_on_def sorted_wrt_filter del: sort_key_simps)

section \<open>Start-up\<close>

text \<open>
  The zero-initialised statics of the C program, with an allocator whose coming outcomes and junk are given, and the
  start-up calls of \<open>EMAC_LwIP_Main\<close>.
\<close>

definition arp_entry_zero :: etharp_entry where
  "arp_entry_zero = \<lparr>ae_q = None, ae_ipaddr = 0, ae_netif = None, ae_ethaddr = ethzero,
     ae_state = ETHARP_STATE_EMPTY, ae_ctime = 0\<rparr>"

definition net_zero :: "mem_st \<Rightarrow> net_st" where
  "net_zero m = \<lparr>ns_link = \<lparr>arp_table = replicate ARP_TABLE_SIZE arp_entry_zero, etharp_cached_entry = 0, lk_mem = m,
     lk_tx = [], lk_fault = False\<rparr>, netifs = (\<lambda>_. netif_zero), netif_list = [], netif_default = None,
     netif_num = 0, tcp_active_ips = [], tcp_listen_ips = [], ip_id = 0, ns_cyclic = False\<rparr>"

definition udp_zero :: udp_st where
  "udp_zero = \<lparr>udp_pcbs = [], pcb_at = (\<lambda>_. pcb_zero), pcb_free = [], udp_port = UDP_LOCAL_PORT_RANGE_START\<rparr>"

definition lib_zero :: lib_st where
  "lib_zero = \<lparr>alias_used = replicate MAX_ALIAS_NETIF False, lwIPCoreReady = False,
     hdkif_mac = (\<lambda>_. replicate 6 0)\<rparr>"

definition listener_zero :: udp_listener where
  "listener_zero = \<lparr>ls_pcb = None, ls_netif = None, ls_rx_msg = \<lparr>rm_src_ip = 0, rm_src_port = 0,
     rm_data = replicate UDP_RX_BUF_SIZE 0, rm_data_len = 0, rm_valid = False\<rparr>, ls_rx_count = 0,
     ls_rx_drop_count = 0, ls_generation = 0, ls_in_use = False\<rparr>"

definition host_start :: "u8 list \<Rightarrow> u32 \<Rightarrow> u32 \<Rightarrow> u32 \<Rightarrow> phy_st \<Rightarrow> mem_st \<Rightarrow> host_st" where
  "host_start mac ip_ana netmask_ana gateway_ana phy m =
     (let (lib, u) = lwIPCoreInit 0 mac lib_zero udp_zero;
          (anaIpAddr, net) = lwIPNetifAdd 0 ip_ana netmask_ana gateway_ana True phy lib (net_zero m)
      in \<lparr>h_net = net, h_udp = u, h_lib = lib, s_listeners = replicate UDP_MAX_LISTENERS listener_zero\<rparr>)"

lemma net_zero_wf: "netif_wf (net_zero m)"
proof -
  have "entry_wf arp_entry_zero" "\<not> active arp_entry_zero"
    by (simp_all add: entry_wf_def active_def arp_entry_zero_def ethzero_def)
  then show ?thesis
    by (simp add: netif_wf_def net_zero_def arp_wf_def arp_tab_wf_def ARP_TABLE_SIZE_def)
qed

lemma host_start_wf: "host_wf (host_start mac a m g phy mem)" "netif_list (h_net (host_start mac a m g phy mem)) = [Hdk 0]"
proof -
  obtain lib u where c: "lwIPCoreInit 0 mac lib_zero udp_zero = (lib, u)" by (meson surj_pair)
  have lib: "lwIPCoreReady lib" "alias_used lib = replicate MAX_ALIAS_NETIF False" "u = memp_init udp_zero"
    using c by (auto simp: lwIPCoreInit_def lib_zero_def hdkif_macaddrset_def)
  obtain r net where n: "lwIPNetifAdd 0 a m g True phy lib (net_zero mem) = (r, net)" by (meson surj_pair)
  have "netif_wf net \<and> alias_wf lib net \<and> r = a \<and> netif_list net = [Hdk 0]"
    using netifadd_wf [OF net_zero_wf _ lib(1,2) _ n] by (simp add: net_zero_def netif_zero_def)
  moreover have "udp_wf u"
    by (auto simp: lib(3) udp_wf_def memp_init_def udp_zero_def bindings_unique_def port_in_range_def)
  ultimately show "host_wf (host_start mac a m g phy mem)" "netif_list (h_net (host_start mac a m g phy mem)) = [Hdk 0]"
    using c n lib(3) by (auto simp: host_start_def host_wf_def reg_ok_def slot_wf_def listener_zero_def callbacks_wf_def
        memp_init_def udp_zero_def)
qed

text \<open>The addresses that the firmware is configured with, on a board whose PHY comes up.\<close>

definition boot_host :: host_st where
  "boot_host = host_start [2, 0, 0, 0, 0, 1] 0x0a00000a 0xffffff00 0x0a000001
     \<lparr>phy_alive = True, phy_autoneg = True\<rparr> \<lparr>ms_alloc = [], ms_junk = (\<lambda>_. 0)\<rparr>"

lemma boot_host_wf: "host_wf boot_host"
  unfolding boot_host_def by (rule host_start_wf(1))

section \<open>Properties\<close>

text \<open>
  C6: opening a socket on an interface of the list has exactly these outcomes. On success the socket has a valid
  identifier different from \<open>UDP_SOCK_ID_INVALID\<close>, the requested port or an ephemeral one, and is one more socket of
  its interface; the other slots are as before. \<open>ERR_USE\<close> means that an active control block is bound to a
  conflicting address and port, and \<open>ERR_MEM\<close> that all slots or all control blocks are in use; in both cases the
  registry and the set of control blocks in use are as before, so nothing leaks.
\<close>

theorem add_listener_outcomes:
  assumes "host_wf h" and "nif \<in> set (netif_list (h_net h))"
    and "udp_source_add_listener (Some nif) port h = (e, sid, h')"
  shows "(e = ERR_OK \<and> (\<exists>i s. sid = Some s \<and> s \<noteq> UDP_SOCK_ID_INVALID \<and> resolve s (s_listeners h) = None \<and>
            resolve s (s_listeners h') = Some i \<and> box (s_listeners h' ! i) = None \<and>
            udp_source_get_local_port s h' \<noteq> 0 \<and>
            (if port = 0 then port_in_range (udp_source_get_local_port s h')
             else udp_source_get_local_port s h' = port) \<and>
            slots_on nif (s_listeners h') = sort (i # slots_on nif (s_listeners h)) \<and>
            s_listeners h' = (s_listeners h)[i := s_listeners h' ! i])) \<or>
         (e = ERR_USE \<and> sid = None \<and> s_listeners h' = s_listeners h \<and> owned_pcbs (h_udp h') = owned_pcbs (h_udp h) \<and>
            (\<exists>p q. q \<in> set (udp_pcbs (h_udp h)) \<and>
               bind_conflict (h_udp h) p (if_ip_addr (netifs (h_net h) nif)) port q)) \<or>
         (e = ERR_MEM \<and> sid = None \<and> h' = h \<and>
            ((\<forall>i < UDP_MAX_LISTENERS. ls_in_use (s_listeners h ! i)) \<or> pcb_free (h_udp h) = []))"
  using assms(1)
proof (cases rule: add_listener_cases [of h nif port])
  case full
  with assms(3) show ?thesis by simp
next
  case no_pcb
  with assms(3) show ?thesis by simp
next
  case (in_use p u q)
  with assms(3) show ?thesis by (auto simp: owned_pcbs_def)
next
  case (opened i p u port')
  let ?l = "open_slot p nif (s_listeners h ! i)"
  have len: "length (s_listeners h) = UDP_MAX_LISTENERS" using assms(1) by (simp add: host_wf_def reg_ok_def)
  have h': "e = ERR_OK" "sid = Some (make_id i (s_listeners h))" "h' = upd_slot i (open_slot p nif) (h\<lparr>h_udp := u\<rparr>)"
    using opened(1) assms(3) by simp_all
  have ls: "s_listeners h' = (s_listeners h)[i := ?l]" by (simp add: h'(3) upd_slot_def)
  have id: "make_id i (s_listeners h) = make_id i (s_listeners h')"
    using len opened(3) by (simp add: ls make_id_def open_slot_def)
  have r: "resolve (make_id i (s_listeners h)) (s_listeners h') = Some i"
    unfolding id using len opened(3) by (intro resolve_make_id) (simp_all add: ls open_slot_def)
  have "resolve (make_id i (s_listeners h)) (s_listeners h) = None"
    using sock.stale_rejected [OF opened(3), of h h] opened(4) by (simp add: handle_make_id)
  moreover have "udp_source_get_local_port (make_id i (s_listeners h)) h' = port'"
    using r len opened(3,9) by (simp add: udp_source_get_local_port_def slot_port_def ls h'(3) upd_slot_def open_slot_def)
  moreover have "slots_on nif (s_listeners h') = sort (i # slots_on nif (s_listeners h))"
    using slots_on_open [of i "s_listeners h" nif p] len opened(3,4) by (simp add: ls)
  moreover have "box (s_listeners h' ! i) = None" using len opened(3) by (simp add: ls box_def open_slot_def)
  moreover have "s_listeners h' = (s_listeners h)[i := s_listeners h' ! i]" using len opened(3) by (simp add: ls)
  ultimately show ?thesis
    using h'(1,2) r make_id_valid [OF opened(3), of "s_listeners h"] opened(10-12) by auto
qed

theorem add_listener_outcomes_witness:
  "\<exists>h'. udp_source_add_listener (Some (Hdk 0)) 5000 boot_host = (ERR_OK, Some 0, h') \<and>
     udp_source_get_local_port 0 h' = 5000 \<and> slots_on (Hdk 0) (s_listeners h') = [0]"
proof -
  obtain e sid h' where r: "udp_source_add_listener (Some (Hdk 0)) 5000 boot_host = (e, sid, h')"
    by (cases "udp_source_add_listener (Some (Hdk 0)) 5000 boot_host")
  have "fst (udp_source_add_listener (Some (Hdk 0)) 5000 boot_host) = ERR_OK"
    "fst (snd (udp_source_add_listener (Some (Hdk 0)) 5000 boot_host)) = Some 0" by code_simp+
  then have e: "e = ERR_OK" "sid = Some 0" by (simp_all add: r)
  have on: "slots_on (Hdk 0) (s_listeners boot_host) = []" by code_simp
  have "Hdk 0 \<in> set (netif_list (h_net boot_host))" by code_simp
  from add_listener_outcomes [OF boot_host_wf this r] e on obtain i where
    i: "resolve 0 (s_listeners h') = Some i" "udp_source_get_local_port 0 h' = 5000"
      "slots_on (Hdk 0) (s_listeners h') = [i]" by auto
  then have "i = 0" by (simp add: resolve_def Let_def split: if_splits)
  with i r e show ?thesis by simp
qed

text \<open>
  C23: the registry can hold its full sixteen sockets. As long as the other users of the UDP pool hold at most four
  control blocks, opening a socket fails for lack of memory only when all sixteen slots are in use.
\<close>

theorem add_listener_capacity:
  assumes "host_wf h" and "card (foreign_pcbs h) \<le> MEMP_NUM_UDP_PCB - UDP_MAX_LISTENERS"
  shows "fst (udp_source_add_listener (Some nif) port h) = ERR_MEM \<longleftrightarrow>
    (\<forall>i \<in> {..<UDP_MAX_LISTENERS}. ls_in_use (s_listeners h ! i))"
proof -
  have ok: "reg_ok h" using assms(1) by (simp add: host_wf_def)
  have full: "slots.load h = UDP_MAX_LISTENERS \<longleftrightarrow> (\<forall>i \<in> {..<UDP_MAX_LISTENERS}. ls_in_use (s_listeners h ! i))"
    using slots.load_full [of h] by auto
  have le: "slots.load h \<le> UDP_MAX_LISTENERS" by (rule slots.load_le)
  show ?thesis
  proof (cases "slots.load h = UDP_MAX_LISTENERS")
    case True
    then have "first_idx (\<lambda>l. \<not> ls_in_use l) (s_listeners h) = None" using slots.refuses_iff_full [OF ok] by simp
    then have "fst (udp_source_add_listener (Some nif) port h) = ERR_MEM" by (simp add: udp_source_add_listener_def)
    with True full show ?thesis by blast
  next
    case False
    then have "pcb_free (h_udp h) \<noteq> []" using pcb_available [OF assms] le by simp
    moreover have "\<not> (\<forall>i < UDP_MAX_LISTENERS. ls_in_use (s_listeners h ! i))" using False full by auto
    ultimately have "fst (udp_source_add_listener (Some nif) port h) \<noteq> ERR_MEM"
      by (cases rule: add_listener_cases [OF assms(1), of nif port]) auto
    with False full show ?thesis by blast
  qed
qed

theorem add_listener_capacity_witness:
  "fst (udp_source_add_listener (Some (Hdk 0)) 7 boot_host) \<noteq> ERR_MEM"
proof -
  have "pcb_free (h_udp boot_host) = rev [0..<MEMP_NUM_UDP_PCB]" by code_simp
  then have "foreign_pcbs boot_host = {}" by (auto simp: foreign_pcbs_def owned_pcbs_def)
  moreover have "\<not> ls_in_use (s_listeners boot_host ! 0)" by code_simp
  then have "\<not> (\<forall>i \<in> {..<UDP_MAX_LISTENERS}. ls_in_use (s_listeners boot_host ! i))"
    by (auto simp: UDP_MAX_LISTENERS_def)
  ultimately show ?thesis using add_listener_capacity [OF boot_host_wf, of "Hdk 0" 7] by simp
qed

text \<open>
  The receive box against its specification: a buffer for one message. A message that arrives while the buffer is
  full is lost and counted.
\<close>

datatype box_ev = Arrive pbuf u32 u16 | Poll

type_synonym box_msg = "u32 \<times> u16 \<times> u8 list"

definition msg_view :: "udp_rx_msg \<Rightarrow> box_msg" where
  "msg_view m = (rm_src_ip m, rm_src_port m, take (unat (rm_data_len m)) (rm_data m))"

fun run_box :: "udp_sock_id \<Rightarrow> nat \<Rightarrow> box_ev list \<Rightarrow> host_st \<Rightarrow> box_msg option list \<times> host_st" where
  "run_box sid i [] h = ([], h)"
| "run_box sid i (Arrive p a q # es) h = run_box sid i es (snd (udp_rx_callback i p a q h))"
| "run_box sid i (Poll # es) h =
     (let (r, h) = udp_source_poll_rx sid h; (rs, h) = run_box sid i es h in (map_option msg_view r # rs, h))"

fun spec_box :: "box_ev list \<Rightarrow> box_msg option \<Rightarrow> u32 \<Rightarrow> box_msg option list \<times> box_msg option \<times> u32" where
  "spec_box [] b d = ([], b, d)"
| "spec_box (Arrive p a q # es) b d =
     (case b of None \<Rightarrow> spec_box es (Some (a, q, take UDP_RX_BUF_SIZE (pbuf_bytes p))) d
      | Some m \<Rightarrow> spec_box es b (d + 1))"
| "spec_box (Poll # es) b d = (let (rs, b', d') = spec_box es None d in (b # rs, b', d'))"

lemma upd_slot_resolve:
  assumes "\<And>l. ls_in_use (f l) = ls_in_use l" "\<And>l. ls_generation (f l) = ls_generation l"
  shows "resolve sid (s_listeners (upd_slot i f h)) = resolve sid (s_listeners h)"
proof -
  have "ls_in_use (s_listeners (upd_slot i f h) ! k) = ls_in_use (s_listeners h ! k) \<and>
      ls_generation (s_listeners (upd_slot i f h) ! k) = ls_generation (s_listeners h ! k)" for k
    using assms by (cases "i < length (s_listeners h)") (auto simp: upd_slot_def nth_list_update list_update_beyond)
  then show ?thesis by (simp add: resolve_def Let_def)
qed

text \<open>Identifiers stay valid while messages arrive and are read.\<close>

lemma rx_callback_resolve [simp]:
  "resolve sid (s_listeners (snd (udp_rx_callback i p a q h))) = resolve sid (s_listeners h)"
  by (simp add: udp_rx_callback_def upd_slot_resolve)

lemma poll_rx_resolve [simp]:
  "resolve sid (s_listeners (snd (udp_source_poll_rx sid' h))) = resolve sid (s_listeners h)"
  by (simp add: udp_source_poll_rx_def Let_def upd_slot_resolve split: option.splits)

lemma poll_rx_drop_count:
  assumes "reg_ok h"
  shows "ls_rx_drop_count (s_listeners (snd (udp_source_poll_rx sid h)) ! k) = ls_rx_drop_count (s_listeners h ! k)"
proof -
  have "ls_rx_drop_count (s_listeners (upd_slot j (\<lambda>l. l\<lparr>ls_rx_msg := g l, ls_rx_count := ls_rx_count l + 1\<rparr>) h) ! k) =
      ls_rx_drop_count (s_listeners h ! k)" for j g
    by (cases "j < length (s_listeners h)") (auto simp: upd_slot_def nth_list_update list_update_beyond)
  then show ?thesis by (simp add: udp_source_poll_rx_def Let_def split: option.splits)
qed

text \<open>
  C8: the receive box of a socket refines the one-message buffer: for every interleaving of arriving datagrams and
  reads, the reads return what the specification returns, and the box and the loss counter end as specified.
\<close>

theorem mailbox_refines:
  assumes "host_wf h" and "resolve sid (s_listeners h) = Some i" and "run_box sid i es h = (rs, h')"
  shows "spec_box es (box (s_listeners h ! i)) (ls_rx_drop_count (s_listeners h ! i)) =
    (rs, box (s_listeners h' ! i), ls_rx_drop_count (s_listeners h' ! i))"
  using assms
proof (induction es arbitrary: h rs)
  case Nil
  then show ?case by simp
next
  case (Cons ev es)
  have i: "i < UDP_MAX_LISTENERS" "ls_in_use (s_listeners h ! i)" using Cons.prems(2) by (simp_all add: resolve_iff)
  show ?case
  proof (cases ev)
    case (Arrive p a q)
    obtain fr h1 where h1: "udp_rx_callback i p a q h = (fr, h1)" by (meson surj_pair)
    have wf: "host_wf h1" using rx_callback_wf [OF Cons.prems(1), of i p a q] h1 by simp
    have id: "resolve sid (s_listeners h1) = Some i" using rx_callback_resolve [of sid i p a q h] h1 Cons.prems(2) by simp
    have "run_box sid i es h1 = (rs, h')" using Cons.prems(3) Arrive h1 by simp
    from Cons.IH [OF wf id this] rx_callback_box [OF Cons.prems(1) i h1] Arrive show ?thesis
      by (auto split: option.splits)
  next
    case Poll
    obtain r h1 where h1: "udp_source_poll_rx sid h = (r, h1)" by (meson surj_pair)
    have wf: "host_wf h1" using poll_rx_wf [OF Cons.prems(1), of sid] h1 by simp
    have id: "resolve sid (s_listeners h1) = Some i" using poll_rx_resolve [of sid sid h] h1 Cons.prems(2) by simp
    obtain rs' where rs': "run_box sid i es h1 = (rs', h')" "rs = map_option msg_view r # rs'"
      using Cons.prems(3) Poll h1 by (auto split: prod.splits)
    have "reg_ok h" using Cons.prems(1) by (simp add: host_wf_def)
    then have d: "ls_rx_drop_count (s_listeners h1 ! i) = ls_rx_drop_count (s_listeners h ! i)"
      using poll_rx_drop_count [of h sid i] h1 by simp
    have v: "msg_view = (\<lambda>m. (rm_src_ip m, rm_src_port m, take (unat (rm_data_len m)) (rm_data m)))"
      by (rule ext) (simp add: msg_view_def)
    from Cons.IH [OF wf id rs'(1)] poll_rx_box [OF Cons.prems(1,2) h1] Poll rs' d show ?thesis
      by (simp add: v)
  qed
qed

definition boot_socket :: host_st where
  "boot_socket = snd (snd (udp_source_add_listener (Some (Hdk 0)) 5000 boot_host))"

lemma boot_socket_wf: "host_wf boot_socket"
proof -
  have "Hdk 0 \<in> set (netif_list (h_net boot_host))" by code_simp
  then show ?thesis unfolding boot_socket_def by (rule add_listener_wf [OF boot_host_wf])
qed

theorem mailbox_refines_witness:
  "fst (run_box 0 0
     [Poll, Arrive [\<lparr>ps_type = PBUF_POOL, ps_hidden = [], ps_payload = [1, 2]\<rparr>] 7 9,
      Arrive [\<lparr>ps_type = PBUF_POOL, ps_hidden = [], ps_payload = [3]\<rparr>] 7 9, Poll, Poll] boot_socket) =
   [None, Some (7, 9, [1, 2]), None]"
proof -
  let ?es = "[Poll, Arrive [\<lparr>ps_type = PBUF_POOL, ps_hidden = [], ps_payload = [1, 2]\<rparr>] 7 9,
    Arrive [\<lparr>ps_type = PBUF_POOL, ps_hidden = [], ps_payload = [3]\<rparr>] 7 9, Poll, Poll]"
  obtain rs h' where r: "run_box 0 0 ?es boot_socket = (rs, h')" by (meson surj_pair)
  have "resolve 0 (s_listeners boot_socket) = Some 0" by code_simp
  note m = mailbox_refines [OF boot_socket_wf this r]
  have "box (s_listeners boot_socket ! 0) = None" by code_simp
  with m have "rs = fst (spec_box ?es None (ls_rx_drop_count (s_listeners boot_socket ! 0)))" by simp
  then show ?thesis using r by (simp add: UDP_RX_BUF_SIZE_def)
qed

text \<open>
  C24: the indices \<open>0 .. count - 1\<close> list every open socket of an interface exactly once, with its port and an
  identifier that resolves to it, and every index past the count gives the invalid entry.
\<close>

theorem sockets_listed:
  assumes "host_wf h"
  shows "map (\<lambda>j. udp_source_get_socket (Some nif) j h) [0..<udp_source_count_sockets (Some nif) h] =
      map (\<lambda>i. \<lparr>si_netif = Some nif, si_local_port = slot_port h (s_listeners h ! i),
                si_socket_id = make_id i (s_listeners h)\<rparr>) (slots_on nif (s_listeners h)) \<and>
    (\<forall>i \<in> set (slots_on nif (s_listeners h)). resolve (make_id i (s_listeners h)) (s_listeners h) = Some i) \<and>
    (\<forall>j \<ge> udp_source_count_sockets (Some nif) h. udp_source_get_socket (Some nif) j h = no_socket)"
proof (intro conjI ballI allI impI)
  have ok: "reg_ok h" using assms by (simp add: host_wf_def)
  show "map (\<lambda>j. udp_source_get_socket (Some nif) j h) [0..<udp_source_count_sockets (Some nif) h] =
      map (\<lambda>i. \<lparr>si_netif = Some nif, si_local_port = slot_port h (s_listeners h ! i),
                si_socket_id = make_id i (s_listeners h)\<rparr>) (slots_on nif (s_listeners h))"
  proof (rule nth_equalityI)
    fix j assume "j < length (map (\<lambda>j. udp_source_get_socket (Some nif) j h) [0..<udp_source_count_sockets (Some nif) h])"
    then have j: "j < udp_source_count_sockets (Some nif) h" by simp
    then show "map (\<lambda>j. udp_source_get_socket (Some nif) j h) [0..<udp_source_count_sockets (Some nif) h] ! j =
        map (\<lambda>i. \<lparr>si_netif = Some nif, si_local_port = slot_port h (s_listeners h ! i),
          si_socket_id = make_id i (s_listeners h)\<rparr>) (slots_on nif (s_listeners h)) ! j"
      using get_socket_in_range [OF ok j] by (auto simp: count_sockets_length [OF ok])
  qed (simp add: count_sockets_length [OF ok])
  fix i assume "i \<in> set (slots_on nif (s_listeners h))"
  then show "resolve (make_id i (s_listeners h)) (s_listeners h) = Some i"
    by (intro resolve_make_id) (auto simp: slots_on_def slot_on_def)
next
  fix j assume "udp_source_count_sockets (Some nif) h \<le> j"
  then show "udp_source_get_socket (Some nif) j h = no_socket"
    using assms by (intro get_socket_past_end) (simp_all add: host_wf_def)
qed

theorem sockets_listed_witness:
  "map (\<lambda>j. si_local_port (udp_source_get_socket (Some (Hdk 0)) j boot_socket))
     [0..<udp_source_count_sockets (Some (Hdk 0)) boot_socket] = [5000]"
proof -
  have on: "slots_on (Hdk 0) (s_listeners boot_socket) = [0]" "slot_port boot_socket (s_listeners boot_socket ! 0) = 5000"
    by code_simp+
  show ?thesis
    using arg_cong [OF conjunct1 [OF sockets_listed [OF boot_socket_wf, of "Hdk 0"]], of "map si_local_port"]
    by (simp add: on comp_def)
qed

text \<open>The frame that a send on a bound socket puts on the wire.\<close>

lemma data_send_frame:
  assumes "host_wf h" and nif: "nif \<in> set (netif_list (h_net h))" and sid: "resolve sid (s_listeners h) = Some i"
    and pcb: "ls_pcb (s_listeners h ! i) = Some pcb" "pcb_local_ip (pcb_at (h_udp h) pcb) = if_ip_addr (netifs (h_net h) nif)"
      "pcb_flags (pcb_at (h_udp h) pcb) AND UDP_FLAGS_NOCHKSUM = 0"
    and data: "data \<noteq> []" "length data \<le> 1472" and mem: "ms_alloc (lk_mem (ns_link (h_net h))) = []"
    and dst: "\<not> ip4_addr_isbroadcast dst (netifs (h_net h) nif)" "\<not> ip_addr_ismulticast dst"
      "next_hop (netifs (h_net h) nif) dst = Some hop" "etharp_find_addr hop (ns_link (h_net h)) = Some (k, mac)"
      "ae_ctime (arp_table (ns_link (h_net h)) ! k) < ARP_AGE_REREQUEST_USED"
    and send: "udp_source_data_send sid (Some nif) dst dport data h = (e, h')"
  shows "e = ERR_OK \<and> (\<exists>inst. if_state (netifs (h_net h) nif) = Some inst \<and>
    lk_tx (ns_link (h_net h')) = lk_tx (ns_link (h_net h)) @
      [wire_frame inst (ip_frame (netifs (h_net h) nif) mac
        (ip_packet (netifs (h_net h) nif) (if_ip_addr (netifs (h_net h) nif)) dst
          (pcb_ttl (pcb_at (h_udp h) pcb)) (pcb_tos (pcb_at (h_udp h) pcb)) IP_PROTO_UDP (ip_id (h_net h))
          (udp_datagram (if_ip_addr (netifs (h_net h) nif)) dst (udp_source_get_local_port sid h) dport data)))])"
  using assms(1) data(1) sid
proof (cases rule: data_send_cases [of h data sid i nif dst dport])
  case (no_mem l)
  obtain p l' where "link_alloc PBUF_TRANSPORT (length data) PBUF_RAM (ns_link (h_net h)) = (Some p, l')"
    using link_alloc_succeeds [OF mem] .
  with no_mem(3) show ?thesis by simp
next
  case (sent l pcb' s net)
  let ?c = "pcb_at (h_udp h) pcb" and ?l = "ns_link (h_net h)"
  have l: "arp_table l = arp_table ?l" "lk_tx l = lk_tx ?l" using sent(1) by (simp_all add: frame_simps)
  have net: "netif_wf net" "nif \<in> set (netif_list net)" "netifs net = netifs (h_net h)" "ip_id net = ip_id (h_net h)"
    using link_alloc_netif_wf [of "h_net h" PBUF_TRANSPORT "length data" PBUF_RAM] assms(1) sent(1,6) nif
    by (simp_all add: host_wf_def)
  have nl: "ns_link net = l" using sent(6) by simp
  have hit: "etharp_find_addr hop (ns_link net) = Some (k, mac)"
    "ae_ctime (arp_table (ns_link net) ! k) < ARP_AGE_REREQUEST_USED"
    using dst(4,5) unfolding nl find_addr_cong [OF l(1)] l(1) .
  have ps: "length (ps_payload s) \<le> 65507" using data(2) sent(5) by simp
  have "pcb' = pcb" using sent(2) pcb(1) by simp
  have port: "udp_source_get_local_port sid h = pcb_local_port ?c"
    using sid pcb(1) by (simp add: udp_source_get_local_port_def slot_port_def)
  show ?thesis
    using udp_send_bound_delivers [OF net(1,2) sent(4) ps, of ?c dst hop k mac dport] pcb(2,3) dst(1-3) hit net(3,4)
      sent(5,6,7) send l(2) port \<open>pcb' = pcb\<close>
    by auto
qed

text \<open>
  C7: sending on a socket puts the datagram on the wire. For a socket bound to the address of the interface, a
  destination whose next hop is in the ARP table, and data that fit an Ethernet frame, the call returns \<open>ERR_OK\<close> and
  the driver gets exactly one more frame: the IP packet, with its header checksum, from the interface's address to the
  destination, holding the UDP datagram with the two ports, its checksum and the data.
\<close>

theorem data_send_delivers:
  assumes "host_wf h" and nif: "nif \<in> set (netif_list (h_net h))" and sid: "resolve sid (s_listeners h) = Some i"
    and pcb: "ls_pcb (s_listeners h ! i) = Some pcb" "pcb_local_ip (pcb_at (h_udp h) pcb) = if_ip_addr (netifs (h_net h) nif)"
      "pcb_flags (pcb_at (h_udp h) pcb) AND UDP_FLAGS_NOCHKSUM = 0"
    and data: "data \<noteq> []" "length data \<le> 1472" and mem: "ms_alloc (lk_mem (ns_link (h_net h))) = []"
    and dst: "\<not> ip4_addr_isbroadcast dst (netifs (h_net h) nif)" "\<not> ip_addr_ismulticast dst"
      "next_hop (netifs (h_net h) nif) dst = Some hop" "etharp_find_addr hop (ns_link (h_net h)) = Some (k, mac)"
      "ae_ctime (arp_table (ns_link (h_net h)) ! k) < ARP_AGE_REREQUEST_USED"
    and send: "udp_source_data_send sid (Some nif) dst dport data h = (e, h')"
  shows "e = ERR_OK \<and> (\<exists>inst. if_state (netifs (h_net h) nif) = Some inst \<and>
    lk_tx (ns_link (h_net h')) = lk_tx (ns_link (h_net h)) @
      [wire_frame inst (ip_frame (netifs (h_net h) nif) mac
        (ip_packet (netifs (h_net h) nif) (if_ip_addr (netifs (h_net h) nif)) dst
          (pcb_ttl (pcb_at (h_udp h) pcb)) (pcb_tos (pcb_at (h_udp h) pcb)) IP_PROTO_UDP (ip_id (h_net h))
          (udp_datagram (if_ip_addr (netifs (h_net h) nif)) dst (udp_source_get_local_port sid h) dport data)))])"
  using assms by (rule data_send_frame)

text \<open>The station 10.0.0.5 has been learned.\<close>

definition boot_known :: host_st where
  "boot_known = boot_socket\<lparr>h_net := (h_net boot_socket)\<lparr>ns_link :=
     snd (etharp_update_arp_entry (Hdk 0) (netifs (h_net boot_socket) (Hdk 0)) 0x0a000005 [2, 0, 0, 0, 0, 5]
       ETHARP_FLAG_TRY_HARD (ns_link (h_net boot_socket)))\<rparr>\<rparr>"

lemma boot_known_wf: "host_wf boot_known"
proof -
  have "arp_wf (ns_link (h_net boot_socket))" using boot_socket_wf by (simp add: host_wf_def netif_wf_def)
  then have "arp_wf (ns_link (h_net boot_known))"
    unfolding boot_known_def by (auto intro: etharp_update_wf)
  moreover have "lk_fault (ns_link (h_net boot_known)) = False" by code_simp
  ultimately have "netif_wf (h_net boot_known)"
    using boot_socket_wf by (simp add: host_wf_def netif_wf_def boot_known_def)
  then show ?thesis
    using host_wf_cong_net [OF boot_socket_wf, of "h_net boot_known"] by (simp add: boot_known_def)
qed

theorem data_send_delivers_witness:
  "\<exists>fr. lk_tx (ns_link (h_net (snd (udp_source_data_send 0 (Some (Hdk 0)) 0x0a000005 7 [1, 2, 3] boot_known)))) =
     lk_tx (ns_link (h_net boot_known)) @ [fr] \<and>
   fst (udp_source_data_send 0 (Some (Hdk 0)) 0x0a000005 7 [1, 2, 3] boot_known) = ERR_OK"
proof -
  obtain e h' where s: "udp_source_data_send 0 (Some (Hdk 0)) 0x0a000005 7 [1, 2, 3] boot_known = (e, h')"
    by (meson surj_pair)
  have hyps: "Hdk 0 \<in> set (netif_list (h_net boot_known))" "resolve 0 (s_listeners boot_known) = Some 0"
    "ls_pcb (s_listeners boot_known ! 0) = Some 19"
    "pcb_local_ip (pcb_at (h_udp boot_known) 19) = if_ip_addr (netifs (h_net boot_known) (Hdk 0))"
    "pcb_flags (pcb_at (h_udp boot_known) 19) AND UDP_FLAGS_NOCHKSUM = 0"
    "ms_alloc (lk_mem (ns_link (h_net boot_known))) = []"
    "\<not> ip4_addr_isbroadcast 0x0a000005 (netifs (h_net boot_known) (Hdk 0))" "\<not> ip_addr_ismulticast 0x0a000005"
    "next_hop (netifs (h_net boot_known) (Hdk 0)) 0x0a000005 = Some 0x0a000005"
    "etharp_find_addr 0x0a000005 (ns_link (h_net boot_known)) = Some (0, [2, 0, 0, 0, 0, 5])"
    "ae_ctime (arp_table (ns_link (h_net boot_known)) ! 0) < ARP_AGE_REREQUEST_USED"
    by code_simp+
  have "e = ERR_OK \<and> (\<exists>fr. lk_tx (ns_link (h_net h')) = lk_tx (ns_link (h_net boot_known)) @ [fr])"
    using data_send_delivers [OF boot_known_wf hyps(1-5) _ _ hyps(6-11) s] by auto
  then show ?thesis using s by simp
qed

end
