(* ===== verification/Net_Manager.thy ===== *)
theory Net_Manager
  imports Udp_Source
begin

text \<open>
  The coordination layer (\<open>src/net_manager.c\<close>): an alias interface is added through the pool of \<open>lwiplib\<close>, and is
  removed only after the sockets that are open on it. The order of the two calls is what keeps the registry
  invariant: a slot in use always refers to an interface of the list.
\<close>

section \<open>Operations\<close>

text \<open>The three pointers are options, NULL being \<open>None\<close>.\<close>

definition net_if_add :: "u32 option \<Rightarrow> u32 option \<Rightarrow> u32 option \<Rightarrow> host_st \<Rightarrow> err_t \<times> host_st" where
  "net_if_add ip_addr net_mask gw h =
     (case (ip_addr, net_mask, gw) of
        (Some a, Some m, Some g) \<Rightarrow>
          (let (r, lib, net) = lwIPAliasAdd 0 (ntohl a) (ntohl m) (ntohl g) (h_lib h) (h_net h);
               h = h\<lparr>h_lib := lib, h_net := net\<rparr>
           in if r = 0 then (ERR_MEM, h) else (ERR_OK, h))
      | _ \<Rightarrow> (ERR_VAL, h))"

definition net_if_remove :: "netif_ptr option \<Rightarrow> host_st \<Rightarrow> err_t \<times> host_st" where
  "net_if_remove netif h =
     (case netif of
        None \<Rightarrow> (ERR_VAL, h)
      | Some nif \<Rightarrow>
         if nif = lwIPNetifPtrGet 0 then (ERR_VAL, h)
         else
           (let h = udp_source_remove_all_on_netif (Some nif) h;
                (lib, net) = lwIPAliasRemove (Some nif) (h_lib h) (h_net h)
            in (ERR_OK, h\<lparr>h_lib := lib, h_net := net\<rparr>)))"

section \<open>Adding\<close>

text \<open>The sockets keep their interface when the list of interfaces does not lose it.\<close>

lemma host_wf_cong_lib:
  assumes "host_wf h" and "netif_wf net" and "alias_wf lib net"
    and "\<And>i nif. i < UDP_MAX_LISTENERS \<Longrightarrow> ls_in_use (s_listeners h ! i) \<Longrightarrow>
      ls_netif (s_listeners h ! i) = Some nif \<Longrightarrow> nif \<in> set (netif_list net)"
  shows "host_wf (h\<lparr>h_lib := lib, h_net := net\<rparr>)"
proof -
  have "slot_wf net (h_udp h) i (s_listeners h ! i)" if "i < UDP_MAX_LISTENERS" for i
  proof -
    have "slot_wf (h_net h) (h_udp h) i (s_listeners h ! i)" using assms(1) that by (simp add: host_wf_def)
    with assms(4) [OF that] show ?thesis by (auto simp: slot_wf_def split: if_splits)
  qed
  then show ?thesis using assms(1-3) by (simp add: host_wf_def reg_ok_def)
qed

lemma slot_netif_listed:
  assumes "host_wf h" and "i < UDP_MAX_LISTENERS" and "ls_in_use (s_listeners h ! i)"
    and "ls_netif (s_listeners h ! i) = Some nif"
  shows "nif \<in> set (netif_list (h_net h))"
  using host_wf_slot [OF assms(1-3)] assms(4) by (metis option.inject)

lemma net_if_add_cases [consumes 1, case_names full added]:
  assumes "host_wf h"
  obtains (full) "net_if_add (Some a) (Some m) (Some g) h = (ERR_MEM, h)"
      "alias_count (h_lib h) = MAX_ALIAS_NETIF"
  | (added) idx net lib where
      "net_if_add (Some a) (Some m) (Some g) h =
        (if a = 0 then ERR_MEM else ERR_OK, h\<lparr>h_lib := lib, h_net := net\<rparr>)"
      "first_idx Not (alias_used (h_lib h)) = Some idx" "idx < MAX_ALIAS_NETIF"
      "Alias idx \<notin> set (netif_list (h_net h))" "netif_list net = Alias idx # netif_list (h_net h)"
      "lib = (h_lib h)\<lparr>alias_used := (alias_used (h_lib h))[idx := True]\<rparr>"
      "if_ip_addr (netifs net (Alias idx)) = a" "if_netmask (netifs net (Alias idx)) = m"
      "if_gw (netifs net (Alias idx)) = g" "shares_driver (netifs net (Alias idx)) (netifs (h_net h) (Hdk 0))"
      "\<forall>p. p \<noteq> Alias idx \<longrightarrow> netifs net p = netifs (h_net h) p"
      "netif_default net = netif_default (h_net h)"
proof -
  let ?lib = "h_lib h" and ?net = "h_net h"
  have wf: "netif_wf ?net" "alias_wf ?lib ?net" using assms by (simp_all add: host_wf_def)
  then have rdy: "lwIPCoreReady ?lib" by (simp add: alias_wf_def)
  show ?thesis
  proof (cases "first_idx Not (alias_used ?lib)")
    case None
    then have "net_if_add (Some a) (Some m) (Some g) h = (ERR_MEM, h)"
      using rdy by (simp add: net_if_add_def lwIPAliasAdd_def)
    then show ?thesis using full None alias_add_full [OF wf(2)] by blast
  next
    case (Some idx)
    from first_idx_SomeD [OF Some] wf(2) have idx: "idx < MAX_ALIAS_NETIF" "\<not> alias_used ?lib ! idx"
      by (auto simp: alias_wf_def)
    then have new: "Alias idx \<notin> set (netif_list ?net)" using wf(2) by (simp add: alias_wf_def)
    obtain ok n1 where 1: "netif_add (Alias idx) a m g None (hdkif_alias_init (Some (netifs ?net (Hdk 0)))) ?net = (ok, n1)"
      by (meson surj_pair)
    note n1 = alias_netif_add [OF wf new 1]
    let ?net' = "netif_set_up (Alias idx) n1"
      and ?lib' = "?lib\<lparr>alias_used := (alias_used ?lib)[idx := True]\<rparr>"
    have add: "lwIPAliasAdd 0 a m g ?lib ?net = (if_ip_addr (netifs ?net' (Alias idx)), ?lib', ?net')"
      using rdy Some 1 n1 by (simp add: lwIPAliasAdd_def Let_def)
    have addr: "if_ip_addr (netifs ?net' (Alias idx)) = a" "if_netmask (netifs ?net' (Alias idx)) = m"
      "if_gw (netifs ?net' (Alias idx)) = g" "netif_list ?net' = Alias idx # netif_list ?net"
      "netif_default ?net' = netif_default ?net"
      using n1 by (simp_all add: netif_set_up_def Let_def frame_simps)
    have "\<forall>p. p \<noteq> Alias idx \<longrightarrow> netifs ?net' p = netifs ?net p"
      using n1 by (auto simp: netif_set_up_def Let_def frame_simps)
    then show ?thesis
      by (intro added [where idx = idx and net = "?net'" and lib = ?lib'])
        (use add addr Some idx new n1 in \<open>simp_all add: net_if_add_def netif_set_up_driver\<close>)
  qed
qed

lemma net_if_add_wf [wf_intros]:
  assumes "host_wf h"
  shows "host_wf (snd (net_if_add a m g h))"
proof (cases "\<exists>x y z. a = Some x \<and> m = Some y \<and> g = Some z")
  case True
  then obtain x y z where ams: "a = Some x" "m = Some y" "g = Some z" by blast
  obtain r lib net where r: "lwIPAliasAdd 0 x y z (h_lib h) (h_net h) = (r, lib, net)"
    by (cases "lwIPAliasAdd 0 x y z (h_lib h) (h_net h)")
  have net: "netif_wf net" "alias_wf lib net"
    using alias_add_wf [OF _ _ r] assms by (simp_all add: host_wf_def)
  have eq: "h_net (snd (net_if_add (Some x) (Some y) (Some z) h)) = net"
    using r by (simp add: net_if_add_def Let_def)
  have "set (netif_list (h_net h)) \<subseteq> set (netif_list net)"
    using assms by (cases rule: net_if_add_cases [of h x y z]) (use eq in auto)
  then have "host_wf (h\<lparr>h_lib := lib, h_net := net\<rparr>)"
    using assms net by (intro host_wf_cong_lib) (auto dest: slot_netif_listed)
  with r show ?thesis by (simp add: ams net_if_add_def Let_def)
qed (use assms in \<open>auto simp: net_if_add_def split: option.splits\<close>)

section \<open>Removing\<close>

lemma net_if_remove_wf [wf_intros]:
  assumes "host_wf h"
  shows "host_wf (snd (net_if_remove nif h))"
proof (cases "nif = None \<or> nif = Some (Hdk 0)")
  case True
  then show ?thesis using assms by (auto simp: net_if_remove_def lwIPNetifPtrGet_def)
next
  case False
  then obtain p where p: "nif = Some p" "p \<noteq> Hdk 0" by auto
  let ?h = "udp_source_remove_all_on_netif (Some p) h"
  have h: "host_wf ?h" using assms by (rule remove_all_wf)
  obtain lib net where r: "lwIPAliasRemove (Some p) (h_lib ?h) (h_net ?h) = (lib, net)" by (meson surj_pair)
  have net: "netif_wf net" "alias_wf lib net" using alias_remove_wf [OF _ _ r] h by (simp_all add: host_wf_def)
  have sub: "set (netif_list (h_net ?h)) - {p} \<subseteq> set (netif_list net)"
    using r h netif_remove_list [of "h_net ?h" p]
    by (auto simp: lwIPAliasRemove_def host_wf_def split: netif_ptr.splits if_splits)
  have "host_wf (?h\<lparr>h_lib := lib, h_net := net\<rparr>)"
  proof (rule host_wf_cong_lib [OF h net])
    fix i q assume q: "i < UDP_MAX_LISTENERS" "ls_in_use (s_listeners ?h ! i)" "ls_netif (s_listeners ?h ! i) = Some q"
    have ok: "reg_ok h" using assms by (simp add: host_wf_def)
    have "\<not> slot_on p (s_listeners ?h ! i)"
      using remove_all_slots [OF ok q(1), of p] by (auto simp: slot_on_def)
    then have "q \<noteq> p" using q by (simp add: slot_on_def)
    moreover have "q \<in> set (netif_list (h_net ?h))" using q by (rule slot_netif_listed [OF h])
    ultimately show "q \<in> set (netif_list net)" using sub by auto
  qed
  then show ?thesis using p r by (simp add: net_if_remove_def lwIPNetifPtrGet_def Let_def)
qed

lemma net_if_remove_alias:
  assumes "host_wf h" and "Alias i \<in> set (netif_list (h_net h))" and "net_if_remove (Some (Alias i)) h = (e, h')"
  shows "e = ERR_OK \<and> set (netif_list (h_net h')) = set (netif_list (h_net h)) - {Alias i} \<and>
    \<not> alias_used (h_lib h') ! i \<and>
    (\<forall>k < UDP_MAX_LISTENERS. s_listeners h' ! k =
       (if slot_on (Alias i) (s_listeners h ! k) then clear_slot (s_listeners h ! k) else s_listeners h ! k))"
proof -
  let ?h = "udp_source_remove_all_on_netif (Some (Alias i)) h"
  have ok: "reg_ok h" and wf: "netif_wf (h_net h)" and al: "alias_wf (h_lib h) (h_net h)"
    using assms(1) by (simp_all add: host_wf_def)
  have i: "i < length (alias_used (h_lib h))" "alias_used (h_lib h) ! i"
    using al assms(2) by (simp_all add: alias_wf_def)
  have h': "e = ERR_OK" "h' = ?h\<lparr>h_lib := (h_lib h)\<lparr>alias_used := (alias_used (h_lib h))[i := False]\<rparr>,
      h_net := netif_remove (Alias i) (h_net h)\<rparr>"
    using assms(3) i by (simp_all add: net_if_remove_def lwIPNetifPtrGet_def lwIPAliasRemove_def
        remove_all_frame [OF ok])
  show ?thesis
    unfolding h' using i remove_all_slots [OF ok] netif_remove_list [OF wf] by simp
qed

section \<open>Properties\<close>

text \<open>
  C20: adding an interface, for every address. When the seven aliases are in use, it reports \<open>ERR_MEM\<close> and nothing changes.
  Otherwise the interface is added: the new alias, in the first free slot, heads the interface list with the given address, mask
  and gateway, and it shares the driver state, output functions and hardware address of the physical interface, so that
  its frames leave through the same controller; no other interface changes. The report is then \<open>ERR_OK\<close> except for
  the address 0.0.0.0, where it is \<open>ERR_MEM\<close> although the interface was added: the code takes the address that
  \<open>lwIPAliasAdd\<close> returns for a success code.
\<close>

theorem net_if_add_outcomes:
  assumes "host_wf h" and "net_if_add (Some a) (Some m) (Some g) h = (e, h')"
  shows "host_wf h' \<and>
    e = (if alias_count (h_lib h) = MAX_ALIAS_NETIF \<or> a = 0 then ERR_MEM else ERR_OK) \<and>
    (if alias_count (h_lib h) = MAX_ALIAS_NETIF then h' = h
     else (\<exists>i < MAX_ALIAS_NETIF.
       first_idx Not (alias_used (h_lib h)) = Some i \<and> alias_used (h_lib h') = (alias_used (h_lib h))[i := True] \<and>
       Alias i \<notin> set (netif_list (h_net h)) \<and> netif_list (h_net h') = Alias i # netif_list (h_net h) \<and>
       if_ip_addr (netifs (h_net h') (Alias i)) = a \<and> if_netmask (netifs (h_net h') (Alias i)) = m \<and>
       if_gw (netifs (h_net h') (Alias i)) = g \<and>
       shares_driver (netifs (h_net h') (Alias i)) (netifs (h_net h') (Hdk 0)) \<and>
       (\<forall>p. p \<noteq> Alias i \<longrightarrow> netifs (h_net h') p = netifs (h_net h) p)))"
proof -
  have wf: "host_wf h'" using net_if_add_wf [OF assms(1), of "Some a" "Some m" "Some g"] assms(2) by simp
  show ?thesis
    using assms(1)
  proof (cases rule: net_if_add_cases [of h a m g])
    case full
    with wf assms(2) show ?thesis by simp
  next
    case (added idx net lib)
    have "alias_count (h_lib h) \<noteq> MAX_ALIAS_NETIF"
      using added(2) alias_add_full [of "h_lib h" "h_net h"] assms(1) by (simp add: host_wf_def)
    with wf added assms(2) show ?thesis by auto
  qed
qed

theorem net_if_add_outcomes_witness:
  "netif_list (h_net (snd (net_if_add (Some 0x0a000014) (Some 0xffffff00) (Some 0x0a000001) boot_host))) =
   [Alias 0, Hdk 0]"
proof -
  obtain e h' where r: "net_if_add (Some 0x0a000014) (Some 0xffffff00) (Some 0x0a000001) boot_host = (e, h')"
    by (meson surj_pair)
  have none: "alias_used (h_lib boot_host) = replicate 7 False" by code_simp
  then have "alias_count (h_lib boot_host) = 0"
    unfolding alias_count_def by (auto simp only: MAX_ALIAS_NETIF_def nth_replicate card_eq_0_iff)
  then obtain i where i: "netif_list (h_net h') = Alias i # netif_list (h_net boot_host)"
    using net_if_add_outcomes [OF boot_host_wf r] by (auto simp: MAX_ALIAS_NETIF_def)
  have "netif_list (h_net (snd (net_if_add (Some 0x0a000014) (Some 0xffffff00) (Some 0x0a000001) boot_host))) =
    [Alias 0, Hdk 0]" by code_simp
  with i r show ?thesis by simp
qed

text \<open>
  C5: removing an alias interface closes exactly the sockets that are open on it and gives their control blocks back;
  the sockets of other interfaces keep their identifiers. Afterwards no socket refers to the removed interface.
\<close>

theorem net_if_remove_cascade:
  assumes "host_wf h" and "Alias i \<in> set (netif_list (h_net h))" and "net_if_remove (Some (Alias i)) h = (e, h')"
  shows "e = ERR_OK \<and> host_wf h' \<and> set (netif_list (h_net h')) = set (netif_list (h_net h)) - {Alias i} \<and>
    udp_source_count_sockets (Some (Alias i)) h' = 0 \<and>
    (\<forall>sid. resolve sid (s_listeners h') =
       (case resolve sid (s_listeners h) of None \<Rightarrow> None
        | Some k \<Rightarrow> if slot_on (Alias i) (s_listeners h ! k) then None else Some k))"
proof -
  have wf: "host_wf h'" using net_if_remove_wf [OF assms(1), of "Some (Alias i)"] assms(3) by simp
  note r = net_if_remove_alias [OF assms]
  have ok: "reg_ok h'" using wf by (simp add: host_wf_def)
  have "slots_on (Alias i) (s_listeners h') = []"
    using r by (auto simp: slots_on_def filter_empty_conv slot_on_def)
  then have "udp_source_count_sockets (Some (Alias i)) h' = 0" by (simp add: count_sockets_length [OF ok])
  moreover have "resolve sid (s_listeners h') =
       (case resolve sid (s_listeners h) of None \<Rightarrow> None
        | Some k \<Rightarrow> if slot_on (Alias i) (s_listeners h ! k) then None else Some k)" for sid
  proof -
    let ?k = "unat (sid AND 0xff)"
    have "s_listeners h' ! ?k = (if slot_on (Alias i) (s_listeners h ! ?k) then clear_slot (s_listeners h ! ?k)
        else s_listeners h ! ?k)" if "?k < UDP_MAX_LISTENERS" using r that by blast
    then show ?thesis by (cases "slot_on (Alias i) (s_listeners h ! ?k)") (auto simp: resolve_def Let_def)
  qed
  ultimately show ?thesis using wf r by blast
qed

text \<open>Two sockets, one on the physical interface and one on an alias.\<close>

definition boot_two :: host_st where
  "boot_two = snd (snd (udp_source_add_listener (Some (Alias 0)) 6000
     (snd (net_if_add (Some 0x0a000014) (Some 0xffffff00) (Some 0x0a000001) boot_socket))))"

lemma boot_two_wf: "host_wf boot_two"
proof -
  let ?h = "snd (net_if_add (Some 0x0a000014) (Some 0xffffff00) (Some 0x0a000001) boot_socket)"
  have "host_wf ?h" by (rule net_if_add_wf [OF boot_socket_wf])
  moreover have "Alias 0 \<in> set (netif_list (h_net ?h))" by code_simp
  ultimately show ?thesis unfolding boot_two_def by (rule add_listener_wf)
qed

theorem net_if_remove_cascade_witness:
  "resolve 0 (s_listeners (snd (net_if_remove (Some (Alias 0)) boot_two))) = Some 0 \<and>
   resolve 1 (s_listeners boot_two) = Some 1 \<and>
   resolve 1 (s_listeners (snd (net_if_remove (Some (Alias 0)) boot_two))) = None"
proof -
  obtain e h' where r: "net_if_remove (Some (Alias 0)) boot_two = (e, h')" by (meson surj_pair)
  have "Alias 0 \<in> set (netif_list (h_net boot_two))" by code_simp
  note c = net_if_remove_cascade [OF boot_two_wf this r]
  have "resolve 0 (s_listeners boot_two) = Some 0" "resolve 1 (s_listeners boot_two) = Some 1"
    "\<not> slot_on (Alias 0) (s_listeners boot_two ! 0)" "slot_on (Alias 0) (s_listeners boot_two ! 1)" by code_simp+
  with c r show ?thesis by simp
qed

text \<open>The physical interface is never removed, whatever the state: the call is refused and changes nothing.\<close>

theorem net_if_remove_physical:
  "net_if_remove (Some (lwIPNetifPtrGet 0)) h = (ERR_VAL, h)"
  by (simp add: net_if_remove_def)

end
