(* ===== verification/Alias_Filter.thy ===== *)
theory Alias_Filter
  imports Net_Manager
begin

text \<open>
  The receive filter (\<open>src/netif_alias_filter.c\<close>): all frames arrive on the one physical interface; the filter, which
  \<open>ethernet_input\<close> calls as \<open>LWIP_ARP_FILTER_NETIF_FN\<close>, reads the destination address of the IP or ARP packet and
  picks the alias interface that owns it.
\<close>

section \<open>The filter\<close>

definition SIZEOF_ETHARP_HDR :: nat where "SIZEOF_ETHARP_HDR = 28"

text \<open>The destination address, when the first buffer holds enough of the packet.\<close>

definition frame_target :: "pbuf \<Rightarrow> u16 \<Rightarrow> u32 option" where
  "frame_target p type =
     (if type = ETHTYPE_IP then
        (if pbuf_len p \<ge> SIZEOF_ETH_HDR + IP_HLEN
         then Some (get32 (ps_payload (hd p)) (SIZEOF_ETH_HDR + 16)) else None)
      else if type = ETHTYPE_ARP then
        (if pbuf_len p \<ge> SIZEOF_ETH_HDR + SIZEOF_ETHARP_HDR
         then Some (get32 (ps_payload (hd p)) (SIZEOF_ETH_HDR + 24)) else None)
      else None)"

definition filter_match :: "u32 \<Rightarrow> netif \<Rightarrow> bool" where
  "filter_match dest_ip n \<longleftrightarrow>
     netif_is_up n \<and> if_flags n AND NETIF_FLAG_LINK_UP \<noteq> 0 \<and> dest_ip = if_ip_addr n"

definition netif_alias_route_filter :: "pbuf option \<Rightarrow> netif_ptr option \<Rightarrow> u16 \<Rightarrow> net_st \<Rightarrow> netif_ptr option" where
  "netif_alias_route_filter p def_netif type net =
     (case (p, def_netif) of
        (Some p, Some d) \<Rightarrow>
          (case frame_target p type of
             None \<Rightarrow> Some d
           | Some dest_ip \<Rightarrow>
              if dest_ip = if_ip_addr (netifs net d) then Some d
              else if ip4_addr_isbroadcast dest_ip (netifs net d) \<or> ip_addr_ismulticast dest_ip then Some d
              else
                (case find (\<lambda>n. filter_match dest_ip (netifs net n)) (netif_list net) of
                   Some n \<Rightarrow> Some n
                 | None \<Rightarrow> Some d))
      | _ \<Rightarrow> def_netif)"

section \<open>Results\<close>

text \<open>The filter leaves the default interface only for one that is up and owns the destination.\<close>

lemma filter_sound:
  assumes "netif_alias_route_filter (Some p) (Some d) type net = Some n"
  shows "n = d \<or> (n \<in> set (netif_list net) \<and> frame_target p type = Some (if_ip_addr (netifs net n)) \<and>
    filter_match (if_ip_addr (netifs net n)) (netifs net n))"
  using assms
  by (auto simp: netif_alias_route_filter_def filter_match_def find_Some_iff split: option.splits if_splits)

lemma filter_total: "\<exists>n. netif_alias_route_filter p (Some d) type net = Some n"
  by (auto simp: netif_alias_route_filter_def split: option.splits)

text \<open>A unicast destination that an interface in service owns is routed to an interface that owns it.\<close>

lemma filter_complete:
  assumes "frame_target p type = Some a" and "n \<in> set (netif_list net)" and "filter_match a (netifs net n)"
    and "\<not> ip4_addr_isbroadcast a (netifs net d)" and "\<not> ip_addr_ismulticast a"
  obtains m where "netif_alias_route_filter (Some p) (Some d) type net = Some m" "if_ip_addr (netifs net m) = a"
proof (cases "a = if_ip_addr (netifs net d)")
  case True
  with assms(1) that show ?thesis by (simp add: netif_alias_route_filter_def)
next
  case False
  have "find (\<lambda>n. filter_match a (netifs net n)) (netif_list net) \<noteq> None"
    using assms(2,3) by (auto simp: find_None_iff)
  then obtain m where m: "find (\<lambda>n. filter_match a (netifs net n)) (netif_list net) = Some m" by blast
  then have "if_ip_addr (netifs net m) = a" by (auto simp: find_Some_iff filter_match_def)
  with m False assms(1,4,5) that show ?thesis by (simp add: netif_alias_route_filter_def)
qed

end
