(* ===== verification/C_Library.thy ===== *)
theory C_Library
  imports Ip_Addr
begin

text \<open>
  The parts of the C library that the terminal uses: decimal and hexadecimal conversion (\<open>%u\<close>, \<open>%02x\<close>), \<open>atoi\<close>, the
  directives \<open>%d\<close>, \<open>%Ns\<close> and \<open>%n\<close> of \<open>sscanf\<close>, and C strings. The standard leaves the value of a decimal number that
  does not fit an \<open>int\<close> undefined: the parameter \<open>cvt\<close> gives the value stored for the number that was written, and
  \<open>cvt_ok\<close> says that it is exact where it must be.
\<close>

section \<open>Strings and numbers\<close>

definition cstr :: "string \<Rightarrow> string" where
  "cstr s = takeWhile (\<lambda>c. c \<noteq> CHR 0x00) s"

fun dec :: "nat \<Rightarrow> string" where
  "dec n = (if n < 10 then [digit_chr n] else dec (n div 10) @ [digit_chr (n mod 10)])"

declare dec.simps [simp del]

definition hex_digit :: "nat \<Rightarrow> char" where
  "hex_digit d = (if d < 10 then char_of (48 + d) else char_of (87 + d))"

definition hex2 :: "u8 \<Rightarrow> string" where
  "hex2 b = [hex_digit (unat b div 16), hex_digit (unat b mod 16)]"

definition digits_value :: "string \<Rightarrow> nat" where
  "digits_value ds = foldl (\<lambda>v c. v * 10 + (chr_code c - 48)) 0 ds"

definition cvt_ok :: "(int \<Rightarrow> int) \<Rightarrow> bool" where
  "cvt_ok cvt \<longleftrightarrow> (\<forall>x \<in> {- 2147483648..2147483647}. cvt x = x)"

section \<open>Conversions\<close>

text \<open>An optional sign and the digits, with the rest of the input.\<close>

definition scan_sign :: "string \<Rightarrow> bool \<times> string" where
  "scan_sign s = (case s of
      [] \<Rightarrow> (False, [])
    | c # cs \<Rightarrow> if c = CHR ''-'' then (True, cs) else if c = CHR ''+'' then (False, cs) else (False, s))"

definition scan_number :: "(int \<Rightarrow> int) \<Rightarrow> string \<Rightarrow> (int \<times> string) option" where
  "scan_number cvt s =
     (let (neg, s) = scan_sign (dropWhile isspace s); ds = takeWhile isdigit s in
      if ds = [] then None
      else Some (cvt (if neg then - int (digits_value ds) else int (digits_value ds)), dropWhile isdigit s))"

definition atoi :: "(int \<Rightarrow> int) \<Rightarrow> string \<Rightarrow> int" where
  "atoi cvt s = (case scan_number cvt s of None \<Rightarrow> 0 | Some (v, _) \<Rightarrow> v)"

text \<open>\<open>%Ns\<close>: skips white space and takes at most \<open>N\<close> characters that are not white space, at least one.\<close>

definition scan_s :: "nat \<Rightarrow> string \<Rightarrow> (string \<times> string) option" where
  "scan_s n s =
     (let s = dropWhile isspace s; t = take n (takeWhile (\<lambda>c. \<not> isspace c) s) in
      if t = [] then None else Some (t, drop (length t) s))"

section \<open>Reading back what was printed\<close>

lemma isspace_digit: "isdigit c \<Longrightarrow> \<not> isspace c"
  by (auto simp: isdigit_def isspace_def in_range_def chr_code_def)

lemma dec_digits: "c \<in> set (dec n) \<Longrightarrow> isdigit c"
  by (induction n rule: dec.induct) (subst (asm) dec.simps, auto split: if_splits)

lemma dec_nonempty [simp]: "dec n \<noteq> []"
  by (subst dec.simps) simp

lemma digits_value_snoc: "digits_value (ds @ [c]) = digits_value ds * 10 + (chr_code c - 48)"
  by (simp add: digits_value_def)

lemma digits_value_dec: "digits_value (dec n) = n"
proof (induction n rule: dec.induct)
  case (1 n)
  show ?case
  proof (cases "n < 10")
    case True
    then show ?thesis by (subst dec.simps) (simp add: digits_value_def)
  next
    case False
    then have "digits_value (dec n) = digits_value (dec (n div 10)) * 10 + n mod 10"
      by (subst dec.simps) (simp add: digits_value_snoc)
    with 1 False show ?thesis by simp
  qed
qed

lemma scan_number_dec:
  assumes "\<not> isdigit (cur rest)"
  shows "scan_number cvt (dec n @ rest) = Some (cvt (int n), rest)"
proof -
  obtain c cs where c: "dec n = c # cs" by (cases "dec n") auto
  then have d: "isdigit c" using dec_digits [of c n] by simp
  have skip: "dropWhile isspace (dec n @ rest) = dec n @ rest"
    using d c isspace_digit by simp
  have sign: "scan_sign (dec n @ rest) = (False, dec n @ rest)"
    using d by (auto simp: scan_sign_def c isdigit_def in_range_def chr_code_def)
  have "takeWhile isdigit (dec n @ rest) = dec n \<and> dropWhile isdigit (dec n @ rest) = rest"
  proof -
    have "takeWhile isdigit rest = []" "dropWhile isdigit rest = rest"
      using assms by (cases rest; auto simp: cur_def)+
    then show ?thesis using dec_digits [of _ n] by (simp add: takeWhile_append2 dropWhile_append2)
  qed
  then show ?thesis
    by (simp add: scan_number_def skip sign digits_value_dec)
qed

lemma isspace_blank [simp]: "isspace CHR '' ''"
  by (simp add: isspace_def chr_code_def)

lemma isdigit_blank [simp]: "\<not> isdigit CHR '' ''" "\<not> isdigit CHR 0x00"
  by (simp_all add: isdigit_def in_range_def chr_code_def)

lemma scan_number_space: "scan_number cvt (CHR '' '' # s) = scan_number cvt s"
  by (simp add: scan_number_def)

lemma atoi_dec: "\<not> isdigit (cur rest) \<Longrightarrow> atoi cvt (dec n @ rest) = cvt (int n)"
  by (simp add: atoi_def scan_number_dec)

lemma scan_s_word:
  assumes "w \<noteq> []" and "length w \<le> n" and "\<forall>c \<in> set w. \<not> isspace c" and "rest = [] \<or> isspace (hd rest)"
  shows "scan_s n (w @ rest) = Some (w, rest)"
proof -
  obtain c cs where w: "w = c # cs" using assms(1) by (cases w) auto
  then have skip: "dropWhile isspace (w @ rest) = w @ rest" using assms(3) by simp
  have "takeWhile (\<lambda>c. \<not> isspace c) (w @ rest) = w"
    using assms(3,4) by (cases rest) (auto simp: takeWhile_append2)
  moreover have "0 < n" using assms(1,2) by (cases n) auto
  ultimately show ?thesis using assms(1,2) by (simp add: scan_s_def skip)
qed

lemma scan_s_space: "scan_s n (CHR '' '' # s) = scan_s n s"
  by (simp add: scan_s_def)

end
