(* ===== verification/Ping.thy ===== *)
theory Ping
  imports Net_Manager C_Library
begin

text \<open>
  The RAW interface (\<open>core/raw.c\<close>) and the ping client on it (\<open>src/ping.c\<close>): building the echo request, the receive
  hook that takes the matching echo reply out of the ICMP traffic, the busy-wait for the reply, and the ARP scan of a
  subnet. The free-running counter \<open>FRC0\<close> is an argument of the operations that read it, and the interrupts that run
  while the processor waits are a function of the iteration.
\<close>

section \<open>RAW control blocks\<close>

datatype raw_recv_fn = No_raw_recv | Ping_recv

record raw_pcb =
  rp_local_ip :: u32
  rp_remote_ip :: u32
  rp_tos :: u8
  rp_ttl :: u8
  rp_protocol :: u8
  rp_recv :: raw_recv_fn

record raw_st =
  raw_pcbs :: "nat list"
  raw_at :: "nat \<Rightarrow> raw_pcb"
  raw_free :: "nat list"

definition MEMP_NUM_RAW_PCB :: nat where "MEMP_NUM_RAW_PCB = 4"
definition RAW_TTL :: u8 where "RAW_TTL = 255"

definition raw_pcb_zero :: raw_pcb where
  "raw_pcb_zero = \<lparr>rp_local_ip = 0, rp_remote_ip = 0, rp_tos = 0, rp_ttl = 0, rp_protocol = 0, rp_recv = No_raw_recv\<rparr>"

definition raw_new :: "u8 \<Rightarrow> raw_st \<Rightarrow> nat option \<times> raw_st" where
  "raw_new proto r =
     (case raw_free r of
        [] \<Rightarrow> (None, r)
      | pcb # free \<Rightarrow>
         (Some pcb, r\<lparr>raw_free := free, raw_pcbs := pcb # raw_pcbs r,
            raw_at := (raw_at r)(pcb := raw_pcb_zero\<lparr>rp_protocol := proto, rp_ttl := RAW_TTL\<rparr>)\<rparr>))"

definition raw_recv :: "nat \<Rightarrow> raw_recv_fn \<Rightarrow> raw_st \<Rightarrow> raw_st" where
  "raw_recv pcb f r = r\<lparr>raw_at := (raw_at r)(pcb := (raw_at r pcb)\<lparr>rp_recv := f\<rparr>)\<rparr>"

definition raw_remove :: "nat \<Rightarrow> raw_st \<Rightarrow> raw_st" where
  "raw_remove pcb r = r\<lparr>raw_pcbs := remove1 pcb (raw_pcbs r), raw_free := pcb # raw_free r\<rparr>"

section \<open>State of the ping client\<close>

record ping_result =
  pr_from :: u32
  pr_seqno :: u16
  pr_data_len :: u16
  pr_rtt_ms :: u32
  pr_ttl :: u8

record ping_st =
  pg_raw :: raw_st
  s_ping_pcb :: "nat option"
  s_seq :: u16
  s_waiting :: bool
  s_reply_valid :: bool
  s_send_tick :: u32
  s_result :: ping_result

definition PING_DATA_SIZE :: nat where "PING_DATA_SIZE = 32"
definition PING_TIMEOUT_MS :: u32 where "PING_TIMEOUT_MS = 2000"
definition PING_RTI_TICKS_PER_MS :: u32 where "PING_RTI_TICKS_PER_MS = 9375"
definition PING_ID :: u16 where "PING_ID = 0xafaf"
definition ICMP_ER :: u8 where "ICMP_ER = 0"
definition ICMP_ECHO :: u8 where "ICMP_ECHO = 8"
definition ICMP_TTL :: u8 where "ICMP_TTL = 255"
definition IP_PROTO_ICMP :: u8 where "IP_PROTO_ICMP = 1"
definition SIZEOF_ICMP_ECHO_HDR :: nat where "SIZEOF_ICMP_ECHO_HDR = 8"

section \<open>Sending\<close>

definition echo_hdr_bytes :: "u8 \<Rightarrow> u8 \<Rightarrow> u16 \<Rightarrow> u16 \<Rightarrow> u16 \<Rightarrow> u8 list" where
  "echo_hdr_bytes type code chksum idn seqno = [type, code] @ be16 chksum @ be16 idn @ be16 seqno"

definition ping_data :: "u8 list" where
  "ping_data = map (\<lambda>i. of_nat (97 + i mod 23)) [0..<PING_DATA_SIZE]"

definition echo_request :: "u16 \<Rightarrow> u8 list" where
  "echo_request seq =
     (let hdr = (\<lambda>c. echo_hdr_bytes ICMP_ECHO 0 c PING_ID (htons seq));
          chksum = inet_chksum False (hdr 0 @ ping_data)
      in hdr chksum @ ping_data)"

definition ping_pcb_setup :: "ping_st \<Rightarrow> bool \<times> ping_st" where
  "ping_pcb_setup ps =
     (case s_ping_pcb ps of
        Some _ \<Rightarrow> (True, ps)
      | None \<Rightarrow>
         (case raw_new IP_PROTO_ICMP (pg_raw ps) of
            (None, r) \<Rightarrow> (False, ps\<lparr>pg_raw := r\<rparr>)
          | (Some pcb, r) \<Rightarrow> (True, ps\<lparr>s_ping_pcb := Some pcb, pg_raw := raw_recv pcb Ping_recv r\<rparr>)))"

text \<open>\<open>frc\<close> is the counter value that the call reads as the time of sending.\<close>

definition ping_send ::
    "netif_ptr option \<Rightarrow> u32 option \<Rightarrow> u32 \<Rightarrow> net_st \<Rightarrow> ping_st \<Rightarrow> err_t \<times> net_st \<times> ping_st" where
  "ping_send netif target frc net ps =
     (case (netif, target) of
        (Some nif, Some dst) \<Rightarrow>
          (case ping_pcb_setup ps of
             (False, ps) \<Rightarrow> (ERR_MEM, net, ps)
           | (True, ps) \<Rightarrow>
              (case link_alloc PBUF_IP (SIZEOF_ICMP_ECHO_HDR + PING_DATA_SIZE) PBUF_RAM (ns_link net) of
                 (None, l) \<Rightarrow> (ERR_MEM, net\<lparr>ns_link := l\<rparr>, ps)
               | (Some p, l) \<Rightarrow>
                  (let ps = ps\<lparr>s_seq := s_seq ps + 1\<rparr>;
                       p = pbuf_put 0 (echo_request (s_seq ps)) p;
                       ps = ps\<lparr>s_reply_valid := False, s_send_tick := frc, s_waiting := True\<rparr>;
                       (err, net) = ip_output_if p (if_ip_addr (netifs net nif)) dst ICMP_TTL 0 IP_PROTO_ICMP nif
                                      (net\<lparr>ns_link := l\<rparr>)
                   in (err, net, if err \<noteq> ERR_OK then ps\<lparr>s_waiting := False\<rparr> else ps))))
      | _ \<Rightarrow> (ERR_VAL, net, ps))"

section \<open>Receiving\<close>

text \<open>
  A header structure read at the payload pointer of the first buffer: behind the payload of a short buffer, the memory
  holds whatever it holds.
\<close>

definition hdr_view :: "mem_st \<Rightarrow> nat \<Rightarrow> pbuf \<Rightarrow> u8 list" where
  "hdr_view m n p = take n ((case p of [] \<Rightarrow> [] | s # _ \<Rightarrow> ps_payload s) @ junk_bytes m n)"

definition IPH_HL :: "u8 \<Rightarrow> nat" where "IPH_HL v_hl = unat (v_hl AND 0x0f)"

definition ping_reply_matches :: "ping_st \<Rightarrow> u8 list \<Rightarrow> bool" where
  "ping_reply_matches ps iecho \<longleftrightarrow>
     get8 iecho 0 = ICMP_ER \<and> get16 iecho 4 = PING_ID \<and> get16 iecho 6 = htons (s_seq ps)"

text \<open>The boolean is the return value: the packet was eaten. Otherwise the packet is given back.\<close>

definition ping_recv :: "mem_st \<Rightarrow> pbuf \<Rightarrow> u32 \<Rightarrow> u32 \<Rightarrow> ping_st \<Rightarrow> bool \<times> pbuf \<times> ping_st" where
  "ping_recv m p addr now ps =
     (if \<not> s_waiting ps \<or> s_reply_valid ps then (False, p, ps)
      else
        (let iphdr = hdr_view m 20 p; ip_hlen = IPH_HL (get8 iphdr 0) * 4 in
         if pbuf_tot_len p < ip_hlen + SIZEOF_ICMP_ECHO_HDR then (False, p, ps)
         else case pbuf_header p (- int ip_hlen) of
           None \<Rightarrow> (False, p, ps)
         | Some q \<Rightarrow>
             if ping_reply_matches ps (hdr_view m 8 q) then
               (True, q, ps\<lparr>s_result := \<lparr>pr_from = addr, pr_seqno = s_seq ps,
                  pr_data_len = of_nat (pbuf_tot_len q - SIZEOF_ICMP_ECHO_HDR),
                  pr_rtt_ms = (now - s_send_tick ps) div PING_RTI_TICKS_PER_MS, pr_ttl = get8 iphdr 8\<rparr>,
                  s_waiting := False, s_reply_valid := True\<rparr>)
             else (False, (case pbuf_header q (int ip_hlen) of None \<Rightarrow> q | Some p' \<Rightarrow> p'), ps)))"

section \<open>Waiting\<close>

text \<open>
  Iteration \<open>k\<close> of the busy-wait reads the counter as \<open>clock k\<close>; interrupts may run before and after that, and change
  the state by \<open>isr (2 * k)\<close> and \<open>isr (2 * k + 1)\<close>. The state is that of the whole system, of which the loop uses the
  ping client only, through \<open>get\<close> and \<open>upd\<close>. \<open>None\<close> means that \<open>fuel\<close> iterations were not enough. The result is the
  returned value, the reply that is stored through \<open>out\<close>, and the state.
\<close>

fun wait_loop :: "('s \<Rightarrow> ping_st) \<Rightarrow> ((ping_st \<Rightarrow> ping_st) \<Rightarrow> 's \<Rightarrow> 's) \<Rightarrow> nat \<Rightarrow> (nat \<Rightarrow> u32) \<Rightarrow>
    (nat \<Rightarrow> 's \<Rightarrow> 's) \<Rightarrow> u32 \<Rightarrow> u32 \<Rightarrow> nat \<Rightarrow> 's \<Rightarrow> (bool \<times> ping_result option \<times> 's) option" where
  "wait_loop get upd 0 clock isr start ticks k s = None"
| "wait_loop get upd (Suc fuel) clock isr start ticks k s =
     (let s = isr (2 * k + 1) (isr (2 * k) s) in
      if clock k - start < ticks then
        (if s_reply_valid (get s) then Some (True, Some (s_result (get s)), upd (s_reply_valid_update (\<lambda>_. False)) s)
         else wait_loop get upd fuel clock isr start ticks (k + 1) s)
      else Some (False, None, upd (s_waiting_update (\<lambda>_. False)) s))"

definition ping_wait_reply :: "('s \<Rightarrow> ping_st) \<Rightarrow> ((ping_st \<Rightarrow> ping_st) \<Rightarrow> 's \<Rightarrow> 's) \<Rightarrow> nat \<Rightarrow> (nat \<Rightarrow> u32) \<Rightarrow>
    (nat \<Rightarrow> 's \<Rightarrow> 's) \<Rightarrow> u32 \<Rightarrow> u32 \<Rightarrow> 's \<Rightarrow> (bool \<times> ping_result option \<times> 's) option" where
  "ping_wait_reply get upd fuel clock isr start timeout_ms s =
     wait_loop get upd fuel clock isr start (timeout_ms * PING_RTI_TICKS_PER_MS) 0 s"

fun delay_loop :: "nat \<Rightarrow> (nat \<Rightarrow> u32) \<Rightarrow> u32 \<Rightarrow> u32 \<Rightarrow> nat \<Rightarrow> nat option" where
  "delay_loop 0 clock start ticks k = None"
| "delay_loop (Suc fuel) clock start ticks k =
     (if clock k - start < ticks then delay_loop fuel clock start ticks (k + 1) else Some k)"

definition delay_ms :: "nat \<Rightarrow> (nat \<Rightarrow> u32) \<Rightarrow> u32 \<Rightarrow> u32 \<Rightarrow> nat option" where
  "delay_ms fuel clock start ms = delay_loop fuel clock start (ms * PING_RTI_TICKS_PER_MS) 0"

section \<open>Scanning a subnet\<close>

definition scan_skip :: "netif \<Rightarrow> nat \<Rightarrow> bool" where
  "scan_skip n idx \<longleftrightarrow> idx = unat (ntohl (if_ip_addr n) AND 0xff) \<or> idx = 0 \<or> idx = 255"

definition scan_target :: "u32 \<Rightarrow> nat \<Rightarrow> u32" where
  "scan_target network idx = htonl (ntohl network OR of_nat idx)"

definition mac_text :: "u8 list \<Rightarrow> string" where
  "mac_text mac = hex2 (mac ! 0) @ '':'' @ hex2 (mac ! 1) @ '':'' @ hex2 (mac ! 2) @ '':'' @ hex2 (mac ! 3) @ '':'' @
     hex2 (mac ! 4) @ '':'' @ hex2 (mac ! 5)"

definition crlf :: string where "crlf = [CHR 0x0d, CHR 0x0a]"

definition host_up_line :: "u32 \<Rightarrow> u8 list \<Rightarrow> string" where
  "host_up_line target mac = ''Host up: '' @ ipaddr_ntoa target @ ''  MAC '' @ mac_text mac @ crlf"

text \<open>
  \<open>env idx\<close> is what the interrupts do to the system during the 50 ms after the request for target \<open>idx\<close>. The scan uses
  the network part of the system, through \<open>get\<close> and \<open>upd\<close>.
\<close>

fun scan_loop :: "('s \<Rightarrow> net_st) \<Rightarrow> ((net_st \<Rightarrow> net_st) \<Rightarrow> 's \<Rightarrow> 's) \<Rightarrow> (nat \<Rightarrow> 's \<Rightarrow> 's) \<Rightarrow> netif_ptr \<Rightarrow> u32 \<Rightarrow>
    nat list \<Rightarrow> 's \<Rightarrow> string list \<times> 's" where
  "scan_loop get upd env nif network [] s = ([], s)"
| "scan_loop get upd env nif network (idx # is) s =
     (if scan_skip (netifs (get s) nif) idx then scan_loop get upd env nif network is s
      else
        (let target = scan_target network idx;
             s = upd (\<lambda>net. snd (net_link (etharp_query (netifs net nif) target None) net)) s;
             s = env idx s;
             out = (case etharp_find_addr target (ns_link (get s)) of
                      None \<Rightarrow> [] | Some (_, mac) \<Rightarrow> [host_up_line target mac]);
             s = (if idx mod 10 = 0 then upd (\<lambda>net. net\<lparr>ns_link := etharp_cleanup_netif nif (ns_link net)\<rparr>) s else s);
             (outs, s) = scan_loop get upd env nif network is s
         in (out @ outs, s)))"

definition scan_network :: "('s \<Rightarrow> net_st) \<Rightarrow> ((net_st \<Rightarrow> net_st) \<Rightarrow> 's \<Rightarrow> 's) \<Rightarrow> (nat \<Rightarrow> 's \<Rightarrow> 's) \<Rightarrow> netif_ptr option \<Rightarrow> 's \<Rightarrow>
    err_t \<times> string list \<times> 's" where
  "scan_network get upd env netif s =
     (case netif of
        None \<Rightarrow> (ERR_VAL, [], s)
      | Some nif \<Rightarrow>
         (let n = netifs (get s) nif;
              (outs, s) = scan_loop get upd env nif (if_netmask n AND if_ip_addr n) [0..<256] s
          in (ERR_OK, outs, s)))"

section \<open>The echo request\<close>

lemma length_echo_hdr [simp]: "length (echo_hdr_bytes a b c d e) = 8"
  by (simp add: echo_hdr_bytes_def)

lemma length_ping_data [simp]: "length ping_data = PING_DATA_SIZE"
  by (simp add: ping_data_def)

lemma length_echo_request [simp]: "length (echo_request seq) = 40"
  by (simp add: echo_request_def Let_def PING_DATA_SIZE_def)

lemma echo_hdr_split: "echo_hdr_bytes t 0 c i s @ d = [t, 0] @ be16 c @ (be16 i @ be16 s @ d)"
  by (simp add: echo_hdr_bytes_def)

lemma be16_zero: "be16 0 = [0, 0]"
  by (simp add: be16_def)

lemma echo_request_verifies: "inet_chksum al (echo_request seq) = 0"
proof -
  let ?post = "be16 PING_ID @ be16 (htons seq) @ ping_data"
  have "echo_request seq = [ICMP_ECHO, 0] @ be16 (inet_chksum False ([ICMP_ECHO, 0] @ [0, 0] @ ?post)) @ ?post"
    by (simp add: echo_request_def Let_def echo_hdr_bytes_def be16_zero)
  moreover have "inet_chksum al ([ICMP_ECHO, 0] @ be16 (inet_chksum False ([ICMP_ECHO, 0] @ [0, 0] @ ?post)) @ ?post) = 0"
    by (rule inet_chksum_verifies) (simp_all add: PING_DATA_SIZE_def)
  ultimately show ?thesis by simp
qed

text \<open>An IP packet from a buffer with room for the headers reaches a known host.\<close>

lemma ip_output_if_delivers:
  assumes "netif_wf net" and nif: "nif \<in> set (netif_list net)" and s: "roomy 34 s"
    and dst: "\<not> ip4_addr_isbroadcast dst (netifs net nif)" "\<not> ip_addr_ismulticast dst"
      "next_hop (netifs net nif) dst = Some h"
    and hit: "etharp_find_addr h (ns_link net) = Some (i, m)"
    and young: "ae_ctime (arp_table (ns_link net) ! i) < ARP_AGE_REREQUEST_USED"
  obtains inst where "if_state (netifs net nif) = Some inst"
    "fst (ip_output_if [s] src dst ttl tos proto nif net) = ERR_OK"
    "lk_tx (ns_link (snd (ip_output_if [s] src dst ttl tos proto nif net))) = lk_tx (ns_link net) @
      [wire_frame inst (ip_frame (netifs net nif) m
        (ip_packet (netifs net nif) src dst ttl tos proto (ip_id net) (ps_payload s)))]"
proof -
  let ?n = "netifs net nif"
  obtain inst where rdy: "link_ready ?n inst" and out: "if_output ?n = Etharp_output"
    using assms(1) nif by (auto simp: netif_wf_def netif_ready_def)
  have wf: "arp_wf (ns_link net)" using assms(1) by (simp add: netif_wf_def)
  have r20: "roomy 20 s" using s by (simp add: roomy_def)
  obtain p' where p': "pbuf_header [s] 20 = Some [p']" "ps_type p' = PBUF_RAM"
    "length (ps_hidden p') = length (ps_hidden s) - 20"
    using pbuf_header_roomy [OF r20] by auto
  obtain t where t: "ip_output_if [s] src dst ttl tos proto nif net =
      net_link (etharp_output ?n t dst) (net\<lparr>ip_id := ip_id net + 1\<rparr>)"
    "pbuf_bytes t = ip_packet ?n src dst ttl tos proto (ip_id net) (pbuf_bytes [s])"
    "map ps_hidden t = map ps_hidden [p']" "map ps_type t = map ps_type [p']" "tl t = tl [p']"
    using ip_output_if_link [OF p'(1) _ out] by blast
  obtain t' where t': "t = [t']" "ps_hidden t' = ps_hidden p'" "ps_type t' = PBUF_RAM"
    using t(3,4,5) p'(2) by (cases t) auto
  have r14: "roomy 14 t'" using s p'(3) t' by (auto simp: roomy_def)
  obtain t'' where t'': "pbuf_header [t'] 14 = Some [t'']" using pbuf_header_roomy [OF r14] by auto
  from output_known_host [OF wf rdy t'' _ dst hit young] t(1,2) t'(1) rdy that
  show ?thesis by (simp add: net_link_def link_ready_def)
qed

section \<open>Waiting\<close>

text \<open>The state that the interrupts have produced by iteration \<open>k\<close>.\<close>

fun wait_trace :: "(nat \<Rightarrow> 's \<Rightarrow> 's) \<Rightarrow> nat \<Rightarrow> 's \<Rightarrow> 's" where
  "wait_trace isr 0 ps = isr 1 (isr 0 ps)"
| "wait_trace isr (Suc k) ps = isr (2 * Suc k + 1) (isr (2 * Suc k) (wait_trace isr k ps))"

lemma wait_loop_skip:
  assumes "\<forall>j. i \<le> j \<and> j < i + d \<longrightarrow> clock j - start < ticks \<and> \<not> s_reply_valid (get (wait_trace isr j ps0))"
    and "if i = 0 then ps = ps0 else ps = wait_trace isr (i - 1) ps0" and "d \<le> fuel"
  shows "\<exists>ps'. wait_loop get upd fuel clock isr start ticks i ps = wait_loop get upd (fuel - d) clock isr start ticks (i + d) ps' \<and>
    (if i + d = 0 then ps' = ps0 else ps' = wait_trace isr (i + d - 1) ps0)"
  using assms
proof (induction d arbitrary: i ps fuel)
  case 0
  then show ?case by (intro exI [of _ ps]) simp
next
  case (Suc d)
  obtain f where f: "fuel = Suc f" using Suc.prems(3) by (cases fuel) auto
  let ?ps = "isr (2 * i + 1) (isr (2 * i) ps)"
  have tr: "?ps = wait_trace isr i ps0" using Suc.prems(2) by (cases i) (auto split: if_splits)
  have step: "wait_loop get upd fuel clock isr start ticks i ps = wait_loop get upd f clock isr start ticks (Suc i) ?ps"
    using Suc.prems(1) tr by (simp add: f)
  have "\<forall>j. Suc i \<le> j \<and> j < Suc i + d \<longrightarrow> clock j - start < ticks \<and> \<not> s_reply_valid (get (wait_trace isr j ps0))"
    using Suc.prems(1) by simp
  moreover have "if Suc i = 0 then ?ps = ps0 else ?ps = wait_trace isr (Suc i - 1) ps0" using tr by simp
  moreover have "d \<le> f" using Suc.prems(3) f by simp
  ultimately obtain ps' where
    "wait_loop get upd f clock isr start ticks (Suc i) ?ps = wait_loop get upd (f - d) clock isr start ticks (Suc i + d) ps'"
    "if Suc i + d = 0 then ps' = ps0 else ps' = wait_trace isr (Suc i + d - 1) ps0"
    using Suc.IH by blast
  with step f show ?case by (intro exI [of _ ps']) simp
qed

text \<open>The loop stops at the first iteration that finds the time over or a reply.\<close>

lemma wait_loop_result:
  assumes "\<forall>j < k. clock j - start < ticks \<and> \<not> s_reply_valid (get (wait_trace isr j ps))" and "k < fuel"
    and "\<not> clock k - start < ticks \<or> s_reply_valid (get (wait_trace isr k ps))"
  shows "wait_loop get upd fuel clock isr start ticks 0 ps =
    (if clock k - start < ticks
     then Some (True, Some (s_result (get (wait_trace isr k ps))), upd (s_reply_valid_update (\<lambda>_. False)) (wait_trace isr k ps))
     else Some (False, None, upd (s_waiting_update (\<lambda>_. False)) (wait_trace isr k ps)))"
proof -
  have "\<exists>ps'. wait_loop get upd fuel clock isr start ticks 0 ps = wait_loop get upd (fuel - k) clock isr start ticks (0 + k) ps' \<and>
    (if 0 + k = 0 then ps' = ps else ps' = wait_trace isr (0 + k - 1) ps)"
    using assms(1,2) by (intro wait_loop_skip) auto
  then obtain ps' where ps': "wait_loop get upd fuel clock isr start ticks 0 ps = wait_loop get upd (fuel - k) clock isr start ticks k ps'"
    "if k = 0 then ps' = ps else ps' = wait_trace isr (k - 1) ps" by auto
  obtain f where f: "fuel - k = Suc f" using assms(2) by (cases "fuel - k") auto
  have "isr (2 * k + 1) (isr (2 * k) ps') = wait_trace isr k ps" using ps'(2) by (cases k) (auto split: if_splits)
  with assms(3) show ?thesis unfolding ps'(1) f by (simp add: Let_def)
qed

text \<open>
  The counter may wrap around: as long as it moves by at least one tick per iteration and never by so much that the
  difference skips the rest of its range, the difference reaches the limit.
\<close>

lemma counter_reaches:
  fixes clock :: "nat \<Rightarrow> u32"
  assumes "\<forall>k. 1 \<le> unat (clock (Suc k) - clock k) \<and> unat (clock (Suc k) - clock k) + unat ticks \<le> 4294967296"
  shows "\<exists>k \<le> unat ticks. \<not> clock k - start < ticks"
proof (rule ccontr)
  assume "\<not> ?thesis"
  then have lt: "unat (clock k - start) < unat ticks" if "k \<le> unat ticks" for k
    using that by (auto simp: word_less_nat_alt)
  have "k \<le> unat (clock k - start)" if "k \<le> unat ticks" for k
    using that
  proof (induction k)
    case (Suc k)
    have eq: "clock (Suc k) - start = (clock k - start) + (clock (Suc k) - clock k)" by simp
    have "unat (clock (Suc k) - start) = unat (clock k - start) + unat (clock (Suc k) - clock k)"
    proof -
      have "unat (clock k - start) + unat (clock (Suc k) - clock k) < 4294967296"
        using lt [of k] Suc.prems assms [rule_format, of k] by linarith
      moreover have "unat (a + b) = unat a + unat b" if "unat a + unat b < 4294967296" for a b :: u32
        using that by (simp add: unat_word_ariths)
      ultimately show ?thesis using eq by metis
    qed
    then show ?case using Suc assms [rule_format, of k] by linarith
  qed simp
  from this [of "unat ticks"] lt [of "unat ticks"] show False by simp
qed

lemma wait_loop_returns:
  assumes "\<exists>k \<le> n. \<not> clock k - start < ticks"
  shows "\<exists>r. wait_loop get upd (n + 1) clock isr start ticks 0 ps = Some r"
proof -
  let ?P = "\<lambda>k. \<not> clock k - start < ticks \<or> s_reply_valid (get (wait_trace isr k ps))"
  obtain k0 where k0: "k0 \<le> n" "?P k0" using assms by blast
  define k where "k = (LEAST k. ?P k)"
  have "?P k" unfolding k_def using k0(2) by (rule LeastI)
  moreover have "\<forall>j < k. clock j - start < ticks \<and> \<not> s_reply_valid (get (wait_trace isr j ps))"
    using not_less_Least [of _ ?P] unfolding k_def by blast
  moreover have "k \<le> k0" unfolding k_def using k0(2) by (rule Least_le)
  ultimately show ?thesis using wait_loop_result [of k clock start ticks get isr ps "n + 1" upd] k0(1) by (auto split: if_splits)
qed

lemma delay_loop_returns:
  "\<exists>k. i \<le> k \<and> k < i + fuel \<and> \<not> clock k - start < ticks \<Longrightarrow>
   \<exists>k. delay_loop fuel clock start ticks i = Some k \<and> \<not> clock k - start < ticks"
proof (induction fuel arbitrary: i)
  case (Suc fuel)
  show ?case
  proof (cases "clock i - start < ticks")
    case True
    obtain k where k: "i \<le> k" "k < i + Suc fuel" "\<not> clock k - start < ticks" using Suc.prems by blast
    with True have "Suc i \<le> k" by (metis le_antisym not_less_eq_eq)
    with k have "\<exists>k. Suc i \<le> k \<and> k < Suc i + fuel \<and> \<not> clock k - start < ticks" by auto
    from Suc.IH [OF this] True show ?thesis by simp
  qed simp
qed auto

section \<open>Properties\<close>

definition ping_zero :: ping_st where
  "ping_zero = \<lparr>pg_raw = \<lparr>raw_pcbs = [], raw_at = (\<lambda>_. raw_pcb_zero), raw_free = rev [0..<MEMP_NUM_RAW_PCB]\<rparr>,
     s_ping_pcb = None, s_seq = 0, s_waiting = False, s_reply_valid = False, s_send_tick = 0,
     s_result = \<lparr>pr_from = 0, pr_seqno = 0, pr_data_len = 0, pr_rtt_ms = 0, pr_ttl = 0\<rparr>\<rparr>"

text \<open>
  C17: pinging a host whose next hop is known puts one echo request on the wire, with the source address of the chosen
  interface, the identifier and next sequence number of the client and a correct ICMP checksum, and leaves the client
  waiting for exactly that sequence number, with the send time recorded.
\<close>

theorem ping_send_request:
  assumes "netif_wf net" and nif: "nif \<in> set (netif_list net)"
    and dst: "\<not> ip4_addr_isbroadcast dst (netifs net nif)" "\<not> ip_addr_ismulticast dst"
      "next_hop (netifs net nif) dst = Some h" "etharp_find_addr h (ns_link net) = Some (i, m)"
      "ae_ctime (arp_table (ns_link net) ! i) < ARP_AGE_REREQUEST_USED"
    and res: "ms_alloc (lk_mem (ns_link net)) = []" "s_ping_pcb ps \<noteq> None \<or> raw_free (pg_raw ps) \<noteq> []"
    and send: "ping_send (Some nif) (Some dst) frc net ps = (e, net', ps')"
  shows "e = ERR_OK \<and> s_seq ps' = s_seq ps + 1 \<and> s_waiting ps' \<and> \<not> s_reply_valid ps' \<and> s_send_tick ps' = frc \<and>
    s_ping_pcb ps' \<noteq> None \<and> inet_chksum False (echo_request (s_seq ps')) = 0 \<and>
    (\<exists>inst. if_state (netifs net nif) = Some inst \<and>
      lk_tx (ns_link net') = lk_tx (ns_link net) @
        [wire_frame inst (ip_frame (netifs net nif) m
          (ip_packet (netifs net nif) (if_ip_addr (netifs net nif)) dst ICMP_TTL 0 IP_PROTO_ICMP (ip_id net)
            (echo_request (s_seq ps'))))])"
proof -
  obtain p l where a: "link_alloc PBUF_IP (SIZEOF_ICMP_ECHO_HDR + PING_DATA_SIZE) PBUF_RAM (ns_link net) = (Some p, l)"
    using link_alloc_succeeds [OF res(1)] .
  have l: "arp_table l = arp_table (ns_link net)" "lk_tx l = lk_tx (ns_link net)"
    using a link_alloc_frame [of PBUF_IP "SIZEOF_ICMP_ECHO_HDR + PING_DATA_SIZE" PBUF_RAM "ns_link net"] by simp_all
  let ?net = "net\<lparr>ns_link := l\<rparr>"
  have wf: "netif_wf ?net" using link_alloc_netif_wf [OF assms(1)] a by (metis snd_conv)
  obtain s where put: "pbuf_put 0 (echo_request (s_seq ps + 1)) p = [s]"
    and pl: "ps_payload s = echo_request (s_seq ps + 1)" and room: "roomy 34 s"
    using link_alloc_fill [of PBUF_IP "echo_request (s_seq ps + 1)" _ p l 34] a
    by (auto simp: layer_offset_def SIZEOF_ICMP_ECHO_HDR_def PING_DATA_SIZE_def)
  have hit: "etharp_find_addr h (ns_link ?net) = Some (i, m)" "ae_ctime (arp_table (ns_link ?net) ! i) < ARP_AGE_REREQUEST_USED"
    using dst(4,5) find_addr_cong [OF l(1)] by (simp_all add: l(1))
  have nn: "nif \<in> set (netif_list ?net)" using nif by simp
  obtain pok ps1 where st: "ping_pcb_setup ps = (pok, ps1)" by (meson surj_pair)
  have ps1: "pok" "s_seq ps1 = s_seq ps" "s_ping_pcb ps1 \<noteq> None"
    using st res(2) by (auto simp: ping_pcb_setup_def raw_new_def split: option.splits list.splits)
  let ?out = "ip_output_if [s] (if_ip_addr (netifs net nif)) dst ICMP_TTL 0 IP_PROTO_ICMP nif ?net"
  obtain inst where o: "if_state (netifs net nif) = Some inst" "fst ?out = ERR_OK"
    "lk_tx (ns_link (snd ?out)) = lk_tx (ns_link net) @ [wire_frame inst (ip_frame (netifs net nif) m
      (ip_packet (netifs net nif) (if_ip_addr (netifs net nif)) dst ICMP_TTL 0 IP_PROTO_ICMP (ip_id net)
        (echo_request (s_seq ps + 1))))]"
    using ip_output_if_delivers [OF wf nn room _ dst(2) _ hit, of "if_ip_addr (netifs net nif)" ICMP_TTL 0 IP_PROTO_ICMP]
      dst(1,3) l(2) pl by auto
  have "e = fst ?out" "net' = snd ?out"
    "ps' = ps1\<lparr>s_seq := s_seq ps + 1, s_reply_valid := False, s_send_tick := frc, s_waiting := True\<rparr>"
    using send o(2) by (auto simp: ping_send_def Let_def st ps1 a put split: prod.splits)
  with o ps1 show ?thesis by (simp add: echo_request_verifies)
qed

theorem ping_send_request_witness:
  "let (e, net, ps) = ping_send (Some (Hdk 0)) (Some 0x0a000005) 77 (h_net boot_known) ping_zero
   in e = ERR_OK \<and> s_seq ps = 1 \<and> s_waiting ps \<and> length (lk_tx (ns_link net)) = length (lk_tx (ns_link (h_net boot_known))) + 1"
proof -
  obtain e net ps where s: "ping_send (Some (Hdk 0)) (Some 0x0a000005) 77 (h_net boot_known) ping_zero = (e, net, ps)"
    by (cases "ping_send (Some (Hdk 0)) (Some 0x0a000005) 77 (h_net boot_known) ping_zero")
  have wf: "netif_wf (h_net boot_known)" using boot_known_wf by (simp add: host_wf_def)
  have hyps: "Hdk 0 \<in> set (netif_list (h_net boot_known))"
    "\<not> ip4_addr_isbroadcast 0x0a000005 (netifs (h_net boot_known) (Hdk 0))" "\<not> ip_addr_ismulticast 0x0a000005"
    "next_hop (netifs (h_net boot_known) (Hdk 0)) 0x0a000005 = Some 0x0a000005"
    "etharp_find_addr 0x0a000005 (ns_link (h_net boot_known)) = Some (0, [2, 0, 0, 0, 0, 5])"
    "ae_ctime (arp_table (ns_link (h_net boot_known)) ! 0) < ARP_AGE_REREQUEST_USED"
    "ms_alloc (lk_mem (ns_link (h_net boot_known))) = []"
    "s_ping_pcb ping_zero \<noteq> None \<or> raw_free (pg_raw ping_zero) \<noteq> []" "s_seq ping_zero = 0"
    by code_simp+
  show ?thesis using ping_send_request [OF wf hyps(1-8) s] hyps(9) by (auto simp: s)
qed

text \<open>
  C15: the receive hook takes exactly the awaited reply out of the ICMP traffic. It eats a packet iff a request is
  outstanding, no reply has been stored yet, and the packet is an echo reply with the client's identifier and the
  sequence number of that request; it then stores the reply, with the round-trip time from the 32-bit counter
  difference. Every other packet is handed back to the stack unchanged and leaves the client's state alone.
\<close>

theorem ping_recv_exact:
  assumes "p \<noteq> []" and "ps_type (hd p) \<in> {PBUF_RAM, PBUF_POOL}"
    and "hlen = IPH_HL (get8 (hdr_view m 20 p) 0) * 4" and "ping_recv m p addr now ps = (eaten, q, ps')"
  shows "(eaten \<longleftrightarrow> s_waiting ps \<and> \<not> s_reply_valid ps \<and> hlen + 8 \<le> pbuf_tot_len p \<and> hlen \<le> pbuf_len p \<and>
      ping_reply_matches ps (take 8 (drop hlen (ps_payload (hd p)) @ junk_bytes m 8))) \<and>
    (if eaten then
       ps' = ps\<lparr>s_waiting := False, s_reply_valid := True, s_result :=
         \<lparr>pr_from = addr, pr_seqno = s_seq ps, pr_data_len = of_nat (pbuf_tot_len p - hlen - 8),
          pr_rtt_ms = (now - s_send_tick ps) div PING_RTI_TICKS_PER_MS, pr_ttl = get8 (hdr_view m 20 p) 8\<rparr>\<rparr>
     else q = p \<and> ps' = ps)"
proof -
  obtain sg rest where p: "p = sg # rest" using assms(1) by (cases p) auto
  show ?thesis
  proof (cases "\<not> s_waiting ps \<or> s_reply_valid ps \<or> pbuf_tot_len p < hlen + 8 \<or> pbuf_len p < hlen")
    case True
    then show ?thesis
      using assms(3,4)
      by (auto simp: ping_recv_def Let_def SIZEOF_ICMP_ECHO_HDR_def p pbuf_len_def pbuf_header_def split: if_splits)
  next
    case False
    have hd: "pbuf_header p (- int hlen) = Some (sg\<lparr>ps_hidden := ps_hidden sg @ take hlen (ps_payload sg),
        ps_payload := drop hlen (ps_payload sg)\<rparr> # rest)" (is "_ = Some ?q")
      using False by (auto simp: p pbuf_header_def pbuf_len_def)
    have restore: "pbuf_header ?q (int hlen) = Some p"
      using pbuf_header_back [OF hd assms(1,2)] by simp
    have tot: "pbuf_tot_len ?q = pbuf_tot_len p - hlen"
      using pbuf_header_bytes_hide [OF hd] by (simp add: pbuf_tot_len_bytes)
    have view: "hdr_view m 8 ?q = take 8 (drop hlen (ps_payload sg) @ junk_bytes m 8)" by (simp add: hdr_view_def)
    have eq: "ping_recv m p addr now ps = (if ping_reply_matches ps (hdr_view m 8 ?q) then
        (True, ?q, ps\<lparr>s_result := \<lparr>pr_from = addr, pr_seqno = s_seq ps,
           pr_data_len = of_nat (pbuf_tot_len ?q - SIZEOF_ICMP_ECHO_HDR),
           pr_rtt_ms = (now - s_send_tick ps) div PING_RTI_TICKS_PER_MS, pr_ttl = get8 (hdr_view m 20 p) 8\<rparr>,
           s_waiting := False, s_reply_valid := True\<rparr>)
        else (False, p, ps))"
      using False hd restore assms(3) by (simp add: ping_recv_def Let_def SIZEOF_ICMP_ECHO_HDR_def)
    show ?thesis
      using False assms(4) unfolding eq view tot
      by (auto simp: p SIZEOF_ICMP_ECHO_HDR_def split: if_splits)
  qed
qed

text \<open>The reply to the request with sequence number 1, from the counter value 77 to 18827.\<close>

definition reply_packet :: pbuf where
  "reply_packet = [\<lparr>ps_type = PBUF_POOL, ps_hidden = replicate 14 0,
     ps_payload = ip_hdr_bytes 0x45 0 (htons 60) 0 0 64 IP_PROTO_ICMP 0 0x0a000005 0x0a00000a @
       echo_hdr_bytes ICMP_ER 0 0 PING_ID 1 @ ping_data\<rparr>]"

theorem ping_recv_exact_witness:
  "let (eaten, q, ps) = ping_recv \<lparr>ms_alloc = [], ms_junk = (\<lambda>_. 0)\<rparr> reply_packet 0x0a000005 18827
       (ping_zero\<lparr>s_seq := 1, s_waiting := True, s_send_tick := 77\<rparr>)
   in eaten \<and> pr_rtt_ms (s_result ps) = 2 \<and> pr_data_len (s_result ps) = 32 \<and> pr_ttl (s_result ps) = 64"
proof -
  let ?m = "\<lparr>ms_alloc = [], ms_junk = (\<lambda>_. 0)\<rparr>" and ?ps = "ping_zero\<lparr>s_seq := 1, s_waiting := True, s_send_tick := 77\<rparr>"
  obtain eaten q ps where r: "ping_recv ?m reply_packet 0x0a000005 18827 ?ps = (eaten, q, ps)"
    by (cases "ping_recv ?m reply_packet 0x0a000005 18827 ?ps")
  have hyps: "reply_packet \<noteq> []" "ps_type (hd reply_packet) \<in> {PBUF_RAM, PBUF_POOL}"
    "20 = IPH_HL (get8 (hdr_view ?m 20 reply_packet) 0) * 4" by code_simp+
  have facts: "s_waiting ?ps" "\<not> s_reply_valid ?ps" "20 + 8 \<le> pbuf_tot_len reply_packet" "20 \<le> pbuf_len reply_packet"
    "ping_reply_matches ?ps (take 8 (drop 20 (ps_payload (hd reply_packet)) @ junk_bytes ?m 8))"
    "pbuf_tot_len reply_packet = 60" "get8 (hdr_view ?m 20 reply_packet) 8 = 64" "s_send_tick ?ps = 77"
    "(18827 - 77) div PING_RTI_TICKS_PER_MS = 2" by code_simp+
  have "eaten \<and> ps = ?ps\<lparr>s_waiting := False, s_reply_valid := True, s_result :=
      \<lparr>pr_from = 0x0a000005, pr_seqno = s_seq ?ps, pr_data_len = of_nat (60 - 20 - 8), pr_rtt_ms = 2, pr_ttl = 64\<rparr>\<rparr>"
    using ping_recv_exact [OF hyps r] facts by simp
  then show ?thesis by (simp add: r)
qed

text \<open>
  C18: the busy-wait for a reply ends. Whatever the interrupts do, and although the 32-bit counter may wrap around
  during the wait, the loop returns after at most as many iterations as the timeout has ticks, provided that the
  counter moves by at least one tick per iteration and never by more than the range that is left above the timeout.
\<close>

theorem ping_wait_ends:
  assumes "\<forall>k. 1 \<le> unat (clock (Suc k) - clock k) \<and>
    unat (clock (Suc k) - clock k) + unat (timeout_ms * PING_RTI_TICKS_PER_MS) \<le> 2 ^ 32"
  shows "\<exists>r. ping_wait_reply get upd (unat (timeout_ms * PING_RTI_TICKS_PER_MS) + 1) clock isr start timeout_ms ps = Some r"
  unfolding ping_wait_reply_def
  by (intro wait_loop_returns counter_reaches) (use assms in simp)

theorem ping_wait_ends_witness:
  "\<exists>r. ping_wait_reply id id (unat (PING_TIMEOUT_MS * PING_RTI_TICKS_PER_MS) + 1) (\<lambda>k. 0xfffffff0 + of_nat k * 100) (\<lambda>_ ps. ps)
     0xfffffff0 PING_TIMEOUT_MS ping_zero = Some r"
proof (rule ping_wait_ends, rule allI)
  fix k :: nat
  have "(0xfffffff0 + of_nat (Suc k) * 100) - (0xfffffff0 + of_nat k * 100) = (100 :: u32)" by (simp add: algebra_simps)
  then show "1 \<le> unat ((0xfffffff0 + of_nat (Suc k) * 100) - (0xfffffff0 + of_nat k * 100 :: u32)) \<and>
      unat ((0xfffffff0 + of_nat (Suc k) * 100) - (0xfffffff0 + of_nat k * 100 :: u32)) +
        unat (PING_TIMEOUT_MS * PING_RTI_TICKS_PER_MS) \<le> 2 ^ 32"
    by (simp add: PING_TIMEOUT_MS_def PING_RTI_TICKS_PER_MS_def)
qed

text \<open>
  C19: what the wait returns. If \<open>k\<close> is the first iteration that finds the time over or a reply stored, the wait
  returns that reply and empties the store, or reports the timeout and stops accepting a late reply.
\<close>

theorem ping_wait_outcome:
  assumes "\<forall>j < k. clock j - start < timeout_ms * PING_RTI_TICKS_PER_MS \<and> \<not> s_reply_valid (get (wait_trace isr j ps))"
    and "\<not> clock k - start < timeout_ms * PING_RTI_TICKS_PER_MS \<or> s_reply_valid (get (wait_trace isr k ps))" and "k < fuel"
  shows "ping_wait_reply get upd fuel clock isr start timeout_ms ps =
    (if clock k - start < timeout_ms * PING_RTI_TICKS_PER_MS
     then Some (True, Some (s_result (get (wait_trace isr k ps))), upd (s_reply_valid_update (\<lambda>_. False)) (wait_trace isr k ps))
     else Some (False, None, upd (s_waiting_update (\<lambda>_. False)) (wait_trace isr k ps)))"
  unfolding ping_wait_reply_def using assms by (intro wait_loop_result)

theorem ping_wait_outcome_witness:
  "ping_wait_reply id id 3 (\<lambda>k. of_nat k) (\<lambda>j ps. if j = 3 then ps\<lparr>s_reply_valid := True\<rparr> else ps) 0 2000 ping_zero =
     Some (True, Some (s_result ping_zero), ping_zero)"
proof -
  let ?isr = "\<lambda>(j :: nat) ps. if j = 3 then ps\<lparr>s_reply_valid := True\<rparr> else ps"
  have t: "wait_trace ?isr 0 ping_zero = ping_zero" "wait_trace ?isr 1 ping_zero = ping_zero\<lparr>s_reply_valid := True\<rparr>"
    by simp_all
  have "\<not> s_reply_valid ping_zero" "ping_zero\<lparr>s_reply_valid := False\<rparr> = ping_zero" by (simp_all add: ping_zero_def)
  with ping_wait_outcome [of 1 "\<lambda>k. of_nat k" 0 2000 id ?isr ping_zero 3 id] t show ?thesis
    by (simp add: PING_RTI_TICKS_PER_MS_def del: wait_trace.simps)
qed

end
