(* ===== verification/Icmp.thy ===== *)
theory Icmp
  imports Ping
begin

text \<open>
  The ICMP responder (\<open>core/ipv4/icmp.c\<close>): the echo reply, which is built in the received buffer with an incrementally
  adjusted checksum, and the destination-unreachable message. The incremental adjustment is shown to give a checksum
  that verifies, and the reply to be the request with the addresses exchanged.
\<close>

section \<open>Constants\<close>

definition ICMP_DUR :: u8 where "ICMP_DUR = 3"
definition ICMP_DUR_PROTO :: u8 where "ICMP_DUR_PROTO = 2"
definition ICMP_DUR_PORT :: u8 where "ICMP_DUR_PORT = 3"
definition ICMP_DEST_UNREACH_DATASIZE :: nat where "ICMP_DEST_UNREACH_DATASIZE = 8"
definition PBUF_IP_HLEN :: nat where "PBUF_IP_HLEN = 20"
definition PBUF_LINK_HLEN :: nat where "PBUF_LINK_HLEN = 14"

section \<open>Messages about a received packet\<close>

text \<open>\<open>p\<close> starts at the IP header.\<close>

definition icmp_send_response :: "pbuf \<Rightarrow> u8 \<Rightarrow> u8 \<Rightarrow> net_st \<Rightarrow> net_st" where
  "icmp_send_response p type code net =
     (case link_alloc PBUF_IP (SIZEOF_ICMP_ECHO_HDR + IP_HLEN + ICMP_DEST_UNREACH_DATASIZE) PBUF_RAM (ns_link net) of
        (None, l) \<Rightarrow> net\<lparr>ns_link := l\<rparr>
      | (Some q, l) \<Rightarrow>
         (let orig = hdr_view (lk_mem l) (IP_HLEN + ICMP_DEST_UNREACH_DATASIZE) p;
              hdr = (\<lambda>c. echo_hdr_bytes type code c 0 0);
              q = pbuf_put 0 (hdr (inet_chksum False (hdr 0 @ orig)) @ orig) q
          in snd (ip_output q IPADDR_ANY (get32 orig 12) ICMP_TTL 0 IP_PROTO_ICMP (net\<lparr>ns_link := l\<rparr>))))"

definition icmp_dest_unreach :: "pbuf \<Rightarrow> u8 \<Rightarrow> net_st \<Rightarrow> net_st" where
  "icmp_dest_unreach p t net = icmp_send_response p ICMP_DUR t net"

section \<open>The echo reply\<close>

text \<open>
  \<open>LWIP_ICMP_ECHO_CHECK_INPUT_PBUF_LEN\<close>: a buffer without room for the link header in front is replaced by a copy. The
  result is the message at the ICMP header, as it was given; \<open>None\<close> is the exit \<open>memerr\<close>.
\<close>

definition icmp_room :: "pbuf \<Rightarrow> nat \<Rightarrow> link_st \<Rightarrow> pbuf option \<times> link_st" where
  "icmp_room p hlen l =
     (case pbuf_header p (int (PBUF_IP_HLEN + PBUF_LINK_HLEN)) of
        Some q \<Rightarrow> (pbuf_header q (- int (PBUF_IP_HLEN + PBUF_LINK_HLEN)), l)
      | None \<Rightarrow>
         (case pbuf_header p (int hlen) of
            None \<Rightarrow> (None, l)
          | Some p \<Rightarrow>
             (case link_alloc PBUF_LINK (pbuf_tot_len p) PBUF_RAM l of
                (None, l) \<Rightarrow> (None, l)
              | (Some r, l) \<Rightarrow>
                 (case pbuf_copy r p of
                    (ERR_OK, r) \<Rightarrow> (pbuf_header r (- int hlen), l)
                  | _ \<Rightarrow> (None, l)))))"

definition icmp_adjust_chksum :: "u16 \<Rightarrow> u16" where
  "icmp_adjust_chksum c = (if c \<ge> 0xf7ff then c + (0x0800 + 1) else c + 0x0800)"

text \<open>
  The writes to the IP header and the ICMP header, on the bytes from the IP header on. \<open>al\<close> tells whether the IP header
  is at an odd address.
\<close>

definition echo_reply_bytes :: "bool \<Rightarrow> nat \<Rightarrow> u32 \<Rightarrow> u32 \<Rightarrow> u8 list \<Rightarrow> u8 list" where
  "echo_reply_bytes al hlen src dest bs =
     (let bs = put_bytes 12 (be32 dest) bs;
          bs = put_bytes 16 (be32 src) bs;
          bs = put_bytes hlen [ICMP_ER] bs;
          bs = put_bytes (hlen + 2) (be16 (icmp_adjust_chksum (get16 bs (hlen + 2)))) bs;
          bs = put_bytes 8 [ICMP_TTL] bs;
          bs = put_bytes 10 (be16 0) bs;
          bs = put_bytes 10 (be16 (inet_chksum al (take IP_HLEN bs))) bs
      in bs)"

text \<open>\<open>ip_output_if\<close> for \<open>IP_HDRINCL\<close>: the packet already has its header.\<close>

definition ip_output_if_hdrincl :: "pbuf \<Rightarrow> netif_ptr \<Rightarrow> net_st \<Rightarrow> err_t \<times> net_st" where
  "ip_output_if_hdrincl p nif net =
     net_link (netif_output (netifs net nif) p (get32 (hdr_view (lk_mem (ns_link net)) IP_HLEN p) 16)) net"

definition icmp_send_reply :: "pbuf \<Rightarrow> nat \<Rightarrow> u32 \<Rightarrow> u32 \<Rightarrow> netif_ptr \<Rightarrow> net_st \<Rightarrow> net_st" where
  "icmp_send_reply p hlen src dest inp net =
     (case pbuf_header p (int hlen) of
        Some (sg # rest) \<Rightarrow>
          snd (ip_output_if_hdrincl
            (sg\<lparr>ps_payload := echo_reply_bytes (odd (length (ps_hidden sg))) hlen src dest (ps_payload sg)\<rparr> # rest) inp net)
      | _ \<Rightarrow> net)"

text \<open>\<open>src\<close> and \<open>dest\<close> are \<open>current_iphdr_src\<close> and \<open>current_iphdr_dest\<close>; \<open>p\<close> starts at the IP header.\<close>

definition icmp_input :: "pbuf \<Rightarrow> netif_ptr \<Rightarrow> u32 \<Rightarrow> u32 \<Rightarrow> net_st \<Rightarrow> net_st" where
  "icmp_input p inp src dest net =
     (let m = lk_mem (ns_link net); hlen = IPH_HL (get8 (hdr_view m IP_HLEN p) 0) * 4 in
      case pbuf_header p (- int hlen) of
        None \<Rightarrow> net
      | Some p \<Rightarrow>
         if pbuf_tot_len p < 4 then net
         else if get8 (hdr_view m SIZEOF_ICMP_ECHO_HDR p) 0 \<noteq> ICMP_ECHO then net
         else if ip_addr_ismulticast dest \<or> ip4_addr_isbroadcast dest (netifs net inp) then net
         else if pbuf_tot_len p < SIZEOF_ICMP_ECHO_HDR then net
         else if inet_chksum_pbuf (chksum_view p) \<noteq> 0 then net
         else
           (case icmp_room p hlen (ns_link net) of
              (None, l) \<Rightarrow> net\<lparr>ns_link := l\<rparr>
            | (Some p, l) \<Rightarrow> icmp_send_reply p hlen src dest inp (net\<lparr>ns_link := l\<rparr>)))"

section \<open>The invariant\<close>

lemma link_wf_cong:
  assumes "netif_wf net" and "arp_wf l" and "\<not> lk_fault l"
  shows "netif_wf (net\<lparr>ns_link := l\<rparr>)"
  using assms by (simp add: netif_wf_def)

lemma icmp_send_response_wf [wf_intros]:
  assumes "netif_wf net"
  shows "netif_wf (icmp_send_response p t c net)"
  using link_alloc_netif_wf [OF assms, of PBUF_IP "SIZEOF_ICMP_ECHO_HDR + IP_HLEN + ICMP_DEST_UNREACH_DATASIZE" PBUF_RAM]
  by (auto simp: icmp_send_response_def Let_def intro!: ip_output_wf split: prod.splits option.splits)

lemma icmp_room_link:
  "snd (icmp_room p hlen l) = l \<or>
   (\<exists>q. pbuf_header p (int hlen) = Some q \<and> snd (icmp_room p hlen l) = snd (link_alloc PBUF_LINK (pbuf_tot_len q) PBUF_RAM l))"
  by (simp add: icmp_room_def split: option.splits prod.splits err_t.splits)

lemma hdrincl_wf [wf_intros]:
  assumes "netif_wf net" and "inp \<in> set (netif_list net)"
  shows "netif_wf (snd (ip_output_if_hdrincl p inp net))"
proof -
  have "netif_ready (netifs net inp)" using assms by (simp add: netif_wf_def)
  from netif_output_wf [OF this] assms(1) show ?thesis
    by (auto simp: ip_output_if_hdrincl_def netif_wf_def frame_simps)
qed

lemma icmp_send_reply_wf [wf_intros]:
  "netif_wf net \<Longrightarrow> inp \<in> set (netif_list net) \<Longrightarrow> netif_wf (icmp_send_reply p hlen src dest inp net)"
  by (auto simp: icmp_send_reply_def intro!: hdrincl_wf split: option.splits list.splits)

lemma icmp_input_wf [wf_intros]:
  assumes "netif_wf net" and "inp \<in> set (netif_list net)"
  shows "netif_wf (icmp_input p inp src dest net)"
proof -
  have room: "netif_wf (net\<lparr>ns_link := l\<rparr>)" if "icmp_room q h (ns_link net) = (r, l)" for q h r l
  proof -
    have "snd (icmp_room q h (ns_link net)) = l" using that by simp
    then show ?thesis
      using icmp_room_link [of q h "ns_link net"] link_alloc_netif_wf [OF assms(1), of PBUF_LINK _ PBUF_RAM] assms(1)
      by auto
  qed
  show ?thesis
    using assms room by (auto simp: icmp_input_def Let_def intro!: icmp_send_reply_wf split: option.splits prod.splits)
qed

lemma hdrincl_frame [frame_simps]:
  "netifs (snd (ip_output_if_hdrincl p inp net)) = netifs net"
  "netif_list (snd (ip_output_if_hdrincl p inp net)) = netif_list net"
  "netif_default (snd (ip_output_if_hdrincl p inp net)) = netif_default net"
  by (simp_all add: ip_output_if_hdrincl_def frame_simps)

lemma icmp_input_frame [frame_simps]:
  "netifs (icmp_input p inp src dest net) = netifs net"
  "netif_list (icmp_input p inp src dest net) = netif_list net"
  "netif_default (icmp_input p inp src dest net) = netif_default net"
  by (auto simp: icmp_input_def icmp_send_reply_def Let_def frame_simps split: option.splits prod.splits list.splits)

lemma ip_output_frame [frame_simps]:
  "netifs (snd (ip_output p src dest ttl tos proto st)) = netifs st"
  "netif_list (snd (ip_output p src dest ttl tos proto st)) = netif_list st"
  "netif_default (snd (ip_output p src dest ttl tos proto st)) = netif_default st"
  by (simp_all add: ip_output_def frame_simps split: option.splits)

lemma icmp_send_response_frame [frame_simps]:
  "netifs (icmp_send_response p t c net) = netifs net"
  "netif_list (icmp_send_response p t c net) = netif_list net"
  "netif_default (icmp_send_response p t c net) = netif_default net"
  by (auto simp: icmp_send_response_def Let_def frame_simps split: option.splits prod.splits)

section \<open>The reply\<close>

lemma chksum_zero_iff: "length bs \<le> 65536 \<Longrightarrow> inet_chksum al bs = 0 \<longleftrightarrow> ones_sum (nsum bs) = 65535"
proof -
  assume "length bs \<le> 65536"
  then have "unat (inet_chksum al bs) = 65535 - ones_sum (nsum bs)" by (simp add: inet_chksum_reference unat_NOT_ones_sum)
  then have "inet_chksum al bs = 0 \<longleftrightarrow> 65535 - ones_sum (nsum bs) = 0" by (simp add: word_unat_eq_iff)
  then show ?thesis using ones_sum_le [of "nsum bs"] by linarith
qed

lemma unat_adjust_chksum:
  "unat (icmp_adjust_chksum c) = (if 0xf7ff \<le> unat c then unat c + 0x0800 - 65535 else unat c + 0x0800)"
proof (cases "0xf7ff \<le> unat c")
  case True
  have "(unat c + 0x0801) mod 65536 = unat c + 0x0801 - 65536"
  proof -
    have "unat c + 0x0801 - 65536 < 65536" using unat_u16_less [of c] by linarith
    moreover have "65536 \<le> unat c + 0x0801" using True by simp
    ultimately show ?thesis by (simp only: le_mod_geq mod_less)
  qed
  then have "unat (c + 0x0801) = unat c + 0x0801 - 65536" by (simp add: unat_word_ariths)
  with True show ?thesis by (simp add: icmp_adjust_chksum_def word_le_nat_alt)
next
  case False
  then have "unat (c + 0x0800) = unat c + 0x0800" by (simp add: unat_word_ariths)
  with False show ?thesis by (simp add: icmp_adjust_chksum_def word_le_nat_alt)
qed

text \<open>
  Adding the difference of the type fields keeps the checksum correct, unless all other bytes of the message are zero
  and the adjusted field becomes zero too.
\<close>

lemma adjust_verifies:
  assumes "length body \<le> 65532" and "inet_chksum al (ICMP_ECHO # code # be16 c @ body) = 0"
    and "code \<noteq> 0 \<or> (\<exists>b \<in> set body. b \<noteq> 0)"
  shows "inet_chksum al' (ICMP_ER # code # be16 (icmp_adjust_chksum c) @ body) = 0"
proof -
  let ?r = "unat code + nsum body"
  have req: "nsum (ICMP_ECHO # code # be16 c @ body) = 0x0800 + unat c + ?r"
    by (simp add: nsum_append_even nsum_be16 ICMP_ECHO_def)
  have rep: "nsum (ICMP_ER # code # be16 (icmp_adjust_chksum c) @ body) = unat (icmp_adjust_chksum c) + ?r"
    by (simp add: nsum_append_even nsum_be16 ICMP_ER_def)
  have "?r \<noteq> 0" using assms(3) by (auto simp: nsum_eq_0 unat_gt_0)
  then have "0 < ?r" by simp
  let ?n = "unat (icmp_adjust_chksum c) + ?r"
  have "0x0800 + unat c + ?r = ?n + (if 0xf7ff \<le> unat c then 1 else 0) * 65535"
    unfolding unat_adjust_chksum by simp
  then have "?n mod 65535 = (0x0800 + unat c + ?r) mod 65535" by (metis mod_mult_self1)
  with \<open>0 < ?r\<close> have "ones_sum ?n = ones_sum (0x0800 + unat c + ?r)" by (intro ones_sum_cong) simp_all
  with assms(1,2) show ?thesis by (simp add: chksum_zero_iff req rep del: nsum.simps)
qed

lemma ones_sum_full: "ones_sum n = 65535 \<longleftrightarrow> n \<noteq> 0 \<and> n mod 65535 = 0"
proof
  assume full: "ones_sum n = 65535"
  then have "n \<noteq> 0" by (cases "n = 0") (simp_all add: ones_sum_def)
  with full show "n \<noteq> 0 \<and> n mod 65535 = 0" using ones_sum_mod [of n] by simp
next
  assume "n \<noteq> 0 \<and> n mod 65535 = 0"
  then show "ones_sum n = 65535" using ones_sum_unique [of 65535 n] by simp
qed

text \<open>And only then: of a correct request that is zero otherwise, the adjusted field becomes zero.\<close>

lemma adjust_zero_wrong:
  assumes "length body \<le> 65532" and "inet_chksum al (ICMP_ECHO # 0 # be16 c @ body) = 0" and "set body \<subseteq> {0}"
  shows "inet_chksum al' (ICMP_ER # 0 # be16 (icmp_adjust_chksum c) @ body) \<noteq> 0"
proof -
  have z: "nsum body = 0" using assms(3) by (auto simp: nsum_eq_0)
  have req: "nsum (ICMP_ECHO # 0 # be16 c @ body) = 0x0800 + unat c"
    by (simp add: nsum_append_even nsum_be16 ICMP_ECHO_def z)
  have "ones_sum (0x0800 + unat c) = 65535" using assms(1,2) by (simp add: chksum_zero_iff req del: nsum.simps)
  then have "65535 dvd 0x0800 + unat c" by (simp add: ones_sum_full mod_eq_0_iff_dvd)
  then obtain q where q: "0x0800 + unat c = 65535 * q" by (rule dvdE)
  then have "q = 1" using unat_u16_less [of c] by linarith
  then have "unat c = 0xf7ff" using q by simp
  then have "unat (icmp_adjust_chksum c) = 0" unfolding unat_adjust_chksum by simp
  then have "nsum (ICMP_ER # 0 # be16 (icmp_adjust_chksum c) @ body) = 0"
    by (simp add: nsum_append_even nsum_be16 ICMP_ER_def z)
  then show ?thesis using assms(1) by (simp add: chksum_zero_iff ones_sum_def del: nsum.simps)
qed

lemma adjust_exact:
  assumes "length body \<le> 65532" and "inet_chksum al (ICMP_ECHO # code # be16 c @ body) = 0"
  shows "inet_chksum al' (ICMP_ER # code # be16 (icmp_adjust_chksum c) @ body) = 0 \<longleftrightarrow> \<not> (code = 0 \<and> set body \<subseteq> {0})"
proof (cases "code = 0 \<and> set body \<subseteq> {0}")
  case True
  then show ?thesis using adjust_zero_wrong [OF assms(1)] assms(2) by auto
next
  case False
  then have "code \<noteq> 0 \<or> (\<exists>b \<in> set body. b \<noteq> 0)" by auto
  from adjust_verifies [OF assms this] False show ?thesis by simp
qed

lemma IPH_HL_le: "IPH_HL v \<le> 15"
proof -
  have "v AND 0x0f \<le> 0x0f" by (rule word_and_le1)
  then show ?thesis by (simp add: IPH_HL_def word_le_nat_alt)
qed

text \<open>A header whose first twenty bytes verify verifies as a whole only if its options sum to zero.\<close>

lemma options_verify:
  assumes "inet_chksum al hdr = 0" and "length hdr = 20" and "length opts \<le> 40"
  shows "inet_chksum al' (hdr @ opts) = 0 \<longleftrightarrow> nsum opts mod 65535 = 0"
proof -
  have h: "ones_sum (nsum hdr) = 65535" using assms(1,2) by (simp add: chksum_zero_iff)
  then have z: "nsum hdr \<noteq> 0" "nsum hdr mod 65535 = 0" by (simp_all add: ones_sum_full)
  have n: "nsum (hdr @ opts) = nsum hdr + nsum opts" using assms(2) by (simp add: nsum_append_even)
  have "(nsum hdr + nsum opts) mod 65535 = nsum opts mod 65535" using z(2) by (metis add_0 mod_add_left_eq)
  then have "ones_sum (nsum hdr + nsum opts) = 65535 \<longleftrightarrow> nsum opts mod 65535 = 0" using z(1) by (simp add: ones_sum_full)
  then show ?thesis using assms(2,3) n by (simp add: chksum_zero_iff)
qed

text \<open>The reply to a request with the options \<open>opts\<close> behind its header.\<close>

lemma echo_reply_bytes_packet:
  "echo_reply_bytes al (20 + length opts) src dst
     (ip_hdr_bytes v tos len idn off ttl proto c src dst @ opts @ ICMP_ECHO # code # be16 k @ body) =
   ip_hdr_bytes v tos len idn off ICMP_TTL proto
     (inet_chksum al (ip_hdr_bytes v tos len idn off ICMP_TTL proto 0 dst src)) dst src @
   opts @ ICMP_ER # code # be16 (icmp_adjust_chksum k) @ body"
proof -
  define A where "A = [v, tos] @ be16 len @ be16 idn @ be16 off"
  have A: "length A = 8" by (simp add: A_def)
  define P where "P t q a b m = A @ [t] @ [proto] @ be16 q @ be32 a @ be32 b @ opts @ [m] @ [code] @ be16 k @ body" for t q a b m
  define Q where "Q t q = A @ [t] @ [proto] @ be16 q @ be32 dst @ be32 src @ opts @ [ICMP_ER] @ [code] @
    be16 (icmp_adjust_chksum k) @ body" for t q
  have hdr: "ip_hdr_bytes v tos len idn off t proto q a b = A @ [t] @ [proto] @ be16 q @ be32 a @ be32 b" for t q a b
    by (simp add: ip_hdr_bytes_def A_def)
  have w1: "put_bytes 12 (be32 dst) (P ttl c src dst ICMP_ECHO) = P ttl c dst dst ICMP_ECHO"
    using put_bytes_at [of "A @ [ttl] @ [proto] @ be16 c" 12 "be32 dst" "be32 src"] A by (simp add: P_def)
  have w2: "put_bytes 16 (be32 src) (P ttl c dst dst ICMP_ECHO) = P ttl c dst src ICMP_ECHO"
    using put_bytes_at [of "A @ [ttl] @ [proto] @ be16 c @ be32 dst" 16 "be32 src" "be32 dst"] A by (simp add: P_def)
  have w3: "put_bytes (20 + length opts) [ICMP_ER] (P ttl c dst src ICMP_ECHO) = P ttl c dst src ICMP_ER"
    using put_bytes_at [of "A @ [ttl] @ [proto] @ be16 c @ be32 dst @ be32 src @ opts" "20 + length opts" "[ICMP_ER]" "[ICMP_ECHO]"] A
    by (simp add: P_def)
  have g: "get16 (P ttl c dst src ICMP_ER) (20 + length opts + 2) = k"
    using get16_be16 [of "A @ [ttl] @ [proto] @ be16 c @ be32 dst @ be32 src @ opts @ [ICMP_ER] @ [code]" "20 + length opts + 2" k body] A
    by (simp add: P_def)
  have w4: "put_bytes (20 + length opts + 2) (be16 (icmp_adjust_chksum k)) (P ttl c dst src ICMP_ER) = Q ttl c"
    using put_bytes_at [of "A @ [ttl] @ [proto] @ be16 c @ be32 dst @ be32 src @ opts @ [ICMP_ER] @ [code]" "20 + length opts + 2"
      "be16 (icmp_adjust_chksum k)" "be16 k"] A by (simp add: P_def Q_def)
  have w5: "put_bytes 8 [ICMP_TTL] (Q ttl c) = Q ICMP_TTL c"
    using put_bytes_at [of A 8 "[ICMP_TTL]" "[ttl]"] A by (simp add: Q_def)
  have w6: "put_bytes 10 (be16 q) (Q t q') = Q t q" for q q' t
    using put_bytes_at [of "A @ [t] @ [proto]" 10 "be16 q" "be16 q'"] A by (simp add: Q_def)
  have t: "take 20 (Q ICMP_TTL 0) = ip_hdr_bytes v tos len idn off ICMP_TTL proto 0 dst src"
    using A unfolding Q_def hdr by simp
  have "echo_reply_bytes al (20 + length opts) src dst (P ttl c src dst ICMP_ECHO) = Q ICMP_TTL (inet_chksum al (take 20 (Q ICMP_TTL 0)))"
    by (simp only: echo_reply_bytes_def Let_def IP_HLEN_def w1 w2 w3 g w4 w5 w6)
  then show ?thesis unfolding t by (simp add: hdr P_def Q_def)
qed

section \<open>Properties\<close>

text \<open>
  The received echo request in the receive buffer, behind the Ethernet header; \<open>v\<close> is the byte with version and header length,
  \<open>opts\<close> are the IP options, and \<open>body\<close> starts with the identifier.
\<close>

definition echo_packet :: "u8 \<Rightarrow> u8 \<Rightarrow> u16 \<Rightarrow> u16 \<Rightarrow> u16 \<Rightarrow> u8 \<Rightarrow> u16 \<Rightarrow> u32 \<Rightarrow> u32 \<Rightarrow> u8 list \<Rightarrow> u8 \<Rightarrow> u8 \<Rightarrow> u16 \<Rightarrow> u8 list \<Rightarrow> u8 list" where
  "echo_packet v tos len idn off ttl c src dst opts type code k body =
     ip_hdr_bytes v tos len idn off ttl IP_PROTO_ICMP c src dst @ opts @ type # code # be16 k @ body"

lemma header_hide_show:
  assumes "ps_type s \<in> {PBUF_RAM, PBUF_POOL}" and "k \<le> length (ps_payload s)"
  defines "q \<equiv> s\<lparr>ps_hidden := ps_hidden s @ take k (ps_payload s), ps_payload := drop k (ps_payload s)\<rparr>"
  shows "pbuf_header (s # r) (- int k) = Some (q # r)" and "pbuf_header (q # r) (int k) = Some (s # r)"
proof -
  show 1: "pbuf_header (s # r) (- int k) = Some (q # r)" using assms by (auto simp: pbuf_header_def)
  show "pbuf_header (q # r) (int k) = Some (s # r)" using pbuf_header_back [OF 1] assms(1) by simp
qed

lemma icmp_room_fits:
  assumes "ps_type s \<in> {PBUF_RAM, PBUF_POOL}" and "34 \<le> length (ps_hidden s)"
  shows "icmp_room (s # r) hlen l = (Some (s # r), l)"
proof -
  obtain q where q: "pbuf_header (s # r) 34 = Some q" using assms by (auto simp: pbuf_header_def Let_def)
  from pbuf_header_back [OF this] assms(1) q show ?thesis by (simp add: icmp_room_def PBUF_IP_HLEN_def PBUF_LINK_HLEN_def)
qed

text \<open>An accepted echo request is answered by its reply, through the interface that received it.\<close>

lemma icmp_input_reply:
  assumes s: "ps_type s = PBUF_POOL" "14 \<le> length (ps_hidden s)"
    and p: "ps_payload s = echo_packet v tos len idn off ttl c src dst opts ICMP_ECHO code k body" "4 \<le> length body"
    and v: "IPH_HL v * 4 = 20 + length opts"
    and dst: "\<not> ip_addr_ismulticast dst" "\<not> ip4_addr_isbroadcast dst (netifs net inp)"
    and chk: "inet_chksum False (ICMP_ECHO # code # be16 k @ body @ pbuf_bytes r) = 0"
    and small: "length (body @ pbuf_bytes r) \<le> 65500"
  obtains c' where "inet_chksum False (ip_hdr_bytes v tos len idn off ICMP_TTL IP_PROTO_ICMP c' dst src) = 0"
    "icmp_input (s # r) inp src dst net = snd (net_link (netif_output (netifs net inp)
       (s\<lparr>ps_payload := echo_packet v tos len idn off ICMP_TTL c' dst src opts ICMP_ER code (icmp_adjust_chksum k) body\<rparr> # r) src) net)"
proof -
  define hl where "hl = 20 + length opts"
  let ?m = "lk_mem (ns_link net)" and ?q = "s\<lparr>ps_hidden := ps_hidden s @ take hl (ps_payload s), ps_payload := drop hl (ps_payload s)\<rparr>"
  let ?al = "odd (length (ps_hidden s))"
  define c' where "c' = inet_chksum ?al (ip_hdr_bytes v tos len idn off ICMP_TTL IP_PROTO_ICMP 0 dst src)"
  let ?s' = "s\<lparr>ps_payload := echo_packet v tos len idn off ICMP_TTL c' dst src opts ICMP_ER code (icmp_adjust_chksum k) body\<rparr>"
  have ty: "ps_type s \<in> {PBUF_RAM, PBUF_POOL}" and lhl: "hl \<le> length (ps_payload s)"
    using s(1) p by (simp_all add: echo_packet_def hl_def)
  note hs = header_hide_show [OF ty lhl, of r]
  have hl: "IPH_HL (get8 (hdr_view ?m IP_HLEN (s # r)) 0) * 4 = hl"
    using p v by (simp add: get8_def hdr_view_def IP_HLEN_def echo_packet_def ip_hdr_bytes_def hl_def)
  have q: "ps_payload ?q = ICMP_ECHO # code # be16 k @ body" using p(1) by (simp add: echo_packet_def hl_def)
  have tot: "8 \<le> pbuf_tot_len (?q # r)" using q p(2) by (simp add: pbuf_tot_len_def)
  have type: "get8 (hdr_view ?m SIZEOF_ICMP_ECHO_HDR (?q # r)) 0 = ICMP_ECHO"
    unfolding hdr_view_def list.case q by (simp add: get8_def SIZEOF_ICMP_ECHO_HDR_def)
  have chain: "inet_chksum_pbuf (chksum_view (?q # r)) = 0"
  proof -
    have b: "concat (map snd (chksum_view (?q # r))) = ICMP_ECHO # code # be16 k @ body @ pbuf_bytes r"
      using q by (simp add: chksum_view_def pbuf_bytes_def comp_def)
    have le: "\<forall>(al, bs) \<in> set (chksum_view (?q # r)). length bs \<le> 65536"
      using small q seg_length_le [of _ r] by (fastforce simp: chksum_view_def)
    have "length (ICMP_ECHO # code # be16 k @ body @ pbuf_bytes r) \<le> 65536" using small by simp
    with chk show ?thesis by (simp only: inet_chksum_pbuf_reference [OF le] b inet_chksum_reference)
  qed
  have room: "icmp_room (?q # r) hl (ns_link net) = (Some (?q # r), ns_link net)"
    using s p by (intro icmp_room_fits) (simp_all add: echo_packet_def hl_def)
  have reply: "echo_reply_bytes ?al hl src dst (ps_payload s) = ps_payload ?s'"
    using echo_reply_bytes_packet unfolding p(1) echo_packet_def c'_def hl_def by simp
  have dest: "get32 (hdr_view ?m IP_HLEN (?s' # r)) 16 = src"
    using get32_be32 [of "[v, tos] @ be16 len @ be16 idn @ be16 off @ [ICMP_TTL, IP_PROTO_ICMP] @ be16 c' @ be32 dst" 16 src "[]"]
    by (simp add: hdr_view_def IP_HLEN_def echo_packet_def ip_hdr_bytes_def)
  have "icmp_send_reply (?q # r) hl src dst inp net = snd (net_link (netif_output (netifs net inp) (?s' # r) src) net)"
    unfolding icmp_send_reply_def hs(2) option.case list.case reply
    using dest by (simp add: ip_output_if_hdrincl_def reply)
  then have "icmp_input (s # r) inp src dst net = snd (net_link (netif_output (netifs net inp) (?s' # r) src) net)"
    unfolding icmp_input_def Let_def hl hs(1) option.case
    using tot type dst chain room by (simp add: SIZEOF_ICMP_ECHO_HDR_def)
  moreover have "inet_chksum False (ip_hdr_bytes v tos len idn off ICMP_TTL IP_PROTO_ICMP c' dst src) = 0"
    using inet_chksum_verifies [of "[v, tos] @ be16 len @ be16 idn @ be16 off @ [ICMP_TTL, IP_PROTO_ICMP]" "be32 dst @ be32 src" False ?al]
    by (simp add: c'_def ip_hdr_bytes_def be16_zero)
  ultimately show ?thesis using that by blast
qed

text \<open>
  C13: an echo request to an address of the host (not a broadcast or multicast address) with a correct checksum, with or
  without IP options, from a station whose hardware address is known, is answered by exactly one frame: the same message
  with source and destination exchanged, type echo reply, full time to live and the options, code, identifier, sequence number and
  data as they were, however the message is spread over receive buffers. The two checksums of the reply are correct in exactly
  these cases: the one of the header verifies over its first twenty bytes, hence over the whole header if and only if the
  options are absent or sum to zero (the code leaves them out); the one of the ICMP message, which is adjusted
  incrementally, verifies unless the code, identifier, sequence number and data are all zero.
\<close>

theorem icmp_echo_answered:
  assumes "netif_wf net" and inp: "inp \<in> set (netif_list net)"
    and s: "ps_type s = PBUF_POOL" "14 \<le> length (ps_hidden s)"
    and p: "ps_payload s = echo_packet v tos len idn off ttl c src dst opts ICMP_ECHO code k body" "4 \<le> length body"
    and v: "IPH_HL v * 4 = 20 + length opts"
    and dst: "\<not> ip_addr_ismulticast dst" "\<not> ip4_addr_isbroadcast dst (netifs net inp)"
    and chk: "inet_chksum False (ICMP_ECHO # code # be16 k @ body @ pbuf_bytes r) = 0"
    and small: "length (body @ pbuf_bytes r) \<le> 65500"
    and src: "\<not> ip4_addr_isbroadcast src (netifs net inp)" "\<not> ip_addr_ismulticast src"
      "next_hop (netifs net inp) src = Some h" "etharp_find_addr h (ns_link net) = Some (i, m)"
      "ae_ctime (arp_table (ns_link net) ! i) < ARP_AGE_REREQUEST_USED"
  shows "\<exists>inst c'. if_state (netifs net inp) = Some inst \<and>
    lk_tx (ns_link (icmp_input (s # r) inp src dst net)) = lk_tx (ns_link net) @
      [wire_frame inst (ip_frame (netifs net inp) m
         (ip_hdr_bytes v tos len idn off ICMP_TTL IP_PROTO_ICMP c' dst src @ opts @
          (ICMP_ER # code # be16 (icmp_adjust_chksum k) @ body @ pbuf_bytes r)))] \<and>
    inet_chksum False (ip_hdr_bytes v tos len idn off ICMP_TTL IP_PROTO_ICMP c' dst src) = 0 \<and>
    (inet_chksum False (ip_hdr_bytes v tos len idn off ICMP_TTL IP_PROTO_ICMP c' dst src @ opts) = 0 \<longleftrightarrow> nsum opts mod 65535 = 0) \<and>
    (inet_chksum False (ICMP_ER # code # be16 (icmp_adjust_chksum k) @ body @ pbuf_bytes r) = 0 \<longleftrightarrow>
       \<not> (code = 0 \<and> set (body @ pbuf_bytes r) \<subseteq> {0}))"
proof -
  let ?n = "netifs net inp" and ?hdr = "\<lambda>c. ip_hdr_bytes v tos len idn off ICMP_TTL IP_PROTO_ICMP c dst src"
  obtain inst where rdy: "link_ready ?n inst" and out: "if_output ?n = Etharp_output"
    using assms(1) inp by (auto simp: netif_wf_def netif_ready_def)
  have wf: "arp_wf (ns_link net)" using assms(1) by (simp add: netif_wf_def)
  obtain c' where c': "inet_chksum False (?hdr c') = 0"
    "icmp_input (s # r) inp src dst net = snd (net_link (netif_output ?n
       (s\<lparr>ps_payload := echo_packet v tos len idn off ICMP_TTL c' dst src opts ICMP_ER code (icmp_adjust_chksum k) body\<rparr> # r) src) net)"
    using icmp_input_reply [OF s p v dst chk small] by metis
  let ?t = "s\<lparr>ps_payload := echo_packet v tos len idn off ICMP_TTL c' dst src opts ICMP_ER code (icmp_adjust_chksum k) body\<rparr> # r"
  obtain t' where t': "pbuf_header ?t 14 = Some t'" using s by (auto simp: pbuf_header_def Let_def)
  have "length (?hdr c') = 20" "length opts \<le> 40" using IPH_HL_le [of v] v by (simp_all add: ip_hdr_bytes_def)
  note options = options_verify [OF c'(1) this, of False]
  have "length (body @ pbuf_bytes r) \<le> 65532" using small by simp
  note icmp = adjust_exact [OF this, of False code k False]
  from c' options icmp chk rdy out output_known_host [OF wf rdy t' _ src] show ?thesis
    by (intro exI [of _ inst] exI [of _ c'])
      (simp add: frame_simps netif_output_def link_ready_def echo_packet_def)
qed

text \<open>The request of the station 10.0.0.5 to the primary address, with a zero payload but identifier 1.\<close>

definition echo_body :: "u8 list" where
  "echo_body = be16 1 @ be16 0 @ replicate 8 0"

definition echo_seg :: pseg where
  "echo_seg = \<lparr>ps_type = PBUF_POOL, ps_hidden = replicate 14 0,
     ps_payload = echo_packet 0x45 0 36 7 0 64 0 0x0a000005 0x0a00000a [] ICMP_ECHO 0 0xf7fe echo_body\<rparr>"

theorem icmp_echo_answered_witness:
  "\<exists>fr hdr msg. lk_tx (ns_link (icmp_input [echo_seg] (Hdk 0) 0x0a000005 0x0a00000a (h_net boot_known))) =
     lk_tx (ns_link (h_net boot_known)) @ [fr] \<and>
     fr = wire_frame 0 (ip_frame (netifs (h_net boot_known) (Hdk 0)) [2, 0, 0, 0, 0, 5] (hdr @ msg)) \<and>
     inet_chksum False hdr = 0 \<and> inet_chksum False msg = 0"
proof -
  have wf: "netif_wf (h_net boot_known)" using boot_known_wf by (simp add: host_wf_def)
  have hyps: "Hdk 0 \<in> set (netif_list (h_net boot_known))" "ps_type echo_seg = PBUF_POOL" "14 \<le> length (ps_hidden echo_seg)"
    "4 \<le> length echo_body" "IPH_HL 0x45 * 4 = 20 + length ([] :: u8 list)" "\<not> ip_addr_ismulticast 0x0a00000a"
    "\<not> ip4_addr_isbroadcast 0x0a00000a (netifs (h_net boot_known) (Hdk 0))"
    "inet_chksum False (ICMP_ECHO # 0 # be16 0xf7fe @ echo_body @ pbuf_bytes []) = 0"
    "\<not> ip4_addr_isbroadcast 0x0a000005 (netifs (h_net boot_known) (Hdk 0))" "\<not> ip_addr_ismulticast 0x0a000005"
    "next_hop (netifs (h_net boot_known) (Hdk 0)) 0x0a000005 = Some 0x0a000005"
    "etharp_find_addr 0x0a000005 (ns_link (h_net boot_known)) = Some (0, [2, 0, 0, 0, 0, 5])"
    "ae_ctime (arp_table (ns_link (h_net boot_known)) ! 0) < ARP_AGE_REREQUEST_USED"
    "if_state (netifs (h_net boot_known) (Hdk 0)) = Some 0"
    by code_simp+
  have small: "length (echo_body @ pbuf_bytes []) \<le> 65500" by (simp add: echo_body_def)
  have nz: "\<not> ((0 :: u8) = 0 \<and> set (echo_body @ pbuf_bytes []) \<subseteq> {0})" by (simp add: echo_body_def be16_def)
  have pl: "ps_payload echo_seg = echo_packet 0x45 0 36 7 0 64 0 0x0a000005 0x0a00000a [] ICMP_ECHO 0 0xf7fe echo_body"
    by (simp add: echo_seg_def)
  from icmp_echo_answered [OF wf hyps(1,2,3) pl hyps(4-8) small hyps(9-13)] hyps(14) nz show ?thesis
    by (metis append_Nil option.inject)
qed

section \<open>Two defects\<close>

text \<open>
  When all bytes of the request besides type and checksum are zero, the adjustment turns the checksum into zero, and the
  receiver of the reply finds it wrong: the test \<open>>=\<close> should be \<open>>\<close>.
\<close>

lemma zero_echo_reply_wrong:
  "inet_chksum False (ICMP_ECHO # 0 # be16 0xf7ff @ replicate 4 0) = 0"
  "inet_chksum False (ICMP_ER # 0 # be16 (icmp_adjust_chksum 0xf7ff) @ replicate 4 0) = 0xffff"
  by code_simp+

text \<open>The header checksum of the reply covers \<open>IP_HLEN\<close> bytes also when the header has options.\<close>

definition options_request :: "u8 list" where
  "options_request = ip_hdr_bytes 0x46 0 32 7 0 64 IP_PROTO_ICMP 0 0x0a000005 0x0a00000a @ [7, 4, 0, 0] @
     ICMP_ECHO # 0 # be16 0xf7fe @ be16 1 @ be16 0"

lemma options_reply_wrong:
  "inet_chksum False (take 24 (echo_reply_bytes False 24 0x0a000005 0x0a00000a options_request)) \<noteq> 0"
  by code_simp

end
