(* ===== verification/Tcp_Reset.thy ===== *)
theory Tcp_Reset
  imports Icmp
begin

text \<open>
  TCP as this program runs it (\<open>core/tcp_in.c\<close>, \<open>core/tcp_out.c\<close>): no part of the program makes a TCP control block, so that the
  three lists that \<open>tcp_input\<close> searches are empty and every segment that is accepted ends in the branch that answers with a
  reset. The processing of segments for a connection is not modelled.
\<close>

definition IP_PROTO_TCP :: u8 where "IP_PROTO_TCP = 6"
definition TCP_HLEN :: nat where "TCP_HLEN = 20"
definition TCP_FIN :: u16 where "TCP_FIN = 0x01"
definition TCP_SYN :: u16 where "TCP_SYN = 0x02"
definition TCP_RST :: u16 where "TCP_RST = 0x04"
definition TCP_ACK :: u16 where "TCP_ACK = 0x10"
definition TCP_FLAGS :: u16 where "TCP_FLAGS = 0x3f"
definition TCP_TTL :: u8 where "TCP_TTL = 255"
definition TCP_WND :: u16 where "TCP_WND = 4096"

lemmas tcp_const_defs = TCP_FIN_def TCP_SYN_def TCP_RST_def TCP_ACK_def TCP_FLAGS_def

text \<open>\<open>struct tcp_hdr\<close>; the data offset and the flags share a word.\<close>

definition tcp_hdr_bytes :: "u16 \<Rightarrow> u16 \<Rightarrow> u32 \<Rightarrow> u32 \<Rightarrow> u16 \<Rightarrow> u16 \<Rightarrow> u16 \<Rightarrow> u16 \<Rightarrow> u8 list" where
  "tcp_hdr_bytes src dest seqno ackno hdrlen_flags wnd chksum urgp =
     be16 src @ be16 dest @ be32 seqno @ be32 ackno @ be16 hdrlen_flags @ be16 wnd @ be16 chksum @ be16 urgp"

definition TCPH_HDRLEN :: "u16 \<Rightarrow> nat" where "TCPH_HDRLEN w = unat (drop_bit 12 (ntohs w))"
definition TCPH_FLAGS :: "u16 \<Rightarrow> u16" where "TCPH_FLAGS w = ntohs w AND TCP_FLAGS"

definition tcp_rst :: "u32 \<Rightarrow> u32 \<Rightarrow> u32 \<Rightarrow> u32 \<Rightarrow> u16 \<Rightarrow> u16 \<Rightarrow> net_st \<Rightarrow> net_st" where
  "tcp_rst seqno ackno local_ip remote_ip local_port remote_port net =
     (case link_alloc PBUF_IP TCP_HLEN PBUF_RAM (ns_link net) of
        (None, l) \<Rightarrow> net\<lparr>ns_link := l\<rparr>
      | (Some p, l) \<Rightarrow>
         (let hdr = (\<lambda>k. tcp_hdr_bytes (htons local_port) (htons remote_port) (htonl seqno) (htonl ackno)
                (htons (push_bit 12 (of_nat (TCP_HLEN div 4)) OR (TCP_RST OR TCP_ACK))) (htons TCP_WND) k 0);
              p = pbuf_put 0 (hdr 0) p;
              k = inet_chksum_pseudo (chksum_view p) local_ip remote_ip IP_PROTO_TCP (of_nat (pbuf_tot_len p));
              p = pbuf_put 0 (hdr k) p
          in snd (ip_output p local_ip remote_ip TCP_TTL 0 IP_PROTO_TCP (net\<lparr>ns_link := l\<rparr>))))"

text \<open>The branch of \<open>tcp_input\<close> for a segment without a control block.\<close>

definition tcp_no_match :: "u8 list \<Rightarrow> u16 \<Rightarrow> u32 \<Rightarrow> u32 \<Rightarrow> net_st \<Rightarrow> net_st" where
  "tcp_no_match tcphdr tcplen src dest net =
     (let seqno = ntohl (get32 tcphdr 4);
          ackno = ntohl (get32 tcphdr 8)
      in if TCPH_FLAGS (get16 tcphdr 12) AND TCP_RST = 0 then
           tcp_rst ackno (seqno + ucast tcplen) dest src (ntohs (get16 tcphdr 2)) (ntohs (get16 tcphdr 0)) net
         else net)"

text \<open>
  \<open>p\<close> starts at the IP header; \<open>src\<close> and \<open>dest\<close> are \<open>current_iphdr_src\<close> and \<open>current_iphdr_dest\<close>. The searches in the three
  empty lists find nothing.
\<close>

definition tcp_input :: "pbuf \<Rightarrow> netif_ptr \<Rightarrow> u32 \<Rightarrow> u32 \<Rightarrow> net_st \<Rightarrow> net_st" where
  "tcp_input p inp src dest net =
     (let m = lk_mem (ns_link net); hlen = IPH_HL (get8 (hdr_view m IP_HLEN p) 0) * 4 in
      case pbuf_header p (- int hlen) of
        None \<Rightarrow> net
      | Some p \<Rightarrow>
         if pbuf_tot_len p < TCP_HLEN then net
         else if ip4_addr_isbroadcast dest (netifs net inp) \<or> ip_addr_ismulticast dest then net
         else if inet_chksum_pseudo (chksum_view p) src dest IP_PROTO_TCP (of_nat (pbuf_tot_len p)) \<noteq> 0 then net
         else
           (let tcphdr = hdr_view m TCP_HLEN p in
            case pbuf_header p (- int (TCPH_HDRLEN (get16 tcphdr 12) * 4)) of
              None \<Rightarrow> net
            | Some p \<Rightarrow>
               (let flags = TCPH_FLAGS (get16 tcphdr 12);
                    tcplen = of_nat (pbuf_tot_len p) + (if flags AND (TCP_FIN OR TCP_SYN) \<noteq> 0 then 1 else 0) :: u16
                in tcp_no_match tcphdr tcplen src dest net)))"

section \<open>The invariant\<close>

lemma tcp_rst_wf [wf_intros]:
  assumes "netif_wf net"
  shows "netif_wf (tcp_rst seqno ackno l r lp rp net)"
  using link_alloc_netif_wf [OF assms, of PBUF_IP TCP_HLEN PBUF_RAM]
  by (auto simp: tcp_rst_def Let_def intro!: ip_output_wf split: prod.splits option.splits)

lemma tcp_rst_frame [frame_simps]:
  "netifs (tcp_rst seqno ackno l r lp rp net) = netifs net"
  "netif_list (tcp_rst seqno ackno l r lp rp net) = netif_list net"
  "netif_default (tcp_rst seqno ackno l r lp rp net) = netif_default net"
  by (auto simp: tcp_rst_def Let_def frame_simps split: option.splits prod.splits)

lemma tcp_input_wf [wf_intros]:
  "netif_wf net \<Longrightarrow> netif_wf (tcp_input p inp src dest net)"
  by (auto simp: tcp_input_def tcp_no_match_def Let_def intro!: tcp_rst_wf split: option.splits)

lemma tcp_input_frame [frame_simps]:
  "netifs (tcp_input p inp src dest net) = netifs net"
  "netif_list (tcp_input p inp src dest net) = netif_list net"
  "netif_default (tcp_input p inp src dest net) = netif_default net"
  by (auto simp: tcp_input_def tcp_no_match_def Let_def frame_simps split: option.splits)

section \<open>The reset\<close>

lemma length_tcp_hdr_bytes [simp]: "length (tcp_hdr_bytes a b c d e f g h) = 20"
  by (simp add: tcp_hdr_bytes_def)

lemma tcp_hdr_fields:
  "get16 (tcp_hdr_bytes sport dport seqno ackno hf wnd k urg @ r) 0 = sport"
  "get16 (tcp_hdr_bytes sport dport seqno ackno hf wnd k urg @ r) 2 = dport"
  "get32 (tcp_hdr_bytes sport dport seqno ackno hf wnd k urg @ r) 4 = seqno"
  "get32 (tcp_hdr_bytes sport dport seqno ackno hf wnd k urg @ r) 8 = ackno"
  "get16 (tcp_hdr_bytes sport dport seqno ackno hf wnd k urg @ r) 12 = hf"
  by (simp_all add: tcp_hdr_bytes_def get16_def get32_def be16_def be32_def)

text \<open>The number of sequence numbers that a segment takes.\<close>

definition seg_len :: "u16 \<Rightarrow> u8 list \<Rightarrow> u32" where
  "seg_len hf data = of_nat (length data + (if TCPH_FLAGS hf AND (TCP_FIN OR TCP_SYN) \<noteq> 0 then 1 else 0))"

lemma seg_len_word:
  assumes "length data < 65535"
  shows "ucast (of_nat (length data) + (if b then 1 else 0) :: u16) = (of_nat (length data + (if b then 1 else 0)) :: u32)"
proof -
  have u: "unat (of_nat n :: u16) = n" if "n < 65536" for n using that by (simp add: unat_of_nat)
  have "unat (ucast (of_nat n :: u16) :: u32) = n" if "n < 65536" for n
    using u [OF that] that by (simp only: unsigned_ucast_eq) (simp add: take_bit_nat_eq_self)
  moreover have "unat (of_nat n :: u32) = n" if "n < 65536" for n using that by (simp add: unat_of_nat)
  ultimately have "ucast (of_nat n :: u16) = (of_nat n :: u32)" if "n < 65536" for n
    using that by (intro word_unat_eq_iff [THEN iffD2]) simp
  from this [of "length data"] this [of "length data + 1"] assms show ?thesis by (cases b) (simp_all add: add.commute)
qed

lemma nsum_tcp_field:
  "nsum (be32 l @ be32 r @ [0, proto] @ be16 len @ tcp_hdr_bytes a b c d e f k g) =
   nsum (be32 l @ be32 r @ [0, proto] @ be16 len @ tcp_hdr_bytes a b c d e f 0 g) + unat k"
  by (simp add: tcp_hdr_bytes_def nsum_append_even nsum_be16)

text \<open>The reset segment, with the checksum that \<open>tcp_rst\<close> computes.\<close>

definition rst_segment :: "u32 \<Rightarrow> u32 \<Rightarrow> u32 \<Rightarrow> u32 \<Rightarrow> u16 \<Rightarrow> u16 \<Rightarrow> u8 list" where
  "rst_segment seqno ackno l r lp rp =
     (let hdr = (\<lambda>k. tcp_hdr_bytes lp rp seqno ackno 0x5014 TCP_WND k 0)
      in hdr (inet_chksum_pseudo [(False, hdr 0)] l r IP_PROTO_TCP 20))"

lemma length_rst_segment [simp]: "length (rst_segment s a l r lp rp) = 20"
  by (simp add: rst_segment_def Let_def)

lemma rst_segment_verifies: "inet_chksum_pseudo [(False, rst_segment s a l r lp rp)] l r IP_PROTO_TCP 20 = 0"
proof -
  let ?d = "\<lambda>k. be32 l @ be32 r @ [0, IP_PROTO_TCP] @ be16 20 @ tcp_hdr_bytes lp rp s a 0x5014 TCP_WND k 0"
  define k where "k = inet_chksum_pseudo [(False, tcp_hdr_bytes lp rp s a 0x5014 TCP_WND 0 0)] l r IP_PROTO_TCP 20"
  have "k = NOT (of_nat (ones_sum (nsum (?d 0))))" unfolding k_def by (subst inet_chksum_pseudo_reference) simp_all
  then have uk: "unat k = 65535 - ones_sum (nsum (?d 0))" using unat_NOT_ones_sum by simp
  have "nsum (?d k) = 65535 - ones_sum (nsum (?d 0)) + nsum (?d 0)" using uk by (subst nsum_tcp_field) simp
  then have one: "ones_sum (nsum (?d k)) = 65535" by (simp only: ones_sum_complete)
  have "inet_chksum_pseudo [(False, rst_segment s a l r lp rp)] l r IP_PROTO_TCP 20 = NOT (of_nat (ones_sum (nsum (?d k))))"
    by (subst inet_chksum_pseudo_reference) (simp_all add: rst_segment_def k_def)
  then show ?thesis unfolding one by simp
qed

lemma tcp_rst_sent:
  assumes "netif_wf net" and route: "ip_route r net = Some nif"
    and dst: "\<not> ip4_addr_isbroadcast r (netifs net nif)" "\<not> ip_addr_ismulticast r" "next_hop (netifs net nif) r = Some h"
    and hit: "etharp_find_addr h (ns_link net) = Some (i, m)" "ae_ctime (arp_table (ns_link net) ! i) < ARP_AGE_REREQUEST_USED"
    and res: "ms_alloc (lk_mem (ns_link net)) = []"
  obtains inst where "if_state (netifs net nif) = Some inst"
    "lk_tx (ns_link (tcp_rst seqno ackno l r lp rp net)) = lk_tx (ns_link net) @
      [wire_frame inst (ip_frame (netifs net nif) m
        (ip_packet (netifs net nif) l r TCP_TTL 0 IP_PROTO_TCP (ip_id net) (rst_segment seqno ackno l r lp rp)))]"
proof -
  obtain p t where a: "link_alloc PBUF_IP TCP_HLEN PBUF_RAM (ns_link net) = (Some p, t)" using link_alloc_succeeds [OF res] .
  have t: "arp_table t = arp_table (ns_link net)" "lk_tx t = lk_tx (ns_link net)"
    using a link_alloc_frame [of PBUF_IP TCP_HLEN PBUF_RAM "ns_link net"] by simp_all
  let ?net = "net\<lparr>ns_link := t\<rparr>" and ?h = "\<lambda>k. tcp_hdr_bytes lp rp seqno ackno 0x5014 TCP_WND k 0"
  have wf: "netif_wf ?net" using link_alloc_netif_wf [OF assms(1)] a by (metis snd_conv)
  have nif: "nif \<in> set (netif_list ?net)" using ip_route_Some [OF assms(1) route] by simp
  have fill: "\<exists>s. pbuf_put 0 (?h k) p = [s] \<and> ps_payload s = ?h k \<and> roomy 34 s" for k
    using link_alloc_fill [of PBUF_IP "?h k" _ p t 34] a by (auto simp: layer_offset_def TCP_HLEN_def)
  obtain s0 where s0: "pbuf_put 0 (?h 0) p = [s0]" "ps_payload s0 = ?h 0" using fill [of 0] by blast
  let ?k = "inet_chksum_pseudo [(False, ?h 0)] l r IP_PROTO_TCP 20"
  have k: "inet_chksum_pseudo (chksum_view [s0]) l r IP_PROTO_TCP (of_nat (pbuf_tot_len [s0])) = ?k"
    using chksum_view_reference [of s0] s0(2) by (simp add: pbuf_tot_len_bytes)
  have put: "\<exists>s. pbuf_put 0 (?h ?k) [s0] = [s] \<and> ps_payload s = rst_segment seqno ackno l r lp rp \<and> roomy 34 s"
    using fill [of 0] s0 by (auto simp: pbuf_put_def put_bytes_def rst_segment_def Let_def roomy_def)
  then obtain s where s: "pbuf_put 0 (?h ?k) [s0] = [s]" "ps_payload s = rst_segment seqno ackno l r lp rp" "roomy 34 s" by blast
  have hf: "push_bit 12 (of_nat (TCP_HLEN div 4)) OR (TCP_RST OR TCP_ACK) = 0x5014"
    by (simp add: TCP_HLEN_def TCP_RST_def TCP_ACK_def)
  have rt: "ip_route r ?net = Some nif" using route by (simp add: ip_route_def cong: option.case_cong)
  have "tcp_rst seqno ackno l r lp rp net = snd (ip_output_if [s] l r TCP_TTL 0 IP_PROTO_TCP nif ?net)"
    unfolding tcp_rst_def a prod.case option.case Let_def byteorder_simps hf s0(1) k s(1) ip_output_def rt ..
  moreover have "etharp_find_addr h (ns_link ?net) = Some (i, m)" "ae_ctime (arp_table (ns_link ?net) ! i) < ARP_AGE_REREQUEST_USED"
    using hit find_addr_cong [OF t(1)] by (simp_all add: t(1))
  ultimately show ?thesis
    using ip_output_if_delivers [OF wf nif s(3), of r h i m l TCP_TTL 0 IP_PROTO_TCP] dst that t(2) s(2) by auto
qed

end
