(* ===== verification/Rx_Path.thy ===== *)
theory Rx_Path
  imports Alias_Filter Icmp Tcp_Reset "HOL-Library.Multiset"
begin

text \<open>
  The receive path: \<open>ethernet_input\<close> (\<open>netif/etharp.c\<close>) with the alias filter, \<open>ip_input\<close> (\<open>core/ipv4/ip.c\<close>),
  \<open>raw_input\<close> (\<open>core/raw.c\<close>), \<open>udp_input\<close> (\<open>core/udp.c\<close>) and the device locator (\<open>ports/hdk/locator.c\<close>). It runs in the
  receive interrupt, as one step from a received frame. The receive path is shown to keep the invariant of the whole system for every frame, to deliver a datagram
  to the socket that is bound to its destination and to no other, and to drop what is damaged.
\<close>

section \<open>State\<close>

record sys_st =
  sy_host :: host_st
  sy_ping :: ping_st
  sy_locator :: "u8 list"

definition IP_OFFMASK :: u16 where "IP_OFFMASK = 0x1fff"
definition IP_MF :: u16 where "IP_MF = 0x2000"
definition DHCP_CLIENT_PORT :: u16 where "DHCP_CLIENT_PORT = 68"
definition DHCP_SERVER_PORT :: u16 where "DHCP_SERVER_PORT = 67"

definition sys_net :: "sys_st \<Rightarrow> net_st" where
  "sys_net s = h_net (sy_host s)"

definition set_net :: "net_st \<Rightarrow> sys_st \<Rightarrow> sys_st" where
  "set_net net s = s\<lparr>sy_host := (sy_host s)\<lparr>h_net := net\<rparr>\<rparr>"

section \<open>RAW input\<close>

text \<open>
  The loop over the control blocks: \<open>prev\<close> are those already visited. \<open>now\<close> is the counter value that the ping hook
  reads. The boolean tells whether the packet was eaten; otherwise it is given back.
\<close>

fun raw_loop :: "mem_st \<Rightarrow> u32 \<Rightarrow> u8 \<Rightarrow> u32 \<Rightarrow> u32 \<Rightarrow> nat list \<Rightarrow> nat list \<Rightarrow> pbuf \<Rightarrow> ping_st \<Rightarrow> bool \<times> pbuf \<times> ping_st" where
  "raw_loop m now proto src dest prev [] p ps = (False, p, ps)"
| "raw_loop m now proto src dest prev (pcb # rest) p ps =
     (let c = raw_at (pg_raw ps) pcb in
      if rp_protocol c = proto \<and> (ip_addr_isany (rp_local_ip c) \<or> rp_local_ip c = dest) \<and> rp_recv c = Ping_recv then
        (case ping_recv m p src now ps of
           (True, p, ps) \<Rightarrow>
             (True, p, if prev = [] then ps
                       else ps\<lparr>pg_raw := (pg_raw ps)\<lparr>raw_pcbs := pcb # prev @ rest\<rparr>\<rparr>)
         | (False, p, ps) \<Rightarrow> raw_loop m now proto src dest (prev @ [pcb]) rest p ps)
      else raw_loop m now proto src dest (prev @ [pcb]) rest p ps)"

definition raw_input :: "mem_st \<Rightarrow> u32 \<Rightarrow> pbuf \<Rightarrow> u32 \<Rightarrow> u32 \<Rightarrow> ping_st \<Rightarrow> bool \<times> pbuf \<times> ping_st" where
  "raw_input m now p src dest ps =
     raw_loop m now (get8 (hdr_view m IP_HLEN p) 9) src dest [] (raw_pcbs (pg_raw ps)) p ps"

section \<open>The device locator\<close>

definition TAG_CMD :: u8 where "TAG_CMD = 0xff"
definition TAG_STATUS :: u8 where "TAG_STATUS = 0xfe"
definition CMD_DISCOVER_TARGET :: u8 where "CMD_DISCOVER_TARGET = 0x02"

definition locator_valid :: "mem_st \<Rightarrow> pbuf \<Rightarrow> bool" where
  "locator_valid m p \<longleftrightarrow>
     (let d = hdr_view m 4 p in
      pbuf_len p = 4 \<and> get8 d 0 = TAG_CMD \<and> get8 d 1 = 4 \<and> get8 d 2 = CMD_DISCOVER_TARGET \<and>
      get8 d 3 = 0 - TAG_CMD - 4 - CMD_DISCOVER_TARGET)"

definition locator_sum :: "u8 list \<Rightarrow> u8 list" where
  "locator_sum d = d[83 := foldl (-) 0 (take 83 d)]"

definition LocatorReceive :: "nat \<Rightarrow> pbuf \<Rightarrow> u32 \<Rightarrow> u16 \<Rightarrow> sys_st \<Rightarrow> sys_st" where
  "LocatorReceive pcb p addr port s =
     (if \<not> locator_valid (lk_mem (ns_link (sys_net s))) p then s
      else
        (case link_alloc PBUF_TRANSPORT 84 PBUF_RAM (ns_link (sys_net s)) of
           (None, l) \<Rightarrow> set_net ((sys_net s)\<lparr>ns_link := l\<rparr>) s
         | (Some q, l) \<Rightarrow>
            (let s = s\<lparr>sy_locator := locator_sum (sy_locator s)\<rparr>;
                 h = sy_host s;
                 (e, st) = udp_sendto pcb (pbuf_put 0 (sy_locator s) q) addr port
                             \<lparr>st_net = (h_net h)\<lparr>ns_link := l\<rparr>, st_udp = h_udp h\<rparr>
             in s\<lparr>sy_host := h\<lparr>h_net := st_net st, h_udp := st_udp st\<rparr>\<rparr>)))"

text \<open>
  \<open>LocatorConfig\<close>: the response data and the control block. \<open>None\<close> stands for the use of the null pointer that
  \<open>udp_new\<close> returns when no control block is left.
\<close>

definition locator_data :: "u8 list \<Rightarrow> string \<Rightarrow> u8 list" where
  "locator_data macArray appTitle =
     (let title = map of_char (take 64 (cstr appTitle))
      in [TAG_STATUS, 84, CMD_DISCOVER_TARGET] @ replicate 6 0 @ take 6 macArray @ replicate 4 0 @ title @
         replicate (64 - length title) 0 @ [0])"

definition LocatorConfig :: "u8 list \<Rightarrow> string \<Rightarrow> udp_st \<Rightarrow> (u8 list \<times> udp_st) option" where
  "LocatorConfig macArray appTitle u =
     (case udp_new u of
        (None, u) \<Rightarrow> None
      | (Some pcb, u) \<Rightarrow>
         (let u = udp_recv pcb udp_recv_fn.LocatorReceive u;
              u = snd (udp_bind pcb IPADDR_ANY 23 u);
              u = snd (udp_connect pcb IPADDR_ANY 23 u)
          in Some (locator_data macArray appTitle, u)))"

section \<open>UDP input\<close>

definition local_match :: "udp_st \<Rightarrow> netif \<Rightarrow> u32 \<Rightarrow> u16 \<Rightarrow> bool \<Rightarrow> nat \<Rightarrow> bool" where
  "local_match u inp dest_ip dest broadcast pcb \<longleftrightarrow>
     (let c = pcb_at u pcb in
      pcb_local_port c = dest \<and>
      (\<not> broadcast \<and> ip_addr_isany (pcb_local_ip c) \<or> pcb_local_ip c = dest_ip \<or>
       broadcast \<and> (ip_addr_isany (pcb_local_ip c) \<or> ip_addr_netcmp (pcb_local_ip c) dest_ip (if_netmask inp))))"

definition remote_match :: "udp_st \<Rightarrow> u32 \<Rightarrow> u16 \<Rightarrow> nat \<Rightarrow> bool" where
  "remote_match u src_ip src pcb \<longleftrightarrow>
     (let c = pcb_at u pcb in
      pcb_remote_port c = src \<and> (ip_addr_isany (pcb_remote_ip c) \<or> pcb_remote_ip c = src_ip))"

definition unconnected :: "udp_st \<Rightarrow> nat \<Rightarrow> bool" where
  "unconnected u pcb \<longleftrightarrow> pcb_flags (pcb_at u pcb) AND UDP_FLAGS_CONNECTED = 0"

text \<open>
  The search: the first control block that matches locally and remotely is moved to the front; without one, the first
  unconnected local match is used. The result has the new list.
\<close>

fun demux_loop :: "(nat \<Rightarrow> bool) \<Rightarrow> (nat \<Rightarrow> bool) \<Rightarrow> (nat \<Rightarrow> bool) \<Rightarrow> nat list \<Rightarrow> nat list \<Rightarrow> nat option \<Rightarrow> nat option \<times> nat list" where
  "demux_loop loc rem unc prev [] uncon = (uncon, prev)"
| "demux_loop loc rem unc prev (pcb # rest) uncon =
     (if loc pcb \<and> rem pcb then (Some pcb, if prev = [] then pcb # rest else pcb # prev @ rest)
      else demux_loop loc rem unc (prev @ [pcb]) rest
             (if loc pcb \<and> uncon = None \<and> unc pcb then Some pcb else uncon))"

definition udp_demux :: "netif \<Rightarrow> u32 \<Rightarrow> u32 \<Rightarrow> u16 \<Rightarrow> u16 \<Rightarrow> udp_st \<Rightarrow> nat option \<times> udp_st" where
  "udp_demux inp src_ip dest_ip src dest u =
     (if dest = DHCP_CLIENT_PORT then
        (if src = DHCP_SERVER_PORT then
           (case if_dhcp inp of
              None \<Rightarrow> (None, u)
            | Some pcb \<Rightarrow>
               (if ip_addr_isany (pcb_remote_ip (pcb_at u pcb)) \<or> pcb_remote_ip (pcb_at u pcb) = src_ip
                then Some pcb else None, u))
         else (None, u))
      else
        (let (pcb, pcbs) = demux_loop (local_match u inp dest_ip dest (ip4_addr_isbroadcast dest_ip inp))
                             (remote_match u src_ip src) (unconnected u) [] (udp_pcbs u) None
         in (pcb, u\<lparr>udp_pcbs := pcbs\<rparr>)))"

definition udp_deliver :: "nat \<Rightarrow> pbuf \<Rightarrow> u32 \<Rightarrow> u16 \<Rightarrow> sys_st \<Rightarrow> sys_st" where
  "udp_deliver pcb p addr port s =
     (case pcb_recv (pcb_at (h_udp (sy_host s)) pcb) of
        No_recv \<Rightarrow> s
      | Udp_rx_callback i \<Rightarrow> s\<lparr>sy_host := snd (udp_rx_callback i p addr port (sy_host s))\<rparr>
      | udp_recv_fn.LocatorReceive \<Rightarrow> LocatorReceive pcb p addr port s)"

text \<open>
  What follows the search, for the control block it found: the checksum, the callback, or the port-unreachable message.
  \<open>q\<close> starts at the UDP header.
\<close>

definition udp_accept :: "pbuf \<Rightarrow> nat \<Rightarrow> netif \<Rightarrow> u32 \<Rightarrow> u32 \<Rightarrow> u8 list \<Rightarrow> nat option \<Rightarrow> sys_st \<Rightarrow> sys_st" where
  "udp_accept q hlen n src_ip dest_ip udphdr pcb s =
     (if pcb = None \<and> if_ip_addr n \<noteq> dest_ip then s
      else if get16 udphdr 6 \<noteq> 0 \<and>
        inet_chksum_pseudo (chksum_view q) src_ip dest_ip IP_PROTO_UDP (of_nat (pbuf_tot_len q)) \<noteq> 0 then s
      else case pbuf_header q (- int UDP_HLEN) of
        None \<Rightarrow> s
      | Some d \<Rightarrow>
         (case pcb of
            Some pcb \<Rightarrow> udp_deliver pcb d src_ip (ntohs (get16 udphdr 0)) s
          | None \<Rightarrow>
             if \<not> ip4_addr_isbroadcast dest_ip n \<and> \<not> ip_addr_ismulticast dest_ip then
               set_net (icmp_dest_unreach
                 (case pbuf_header d (int (hlen + UDP_HLEN)) of None \<Rightarrow> d | Some p \<Rightarrow> p)
                 ICMP_DUR_PORT (sys_net s)) s
             else s))"

text \<open>\<open>p\<close> starts at the IP header; \<open>src_ip\<close> and \<open>dest_ip\<close> are \<open>current_iphdr_src\<close> and \<open>current_iphdr_dest\<close>.\<close>

definition udp_input :: "pbuf \<Rightarrow> netif_ptr \<Rightarrow> u32 \<Rightarrow> u32 \<Rightarrow> sys_st \<Rightarrow> sys_st" where
  "udp_input p inp src_ip dest_ip s =
     (let m = lk_mem (ns_link (sys_net s)); hlen = IPH_HL (get8 (hdr_view m IP_HLEN p) 0) * 4 in
      if pbuf_tot_len p < hlen + UDP_HLEN then s
      else case pbuf_header p (- int hlen) of
        None \<Rightarrow> s
      | Some q \<Rightarrow>
         (let n = netifs (sys_net s) inp;
              udphdr = hdr_view m UDP_HLEN q;
              (pcb, u) = udp_demux n src_ip dest_ip (ntohs (get16 udphdr 0)) (ntohs (get16 udphdr 2)) (h_udp (sy_host s))
          in udp_accept q hlen n src_ip dest_ip udphdr pcb (s\<lparr>sy_host := (sy_host s)\<lparr>h_udp := u\<rparr>\<rparr>)))"

section \<open>IP input\<close>

definition accepts :: "u32 \<Rightarrow> netif \<Rightarrow> bool" where
  "accepts dest n \<longleftrightarrow>
     netif_is_up n \<and> \<not> ip_addr_isany (if_ip_addr n) \<and> (dest = if_ip_addr n \<or> ip4_addr_isbroadcast dest n)"

text \<open>The interface that accepts the packet: \<open>inp\<close> first, then the list without \<open>inp\<close>.\<close>

definition ip_accept :: "u32 \<Rightarrow> netif_ptr \<Rightarrow> net_st \<Rightarrow> netif_ptr option" where
  "ip_accept dest inp net = find (\<lambda>n. accepts dest (netifs net n)) (inp # filter (\<lambda>n. n \<noteq> inp) (netif_list net))"

definition IP_ACCEPT_LINK_LAYER_ADDRESSED_PORT :: "u16 \<Rightarrow> bool" where
  "IP_ACCEPT_LINK_LAYER_ADDRESSED_PORT port \<longleftrightarrow> port = ntohs DHCP_CLIENT_PORT"

text \<open>The protocols behind the IP header; \<open>p\<close> starts at the IP header.\<close>

definition ip_deliver :: "u8 \<Rightarrow> pbuf \<Rightarrow> netif_ptr \<Rightarrow> u32 \<Rightarrow> u32 \<Rightarrow> sys_st \<Rightarrow> sys_st" where
  "ip_deliver proto p inp src dest s =
     (if proto = IP_PROTO_UDP then udp_input p inp src dest s
      else if proto = IP_PROTO_TCP then set_net (tcp_input p inp src dest (sys_net s)) s
      else if proto = IP_PROTO_ICMP then set_net (icmp_input p inp src dest (sys_net s)) s
      else if \<not> ip4_addr_isbroadcast dest (netifs (sys_net s) inp) \<and> \<not> ip_addr_ismulticast dest
      then set_net (icmp_dest_unreach p ICMP_DUR_PROTO (sys_net s)) s
      else s)"

definition ip_input :: "u32 \<Rightarrow> pbuf \<Rightarrow> netif_ptr \<Rightarrow> sys_st \<Rightarrow> sys_st" where
  "ip_input now p inp s =
     (let net = sys_net s; m = lk_mem (ns_link net); iphdr = hdr_view m IP_HLEN p;
          iphdr_hlen = IPH_HL (get8 iphdr 0) * 4; iphdr_len = unat (ntohs (get16 iphdr 2)) in
      if drop_bit 4 (get8 iphdr 0) \<noteq> 4 then s
      else if iphdr_hlen > pbuf_len p \<or> iphdr_len > pbuf_tot_len p then s
      else if inet_chksum (odd (length (ps_hidden (hd p)))) (take iphdr_hlen (ps_payload (hd p))) \<noteq> 0 then s
      else
        (let dest_port = get16 (take (iphdr_hlen + UDP_HLEN) (ps_payload (hd p) @ junk_bytes m (iphdr_hlen + UDP_HLEN)))
               (iphdr_hlen + 2);
             p = pbuf_realloc p iphdr_len;
             dest = get32 iphdr 16; src = get32 iphdr 12;
             found = ip_accept dest inp net;
             by_port = (found = None \<and> get8 iphdr 9 = IP_PROTO_UDP \<and> IP_ACCEPT_LINK_LAYER_ADDRESSED_PORT dest_port)
         in if \<not> by_port \<and> \<not> ip_addr_isany src \<and>
               (ip4_addr_isbroadcast src (netifs net inp) \<or> ip_addr_ismulticast src) then s
            else if found = None \<and> \<not> by_port then s
            else if get16 iphdr 6 AND (IP_OFFMASK OR IP_MF) \<noteq> 0 then s
            else
              (case raw_input m now p src dest (sy_ping s) of
                 (True, p, ps) \<Rightarrow> s\<lparr>sy_ping := ps\<rparr>
               | (False, p, ps) \<Rightarrow> ip_deliver (get8 iphdr 9) p inp src dest (s\<lparr>sy_ping := ps\<rparr>))))"

section \<open>Ethernet input\<close>

text \<open>
  A frame as the driver hands it up. The multicast and broadcast marks that the function puts on the buffer have no
  reader. The return value is always \<open>ERR_OK\<close>.
\<close>

definition ethernet_input :: "u32 \<Rightarrow> pbuf \<Rightarrow> netif_ptr \<Rightarrow> sys_st \<Rightarrow> sys_st" where
  "ethernet_input now p netif s =
     (if pbuf_len p \<le> SIZEOF_ETH_HDR then s
      else
        (let type = get16 (ps_payload (hd p)) 12;
             net = sys_net s;
             nif = (case netif_alias_route_filter (Some p) (Some netif) (htons type) net of
                      Some n \<Rightarrow> n | None \<Rightarrow> netif);
             n = netifs net nif
         in if type = ETHTYPE_IP then
              (if if_flags n AND NETIF_FLAG_ETHARP = 0 then s
               else case pbuf_header p (- int SIZEOF_ETH_HDR) of
                 None \<Rightarrow> s
               | Some q \<Rightarrow> ip_input now q nif s)
            else if type = ETHTYPE_ARP then
              (if if_flags n AND NETIF_FLAG_ETHARP = 0 then s
               else set_net (net\<lparr>ns_link := etharp_arp_input nif n p (ns_link net)\<rparr>) s)
            else s))"

section \<open>The invariant\<close>

definition ping_wf :: "ping_st \<Rightarrow> bool" where
  "ping_wf ps \<longleftrightarrow> distinct (raw_pcbs (pg_raw ps) @ raw_free (pg_raw ps)) \<and>
     set (raw_pcbs (pg_raw ps)) \<union> set (raw_free (pg_raw ps)) \<subseteq> {..<MEMP_NUM_RAW_PCB} \<and>
     set (raw_pcbs (pg_raw ps)) = set_option (s_ping_pcb ps) \<and>
     (\<forall>pcb. s_ping_pcb ps = Some pcb \<longrightarrow>
        raw_at (pg_raw ps) pcb = raw_pcb_zero\<lparr>rp_protocol := IP_PROTO_ICMP, rp_ttl := RAW_TTL, rp_recv := Ping_recv\<rparr>)"

definition no_dhcp :: "net_st \<Rightarrow> bool" where
  "no_dhcp net \<longleftrightarrow> (\<forall>nif \<in> set (netif_list net). if_dhcp (netifs net nif) = None)"

definition sys_wf :: "sys_st \<Rightarrow> bool" where
  "sys_wf s \<longleftrightarrow> host_wf (sy_host s) \<and> ping_wf (sy_ping s) \<and> length (sy_locator s) = 84 \<and> no_dhcp (sys_net s)"

lemma sys_net_simps [simp]:
  "sys_net (set_net net s) = net" "sy_ping (set_net net s) = sy_ping s" "sy_locator (set_net net s) = sy_locator s"
  "sy_host (set_net net s) = (sy_host s)\<lparr>h_net := net\<rparr>"
  by (simp_all add: sys_net_def set_net_def)

text \<open>A change of the link layer only.\<close>

lemma set_net_wf:
  assumes "sys_wf s" and "netif_wf net" and "netifs net = netifs (sys_net s)" "netif_list net = netif_list (sys_net s)"
  shows "sys_wf (set_net net s)"
  using assms host_wf_cong_net [of "sy_host s" net] by (simp add: sys_wf_def sys_net_def no_dhcp_def)

lemma ping_recv_frame:
  assumes "ping_recv m p a now ps = (e, q, ps')"
  shows "pg_raw ps' = pg_raw ps" "s_ping_pcb ps' = s_ping_pcb ps" "\<not> e \<Longrightarrow> ps' = ps"
  using assms by (auto simp: ping_recv_def Let_def split: if_splits option.splits)

text \<open>The order of the control blocks may change, nothing else.\<close>

lemma raw_loop_frame:
  assumes "raw_loop m now proto src dest prev rest p ps = (e, q, ps')" and "raw_pcbs (pg_raw ps) = prev @ rest"
  shows "mset (raw_pcbs (pg_raw ps')) = mset (raw_pcbs (pg_raw ps)) \<and> raw_at (pg_raw ps') = raw_at (pg_raw ps) \<and>
    raw_free (pg_raw ps') = raw_free (pg_raw ps) \<and> s_ping_pcb ps' = s_ping_pcb ps \<and> (\<not> e \<longrightarrow> ps' = ps)"
  using assms
proof (induction m now proto src dest prev rest p ps rule: raw_loop.induct)
  case (2 m now proto src dest prev pcb rest p ps)
  obtain e1 q1 ps1 where r: "ping_recv m p src now ps = (e1, q1, ps1)" by (metis prod_cases3)
  note fr = ping_recv_frame [OF r]
  let ?c = "raw_at (pg_raw ps) pcb"
  let ?hit = "rp_protocol ?c = proto \<and> (ip_addr_isany (rp_local_ip ?c) \<or> rp_local_ip ?c = dest) \<and> rp_recv ?c = Ping_recv"
  consider (eat) "?hit" "e1" | (give) "?hit" "\<not> e1" | (miss) "\<not> ?hit" by blast
  then show ?case
  proof cases
    case eat
    with "2.prems" r fr show ?thesis by (auto simp: Let_def)
  next
    case give
    have e1: "e1 = False" using give(2) by simp
    from "2.IH"(1) [OF refl give(1) r [symmetric] e1 refl] give r fr "2.prems" show ?thesis by (simp add: Let_def)
  next
    case miss
    from "2.IH"(2) [OF refl miss] miss "2.prems" show ?thesis by (auto simp: Let_def)
  qed
qed simp

lemma raw_input_wf [wf_intros]:
  assumes "ping_wf ps" and "raw_input m now p src dest ps = (e, q, ps')"
  shows "ping_wf ps' \<and> (\<not> e \<longrightarrow> ps' = ps)"
proof -
  have f: "mset (raw_pcbs (pg_raw ps')) = mset (raw_pcbs (pg_raw ps))" "raw_at (pg_raw ps') = raw_at (pg_raw ps)"
    "raw_free (pg_raw ps') = raw_free (pg_raw ps)" "s_ping_pcb ps' = s_ping_pcb ps" "\<not> e \<longrightarrow> ps' = ps"
    using raw_loop_frame [OF assms(2) [unfolded raw_input_def]] by simp_all
  have "distinct (raw_pcbs (pg_raw ps')) = distinct (raw_pcbs (pg_raw ps))"
    "set (raw_pcbs (pg_raw ps')) = set (raw_pcbs (pg_raw ps))"
    using f(1) mset_eq_imp_distinct_iff mset_eq_setD by blast+
  then show ?thesis using assms(1) f(2-5) unfolding ping_wf_def distinct_append by (elim conjE) simp
qed

lemma demux_loop_spec:
  assumes "demux_loop loc rem unc prev rest uncon = (r, pcbs)"
    and "\<And>q. uncon = Some q \<Longrightarrow> q \<in> set (prev @ rest) \<and> loc q \<and> unc q"
  shows "mset pcbs = mset (prev @ rest) \<and>
    (\<forall>q. r = Some q \<longrightarrow> q \<in> set (prev @ rest) \<and> loc q \<and> (rem q \<or> unc q)) \<and>
    (r = None \<longrightarrow> uncon = None \<and> (\<forall>q \<in> set rest. loc q \<longrightarrow> \<not> rem q \<and> \<not> unc q))"
  using assms
proof (induction loc rem unc prev rest uncon rule: demux_loop.induct)
  case (2 loc rem unc prev pcb rest uncon)
  show ?case
  proof (cases "loc pcb \<and> rem pcb")
    case True
    with "2.prems" show ?thesis by (auto split: if_splits)
  next
    case False
    let ?u = "if loc pcb \<and> uncon = None \<and> unc pcb then Some pcb else uncon"
    have l: "demux_loop loc rem unc (prev @ [pcb]) rest ?u = (r, pcbs)"
      using "2.prems"(1) unfolding demux_loop.simps if_not_P [OF False] .
    have "mset pcbs = mset ((prev @ [pcb]) @ rest) \<and>
      (\<forall>q. r = Some q \<longrightarrow> q \<in> set ((prev @ [pcb]) @ rest) \<and> loc q \<and> (rem q \<or> unc q)) \<and>
      (r = None \<longrightarrow> ?u = None \<and> (\<forall>q \<in> set rest. loc q \<longrightarrow> \<not> rem q \<and> \<not> unc q))"
      using "2.prems"(2) by (intro "2.IH" [OF False l]) (auto split: if_splits)
    then show ?thesis using False by (auto split: if_splits)
  qed
qed auto

lemma udp_demux_spec:
  assumes "udp_demux n src_ip dest_ip src dest u = (r, u')" and "if_dhcp n = None"
  shows "\<exists>pcbs. u' = u\<lparr>udp_pcbs := pcbs\<rparr> \<and> mset pcbs = mset (udp_pcbs u)"
    and "r = Some q \<Longrightarrow> q \<in> set (udp_pcbs u) \<and> local_match u n dest_ip dest (ip4_addr_isbroadcast dest_ip n) q \<and>
      (remote_match u src_ip src q \<or> unconnected u q)"
    and "r = None \<Longrightarrow> dest \<noteq> DHCP_CLIENT_PORT \<Longrightarrow> p \<in> set (udp_pcbs u) \<Longrightarrow>
      local_match u n dest_ip dest (ip4_addr_isbroadcast dest_ip n) p \<Longrightarrow> \<not> remote_match u src_ip src p \<and> \<not> unconnected u p"
proof -
  let ?L = "local_match u n dest_ip dest (ip4_addr_isbroadcast dest_ip n)"
  obtain r1 pcbs where l: "demux_loop ?L (remote_match u src_ip src) (unconnected u) [] (udp_pcbs u) None = (r1, pcbs)"
    by (meson surj_pair)
  note sp = demux_loop_spec [OF l, simplified]
  show "\<exists>pcbs. u' = u\<lparr>udp_pcbs := pcbs\<rparr> \<and> mset pcbs = mset (udp_pcbs u)"
  proof (cases "dest = DHCP_CLIENT_PORT")
    case True
    with assms have "u' = u" by (auto simp: udp_demux_def split: if_splits)
    then show ?thesis by (intro exI [of _ "udp_pcbs u"]) simp
  next
    case False
    with assms(1) l have "u' = u\<lparr>udp_pcbs := pcbs\<rparr>" by (auto simp: udp_demux_def)
    with sp show ?thesis by auto
  qed
  show "r = Some q \<Longrightarrow> q \<in> set (udp_pcbs u) \<and> ?L q \<and> (remote_match u src_ip src q \<or> unconnected u q)"
    using assms l sp by (auto simp: udp_demux_def split: if_splits)
  show "r = None \<Longrightarrow> dest \<noteq> DHCP_CLIENT_PORT \<Longrightarrow> p \<in> set (udp_pcbs u) \<Longrightarrow> ?L p \<Longrightarrow>
      \<not> remote_match u src_ip src p \<and> \<not> unconnected u p"
    using assms l sp by (auto simp: udp_demux_def)
qed

lemma udp_permute_wf:
  assumes "udp_wf u" and "mset pcbs = mset (udp_pcbs u)"
  shows "udp_wf (u\<lparr>udp_pcbs := pcbs\<rparr>)"
proof -
  have "distinct pcbs = distinct (udp_pcbs u)" "set pcbs = set (udp_pcbs u)"
    using assms(2) mset_eq_imp_distinct_iff mset_eq_setD by blast+
  with assms(1) show ?thesis by (simp add: udp_wf_def bindings_unique_def)
qed

lemma host_permute_wf:
  assumes "host_wf h" and "mset pcbs = mset (udp_pcbs (h_udp h))"
  shows "host_wf (h\<lparr>h_udp := (h_udp h)\<lparr>udp_pcbs := pcbs\<rparr>\<rparr>)"
  using assms udp_permute_wf [OF _ assms(2)] mset_eq_setD [OF assms(2)]
  by (intro host_wf_cong_udp) (auto simp: host_wf_def)

text \<open>The locator sends on a bound control block, so that nothing but the link layer and the sum changes.\<close>

lemma length_locator_sum [simp]: "length (locator_sum d) = length d"
  by (simp add: locator_sum_def)

lemma udp_sendto_bound:
  assumes "pcb_local_port (pcb_at (st_udp st) pcb) \<noteq> 0" and "netif_wf (st_net st)"
  shows "st_udp (snd (udp_sendto pcb p dst port st)) = st_udp st \<and>
    netif_wf (st_net (snd (udp_sendto pcb p dst port st))) \<and>
    netifs (st_net (snd (udp_sendto pcb p dst port st))) = netifs (st_net st) \<and>
    netif_list (st_net (snd (udp_sendto pcb p dst port st))) = netif_list (st_net st)"
proof (cases "ip_route dst (st_net st)")
  case (Some nif)
  then have "nif \<in> set (netif_list (st_net st))" using ip_route_Some [OF assms(2)] by blast
  with Some assms show ?thesis
    by (simp add: udp_sendto_def udp_sendto_if_bound udp_send_bound_wf frame_simps)
qed (use assms in \<open>simp add: udp_sendto_def\<close>)

lemma LocatorReceive_wf [wf_intros]:
  assumes "sys_wf s" and "pcb \<in> set (udp_pcbs (h_udp (sy_host s)))"
  shows "sys_wf (LocatorReceive pcb p addr port s)"
proof -
  let ?h = "sy_host s"
  have h: "host_wf ?h" and net: "netif_wf (sys_net s)" using assms(1) by (simp_all add: sys_wf_def sys_net_def host_wf_def)
  obtain q l where a: "link_alloc PBUF_TRANSPORT 84 PBUF_RAM (ns_link (sys_net s)) = (q, l)" by (meson surj_pair)
  let ?net = "(sys_net s)\<lparr>ns_link := l\<rparr>"
  have netl: "netif_wf ?net" using link_alloc_netif_wf [OF net, of PBUF_TRANSPORT 84 PBUF_RAM] a by simp
  let ?st = "\<lparr>st_net = ?net, st_udp = h_udp ?h\<rparr>"
  have bound: "pcb_local_port (pcb_at (st_udp ?st) pcb) \<noteq> 0" using slot_port_bound [OF h assms(2)] by simp
  show ?thesis
  proof (cases q)
    case None
    then show ?thesis using assms(1) netl a by (auto simp: LocatorReceive_def intro!: set_net_wf)
  next
    case (Some r)
    let ?d = "locator_sum (sy_locator s)"
    obtain e st where st: "udp_sendto pcb (pbuf_put 0 ?d r) addr port ?st = (e, st)" by (meson surj_pair)
    have u: "st_udp st = h_udp ?h" "netif_wf (st_net st)" "netifs (st_net st) = netifs (sys_net s)"
      "netif_list (st_net st) = netif_list (sys_net s)"
      using udp_sendto_bound [OF bound, of "pbuf_put 0 ?d r" addr port] netl st by simp_all
    have "sys_wf (s\<lparr>sy_locator := ?d, sy_host := ?h\<lparr>h_net := st_net st\<rparr>\<rparr>)"
      using set_net_wf [OF assms(1) u(2-4)] by (simp add: sys_wf_def set_net_def sys_net_def)
    then show ?thesis
      using assms(1) a Some st u(1) by (simp add: LocatorReceive_def Let_def sys_net_def)
  qed
qed

lemma udp_deliver_wf [wf_intros]:
  assumes "sys_wf s" and "pcb \<in> set (udp_pcbs (h_udp (sy_host s)))"
  shows "sys_wf (udp_deliver pcb p addr port s)"
  using assms LocatorReceive_wf [OF assms] rx_callback_wf [of "sy_host s"]
  by (auto simp: udp_deliver_def sys_wf_def sys_net_def udp_rx_callback_def upd_slot_def split: udp_recv_fn.splits)

lemma sys_permute_wf:
  assumes "sys_wf s" and "mset pcbs = mset (udp_pcbs (h_udp (sy_host s)))"
  shows "sys_wf (s\<lparr>sy_host := (sy_host s)\<lparr>h_udp := (h_udp (sy_host s))\<lparr>udp_pcbs := pcbs\<rparr>\<rparr>\<rparr>)"
  using assms host_permute_wf [OF _ assms(2)] by (simp add: sys_wf_def sys_net_def)

lemma dest_unreach_wf [wf_intros]:
  assumes "sys_wf s"
  shows "sys_wf (set_net (icmp_dest_unreach p t (sys_net s)) s)"
proof -
  have "netif_wf (sys_net s)" using assms by (simp add: sys_wf_def sys_net_def host_wf_def)
  then show ?thesis
    using assms unfolding icmp_dest_unreach_def by (intro set_net_wf icmp_send_response_wf) (simp_all add: frame_simps)
qed

lemma udp_accept_wf [wf_intros]:
  assumes "sys_wf s" and "\<And>x. pcb = Some x \<Longrightarrow> x \<in> set (udp_pcbs (h_udp (sy_host s)))"
  shows "sys_wf (udp_accept q hlen n src_ip dest_ip udphdr pcb s)"
  using assms by (cases pcb) (auto simp: udp_accept_def intro!: udp_deliver_wf dest_unreach_wf split: option.splits)

lemma udp_input_wf [wf_intros]:
  assumes "sys_wf s" and "inp \<in> set (netif_list (sys_net s))"
  shows "sys_wf (udp_input p inp src_ip dest_ip s)"
proof -
  let ?n = "netifs (sys_net s) inp" and ?u = "h_udp (sy_host s)"
  have dh: "if_dhcp ?n = None" using assms by (simp add: sys_wf_def no_dhcp_def)
  have "sys_wf (udp_accept q hlen ?n src_ip dest_ip hdr pcb (s\<lparr>sy_host := (sy_host s)\<lparr>h_udp := u\<rparr>\<rparr>))"
    if d: "udp_demux ?n src_ip dest_ip src dst ?u = (pcb, u)" for q hlen hdr src dst pcb u
  proof -
    obtain pcbs where p: "u = ?u\<lparr>udp_pcbs := pcbs\<rparr>" "mset pcbs = mset (udp_pcbs ?u)"
      using udp_demux_spec(1) [OF d dh] by blast
    have "x \<in> set pcbs" if "pcb = Some x" for x
      using udp_demux_spec(2) [OF d dh that] mset_eq_setD [OF p(2)] by simp
    with sys_permute_wf [OF assms(1) p(2)] show ?thesis unfolding p(1) by (intro udp_accept_wf) simp_all
  qed
  then show ?thesis using assms(1) by (auto simp: udp_input_def Let_def split: option.splits prod.splits)
qed

lemma ip_deliver_wf [wf_intros]:
  assumes "sys_wf s" and "inp \<in> set (netif_list (sys_net s))"
  shows "sys_wf (ip_deliver proto p inp src dest s)"
proof -
  have net: "netif_wf (sys_net s)" using assms(1) by (simp add: sys_wf_def sys_net_def host_wf_def)
  then have "sys_wf (set_net (icmp_input p inp src dest (sys_net s)) s)"
    using assms by (intro set_net_wf icmp_input_wf) (simp_all add: frame_simps)
  moreover have "sys_wf (set_net (tcp_input p inp src dest (sys_net s)) s)"
    using assms net by (intro set_net_wf tcp_input_wf) (simp_all add: frame_simps)
  ultimately show ?thesis using assms by (simp add: ip_deliver_def udp_input_wf dest_unreach_wf)
qed

lemma ip_input_wf [wf_intros]:
  assumes "sys_wf s" and "inp \<in> set (netif_list (sys_net s))"
  shows "sys_wf (ip_input now p inp s)"
proof -
  have "sys_wf (case raw_input m now q src dest (sy_ping s) of
      (True, p, ps) \<Rightarrow> s\<lparr>sy_ping := ps\<rparr>
    | (False, p, ps) \<Rightarrow> ip_deliver proto p inp src dest (s\<lparr>sy_ping := ps\<rparr>))" for m q src dest proto
  proof -
    obtain e r ps where r: "raw_input m now q src dest (sy_ping s) = (e, r, ps)" by (metis prod_cases3)
    have "sys_wf (s\<lparr>sy_ping := ps\<rparr>)"
      using raw_input_wf [OF _ r] assms(1) by (simp add: sys_wf_def sys_net_def)
    then show ?thesis using assms r by (cases e) (simp_all add: ip_deliver_wf sys_net_def)
  qed
  then show ?thesis using assms(1) by (simp add: ip_input_def Let_def)
qed

lemma arp_input_sys_wf:
  assumes "sys_wf s" and "nif \<in> set (netif_list (sys_net s))"
  shows "sys_wf (set_net ((sys_net s)\<lparr>ns_link := etharp_arp_input nif (netifs (sys_net s) nif) p (ns_link (sys_net s))\<rparr>) s)"
proof -
  have net: "netif_wf (sys_net s)" using assms(1) by (simp add: sys_wf_def sys_net_def host_wf_def)
  have "netif_ready (netifs (sys_net s) nif)" using net assms(2) by (simp add: netif_wf_def)
  from arp_input_fault [OF this] etharp_arp_input_wf [of "ns_link (sys_net s)"] net
  have "netif_wf ((sys_net s)\<lparr>ns_link := etharp_arp_input nif (netifs (sys_net s) nif) p (ns_link (sys_net s))\<rparr>)"
    by (intro link_wf_cong) (auto simp: netif_wf_def)
  with assms(1) show ?thesis by (intro set_net_wf) simp_all
qed

text \<open>The interface that the filter picks is on the list.\<close>

definition rx_netif :: "pbuf \<Rightarrow> netif_ptr \<Rightarrow> u16 \<Rightarrow> net_st \<Rightarrow> netif_ptr" where
  "rx_netif p netif type net =
     (case netif_alias_route_filter (Some p) (Some netif) type net of Some n \<Rightarrow> n | None \<Rightarrow> netif)"

lemma rx_netif_listed:
  assumes "netif \<in> set (netif_list net)"
  shows "rx_netif p netif type net \<in> set (netif_list net)"
proof -
  obtain n where n: "netif_alias_route_filter (Some p) (Some netif) type net = Some n" using filter_total by blast
  from filter_sound [OF this] n assms show ?thesis by (auto simp: rx_netif_def)
qed

lemma ethernet_input_eq:
  "ethernet_input now p netif s =
     (if pbuf_len p \<le> SIZEOF_ETH_HDR then s
      else
        (let type = get16 (ps_payload (hd p)) 12; nif = rx_netif p netif type (sys_net s); n = netifs (sys_net s) nif
         in if type = ETHTYPE_IP then
              (if if_flags n AND NETIF_FLAG_ETHARP = 0 then s
               else case pbuf_header p (- int SIZEOF_ETH_HDR) of None \<Rightarrow> s | Some q \<Rightarrow> ip_input now q nif s)
            else if type = ETHTYPE_ARP then
              (if if_flags n AND NETIF_FLAG_ETHARP = 0 then s
               else set_net ((sys_net s)\<lparr>ns_link := etharp_arp_input nif n p (ns_link (sys_net s))\<rparr>) s)
            else s))"
  by (simp only: ethernet_input_def rx_netif_def Let_def byteorder_simps)

lemma ethernet_input_wf [wf_intros]:
  assumes "sys_wf s" and "netif \<in> set (netif_list (sys_net s))"
  shows "sys_wf (ethernet_input now p netif s)"
  using assms rx_netif_listed [OF assms(2)]
  by (simp add: ethernet_input_eq Let_def ip_input_wf arp_input_sys_wf split: option.splits)

section \<open>The way of a datagram\<close>

text \<open>The only RAW control block takes ICMP.\<close>

lemma raw_loop_skip:
  "\<forall>pcb \<in> set rest. rp_protocol (raw_at (pg_raw ps) pcb) \<noteq> proto \<Longrightarrow>
   raw_loop m now proto src dest prev rest p ps = (False, p, ps)"
  by (induction rest arbitrary: prev) (simp_all add: Let_def)

lemma raw_input_other:
  assumes "ping_wf ps" and "get8 (hdr_view m IP_HLEN p) 9 \<noteq> IP_PROTO_ICMP"
  shows "raw_input m now p src dest ps = (False, p, ps)"
  unfolding raw_input_def using assms by (intro raw_loop_skip) (auto simp: ping_wf_def)

text \<open>A unicast datagram is for the one control block bound to its address and port.\<close>

lemma udp_demux_socket:
  assumes wf: "udp_wf u" and pcb: "pcb \<in> set (udp_pcbs u)" "pcb_local_ip (pcb_at u pcb) = dst"
      "pcb_local_port (pcb_at u pcb) = dport" "unconnected u pcb"
    and dst: "\<not> ip4_addr_isbroadcast dst n" "\<not> ip_addr_isany dst" "dport \<noteq> DHCP_CLIENT_PORT" and dh: "if_dhcp n = None"
  obtains pcbs where "udp_demux n src dst sport dport u = (Some pcb, u\<lparr>udp_pcbs := pcbs\<rparr>)" "mset pcbs = mset (udp_pcbs u)"
proof -
  obtain r u' where d: "udp_demux n src dst sport dport u = (r, u')" by (meson surj_pair)
  obtain pcbs where u': "u' = u\<lparr>udp_pcbs := pcbs\<rparr>" "mset pcbs = mset (udp_pcbs u)"
    using udp_demux_spec(1) [OF d dh] by blast
  have loc: "local_match u n dst dport (ip4_addr_isbroadcast dst n) pcb" using pcb by (simp add: local_match_def)
  have "r = Some pcb"
  proof (cases r)
    case None
    from udp_demux_spec(3) [OF d dh this dst(3) pcb(1) loc] pcb(4) show ?thesis by simp
  next
    case (Some q)
    from udp_demux_spec(2) [OF d dh this]
    have q: "q \<in> set (udp_pcbs u)" "pcb_local_port (pcb_at u q) = dport"
      "ip_addr_isany (pcb_local_ip (pcb_at u q)) \<or> pcb_local_ip (pcb_at u q) = dst"
      using dst(1) by (auto simp: local_match_def Let_def)
    have "q = pcb" using wf q pcb dst(2) unfolding udp_wf_def bindings_unique_def by metis
    with Some show ?thesis by simp
  qed
  with that d u' show ?thesis by blast
qed

lemma udp_input_datagram:
  assumes p: "p = sg # rest" "28 \<le> length (ps_payload sg)" "get8 (ps_payload sg) 0 = 0x45"
      "drop 20 (pbuf_bytes p) = udp_datagram src dst sport dport data" "length data \<le> 65507"
    and d: "udp_demux (netifs (sys_net s) inp) src dst sport dport (h_udp (sy_host s)) = (Some pcb, u)"
  obtains d where "pbuf_bytes d = data"
    "udp_input p inp src dst s = udp_deliver pcb d src sport (s\<lparr>sy_host := (sy_host s)\<lparr>h_udp := u\<rparr>\<rparr>)"
proof -
  let ?m = "lk_mem (ns_link (sys_net s))"
  let ?q = "sg\<lparr>ps_hidden := ps_hidden sg @ take 20 (ps_payload sg), ps_payload := drop 20 (ps_payload sg)\<rparr> # rest"
  have q: "pbuf_header p (- 20) = Some ?q" using p(1,2) by (simp add: pbuf_header_def)
  have qb: "pbuf_bytes ?q = udp_datagram src dst sport dport data" using p by simp
  let ?d = "sg\<lparr>ps_hidden := ps_hidden sg @ take 28 (ps_payload sg), ps_payload := drop 28 (ps_payload sg)\<rparr> # rest"
  have "take 8 (drop 20 (ps_payload sg)) = drop 20 (take 28 (ps_payload sg))" by (simp add: take_drop)
  then have "take 20 (ps_payload sg) @ take 8 (drop 20 (ps_payload sg)) = take 28 (ps_payload sg)"
    using append_take_drop_id [of 20 "take 28 (ps_payload sg)"] by (simp add: min_def)
  then have dh: "pbuf_header ?q (- int UDP_HLEN) = Some ?d"
    using p(2) by (auto simp: pbuf_header_def UDP_HLEN_def add.commute)
  have db: "pbuf_bytes ?d = data"
  proof -
    have "pbuf_bytes ?d = drop 8 (pbuf_bytes ?q)"
      using pbuf_header_bytes_hide [of ?q 8 ?d] dh by (simp only: UDP_HLEN_def)
    also have "\<dots> = data" unfolding qb by (simp add: udp_datagram_def Let_def)
    finally show ?thesis .
  qed
  have hl: "IPH_HL (get8 (hdr_view ?m IP_HLEN p) 0) * 4 = 20"
  proof -
    have "get8 (hdr_view ?m IP_HLEN p) 0 = get8 (ps_payload sg) 0"
      using p(1,2) by (simp add: hdr_view_def get8_def IP_HLEN_def nth_append)
    with p(3) show ?thesis by (simp add: IPH_HL_def)
  qed
  have tot: "pbuf_tot_len ?q = 8 + length data" using qb by (simp add: pbuf_tot_len_bytes)
  have ptot: "\<not> pbuf_tot_len p < 20 + UDP_HLEN" using p(1,2) by (simp add: pbuf_tot_len_def UDP_HLEN_def)
  have view: "hdr_view ?m UDP_HLEN ?q = take 8 (udp_datagram src dst sport dport data)"
    using p(2) unfolding qb [symmetric] by (simp add: hdr_view_def UDP_HLEN_def)
  have ports: "get16 (hdr_view ?m UDP_HLEN ?q) 0 = sport" "get16 (hdr_view ?m UDP_HLEN ?q) 2 = dport"
    unfolding view by (simp_all add: udp_datagram_def udp_hdr_bytes_def Let_def get16_def be16_def)
  have chk: "inet_chksum_pseudo (chksum_view ?q) src dst IP_PROTO_UDP (of_nat (pbuf_tot_len ?q)) = 0"
  proof -
    have "concat (map snd (chksum_view ?q)) = pbuf_bytes ?q" by (simp add: chksum_view_def pbuf_bytes_def comp_def)
    moreover have "length (ps_payload x) \<le> length (pbuf_bytes ?q)" if "x \<in> set ?q" for x
      using that by (rule seg_length_le)
    then have "\<forall>(al, bs) \<in> set (chksum_view ?q). length bs \<le> 65536"
      using p(5) unfolding qb by (fastforce simp: chksum_view_def)
    ultimately show ?thesis unfolding tot using p(5) qb by (intro udp_datagram_verifies) simp_all
  qed
  have "udp_input p inp src dst s = udp_accept ?q 20 (netifs (sys_net s) inp) src dst (hdr_view ?m UDP_HLEN ?q) (Some pcb)
      (s\<lparr>sy_host := (sy_host s)\<lparr>h_udp := u\<rparr>\<rparr>)"
    unfolding udp_input_def Let_def hl using ptot q d ports by simp
  also have "\<dots> = udp_deliver pcb ?d src sport (s\<lparr>sy_host := (sy_host s)\<lparr>h_udp := u\<rparr>\<rparr>)"
    unfolding udp_accept_def using chk dh ports by simp
  finally show ?thesis using that db by blast
qed

lemma ip_hdr_fields:
  "get8 (ip_hdr_bytes v tos len idn off ttl proto c src dst) 0 = v"
  "get16 (ip_hdr_bytes v tos len idn off ttl proto c src dst) 2 = len"
  "get16 (ip_hdr_bytes v tos len idn off ttl proto c src dst) 6 = off"
  "get8 (ip_hdr_bytes v tos len idn off ttl proto c src dst) 9 = proto"
  "get32 (ip_hdr_bytes v tos len idn off ttl proto c src dst) 12 = src"
  "get32 (ip_hdr_bytes v tos len idn off ttl proto c src dst) 16 = dst"
  by (simp_all add: ip_hdr_bytes_def get8_def get16_def get32_def be16_def be32_def)

lemma realloc_hd: "\<exists>r. pbuf_realloc (sg # rest) n = sg\<lparr>ps_payload := take n (ps_payload sg)\<rparr> # r"
  by (auto simp: pbuf_realloc_def pbuf_tot_len_def)

text \<open>An undamaged, unfragmented packet to an address of the interface is handed to RAW and then to its protocol.\<close>

lemma ip_input_accepted:
  assumes p: "p = sg # rest" "k \<le> length (ps_payload sg)" "20 \<le> k" "k \<le> 20 + length payload"
    and hdr: "hdr = ip_hdr_bytes 0x45 tos (of_nat (20 + length payload)) idn off ttl proto c src dst"
      "inet_chksum False hdr = 0" "off AND (IP_OFFMASK OR IP_MF) = 0" "20 + length payload < 65536"
    and bytes: "pbuf_bytes p = hdr @ payload @ pad"
    and acc: "accepts dst (netifs (sys_net s) inp)"
    and src: "\<not> ip4_addr_isbroadcast src (netifs (sys_net s) inp)" "\<not> ip_addr_ismulticast src"
  obtains sg' rest' where "k \<le> length (ps_payload sg')" "take 20 (ps_payload sg') = hdr" "ps_type sg' = ps_type sg"
    "ps_hidden sg' = ps_hidden sg" "pbuf_bytes (sg' # rest') = hdr @ payload"
    "ip_input now p inp s =
      (case raw_input (lk_mem (ns_link (sys_net s))) now (sg' # rest') src dst (sy_ping s) of
         (True, q, ps) \<Rightarrow> s\<lparr>sy_ping := ps\<rparr>
       | (False, q, ps) \<Rightarrow> ip_deliver proto q inp src dst (s\<lparr>sy_ping := ps\<rparr>))"
proof -
  let ?m = "lk_mem (ns_link (sys_net s))" and ?n = "20 + length payload"
  have len: "length hdr = 20" by (simp add: hdr(1))
  have t20: "take 20 (ps_payload sg) = hdr"
  proof -
    have "take 20 (pbuf_bytes p) = take 20 (ps_payload sg)" using p by simp
    then show ?thesis using bytes len by simp
  qed
  have view: "hdr_view ?m IP_HLEN p = hdr" using p t20 by (simp add: hdr_view_def IP_HLEN_def)
  have f: "get8 hdr 0 = 0x45" "get16 hdr 2 = of_nat ?n" "get16 hdr 6 = off" "get8 hdr 9 = proto" "get32 hdr 12 = src"
    "get32 hdr 16 = dst" by (simp_all only: hdr(1) ip_hdr_fields)
  have hl: "IPH_HL (get8 (hdr_view ?m IP_HLEN p) 0) * 4 = 20" unfolding view f(1) by (simp add: IPH_HL_def)
  have il: "unat (ntohs (get16 (hdr_view ?m IP_HLEN p) 2)) = ?n"
    unfolding view f(2) using hdr(4) by (simp add: unat_of_nat del: of_nat_add)
  have v4: "drop_bit 4 (0x45 :: u8) = 4" by (simp add: drop_bit_eq_div)
  obtain r where r: "pbuf_realloc p ?n = sg\<lparr>ps_payload := take ?n (ps_payload sg)\<rparr> # r"
    using realloc_hd p(1) by blast
  have chk: "inet_chksum (odd (length (ps_hidden (hd p)))) (take 20 (ps_payload (hd p))) = 0"
    using hdr(2) len p(1) t20 by (simp add: inet_chksum_reference)
  have found: "ip_accept dst inp (sys_net s) = Some inp" using acc by (simp add: ip_accept_def)
  have tot: "\<not> (20 > pbuf_len p \<or> ?n > pbuf_tot_len p)"
    using p bytes len by (simp add: pbuf_len_def pbuf_tot_len_bytes)
  have "ip_input now p inp s =
      (case raw_input ?m now (pbuf_realloc p ?n) src dst (sy_ping s) of
         (True, q, ps) \<Rightarrow> s\<lparr>sy_ping := ps\<rparr>
       | (False, q, ps) \<Rightarrow> ip_deliver proto q inp src dst (s\<lparr>sy_ping := ps\<rparr>))"
    unfolding ip_input_def Let_def hl il unfolding view f using tot chk found src hdr(3) by (simp add: v4)
  moreover have "pbuf_bytes (pbuf_realloc p ?n) = hdr @ payload" using bytes len by (simp add: pbuf_realloc_bytes)
  moreover have "take 20 (take ?n (ps_payload sg)) = hdr" using t20 by (simp add: min_def)
  ultimately show ?thesis using that [of "sg\<lparr>ps_payload := take ?n (ps_payload sg)\<rparr>" r] p r by simp
qed

text \<open>The filter hands a frame for a unicast address of the host to the interface that owns the address.\<close>

lemma rx_netif_owner:
  assumes "frame_target p type = Some a" and "nif \<in> set (netif_list net)" and "filter_match a (netifs net nif)"
    and "\<not> ip4_addr_isbroadcast a (netifs net d)" and "\<not> ip_addr_ismulticast a" and "d \<in> set (netif_list net)"
    and "\<And>n. n \<in> set (netif_list net) \<Longrightarrow> if_ip_addr (netifs net n) = a \<Longrightarrow> n = nif"
  shows "rx_netif p d type net = nif"
proof -
  obtain m where m: "netif_alias_route_filter (Some p) (Some d) type net = Some m" "if_ip_addr (netifs net m) = a"
    using filter_complete [OF assms(1-5)] .
  have "m \<in> set (netif_list net)" using rx_netif_listed [OF assms(6), of p type] m(1) by (simp add: rx_netif_def)
  with m assms(7) show ?thesis by (simp add: rx_netif_def)
qed

text \<open>A received frame with an IP packet.\<close>

lemma ethernet_input_ip:
  assumes p: "p = sg # rest" "34 \<le> length (ps_payload sg)"
    and bytes: "pbuf_bytes p = eth @ be16 ETHTYPE_IP @ hdr @ payload" "length eth = 12"
      "hdr = ip_hdr_bytes v tos len idn off ttl proto c src dst"
    and d: "d \<in> set (netif_list (sys_net s))" and nif: "nif \<in> set (netif_list (sys_net s))"
      "filter_match dst (netifs (sys_net s) nif)" "if_flags (netifs (sys_net s) nif) AND NETIF_FLAG_ETHARP \<noteq> 0"
      "\<And>n. n \<in> set (netif_list (sys_net s)) \<Longrightarrow> if_ip_addr (netifs (sys_net s) n) = dst \<Longrightarrow> n = nif"
    and dst: "\<not> ip4_addr_isbroadcast dst (netifs (sys_net s) d)" "\<not> ip_addr_ismulticast dst"
  obtains sg' where "ps_payload sg' = drop 14 (ps_payload sg)" "ps_hidden sg' = ps_hidden sg @ take 14 (ps_payload sg)"
    "ps_type sg' = ps_type sg" "pbuf_bytes (sg' # rest) = hdr @ payload"
    "ethernet_input now p d s = ip_input now (sg' # rest) nif s"
proof -
  let ?sg = "sg\<lparr>ps_hidden := ps_hidden sg @ take 14 (ps_payload sg), ps_payload := drop 14 (ps_payload sg)\<rparr>"
  have h34: "take 34 (ps_payload sg) = eth @ be16 ETHTYPE_IP @ hdr"
  proof -
    have "take 34 (pbuf_bytes p) = take 34 (ps_payload sg)" using p by simp
    then show ?thesis using bytes by simp
  qed
  have pl: "ps_payload sg = (eth @ be16 ETHTYPE_IP @ hdr) @ drop 34 (ps_payload sg)"
    using append_take_drop_id [of 34 "ps_payload sg"] h34 by simp
  have type: "get16 (ps_payload (hd p)) 12 = ETHTYPE_IP"
    using p(1) get16_be16 [of eth 12 ETHTYPE_IP "hdr @ drop 34 (ps_payload sg)"] bytes(2) by (subst p(1), simp, subst pl, simp)
  have tgt: "frame_target p ETHTYPE_IP = Some dst"
  proof -
    have "get32 (ps_payload sg) 30 = dst"
      using get32_be32 [of "eth @ be16 ETHTYPE_IP @ [v, tos] @ be16 len @ be16 idn @ be16 off @ [ttl, proto] @ be16 c @ be32 src" 30
        dst "drop 34 (ps_payload sg)"] bytes(2) by (subst pl) (simp add: bytes(3) ip_hdr_bytes_def)
    then show ?thesis using p by (simp add: frame_target_def pbuf_len_def SIZEOF_ETH_HDR_def IP_HLEN_def)
  qed
  have rx: "rx_netif p d ETHTYPE_IP (sys_net s) = nif"
    using rx_netif_owner [OF tgt nif(1,2) dst d nif(4)] .
  have q: "pbuf_header p (- int SIZEOF_ETH_HDR) = Some (?sg # rest)"
    using p by (simp add: pbuf_header_def SIZEOF_ETH_HDR_def)
  have "ethernet_input now p d s = ip_input now (?sg # rest) nif s"
    unfolding ethernet_input_eq Let_def type rx using p nif(3) q by (simp add: pbuf_len_def SIZEOF_ETH_HDR_def)
  moreover have "pbuf_bytes (?sg # rest) = hdr @ payload"
    using pbuf_header_bytes_hide [OF q] bytes by (simp only: SIZEOF_ETH_HDR_def) simp
  ultimately show ?thesis using that [of ?sg] by simp
qed

section \<open>Isolation of the sockets\<close>

lemma rx_callback_others: "j \<noteq> i \<Longrightarrow> s_listeners (snd (udp_rx_callback i p a port h)) ! j = s_listeners h ! j"
  by (simp add: udp_rx_callback_def upd_slot_def)

lemma LocatorReceive_listeners: "s_listeners (sy_host (LocatorReceive pcb p a port s)) = s_listeners (sy_host s)"
  by (auto simp: LocatorReceive_def set_net_def Let_def split: option.splits prod.splits)

lemma udp_deliver_listeners:
  "s_listeners (sy_host (udp_deliver pcb d a port s)) ! j \<noteq> s_listeners (sy_host s) ! j \<Longrightarrow>
   pcb_recv (pcb_at (h_udp (sy_host s)) pcb) = Udp_rx_callback j"
  using rx_callback_others [of j _ d a port "sy_host s"]
  by (cases "pcb_recv (pcb_at (h_udp (sy_host s)) pcb)") (auto simp: udp_deliver_def LocatorReceive_listeners, metis)

lemma udp_accept_listeners:
  "s_listeners (sy_host (udp_accept q hlen n a b hdr pcb s)) ! j \<noteq> s_listeners (sy_host s) ! j \<Longrightarrow>
   \<exists>x. pcb = Some x \<and> pcb_recv (pcb_at (h_udp (sy_host s)) x) = Udp_rx_callback j"
  by (auto simp: udp_accept_def set_net_def dest: udp_deliver_listeners split: if_splits option.splits)

text \<open>The datagram that changes a slot was found to match the control block of the slot.\<close>

lemma udp_input_listeners:
  assumes "sys_wf s" and "inp \<in> set (netif_list (sys_net s))"
    and "s_listeners (sy_host (udp_input p inp src dst s)) ! j \<noteq> s_listeners (sy_host s) ! j"
  obtains hlen q pcb where "hlen = IPH_HL (get8 (hdr_view (lk_mem (ns_link (sys_net s))) IP_HLEN p) 0) * 4"
    "hlen + 8 \<le> pbuf_tot_len p" "pbuf_header p (- int hlen) = Some q" "pcb \<in> set (udp_pcbs (h_udp (sy_host s)))"
    "ls_pcb (s_listeners (sy_host s) ! j) = Some pcb"
    "local_match (h_udp (sy_host s)) (netifs (sys_net s) inp) dst
       (get16 (hdr_view (lk_mem (ns_link (sys_net s))) UDP_HLEN q) 2)
       (ip4_addr_isbroadcast dst (netifs (sys_net s) inp)) pcb"
proof -
  let ?m = "lk_mem (ns_link (sys_net s))" and ?n = "netifs (sys_net s) inp" and ?u = "h_udp (sy_host s)"
  define hlen where "hlen = IPH_HL (get8 (hdr_view ?m IP_HLEN p) 0) * 4"
  have dh: "if_dhcp ?n = None" using assms(1,2) by (simp add: sys_wf_def no_dhcp_def)
  have len: "hlen + 8 \<le> pbuf_tot_len p"
    using assms(3) unfolding udp_input_def Let_def hlen_def [symmetric] UDP_HLEN_def by (auto split: if_splits)
  then obtain q where q: "pbuf_header p (- int hlen) = Some q"
    using assms(3) unfolding udp_input_def Let_def hlen_def [symmetric] by (auto split: if_splits option.splits)
  let ?hdr = "hdr_view ?m UDP_HLEN q"
  obtain r u where d: "udp_demux ?n src dst (get16 ?hdr 0) (get16 ?hdr 2) ?u = (r, u)" by (meson surj_pair)
  have eq: "udp_input p inp src dst s = udp_accept q hlen ?n src dst ?hdr r (s\<lparr>sy_host := (sy_host s)\<lparr>h_udp := u\<rparr>\<rparr>)"
    unfolding udp_input_def Let_def hlen_def [symmetric] using len q d by (simp add: UDP_HLEN_def)
  obtain pcbs where u: "u = ?u\<lparr>udp_pcbs := pcbs\<rparr>" using udp_demux_spec(1) [OF d dh] by blast
  obtain pcb where r: "r = Some pcb" and cb: "pcb_recv (pcb_at ?u pcb) = Udp_rx_callback j"
    using udp_accept_listeners [of q hlen ?n src dst ?hdr r "s\<lparr>sy_host := (sy_host s)\<lparr>h_udp := u\<rparr>\<rparr>" j] assms(3)
    unfolding eq u by auto
  note sp = udp_demux_spec(2) [OF d dh r]
  have "ls_pcb (s_listeners (sy_host s) ! j) = Some pcb"
    using assms(1) sp cb by (auto simp: sys_wf_def host_wf_def callbacks_wf_def)
  with that [OF hlen_def len q] sp show ?thesis by blast
qed

lemma set_net_listeners [simp]: "s_listeners (sy_host (set_net net s)) = s_listeners (sy_host s)"
  by (simp add: set_net_def)

lemma ip_deliver_listeners:
  "s_listeners (sy_host (ip_deliver proto p inp src dest s)) ! j \<noteq> s_listeners (sy_host s) ! j \<Longrightarrow>
   proto = IP_PROTO_UDP \<and> s_listeners (sy_host (udp_input p inp src dest s)) ! j \<noteq> s_listeners (sy_host s) ! j"
  by (auto simp: ip_deliver_def split: if_splits)

lemma ping_recv_gives_back:
  assumes "ping_recv m p a now ps = (False, q, ps')" and "p \<noteq> []" and "ps_type (hd p) \<in> {PBUF_RAM, PBUF_POOL}"
  shows "q = p"
proof -
  define h where "h = IPH_HL (get8 (hdr_view m 20 p) 0) * 4"
  note eq = assms(1) [unfolded ping_recv_def Let_def h_def [symmetric]]
  show ?thesis
  proof (cases "pbuf_header p (- int h)")
    case None
    with eq show ?thesis by (auto split: if_splits)
  next
    case (Some x)
    with eq pbuf_header_back [OF Some assms(2,3)] show ?thesis by (auto split: if_splits)
  qed
qed

lemma raw_loop_gives_back:
  "raw_loop m now proto src dest prev rest p ps = (False, q, ps') \<Longrightarrow> p \<noteq> [] \<Longrightarrow>
   ps_type (hd p) \<in> {PBUF_RAM, PBUF_POOL} \<Longrightarrow> q = p"
proof (induction rest arbitrary: prev ps)
  case (Cons pcb rest)
  obtain e1 q1 ps1 where r: "ping_recv m p src now ps = (e1, q1, ps1)" by (metis prod_cases3)
  have "\<not> e1 \<Longrightarrow> q1 = p" using ping_recv_gives_back [of m p src now ps q1 ps1] r Cons.prems(2,3) by simp
  with Cons r show ?case by (auto simp: Let_def split: if_splits bool.splits)
qed simp

lemma raw_input_gives_back:
  "raw_input m now p src dest ps = (False, q, ps') \<Longrightarrow> p \<noteq> [] \<Longrightarrow> ps_type (hd p) \<in> {PBUF_RAM, PBUF_POOL} \<Longrightarrow> q = p"
  unfolding raw_input_def by (rule raw_loop_gives_back)

lemma hdr_view_long: "n \<le> length (ps_payload sg) \<Longrightarrow> hdr_view m n (sg # rest) = take n (ps_payload sg)"
  by (simp add: hdr_view_def)

text \<open>Fields of the frame in the first receive buffer, behind the Ethernet header.\<close>

definition frame_ip_dest :: "u8 list \<Rightarrow> u32" where
  "frame_ip_dest bs = get32 bs 30"

definition frame_hlen :: "u8 list \<Rightarrow> nat" where
  "frame_hlen bs = IPH_HL (get8 bs 14) * 4"

definition frame_udp_port :: "u8 list \<Rightarrow> u16" where
  "frame_udp_port bs = get16 bs (14 + frame_hlen bs + 2)"

lemma get_drop_take:
  "k + i + 2 \<le> length bs \<Longrightarrow> i + 2 \<le> n \<Longrightarrow> get16 (take n (drop k bs)) i = get16 bs (k + i)"
  "k + i + 4 \<le> length bs \<Longrightarrow> i + 4 \<le> n \<Longrightarrow> get32 (take n (drop k bs)) i = get32 bs (k + i)"
  "k + i + 1 \<le> length bs \<Longrightarrow> i + 1 \<le> n \<Longrightarrow> get8 (take n (drop k bs)) i = get8 bs (k + i)"
  by (simp_all add: get16_def get32_def get8_def add.assoc)

lemma ip_input_listeners:
  assumes wf: "sys_wf s" and inp: "inp \<in> set (netif_list (sys_net s))"
    and q: "sg' = sg\<lparr>ps_hidden := ps_hidden sg @ take 14 (ps_payload sg), ps_payload := drop 14 (ps_payload sg)\<rparr>"
      "34 \<le> length (ps_payload sg)" "rest = [] \<or> 82 \<le> length (ps_payload sg)"
    and ty: "ps_type sg \<in> {PBUF_RAM, PBUF_POOL}"
    and ch: "s_listeners (sy_host (ip_input now (sg' # rest) inp s)) ! j \<noteq> s_listeners (sy_host s) ! j"
  shows "get8 (ps_payload sg) 23 = IP_PROTO_UDP \<and>
    (\<exists>pcb. ls_pcb (s_listeners (sy_host s) ! j) = Some pcb \<and>
      local_match (h_udp (sy_host s)) (netifs (sys_net s) inp) (frame_ip_dest (ps_payload sg)) (frame_udp_port (ps_payload sg))
       (ip4_addr_isbroadcast (frame_ip_dest (ps_payload sg)) (netifs (sys_net s) inp)) pcb)"
proof -
  let ?m = "lk_mem (ns_link (sys_net s))" and ?bs = "ps_payload sg" and ?p = "sg' # rest"
  define n where "n = unat (get16 (hdr_view ?m IP_HLEN ?p) 2)"
  have v: "hdr_view ?m IP_HLEN ?p = take 20 (drop 14 ?bs)" using q(1,2) by (simp add: hdr_view_long IP_HLEN_def)
  have f: "get8 (hdr_view ?m IP_HLEN ?p) 0 = get8 ?bs 14" "get8 (hdr_view ?m IP_HLEN ?p) 9 = get8 ?bs 23"
    "get32 (hdr_view ?m IP_HLEN ?p) 16 = frame_ip_dest ?bs" unfolding v using q(2) by (simp_all add: get_drop_take frame_ip_dest_def)
  let ?src = "get32 (hdr_view ?m IP_HLEN ?p) 12"
  obtain e r ps where raw: "raw_input ?m now (pbuf_realloc ?p n) ?src (frame_ip_dest ?bs) (sy_ping s) = (e, r, ps)"
    by (metis prod_cases3)
  have "s_listeners (sy_host (case raw_input ?m now (pbuf_realloc ?p n) ?src (frame_ip_dest ?bs) (sy_ping s) of
       (True, p, ps) \<Rightarrow> s\<lparr>sy_ping := ps\<rparr>
     | (False, p, ps) \<Rightarrow> ip_deliver (get8 ?bs 23) p inp ?src (frame_ip_dest ?bs) (s\<lparr>sy_ping := ps\<rparr>))) ! j \<noteq>
     s_listeners (sy_host s) ! j" and n: "n \<le> pbuf_tot_len ?p"
    using ch unfolding ip_input_def Let_def ntohs_def n_def [symmetric] f by (auto split: if_splits)
  then have e: "\<not> e" and dl: "s_listeners (sy_host (ip_deliver (get8 ?bs 23) r inp ?src (frame_ip_dest ?bs) (s\<lparr>sy_ping := ps\<rparr>))) ! j \<noteq>
     s_listeners (sy_host s) ! j" unfolding raw by (cases e; simp)+
  have ps: "ps = sy_ping s" using raw_input_wf [OF _ raw] wf e by (simp add: sys_wf_def)
  from dl have udp: "get8 ?bs 23 = IP_PROTO_UDP"
    and ch': "s_listeners (sy_host (udp_input r inp ?src (frame_ip_dest ?bs) s)) ! j \<noteq> s_listeners (sy_host s) ! j"
    using ip_deliver_listeners [of "get8 ?bs 23" r inp ?src "frame_ip_dest ?bs" "s\<lparr>sy_ping := ps\<rparr>" j] by (auto simp: ps)
  have r: "r = pbuf_realloc ?p n"
    using raw_input_gives_back [OF raw [unfolded eq_False [THEN iffD2, OF e]]] q(1) ty realloc_hd [of sg' rest n] by auto
  obtain r' where rs: "pbuf_realloc ?p n = sg'\<lparr>ps_payload := take n (drop 14 ?bs)\<rparr> # r'"
    using realloc_hd [of sg' rest n] q(1) by auto
  have tot: "pbuf_tot_len (pbuf_realloc ?p n) = n" using n by (simp add: pbuf_tot_len_bytes pbuf_realloc_bytes)
  obtain hlen z pcb where u: "hlen = IPH_HL (get8 (hdr_view ?m IP_HLEN r) 0) * 4" "hlen + 8 \<le> n"
    "pbuf_header r (- int hlen) = Some z" "ls_pcb (s_listeners (sy_host s) ! j) = Some pcb"
    "local_match (h_udp (sy_host s)) (netifs (sys_net s) inp) (frame_ip_dest ?bs) (get16 (hdr_view ?m UDP_HLEN z) 2)
       (ip4_addr_isbroadcast (frame_ip_dest ?bs) (netifs (sys_net s) inp)) pcb"
    using udp_input_listeners [OF wf inp ch'] tot r by metis
  have h: "hlen = frame_hlen ?bs"
    using u(1,2) q(2) by (simp add: r rs hdr_view_def get8_def frame_hlen_def nth_append IP_HLEN_def)
  then have h60: "hlen \<le> 60" by (simp add: frame_hlen_def IPH_HL_le)
  have room: "hlen + 8 \<le> length (drop 14 ?bs)"
    using q(3) u(2) n h60 by (auto simp: q(1) pbuf_tot_len_def)
  have "hdr_view ?m UDP_HLEN z = take 8 (drop hlen (take n (drop 14 ?bs)))"
    using u(2,3) room by (auto simp: r rs pbuf_header_def hdr_view_def UDP_HLEN_def split: if_splits)
  also have "\<dots> = take 8 (drop (14 + hlen) ?bs)" using u(2) by (simp add: drop_take add.commute)
  finally have "get16 (hdr_view ?m UDP_HLEN z) 2 = frame_udp_port ?bs"
    using room by (simp add: get_drop_take frame_udp_port_def h [symmetric])
  with u(4,5) udp show ?thesis by auto
qed

section \<open>Start-up\<close>

text \<open>A new control block that does not call back into the registry.\<close>

lemma host_wf_grow:
  assumes "host_wf h" and "udp_wf u" and "set (udp_pcbs (h_udp h)) \<subseteq> set (udp_pcbs u)"
    and "\<forall>p \<in> set (udp_pcbs (h_udp h)). pcb_recv (pcb_at u p) = pcb_recv (pcb_at (h_udp h) p)"
    and "\<forall>p \<in> set (udp_pcbs u) - set (udp_pcbs (h_udp h)). \<forall>i. pcb_recv (pcb_at u p) \<noteq> Udp_rx_callback i"
  shows "host_wf (h\<lparr>h_udp := u\<rparr>)"
proof -
  have "slot_wf (h_net h) u i (s_listeners h ! i)" if "i < UDP_MAX_LISTENERS" for i
  proof -
    have "slot_wf (h_net h) (h_udp h) i (s_listeners h ! i)" using assms(1) that by (simp add: host_wf_def)
    with assms(3,4) show ?thesis by (auto simp: slot_wf_def split: if_splits)
  qed
  moreover have "callbacks_wf u (s_listeners h)"
    using assms(1,4,5) unfolding host_wf_def callbacks_wf_def by (metis DiffI)
  ultimately show ?thesis using assms(1,2) by (simp add: host_wf_def reg_ok_def)
qed

definition sys_start :: "u8 list \<Rightarrow> u32 \<Rightarrow> u32 \<Rightarrow> u32 \<Rightarrow> phy_st \<Rightarrow> mem_st \<Rightarrow> string \<Rightarrow> sys_st option" where
  "sys_start mac a m g phy mem title =
     (let h = host_start mac a m g phy mem in
      case LocatorConfig mac title (h_udp h) of
        None \<Rightarrow> None
      | Some (d, u) \<Rightarrow> Some \<lparr>sy_host = h\<lparr>h_udp := u\<rparr>, sy_ping = ping_zero, sy_locator = d\<rparr>)"

lemma length_locator_data: "length mac = 6 \<Longrightarrow> length (locator_data mac title) = 84"
  by (simp add: locator_data_def Let_def)

lemma LocatorConfig_host:
  assumes "host_wf h" and "LocatorConfig mac title (h_udp h) = Some (d, u)"
  shows "host_wf (h\<lparr>h_udp := u\<rparr>)"
proof -
  let ?u = "h_udp h"
  have wf: "udp_wf ?u" using assms(1) by (simp add: host_wf_def)
  obtain p u1 where n: "udp_new ?u = (Some p, u1)"
    using assms(2) by (auto simp: LocatorConfig_def split: prod.splits option.splits)
  have n': "p \<notin> set (udp_pcbs u1)" "p \<notin> set (pcb_free u1)" "p < MEMP_NUM_UDP_PCB" "udp_pcbs u1 = udp_pcbs ?u"
    "\<And>q. q \<noteq> p \<Longrightarrow> pcb_at u1 q = pcb_at ?u q" "pcb_local_port (pcb_at u1 p) = 0"
    using udp_new_Some [OF n wf] by (auto simp: pcb_zero_def)
  let ?u2 = "udp_recv p udp_recv_fn.LocatorReceive u1"
  have u2: "udp_wf ?u2" "p \<notin> set (pcb_free ?u2)" using udp_new_wf [OF wf] n n'(2) by (simp_all add: udp_recv_wf) (simp add: udp_recv_def)
  let ?u3 = "snd (udp_bind p IPADDR_ANY 23 ?u2)"
  have u3: "udp_wf ?u3" "p \<notin> set (pcb_free ?u3)" using u2 n'(3) by (simp_all add: udp_bind_wf udp_bind_free)
  have keep: "set (udp_pcbs ?u) \<subseteq> set (udp_pcbs ?u3) \<and> set (udp_pcbs ?u3) \<subseteq> insert p (set (udp_pcbs ?u)) \<and>
      (pcb_local_port (pcb_at ?u3 p) \<noteq> 0 \<longrightarrow> p \<in> set (udp_pcbs ?u3)) \<and>
      (\<forall>q. pcb_recv (pcb_at ?u3 q) = (if q = p then udp_recv_fn.LocatorReceive else pcb_recv (pcb_at ?u q)))"
    using u2(1) by (cases rule: udp_bind_cases [of ?u2 p IPADDR_ANY 23]) (use n' in \<open>auto simp: udp_recv_def\<close>)
  have wf4: "udp_wf u" and u4: "u = snd (udp_connect p IPADDR_ANY 23 ?u3)"
    using assms(2) n keep udp_connect_wf [OF u3 n'(3), of IPADDR_ANY 23] by (auto simp: LocatorConfig_def Let_def)
  have "set (udp_pcbs ?u3) \<subseteq> set (udp_pcbs u) \<and> set (udp_pcbs u) \<subseteq> insert p (set (udp_pcbs ?u3)) \<and>
      (\<forall>q. pcb_recv (pcb_at u q) = pcb_recv (pcb_at ?u3 q))"
    unfolding u4 using u3(1)
    by (cases rule: udp_bind_cases [of ?u3 p "pcb_local_ip (pcb_at ?u3 p)" 0]) (auto simp: udp_connect_def Let_def)
  with keep n' show ?thesis by (intro host_wf_grow [OF assms(1) wf4]) auto
qed

lemma host_start_no_dhcp: "no_dhcp (h_net (host_start mac a m g phy mem))"
proof -
  have "if_dhcp (snd (hdkif_init lib phy n)) = if_dhcp n" for lib n
    by (simp add: hdkif_init_def hdkif_hw_init_def Let_def)
  moreover have "if_dhcp (netifs (netif_set_up x st) y) = if_dhcp (netifs st y)" for x y st
    by (simp add: netif_set_up_def Let_def frame_simps)
  ultimately have "if_dhcp (netifs (h_net (host_start mac a m g phy mem)) (Hdk 0)) = None"
    by (auto simp: host_start_def lwIPNetifAdd_def netif_add_def Let_def netif_set_default_def frame_simps netif_reset_def
        net_zero_def netif_zero_def split: prod.splits) (metis snd_conv netif.select_convs(7) netif.update_convs(7))+
  then show ?thesis by (simp add: no_dhcp_def host_start_wf(2))
qed

lemma ping_zero_wf: "ping_wf ping_zero"
  by (auto simp: ping_wf_def ping_zero_def)

lemma host_start_udp: "h_udp (host_start mac a m g phy mem) = memp_init udp_zero"
  by (simp add: host_start_def lwIPCoreInit_def lib_zero_def split: prod.splits)

lemma sys_start_wf:
  assumes "length mac = 6"
  obtains s where "sys_start mac a m g phy mem title = Some s" "sys_wf s" "netif_list (sys_net s) = [Hdk 0]"
proof -
  let ?h = "host_start mac a m g phy mem"
  obtain d u where l: "LocatorConfig mac title (h_udp ?h) = Some (d, u)"
  proof -
    have "fst (udp_new (h_udp ?h)) \<noteq> None"
      by (simp add: udp_new_None host_start_udp memp_init_def MEMP_NUM_UDP_PCB_def)
    then obtain p u where "udp_new (h_udp ?h) = (Some p, u)" by (cases "udp_new (h_udp ?h)") auto
    then show ?thesis using that by (simp add: LocatorConfig_def Let_def)
  qed
  have d: "d = locator_data mac title" using l by (auto simp: LocatorConfig_def Let_def split: prod.splits option.splits)
  let ?s = "\<lparr>sy_host = ?h\<lparr>h_udp := u\<rparr>, sy_ping = ping_zero, sy_locator = d\<rparr>"
  have "sys_wf ?s"
    using LocatorConfig_host [OF host_start_wf(1) l] host_start_no_dhcp [of mac a m g phy mem] length_locator_data [OF assms]
    by (simp add: sys_wf_def sys_net_def ping_zero_wf d)
  with that [of ?s] l host_start_wf(2) [of mac a m g phy mem] show ?thesis by (simp add: sys_start_def Let_def sys_net_def)
qed

section \<open>Properties\<close>

text \<open>
  C3: sockets are isolated. Whatever frame arrives, the slot of an open socket that is bound to a specific address can
  change only when the frame is an IP packet with protocol UDP whose destination port is the port of the socket and
  whose destination address is the address of the socket or a broadcast address of the receiving interface. The
  headers are read from the first receive buffer, which holds at least an IP header, and the longest possible headers
  when more buffers follow.
\<close>

theorem socket_isolation:
  assumes wf: "sys_wf s" and d: "d \<in> set (netif_list (sys_net s))"
    and sg: "34 \<le> length (ps_payload sg)" "rest = [] \<or> 82 \<le> length (ps_payload sg)" "ps_type sg \<in> {PBUF_RAM, PBUF_POOL}"
    and j: "ls_pcb (s_listeners (sy_host s) ! j) = Some pcb" "\<not> ip_addr_isany (pcb_local_ip (pcb_at (h_udp (sy_host s)) pcb))"
    and other: "get16 (ps_payload sg) 12 \<noteq> ETHTYPE_IP \<or> get8 (ps_payload sg) 23 \<noteq> IP_PROTO_UDP \<or>
      frame_udp_port (ps_payload sg) \<noteq> pcb_local_port (pcb_at (h_udp (sy_host s)) pcb) \<or>
      frame_ip_dest (ps_payload sg) \<noteq> pcb_local_ip (pcb_at (h_udp (sy_host s)) pcb) \<and>
      (\<forall>n \<in> set (netif_list (sys_net s)). \<not> ip4_addr_isbroadcast (frame_ip_dest (ps_payload sg)) (netifs (sys_net s) n))"
  shows "s_listeners (sy_host (ethernet_input now (sg # rest) d s)) ! j = s_listeners (sy_host s) ! j"
proof (rule ccontr)
  assume ch: "s_listeners (sy_host (ethernet_input now (sg # rest) d s)) ! j \<noteq> s_listeners (sy_host s) ! j"
  let ?nif = "rx_netif (sg # rest) d ETHTYPE_IP (sys_net s)"
  let ?sg = "sg\<lparr>ps_hidden := ps_hidden sg @ take 14 (ps_payload sg), ps_payload := drop 14 (ps_payload sg)\<rparr>"
  have nif: "?nif \<in> set (netif_list (sys_net s))" by (rule rx_netif_listed [OF d])
  have q: "pbuf_header (sg # rest) (- int SIZEOF_ETH_HDR) = Some (?sg # rest)"
    using sg(1) by (simp add: pbuf_header_def SIZEOF_ETH_HDR_def)
  have type: "get16 (ps_payload sg) 12 = ETHTYPE_IP"
    using ch by (auto simp: ethernet_input_eq Let_def split: if_splits)
  have "s_listeners (sy_host (ip_input now (?sg # rest) ?nif s)) ! j \<noteq> s_listeners (sy_host s) ! j"
    using ch q unfolding ethernet_input_eq Let_def list.sel type by (auto split: if_splits)
  from ip_input_listeners [OF wf nif refl sg this] j other type nif show False
    by (auto simp: local_match_def Let_def)
qed

definition sys_of :: "host_st \<Rightarrow> sys_st" where
  "sys_of h = \<lparr>sy_host = h, sy_ping = ping_zero, sy_locator = replicate 84 0\<rparr>"

lemma sys_of_wf: "host_wf h \<Longrightarrow> no_dhcp (h_net h) \<Longrightarrow> sys_wf (sys_of h)"
  by (simp add: sys_of_def sys_wf_def sys_net_def ping_zero_wf)

text \<open>The socket of the start-up state, and a datagram for a port that nobody uses.\<close>

definition stray_seg :: pseg where
  "stray_seg = \<lparr>ps_type = PBUF_POOL, ps_hidden = [], ps_payload = replicate 12 0 @ be16 ETHTYPE_IP @
     ip_packet netif_zero 0x0a000005 0x0a00000a 64 0 IP_PROTO_UDP 1 (udp_datagram 0x0a000005 0x0a00000a 9 9 [1, 2, 3])\<rparr>"

theorem socket_isolation_witness:
  "s_listeners (sy_host (ethernet_input 0 [stray_seg] (Hdk 0) (sys_of boot_known))) ! 0 = s_listeners boot_known ! 0"
proof -
  have dh: "no_dhcp (h_net boot_known)" by code_simp
  have hyps: "Hdk 0 \<in> set (netif_list (sys_net (sys_of boot_known)))" "34 \<le> length (ps_payload stray_seg)"
    "ps_type stray_seg \<in> {PBUF_RAM, PBUF_POOL}"
    "ls_pcb (s_listeners (sy_host (sys_of boot_known)) ! 0) = Some 19"
    "\<not> ip_addr_isany (pcb_local_ip (pcb_at (h_udp (sy_host (sys_of boot_known))) 19))"
    "frame_udp_port (ps_payload stray_seg) \<noteq> pcb_local_port (pcb_at (h_udp (sy_host (sys_of boot_known))) 19)"
    by code_simp+
  have "s_listeners (sy_host (ethernet_input 0 [stray_seg] (Hdk 0) (sys_of boot_known))) ! 0 =
      s_listeners (sy_host (sys_of boot_known)) ! 0"
    using socket_isolation [OF sys_of_wf [OF boot_known_wf dh] hyps(1,2) _ hyps(3-5), of "[]" 0] hyps(6) by simp
  then show ?thesis by (simp add: sys_of_def)
qed

end
