(* ===== verification/End_To_End.thy ===== *)
theory End_To_End
  imports Rx_Path
begin

text \<open>
  Properties of whole exchanges, over the transmit path of one host and the receive path of another: a datagram that is
  sent on a socket arrives in the socket it is addressed to; an ARP request for the address of an alias interface is
  answered with the hardware address that all interfaces share; damaged packets leave the system as it is.
\<close>

section \<open>Receiving a datagram\<close>

text \<open>Interface \<open>nif\<close> is in service and alone in having the unicast address \<open>a\<close>; \<open>Hdk 0\<close> is where frames arrive.\<close>

definition owns_addr :: "net_st \<Rightarrow> netif_ptr \<Rightarrow> u32 \<Rightarrow> bool" where
  "owns_addr net nif a \<longleftrightarrow>
     nif \<in> set (netif_list net) \<and> filter_match a (netifs net nif) \<and> if_flags (netifs net nif) AND NETIF_FLAG_ETHARP \<noteq> 0 \<and>
     \<not> ip_addr_isany a \<and> \<not> ip_addr_ismulticast a \<and> \<not> ip4_addr_isbroadcast a (netifs net (Hdk 0)) \<and>
     \<not> ip4_addr_isbroadcast a (netifs net nif) \<and>
     list_all (\<lambda>n. if_ip_addr (netifs net n) = a \<longrightarrow> n = nif) (netif_list net)"

text \<open>Slot \<open>j\<close> is an open, unconnected socket bound to the address and port.\<close>

definition bound_to :: "host_st \<Rightarrow> nat \<Rightarrow> u32 \<Rightarrow> u16 \<Rightarrow> bool" where
  "bound_to h j a port \<longleftrightarrow>
     j < UDP_MAX_LISTENERS \<and> ls_in_use (s_listeners h ! j) \<and>
     (let pcb = the (ls_pcb (s_listeners h ! j)) in
      pcb_local_ip (pcb_at (h_udp h) pcb) = a \<and> pcb_local_port (pcb_at (h_udp h) pcb) = port \<and> unconnected (h_udp h) pcb)"

lemma Hdk0_listed: "sys_wf s \<Longrightarrow> Hdk 0 \<in> set (netif_list (sys_net s))"
  by (simp add: sys_wf_def host_wf_def alias_wf_def sys_net_def)

lemma ethernet_input_owned:
  assumes wf: "sys_wf s" and p: "p = sg # rest" "34 \<le> length (ps_payload sg)"
    and bytes: "pbuf_bytes p = eth @ be16 ETHTYPE_IP @ hdr @ payload" "length eth = 12"
      "hdr = ip_hdr_bytes v tos len idn off ttl proto c src dst"
    and own: "owns_addr (sys_net s) nif dst"
  obtains sg' where "ps_payload sg' = drop 14 (ps_payload sg)" "ps_hidden sg' = ps_hidden sg @ take 14 (ps_payload sg)"
    "ps_type sg' = ps_type sg" "pbuf_bytes (sg' # rest) = hdr @ payload"
    "ethernet_input now p (Hdk 0) s = ip_input now (sg' # rest) nif s"
proof -
  have o: "nif \<in> set (netif_list (sys_net s))" "filter_match dst (netifs (sys_net s) nif)"
    "if_flags (netifs (sys_net s) nif) AND NETIF_FLAG_ETHARP \<noteq> 0"
    "\<And>n. n \<in> set (netif_list (sys_net s)) \<Longrightarrow> if_ip_addr (netifs (sys_net s) n) = dst \<Longrightarrow> n = nif"
    "\<not> ip4_addr_isbroadcast dst (netifs (sys_net s) (Hdk 0))" "\<not> ip_addr_ismulticast dst"
    using own by (auto simp: owns_addr_def list_all_iff)
  show ?thesis
    by (rule ethernet_input_ip [OF p bytes Hdk0_listed [OF wf] o(1-3) _ o(5,6), where now = now]) (use o(4) that in blast)+
qed

lemma owns_accepts: "owns_addr net nif a \<Longrightarrow> accepts a (netifs net nif)"
  by (auto simp: owns_addr_def accepts_def filter_match_def)

text \<open>The packet in front of the protocol, for a packet that is not ICMP.\<close>

lemma frame_to_protocol:
  assumes wf: "sys_wf s" and p: "p = sg # rest" "14 + k \<le> length (ps_payload sg)" "20 \<le> k" "k \<le> 20 + length payload"
    and bytes: "pbuf_bytes p = eth @ be16 ETHTYPE_IP @ hdr @ payload @ pad" "length eth = 12"
    and hdr: "hdr = ip_hdr_bytes 0x45 tos (of_nat (20 + length payload)) idn off ttl proto c src dst"
      "inet_chksum False hdr = 0" "off AND (IP_OFFMASK OR IP_MF) = 0" "20 + length payload < 65536" "proto \<noteq> IP_PROTO_ICMP"
    and own: "owns_addr (sys_net s) nif dst"
    and src: "\<not> ip4_addr_isbroadcast src (netifs (sys_net s) nif)" "\<not> ip_addr_ismulticast src"
  obtains sg' rest' where "k \<le> length (ps_payload sg')" "take 20 (ps_payload sg') = hdr" "ps_type sg' = ps_type sg"
    "14 \<le> length (ps_hidden sg')" "pbuf_bytes (sg' # rest') = hdr @ payload"
    "ethernet_input now p (Hdk 0) s = ip_deliver proto (sg' # rest') nif src dst s"
proof -
  have l34: "34 \<le> length (ps_payload sg)" using p(2,3) by simp
  obtain sg1 where 1: "ps_payload sg1 = drop 14 (ps_payload sg)" "ps_hidden sg1 = ps_hidden sg @ take 14 (ps_payload sg)"
    "ps_type sg1 = ps_type sg" "pbuf_bytes (sg1 # rest) = hdr @ payload @ pad"
    "ethernet_input now p (Hdk 0) s = ip_input now (sg1 # rest) nif s"
    by (rule ethernet_input_owned [OF wf p(1) l34 bytes hdr(1) own, where now = now])
  have k: "k \<le> length (ps_payload sg1)" using p(2) 1(1) by simp
  obtain sg' rest' where 2: "k \<le> length (ps_payload sg')" "take 20 (ps_payload sg') = hdr" "ps_type sg' = ps_type sg1"
    "ps_hidden sg' = ps_hidden sg1" "pbuf_bytes (sg' # rest') = hdr @ payload"
    "ip_input now (sg1 # rest) nif s =
      (case raw_input (lk_mem (ns_link (sys_net s))) now (sg' # rest') src dst (sy_ping s) of
         (True, q, ps) \<Rightarrow> s\<lparr>sy_ping := ps\<rparr>
       | (False, q, ps) \<Rightarrow> ip_deliver proto q nif src dst (s\<lparr>sy_ping := ps\<rparr>))"
    by (rule ip_input_accepted [OF refl k p(3,4) hdr(1-4) 1(4) owns_accepts [OF own] src, where now = now])
  have "get8 (hdr_view (lk_mem (ns_link (sys_net s))) IP_HLEN (sg' # rest')) 9 = proto"
    using 2(1,2) p(3) by (simp add: hdr_view_long IP_HLEN_def hdr(1) ip_hdr_fields)
  then have "raw_input (lk_mem (ns_link (sys_net s))) now (sg' # rest') src dst (sy_ping s) = (False, sg' # rest', sy_ping s)"
    using wf hdr(5) by (intro raw_input_other) (simp_all add: sys_wf_def)
  with 1 2 l34 show ?thesis by (intro that [of sg' rest']) simp_all
qed

lemma udp_frame_box:
  assumes wf: "sys_wf s" and p: "p = sg # rest" "42 \<le> length (ps_payload sg)" "length data \<le> 65507"
    and bytes: "pbuf_bytes p = eth @ be16 ETHTYPE_IP @ hdr @ udp_datagram src dst sport dport data @ pad" "length eth = 12"
    and hdr: "hdr = ip_hdr_bytes 0x45 tos (of_nat (28 + length data)) idn off ttl IP_PROTO_UDP c src dst"
      "inet_chksum False hdr = 0" "off AND (IP_OFFMASK OR IP_MF) = 0"
    and own: "owns_addr (sys_net s) nif dst" and bnd: "bound_to (sy_host s) j dst dport" "dport \<noteq> DHCP_CLIENT_PORT"
    and src: "\<not> ip4_addr_isbroadcast src (netifs (sys_net s) nif)" "\<not> ip_addr_ismulticast src"
  obtains d h where "pbuf_bytes d = data" "host_wf h" "s_listeners h = s_listeners (sy_host s)" "h_net h = sys_net s"
    "ethernet_input now p (Hdk 0) s = s\<lparr>sy_host := snd (udp_rx_callback j d src sport h)\<rparr>"
proof -
  let ?h = "sy_host s" and ?n = "netifs (sys_net s) nif"
  have hw: "host_wf ?h" using wf by (simp add: sys_wf_def)
  have j: "j < UDP_MAX_LISTENERS" "ls_in_use (s_listeners ?h ! j)" using bnd(1) by (simp_all add: bound_to_def)
  obtain pcb where pcb: "ls_pcb (s_listeners ?h ! j) = Some pcb" "pcb \<in> set (udp_pcbs (h_udp ?h))"
    "pcb_recv (pcb_at (h_udp ?h) pcb) = Udp_rx_callback j" using host_wf_slot [OF hw j] by metis
  have b: "pcb_local_ip (pcb_at (h_udp ?h) pcb) = dst" "pcb_local_port (pcb_at (h_udp ?h) pcb) = dport" "unconnected (h_udp ?h) pcb"
    using bnd(1) pcb(1) by (simp_all add: bound_to_def Let_def)
  have o: "nif \<in> set (netif_list (sys_net s))" "\<not> ip_addr_isany dst" "\<not> ip4_addr_isbroadcast dst ?n"
    using own by (simp_all add: owns_addr_def)
  have dh: "if_dhcp ?n = None" using wf o(1) by (simp add: sys_wf_def no_dhcp_def)
  have uw: "udp_wf (h_udp ?h)" using hw by (simp add: host_wf_def)
  obtain pcbs where dm: "udp_demux ?n src dst sport dport (h_udp ?h) = (Some pcb, (h_udp ?h)\<lparr>udp_pcbs := pcbs\<rparr>)"
    "mset pcbs = mset (udp_pcbs (h_udp ?h))"
    by (rule udp_demux_socket [OF uw pcb(2) b o(3,2) bnd(2) dh])
  have len: "of_nat (28 + length data) = of_nat (20 + length (udp_datagram src dst sport dport data))" by simp
  note hdr1 = hdr(1) [unfolded len]
  have k: "14 + 28 \<le> length (ps_payload sg)" "28 \<le> 20 + length (udp_datagram src dst sport dport data)"
    "20 + length (udp_datagram src dst sport dport data) < 65536" using p(2,3) by simp_all
  have np: "IP_PROTO_UDP \<noteq> IP_PROTO_ICMP" by (simp add: IP_PROTO_UDP_def IP_PROTO_ICMP_def)
  obtain sg' rest' where f: "28 \<le> length (ps_payload sg')" "take 20 (ps_payload sg') = hdr"
    "pbuf_bytes (sg' # rest') = hdr @ udp_datagram src dst sport dport data"
    "ethernet_input now p (Hdk 0) s = ip_deliver IP_PROTO_UDP (sg' # rest') nif src dst s"
    by (rule frame_to_protocol [OF wf p(1) k(1) _ k(2) bytes hdr1 hdr(2,3) k(3) np own src, where now = now]) (simp, blast)
  have g: "get8 (ps_payload sg') 0 = 0x45"
  proof -
    have "get8 (take 20 (ps_payload sg')) 0 = 0x45" unfolding f(2) hdr(1) ip_hdr_fields ..
    then show ?thesis by (simp add: get8_def)
  qed
  have dg: "drop 20 (pbuf_bytes (sg' # rest')) = udp_datagram src dst sport dport data"
    unfolding f(3) by (simp add: hdr(1))
  let ?h' = "?h\<lparr>h_udp := (h_udp ?h)\<lparr>udp_pcbs := pcbs\<rparr>\<rparr>"
  obtain d where d: "pbuf_bytes d = data"
    "udp_input (sg' # rest') nif src dst s = udp_deliver pcb d src sport (s\<lparr>sy_host := ?h'\<rparr>)"
    by (rule udp_input_datagram [OF refl f(1) g dg p(3) dm(1)])
  have "ethernet_input now p (Hdk 0) s = s\<lparr>sy_host := snd (udp_rx_callback j d src sport ?h')\<rparr>"
    unfolding f(4) ip_deliver_def using d(2) pcb(3) by (simp add: udp_deliver_def)
  then show ?thesis using that [OF d(1) host_permute_wf [OF hw dm(2)]] by (simp add: sys_net_def)
qed

section \<open>Properties\<close>

text \<open>The host \<open>dst\<close> can be reached without a new ARP request.\<close>

definition known_host :: "net_st \<Rightarrow> netif_ptr \<Rightarrow> u32 \<Rightarrow> bool" where
  "known_host net nif dst \<longleftrightarrow>
     \<not> ip4_addr_isbroadcast dst (netifs net nif) \<and> \<not> ip_addr_ismulticast dst \<and>
     (case next_hop (netifs net nif) dst of
        None \<Rightarrow> False
      | Some h \<Rightarrow>
         (case etharp_find_addr h (ns_link net) of
            None \<Rightarrow> False
          | Some (k, mac) \<Rightarrow> ae_ctime (arp_table (ns_link net) ! k) < ARP_AGE_REREQUEST_USED))"

lemma known_hostE:
  assumes "known_host net nif dst"
  obtains h k mac where "\<not> ip4_addr_isbroadcast dst (netifs net nif)" "\<not> ip_addr_ismulticast dst"
    "next_hop (netifs net nif) dst = Some h" "etharp_find_addr h (ns_link net) = Some (k, mac)"
    "ae_ctime (arp_table (ns_link net) ! k) < ARP_AGE_REREQUEST_USED"
  using assms by (auto simp: known_host_def split: option.splits)

lemma found_mac_length: "arp_wf l \<Longrightarrow> etharp_find_addr h l = Some (k, mac) \<Longrightarrow> length mac = 6"
  by (auto simp: arp_wf_def find_addr_iff entry_wf_def dest: arp_tab_wfD(2))

lemma ip_packet_split:
  assumes "\<not> ip_addr_isany src"
  obtains c where "ip_packet n src dst ttl tos proto idn data =
      ip_hdr_bytes 0x45 tos (of_nat (20 + length data)) idn 0 ttl proto c src dst @ data"
    "inet_chksum False (ip_hdr_bytes 0x45 tos (of_nat (20 + length data)) idn 0 ttl proto c src dst) = 0"
proof -
  let ?len = "of_nat (20 + length data) :: u16"
  let ?c = "inet_chksum False (ip_hdr_bytes 0x45 tos ?len idn 0 ttl proto 0 src dst)"
  have "inet_chksum False (ip_hdr_bytes 0x45 tos ?len idn 0 ttl proto ?c src dst) = 0"
    using inet_chksum_verifies [of "[0x45, tos] @ be16 ?len @ be16 idn @ be16 0 @ [ttl, proto]" "be32 src @ be32 dst" False False]
    by (simp add: ip_hdr_bytes_def be16_zero del: of_nat_add)
  with that [of ?c] assms show ?thesis by (simp add: ip_packet_def Let_def)
qed

text \<open>
  C1: what is sent on a socket of one host is received in the socket of the other host that is bound to the destination
  address and port, be it of the physical interface or of an alias. The send reports success, and when the frame it put
  on the wire, with any padding behind it and in whatever chain of buffers, is received, the empty box of the socket
  gets the sender's address, the sender's port and the data, cut at 256 bytes; all other sockets are left alone.
\<close>

theorem datagram_roundtrip:
  assumes A: "host_wf hA" "nifA \<in> set (netif_list (h_net hA))" "resolve sid (s_listeners hA) = Some i"
      "ls_pcb (s_listeners hA ! i) = Some pcb" "pcb_local_ip (pcb_at (h_udp hA) pcb) = if_ip_addr (netifs (h_net hA) nifA)"
      "pcb_flags (pcb_at (h_udp hA) pcb) AND UDP_FLAGS_NOCHKSUM = 0" "data \<noteq> []" "length data \<le> 1472"
      "ms_alloc (lk_mem (ns_link (h_net hA))) = []" and known: "known_host (h_net hA) nifA dst"
    and send: "udp_source_data_send sid (Some nifA) dst dport data hA = (e, hA')"
    and B: "sys_wf s" "owns_addr (sys_net s) nifB dst" "bound_to (sy_host s) j dst dport" "dport \<noteq> DHCP_CLIENT_PORT"
      "box (s_listeners (sy_host s) ! j) = None"
    and src: "src = if_ip_addr (netifs (h_net hA) nifA)" "\<not> ip_addr_isany src"
      "\<not> ip4_addr_isbroadcast src (netifs (sys_net s) nifB)" "\<not> ip_addr_ismulticast src"
    and wire: "p = sg # rest" "42 \<le> length (ps_payload sg)" "pbuf_bytes p = tf_bytes (last (lk_tx (ns_link (h_net hA')))) @ pad"
    and recv: "h' = sy_host (ethernet_input now p (Hdk 0) s)"
  shows "e = ERR_OK \<and>
    box (s_listeners h' ! j) = Some (src, udp_source_get_local_port sid hA, take UDP_RX_BUF_SIZE data) \<and>
    (\<forall>k. k \<noteq> j \<longrightarrow> s_listeners h' ! k = s_listeners (sy_host s) ! k) \<and> h_net h' = sys_net s"
proof -
  let ?nA = "netifs (h_net hA) nifA" and ?c = "pcb_at (h_udp hA) pcb" and ?sp = "udp_source_get_local_port sid hA"
  obtain hop k mac where kn: "\<not> ip4_addr_isbroadcast dst ?nA" "\<not> ip_addr_ismulticast dst" "next_hop ?nA dst = Some hop"
    "etharp_find_addr hop (ns_link (h_net hA)) = Some (k, mac)" "ae_ctime (arp_table (ns_link (h_net hA)) ! k) < ARP_AGE_REREQUEST_USED"
    using known_hostE [OF known] by metis
  let ?dg = "udp_datagram src dst ?sp dport data"
  obtain inst where e: "e = ERR_OK" and tx: "lk_tx (ns_link (h_net hA')) = lk_tx (ns_link (h_net hA)) @ [wire_frame inst
      (ip_frame ?nA mac (ip_packet ?nA src dst (pcb_ttl ?c) (pcb_tos ?c) IP_PROTO_UDP (ip_id (h_net hA)) ?dg))]"
    using data_send_frame [OF A kn send] src(1) by auto
  obtain c where c: "ip_packet ?nA src dst (pcb_ttl ?c) (pcb_tos ?c) IP_PROTO_UDP (ip_id (h_net hA)) ?dg =
      ip_hdr_bytes 0x45 (pcb_tos ?c) (of_nat (20 + length ?dg)) (ip_id (h_net hA)) 0 (pcb_ttl ?c) IP_PROTO_UDP c src dst @ ?dg"
    "inet_chksum False (ip_hdr_bytes 0x45 (pcb_tos ?c) (of_nat (20 + length ?dg)) (ip_id (h_net hA)) 0 (pcb_ttl ?c)
      IP_PROTO_UDP c src dst) = 0"
    by (rule ip_packet_split [OF src(2)])
  let ?hdr = "ip_hdr_bytes 0x45 (pcb_tos ?c) (of_nat (28 + length data)) (ip_id (h_net hA)) 0 (pcb_ttl ?c) IP_PROTO_UDP c src dst"
  have "netif_ready ?nA" "arp_wf (ns_link (h_net hA))" using A(1,2) by (auto simp: host_wf_def netif_wf_def)
  then have eth: "length (mac @ if_hwaddr ?nA) = 12"
    using found_mac_length [OF _ kn(4)] by (auto simp: netif_ready_def link_ready_def)
  have bytes: "pbuf_bytes p = (mac @ if_hwaddr ?nA) @ be16 ETHTYPE_IP @ ?hdr @ ?dg @ pad"
    unfolding wire(3) tx using c(1) by (simp add: wire_frame_def ip_frame_def)
  have chk: "inet_chksum False ?hdr = 0" using c(2) by simp
  have small: "length data \<le> 65507" using A(8) by simp
  obtain d h where d: "pbuf_bytes d = data" "host_wf h" "s_listeners h = s_listeners (sy_host s)" "h_net h = sys_net s"
    "ethernet_input now p (Hdk 0) s = s\<lparr>sy_host := snd (udp_rx_callback j d src ?sp h)\<rparr>"
    by (rule udp_frame_box [OF B(1) wire(1,2) small bytes eth refl chk _ B(2-4) src(3,4), where now = now]) simp
  have j: "j < UDP_MAX_LISTENERS" "ls_in_use (s_listeners h ! j)" using B(3) d(3) by (simp_all add: bound_to_def)
  obtain fr h1 where cb: "udp_rx_callback j d src ?sp h = (fr, h1)" by (meson surj_pair)
  have "h' = h1" using recv d(5) cb by simp
  moreover have "h_net h1 = h_net h" using cb by (auto simp: udp_rx_callback_def upd_slot_def split: if_splits)
  ultimately show ?thesis using rx_callback_box [OF d(2) j cb] e B(5) d(1,3,4) by simp
qed

text \<open>The host 10.0.0.5 with a socket on port 7, and the frame of the sender in one receive buffer.\<close>

definition peer_host :: host_st where
  "peer_host = snd (snd (udp_source_add_listener (Some (Hdk 0)) 7 (host_start [2, 0, 0, 0, 0, 5] 0x0a000005 0xffffff00 0x0a000001
     \<lparr>phy_alive = True, phy_autoneg = True\<rparr> \<lparr>ms_alloc = [], ms_junk = (\<lambda>_. 0)\<rparr>)))"

definition sent_seg :: pseg where
  "sent_seg = \<lparr>ps_type = PBUF_POOL, ps_hidden = [], ps_payload = tf_bytes (last (lk_tx (ns_link (h_net
     (snd (udp_source_data_send 0 (Some (Hdk 0)) 0x0a000005 7 [1, 2, 3] boot_known)))))) @ replicate 15 0\<rparr>"

lemma peer_host_wf: "host_wf peer_host"
proof -
  have "Hdk 0 \<in> set (netif_list (h_net (host_start mac a m g phy mem)))" for mac a m g phy mem
    by (simp add: host_start_wf(2))
  then show ?thesis unfolding peer_host_def using host_start_wf(1) by (intro add_listener_wf) auto
qed

theorem datagram_roundtrip_witness:
  "box (s_listeners (sy_host (ethernet_input 0 [sent_seg] (Hdk 0) (sys_of peer_host))) ! 0) = Some (0x0a00000a, 5000, [1, 2, 3])"
proof -
  obtain e h' where send: "udp_source_data_send 0 (Some (Hdk 0)) 0x0a000005 7 [1, 2, 3] boot_known = (e, h')"
    by (meson surj_pair)
  have A: "Hdk 0 \<in> set (netif_list (h_net boot_known))" "resolve 0 (s_listeners boot_known) = Some 0"
    "ls_pcb (s_listeners boot_known ! 0) = Some 19"
    "pcb_local_ip (pcb_at (h_udp boot_known) 19) = if_ip_addr (netifs (h_net boot_known) (Hdk 0))"
    "pcb_flags (pcb_at (h_udp boot_known) 19) AND UDP_FLAGS_NOCHKSUM = 0"
    "ms_alloc (lk_mem (ns_link (h_net boot_known))) = []" "known_host (h_net boot_known) (Hdk 0) 0x0a000005"
    "udp_source_get_local_port 0 boot_known = 5000" by code_simp+
  have dh: "no_dhcp (h_net peer_host)" by code_simp
  have B: "owns_addr (sys_net (sys_of peer_host)) (Hdk 0) 0x0a000005" "bound_to (sy_host (sys_of peer_host)) 0 0x0a000005 7"
    "7 \<noteq> DHCP_CLIENT_PORT" "box (s_listeners (sy_host (sys_of peer_host)) ! 0) = None"
    "0x0a00000a = if_ip_addr (netifs (h_net boot_known) (Hdk 0))" "\<not> ip_addr_isany 0x0a00000a"
    "\<not> ip4_addr_isbroadcast 0x0a00000a (netifs (sys_net (sys_of peer_host)) (Hdk 0))" "\<not> ip_addr_ismulticast 0x0a00000a"
    "42 \<le> length (ps_payload sent_seg)" by code_simp+
  have w: "pbuf_bytes [sent_seg] = tf_bytes (last (lk_tx (ns_link (h_net h')))) @ replicate 15 0"
    using send by (simp add: sent_seg_def)
  have d: "[1, 2, 3] \<noteq> ([] :: u8 list)" "length [1 :: u8, 2, 3] \<le> 1472" by simp_all
  show ?thesis
    using datagram_roundtrip [OF boot_known_wf A(1-5) d A(6,7) send sys_of_wf [OF peer_host_wf dh] B(1-8) refl B(9) w refl, of 0] A(8)
    by (simp add: UDP_RX_BUF_SIZE_def)
qed

section \<open>Address resolution for aliases\<close>

lemma arp_packet_fields:
  assumes "length es = 6" "length ed = 6" "length hs = 6" "length ht = 6" and bs: "bs = arp_packet es ed hs sip ht dip opc @ pad"
  shows "get16 bs 12 = ETHTYPE_ARP" "get16 bs 14 = 1" "get16 bs 16 = ETHTYPE_IP" "get8 bs 18 = 6" "get8 bs 19 = 4"
    "get16 bs 20 = opc" "take 6 (drop 22 bs) = hs" "get32 bs 28 = sip" "get32 bs 38 = dip" "42 \<le> length bs"
proof -
  let ?a = "ed @ es" and ?t = "be16 ETHTYPE_ARP"
  let ?h = "?a @ ?t @ be16 1 @ be16 ETHTYPE_IP"
  note l = assms(1-4)
  show "get16 bs 12 = ETHTYPE_ARP" using get16_be16 [of ?a 12] l by (simp add: bs arp_packet_def)
  show "get16 bs 14 = 1" using get16_be16 [of "?a @ ?t" 14 1] l by (simp add: bs arp_packet_def)
  show "get16 bs 16 = ETHTYPE_IP" using get16_be16 [of "?a @ ?t @ be16 1" 16] l by (simp add: bs arp_packet_def)
  show "get8 bs 18 = 6" using nth_append_at [of ?h 18 6] l by (simp add: bs arp_packet_def get8_def)
  show "get8 bs 19 = 4" using nth_append_at [of "?h @ [6]" 19 4] l by (simp add: bs arp_packet_def get8_def)
  show "get16 bs 20 = opc" using get16_be16 [of "?h @ [6, 4]" 20 opc] l by (simp add: bs arp_packet_def)
  show "take 6 (drop 22 bs) = hs" using slice_at [of "?h @ [6, 4] @ be16 opc" 22 hs 6] l by (simp add: bs arp_packet_def)
  show "get32 bs 28 = sip" using get32_be32 [of "?h @ [6, 4] @ be16 opc @ hs" 28 sip] l by (simp add: bs arp_packet_def)
  show "get32 bs 38 = dip"
    using get32_be32 [of "?h @ [6, 4] @ be16 opc @ hs @ be32 sip @ ht" 38 dip pad] l by (simp add: bs arp_packet_def)
  show "42 \<le> length bs" using l by (simp add: bs arp_packet_def)
qed

text \<open>At most one packet waits for an address.\<close>

lemma update_tx:
  assumes "link_ready n inst"
  obtains w where "length w \<le> 1" "lk_tx (snd (etharp_update_arp_entry nif n a m flags s)) = lk_tx s @ w"
proof -
  have send: "lk_tx (snd (etharp_send_ip n p x y t)) = lk_tx t @ [wire_frame inst (pbuf_bytes (pbuf_put 0 (y @ x @ be16 ETHTYPE_IP) p))]"
    for p x y t using linkoutput_ready [OF assms] by (simp add: etharp_send_ip_def)
  let ?w = "drop (length (lk_tx s)) (lk_tx (snd (etharp_update_arp_entry nif n a m flags s)))"
  have "length ?w \<le> 1 \<and> lk_tx (snd (etharp_update_arp_entry nif n a m flags s)) = lk_tx s @ ?w"
    by (auto simp: etharp_update_arp_entry_def Let_def send split: option.splits prod.splits)
  with that show ?thesis by blast
qed

text \<open>
  C12: an ARP request for an address of the host, also for that of an alias interface, is answered. The last frame that
  goes out is a unicast reply to the asker in which the requested address is bound to the hardware address of the
  physical interface; before it, at most one packet that waited for the asker's address is released. The asker's
  address is in the ARP table afterwards.
\<close>

theorem arp_request_answered:
  assumes wf: "sys_wf s" and own: "owns_addr (sys_net s) nif dst" and sip: "unicast_for sip (netifs (sys_net s) nif)"
    and len: "length es = 6" "length ed = 6" "length hs = 6" "length ht = 6"
    and p: "ps_payload sg = arp_packet es ed hs sip ht dst ARP_REQUEST @ pad"
    and l': "l' = ns_link (sys_net (ethernet_input now [sg] (Hdk 0) s))"
  shows "\<exists>inst w. if_state (netifs (sys_net s) (Hdk 0)) = Some inst \<and> length w \<le> 1 \<and>
    lk_tx l' = lk_tx (ns_link (sys_net s)) @ w @ [wire_frame inst
      (arp_packet (if_hwaddr (netifs (sys_net s) (Hdk 0))) hs (if_hwaddr (netifs (sys_net s) (Hdk 0))) dst hs sip ARP_REPLY @ pad)] \<and>
    (\<exists>i. etharp_find_addr sip l' = Some (i, hs))"
proof -
  let ?n = "netifs (sys_net s) nif" and ?l = "ns_link (sys_net s)" and ?bs = "ps_payload sg"
  note f = arp_packet_fields [OF len p]
  have o: "nif \<in> set (netif_list (sys_net s))" "filter_match dst ?n" "if_flags ?n AND NETIF_FLAG_ETHARP \<noteq> 0"
    "\<not> ip_addr_isany dst" "\<not> ip_addr_ismulticast dst" "\<not> ip4_addr_isbroadcast dst (netifs (sys_net s) (Hdk 0))"
    "\<And>n. n \<in> set (netif_list (sys_net s)) \<Longrightarrow> if_ip_addr (netifs (sys_net s) n) = dst \<Longrightarrow> n = nif"
    using own by (auto simp: owns_addr_def list_all_iff)
  have ip: "if_ip_addr ?n = dst" using o(2) by (simp add: filter_match_def)
  have net: "netif_wf (sys_net s)" "alias_wf (h_lib (sy_host s)) (sys_net s)" using wf by (simp_all add: sys_wf_def host_wf_def sys_net_def)
  obtain inst where rdy: "link_ready ?n inst" using net(1) o(1) by (auto simp: netif_wf_def netif_ready_def)
  have share: "if_hwaddr ?n = if_hwaddr (netifs (sys_net s) (Hdk 0))" "if_state ?n = if_state (netifs (sys_net s) (Hdk 0))"
    using net(2) o(1) by (cases nif; auto simp: alias_wf_def shares_driver_def)+
  have tgt: "frame_target [sg] ETHTYPE_ARP = Some dst"
    using f(9,10) by (simp add: frame_target_def pbuf_len_def SIZEOF_ETH_HDR_def SIZEOF_ETHARP_HDR_def ETHTYPE_ARP_def ETHTYPE_IP_def)
  have rx: "rx_netif [sg] (Hdk 0) ETHTYPE_ARP (sys_net s) = nif"
    by (rule rx_netif_owner [OF tgt o(1,2,6,5) Hdk0_listed [OF wf] o(7)])
  have "ETHTYPE_ARP \<noteq> ETHTYPE_IP" by (simp add: ETHTYPE_ARP_def ETHTYPE_IP_def)
  then have l1: "l' = etharp_arp_input nif ?n [sg] ?l"
    unfolding l' ethernet_input_eq Let_def list.sel f(1) rx using f(10) o(3) by (simp add: pbuf_len_def SIZEOF_ETH_HDR_def)
  let ?u = "snd (etharp_update_arp_entry nif ?n sip hs ETHARP_FLAG_TRY_HARD ?l)"
  have reply: "arp_reply_bytes dst (if_hwaddr ?n) ?bs = arp_packet (if_hwaddr ?n) hs (if_hwaddr ?n) dst hs sip ARP_REPLY @ pad"
    unfolding p using rdy by (intro arp_reply_bytes_packet len) (simp add: link_ready_def)
  have l2: "l' = ?u\<lparr>lk_tx := lk_tx ?u @ [wire_frame inst (arp_packet (if_hwaddr ?n) hs (if_hwaddr ?n) dst hs sip ARP_REPLY @ pad)]\<rparr>"
    unfolding l1 etharp_arp_input_def list.case Let_def f ip using f(10) o(4) reply linkoutput_ready [OF rdy]
    by (simp add: SIZEOF_ETHARP_PACKET_def)
  obtain w where w: "length w \<le> 1" "lk_tx ?u = lk_tx ?l @ w" by (rule update_tx [OF rdy])
  have "arp_wf ?l" using net(1) by (simp add: netif_wf_def)
  from update_try_hard_lookup [OF this sip len(3)] obtain i where "etharp_find_addr sip ?u = Some (i, hs)" by blast
  then have "etharp_find_addr sip l' = Some (i, hs)" using find_addr_cong [of l' ?u] l2 by simp
  with w l2 rdy share show ?thesis by (auto simp: link_ready_def)
qed

text \<open>The second address of the start-up state with an alias, asked for by the station 10.0.0.5.\<close>

definition who_has_seg :: pseg where
  "who_has_seg = \<lparr>ps_type = PBUF_POOL, ps_hidden = [], ps_payload =
     arp_packet [2, 0, 0, 0, 0, 5] ethbroadcast [2, 0, 0, 0, 0, 5] 0x0a000005 ethzero
       (if_ip_addr (netifs (h_net boot_two) (Alias 0))) ARP_REQUEST @ replicate 18 0\<rparr>"

theorem arp_request_answered_witness:
  "\<exists>i. etharp_find_addr 0x0a000005 (ns_link (sys_net (ethernet_input 0 [who_has_seg] (Hdk 0) (sys_of boot_two)))) =
     Some (i, [2, 0, 0, 0, 0, 5])"
proof -
  have dh: "no_dhcp (h_net boot_two)" by code_simp
  have hyps: "owns_addr (sys_net (sys_of boot_two)) (Alias 0) (if_ip_addr (netifs (h_net boot_two) (Alias 0)))"
    "unicast_for 0x0a000005 (netifs (sys_net (sys_of boot_two)) (Alias 0))"
    "length [2 :: u8, 0, 0, 0, 0, 5] = 6" "length ethbroadcast = 6" "length ethzero = 6" by code_simp+
  from arp_request_answered [OF sys_of_wf [OF boot_two_wf dh] hyps(1,2,3,4,3,5) _ refl, of who_has_seg "replicate 18 0" 0]
  show ?thesis by (auto simp: who_has_seg_def)
qed

section \<open>Damaged packets\<close>

text \<open>What \<open>ip_input\<close> requires of the header in the first buffer; \<open>bs\<close> are its bytes and \<open>tot\<close> is the length of the chain.\<close>

definition ip_header_ok :: "u8 list \<Rightarrow> nat \<Rightarrow> bool" where
  "ip_header_ok bs tot \<longleftrightarrow>
     drop_bit 4 (get8 bs 14) = 4 \<and> 14 + frame_hlen bs \<le> length bs \<and> 14 + unat (get16 bs 16) \<le> tot \<and>
     inet_chksum False (take (frame_hlen bs) (drop 14 bs)) = 0"

text \<open>
  C16: a damaged IP header is detected. A frame whose IP header is not of version 4, does not fit the buffers, or has a
  wrong checksum leaves the whole system unchanged.
\<close>

theorem damaged_header_dropped:
  assumes "34 \<le> length (ps_payload sg)" and "get16 (ps_payload sg) 12 = ETHTYPE_IP"
    and "\<not> ip_header_ok (ps_payload sg) (pbuf_tot_len (sg # rest))"
  shows "ethernet_input now (sg # rest) d s = s"
proof -
  let ?m = "lk_mem (ns_link (sys_net s))" and ?bs = "ps_payload sg"
  let ?sg = "sg\<lparr>ps_hidden := ps_hidden sg @ take 14 ?bs, ps_payload := drop 14 ?bs\<rparr>"
  have q: "pbuf_header (sg # rest) (- int SIZEOF_ETH_HDR) = Some (?sg # rest)"
    using assms(1) by (simp add: pbuf_header_def SIZEOF_ETH_HDR_def)
  have v: "hdr_view ?m IP_HLEN (?sg # rest) = take 20 (drop 14 ?bs)" using assms(1) by (simp add: hdr_view_long IP_HLEN_def)
  have f: "get8 (take 20 (drop 14 ?bs)) 0 = get8 ?bs 14" "get16 (take 20 (drop 14 ?bs)) 2 = get16 ?bs 16"
    using assms(1) by (simp_all add: get_drop_take)
  have len: "pbuf_len (?sg # rest) = length ?bs - 14" "pbuf_tot_len (?sg # rest) = pbuf_tot_len (sg # rest) - 14"
    using assms(1) by (simp_all add: pbuf_len_def pbuf_tot_len_def)
  have tot: "length ?bs \<le> pbuf_tot_len (sg # rest)" by (simp add: pbuf_tot_len_def)
  have hl: "frame_hlen ?bs \<le> 60" by (simp add: frame_hlen_def IPH_HL_le)
  then have al: "inet_chksum al (take (frame_hlen ?bs) (drop 14 ?bs)) = inet_chksum False (take (frame_hlen ?bs) (drop 14 ?bs))" for al
    by (simp add: inet_chksum_reference)
  have al': "inet_chksum (odd (length (ps_hidden (hd (?sg # rest))))) (take (frame_hlen ?bs) (ps_payload (hd (?sg # rest)))) =
      inet_chksum False (take (frame_hlen ?bs) (drop 14 ?bs))" using al by simp
  consider (version) "drop_bit 4 (get8 ?bs 14) \<noteq> 4"
    | (lengths) "drop_bit 4 (get8 ?bs 14) = 4" "frame_hlen ?bs > length ?bs - 14 \<or> unat (get16 ?bs 16) > pbuf_tot_len (sg # rest) - 14"
    | (checksum) "drop_bit 4 (get8 ?bs 14) = 4"
        "\<not> (frame_hlen ?bs > length ?bs - 14 \<or> unat (get16 ?bs 16) > pbuf_tot_len (sg # rest) - 14)"
        "inet_chksum False (take (frame_hlen ?bs) (drop 14 ?bs)) \<noteq> 0"
    using assms(1,3) tot unfolding ip_header_ok_def by linarith
  then have "ip_input now (?sg # rest) nif s = s" for nif
    unfolding ip_input_def Let_def v f ntohs_def frame_hlen_def [symmetric] len al' by cases (simp_all only: if_True if_False simp_thms)
  then show ?thesis unfolding ethernet_input_eq Let_def list.sel assms(2) using q by simp
qed

theorem damaged_header_dropped_witness:
  "ethernet_input 0 [stray_seg\<lparr>ps_payload := (ps_payload stray_seg)[22 := 63]\<rparr>] (Hdk 0) (sys_of boot_known) = sys_of boot_known"
proof -
  let ?sg = "stray_seg\<lparr>ps_payload := (ps_payload stray_seg)[22 := 63]\<rparr>"
  have "34 \<le> length (ps_payload ?sg)" "get16 (ps_payload ?sg) 12 = ETHTYPE_IP" "\<not> ip_header_ok (ps_payload ?sg) (pbuf_tot_len [?sg])"
    by code_simp+
  then show ?thesis by (rule damaged_header_dropped)
qed

text \<open>One changed byte changes the sum by less than the modulus.\<close>

lemma nsum_update:
  "i < length bs \<Longrightarrow> nsum (bs[i := b]) + (if even i then 256 else 1) * unat (bs ! i) =
   nsum bs + (if even i then 256 else 1) * unat b"
proof (induction bs arbitrary: i rule: nsum.induct)
  case (1 x y ps)
  consider "i = 0" | "i = 1" | k where "i = Suc (Suc k)" by (metis One_nat_def not0_implies_Suc)
  then show ?case
  proof cases
    case 3
    with "1.IH" [of k] "1.prems" show ?thesis by simp
  qed simp_all
qed auto

lemma byte_error_sum:
  assumes "i < length bs" and "b \<noteq> bs ! i" and "ones_sum (nsum bs) = 65535"
  shows "ones_sum (nsum (bs[i := b])) \<noteq> 65535"
proof
  assume bad: "ones_sum (nsum (bs[i := b])) = 65535"
  define w :: nat where "w = (if even i then 256 else 1)"
  have "nsum bs mod 65535 = 0" "nsum (bs[i := b]) mod 65535 = 0"
    using ones_sum_mod [of "nsum bs"] ones_sum_mod [of "nsum (bs[i := b])"] assms(3) bad by simp_all
  then have "(int (nsum (bs[i := b])) - int (nsum bs)) mod 65535 = 0"
    by (metis int_ops(1) mod_diff_eq of_nat_mod of_nat_numeral zmod_int diff_zero mod_0)
  moreover have "int (nsum (bs[i := b])) - int (nsum bs) = int w * (int (unat b) - int (unat (bs ! i)))"
    using arg_cong [OF nsum_update [OF assms(1), of b, folded w_def], of int] by (simp add: algebra_simps)
  ultimately have "65535 dvd int w * (int (unat b) - int (unat (bs ! i)))" by (simp add: mod_eq_0_iff_dvd)
  moreover have "\<bar>int w * (int (unat b) - int (unat (bs ! i)))\<bar> < 65535"
  proof -
    have "\<bar>int (unat b) - int (unat (bs ! i))\<bar> \<le> 255" using unat_u8_less [of b] unat_u8_less [of "bs ! i"] by linarith
    then show ?thesis by (auto simp: w_def abs_mult)
  qed
  moreover have "int w * (int (unat b) - int (unat (bs ! i))) \<noteq> 0"
    using assms(2) by (auto simp: w_def word_uint_eq_iff)
  ultimately show False using zdvd_imp_le [of 65535 "\<bar>int w * (int (unat b) - int (unat (bs ! i)))\<bar>"] by simp
qed

lemma byte_error_pseudo:
  assumes "inet_chksum_pseudo [(al, bs)] src dst proto len = 0" and "i < length bs" "b \<noteq> bs ! i" "length bs \<le> 65536"
    and c: "concat (map snd c) = bs[i := b]" "\<forall>(al, bs) \<in> set c. length bs \<le> 65536"
  shows "inet_chksum_pseudo c src dst proto len \<noteq> 0"
proof -
  define pre where "pre = be32 src @ be32 dst @ [0, proto] @ be16 len"
  have ref: "inet_chksum_pseudo x src dst proto len = 0 \<longleftrightarrow> ones_sum (nsum (pre @ concat (map snd x))) = 65535"
    if "\<forall>(al, bs) \<in> set x. length bs \<le> 65536" for x
  proof -
    let ?n = "ones_sum (nsum (pre @ concat (map snd x)))"
    have "inet_chksum_pseudo x src dst proto len = NOT (of_nat ?n)"
      using inet_chksum_pseudo_reference [OF that] by (simp add: pre_def)
    moreover have "unat (NOT (of_nat ?n) :: u16) = 65535 - ?n" by (rule unat_NOT_ones_sum)
    ultimately show ?thesis using ones_sum_le [of "nsum (pre @ concat (map snd x))"] by (simp add: unat_eq_zero [symmetric])
  qed
  have "ones_sum (nsum (pre @ bs)) = 65535" using ref [of "[(al, bs)]"] assms(1,4) by simp
  moreover have "(pre @ bs)[length pre + i := b] = pre @ bs[i := b]" by (simp add: list_update_append)
  ultimately have "ones_sum (nsum (pre @ bs[i := b])) \<noteq> 65535"
    using byte_error_sum [of "length pre + i" "pre @ bs" b] assms(2,3) by (simp add: nth_append)
  then show ?thesis using ref [OF c(2)] c(1) by simp
qed

lemma chksum_view_bytes: "concat (map snd (chksum_view p)) = pbuf_bytes p"
  by (simp add: chksum_view_def pbuf_bytes_def comp_def)

lemma chksum_view_small: "length (pbuf_bytes p) \<le> 65536 \<Longrightarrow> \<forall>(al, bs) \<in> set (chksum_view p). length bs \<le> 65536"
  using seg_length_le [of _ p] by (fastforce simp: chksum_view_def)

lemma udp_input_bad:
  assumes p: "p = sg # rest" "28 \<le> length (ps_payload sg)" "get8 (ps_payload sg) 0 = 0x45"
      "drop 20 (pbuf_bytes p) = dg" "length dg \<le> 65536" "get16 dg 6 \<noteq> 0"
    and bad: "\<And>c. concat (map snd c) = dg \<Longrightarrow> \<forall>(al, bs) \<in> set c. length bs \<le> 65536 \<Longrightarrow>
      inet_chksum_pseudo c src dst IP_PROTO_UDP (of_nat (length dg)) \<noteq> 0"
    and dh: "if_dhcp (netifs (sys_net s) inp) = None"
  obtains pcbs where "mset pcbs = mset (udp_pcbs (h_udp (sy_host s)))"
    "udp_input p inp src dst s = s\<lparr>sy_host := (sy_host s)\<lparr>h_udp := (h_udp (sy_host s))\<lparr>udp_pcbs := pcbs\<rparr>\<rparr>\<rparr>"
proof -
  let ?m = "lk_mem (ns_link (sys_net s))"
  let ?q = "sg\<lparr>ps_hidden := ps_hidden sg @ take 20 (ps_payload sg), ps_payload := drop 20 (ps_payload sg)\<rparr> # rest"
  have q: "pbuf_header p (- 20) = Some ?q" using p(1,2) by (simp add: pbuf_header_def)
  have qb: "pbuf_bytes ?q = dg" using p by simp
  have hl: "IPH_HL (get8 (hdr_view ?m IP_HLEN p) 0) * 4 = 20"
    using p(1-3) by (simp add: hdr_view_long IP_HLEN_def get8_def IPH_HL_def)
  have view: "hdr_view ?m UDP_HLEN ?q = take 8 dg"
    using p(2) unfolding qb [symmetric] by (simp add: hdr_view_def UDP_HLEN_def)
  have "8 \<le> length dg" using p(1,2,4) by auto
  then have k: "get16 (hdr_view ?m UDP_HLEN ?q) 6 \<noteq> 0" unfolding view using p(6) by (simp add: get16_def)
  have "inet_chksum_pseudo (chksum_view ?q) src dst IP_PROTO_UDP (of_nat (pbuf_tot_len ?q)) \<noteq> 0"
    unfolding pbuf_tot_len_bytes qb using p(5) by (intro bad chksum_view_small) (simp_all only: chksum_view_bytes qb)
  moreover have "\<not> pbuf_tot_len p < 20 + UDP_HLEN" using p(1,2) by (simp add: pbuf_tot_len_def UDP_HLEN_def)
  moreover obtain r u where d: "udp_demux (netifs (sys_net s) inp) src dst (get16 (hdr_view ?m UDP_HLEN ?q) 0)
      (get16 (hdr_view ?m UDP_HLEN ?q) 2) (h_udp (sy_host s)) = (r, u)" by (meson surj_pair)
  ultimately have r: "udp_input p inp src dst s = s\<lparr>sy_host := (sy_host s)\<lparr>h_udp := u\<rparr>\<rparr>"
    unfolding udp_input_def Let_def hl using q k by (simp add: udp_accept_def ntohs_def)
  obtain pcbs where "u = (h_udp (sy_host s))\<lparr>udp_pcbs := pcbs\<rparr>" "mset pcbs = mset (udp_pcbs (h_udp (sy_host s)))"
    using udp_demux_spec(1) [OF d dh] by blast
  with that r show ?thesis by simp
qed

text \<open>
  C14: a datagram with one wrong byte is detected, wherever the byte is: in the ports, the length, the checksum or the
  data. When one byte of a datagram that was sent with a checksum is changed to another value, the system drops the
  frame: no socket changes, nothing is sent, and only the order of the control blocks may differ. The checksum field
  must not have become zero, which means that there is no checksum.
\<close>

theorem corrupted_datagram_dropped:
  assumes wf: "sys_wf s" and p: "p = sg # rest" "42 \<le> length (ps_payload sg)" "length data \<le> 65507"
    and dg: "dg = udp_datagram src dst sport dport data" "i < length dg" "b \<noteq> dg ! i" "get16 (dg[i := b]) 6 \<noteq> 0"
    and bytes: "pbuf_bytes p = eth @ be16 ETHTYPE_IP @ hdr @ dg[i := b] @ pad" "length eth = 12"
    and hdr: "hdr = ip_hdr_bytes 0x45 tos (of_nat (20 + length (dg[i := b]))) idn off ttl IP_PROTO_UDP c src dst"
      "inet_chksum False hdr = 0" "off AND (IP_OFFMASK OR IP_MF) = 0"
    and own: "owns_addr (sys_net s) nif dst"
    and src: "\<not> ip4_addr_isbroadcast src (netifs (sys_net s) nif)" "\<not> ip_addr_ismulticast src"
  shows "\<exists>pcbs. mset pcbs = mset (udp_pcbs (h_udp (sy_host s))) \<and>
    ethernet_input now p (Hdk 0) s = s\<lparr>sy_host := (sy_host s)\<lparr>h_udp := (h_udp (sy_host s))\<lparr>udp_pcbs := pcbs\<rparr>\<rparr>\<rparr>"
proof -
  have len: "length dg = 8 + length data" using dg(1) by simp
  have k: "14 + 28 \<le> length (ps_payload sg)" "28 \<le> 20 + length (dg[i := b])" "20 + length (dg[i := b]) < 65536"
    using p(2,3) len by simp_all
  have np: "IP_PROTO_UDP \<noteq> IP_PROTO_ICMP" by (simp add: IP_PROTO_UDP_def IP_PROTO_ICMP_def)
  obtain sg' rest' where f: "28 \<le> length (ps_payload sg')" "take 20 (ps_payload sg') = hdr"
    "pbuf_bytes (sg' # rest') = hdr @ dg[i := b]"
    "ethernet_input now p (Hdk 0) s = ip_deliver IP_PROTO_UDP (sg' # rest') nif src dst s"
    by (rule frame_to_protocol [OF wf p(1) k(1) _ k(2) bytes hdr(1) hdr(2,3) k(3) np own src, where now = now]) (simp, blast)
  have "get8 (take 20 (ps_payload sg')) 0 = 0x45" unfolding f(2) hdr(1) ip_hdr_fields ..
  then have g: "get8 (ps_payload sg') 0 = 0x45" by (simp add: get8_def)
  have ok: "inet_chksum_pseudo [(False, dg)] src dst IP_PROTO_UDP (of_nat (length dg)) = 0"
    unfolding len using p(3) dg(1) len by (intro udp_datagram_verifies) simp_all
  have bad: "inet_chksum_pseudo x src dst IP_PROTO_UDP (of_nat (length (dg[i := b]))) \<noteq> 0"
    if "concat (map snd x) = dg[i := b]" "\<forall>(al, bs) \<in> set x. length bs \<le> 65536" for x
    using byte_error_pseudo [OF ok dg(2,3) _ that] p(3) len by simp
  have dr: "drop 20 (pbuf_bytes (sg' # rest')) = dg[i := b]" unfolding f(3) by (simp add: hdr(1))
  have dh: "if_dhcp (netifs (sys_net s) nif) = None" using wf own by (simp add: sys_wf_def no_dhcp_def owns_addr_def)
  have small: "length (dg[i := b]) \<le> 65536" using len p(3) by simp
  obtain pcbs where "mset pcbs = mset (udp_pcbs (h_udp (sy_host s)))"
    "udp_input (sg' # rest') nif src dst s = s\<lparr>sy_host := (sy_host s)\<lparr>h_udp := (h_udp (sy_host s))\<lparr>udp_pcbs := pcbs\<rparr>\<rparr>\<rparr>"
    by (rule udp_input_bad [OF refl f(1) g dr small dg(4) bad dh])
  then show ?thesis unfolding f(4) ip_deliver_def by auto
qed

text \<open>The datagram of the second host, with its last byte changed.\<close>

definition damaged_seg :: pseg where
  "damaged_seg = sent_seg\<lparr>ps_payload := (ps_payload sent_seg)[44 := 0xff]\<rparr>"

theorem corrupted_datagram_dropped_witness:
  "s_listeners (sy_host (ethernet_input 0 [damaged_seg] (Hdk 0) (sys_of peer_host))) = s_listeners peer_host"
proof -
  let ?hdr = "ip_hdr_bytes 0x45 0 31 (ip_id (h_net boot_known)) 0 255 IP_PROTO_UDP 42943 0x0a00000a 0x0a000005"
  have dh: "no_dhcp (h_net peer_host)" by code_simp
  have hyps: "42 \<le> length (ps_payload damaged_seg)"
    "10 < length (udp_datagram 0x0a00000a 0x0a000005 5000 7 [1, 2, 3])"
    "0xff \<noteq> udp_datagram 0x0a00000a 0x0a000005 5000 7 [1, 2, 3] ! 10"
    "get16 ((udp_datagram 0x0a00000a 0x0a000005 5000 7 [1, 2, 3])[10 := 0xff]) 6 \<noteq> 0"
    "pbuf_bytes [damaged_seg] = take 12 (ps_payload sent_seg) @ be16 ETHTYPE_IP @ ?hdr @
      (udp_datagram 0x0a00000a 0x0a000005 5000 7 [1, 2, 3])[10 := 0xff] @ replicate 15 0"
    "length (take 12 (ps_payload sent_seg)) = 12"
    "inet_chksum False ?hdr = 0"
    "owns_addr (sys_net (sys_of peer_host)) (Hdk 0) 0x0a000005"
    "\<not> ip4_addr_isbroadcast 0x0a00000a (netifs (sys_net (sys_of peer_host)) (Hdk 0))" "\<not> ip_addr_ismulticast 0x0a00000a"
    by code_simp+
  have more: "length [1 :: u8, 2, 3] \<le> 65507" "0 AND (IP_OFFMASK OR IP_MF) = 0"
    "?hdr = ip_hdr_bytes 0x45 0 (of_nat (20 + length ((udp_datagram 0x0a00000a 0x0a000005 5000 7 [1, 2, 3])[10 := 0xff])))
      (ip_id (h_net boot_known)) 0 255 IP_PROTO_UDP 42943 0x0a00000a 0x0a000005" by simp_all
  from corrupted_datagram_dropped [OF sys_of_wf [OF peer_host_wf dh] refl hyps(1) more(1) refl hyps(2-6) more(3) hyps(7) more(2) hyps(8-), of 0]
  show ?thesis by (auto simp: sys_of_def)
qed

section \<open>TCP segments\<close>

lemma tcp_input_reset:
  assumes p: "p = sg # rest" "40 + length opts \<le> length (ps_payload sg)" "get8 (ps_payload sg) 0 = 0x45"
    and seg: "drop 20 (pbuf_bytes p) = seg" "seg = tcp_hdr_bytes sport dport seqno ackno hf wnd k urg @ opts @ data"
      "TCPH_HDRLEN hf * 4 = 20 + length opts" "length seg \<le> 65515"
    and chk: "inet_chksum_pseudo [(False, seg)] src dst IP_PROTO_TCP (of_nat (length seg)) = 0"
    and dst: "\<not> ip4_addr_isbroadcast dst (netifs net inp)" "\<not> ip_addr_ismulticast dst"
  shows "tcp_input p inp src dst net =
    (if TCPH_FLAGS hf AND TCP_RST = 0 then tcp_rst ackno (seqno + seg_len hf data) dst src dport sport net else net)"
proof -
  let ?m = "lk_mem (ns_link net)"
  let ?q = "sg\<lparr>ps_hidden := ps_hidden sg @ take 20 (ps_payload sg), ps_payload := drop 20 (ps_payload sg)\<rparr> # rest"
  have q: "pbuf_header p (- 20) = Some ?q" using p(1,2) by (simp add: pbuf_header_def)
  have qb: "pbuf_bytes ?q = seg" using p(1,2) seg(1) by simp
  have hl: "IPH_HL (get8 (hdr_view ?m IP_HLEN p) 0) * 4 = 20"
    using p by (simp add: hdr_view_long IP_HLEN_def get8_def IPH_HL_def)
  have tot: "\<not> pbuf_tot_len ?q < TCP_HLEN" "pbuf_tot_len ?q = length seg"
    unfolding pbuf_tot_len_bytes qb using seg(2) by (simp_all add: TCP_HLEN_def)
  have "inet_chksum_pseudo (chksum_view ?q) src dst IP_PROTO_TCP (of_nat (length seg)) =
      inet_chksum_pseudo [(False, seg)] src dst IP_PROTO_TCP (of_nat (length seg))"
    using seg(4) chksum_view_small [of ?q] unfolding qb
    by (subst (1 2) inet_chksum_pseudo_reference) (simp_all only: chksum_view_bytes qb, simp_all)
  then have sum: "\<not> inet_chksum_pseudo (chksum_view ?q) src dst IP_PROTO_TCP (of_nat (pbuf_tot_len ?q)) \<noteq> 0"
    using chk tot(2) by simp
  have view: "hdr_view ?m TCP_HLEN ?q = tcp_hdr_bytes sport dport seqno ackno hf wnd k urg @ []"
  proof -
    have "take 20 (pbuf_bytes ?q) = take 20 (drop 20 (ps_payload sg))" using p(2) by simp
    then show ?thesis unfolding qb using p(2) seg(2) by (simp add: hdr_view_def TCP_HLEN_def)
  qed
  have "nat (- (- int (20 + length opts))) = 20 + length opts" by (simp only: minus_minus nat_int)
  moreover have "20 + length opts \<le> length (ps_payload sg) - 20" using p(2) by arith
  ultimately obtain d where d: "pbuf_header ?q (- int (20 + length opts)) = Some d"
    by (simp add: pbuf_header_def Let_def del: minus_minus of_nat_add)
  have "pbuf_bytes d = data" using pbuf_header_bytes_hide [OF d] unfolding qb using seg(2) by simp
  then have dl: "pbuf_tot_len d = length data" by (simp add: pbuf_tot_len_bytes)
  have "length data < 65535" using seg(2,4) by simp
  note len = seg_len_word [OF this, of "TCPH_FLAGS hf AND (TCP_FIN OR TCP_SYN) \<noteq> 0"]
  have "tcp_input p inp src dst net =
    (let flags = TCPH_FLAGS hf; tcplen = of_nat (length data) + (if flags AND (TCP_FIN OR TCP_SYN) \<noteq> 0 then 1 else 0) :: u16
     in if flags AND TCP_RST = 0 then tcp_rst ackno (seqno + ucast tcplen) dst src dport sport net else net)"
    unfolding tcp_input_def tcp_no_match_def hl Let_def of_nat_numeral q option.case if_not_P [OF tot(1)] if_not_P [OF sum] view tcp_hdr_fields seg(3) d
      byteorder_simps dl using dst by simp
  then show ?thesis unfolding Let_def len seg_len_def .
qed

lemma set_net_same [simp]: "set_net (sys_net s) s = s"
  by (simp add: set_net_def sys_net_def)

text \<open>
  C30: a TCP segment for an address of the host is answered by exactly one reset, because no part of the program opens a
  connection. For every undamaged segment, with any options and data and however it is spread over buffers (the headers in
  the first), the one frame that is sent is the reset that acknowledges the whole segment, SYN and FIN included, from the
  address and port it was sent to, back to the sender through the interface that the route gives, with a correct
  checksum; nothing but the network state changes. A segment that is itself a reset is dropped without a trace, so that two
  such hosts do not answer each other for ever.
\<close>

theorem tcp_segment_reset:
  assumes wf: "sys_wf s" and p: "p = sg # rest" "54 + length opts \<le> length (ps_payload sg)"
    and seg: "seg = tcp_hdr_bytes sport dport seqno ackno hf wnd k urg @ opts @ data" "TCPH_HDRLEN hf * 4 = 20 + length opts"
      "length seg \<le> 65515"
    and chk: "inet_chksum_pseudo [(False, seg)] src dst IP_PROTO_TCP (of_nat (length seg)) = 0"
    and bytes: "pbuf_bytes p = eth @ be16 ETHTYPE_IP @ hdr @ seg @ pad" "length eth = 12"
    and hdr: "hdr = ip_hdr_bytes 0x45 tos (of_nat (20 + length seg)) idn off ttl IP_PROTO_TCP c src dst"
      "inet_chksum False hdr = 0" "off AND (IP_OFFMASK OR IP_MF) = 0"
    and own: "owns_addr (sys_net s) nif dst"
    and src: "\<not> ip4_addr_isbroadcast src (netifs (sys_net s) nif)" "\<not> ip_addr_ismulticast src"
    and route: "ip_route src (sys_net s) = Some out" "known_host (sys_net s) out src"
    and res: "ms_alloc (lk_mem (ns_link (sys_net s))) = []"
    and recv: "s' = ethernet_input now p (Hdk 0) s"
  defines "answer \<equiv> rst_segment ackno (seqno + seg_len hf data) dst src dport sport"
  shows "if TCPH_FLAGS hf AND TCP_RST \<noteq> 0 then s' = s
    else \<exists>net inst mac. s' = set_net net s \<and> if_state (netifs (sys_net s) out) = Some inst \<and>
      lk_tx (ns_link net) = lk_tx (ns_link (sys_net s)) @ [wire_frame inst (ip_frame (netifs (sys_net s) out) mac
        (ip_packet (netifs (sys_net s) out) dst src TCP_TTL 0 IP_PROTO_TCP (ip_id (sys_net s)) answer))] \<and>
      inet_chksum_pseudo [(False, answer)] dst src IP_PROTO_TCP (of_nat (length answer)) = 0"
proof -
  have np: "IP_PROTO_TCP \<noteq> IP_PROTO_ICMP" by (simp add: IP_PROTO_TCP_def IP_PROTO_ICMP_def)
  have k: "14 + (40 + length opts) \<le> length (ps_payload sg)" "20 \<le> 40 + length opts" "40 + length opts \<le> 20 + length seg"
    "20 + length seg < 65536" using p(2) seg by simp_all
  obtain sg' rest' where f: "40 + length opts \<le> length (ps_payload sg')" "take 20 (ps_payload sg') = hdr"
    "pbuf_bytes (sg' # rest') = hdr @ seg" "s' = ip_deliver IP_PROTO_TCP (sg' # rest') nif src dst s"
    unfolding recv
    by (rule frame_to_protocol [OF wf p(1) k(1-3) bytes hdr(1) hdr(2,3) k(4) np own src, where now = now]) blast
  have "get8 (take 20 (ps_payload sg')) 0 = 0x45" unfolding f(2) hdr(1) ip_hdr_fields ..
  then have g: "get8 (ps_payload sg') 0 = 0x45" by (simp add: get8_def)
  have o: "\<not> ip4_addr_isbroadcast dst (netifs (sys_net s) nif)" "\<not> ip_addr_ismulticast dst"
    using own by (simp_all add: owns_addr_def)
  have dr: "drop 20 (pbuf_bytes (sg' # rest')) = seg" unfolding f(3) by (simp add: hdr(1))
  have "tcp_input (sg' # rest') nif src dst (sys_net s) =
      (if TCPH_FLAGS hf AND TCP_RST = 0 then tcp_rst ackno (seqno + seg_len hf data) dst src dport sport (sys_net s) else sys_net s)"
    by (rule tcp_input_reset [OF refl f(1) g dr seg chk o])
  then have s': "s' = (if TCPH_FLAGS hf AND TCP_RST = 0
      then set_net (tcp_rst ackno (seqno + seg_len hf data) dst src dport sport (sys_net s)) s else s)"
    unfolding f(4) by (simp add: ip_deliver_def IP_PROTO_TCP_def IP_PROTO_UDP_def)
  have nw: "netif_wf (sys_net s)" using wf by (simp add: sys_wf_def sys_net_def host_wf_def)
  obtain h i mac where kn: "\<not> ip4_addr_isbroadcast src (netifs (sys_net s) out)" "next_hop (netifs (sys_net s) out) src = Some h"
    "etharp_find_addr h (ns_link (sys_net s)) = Some (i, mac)"
    "ae_ctime (arp_table (ns_link (sys_net s)) ! i) < ARP_AGE_REREQUEST_USED"
    using known_hostE [OF route(2)] by metis
  obtain inst where "if_state (netifs (sys_net s) out) = Some inst"
    "lk_tx (ns_link (tcp_rst ackno (seqno + seg_len hf data) dst src dport sport (sys_net s))) = lk_tx (ns_link (sys_net s)) @
      [wire_frame inst (ip_frame (netifs (sys_net s) out) mac
        (ip_packet (netifs (sys_net s) out) dst src TCP_TTL 0 IP_PROTO_TCP (ip_id (sys_net s)) answer))]"
    using tcp_rst_sent [OF nw route(1) kn(1) src(2) kn(2-4) res] unfolding answer_def by blast
  then show ?thesis
    using s' rst_segment_verifies [of ackno "seqno + seg_len hf data" dst src dport sport] by (auto simp: answer_def)
qed

text \<open>A connection request with an option for port 80, in a frame from 10.0.0.5.\<close>

definition syn_segment :: "u8 list" where
  "syn_segment = tcp_hdr_bytes 1234 80 0x1000 0 0x6002 8192 20214 0 @ [2, 4, 5, 180] @ []"

definition syn_hdr :: "u8 list" where
  "syn_hdr = ip_hdr_bytes 0x45 0 (of_nat (20 + length syn_segment)) 7 0 64 IP_PROTO_TCP 26295 0x0a000005 0x0a00000a"

definition syn_seg :: pseg where
  "syn_seg = \<lparr>ps_type = PBUF_POOL, ps_hidden = [],
     ps_payload = replicate 12 2 @ be16 ETHTYPE_IP @ syn_hdr @ syn_segment @ [0, 0]\<rparr>"

theorem tcp_segment_reset_witness:
  "\<exists>inst mac. lk_tx (ns_link (sys_net (ethernet_input 0 [syn_seg] (Hdk 0) (sys_of boot_known)))) = lk_tx (ns_link (h_net boot_known)) @
     [wire_frame inst (ip_frame (netifs (h_net boot_known) (Hdk 0)) mac
        (ip_packet (netifs (h_net boot_known) (Hdk 0)) 0x0a00000a 0x0a000005 TCP_TTL 0 IP_PROTO_TCP (ip_id (h_net boot_known))
          (rst_segment 0 0x1001 0x0a00000a 0x0a000005 80 1234)))]"
proof -
  have dh: "no_dhcp (h_net boot_known)" by code_simp
  have hyps: "54 + length [2 :: u8, 4, 5, 180] \<le> length (ps_payload syn_seg)" "TCPH_HDRLEN 0x6002 * 4 = 20 + length [2 :: u8, 4, 5, 180]"
    "inet_chksum_pseudo [(False, syn_segment)] 0x0a000005 0x0a00000a IP_PROTO_TCP (of_nat (length syn_segment)) = 0"
    "inet_chksum False syn_hdr = 0" "owns_addr (sys_net (sys_of boot_known)) (Hdk 0) 0x0a00000a"
    "\<not> ip4_addr_isbroadcast 0x0a000005 (netifs (sys_net (sys_of boot_known)) (Hdk 0))" "\<not> ip_addr_ismulticast 0x0a000005"
    "ip_route 0x0a000005 (sys_net (sys_of boot_known)) = Some (Hdk 0)" "known_host (sys_net (sys_of boot_known)) (Hdk 0) 0x0a000005"
    "ms_alloc (lk_mem (ns_link (sys_net (sys_of boot_known)))) = []"
    "TCPH_FLAGS 0x6002 AND TCP_RST = 0" "0x1000 + seg_len 0x6002 [] = 0x1001"
    by code_simp+
  have more: "length syn_segment \<le> 65515" "pbuf_bytes [syn_seg] = replicate 12 2 @ be16 ETHTYPE_IP @ syn_hdr @ syn_segment @ [0, 0]"
    "length (replicate 12 (2 :: u8)) = 12" "0 AND (IP_OFFMASK OR IP_MF) = 0"
    by (simp_all add: syn_segment_def syn_seg_def pbuf_bytes_def)
  from tcp_segment_reset [OF sys_of_wf [OF boot_known_wf dh] refl hyps(1) syn_segment_def hyps(2) more(1) hyps(3) more(2,3) syn_hdr_def
    hyps(4) more(4) hyps(5-10) refl, of 0] hyps(11,12)
  obtain net inst mac where "ethernet_input 0 [syn_seg] (Hdk 0) (sys_of boot_known) = set_net net (sys_of boot_known)"
    "lk_tx (ns_link net) = lk_tx (ns_link (h_net boot_known)) @
     [wire_frame inst (ip_frame (netifs (h_net boot_known) (Hdk 0)) mac
        (ip_packet (netifs (h_net boot_known) (Hdk 0)) 0x0a00000a 0x0a000005 TCP_TTL 0 IP_PROTO_TCP (ip_id (h_net boot_known))
          (rst_segment 0 0x1001 0x0a00000a 0x0a000005 80 1234)))]" by (auto simp: sys_of_def sys_net_def)
  then show ?thesis by auto
qed

end
