(* ===== verification/System_Invariant.thy ===== *)
theory System_Invariant
  imports Rx_Path
begin

text \<open>
  The invariant of the whole system under the operations that the main loop performs: the interface manager, the socket
  registry, changes of addresses, the ping client and the scan, each with the frames that the receive interrupt
  delivers meanwhile.
\<close>

section \<open>Access to the parts of the system\<close>

text \<open>The frames that the receive interrupt delivers, in order, each with the counter value at its arrival.\<close>

definition receive :: "(u32 \<times> pbuf) list \<Rightarrow> sys_st \<Rightarrow> sys_st" where
  "receive frames s = foldl (\<lambda>s (now, p). ethernet_input now p (Hdk 0) s) s frames"

definition upd_net :: "(net_st \<Rightarrow> net_st) \<Rightarrow> sys_st \<Rightarrow> sys_st" where
  "upd_net f s = set_net (f (sys_net s)) s"

lemma sys_net_upd [simp]: "sys_net (upd_net f s) = f (sys_net s)"
  by (simp add: upd_net_def)

lemma sys_wf_host:
  "sys_wf s \<Longrightarrow> host_wf h \<Longrightarrow> no_dhcp (h_net h) \<Longrightarrow> sys_wf (s\<lparr>sy_host := h\<rparr>)"
  by (simp add: sys_wf_def sys_net_def)

lemma sys_wfD: "sys_wf s \<Longrightarrow> host_wf (sy_host s)" "sys_wf s \<Longrightarrow> no_dhcp (h_net (sy_host s))" "sys_wf s \<Longrightarrow> ping_wf (sy_ping s)"
  by (simp_all add: sys_wf_def sys_net_def)

lemma sys_wf_net: "sys_wf s \<Longrightarrow> netif_wf (sys_net s)"
  by (simp add: sys_wf_def host_wf_def sys_net_def)

lemma Hdk0_in: "sys_wf s \<Longrightarrow> Hdk 0 \<in> set (netif_list (sys_net s))"
  by (simp add: sys_wf_def host_wf_def alias_wf_def sys_net_def)

lemma receive_wf [wf_intros]: "sys_wf s \<Longrightarrow> sys_wf (receive frames s)"
proof (induction frames arbitrary: s)
  case (Cons f frames)
  obtain now p where f: "f = (now, p)" by (cases f)
  have "sys_wf (ethernet_input now p (Hdk 0) s)" using Cons.prems Hdk0_in by (intro ethernet_input_wf)
  from Cons.IH [OF this] show ?case by (simp add: receive_def f)
qed (simp add: receive_def)

section \<open>Interfaces\<close>

lemma alias_add_dhcp:
  assumes "lwIPAliasAdd i a m g lib net = (r, lib', net')" and "no_dhcp net"
  shows "no_dhcp net'"
proof -
  have up: "if_dhcp (netifs (netif_set_up x st) y) = if_dhcp (netifs st y)"
    "netif_list (netif_set_up x st) = netif_list st" for x y st
    by (simp_all add: netif_set_up_def Let_def frame_simps)
  have add: "if_dhcp (netifs (snd (netif_add (Alias k) a m g None (hdkif_alias_init src) net)) y) =
      (if y = Alias k then None else if_dhcp (netifs net y))"
    "set (netif_list (snd (netif_add (Alias k) a m g None (hdkif_alias_init src) net))) \<subseteq> insert (Alias k) (set (netif_list net))"
    for k src y
    by (auto simp: netif_add_def Let_def frame_simps netif_reset_def hdkif_alias_init_def split: option.splits prod.splits)
  have "no_dhcp (netif_set_up x (snd (netif_add (Alias k) a m g None (hdkif_alias_init src) net)))"
    "no_dhcp (snd (netif_add (Alias k) a m g None (hdkif_alias_init src) net))" for x k src
    using assms(2) add(2) [of k src] by (auto simp: no_dhcp_def up add(1))
  then show ?thesis using assms
    by (auto simp: lwIPAliasAdd_def Let_def split: if_splits option.splits prod.splits) (metis snd_conv)+
qed

lemma net_if_add_dhcp:
  "no_dhcp (h_net h) \<Longrightarrow> no_dhcp (h_net (snd (net_if_add a m g h)))"
  by (auto simp: net_if_add_def Let_def dest: alias_add_dhcp split: option.splits prod.splits)

lemma netif_remove_dhcp:
  assumes "netif_wf net" and "no_dhcp net"
  shows "no_dhcp (netif_remove nif net)"
proof -
  have "if_dhcp (netifs (netif_set_down x st) y) = if_dhcp (netifs st y)" for x y st
    by (simp add: netif_set_down_def Let_def)
  then have "if_dhcp (netifs (netif_remove nif net) y) = if_dhcp (netifs net y)" for y
    by (simp add: netif_remove_def netif_set_default_def Let_def)
  then show ?thesis using assms netif_remove_list [OF assms(1), of nif] by (simp add: no_dhcp_def)
qed

lemma net_if_remove_dhcp:
  assumes "host_wf h" and "no_dhcp (h_net h)"
  shows "no_dhcp (h_net (snd (net_if_remove nif h)))"
proof -
  have ok: "reg_ok h" "netif_wf (h_net h)" using assms(1) by (simp_all add: host_wf_def)
  have "no_dhcp (snd (lwIPAliasRemove p lib (h_net h)))" for p lib
    using netif_remove_dhcp [OF ok(2) assms(2)] assms(2)
    by (auto simp: lwIPAliasRemove_def Let_def split: option.splits netif_ptr.splits)
  then show ?thesis using assms(2) ok(1)
    by (auto simp: net_if_remove_def Let_def remove_all_frame split: option.splits prod.splits) (metis snd_conv)
qed

lemma net_if_add_sys_wf [wf_intros]: "sys_wf s \<Longrightarrow> sys_wf (s\<lparr>sy_host := snd (net_if_add a m g (sy_host s))\<rparr>)"
  by (intro sys_wf_host net_if_add_wf net_if_add_dhcp sys_wfD)

lemma net_if_remove_sys_wf [wf_intros]: "sys_wf s \<Longrightarrow> sys_wf (s\<lparr>sy_host := snd (net_if_remove nif (sy_host s))\<rparr>)"
  by (intro sys_wf_host net_if_remove_wf net_if_remove_dhcp sys_wfD)

text \<open>A change of one interface that keeps its driver.\<close>

lemma set_netif_sys_wf:
  assumes "sys_wf s" and "netif_wf net" and "netif_list net = netif_list (sys_net s)"
    and "\<forall>p. shares_driver (netifs net p) (netifs (sys_net s) p) \<and> if_dhcp (netifs net p) = if_dhcp (netifs (sys_net s) p)"
  shows "sys_wf (set_net net s)"
proof -
  let ?h = "sy_host s"
  have "alias_wf (h_lib ?h) net"
    using assms(1,3,4) by (simp add: sys_wf_def host_wf_def alias_wf_def shares_driver_def sys_net_def)
  then have "host_wf (?h\<lparr>h_lib := h_lib ?h, h_net := net\<rparr>)"
    using assms slot_netif_listed [of ?h] by (intro host_wf_cong_lib) (simp_all add: sys_wfD sys_net_def)
  moreover have "no_dhcp net" using assms by (simp add: sys_wf_def no_dhcp_def)
  ultimately show ?thesis using assms(1) by (simp add: sys_wf_def)
qed

lemma set_addr_sys_wf [wf_intros]:
  assumes "sys_wf s"
  shows "sys_wf (upd_net (netif_set_ipaddr n a) s)" "sys_wf (upd_net (netif_set_netmask n a) s)"
    "sys_wf (upd_net (netif_set_gw n a) s)"
  unfolding upd_net_def using assms sys_wf_net [OF assms]
  by (intro set_netif_sys_wf wf_intros; auto simp: netif_set_ipaddr_def netif_set_netmask_def netif_set_gw_def
      Let_def shares_driver_def)+

section \<open>Sockets\<close>

lemma add_listener_net: "h_net (snd (snd (udp_source_add_listener nif port h))) = h_net h"
  by (auto simp: udp_source_add_listener_def upd_slot_def Let_def split: option.splits prod.splits if_splits)

lemma add_listener_sys_wf [wf_intros]:
  assumes "sys_wf s" and "nif \<in> set (netif_list (sys_net s))"
  shows "sys_wf (s\<lparr>sy_host := snd (snd (udp_source_add_listener (Some nif) port (sy_host s)))\<rparr>)"
  using assms by (intro sys_wf_host add_listener_wf) (simp_all add: add_listener_net sys_wfD sys_net_def)

lemma remove_listener_sys_wf [wf_intros]:
  assumes "sys_wf s"
  shows "sys_wf (s\<lparr>sy_host := udp_source_remove_listener sid (sy_host s)\<rparr>)"
  using assms by (intro sys_wf_host remove_listener_wf)
    (auto simp: sys_wfD udp_source_remove_listener_def frame_simps split: option.splits)

lemma ip_changed_sys_wf [wf_intros]:
  "sys_wf s \<Longrightarrow> sys_wf (s\<lparr>sy_host := udp_source_netif_ip_changed nif (sy_host s)\<rparr>)"
  by (intro sys_wf_host netif_ip_changed_wf) (simp_all add: sys_wfD frame_simps)

lemma poll_rx_sys_wf [wf_intros]:
  "sys_wf s \<Longrightarrow> sys_wf (s\<lparr>sy_host := snd (udp_source_poll_rx sid (sy_host s))\<rparr>)"
  by (intro sys_wf_host poll_rx_wf)
    (auto simp: sys_wfD udp_source_poll_rx_def upd_slot_def Let_def split: option.splits)

lemma data_send_net:
  assumes "host_wf h"
  shows "netifs (h_net (snd (udp_source_data_send sid (Some nif) dst dport data h))) = netifs (h_net h) \<and>
    netif_list (h_net (snd (udp_source_data_send sid (Some nif) dst dport data h))) = netif_list (h_net h)"
proof (cases "data = [] \<or> resolve sid (s_listeners h) = None")
  case True
  then show ?thesis by (auto simp: udp_source_data_send_def split: option.splits)
next
  case False
  then obtain i where d: "data \<noteq> []" and i: "resolve sid (s_listeners h) = Some i" by auto
  show ?thesis
    using assms d i by (cases rule: data_send_cases [of h data sid i nif dst dport]) (simp_all add: frame_simps)
qed

lemma data_send_sys_wf [wf_intros]:
  assumes "sys_wf s" and "nif \<in> set (netif_list (sys_net s))"
  shows "sys_wf (s\<lparr>sy_host := snd (udp_source_data_send sid (Some nif) dst dport data (sy_host s))\<rparr>)"
  using assms data_send_net [of "sy_host s"]
  by (intro sys_wf_host data_send_wf) (simp_all add: sys_wf_def sys_net_def no_dhcp_def)

section \<open>Ping and scan\<close>

lemma ping_pcb_setup_wf: "ping_wf ps \<Longrightarrow> ping_pcb_setup ps = (b, ps') \<Longrightarrow> ping_wf ps'"
  by (auto simp: ping_wf_def ping_pcb_setup_def raw_new_def raw_recv_def raw_pcb_zero_def RAW_TTL_def
      split: option.splits list.splits)

lemma ping_flags_wf [simp]:
  "ping_wf (ps\<lparr>s_seq := x\<rparr>) = ping_wf ps" "ping_wf (ps\<lparr>s_reply_valid := b\<rparr>) = ping_wf ps"
  "ping_wf (ps\<lparr>s_send_tick := y\<rparr>) = ping_wf ps" "ping_wf (ps\<lparr>s_waiting := b\<rparr>) = ping_wf ps"
  by (simp_all add: ping_wf_def)

lemma ping_send_sys_wf [wf_intros]:
  assumes "sys_wf s" and "nif \<in> set (netif_list (sys_net s))"
    and "ping_send (Some nif) (Some dst) frc (sys_net s) (sy_ping s) = (e, net, ps)"
  shows "sys_wf (set_net net (s\<lparr>sy_ping := ps\<rparr>))"
proof -
  obtain b ps1 where p: "ping_pcb_setup (sy_ping s) = (b, ps1)" by (meson surj_pair)
  have ps1: "ping_wf ps1" using ping_pcb_setup_wf [OF sys_wfD(3) [OF assms(1)] p] .
  obtain q l where a: "link_alloc PBUF_IP (SIZEOF_ICMP_ECHO_HDR + PING_DATA_SIZE) PBUF_RAM (ns_link (sys_net s)) = (q, l)"
    by (meson surj_pair)
  let ?net = "(sys_net s)\<lparr>ns_link := l\<rparr>"
  have net1: "netif_wf ?net" using link_alloc_netif_wf [OF sys_wf_net [OF assms(1)], of PBUF_IP] a by (metis snd_conv)
  have out: "netif_wf n \<and> netifs n = netifs (sys_net s) \<and> netif_list n = netif_list (sys_net s)"
    if "ip_output_if x src dst ICMP_TTL 0 IP_PROTO_ICMP nif ?net = (d, n)" for x src d n
    using ip_output_if_wf [OF net1, of nif x src dst ICMP_TTL 0 IP_PROTO_ICMP] ip_output_if_frame [of x src dst ICMP_TTL 0 IP_PROTO_ICMP nif ?net] assms(2) that
    by simp
  have "netif_wf net \<and> netifs net = netifs (sys_net s) \<and> netif_list net = netif_list (sys_net s) \<and> ping_wf ps"
    using assms(3) p a ps1 net1 out sys_wf_net [OF assms(1)]
    by (auto simp: ping_send_def Let_def frame_simps split: bool.splits option.splits prod.splits dest!: out)
  moreover from this have "sys_wf (s\<lparr>sy_ping := ps\<rparr>)" using assms(1) by (simp add: sys_wf_def sys_net_def)
  ultimately show ?thesis using assms(1) by (intro set_net_wf) (simp_all add: sys_net_def)
qed

lemma wait_loop_sys_wf:
  assumes "sys_wf s" and "wait_loop sy_ping sy_ping_update fuel clock isr start ticks k s = Some (b, r, s')"
    and "\<And>k s. sys_wf s \<Longrightarrow> sys_wf (isr k s)"
  shows "sys_wf s'"
  using assms(1,2)
proof (induction fuel arbitrary: k s)
  case (Suc fuel)
  let ?s = "isr (2 * k + 1) (isr (2 * k) s)"
  have "sys_wf ?s" using Suc.prems(1) assms(3) by blast
  moreover from this have "sys_wf (sy_ping_update (s_reply_valid_update (\<lambda>_. False)) ?s)"
    "sys_wf (sy_ping_update (s_waiting_update (\<lambda>_. False)) ?s)"
    by (simp_all add: sys_wf_def sys_net_def)
  ultimately show ?case using Suc.IH [of ?s "k + 1"] Suc.prems(2) by (auto simp: Let_def split: if_splits)
qed simp

lemma wait_sys_wf [wf_intros]:
  "sys_wf s \<Longrightarrow> ping_wait_reply sy_ping sy_ping_update fuel clock (\<lambda>k. receive (frames k)) start t s = Some (b, r, s') \<Longrightarrow>
   sys_wf s'"
  unfolding ping_wait_reply_def by (erule wait_loop_sys_wf, assumption) (rule receive_wf)

lemma query_sys_wf:
  assumes "sys_wf s" and "nif \<in> set (netif_list (sys_net s))"
  shows "sys_wf (upd_net (\<lambda>net. snd (net_link (etharp_query (netifs net nif) target None) net)) s)"
proof -
  let ?net = "snd (net_link (etharp_query (netifs (sys_net s) nif) target None) (sys_net s))"
  have n: "netif_wf (sys_net s)" using sys_wf_net [OF assms(1)] .
  then have rdy: "netif_ready (netifs (sys_net s) nif)" using assms(2) by (simp add: netif_wf_def)
  have "netif_wf ?net"
    using n etharp_query_wf [of "ns_link (sys_net s)"] query_fault [OF rdy] by (simp add: netif_wf_def frame_simps)
  then show ?thesis unfolding upd_net_def by (intro set_net_wf assms) (simp_all add: frame_simps)
qed

lemma cleanup_sys_wf:
  assumes "sys_wf s"
  shows "sys_wf (upd_net (\<lambda>net. net\<lparr>ns_link := etharp_cleanup_netif nif (ns_link net)\<rparr>) s)"
proof -
  have "netif_wf ((sys_net s)\<lparr>ns_link := etharp_cleanup_netif nif (ns_link (sys_net s))\<rparr>)"
    using sys_wf_net [OF assms] etharp_cleanup_netif_wf by (simp add: netif_wf_def etharp_cleanup_netif_def)
  then show ?thesis unfolding upd_net_def by (intro set_net_wf assms) simp_all
qed

text \<open>Received frames do not change the interfaces.\<close>

definition same_netifs :: "sys_st \<Rightarrow> sys_st \<Rightarrow> bool" where
  "same_netifs s t \<longleftrightarrow> netifs (sys_net t) = netifs (sys_net s) \<and> netif_list (sys_net t) = netif_list (sys_net s)"

lemma same_netifs_refl [simp]: "same_netifs s s"
  by (simp add: same_netifs_def)

lemma same_netifs_trans: "same_netifs s t \<Longrightarrow> same_netifs t u \<Longrightarrow> same_netifs s u"
  by (simp add: same_netifs_def)

lemma same_netifs_set_net [simp]:
  "same_netifs s (set_net net s) \<longleftrightarrow> netifs net = netifs (sys_net s) \<and> netif_list net = netif_list (sys_net s)"
  by (simp add: same_netifs_def)

lemma sendto_net:
  "netifs (st_net (snd (udp_sendto pcb p dst port st))) = netifs (st_net st) \<and>
   netif_list (st_net (snd (udp_sendto pcb p dst port st))) = netif_list (st_net st)"
proof -
  have b: "netifs net = netifs (st_net st) \<and> netif_list net = netif_list (st_net st)"
    if "udp_send_bound c p dst port nif (st_net st) = (e, net)" for c nif e net
    using udp_send_bound_frame [of c p dst port nif "st_net st"] that by simp
  then show ?thesis
    by (auto simp: udp_sendto_def udp_sendto_if_def Let_def split: option.splits prod.splits if_splits dest: b)
qed

lemma LocatorReceive_same: "same_netifs s (LocatorReceive pcb p a port s)"
proof -
  obtain q l where a: "link_alloc PBUF_TRANSPORT 84 PBUF_RAM (ns_link (sys_net s)) = (q, l)" by (meson surj_pair)
  let ?d = "locator_sum (sy_locator s)" and ?st = "\<lparr>st_net = (sys_net s)\<lparr>ns_link := l\<rparr>, st_udp = h_udp (sy_host s)\<rparr>"
  show ?thesis
  proof (cases q)
    case None
    then show ?thesis using a by (simp add: LocatorReceive_def)
  next
    case (Some r)
    obtain e st where "udp_sendto pcb (pbuf_put 0 ?d r) a port ?st = (e, st)" by (meson surj_pair)
    with a Some sendto_net [of pcb "pbuf_put 0 ?d r" a port ?st] show ?thesis
      by (simp add: LocatorReceive_def Let_def same_netifs_def sys_net_def)
  qed
qed

lemma udp_deliver_same: "same_netifs s (udp_deliver pcb p a port s)"
  using LocatorReceive_same
  by (auto simp: udp_deliver_def udp_rx_callback_def same_netifs_def sys_net_def upd_slot_def split: udp_recv_fn.splits)

lemma udp_input_same: "same_netifs s (udp_input p inp src dst s)"
proof -
  have "same_netifs s (udp_accept q h n src dst hdr pcb (s\<lparr>sy_host := (sy_host s)\<lparr>h_udp := u\<rparr>\<rparr>))" for q h n hdr pcb u
  proof -
    let ?t = "s\<lparr>sy_host := (sy_host s)\<lparr>h_udp := u\<rparr>\<rparr>"
    have "same_netifs ?t (udp_accept q h n src dst hdr pcb ?t)"
      using udp_deliver_same by (auto simp: udp_accept_def icmp_dest_unreach_def frame_simps split: option.splits)
    then show ?thesis by (simp add: same_netifs_def sys_net_def)
  qed
  then show ?thesis by (auto simp: udp_input_def Let_def split: option.splits prod.splits)
qed

lemma ip_deliver_same: "same_netifs s (ip_deliver proto p inp src dst s)"
  using udp_input_same by (simp add: ip_deliver_def icmp_dest_unreach_def frame_simps)

lemma ip_input_same: "same_netifs s (ip_input now p inp s)"
proof -
  have "same_netifs s (ip_deliver proto q inp src dst (s\<lparr>sy_ping := ps\<rparr>))" "same_netifs s (s\<lparr>sy_ping := ps\<rparr>)" for proto q src dst ps
    using ip_deliver_same [of "s\<lparr>sy_ping := ps\<rparr>"] by (simp_all add: same_netifs_def sys_net_def)
  then show ?thesis by (simp add: ip_input_def Let_def split: prod.splits bool.splits)
qed

lemma ethernet_input_same: "same_netifs s (ethernet_input now p d s)"
  using ip_input_same by (auto simp: ethernet_input_def Let_def split: option.splits)

lemma receive_same: "same_netifs s (receive frames s)"
proof (induction frames arbitrary: s)
  case (Cons f frames)
  obtain now p where "f = (now, p)" by (cases f)
  with Cons.IH [of "ethernet_input now p (Hdk 0) s"] same_netifs_trans [OF ethernet_input_same] show ?case
    by (simp add: receive_def)
qed (simp add: receive_def)

lemma scan_loop_sys_wf:
  assumes "sys_wf s" and "nif \<in> set (netif_list (sys_net s))"
    and "scan_loop sys_net upd_net (\<lambda>k. receive (frames k)) nif network is s = (out, s')"
  shows "sys_wf s' \<and> same_netifs s s'"
  using assms
proof (induction "is" arbitrary: s out)
  case (Cons idx rest)
  show ?case
  proof (cases "scan_skip (netifs (sys_net s) nif) idx")
    case True
    with Cons show ?thesis by simp
  next
    case False
    let ?s1 = "upd_net (\<lambda>net. snd (net_link (etharp_query (netifs net nif) (scan_target network idx) None) net)) s"
    let ?s2 = "receive (frames idx) ?s1"
    let ?s3 = "if idx mod 10 = 0 then upd_net (\<lambda>net. net\<lparr>ns_link := etharp_cleanup_netif nif (ns_link net)\<rparr>) ?s2 else ?s2"
    have s2: "sys_wf ?s2" using Cons.prems by (intro receive_wf query_sys_wf)
    then have s3: "sys_wf ?s3" using cleanup_sys_wf [OF s2] by (simp only: split: if_split) simp
    have same: "same_netifs s ?s3"
      using receive_same [of ?s1 "frames idx"] by (simp add: same_netifs_def frame_simps)
    obtain outs where "scan_loop sys_net upd_net (\<lambda>k. receive (frames k)) nif network rest ?s3 = (outs, s')"
      using Cons.prems(3) False by (auto simp: Let_def split: prod.splits if_splits)
    from Cons.IH [OF s3 _ this] same Cons.prems(2) same_netifs_trans [OF same] show ?thesis by (simp add: same_netifs_def)
  qed
qed simp

lemma scan_sys_wf [wf_intros]:
  assumes "sys_wf s" and "nif \<in> set (netif_list (sys_net s))"
    and "scan_network sys_net upd_net (\<lambda>k. receive (frames k)) (Some nif) s = (e, out, s')"
  shows "sys_wf s'"
  using scan_loop_sys_wf [OF assms(1,2)] assms(3) by (auto simp: scan_network_def Let_def split: prod.splits)

end
