(* ===== verification/Cmd_Channel.thy ===== *)
theory Cmd_Channel
  imports System_Invariant
begin

text \<open>
  The structured command channel (\<open>src/terminal_interface.c\<close>, \<open>cmd_*\<close>): the main loop feeds it bytes from the serial
  line, a line that is complete is executed as a command, and the reply is framed by a \<open>#BEGIN\<close> and an \<open>#END\<close> line. A
  handler maps its arguments and the system to the texts it sends and the new system. The lemmas show that the line
  buffer is never overrun, that every exit of every handler closes its frame, that the handlers keep the invariant
  of the system, and that a printed command is read back.
\<close>

section \<open>The environment of a command\<close>

text \<open>
  What a command depends on besides the system: the conversion of numbers, the values of the free-running counter, and
  the frames that the receive interrupt delivers while the command waits. \<open>ev_fuel\<close> bounds the iterations of the wait
  for a ping reply; \<open>None\<close> as the result of a command means that they were not enough.
\<close>

record cmd_env =
  ev_cvt :: "int \<Rightarrow> int"
  ev_fuel :: nat
  ev_frc :: u32
  ev_start :: u32
  ev_clock :: "nat \<Rightarrow> u32"
  ev_wait :: "nat \<Rightarrow> (u32 \<times> pbuf) list"
  ev_scan :: "nat \<Rightarrow> (u32 \<times> pbuf) list"

type_synonym reply = "string list \<times> sys_st"

definition CMD_LINE_MAX :: nat where "CMD_LINE_MAX = 128"

text \<open>The texts that open and close the frame of a reply.\<close>

definition begin_line :: "string \<Rightarrow> string" where
  "begin_line name = ''#BEGIN '' @ name @ crlf"

definition end_ok :: "string \<Rightarrow> string" where
  "end_ok name = ''#END '' @ name @ '' OK'' @ crlf"

definition end_err :: "string \<Rightarrow> string \<Rightarrow> string" where
  "end_err name reason = ''#END '' @ name @ '' ERR:'' @ reason @ crlf"

definition fail :: "string \<Rightarrow> string \<Rightarrow> sys_st \<Rightarrow> reply" where
  "fail name reason s = ([begin_line name, end_err name reason], s)"

definition succeed :: "string \<Rightarrow> string list \<Rightarrow> sys_st \<Rightarrow> reply" where
  "succeed name out s = (begin_line name # out @ [end_ok name], s)"

text \<open>The last step of a handler: the error code of the operation decides.\<close>

definition finish :: "string \<Rightarrow> string \<Rightarrow> err_t \<Rightarrow> sys_st \<Rightarrow> reply" where
  "finish name reason err s = (if err \<noteq> ERR_OK then fail name reason s else succeed name [] s)"

section \<open>Handlers\<close>

text \<open>
  A handler with arguments is a conversion of the arguments (the \<open>sscanf\<close> call with \<open>ipaddr_aton\<close>) followed by an action
  on the converted values.
\<close>

fun index_loop :: "netif_ptr list \<Rightarrow> int \<Rightarrow> netif_ptr option" where
  "index_loop [] idx = None"
| "index_loop (n # ns) idx = (if idx > 1 then index_loop ns (idx - 1) else Some n)"

definition cmd_netif_by_index :: "int \<Rightarrow> sys_st \<Rightarrow> netif_ptr option" where
  "cmd_netif_by_index idx s = (if idx < 1 then None else index_loop (netif_list (sys_net s)) idx)"

definition netif_line :: "nat \<Rightarrow> netif_ptr \<Rightarrow> host_st \<Rightarrow> string" where
  "netif_line idx nif h =
     (let n = netifs (h_net h) nif in
      ''#NETIF '' @ dec idx @ '' '' @ ipaddr_ntoa (if_ip_addr n) @ '' '' @ ipaddr_ntoa (if_netmask n) @ '' '' @
      ipaddr_ntoa (if_gw n) @ '' socks='' @ dec (udp_source_count_sockets (Some nif) h) @ crlf)"

definition sock_line :: "nat \<Rightarrow> netif_ptr \<Rightarrow> host_st \<Rightarrow> nat \<Rightarrow> string" where
  "sock_line idx nif h j =
     ''#SOCK '' @ dec idx @ '' '' @ dec (j + 1) @ '' '' @
     dec (unat (si_local_port (udp_source_get_socket (Some nif) j h))) @ crlf"

fun list_loop :: "nat \<Rightarrow> netif_ptr list \<Rightarrow> host_st \<Rightarrow> string list" where
  "list_loop idx [] h = []"
| "list_loop idx (nif # ns) h =
     netif_line idx nif h # map (sock_line idx nif h) [0..<udp_source_count_sockets (Some nif) h] @
     list_loop (idx + 1) ns h"

definition cmd_netif_list :: "sys_st \<Rightarrow> reply" where
  "cmd_netif_list s = succeed ''NETIFLIST'' (list_loop 1 (netif_list (sys_net s)) (sy_host s)) s"

definition scan_netif_add :: "string \<Rightarrow> (u32 \<times> u32 \<times> u32) option" where
  "scan_netif_add args =
     Option.bind (scan_s 15 args) (\<lambda>(ip_s, r).
     Option.bind (scan_s 15 r) (\<lambda>(mask_s, r).
     Option.bind (scan_s 15 r) (\<lambda>(gw_s, r).
     Option.bind (ipaddr_aton ip_s) (\<lambda>ip.
     Option.bind (ipaddr_aton mask_s) (\<lambda>nmask.
     Option.bind (ipaddr_aton gw_s) (\<lambda>gw. Some (ip, nmask, gw)))))))"

definition act_netif_add :: "u32 \<Rightarrow> u32 \<Rightarrow> u32 \<Rightarrow> sys_st \<Rightarrow> reply" where
  "act_netif_add ip nmask gw s =
     (let (err, h) = net_if_add (Some ip) (Some nmask) (Some gw) (sy_host s)
      in finish ''NETIFADD'' ''add_failed'' err (s\<lparr>sy_host := h\<rparr>))"

definition cmd_netif_add :: "string \<Rightarrow> sys_st \<Rightarrow> reply" where
  "cmd_netif_add args s =
     (case scan_netif_add args of
        None \<Rightarrow> fail ''NETIFADD'' ''bad_args'' s
      | Some (ip, nmask, gw) \<Rightarrow> act_netif_add ip nmask gw s)"

definition act_netif_del :: "int \<Rightarrow> sys_st \<Rightarrow> reply" where
  "act_netif_del idx s =
     (case cmd_netif_by_index idx s of
        None \<Rightarrow> fail ''NETIFDEL'' ''bad_index'' s
      | Some n \<Rightarrow>
         (let (err, h) = net_if_remove (Some n) (sy_host s)
          in finish ''NETIFDEL'' ''remove_failed'' err (s\<lparr>sy_host := h\<rparr>)))"

definition cmd_netif_del :: "(int \<Rightarrow> int) \<Rightarrow> string \<Rightarrow> sys_st \<Rightarrow> reply" where
  "cmd_netif_del cvt args s = act_netif_del (atoi cvt args) s"

definition scan_two :: "(int \<Rightarrow> int) \<Rightarrow> string \<Rightarrow> (int \<times> int) option" where
  "scan_two cvt args =
     Option.bind (scan_number cvt args) (\<lambda>(a, r). Option.bind (scan_number cvt r) (\<lambda>(b, r). Some (a, b)))"

definition act_sock_open :: "int \<Rightarrow> int \<Rightarrow> sys_st \<Rightarrow> reply" where
  "act_sock_open idx port s =
     (case cmd_netif_by_index idx s of
        None \<Rightarrow> fail ''SOCKOPEN'' ''bad_index'' s
      | Some n \<Rightarrow>
         (let (err, sid, h) = udp_source_add_listener (Some n) (of_int port) (sy_host s)
          in finish ''SOCKOPEN'' ''open_failed'' err (s\<lparr>sy_host := h\<rparr>)))"

definition cmd_sock_open :: "(int \<Rightarrow> int) \<Rightarrow> string \<Rightarrow> sys_st \<Rightarrow> reply" where
  "cmd_sock_open cvt args s =
     (case scan_two cvt args of
        None \<Rightarrow> fail ''SOCKOPEN'' ''bad_args'' s
      | Some (idx, port) \<Rightarrow>
         if port < 1 \<or> port > 65535 then fail ''SOCKOPEN'' ''bad_args'' s else act_sock_open idx port s)"

definition act_sock_close :: "int \<Rightarrow> int \<Rightarrow> sys_st \<Rightarrow> reply" where
  "act_sock_close idx n s =
     (case cmd_netif_by_index idx s of
        None \<Rightarrow> fail ''SOCKCLOSE'' ''bad_index'' s
      | Some nif \<Rightarrow>
         if n < 1 \<or> n > int (udp_source_count_sockets (Some nif) (sy_host s))
         then fail ''SOCKCLOSE'' ''bad_socket'' s
         else
           (let info = udp_source_get_socket (Some nif) (nat (n - 1)) (sy_host s)
            in succeed ''SOCKCLOSE'' []
                 (s\<lparr>sy_host := udp_source_remove_listener (si_socket_id info) (sy_host s)\<rparr>)))"

definition cmd_sock_close :: "(int \<Rightarrow> int) \<Rightarrow> string \<Rightarrow> sys_st \<Rightarrow> reply" where
  "cmd_sock_close cvt args s =
     (case scan_two cvt args of
        None \<Rightarrow> fail ''SOCKCLOSE'' ''bad_args'' s
      | Some (idx, n) \<Rightarrow> act_sock_close idx n s)"

definition pong_line :: "ping_result \<Rightarrow> string" where
  "pong_line res =
     ''#PONG '' @ ipaddr_ntoa (pr_from res) @ '' '' @ dec (unat (pr_seqno res)) @ '' '' @
     dec (unat (pr_data_len res)) @ '' '' @ dec (unat (pr_rtt_ms res)) @ '' '' @ dec (unat (pr_ttl res)) @ crlf"

definition timeout_line :: string where "timeout_line = ''#TIMEOUT'' @ crlf"

definition scan_ping :: "(int \<Rightarrow> int) \<Rightarrow> string \<Rightarrow> (int \<times> u32) option" where
  "scan_ping cvt args =
     Option.bind (scan_number cvt args) (\<lambda>(idx, r).
     Option.bind (scan_s 15 r) (\<lambda>(ip_s, r).
     Option.bind (ipaddr_aton ip_s) (\<lambda>target. Some (idx, target))))"

definition act_ping :: "cmd_env \<Rightarrow> int \<Rightarrow> u32 \<Rightarrow> sys_st \<Rightarrow> reply option" where
  "act_ping ev idx target s =
     (case cmd_netif_by_index idx s of
        None \<Rightarrow> Some (fail ''PING'' ''bad_index'' s)
      | Some n \<Rightarrow>
         (let (err, net, ps) = ping_send (Some n) (Some target) (ev_frc ev) (sys_net s) (sy_ping s);
              s = set_net net (s\<lparr>sy_ping := ps\<rparr>)
          in if err \<noteq> ERR_OK then Some (fail ''PING'' ''send_failed'' s)
             else
               (case ping_wait_reply sy_ping sy_ping_update (ev_fuel ev) (ev_clock ev)
                       (\<lambda>k. receive (ev_wait ev k)) (ev_start ev) PING_TIMEOUT_MS s of
                  None \<Rightarrow> None
                | Some (ok, res, s) \<Rightarrow>
                   Some (succeed ''PING''
                     [case res of Some r \<Rightarrow> if ok then pong_line r else timeout_line | None \<Rightarrow> timeout_line] s))))"

definition cmd_ping :: "cmd_env \<Rightarrow> string \<Rightarrow> sys_st \<Rightarrow> reply option" where
  "cmd_ping ev args s =
     (case scan_ping (ev_cvt ev) args of
        None \<Rightarrow> Some (fail ''PING'' ''bad_args'' s)
      | Some (idx, target) \<Rightarrow> act_ping ev idx target s)"

definition act_scan :: "cmd_env \<Rightarrow> int \<Rightarrow> sys_st \<Rightarrow> reply" where
  "act_scan ev idx s =
     (case cmd_netif_by_index idx s of
        None \<Rightarrow> fail ''SCAN'' ''bad_index'' s
      | Some n \<Rightarrow>
         (let (err, out, s) = scan_network sys_net upd_net (\<lambda>k. receive (ev_scan ev k)) (Some n) s
          in if err \<noteq> ERR_OK then (begin_line ''SCAN'' # out @ [end_err ''SCAN'' ''scan_failed''], s)
             else succeed ''SCAN'' out s))"

definition cmd_scan :: "cmd_env \<Rightarrow> string \<Rightarrow> sys_st \<Rightarrow> reply" where
  "cmd_scan ev args s = act_scan ev (atoi (ev_cvt ev) args) s"

definition cmd_arp_reset :: "sys_st \<Rightarrow> reply" where
  "cmd_arp_reset s =
     succeed ''ARPRESET'' []
       (upd_net (\<lambda>net. net\<lparr>ns_link := foldl (\<lambda>l n. etharp_cleanup_netif n l) (ns_link net) (netif_list net)\<rparr>) s)"

definition scan_udp_send :: "(int \<Rightarrow> int) \<Rightarrow> string \<Rightarrow> (int \<times> int \<times> u32 \<times> int \<times> string) option" where
  "scan_udp_send cvt args =
     Option.bind (scan_number cvt args) (\<lambda>(idx, r).
     Option.bind (scan_number cvt r) (\<lambda>(n, r).
     Option.bind (scan_s 15 r) (\<lambda>(ip_s, r).
     Option.bind (scan_number cvt r) (\<lambda>(port, r).
     Option.bind (ipaddr_aton ip_s) (\<lambda>dst. Some (idx, n, dst, port, dropWhile isspace r))))))"

definition act_udp_send :: "int \<Rightarrow> int \<Rightarrow> u32 \<Rightarrow> int \<Rightarrow> string \<Rightarrow> sys_st \<Rightarrow> reply" where
  "act_udp_send idx n dst port data s =
     (case cmd_netif_by_index idx s of
        None \<Rightarrow> fail ''UDPSEND'' ''bad_index'' s
      | Some nif \<Rightarrow>
         if n < 1 \<or> n > int (udp_source_count_sockets (Some nif) (sy_host s))
         then fail ''UDPSEND'' ''bad_socket'' s
         else
           (let sock = udp_source_get_socket (Some nif) (nat (n - 1)) (sy_host s);
                (err, h) = udp_source_data_send (si_socket_id sock) (si_netif sock) dst (of_int port)
                             (map of_char data) (sy_host s)
            in finish ''UDPSEND'' ''send_failed'' err (s\<lparr>sy_host := h\<rparr>)))"

definition cmd_udp_send :: "(int \<Rightarrow> int) \<Rightarrow> string \<Rightarrow> sys_st \<Rightarrow> reply" where
  "cmd_udp_send cvt args s =
     (case scan_udp_send cvt args of
        None \<Rightarrow> fail ''UDPSEND'' ''bad_args'' s
      | Some (idx, n, dst, port, data) \<Rightarrow>
         if port < 1 \<or> port > 65535 then fail ''UDPSEND'' ''bad_args'' s
         else if data = [] then fail ''UDPSEND'' ''no_data'' s
         else act_udp_send idx n dst port data s)"

definition scan_netif_set :: "(int \<Rightarrow> int) \<Rightarrow> string \<Rightarrow> (int \<times> string \<times> u32) option" where
  "scan_netif_set cvt args =
     Option.bind (scan_number cvt args) (\<lambda>(idx, r).
     Option.bind (scan_s 7 r) (\<lambda>(field, r).
     Option.bind (scan_s 15 r) (\<lambda>(val_s, r).
     Option.bind (ipaddr_aton val_s) (\<lambda>val. Some (idx, field, val)))))"

definition act_netif_set :: "int \<Rightarrow> string \<Rightarrow> u32 \<Rightarrow> sys_st \<Rightarrow> reply" where
  "act_netif_set idx field val s =
     (case cmd_netif_by_index idx s of
        None \<Rightarrow> fail ''NETIFSET'' ''bad_index'' s
      | Some n \<Rightarrow>
         if field = ''IP'' then
           succeed ''NETIFSET'' []
             (let s = upd_net (netif_set_ipaddr n val) s
              in s\<lparr>sy_host := udp_source_netif_ip_changed (Some n) (sy_host s)\<rparr>)
         else if field = ''MASK'' then succeed ''NETIFSET'' [] (upd_net (netif_set_netmask n val) s)
         else if field = ''GW'' then succeed ''NETIFSET'' [] (upd_net (netif_set_gw n val) s)
         else fail ''NETIFSET'' ''bad_field'' s)"

definition cmd_netif_set :: "(int \<Rightarrow> int) \<Rightarrow> string \<Rightarrow> sys_st \<Rightarrow> reply" where
  "cmd_netif_set cvt args s =
     (case scan_netif_set cvt args of
        None \<Rightarrow> fail ''NETIFSET'' ''bad_args'' s
      | Some (idx, field, val) \<Rightarrow> act_netif_set idx field val s)"

section \<open>Dispatch and line buffer\<close>

definition cmd_dispatch :: "cmd_env \<Rightarrow> string \<Rightarrow> sys_st \<Rightarrow> reply option" where
  "cmd_dispatch ev line s =
     (let starts = (\<lambda>pre. take (length pre) line = pre); args = (\<lambda>pre. drop (length pre) line); cvt = ev_cvt ev in
      if line = ''NETIF LIST'' then Some (cmd_netif_list s)
      else if starts ''NETIF ADD '' then Some (cmd_netif_add (args ''NETIF ADD '') s)
      else if starts ''NETIF DEL '' then Some (cmd_netif_del cvt (args ''NETIF DEL '') s)
      else if starts ''NETIF SET '' then Some (cmd_netif_set cvt (args ''NETIF SET '') s)
      else if starts ''SOCK OPEN '' then Some (cmd_sock_open cvt (args ''SOCK OPEN '') s)
      else if starts ''SOCK CLOSE '' then Some (cmd_sock_close cvt (args ''SOCK CLOSE '') s)
      else if starts ''PING '' then cmd_ping ev (args ''PING '') s
      else if starts ''SCAN '' then Some (cmd_scan ev (args ''SCAN '') s)
      else if line = ''ARPRESET'' then Some (cmd_arp_reset s)
      else if starts ''UDP SEND '' then Some (cmd_udp_send cvt (args ''UDP SEND '') s)
      else Some ([''#ERR unknown_command'' @ crlf], s))"

text \<open>
  The line buffer holds the bytes received so far; its length is \<open>cmd_line_len\<close>. A line that contains a zero byte is
  read as a C string up to that byte.
\<close>

definition cmd_channel_feed :: "cmd_env \<Rightarrow> u8 \<Rightarrow> string \<Rightarrow> sys_st \<Rightarrow> (string list \<times> string \<times> sys_st) option" where
  "cmd_channel_feed ev ch buf s =
     (if ch = 13 \<or> ch = 10 then
        (if length buf > 0 then map_option (\<lambda>(out, s). (out, [], s)) (cmd_dispatch ev (cstr buf) s)
         else Some ([], buf, s))
      else if length buf < CMD_LINE_MAX - 1 then Some ([], buf @ [char_of (unat ch)], s)
      else Some ([], buf, s))"

text \<open>A stream of bytes, each with the environment of the command that it may complete.\<close>

fun cmd_stream :: "(cmd_env \<times> u8) list \<Rightarrow> string \<Rightarrow> sys_st \<Rightarrow> (string list \<times> string \<times> sys_st) option" where
  "cmd_stream [] buf s = Some ([], buf, s)"
| "cmd_stream ((ev, ch) # rest) buf s =
     (case cmd_channel_feed ev ch buf s of
        None \<Rightarrow> None
      | Some (out, buf, s) \<Rightarrow> map_option (\<lambda>(outs, r). (out @ outs, r)) (cmd_stream rest buf s))"

section \<open>The frame of a reply\<close>

text \<open>
  The protocol (\<open>include/terminal_interface.h\<close>): which name the reply to a line carries, what a data line may look like,
  and that the reply is one frame.
\<close>

definition reply_name :: "string \<Rightarrow> string option" where
  "reply_name line =
     (let starts = (\<lambda>pre. take (length pre) line = pre) in
      if line = ''NETIF LIST'' then Some ''NETIFLIST''
      else if starts ''NETIF ADD '' then Some ''NETIFADD''
      else if starts ''NETIF DEL '' then Some ''NETIFDEL''
      else if starts ''NETIF SET '' then Some ''NETIFSET''
      else if starts ''SOCK OPEN '' then Some ''SOCKOPEN''
      else if starts ''SOCK CLOSE '' then Some ''SOCKCLOSE''
      else if starts ''PING '' then Some ''PING''
      else if starts ''SCAN '' then Some ''SCAN''
      else if line = ''ARPRESET'' then Some ''ARPRESET''
      else if starts ''UDP SEND '' then Some ''UDPSEND''
      else None)"

definition data_line :: "string \<Rightarrow> bool" where
  "data_line l \<longleftrightarrow> take 5 l \<noteq> ''#END '' \<and> take 7 l \<noteq> ''#BEGIN '' \<and> take 2 (rev l) = rev crlf"

definition framed :: "string \<Rightarrow> string list \<Rightarrow> bool" where
  "framed name out \<longleftrightarrow> (\<exists>data end_line. out = begin_line name # data @ [end_line] \<and> list_all data_line data \<and>
     (end_line = end_ok name \<or> (\<exists>reason. end_line = end_err name reason)))"

lemmas act_defs = act_netif_add_def act_netif_del_def act_sock_open_def act_sock_close_def act_ping_def act_scan_def
  act_udp_send_def act_netif_set_def

lemma framed_fail [simp]: "framed name (fst (fail name reason s))"
  unfolding framed_def fail_def by (intro exI [of _ "[]"] exI [of _ "end_err name reason"]) auto

lemma framed_succeed [simp]: "list_all data_line out \<Longrightarrow> framed name (fst (succeed name out s))"
  unfolding framed_def succeed_def by (intro exI [of _ out] exI [of _ "end_ok name"]) auto

lemma framed_finish [simp]: "framed name (fst (finish name reason e s))"
  by (simp add: finish_def)

lemma data_lines [simp]:
  "data_line (netif_line i nif h)" "data_line (sock_line i nif h j)" "data_line (pong_line r)"
  "data_line (host_up_line a mac)" "data_line timeout_line"
  by (simp_all add: data_line_def timeout_line_def netif_line_def sock_line_def pong_line_def host_up_line_def Let_def crlf_def)

lemma list_loop_data: "list_all data_line (list_loop i ns h)"
  by (induction i ns h rule: list_loop.induct) (simp_all add: list_all_iff del: data_lines, auto)

lemma scan_loop_data: "list_all data_line (fst (scan_loop get upd env nif network is s))"
proof (induction "is" arbitrary: s)
  case (Cons idx rest)
  then show ?case by (simp add: Let_def case_prod_beta split: option.split)
qed simp

lemma framed_handlers:
  "framed ''NETIFLIST'' (fst (cmd_netif_list s))" "framed ''NETIFADD'' (fst (cmd_netif_add args s))"
  "framed ''NETIFDEL'' (fst (cmd_netif_del cvt args s))" "framed ''NETIFSET'' (fst (cmd_netif_set cvt args s))"
  "framed ''SOCKOPEN'' (fst (cmd_sock_open cvt args s))" "framed ''SOCKCLOSE'' (fst (cmd_sock_close cvt args s))"
  "framed ''ARPRESET'' (fst (cmd_arp_reset s))" "framed ''UDPSEND'' (fst (cmd_udp_send cvt args s))"
  by (simp_all add: cmd_netif_list_def list_loop_data cmd_netif_add_def cmd_netif_del_def cmd_netif_set_def cmd_sock_open_def
      cmd_sock_close_def cmd_arp_reset_def cmd_udp_send_def act_defs Let_def split: option.split prod.split)

lemma framed_ping: "cmd_ping ev args s = Some r \<Longrightarrow> framed ''PING'' (fst r)"
  by (auto simp: cmd_ping_def act_ping_def Let_def split: option.splits prod.splits if_splits)

lemma framed_scan: "framed ''SCAN'' (fst (cmd_scan ev args s))"
proof (cases "cmd_netif_by_index (atoi (ev_cvt ev) args) s")
  case (Some n)
  let ?n = "netifs (sys_net s) n" and ?env = "\<lambda>k. receive (ev_scan ev k)"
  obtain out s' where l: "scan_loop sys_net upd_net ?env n (if_netmask ?n AND if_ip_addr ?n) [0..<256] s = (out, s')"
    by (meson surj_pair)
  then have "list_all data_line out"
    using scan_loop_data [of sys_net upd_net ?env n "if_netmask ?n AND if_ip_addr ?n" "[0..<256]" s] by simp
  with Some l show ?thesis by (simp add: cmd_scan_def act_scan_def scan_network_def Let_def del: upt.simps)
qed (simp add: cmd_scan_def act_scan_def)

text \<open>The handler that a line selects, with the name of its reply.\<close>

lemma dispatch_cases [case_names list_cmd add_cmd del_cmd set_cmd open_cmd close_cmd ping_cmd scan_cmd reset_cmd send_cmd other]:
  obtains (list_cmd) "cmd_dispatch ev line s = Some (cmd_netif_list s)" "reply_name line = Some ''NETIFLIST''"
  | (add_cmd) args where "cmd_dispatch ev line s = Some (cmd_netif_add args s)" "reply_name line = Some ''NETIFADD''"
  | (del_cmd) args where "cmd_dispatch ev line s = Some (cmd_netif_del (ev_cvt ev) args s)" "reply_name line = Some ''NETIFDEL''"
  | (set_cmd) args where "cmd_dispatch ev line s = Some (cmd_netif_set (ev_cvt ev) args s)" "reply_name line = Some ''NETIFSET''"
  | (open_cmd) args where "cmd_dispatch ev line s = Some (cmd_sock_open (ev_cvt ev) args s)" "reply_name line = Some ''SOCKOPEN''"
  | (close_cmd) args where "cmd_dispatch ev line s = Some (cmd_sock_close (ev_cvt ev) args s)" "reply_name line = Some ''SOCKCLOSE''"
  | (ping_cmd) args where "cmd_dispatch ev line s = cmd_ping ev args s" "reply_name line = Some ''PING''"
  | (scan_cmd) args where "cmd_dispatch ev line s = Some (cmd_scan ev args s)" "reply_name line = Some ''SCAN''"
  | (reset_cmd) "cmd_dispatch ev line s = Some (cmd_arp_reset s)" "reply_name line = Some ''ARPRESET''"
  | (send_cmd) args where "cmd_dispatch ev line s = Some (cmd_udp_send (ev_cvt ev) args s)" "reply_name line = Some ''UDPSEND''"
  | (other) "cmd_dispatch ev line s = Some ([''#ERR unknown_command'' @ crlf], s)" "reply_name line = None"
proof -
  let ?c1 = "line = ''NETIF LIST''"
    and ?c2 = "take (length ''NETIF ADD '') line = ''NETIF ADD ''"
    and ?c3 = "take (length ''NETIF DEL '') line = ''NETIF DEL ''"
    and ?c4 = "take (length ''NETIF SET '') line = ''NETIF SET ''"
    and ?c5 = "take (length ''SOCK OPEN '') line = ''SOCK OPEN ''"
    and ?c6 = "take (length ''SOCK CLOSE '') line = ''SOCK CLOSE ''"
    and ?c7 = "take (length ''PING '') line = ''PING ''"
    and ?c8 = "take (length ''SCAN '') line = ''SCAN ''"
    and ?c9 = "line = ''ARPRESET''"
    and ?c10 = "take (length ''UDP SEND '') line = ''UDP SEND ''"
  note d = cmd_dispatch_def reply_name_def Let_def if_True if_False simp_thms
  have "?c1 \<Longrightarrow> thesis"
    by (rule list_cmd) (simp_all only: d)
  moreover have "\<not> ?c1 \<Longrightarrow> ?c2 \<Longrightarrow> thesis"
    by (rule add_cmd) (simp_all only: d)
  moreover have "\<not> ?c1 \<Longrightarrow> \<not> ?c2 \<Longrightarrow> ?c3 \<Longrightarrow> thesis"
    by (rule del_cmd) (simp_all only: d)
  moreover have "\<not> ?c1 \<Longrightarrow> \<not> ?c2 \<Longrightarrow> \<not> ?c3 \<Longrightarrow> ?c4 \<Longrightarrow> thesis"
    by (rule set_cmd) (simp_all only: d)
  moreover have "\<not> ?c1 \<Longrightarrow> \<not> ?c2 \<Longrightarrow> \<not> ?c3 \<Longrightarrow> \<not> ?c4 \<Longrightarrow> ?c5 \<Longrightarrow> thesis"
    by (rule open_cmd) (simp_all only: d)
  moreover have "\<not> ?c1 \<Longrightarrow> \<not> ?c2 \<Longrightarrow> \<not> ?c3 \<Longrightarrow> \<not> ?c4 \<Longrightarrow> \<not> ?c5 \<Longrightarrow> ?c6 \<Longrightarrow> thesis"
    by (rule close_cmd) (simp_all only: d)
  moreover have "\<not> ?c1 \<Longrightarrow> \<not> ?c2 \<Longrightarrow> \<not> ?c3 \<Longrightarrow> \<not> ?c4 \<Longrightarrow> \<not> ?c5 \<Longrightarrow> \<not> ?c6 \<Longrightarrow> ?c7 \<Longrightarrow> thesis"
    by (rule ping_cmd) (simp_all only: d)
  moreover have "\<not> ?c1 \<Longrightarrow> \<not> ?c2 \<Longrightarrow> \<not> ?c3 \<Longrightarrow> \<not> ?c4 \<Longrightarrow> \<not> ?c5 \<Longrightarrow> \<not> ?c6 \<Longrightarrow> \<not> ?c7 \<Longrightarrow> ?c8 \<Longrightarrow> thesis"
    by (rule scan_cmd) (simp_all only: d)
  moreover have "\<not> ?c1 \<Longrightarrow> \<not> ?c2 \<Longrightarrow> \<not> ?c3 \<Longrightarrow> \<not> ?c4 \<Longrightarrow> \<not> ?c5 \<Longrightarrow> \<not> ?c6 \<Longrightarrow> \<not> ?c7 \<Longrightarrow> \<not> ?c8 \<Longrightarrow> ?c9 \<Longrightarrow> thesis"
    by (rule reset_cmd) (simp_all only: d)
  moreover have "\<not> ?c1 \<Longrightarrow> \<not> ?c2 \<Longrightarrow> \<not> ?c3 \<Longrightarrow> \<not> ?c4 \<Longrightarrow> \<not> ?c5 \<Longrightarrow> \<not> ?c6 \<Longrightarrow> \<not> ?c7 \<Longrightarrow> \<not> ?c8 \<Longrightarrow> \<not> ?c9 \<Longrightarrow> ?c10 \<Longrightarrow> thesis"
    by (rule send_cmd) (simp_all only: d)
  moreover have "\<not> ?c1 \<Longrightarrow> \<not> ?c2 \<Longrightarrow> \<not> ?c3 \<Longrightarrow> \<not> ?c4 \<Longrightarrow> \<not> ?c5 \<Longrightarrow> \<not> ?c6 \<Longrightarrow> \<not> ?c7 \<Longrightarrow> \<not> ?c8 \<Longrightarrow> \<not> ?c9 \<Longrightarrow> \<not> ?c10 \<Longrightarrow> thesis"
    by (rule other) (simp_all only: d)
  ultimately show ?thesis by blast
qed

lemma dispatch_framed:
  assumes "cmd_dispatch ev line s = Some (out, s')"
  shows "case reply_name line of Some name \<Rightarrow> framed name out | None \<Rightarrow> out = [''#ERR unknown_command'' @ crlf] \<and> s' = s"
proof (cases rule: dispatch_cases [of ev line s])
  case (ping_cmd args)
  then show ?thesis using assms framed_ping [of ev args s "(out, s')"] by simp
qed (use assms framed_handlers framed_scan in \<open>simp; metis fst_conv\<close>)+

section \<open>The invariant\<close>

lemma index_loop_in: "index_loop ns i = Some n \<Longrightarrow> n \<in> set ns"
  by (induction ns i rule: index_loop.induct) (auto split: if_splits)

lemma by_index_in: "cmd_netif_by_index i s = Some n \<Longrightarrow> n \<in> set (netif_list (sys_net s))"
  by (auto simp: cmd_netif_by_index_def dest: index_loop_in split: if_splits)

lemma snd_reply [simp]:
  "snd (fail name reason s) = s" "snd (succeed name out s) = s" "snd (finish name reason e s) = s"
  by (simp_all add: fail_def succeed_def finish_def)

lemma snd_reply_case:
  "snd (case x of None \<Rightarrow> a | Some y \<Rightarrow> f y) = (case x of None \<Rightarrow> snd a | Some y \<Rightarrow> snd (f y))"
  by (simp split: option.split)

lemma netif_add_cmd_wf: "sys_wf s \<Longrightarrow> sys_wf (snd (cmd_netif_add args s))"
  using net_if_add_sys_wf [of s] by (auto simp: cmd_netif_add_def act_netif_add_def case_prod_beta Let_def split: option.split)

lemma netif_del_cmd_wf: "sys_wf s \<Longrightarrow> sys_wf (snd (cmd_netif_del cvt args s))"
  using net_if_remove_sys_wf [of s] by (auto simp: cmd_netif_del_def act_netif_del_def case_prod_beta Let_def split: option.split)

lemma netif_set_cmd_wf: "sys_wf s \<Longrightarrow> sys_wf (snd (cmd_netif_set cvt args s))"
  using set_addr_sys_wf [of s] ip_changed_sys_wf by (auto simp: cmd_netif_set_def act_netif_set_def Let_def split: option.split)

lemma sock_open_cmd_wf: "sys_wf s \<Longrightarrow> sys_wf (snd (cmd_sock_open cvt args s))"
  using add_listener_sys_wf [of s]
  by (auto simp: cmd_sock_open_def act_sock_open_def case_prod_beta Let_def dest: by_index_in split: option.split)

lemma sock_close_cmd_wf: "sys_wf s \<Longrightarrow> sys_wf (snd (cmd_sock_close cvt args s))"
  using remove_listener_sys_wf [of s] by (auto simp: cmd_sock_close_def act_sock_close_def Let_def split: option.split)

lemma get_socket_netif: "si_netif (udp_source_get_socket (Some nif) j h) \<in> {None, Some nif}"
  by (auto simp: udp_source_get_socket_def no_socket_def split: option.split)

lemma udp_send_cmd_wf:
  assumes "sys_wf s"
  shows "sys_wf (snd (cmd_udp_send cvt args s))"
proof -
  have "sys_wf (s\<lparr>sy_host := snd (udp_source_data_send sid x dst port data (sy_host s))\<rparr>)"
    if "nif \<in> set (netif_list (sys_net s))" "x \<in> {None, Some nif}" for sid x dst port data nif
  proof (cases x)
    case None
    then show ?thesis using assms by (simp add: udp_source_data_send_def split: option.split)
  qed (use that data_send_sys_wf [OF assms that(1)] in simp)
  from this [OF by_index_in get_socket_netif] assms show ?thesis
    by (auto simp: cmd_udp_send_def act_udp_send_def case_prod_beta Let_def split: option.split)
qed

lemma ping_cmd_wf:
  assumes "sys_wf s" and "cmd_ping ev args s = Some r"
  shows "sys_wf (snd r)"
proof -
  have "sys_wf (set_net net (s\<lparr>sy_ping := ps\<rparr>))"
    if "cmd_netif_by_index i s = Some n" "ping_send (Some n) (Some t) (ev_frc ev) (sys_net s) (sy_ping s) = (e, net, ps)"
    for i n t e net ps using ping_send_sys_wf [OF assms(1) by_index_in [OF that(1)] that(2)] .
  with assms wait_sys_wf show ?thesis
    by (auto simp: cmd_ping_def act_ping_def Let_def split: option.splits prod.splits if_splits) blast+
qed

lemma scan_cmd_wf: "sys_wf s \<Longrightarrow> sys_wf (snd (cmd_scan ev args s))"
  by (auto simp: cmd_scan_def act_scan_def Let_def dest: by_index_in intro: scan_sys_wf split: option.splits prod.splits)

lemma arp_reset_cmd_wf:
  assumes "sys_wf s"
  shows "sys_wf (snd (cmd_arp_reset s))"
proof -
  have "arp_wf (foldl (\<lambda>l n. etharp_cleanup_netif n l) l ns) \<and>
      lk_fault (foldl (\<lambda>l n. etharp_cleanup_netif n l) l ns) = lk_fault l" if "arp_wf l" for l ns
    using that by (induction ns arbitrary: l) (simp_all add: etharp_cleanup_netif_wf, simp add: etharp_cleanup_netif_def)
  then have "netif_wf ((sys_net s)\<lparr>ns_link := foldl (\<lambda>l n. etharp_cleanup_netif n l) (ns_link (sys_net s)) (netif_list (sys_net s))\<rparr>)"
    using sys_wf_net [OF assms] by (simp add: netif_wf_def)
  then show ?thesis unfolding cmd_arp_reset_def snd_reply upd_net_def by (intro set_net_wf assms) simp_all
qed

lemma dispatch_wf [wf_intros]:
  assumes "sys_wf s" and "cmd_dispatch ev line s = Some (out, s')"
  shows "sys_wf s'"
proof (cases rule: dispatch_cases [of ev line s])
  case (ping_cmd args)
  then show ?thesis using assms ping_cmd_wf [of s ev args "(out, s')"] by simp
qed (use assms netif_add_cmd_wf netif_del_cmd_wf netif_set_cmd_wf sock_open_cmd_wf sock_close_cmd_wf udp_send_cmd_wf
    scan_cmd_wf arp_reset_cmd_wf in \<open>(simp add: cmd_netif_list_def succeed_def; fail) | (simp; metis snd_conv)\<close>)+

section \<open>The line buffer\<close>

lemma feed_bound: "length buf < CMD_LINE_MAX \<Longrightarrow> cmd_channel_feed ev ch buf s = Some (out, buf', s') \<Longrightarrow> length buf' < CMD_LINE_MAX"
  by (auto simp: cmd_channel_feed_def CMD_LINE_MAX_def split: if_splits)

lemma feed_wf: "sys_wf s \<Longrightarrow> cmd_channel_feed ev ch buf s = Some (out, buf', s') \<Longrightarrow> sys_wf s'"
  by (auto simp: cmd_channel_feed_def dest: dispatch_wf split: if_splits)

lemma stream_invariant:
  assumes "cmd_stream inp buf s = Some (out, buf', s')" and "length buf < CMD_LINE_MAX" and "sys_wf s"
  shows "length buf' < CMD_LINE_MAX \<and> sys_wf s'"
  using assms
proof (induction inp arbitrary: buf s out)
  case (Cons x inp)
  obtain ev ch where x: "x = (ev, ch)" by (cases x)
  obtain o1 b1 s1 where f: "cmd_channel_feed ev ch buf s = Some (o1, b1, s1)"
    using Cons.prems(1) by (auto simp: x split: option.splits)
  then obtain outs where "cmd_stream inp b1 s1 = Some (outs, buf', s')" using Cons.prems(1) by (auto simp: x)
  with Cons.IH feed_bound [OF Cons.prems(2) f] feed_wf [OF Cons.prems(3) f] show ?case by blast
qed simp

lemma stream_append:
  "cmd_stream (xs @ ys) buf s =
   (case cmd_stream xs buf s of
      None \<Rightarrow> None
    | Some (out, buf, s) \<Rightarrow> map_option (\<lambda>(outs, r). (out @ outs, r)) (cmd_stream ys buf s))"
proof (induction xs arbitrary: buf s)
  case Nil
  show ?case by (cases "cmd_stream ys buf s") auto
next
  case (Cons x xs)
  obtain ev ch where x: "x = (ev, ch)" by (cases x)
  show ?case
    using Cons.IH by (auto simp: x option.map_comp comp_def case_prod_beta split: option.splits prod.splits)
qed

text \<open>Bytes of a line are collected up to the size of the buffer.\<close>

lemma stream_collects:
  assumes "\<forall>(ev, ch) \<in> set inp. ch \<noteq> 13 \<and> ch \<noteq> 10" and "length buf < CMD_LINE_MAX"
  shows "cmd_stream inp buf s =
    Some ([], take (CMD_LINE_MAX - 1) (buf @ map (\<lambda>(ev, ch). char_of (unat ch)) inp), s)"
  using assms
proof (induction inp arbitrary: buf)
  case (Cons x inp)
  obtain ev ch where x: "x = (ev, ch)" by (cases x)
  show ?case
  proof (cases "length buf < CMD_LINE_MAX - 1")
    case True
    then have "cmd_channel_feed ev ch buf s = Some ([], buf @ [char_of (unat ch)], s)"
      using Cons.prems by (simp add: cmd_channel_feed_def x)
    with Cons.IH [of "buf @ [char_of (unat ch)]"] Cons.prems True show ?thesis by (simp add: x)
  next
    case False
    then have "cmd_channel_feed ev ch buf s = Some ([], buf, s)"
      using Cons.prems by (simp add: cmd_channel_feed_def x)
    with Cons.IH [of buf] Cons.prems False show ?thesis by (simp add: x)
  qed
qed (simp add: CMD_LINE_MAX_def)

section \<open>Commands as data\<close>

text \<open>
  The commands of the protocol, the text that the control panel sends for them, and their meaning: the action with the
  values that the text was made from.
\<close>

datatype command =
    Netif_list
  | Netif_add u32 u32 u32
  | Netif_del nat
  | Netif_set nat string u32
  | Sock_open nat nat
  | Sock_close nat nat
  | Ping nat u32
  | Scan nat
  | Arp_reset
  | Udp_send nat nat u32 nat string

fun print_command :: "command \<Rightarrow> string" where
  "print_command Netif_list = ''NETIF LIST''"
| "print_command (Netif_add a m g) = ''NETIF ADD '' @ ipaddr_ntoa a @ '' '' @ ipaddr_ntoa m @ '' '' @ ipaddr_ntoa g"
| "print_command (Netif_del i) = ''NETIF DEL '' @ dec i"
| "print_command (Netif_set i f a) = ''NETIF SET '' @ dec i @ '' '' @ f @ '' '' @ ipaddr_ntoa a"
| "print_command (Sock_open i p) = ''SOCK OPEN '' @ dec i @ '' '' @ dec p"
| "print_command (Sock_close i n) = ''SOCK CLOSE '' @ dec i @ '' '' @ dec n"
| "print_command (Ping i a) = ''PING '' @ dec i @ '' '' @ ipaddr_ntoa a"
| "print_command (Scan i) = ''SCAN '' @ dec i"
| "print_command Arp_reset = ''ARPRESET''"
| "print_command (Udp_send i n a p d) = ''UDP SEND '' @ dec i @ '' '' @ dec n @ '' '' @ ipaddr_ntoa a @ '' '' @ dec p @ '' '' @ d"

fun run_command :: "cmd_env \<Rightarrow> command \<Rightarrow> sys_st \<Rightarrow> reply option" where
  "run_command ev Netif_list s = Some (cmd_netif_list s)"
| "run_command ev (Netif_add a m g) s = Some (act_netif_add a m g s)"
| "run_command ev (Netif_del i) s = Some (act_netif_del (int i) s)"
| "run_command ev (Netif_set i f a) s = Some (act_netif_set (int i) f a s)"
| "run_command ev (Sock_open i p) s = Some (act_sock_open (int i) (int p) s)"
| "run_command ev (Sock_close i n) s = Some (act_sock_close (int i) (int n) s)"
| "run_command ev (Ping i a) s = act_ping ev (int i) a s"
| "run_command ev (Scan i) s = Some (act_scan ev (int i) s)"
| "run_command ev Arp_reset s = Some (cmd_arp_reset s)"
| "run_command ev (Udp_send i n a p d) s = Some (act_udp_send (int i) (int n) a (int p) d s)"

definition int_max :: nat where "int_max = 2147483647"

text \<open>Numbers that an \<open>int\<close> holds, ports, the fields of the protocol, and data that starts with a visible character.\<close>

fun valid_command :: "command \<Rightarrow> bool" where
  "valid_command (Netif_del i) = (i \<le> int_max)"
| "valid_command (Netif_set i f a) = (i \<le> int_max \<and> f \<in> {''IP'', ''MASK'', ''GW''})"
| "valid_command (Sock_open i p) = (i \<le> int_max \<and> 1 \<le> p \<and> p \<le> 65535)"
| "valid_command (Sock_close i n) = (i \<le> int_max \<and> n \<le> int_max)"
| "valid_command (Ping i a) = (i \<le> int_max)"
| "valid_command (Scan i) = (i \<le> int_max)"
| "valid_command (Udp_send i n a p d) =
     (i \<le> int_max \<and> n \<le> int_max \<and> 1 \<le> p \<and> p \<le> 65535 \<and> d \<noteq> [] \<and> \<not> isspace (hd d))"
| "valid_command c = True"

lemma cvt_exact: "cvt_ok cvt \<Longrightarrow> n \<le> int_max \<Longrightarrow> cvt (int n) = int n"
  by (simp add: cvt_ok_def int_max_def)

lemma ntoa_word: "ipaddr_ntoa a \<noteq> []" "length (ipaddr_ntoa a) \<le> 15" "\<forall>c \<in> set (ipaddr_ntoa a). \<not> isspace c"
proof -
  have "\<not> isspace (digit_chr d)" if "d \<in> set (byte_digits (unat (b :: u8)))" for d b
    using byte_digits_less [OF unat_u8_less that] isspace_digit by simp
  moreover have "\<not> isspace CHR ''.''" by (simp add: isspace_def chr_code_def)
  ultimately have "\<forall>c \<in> set (dotted bs). \<not> isspace c" for bs by (auto simp: dotted_def)
  then show "\<forall>c \<in> set (ipaddr_ntoa a). \<not> isspace c" unfolding ipaddr_ntoa_dotted by (meson in_set_butlastD)
  have "ipaddr_aton [] = None" by code_simp
  then show "ipaddr_ntoa a \<noteq> []" using aton_ntoa [of a] by auto
qed (rule length_ipaddr_ntoa)

text \<open>Reading one printed item, in front of a blank or at the end.\<close>

lemma scan_dec:
  "scan_number cvt (dec n) = Some (cvt (int n), [])"
  "scan_number cvt (dec n @ CHR '' '' # rest) = Some (cvt (int n), CHR '' '' # rest)"
  using scan_number_dec [of "[]"] scan_number_dec [of "CHR '' '' # rest"] by (simp_all add: cur_def)

lemma scan_ntoa:
  "scan_s 15 (ipaddr_ntoa a) = Some (ipaddr_ntoa a, [])"
  "scan_s 15 (ipaddr_ntoa a @ CHR '' '' # rest) = Some (ipaddr_ntoa a, CHR '' '' # rest)"
  using scan_s_word [OF ntoa_word, of "[]"] scan_s_word [OF ntoa_word, of "CHR '' '' # rest"] by simp_all

lemma scan_field:
  "f \<in> {''IP'', ''MASK'', ''GW''} \<Longrightarrow> scan_s 7 (f @ CHR '' '' # rest) = Some (f, CHR '' '' # rest)"
  by (rule scan_s_word) (auto simp: isspace_def chr_code_def)

lemmas scan_printed = scan_dec scan_ntoa scan_field scan_number_space scan_s_space aton_ntoa

lemma atoi_printed: "atoi cvt (dec n) = cvt (int n)"
  by (simp add: atoi_def scan_dec)

lemma run_printed:
  assumes "cvt_ok (ev_cvt ev)" and "valid_command c"
  shows "cmd_dispatch ev (print_command c) s = run_command ev c s"
proof (cases c)
  case (Netif_add a m g)
  then show ?thesis by (simp add: cmd_dispatch_def cmd_netif_add_def scan_netif_add_def scan_printed)
next
  case (Netif_del i)
  with assms show ?thesis by (simp add: cmd_dispatch_def cmd_netif_del_def atoi_printed cvt_exact)
next
  case (Netif_set i f a)
  with assms show ?thesis
    by (simp add: cmd_dispatch_def cmd_netif_set_def scan_netif_set_def scan_printed cvt_exact del: insert_iff)
next
  case (Sock_open i p)
  with assms have "p \<le> int_max" by (simp add: int_max_def)
  with Sock_open assms show ?thesis
    by (simp add: cmd_dispatch_def cmd_sock_open_def scan_two_def scan_printed cvt_exact)
next
  case (Sock_close i n)
  with assms show ?thesis by (simp add: cmd_dispatch_def cmd_sock_close_def scan_two_def scan_printed cvt_exact)
next
  case (Ping i a)
  with assms show ?thesis by (simp add: cmd_dispatch_def cmd_ping_def scan_ping_def scan_printed cvt_exact)
next
  case (Scan i)
  with assms show ?thesis by (simp add: cmd_dispatch_def cmd_scan_def atoi_printed cvt_exact)
next
  case (Udp_send i n a p d)
  with assms have p: "p \<le> int_max" by (simp add: int_max_def)
  have d: "dropWhile isspace (CHR '' '' # d) = d" using Udp_send assms(2) by (cases d) simp_all
  from Udp_send assms p show ?thesis
    by (simp add: cmd_dispatch_def cmd_udp_send_def scan_udp_send_def scan_printed cvt_exact d del: dropWhile.simps)
qed (simp_all add: cmd_dispatch_def)

section \<open>Rejected commands and line lengths\<close>

lemma end_err_inj [simp]: "end_err n r = end_err n r' \<longleftrightarrow> r = r'"
  by (simp add: end_err_def)

lemma end_err_ok [simp]: "end_err n r \<noteq> end_ok n"
  by (simp add: end_err_def end_ok_def)

lemma end_ok_err [simp]: "end_ok n \<noteq> end_err n r"
  by (simp add: end_err_def end_ok_def)

text \<open>
  The reasons for which a command is rejected before it does anything, and that a reply with such a reason is all that
  the handler does.
\<close>

definition rejections :: "string list" where
  "rejections = [''bad_args'', ''bad_index'', ''bad_socket'', ''bad_field'', ''no_data'']"

definition rejects :: "string \<Rightarrow> reply \<Rightarrow> sys_st \<Rightarrow> bool" where
  "rejects name r s \<longleftrightarrow> (\<forall>reason \<in> set rejections. last (fst r) = end_err name reason \<longrightarrow> r = fail name reason s)"

lemma rejects_simps [simp]:
  "rejects name (fail name reason s) s" "rejects name (succeed name out s') s"
  "reason \<notin> set rejections \<Longrightarrow> rejects name (fail name reason s') s"
  "reason \<notin> set rejections \<Longrightarrow> rejects name (finish name reason e s') s"
  "reason \<notin> set rejections \<Longrightarrow> rejects name (x # out @ [end_err name reason], s') s"
  by (auto simp: rejects_def fail_def succeed_def finish_def)

lemma effects_not_rejections [simp]:
  "''add_failed'' \<notin> set rejections" "''remove_failed'' \<notin> set rejections" "''open_failed'' \<notin> set rejections"
  "''send_failed'' \<notin> set rejections" "''scan_failed'' \<notin> set rejections"
  by (simp_all add: rejections_def)

lemma handlers_reject:
  "rejects ''NETIFLIST'' (cmd_netif_list s) s" "rejects ''NETIFADD'' (cmd_netif_add args s) s"
  "rejects ''NETIFDEL'' (cmd_netif_del cvt args s) s" "rejects ''NETIFSET'' (cmd_netif_set cvt args s) s"
  "rejects ''SOCKOPEN'' (cmd_sock_open cvt args s) s" "rejects ''SOCKCLOSE'' (cmd_sock_close cvt args s) s"
  "rejects ''ARPRESET'' (cmd_arp_reset s) s" "rejects ''UDPSEND'' (cmd_udp_send cvt args s) s"
  "rejects ''SCAN'' (cmd_scan ev args s) s"
  by (simp_all add: cmd_netif_list_def cmd_netif_add_def cmd_netif_del_def cmd_netif_set_def cmd_sock_open_def
      cmd_sock_close_def cmd_arp_reset_def cmd_udp_send_def cmd_scan_def act_defs Let_def split: option.split prod.split)

lemma ping_rejects: "cmd_ping ev args s = Some r \<Longrightarrow> rejects ''PING'' r s"
  by (auto simp: cmd_ping_def act_ping_def Let_def split: option.splits prod.splits if_splits)

lemma dispatch_rejects:
  assumes "cmd_dispatch ev line s = Some r" and "reply_name line = Some name"
  shows "rejects name r s"
proof (cases rule: dispatch_cases [of ev line s])
  case (ping_cmd args)
  then show ?thesis using assms ping_rejects [of ev args s r] by simp
qed (use assms handlers_reject in \<open>auto simp del: rejects_simps\<close>)

text \<open>The texts fit the buffers of 96 bytes that they are printed to.\<close>

lemma length_dec: "0 < k \<Longrightarrow> n < 10 ^ k \<Longrightarrow> length (dec n) \<le> k"
proof (induction k arbitrary: n)
  case (Suc k)
  show ?case
  proof (cases "n < 10")
    case True
    then show ?thesis by (subst dec.simps) simp
  next
    case False
    then have "k \<noteq> 0" using Suc.prems(2) by (cases k) simp_all
    moreover have "n div 10 < 10 ^ k" using Suc.prems(2) by (simp add: div_less_iff_less_mult mult.commute)
    ultimately have "length (dec (n div 10)) \<le> k" using Suc.IH by simp
    with False show ?thesis by (subst dec.simps) simp
  qed
qed simp

lemma length_dec_word: "length (dec (unat (x :: u8))) \<le> 3" "length (dec (unat (y :: u16))) \<le> 5" "length (dec (unat (z :: u32))) \<le> 10"
proof -
  show "length (dec (unat x)) \<le> 3" by (intro length_dec less_trans [OF unat_u8_less]) simp_all
  show "length (dec (unat y)) \<le> 5" by (intro length_dec less_trans [OF unat_u16_less]) simp_all
  show "length (dec (unat z)) \<le> 10" by (intro length_dec less_trans [OF unat_u32_less]) simp_all
qed

lemma netifs_le_8:
  assumes "sys_wf s"
  shows "length (netif_list (sys_net s)) \<le> 8"
proof -
  have wf: "distinct (netif_list (sys_net s))" "alias_wf (h_lib (sy_host s)) (sys_net s)"
    using assms by (simp_all add: sys_wf_def host_wf_def netif_wf_def sys_net_def)
  have sub: "set (netif_list (sys_net s)) \<subseteq> insert (Hdk 0) (Alias ` {..<MAX_ALIAS_NETIF})"
  proof
    fix p assume "p \<in> set (netif_list (sys_net s))"
    then have "(\<forall>i. p = Hdk i \<longrightarrow> i = 0) \<and> (\<forall>i. p = Alias i \<longrightarrow> i < MAX_ALIAS_NETIF)" using wf(2) by (auto simp: alias_wf_def)
    then show "p \<in> insert (Hdk 0) (Alias ` {..<MAX_ALIAS_NETIF})" by (metis imageI insertCI lessThan_iff netif_ptr.exhaust)
  qed
  have "card (set (netif_list (sys_net s))) \<le> card (insert (Hdk 0) (Alias ` {..<MAX_ALIAS_NETIF}))"
    using sub by (intro card_mono) simp_all
  also have "\<dots> \<le> Suc (card (Alias ` {..<MAX_ALIAS_NETIF}))" by (rule card_insert_le_m1) simp_all
  also have "\<dots> \<le> 8" using card_image_le [of "{..<MAX_ALIAS_NETIF}" Alias] by (simp add: MAX_ALIAS_NETIF_def)
  finally show ?thesis using distinct_card [OF wf(1)] by simp
qed

lemma count_le_16:
  assumes "host_wf h"
  shows "udp_source_count_sockets (Some nif) h \<le> 16"
proof -
  have "length (s_listeners h) = 16" using assms by (simp add: host_wf_def reg_ok_def UDP_MAX_LISTENERS_def)
  then show ?thesis using length_filter_le [of "slot_on nif" "s_listeners h"] by (simp add: udp_source_count_sockets_def)
qed

lemma list_loop_fits:
  assumes "host_wf h" and "i + length ns \<le> 9"
  shows "\<forall>l \<in> set (list_loop i ns h). length l < 96"
  using assms(2)
proof (induction ns arbitrary: i)
  case (Cons nif ns)
  let ?c = "udp_source_count_sockets (Some nif) h"
  have i: "length (dec i) \<le> 1" using Cons.prems by (intro length_dec) simp_all
  have c: "?c \<le> 16" "length (dec ?c) \<le> 2" using count_le_16 [OF assms(1), of nif] by (auto intro!: length_dec)
  have "length (netif_line i nif h) < 96"
    using i c(2) ntoa_word(2) [of "if_ip_addr (netifs (h_net h) nif)"] ntoa_word(2) [of "if_netmask (netifs (h_net h) nif)"]
      ntoa_word(2) [of "if_gw (netifs (h_net h) nif)"] by (simp add: netif_line_def Let_def crlf_def)
  moreover have "length (sock_line i nif h j) < 96" if "j < ?c" for j
    using i length_dec_word(2) [of "si_local_port (udp_source_get_socket (Some nif) j h)"] that c(1)
      length_dec [of 2 "j + 1"] by (simp add: sock_line_def crlf_def)
  ultimately show ?case using Cons.IH [of "i + 1"] Cons.prems by auto
qed simp

lemma pong_line_fits: "length (pong_line r) < 96"
  using ntoa_word(2) [of "pr_from r"] length_dec_word(1) [of "pr_ttl r"] length_dec_word(2) [of "pr_seqno r"]
    length_dec_word(2) [of "pr_data_len r"] length_dec_word(3) [of "pr_rtt_ms r"]
  by (simp add: pong_line_def crlf_def)

lemma host_up_line_fits: "length (host_up_line a mac) < 96"
  using ntoa_word(2) [of a] by (simp add: host_up_line_def mac_text_def hex2_def crlf_def)

lemma scan_loop_fits: "list_all (\<lambda>l. length l < 96) (fst (scan_loop get upd env nif network is s))"
proof (induction "is" arbitrary: s)
  case (Cons idx rest)
  then show ?case by (simp add: Let_def case_prod_beta host_up_line_fits split: option.split)
qed simp

definition fits :: "reply \<Rightarrow> bool" where
  "fits r \<longleftrightarrow> list_all (\<lambda>l. length l < 96) (fst r)"

lemma fits_simps [simp]:
  "length name + length reason \<le> 60 \<Longrightarrow> fits (fail name reason s)"
  "length name \<le> 60 \<Longrightarrow> fits (succeed name out s) \<longleftrightarrow> list_all (\<lambda>l. length l < 96) out"
  "length name + length reason \<le> 60 \<Longrightarrow> fits (finish name reason e s)"
  by (auto simp: fits_def fail_def succeed_def finish_def begin_line_def end_ok_def end_err_def crlf_def)

lemma handlers_fit:
  "fits (cmd_netif_add args s)" "fits (cmd_netif_del cvt args s)" "fits (cmd_netif_set cvt args s)"
  "fits (cmd_sock_open cvt args s)" "fits (cmd_sock_close cvt args s)" "fits (cmd_arp_reset s)" "fits (cmd_udp_send cvt args s)"
  by (simp_all add: cmd_netif_add_def cmd_netif_del_def cmd_netif_set_def cmd_sock_open_def
      cmd_sock_close_def cmd_arp_reset_def cmd_udp_send_def act_defs Let_def split: option.split prod.split)

lemma ping_fits: "cmd_ping ev args s = Some r \<Longrightarrow> fits r"
  by (auto simp: cmd_ping_def act_ping_def Let_def pong_line_fits timeout_line_def crlf_def
      split: option.splits prod.splits if_splits)

lemma scan_fits: "fits (cmd_scan ev args s)"
proof -
  have "list_all (\<lambda>l. length l < 96) (fst (snd (scan_network sys_net upd_net (\<lambda>k. receive (ev_scan ev k)) (Some n) s)))" for n
    by (simp add: scan_network_def Let_def case_prod_beta scan_loop_fits del: upt.simps)
  moreover have "fst (scan_network sys_net upd_net (\<lambda>k. receive (ev_scan ev k)) (Some n) s) = ERR_OK" for n
    by (simp add: scan_network_def Let_def case_prod_beta del: upt.simps)
  ultimately show ?thesis by (simp add: cmd_scan_def act_scan_def Let_def case_prod_beta split: option.split)
qed

lemma dispatch_fits:
  assumes "sys_wf s" and "cmd_dispatch ev line s = Some r"
  shows "fits r"
proof (cases rule: dispatch_cases [of ev line s])
  case list_cmd
  have "\<forall>l \<in> set (list_loop 1 (netif_list (sys_net s)) (sy_host s)). length l < 96"
    using netifs_le_8 [OF assms(1)] by (intro list_loop_fits sys_wfD assms) simp
  with list_cmd assms(2) show ?thesis by (auto simp: cmd_netif_list_def list_all_iff)
next
  case (ping_cmd args)
  then show ?thesis using assms(2) ping_fits by metis
next
  case other
  then show ?thesis using assms(2) by (auto simp: fits_def crlf_def)
qed (use assms(2) handlers_fit scan_fits in simp_all)

section \<open>Properties\<close>

text \<open>A line of text as bytes, each received in the same environment.\<close>

definition line_bytes :: "cmd_env \<Rightarrow> string \<Rightarrow> (cmd_env \<times> u8) list" where
  "line_bytes ev line = map (\<lambda>c. (ev, of_char c)) line"

lemma char_of_byte [simp]: "char_of (unat (of_char c :: u8)) = c"
proof -
  have "unat (of_char c :: u8) = of_char c" by (cases c) (simp add: unat_of_nat of_char_def)
  then show ?thesis by simp
qed

lemma stream_line:
  assumes "CHR 0x0d \<notin> set line" "CHR 0x0a \<notin> set line" "line \<noteq> []"
  shows "cmd_stream (line_bytes ev line @ [(ev, 13)]) [] s =
    map_option (\<lambda>(out, s'). (out, [], s')) (cmd_dispatch ev (cstr (take (CMD_LINE_MAX - 1) line)) s)"
proof -
  have nl: "char_of (13 :: nat) = CHR 0x0d" "char_of (10 :: nat) = CHR 0x0a" by code_simp+
  have "c = CHR 0x0d" if "of_char c = (13 :: u8)" for c using char_of_byte [of c] that nl by simp
  moreover have "c = CHR 0x0a" if "of_char c = (10 :: u8)" for c using char_of_byte [of c] that nl by simp
  ultimately have "\<forall>(ev, ch) \<in> set (line_bytes ev line). ch \<noteq> 13 \<and> ch \<noteq> 10"
    using assms(1,2) by (fastforce simp: line_bytes_def)
  from stream_collects [OF this, of "[]" s]
  have c: "cmd_stream (line_bytes ev line) [] s = Some ([], take (CMD_LINE_MAX - 1) line, s)"
    by (simp add: CMD_LINE_MAX_def line_bytes_def comp_def)
  have "take (CMD_LINE_MAX - 1) line \<noteq> []" using assms(3) by (simp add: CMD_LINE_MAX_def)
  then show ?thesis
    unfolding stream_append c
    by (cases "cmd_dispatch ev (cstr (take (CMD_LINE_MAX - 1) line)) s") (auto simp: cmd_channel_feed_def)
qed

text \<open>An environment without traffic, in which a wait ends at once, and the start-up state with two sockets.\<close>

definition quiet_env :: cmd_env where
  "quiet_env = \<lparr>ev_cvt = id, ev_fuel = 1, ev_frc = 0, ev_start = 0, ev_clock = (\<lambda>_. 0xffffffff), ev_wait = (\<lambda>_. []),
     ev_scan = (\<lambda>_. [])\<rparr>"

lemma quiet_cvt: "cvt_ok (ev_cvt quiet_env)"
  by (simp add: cvt_ok_def quiet_env_def)

lemma boot_two_sys_wf: "sys_wf (sys_of boot_two)"
proof -
  have "no_dhcp (h_net boot_two)" by code_simp
  then show ?thesis by (intro sys_of_wf boot_two_wf)
qed

text \<open>
  C9: a command that is sent as text is carried out as it was meant. When the bytes of a printed command with valid
  values and a carriage return arrive, the channel performs the action with exactly these values, sends its reply and
  is ready for the next line. The conversion of numbers must be exact for the numbers that an \<open>int\<close> holds.
\<close>

theorem commands_read_back:
  assumes "cvt_ok (ev_cvt ev)" and "valid_command c" and "length (print_command c) < CMD_LINE_MAX"
    and "\<forall>ch \<in> set (print_command c). ch \<noteq> CHR 0x00 \<and> ch \<noteq> CHR 0x0d \<and> ch \<noteq> CHR 0x0a"
  shows "cmd_stream (line_bytes ev (print_command c) @ [(ev, 13)]) [] s =
    map_option (\<lambda>(out, s'). (out, [], s')) (run_command ev c s)"
proof -
  have "print_command c \<noteq> []" by (cases c) simp_all
  moreover have "cstr (take (CMD_LINE_MAX - 1) (print_command c)) = print_command c"
    using assms(3,4) by (simp add: cstr_def takeWhile_eq_all_conv)
  ultimately show ?thesis using stream_line [of "print_command c" ev s] run_printed [OF assms(1,2)] assms(4) by auto
qed

theorem commands_read_back_witness:
  "cmd_stream (line_bytes quiet_env ''SOCK OPEN 1 7'' @ [(quiet_env, 13)]) [] (sys_of boot_two) =
   map_option (\<lambda>(out, s'). (out, [], s')) (run_command quiet_env (Sock_open 1 7) (sys_of boot_two))"
proof -
  have p: "print_command (Sock_open 1 7) = ''SOCK OPEN 1 7''" by code_simp
  have v: "valid_command (Sock_open 1 7)" by (simp add: int_max_def)
  have "length ''SOCK OPEN 1 7'' < CMD_LINE_MAX"
    "\<forall>ch \<in> set ''SOCK OPEN 1 7''. ch \<noteq> CHR 0x00 \<and> ch \<noteq> CHR 0x0d \<and> ch \<noteq> CHR 0x0a" by code_simp+
  then show ?thesis using commands_read_back [OF quiet_cvt v, unfolded p] by simp
qed

text \<open>
  C21: every exit path of every command closes its frame. The reply to a line with a command of the protocol is one
  frame: a \<open>#BEGIN\<close> line with the name of the command, data lines that cannot be mistaken for the start or the end of a
  frame, and one \<open>#END\<close> line with the same name that reports success or the reason of the failure. Any other line is
  answered with \<open>#ERR unknown_command\<close> and changes nothing.
\<close>

theorem replies_framed:
  assumes "cmd_dispatch ev line s = Some (out, s')"
  shows "case reply_name line of Some name \<Rightarrow> framed name out | None \<Rightarrow> out = [''#ERR unknown_command'' @ crlf] \<and> s' = s"
  using assms by (rule dispatch_framed)

theorem replies_framed_witness:
  "framed ''PING'' (fst (the (cmd_dispatch quiet_env ''PING 9 10.0.0.5'' (sys_of boot_two))))"
proof -
  let ?r = "the (cmd_dispatch quiet_env ''PING 9 10.0.0.5'' (sys_of boot_two))"
  have d: "cmd_dispatch quiet_env ''PING 9 10.0.0.5'' (sys_of boot_two) \<noteq> None" by code_simp
  have n: "reply_name ''PING 9 10.0.0.5'' = Some ''PING''" by code_simp
  from d have "cmd_dispatch quiet_env ''PING 9 10.0.0.5'' (sys_of boot_two) = Some (fst ?r, snd ?r)" by auto
  from replies_framed [OF this] show ?thesis unfolding n by (simp only: option.case)
qed

text \<open>
  C22: a rejected command has no effect. When the reply reports bad arguments, a bad index, socket or field, or missing
  data, the frame has no data lines and the system is as it was.
\<close>

theorem rejected_no_effect:
  assumes "cmd_dispatch ev line s = Some (out, s')" and "reply_name line = Some name" and "reason \<in> set rejections"
    and "last out = end_err name reason"
  shows "out = [begin_line name, end_err name reason] \<and> s' = s"
  using dispatch_rejects [OF assms(1,2)] assms(3,4) by (auto simp: rejects_def fail_def)

theorem rejected_no_effect_witness:
  "snd (the (cmd_dispatch quiet_env ''SOCK OPEN 1 0'' (sys_of boot_two))) = sys_of boot_two"
proof -
  let ?r = "the (cmd_dispatch quiet_env ''SOCK OPEN 1 0'' (sys_of boot_two))"
  have d: "cmd_dispatch quiet_env ''SOCK OPEN 1 0'' (sys_of boot_two) \<noteq> None" by code_simp
  then have "cmd_dispatch quiet_env ''SOCK OPEN 1 0'' (sys_of boot_two) = Some (fst ?r, snd ?r)" by auto
  moreover have "reply_name ''SOCK OPEN 1 0'' = Some ''SOCKOPEN''" "''bad_args'' \<in> set rejections"
    "last (fst ?r) = end_err ''SOCKOPEN'' ''bad_args''" by code_simp+
  ultimately show ?thesis by (rule rejected_no_effect [THEN conjunct2])
qed

text \<open>
  C11: whatever bytes arrive, and whatever frames are received while commands wait, the line buffer is never overrun
  (it holds at most 127 bytes, so that the terminating zero has room) and the invariant of the system holds: every open
  socket has its control block and an interface that exists, every interface has a working driver, and the ARP table
  is well formed.
\<close>

theorem channel_invariant:
  assumes "cmd_stream inp buf s = Some (out, buf', s')" and "length buf < CMD_LINE_MAX" and "sys_wf s"
  shows "length buf' < CMD_LINE_MAX \<and> sys_wf s'"
  using assms by (rule stream_invariant)

theorem channel_invariant_witness:
  "sys_wf (snd (snd (the (cmd_stream (line_bytes quiet_env ''NETIF DEL 1'' @ [(quiet_env, 10)]) [] (sys_of boot_two)))))"
proof -
  let ?i = "line_bytes quiet_env ''NETIF DEL 1'' @ [(quiet_env, 10)]"
  let ?r = "the (cmd_stream ?i [] (sys_of boot_two))"
  have "cmd_stream ?i [] (sys_of boot_two) \<noteq> None" by code_simp
  then have "cmd_stream ?i [] (sys_of boot_two) = Some (fst ?r, fst (snd ?r), snd (snd ?r))" by auto
  from channel_invariant [OF this _ boot_two_sys_wf] show ?thesis by (simp add: CMD_LINE_MAX_def)
qed

text \<open>
  C25: no text is too long for the buffer of 96 bytes that it is printed to: every line of every reply is shorter, whatever
  the addresses, ports, times and numbers of interfaces and sockets are.
\<close>

theorem reply_lines_fit:
  assumes "sys_wf s" and "cmd_dispatch ev line s = Some (out, s')"
  shows "list_all (\<lambda>l. length l < 96) out"
  using dispatch_fits [OF assms] by (simp add: fits_def)

theorem reply_lines_fit_witness:
  "list_all (\<lambda>l. length l < 96) (fst (the (cmd_dispatch quiet_env ''NETIF LIST'' (sys_of boot_two))))"
proof -
  have "cmd_dispatch quiet_env ''NETIF LIST'' (sys_of boot_two) =
      Some (fst (cmd_netif_list (sys_of boot_two)), snd (cmd_netif_list (sys_of boot_two)))" by (simp add: cmd_dispatch_def)
  from reply_lines_fit [OF boot_two_sys_wf this] this show ?thesis by simp
qed

end
