(* ===== verification/Line_Editor.thy ===== *)
theory Line_Editor
  imports Lwip_Prelude
begin

text \<open>
  The line editor of the serial terminal (\<open>src/src/terminal_interface.c\<close>, \<open>fetch_input\<close> and \<open>read_choice_char\<close>): a fixed array
  that is edited in place with a cursor, by insertion, backspace, delete and the arrow keys. It is shown to implement
  an editor on two lists of characters, before and behind the cursor, never to leave the array, and to echo the text so
  that the terminal shows what the array holds.
\<close>

section \<open>The serial line\<close>

text \<open>
  The input from now on: \<open>Byte\<close> is a received byte and \<open>Idle\<close> is a moment without one. Only a test for a waiting byte
  sees \<open>Idle\<close>; a blocking read waits for the next byte, and \<open>None\<close> means that it waits forever.
\<close>

datatype key = Idle | Byte u8

fun flush :: "key list \<Rightarrow> key list" where
  "flush (Byte b # ks) = flush ks"
| "flush ks = ks"

fun sci_receive :: "key list \<Rightarrow> (u8 \<times> key list) option" where
  "sci_receive [] = None"
| "sci_receive (Idle # ks) = sci_receive ks"
| "sci_receive (Byte b # ks) = Some (b, ks)"

definition read_choice_char :: "key list \<Rightarrow> (u8 \<times> key list) option" where
  "read_choice_char ks = sci_receive (flush ks)"

section \<open>The editor on the array\<close>

record editor =
  ed_buf :: "u8 list"
  ed_len :: nat
  ed_pos :: nat

text \<open>\<open>for (i = i; i < stop; i++) buf[i] = buf[i + 1]\<close> and \<open>for (i = i; i > stop; i--) buf[i] = buf[i - 1]\<close>.\<close>

function shift_left :: "nat \<Rightarrow> nat \<Rightarrow> u8 list \<Rightarrow> u8 list" where
  "shift_left i stop buf = (if i < stop then shift_left (i + 1) stop (buf[i := buf ! (i + 1)]) else buf)"
  by auto
termination by (relation "measure (\<lambda>(i, stop, _). stop - i)") auto

fun shift_right :: "nat \<Rightarrow> nat \<Rightarrow> u8 list \<Rightarrow> u8 list" where
  "shift_right i stop buf = (if i > stop then shift_right (i - 1) stop (buf[i := buf ! (i - 1)]) else buf)"

declare shift_left.simps [simp del] shift_right.simps [simp del]

definition cursor_left :: u8 where "cursor_left = 8"
definition erase_eol :: "u8 list" where "erase_eol = [0x1b, 0x5b, 0x4b]"
definition cursor_right :: "u8 list" where "cursor_right = [0x1b, 0x5b, 0x43]"

text \<open>The tail behind the cursor, written again, and the cursor brought back.\<close>

definition redraw_tail :: "editor \<Rightarrow> u8 list" where
  "redraw_tail e = take (ed_len e - ed_pos e) (drop (ed_pos e) (ed_buf e)) @ replicate (ed_len e - ed_pos e) cursor_left"

definition ed_backspace :: "editor \<Rightarrow> u8 list \<times> editor" where
  "ed_backspace e =
     (if ed_pos e > 0 then
        (let e = e\<lparr>ed_buf := shift_left (ed_pos e - 1) (ed_len e - 1) (ed_buf e), ed_len := ed_len e - 1,
                   ed_pos := ed_pos e - 1\<rparr>
         in ([cursor_left] @ erase_eol @ redraw_tail e, e))
      else ([], e))"

definition ed_delete :: "editor \<Rightarrow> u8 list \<times> editor" where
  "ed_delete e =
     (if ed_pos e < ed_len e then
        (let e = e\<lparr>ed_buf := shift_left (ed_pos e) (ed_len e - 1) (ed_buf e), ed_len := ed_len e - 1\<rparr>
         in (erase_eol @ redraw_tail e, e))
      else ([], e))"

definition ed_insert :: "nat \<Rightarrow> u8 \<Rightarrow> editor \<Rightarrow> u8 list \<times> editor" where
  "ed_insert max_len ch e =
     (if ed_len e < max_len - 1 then
        (let e = e\<lparr>ed_buf := (shift_right (ed_len e) (ed_pos e) (ed_buf e))[ed_pos e := ch], ed_len := ed_len e + 1\<rparr>;
             out = take (ed_len e - ed_pos e) (drop (ed_pos e) (ed_buf e));
             e = e\<lparr>ed_pos := ed_pos e + 1\<rparr>
         in (out @ replicate (ed_len e - ed_pos e) cursor_left, e))
      else ([], e))"

text \<open>An escape sequence: \<open>ESC [ D\<close>, \<open>ESC [ C\<close>, \<open>ESC [ 3 ~\<close>, and others that are swallowed.\<close>

definition ed_escape :: "key list \<Rightarrow> editor \<Rightarrow> (u8 list \<times> editor \<times> key list) option" where
  "ed_escape ks e =
     (case sci_receive ks of
        None \<Rightarrow> None
      | Some (sq, ks) \<Rightarrow>
         if sq \<noteq> 0x5b then Some ([], e, ks)
         else
           (case sci_receive ks of
              None \<Rightarrow> None
            | Some (sq, ks) \<Rightarrow>
               if sq = 0x44 \<and> ed_pos e > 0 then Some ([cursor_left], e\<lparr>ed_pos := ed_pos e - 1\<rparr>, ks)
               else if sq = 0x43 \<and> ed_pos e < ed_len e then Some (cursor_right, e\<lparr>ed_pos := ed_pos e + 1\<rparr>, ks)
               else if sq = 0x33 then
                 (case sci_receive ks of
                    None \<Rightarrow> None
                  | Some (_, ks) \<Rightarrow> Some (fst (ed_delete e), snd (ed_delete e), ks))
               else if sq \<ge> 0x30 \<and> sq \<le> 0x39 then
                 (case sci_receive ks of None \<Rightarrow> None | Some (_, ks) \<Rightarrow> Some ([], e, ks))
               else Some ([], e, ks)))"

lemma sci_receive_shorter: "sci_receive ks = Some (b, ks') \<Longrightarrow> length ks' < length ks"
  by (induction ks rule: sci_receive.induct) auto

lemma ed_escape_shorter: "ed_escape ks e = Some (out, e', ks') \<Longrightarrow> length ks' < length ks"
  by (auto simp: ed_escape_def Let_def dest!: sci_receive_shorter split: option.splits if_splits prod.splits)

text \<open>One key after the other until Enter; the result has the echo, the array and the rest of the input.\<close>

function fetch_loop :: "nat \<Rightarrow> key list \<Rightarrow> editor \<Rightarrow> (u8 list \<times> editor \<times> key list) option" where
  "fetch_loop max_len ks e =
     (case sci_receive ks of
        None \<Rightarrow> None
      | Some (ch, ks') \<Rightarrow>
         if ch = 13 \<or> ch = 10 then Some ([13, 10], e, ks')
         else
           (case (if ch = 0x7f \<or> ch = 8 then Some (fst (ed_backspace e), snd (ed_backspace e), ks')
                  else if ch = 0x1b then ed_escape ks' e
                  else Some (fst (ed_insert max_len ch e), snd (ed_insert max_len ch e), ks')) of
              None \<Rightarrow> None
            | Some (out, e', ks'') \<Rightarrow> map_option (\<lambda>(outs, r). (out @ outs, r)) (fetch_loop max_len ks'' e')))"
  by pat_completeness auto
termination
  by (relation "measure (\<lambda>(_, ks, _). length ks)")
    (auto dest!: sci_receive_shorter ed_escape_shorter split: if_splits)

declare fetch_loop.simps [simp del]

definition fetch_input :: "u8 list \<Rightarrow> nat \<Rightarrow> key list \<Rightarrow> (u8 list \<times> u8 list \<times> key list) option" where
  "fetch_input buf max_len ks =
     (case fetch_loop max_len (flush ks) \<lparr>ed_buf = buf, ed_len = 0, ed_pos = 0\<rparr> of
        None \<Rightarrow> None
      | Some (out, e, ks) \<Rightarrow> Some (out, (ed_buf e)[ed_len e := 0], ks))"

section \<open>The editor on two lists\<close>

text \<open>The characters before the cursor and those from the cursor on.\<close>

type_synonym zipper = "u8 list \<times> u8 list"

fun z_backspace :: "zipper \<Rightarrow> zipper" where "z_backspace (l, r) = (butlast l, r)"
fun z_delete :: "zipper \<Rightarrow> zipper" where "z_delete (l, r) = (l, tl r)"
fun z_insert :: "u8 \<Rightarrow> zipper \<Rightarrow> zipper" where "z_insert c (l, r) = (l @ [c], r)"
fun z_left :: "zipper \<Rightarrow> zipper" where "z_left (l, r) = (if l = [] then (l, r) else (butlast l, last l # r))"
fun z_right :: "zipper \<Rightarrow> zipper" where "z_right (l, r) = (if r = [] then (l, r) else (l @ [hd r], tl r))"

definition z_text :: "zipper \<Rightarrow> u8 list" where "z_text z = fst z @ snd z"

text \<open>The meaning of the bytes up to Enter: the text and the bytes that follow.\<close>

fun edit_line :: "nat \<Rightarrow> u8 list \<Rightarrow> zipper \<Rightarrow> (u8 list \<times> u8 list) option" where
  "edit_line max_len [] z = None"
| "edit_line max_len (b # rest) z =
     (if b = 13 \<or> b = 10 then Some (z_text z, rest)
      else if b = 0x7f \<or> b = 8 then edit_line max_len rest (z_backspace z)
      else if b = 0x1b then
        (case rest of
           [] \<Rightarrow> None
         | c # rest \<Rightarrow>
            if c \<noteq> 0x5b then edit_line max_len rest z
            else
              (case rest of
                 [] \<Rightarrow> None
               | d # rest \<Rightarrow>
                  if d = 0x44 then edit_line max_len rest (z_left z)
                  else if d = 0x43 then edit_line max_len rest (z_right z)
                  else if d \<ge> 0x30 \<and> d \<le> 0x39 then
                    (case rest of
                       [] \<Rightarrow> None
                     | _ # rest \<Rightarrow> edit_line max_len rest (if d = 0x33 then z_delete z else z))
                  else edit_line max_len rest z))
      else edit_line max_len rest (if length (z_text z) < max_len - 1 then z_insert b z else z))"

declare edit_line.simps [simp del]

fun received :: "key list \<Rightarrow> u8 list" where
  "received [] = []"
| "received (Idle # ks) = received ks"
| "received (Byte b # ks) = b # received ks"

lemma sci_receive_received:
  "(case sci_receive ks of None \<Rightarrow> received ks = [] | Some (b, ks') \<Rightarrow> received ks = b # received ks')"
  by (induction ks rule: sci_receive.induct) (auto split: option.splits)

lemma sci_receive_None: "sci_receive ks = None \<longleftrightarrow> received ks = []"
  using sci_receive_received [of ks] by (auto split: option.splits)

lemma sci_receive_Some: "sci_receive ks = Some (b, ks') \<Longrightarrow> received ks = b # received ks'"
  using sci_receive_received [of ks] by simp

section \<open>Refinement\<close>

definition z_of :: "editor \<Rightarrow> zipper" where
  "z_of e = (take (ed_pos e) (ed_buf e), take (ed_len e - ed_pos e) (drop (ed_pos e) (ed_buf e)))"

definition ed_wf :: "nat \<Rightarrow> editor \<Rightarrow> bool" where
  "ed_wf max_len e \<longleftrightarrow> length (ed_buf e) = max_len \<and> ed_pos e \<le> ed_len e \<and> ed_len e < max_len"

lemma z_text_of: "ed_wf m e \<Longrightarrow> z_text (z_of e) = take (ed_len e) (ed_buf e)"
  by (simp add: z_text_def z_of_def ed_wf_def take_add [symmetric])

lemma length_z_of: "ed_wf m e \<Longrightarrow> length (fst (z_of e)) = ed_pos e" "ed_wf m e \<Longrightarrow> length (snd (z_of e)) = ed_len e - ed_pos e"
  by (auto simp: z_of_def ed_wf_def)

text \<open>The loops move a block of the array by one place.\<close>

lemma shift_left_nth:
  "stop < length buf \<Longrightarrow> length (shift_left i stop buf) = length buf \<and>
   (\<forall>k < length buf. shift_left i stop buf ! k = (if i \<le> k \<and> k < stop then buf ! (k + 1) else buf ! k))"
proof (induction i stop buf rule: shift_left.induct)
  case (1 i stop buf)
  show ?case
  proof (cases "i < stop")
    case True
    from "1.IH" [OF True] "1.prems" show ?thesis
      using True by (subst (1 2) shift_left.simps) (auto simp: nth_list_update le_antisym not_less_eq_eq)
  qed (subst (1 2) shift_left.simps, auto)
qed

lemma shift_right_nth:
  "i < length buf \<Longrightarrow> length (shift_right i stop buf) = length buf \<and>
   (\<forall>k < length buf. shift_right i stop buf ! k = (if stop < k \<and> k \<le> i then buf ! (k - 1) else buf ! k))"
proof (induction i stop buf rule: shift_right.induct)
  case (1 i stop buf)
  show ?case
  proof (cases "stop < i")
    case True
    from "1.IH" [OF True] "1.prems" show ?thesis
      using True by (subst (1 2) shift_right.simps) (auto simp: nth_list_update)
  qed (subst (1 2) shift_right.simps, auto)
qed

lemma backspace_refines:
  assumes "ed_wf m e"
  shows "ed_wf m (snd (ed_backspace e))" "z_of (snd (ed_backspace e)) = z_backspace (z_of e)"
proof -
  let ?b = "shift_left (ed_pos e - 1) (ed_len e - 1) (ed_buf e)"
  have len: "length (ed_buf e) = m" "ed_pos e \<le> ed_len e" "ed_len e < m" using assms by (simp_all add: ed_wf_def)
  have b: "length ?b = m" "\<forall>k < m. ?b ! k = (if ed_pos e - 1 \<le> k \<and> k < ed_len e - 1 then ed_buf e ! (k + 1) else ed_buf e ! k)"
    using shift_left_nth [of "ed_len e - 1" "ed_buf e" "ed_pos e - 1"] len by simp_all
  show "ed_wf m (snd (ed_backspace e))" using len b(1) by (auto simp: ed_backspace_def ed_wf_def Let_def)
  show "z_of (snd (ed_backspace e)) = z_backspace (z_of e)"
  proof (cases "ed_pos e = 0")
    case True
    then show ?thesis by (simp add: ed_backspace_def z_of_def)
  next
    case False
    have "take (ed_pos e - 1) ?b = butlast (take (ed_pos e) (ed_buf e))"
      using len b False by (auto simp: list_eq_iff_nth_eq nth_butlast)
    moreover have "take (ed_len e - ed_pos e) (drop (ed_pos e - 1) ?b) = take (ed_len e - ed_pos e) (drop (ed_pos e) (ed_buf e))"
      using len b False by (auto simp: list_eq_iff_nth_eq)
    ultimately show ?thesis using False len by (simp add: ed_backspace_def z_of_def Let_def)
  qed
qed

lemma delete_refines:
  assumes "ed_wf m e"
  shows "ed_wf m (snd (ed_delete e))" "z_of (snd (ed_delete e)) = z_delete (z_of e)"
proof -
  let ?b = "shift_left (ed_pos e) (ed_len e - 1) (ed_buf e)"
  have len: "length (ed_buf e) = m" "ed_pos e \<le> ed_len e" "ed_len e < m" using assms by (simp_all add: ed_wf_def)
  have b: "length ?b = m" "\<forall>k < m. ?b ! k = (if ed_pos e \<le> k \<and> k < ed_len e - 1 then ed_buf e ! (k + 1) else ed_buf e ! k)"
    using shift_left_nth [of "ed_len e - 1" "ed_buf e" "ed_pos e"] len by simp_all
  show "ed_wf m (snd (ed_delete e))" using len b(1) by (auto simp: ed_delete_def ed_wf_def Let_def)
  show "z_of (snd (ed_delete e)) = z_delete (z_of e)"
  proof (cases "ed_pos e < ed_len e")
    case True
    have "take (ed_pos e) ?b = take (ed_pos e) (ed_buf e)"
      using len b True by (auto simp: list_eq_iff_nth_eq)
    moreover have "take (ed_len e - 1 - ed_pos e) (drop (ed_pos e) ?b) = tl (take (ed_len e - ed_pos e) (drop (ed_pos e) (ed_buf e)))"
      using len b True by (auto simp: list_eq_iff_nth_eq nth_tl)
    ultimately show ?thesis using True by (simp add: ed_delete_def z_of_def Let_def)
  qed (use len in \<open>simp add: ed_delete_def z_of_def\<close>)
qed

lemma insert_refines:
  assumes "ed_wf m e"
  shows "ed_wf m (snd (ed_insert m c e))"
    "z_of (snd (ed_insert m c e)) = (if length (z_text (z_of e)) < m - 1 then z_insert c (z_of e) else z_of e)"
proof -
  define B where "B = (shift_right (ed_len e) (ed_pos e) (ed_buf e))[ed_pos e := c]"
  have len: "length (ed_buf e) = m" "ed_pos e \<le> ed_len e" "ed_len e < m" using assms by (simp_all add: ed_wf_def)
  have b: "length B = m" "\<forall>k < m. B ! k = (if k = ed_pos e then c else if ed_pos e < k \<and> k \<le> ed_len e then ed_buf e ! (k - 1) else ed_buf e ! k)"
    using shift_right_nth [of "ed_len e" "ed_buf e" "ed_pos e"] len by (auto simp: B_def nth_list_update)
  have tx: "length (z_text (z_of e)) = ed_len e" using z_text_of [OF assms] len by simp
  show "ed_wf m (snd (ed_insert m c e))" using len b(1) by (auto simp: ed_insert_def ed_wf_def Let_def B_def)
  show "z_of (snd (ed_insert m c e)) = (if length (z_text (z_of e)) < m - 1 then z_insert c (z_of e) else z_of e)"
  proof (cases "ed_len e < m - 1")
    case True
    have "take (ed_pos e + 1) B = take (ed_pos e) (ed_buf e) @ [c]"
      using len b True by (auto simp: list_eq_iff_nth_eq nth_append)
    moreover have "take (ed_len e - ed_pos e) (drop (ed_pos e + 1) B) = take (ed_len e - ed_pos e) (drop (ed_pos e) (ed_buf e))"
      using len b True by (auto simp: list_eq_iff_nth_eq)
    ultimately show ?thesis using True tx by (simp add: ed_insert_def z_of_def Let_def B_def)
  qed (simp add: ed_insert_def tx)
qed

section \<open>What the terminal shows\<close>

text \<open>
  The line of a terminal from the start of the input: its characters and the cursor. Backspace and \<open>ESC [ C\<close> move the
  cursor, \<open>ESC [ K\<close> erases from the cursor on, and every other byte is shown as one character.
\<close>

type_synonym screen = "u8 list \<times> nat"

fun show_char :: "u8 \<Rightarrow> screen \<Rightarrow> screen" where
  "show_char b (cells, col) = (take col cells @ [b] @ drop (col + 1) cells, col + 1)"

fun terminal :: "u8 list \<Rightarrow> screen \<Rightarrow> screen" where
  "terminal [] s = s"
| "terminal (b # rest) s =
     (if b = 8 then terminal rest (fst s, snd s - 1)
      else if b = 0x1b then
        (case rest of
           c # d # rest \<Rightarrow>
             terminal rest
               (if c = 0x5b \<and> d = 0x4b then (take (snd s) (fst s), snd s)
                else if c = 0x5b \<and> d = 0x43 then (fst s, min (length (fst s)) (snd s + 1))
                else s)
         | _ \<Rightarrow> s)
      else terminal rest (show_char b s))"

declare terminal.simps [simp del]

definition plain :: "u8 list \<Rightarrow> bool" where
  "plain cs \<longleftrightarrow> 8 \<notin> set cs \<and> 0x1b \<notin> set cs"

lemma terminal_plain:
  "plain cs \<Longrightarrow> terminal (cs @ out) (pre, length pre) = terminal out (pre @ cs, length (pre @ cs))"
proof (induction cs arbitrary: pre)
  case (Cons c cs)
  then have "terminal ((c # cs) @ out) (pre, length pre) = terminal (cs @ out) (pre @ [c], length (pre @ [c]))"
    by (simp add: plain_def) (subst terminal.simps, simp)
  with Cons.IH [of "pre @ [c]"] Cons.prems show ?case by (simp add: plain_def)
qed simp

lemma terminal_overwrite:
  "plain cs \<Longrightarrow> length cs \<ge> length old \<Longrightarrow>
   terminal (cs @ out) (pre @ old, length pre) = terminal out (pre @ cs, length (pre @ cs))"
proof (induction cs arbitrary: pre old)
  case (Cons c cs)
  have "terminal ((c # cs) @ out) (pre @ old, length pre) = terminal (cs @ out) ((pre @ [c]) @ tl old, length (pre @ [c]))"
    using Cons.prems by (simp add: plain_def drop_Suc) (subst terminal.simps, simp add: drop_Suc)
  with Cons.IH [of "tl old" "pre @ [c]"] Cons.prems show ?case by (simp add: plain_def)
qed simp

lemma terminal_back:
  "n \<le> col \<Longrightarrow> terminal (replicate n cursor_left @ out) (cells, col) = terminal out (cells, col - n)"
proof (induction n arbitrary: col)
  case (Suc n)
  then show ?case by (simp add: cursor_left_def) (subst terminal.simps, simp)
qed simp

lemma terminal_erase: "terminal (erase_eol @ out) (cells, col) = terminal out (take col cells, col)"
  by (simp add: erase_eol_def) (subst terminal.simps, simp)

lemma terminal_right: "terminal (cursor_right @ out) (cells, col) = terminal out (cells, min (length cells) (col + 1))"
  by (simp add: cursor_right_def) (subst terminal.simps, simp)

lemma terminal_left: "terminal (cursor_left # out) (cells, col) = terminal out (cells, col - 1)"
  by (simp add: cursor_left_def) (subst terminal.simps, simp)

text \<open>The terminal shows the text, with its cursor at the cursor of the editor.\<close>

definition screen_of :: "zipper \<Rightarrow> screen" where
  "screen_of z = (z_text z, length (fst z))"

lemma redraw_shows:
  assumes "ed_wf m e" and "plain (snd (z_of e))"
  shows "terminal (redraw_tail e @ out) (fst (z_of e), ed_pos e) = terminal out (screen_of (z_of e))"
proof -
  have "terminal (snd (z_of e) @ replicate (ed_len e - ed_pos e) cursor_left @ out) (fst (z_of e), length (fst (z_of e))) =
      terminal (replicate (ed_len e - ed_pos e) cursor_left @ out) (z_text (z_of e), length (z_text (z_of e)))"
    using terminal_plain [OF assms(2)] by (simp add: z_text_def)
  also have "\<dots> = terminal out (z_text (z_of e), length (z_text (z_of e)) - (ed_len e - ed_pos e))"
    using length_z_of [OF assms(1)] by (intro terminal_back) (simp add: z_text_def)
  finally show ?thesis
    using length_z_of [OF assms(1)] by (simp add: redraw_tail_def screen_of_def z_text_def) (simp add: z_of_def)
qed

lemma backspace_shows:
  assumes "ed_wf m e" and "plain (z_text (z_of e))"
  shows "terminal (fst (ed_backspace e) @ out) (screen_of (z_of e)) = terminal out (screen_of (z_of (snd (ed_backspace e))))"
proof (cases "ed_pos e = 0")
  case True
  then show ?thesis by (simp add: ed_backspace_def)
next
  case False
  let ?e = "snd (ed_backspace e)"
  note r = backspace_refines [OF assms(1)]
  have f: "fst (ed_backspace e) = [cursor_left] @ erase_eol @ redraw_tail ?e" "ed_pos ?e = ed_pos e - 1"
    using False by (simp_all add: ed_backspace_def Let_def)
  obtain l rt where z: "z_of e = (l, rt)" by (cases "z_of e")
  have l: "length l = ed_pos e" using length_z_of(1) [OF assms(1)] z by simp
  have pl: "plain (snd (z_of ?e))" using assms(2) r(2) z by (simp add: z_text_def plain_def)
  have "terminal (fst (ed_backspace e) @ out) (screen_of (z_of e)) =
      terminal (redraw_tail ?e @ out) (take (ed_pos e - 1) (l @ rt), ed_pos e - 1)"
    using l by (simp add: f(1) terminal_left terminal_erase screen_of_def z z_text_def)
  also have "take (ed_pos e - 1) (l @ rt) = fst (z_of ?e)"
    using l False by (simp add: r(2) z butlast_conv_take)
  finally show ?thesis using redraw_shows [OF r(1) pl] f(2) by simp
qed

lemma delete_shows:
  assumes "ed_wf m e" and "plain (z_text (z_of e))"
  shows "terminal (fst (ed_delete e) @ out) (screen_of (z_of e)) = terminal out (screen_of (z_of (snd (ed_delete e))))"
proof (cases "ed_pos e < ed_len e")
  case False
  then show ?thesis by (simp add: ed_delete_def)
next
  case True
  let ?e = "snd (ed_delete e)"
  note r = delete_refines [OF assms(1)]
  have f: "fst (ed_delete e) = erase_eol @ redraw_tail ?e" "ed_pos ?e = ed_pos e"
    using True by (simp_all add: ed_delete_def Let_def)
  obtain l rt where z: "z_of e = (l, rt)" by (cases "z_of e")
  have l: "length l = ed_pos e" using length_z_of(1) [OF assms(1)] z by simp
  have pl: "plain (snd (z_of ?e))" using assms(2) r(2) z by (cases rt) (simp_all add: z_text_def plain_def)
  have "terminal (fst (ed_delete e) @ out) (screen_of (z_of e)) = terminal (redraw_tail ?e @ out) (l, ed_pos e)"
    using l by (simp add: f(1) terminal_erase screen_of_def z z_text_def)
  with redraw_shows [OF r(1) pl] f(2) show ?thesis by (simp add: r(2) z)
qed

lemma insert_shows:
  assumes "ed_wf m e" and "plain (z_text (z_of e))" and "plain [c]"
  shows "terminal (fst (ed_insert m c e) @ out) (screen_of (z_of e)) = terminal out (screen_of (z_of (snd (ed_insert m c e))))"
proof (cases "ed_len e < m - 1")
  case False
  then show ?thesis by (simp add: ed_insert_def)
next
  case True
  let ?e = "snd (ed_insert m c e)"
  note r = insert_refines [OF assms(1), of c]
  obtain l rt where z: "z_of e = (l, rt)" by (cases "z_of e")
  have l: "length l = ed_pos e" "length rt = ed_len e - ed_pos e" using length_z_of [OF assms(1)] z by simp_all
  have pos: "ed_pos e \<le> ed_len e" using assms(1) by (simp add: ed_wf_def)
  have z': "z_of ?e = (l @ [c], rt)" using r(2) True z l pos by (simp add: z_text_def)
  have p: "ed_pos ?e = ed_pos e + 1" "ed_len ?e = ed_len e + 1" using True by (simp_all add: ed_insert_def Let_def)
  have out: "fst (ed_insert m c e) = c # rt @ replicate (length rt) cursor_left"
  proof -
    have w: "ed_wf m ?e" by (rule r(1))
    have "take (ed_len e + 1 - ed_pos e) (drop (ed_pos e) (ed_buf ?e)) = drop (ed_pos e) (take (ed_len ?e) (ed_buf ?e))"
      by (simp add: drop_take p)
    also have "\<dots> = c # rt" using l z' by (simp add: z_text_of [OF w, symmetric] z_text_def)
    finally show ?thesis using True l by (simp add: ed_insert_def Let_def)
  qed
  have pl: "plain (c # rt)" using assms(2,3) z by (auto simp: plain_def z_text_def)
  have "terminal ((c # rt) @ replicate (length rt) cursor_left @ out) (l @ rt, length l) =
      terminal (replicate (length rt) cursor_left @ out) (l @ c # rt, length (l @ c # rt))"
    by (rule terminal_overwrite [OF pl]) simp
  also have "\<dots> = terminal out (l @ c # rt, length (l @ c # rt) - length rt)" by (rule terminal_back) simp
  finally show ?thesis by (simp add: out z z' screen_of_def z_text_def)
qed

lemma left_refines:
  assumes "ed_wf m e" and "0 < ed_pos e"
  shows "ed_wf m (e\<lparr>ed_pos := ed_pos e - 1\<rparr>)" "z_of (e\<lparr>ed_pos := ed_pos e - 1\<rparr>) = z_left (z_of e)"
proof -
  have len: "length (ed_buf e) = m" "ed_pos e \<le> ed_len e" "ed_len e < m" using assms(1) by (simp_all add: ed_wf_def)
  show "ed_wf m (e\<lparr>ed_pos := ed_pos e - 1\<rparr>)" using len by (simp add: ed_wf_def)
  obtain k where k: "ed_pos e = Suc k" using assms(2) by (cases "ed_pos e") auto
  have "take (Suc k) (ed_buf e) = take k (ed_buf e) @ [ed_buf e ! k]" using len k by (simp add: take_Suc_conv_app_nth)
  moreover have "drop k (ed_buf e) = ed_buf e ! k # drop (Suc k) (ed_buf e)" using len k by (simp add: Cons_nth_drop_Suc)
  moreover have "ed_len e - k = Suc (ed_len e - Suc k)" using len k by simp
  ultimately show "z_of (e\<lparr>ed_pos := ed_pos e - 1\<rparr>) = z_left (z_of e)" by (simp add: z_of_def k)
qed

lemma right_refines:
  assumes "ed_wf m e" and "ed_pos e < ed_len e"
  shows "ed_wf m (e\<lparr>ed_pos := ed_pos e + 1\<rparr>)" "z_of (e\<lparr>ed_pos := ed_pos e + 1\<rparr>) = z_right (z_of e)"
proof -
  have len: "length (ed_buf e) = m" "ed_len e < m" using assms(1) by (simp_all add: ed_wf_def)
  let ?k = "ed_pos e"
  show "ed_wf m (e\<lparr>ed_pos := ed_pos e + 1\<rparr>)" using len assms(2) by (simp add: ed_wf_def)
  have "take (Suc ?k) (ed_buf e) = take ?k (ed_buf e) @ [ed_buf e ! ?k]" using len assms(2) by (simp add: take_Suc_conv_app_nth)
  moreover have "drop ?k (ed_buf e) = ed_buf e ! ?k # drop (Suc ?k) (ed_buf e)" using len assms(2) by (simp add: Cons_nth_drop_Suc)
  moreover have "ed_len e - ?k = Suc (ed_len e - Suc ?k)" using assms(2) by simp
  ultimately show "z_of (e\<lparr>ed_pos := ed_pos e + 1\<rparr>) = z_right (z_of e)" by (simp add: z_of_def)
qed

lemma plain_moves:
  "plain (z_text z) \<Longrightarrow> plain (z_text (z_left z))" "plain (z_text z) \<Longrightarrow> plain (z_text (z_right z))"
  "plain (z_text z) \<Longrightarrow> plain (z_text (z_backspace z))" "plain (z_text z) \<Longrightarrow> plain (z_text (z_delete z))"
  "plain (z_text z) \<Longrightarrow> plain [c] \<Longrightarrow> plain (z_text (z_insert c z))"
proof -
  obtain l r where z: "z = (l, r)" by (cases z)
  show "plain (z_text z) \<Longrightarrow> plain (z_text (z_left z))" by (cases l rule: rev_cases) (auto simp: z z_text_def plain_def)
  show "plain (z_text z) \<Longrightarrow> plain (z_text (z_right z))" by (cases r) (auto simp: z z_text_def plain_def)
  show "plain (z_text z) \<Longrightarrow> plain (z_text (z_backspace z))" by (cases l rule: rev_cases) (auto simp: z z_text_def plain_def)
  show "plain (z_text z) \<Longrightarrow> plain (z_text (z_delete z))" by (cases r) (auto simp: z z_text_def plain_def)
  show "plain (z_text z) \<Longrightarrow> plain [c] \<Longrightarrow> plain (z_text (z_insert c z))" by (auto simp: z z_text_def plain_def)
qed

text \<open>One key refines a step of the abstract editor and keeps the terminal in step with the text.\<close>

definition key_ok :: "nat \<Rightarrow> editor \<Rightarrow> u8 list \<Rightarrow> editor \<Rightarrow> zipper \<Rightarrow> bool" where
  "key_ok m e out e' z' \<longleftrightarrow> ed_wf m e' \<and> z_of e' = z' \<and> plain (z_text z') \<and>
     (\<forall>rest. terminal (out @ rest) (screen_of (z_of e)) = terminal rest (screen_of z'))"

lemma key_ok_ops:
  assumes "ed_wf m e" and "plain (z_text (z_of e))"
  shows "key_ok m e [] e (z_of e)"
    "key_ok m e (fst (ed_backspace e)) (snd (ed_backspace e)) (z_backspace (z_of e))"
    "key_ok m e (fst (ed_delete e)) (snd (ed_delete e)) (z_delete (z_of e))"
    "plain [c] \<Longrightarrow> key_ok m e (fst (ed_insert m c e)) (snd (ed_insert m c e))
       (if length (z_text (z_of e)) < m - 1 then z_insert c (z_of e) else z_of e)"
    "0 < ed_pos e \<Longrightarrow> key_ok m e [cursor_left] (e\<lparr>ed_pos := ed_pos e - 1\<rparr>) (z_left (z_of e))"
    "ed_pos e < ed_len e \<Longrightarrow> key_ok m e cursor_right (e\<lparr>ed_pos := ed_pos e + 1\<rparr>) (z_right (z_of e))"
proof -
  note bs = backspace_refines [OF assms(1)] backspace_shows [OF assms]
    and dl = delete_refines [OF assms(1)] delete_shows [OF assms]
  show "key_ok m e [] e (z_of e)" using assms by (simp add: key_ok_def)
  show "key_ok m e (fst (ed_backspace e)) (snd (ed_backspace e)) (z_backspace (z_of e))"
    using bs plain_moves(3) [OF assms(2)] by (simp add: key_ok_def)
  show "key_ok m e (fst (ed_delete e)) (snd (ed_delete e)) (z_delete (z_of e))"
    using dl plain_moves(4) [OF assms(2)] by (simp add: key_ok_def)
  show "plain [c] \<Longrightarrow> key_ok m e (fst (ed_insert m c e)) (snd (ed_insert m c e))
       (if length (z_text (z_of e)) < m - 1 then z_insert c (z_of e) else z_of e)"
    using insert_refines [OF assms(1), of c] insert_shows [OF assms, of c] plain_moves(5) [OF assms(2)] assms(2)
    by (simp add: key_ok_def)
  show "0 < ed_pos e \<Longrightarrow> key_ok m e [cursor_left] (e\<lparr>ed_pos := ed_pos e - 1\<rparr>) (z_left (z_of e))"
  proof -
    assume p: "0 < ed_pos e"
    obtain l r where z: "z_of e = (l, r)" by (cases "z_of e")
    have "l \<noteq> []" using length_z_of(1) [OF assms(1)] p z by auto
    then show ?thesis using left_refines [OF assms(1) p] plain_moves(1) [OF assms(2)]
      by (cases l rule: rev_cases) (simp_all add: key_ok_def terminal_left screen_of_def z z_text_def)
  qed
  show "ed_pos e < ed_len e \<Longrightarrow> key_ok m e cursor_right (e\<lparr>ed_pos := ed_pos e + 1\<rparr>) (z_right (z_of e))"
  proof -
    assume p: "ed_pos e < ed_len e"
    obtain l r where z: "z_of e = (l, r)" by (cases "z_of e")
    have "r \<noteq> []" using length_z_of(2) [OF assms(1)] p z by auto
    then show ?thesis using right_refines [OF assms(1) p] plain_moves(2) [OF assms(2)]
      by (cases r) (simp_all add: key_ok_def terminal_right screen_of_def z z_text_def min_def)
  qed
qed

lemma escape_refines:
  assumes "ed_wf m e" and "plain (z_text (z_of e))"
  shows "case ed_escape ks e of
      None \<Rightarrow> edit_line m (0x1b # received ks) (z_of e) = None
    | Some (out, e', ks') \<Rightarrow>
        \<exists>z'. key_ok m e out e' z' \<and> edit_line m (0x1b # received ks) (z_of e) = edit_line m (received ks') z'"
proof -
  note ok = key_ok_ops [OF assms]
  have stay: "ed_pos e = 0 \<Longrightarrow> z_left (z_of e) = z_of e" "\<not> ed_pos e < ed_len e \<Longrightarrow> z_right (z_of e) = z_of e"
    by (simp_all add: z_of_def)
  note line = edit_line.simps(2) [of m "0x1b" "received ks" "z_of e"] and split_paired_Ex [simp del]
  show ?thesis
  proof (cases "sci_receive ks")
    case None
    then have "received ks = []" by (simp add: sci_receive_None)
    with None line show ?thesis by (simp add: ed_escape_def)
  next
    case 1: (Some a)
    obtain sq ks1 where a: "a = (sq, ks1)" by (cases a)
    note rec1 = sci_receive_Some [OF 1 [unfolded a]]
    consider (other) "sq \<noteq> 0x5b" | (wait) "sq = 0x5b" "sci_receive ks1 = None" | (full) "sq = 0x5b" "sci_receive ks1 \<noteq> None"
      by blast
    then show ?thesis
    proof cases
      case other
      have "edit_line m (0x1b # received ks) (z_of e) = edit_line m (received ks1) (z_of e)"
        unfolding line using other by (simp add: rec1)
      with other 1 a ok(1) show ?thesis by (auto simp: ed_escape_def)
    next
      case wait
      then have "received ks1 = []" by (simp add: sci_receive_None)
      with wait 1 a rec1 line show ?thesis by (simp add: ed_escape_def)
    next
      case full
      then obtain d ks2 where 2: "sci_receive ks1 = Some (d, ks2)" by auto
      note rec2 = sci_receive_Some [OF 2]
      have esc: "ed_escape ks e =
         (if d = 0x44 \<and> ed_pos e > 0 then Some ([cursor_left], e\<lparr>ed_pos := ed_pos e - 1\<rparr>, ks2)
          else if d = 0x43 \<and> ed_pos e < ed_len e then Some (cursor_right, e\<lparr>ed_pos := ed_pos e + 1\<rparr>, ks2)
          else if d = 0x33 then
            (case sci_receive ks2 of None \<Rightarrow> None | Some (_, ks) \<Rightarrow> Some (fst (ed_delete e), snd (ed_delete e), ks))
          else if d \<ge> 0x30 \<and> d \<le> 0x39 then (case sci_receive ks2 of None \<Rightarrow> None | Some (_, ks) \<Rightarrow> Some ([], e, ks))
          else Some ([], e, ks2))"
        using 1 a full(1) 2 by (simp add: ed_escape_def)
      have ln: "edit_line m (0x1b # received ks) (z_of e) =
         (if d = 0x44 then edit_line m (received ks2) (z_left (z_of e))
          else if d = 0x43 then edit_line m (received ks2) (z_right (z_of e))
          else if d \<ge> 0x30 \<and> d \<le> 0x39 then
            (case received ks2 of [] \<Rightarrow> None | _ # rest \<Rightarrow> edit_line m rest (if d = 0x33 then z_delete (z_of e) else z_of e))
          else edit_line m (received ks2) (z_of e))"
        unfolding line using full(1) by (simp add: rec1 rec2)
      consider (left) "d = 0x44" | (right) "d = 0x43" | (digit) "d \<ge> 0x30 \<and> d \<le> 0x39" "d \<noteq> 0x44" "d \<noteq> 0x43"
        | (other) "\<not> (d \<ge> 0x30 \<and> d \<le> 0x39)" "d \<noteq> 0x44" "d \<noteq> 0x43" by blast
      then show ?thesis
      proof cases
        case left
        then show ?thesis unfolding esc ln using ok(1,5) stay(1) by (cases "ed_pos e = 0") auto
      next
        case right
        then show ?thesis unfolding esc ln using ok(1,6) stay(2) by (cases "ed_pos e < ed_len e") auto
      next
        case digit
        show ?thesis
        proof (cases "sci_receive ks2")
          case None
          then have "received ks2 = []" by (simp add: sci_receive_None)
          then show ?thesis unfolding esc ln using digit None by simp
        next
          case (Some b)
          obtain x ks3 where "b = (x, ks3)" by (cases b)
          with Some have 3: "sci_receive ks2 = Some (x, ks3)" by simp
          show ?thesis unfolding esc ln using digit ok(1,3) by (simp add: 3 sci_receive_Some [OF 3]) blast
        qed
      next
        case other
        then have "d \<noteq> 0x33" by auto
        with other show ?thesis unfolding esc ln using ok(1) by auto
      qed
    qed
  qed
qed

lemma fetch_loop_edits:
  assumes "ed_wf m e" and "plain (z_text (z_of e))"
  shows "case fetch_loop m ks e of
      None \<Rightarrow> edit_line m (received ks) (z_of e) = None
    | Some (out, e', ks') \<Rightarrow> ed_wf m e' \<and> edit_line m (received ks) (z_of e) = Some (z_text (z_of e'), received ks') \<and>
        (\<exists>echo. out = echo @ [13, 10] \<and> terminal echo (screen_of (z_of e)) = screen_of (z_of e'))"
  using assms
proof (induction m ks e rule: fetch_loop.induct)
  case (1 m ks e)
  note ok = key_ok_ops [OF "1.prems"] and split_paired_Ex [simp del]
  show ?case
  proof (cases "sci_receive ks")
    case None
    then have "received ks = []" by (simp add: sci_receive_None)
    with None show ?thesis by (subst fetch_loop.simps) (simp add: edit_line.simps)
  next
    case (Some a)
    obtain ch ks1 where a: "a = (ch, ks1)" by (cases a)
    note rec = sci_receive_Some [OF Some [unfolded a]]
    show ?thesis
    proof (cases "ch = 13 \<or> ch = 10")
      case True
      with Some a rec "1.prems"(1) show ?thesis by (subst fetch_loop.simps) (auto simp: edit_line.simps terminal.simps)
    next
      case enter: False
      let ?step = "if ch = 0x7f \<or> ch = 8 then Some (fst (ed_backspace e), snd (ed_backspace e), ks1)
                  else if ch = 0x1b then ed_escape ks1 e
                  else Some (fst (ed_insert m ch e), snd (ed_insert m ch e), ks1)"
      have step: "case ?step of None \<Rightarrow> edit_line m (received ks) (z_of e) = None
        | Some (out, e', ks') \<Rightarrow> \<exists>z'. key_ok m e out e' z' \<and> edit_line m (received ks) (z_of e) = edit_line m (received ks') z'"
      proof -
        consider "ch = 0x7f \<or> ch = 8" | "ch = 0x1b" | "ch \<noteq> 0x7f" "ch \<noteq> 8" "ch \<noteq> 0x1b" by blast
        then show ?thesis
        proof cases
          case 1
          with ok(2) enter show ?thesis by (auto simp: rec edit_line.simps)
        next
          case 2
          then have rec': "received ks = 0x1b # received ks1" by (simp add: rec)
          show ?thesis unfolding rec' using escape_refines [OF "1.prems", of ks1] 2 by simp
        next
          case 3
          with ok(4) [of ch] enter show ?thesis by (auto simp: rec edit_line.simps plain_def)
        qed
      qed
      show ?thesis
      proof (cases ?step)
        case None
        with step enter Some a show ?thesis by (subst fetch_loop.simps) (simp split: if_splits)
      next
        case st: (Some b)
        obtain out e' ks' where b: "b = (out, e', ks')" by (cases b)
        obtain z' where z': "key_ok m e out e' z'" "edit_line m (received ks) (z_of e) = edit_line m (received ks') z'"
          using step unfolding st b by auto
        have wf: "ed_wf m e'" "plain (z_text (z_of e'))" "z_of e' = z'" using z'(1) by (auto simp: key_ok_def)
        have ih: "case fetch_loop m ks' e' of
            None \<Rightarrow> edit_line m (received ks') (z_of e') = None
          | Some (out, e'', ks'') \<Rightarrow> ed_wf m e'' \<and> edit_line m (received ks') (z_of e') = Some (z_text (z_of e''), received ks'') \<and>
              (\<exists>echo. out = echo @ [13, 10] \<and> terminal echo (screen_of (z_of e')) = screen_of (z_of e''))"
          using "1.IH" [OF Some a [symmetric] enter st b [symmetric] refl wf(1,2)] by simp
        have f: "fetch_loop m ks e = map_option (\<lambda>(outs, r). (out @ outs, r)) (fetch_loop m ks' e')"
          using Some a enter st b by (subst fetch_loop.simps) simp
        show ?thesis
          unfolding f using ih z' wf(3)
          by (cases "fetch_loop m ks' e'") (auto simp: key_ok_def)
      qed
    qed
  qed
qed
lemma fetch_input_buffer:
  assumes "ed_wf m e"
  shows "length ((ed_buf e)[ed_len e := 0]) = m" "take (ed_len e) ((ed_buf e)[ed_len e := 0]) = z_text (z_of e)"
    "(ed_buf e)[ed_len e := 0] ! ed_len e = 0" "length (z_text (z_of e)) = ed_len e" "ed_len e < m"
  using assms z_text_of [OF assms] by (simp_all add: ed_wf_def)

lemma fetch_input_edits:
  assumes "length buf = max_len" and "0 < max_len"
  shows "case fetch_input buf max_len ks of
      None \<Rightarrow> edit_line max_len (received (flush ks)) ([], []) = None
    | Some (out, buf', ks') \<Rightarrow>
        (\<exists>txt echo col. edit_line max_len (received (flush ks)) ([], []) = Some (txt, received ks') \<and>
          length txt < max_len \<and> length buf' = max_len \<and> take (length txt) buf' = txt \<and> buf' ! length txt = 0 \<and>
          out = echo @ [13, 10] \<and> terminal echo ([], 0) = (txt, col))"
proof -
  let ?e = "\<lparr>ed_buf = buf, ed_len = 0, ed_pos = 0\<rparr>"
  have wf: "ed_wf max_len ?e" and z: "z_of ?e = ([], [])" using assms by (simp_all add: ed_wf_def z_of_def)
  note l = fetch_loop_edits [OF wf, of "flush ks", unfolded z, simplified z_text_def plain_def screen_of_def, simplified]
  show ?thesis
  proof (cases "fetch_loop max_len (flush ks) ?e")
    case None
    with l show ?thesis by (simp add: fetch_input_def)
  next
    case (Some a)
    obtain out e' ks' where a: "a = (out, e', ks')" by (cases a)
    from l Some a have wf': "ed_wf max_len e'"
      and e: "edit_line max_len (received (flush ks)) ([], []) = Some (z_text (z_of e'), received ks')"
      and "\<exists>echo. out = echo @ [13, 10] \<and> terminal echo ([], 0) = (z_text (z_of e'), length (fst (z_of e')))"
      by (simp_all add: z_text_def)
    with Some a fetch_input_buffer [OF wf'] show ?thesis by (simp add: fetch_input_def) blast
  qed
qed

text \<open>Characters typed one after the other at the end of the line, and Enter.\<close>

definition typable :: "u8 \<Rightarrow> bool" where
  "typable b \<longleftrightarrow> b \<noteq> 13 \<and> b \<noteq> 10 \<and> b \<noteq> 0x7f \<and> b \<noteq> 8 \<and> b \<noteq> 0x1b"

lemma fetch_loop_typed:
  assumes "ed_wf m e" and "snd (z_of e) = []" and "list_all typable bs" and "length (fst (z_of e)) + length bs < m"
  shows "\<exists>out e'. fetch_loop m (map Byte bs @ Byte 13 # ks) e = Some (out, e', ks) \<and> ed_wf m e' \<and> z_of e' = (fst (z_of e) @ bs, [])"
  using assms
proof (induction bs arbitrary: e)
  case Nil
  then show ?case by (cases "z_of e") (simp add: fetch_loop.simps)
next
  case (Cons b bs)
  let ?e = "snd (ed_insert m b e)"
  obtain l where z: "z_of e = (l, [])" using Cons.prems(2) by (cases "z_of e") auto
  have r: "ed_wf m ?e" "z_of ?e = (l @ [b], [])"
    using insert_refines [OF Cons.prems(1), of b] Cons.prems(4) by (simp_all add: z z_text_def)
  obtain out e' where "fetch_loop m (map Byte bs @ Byte 13 # ks) ?e = Some (out, e', ks)" "ed_wf m e'" "z_of e' = (l @ b # bs, [])"
    using Cons.IH [OF r(1)] Cons.prems(3,4) r(2) z by auto
  moreover have "fetch_loop m (map Byte (b # bs) @ Byte 13 # ks) e =
      map_option (\<lambda>(outs, r). (fst (ed_insert m b e) @ outs, r)) (fetch_loop m (map Byte bs @ Byte 13 # ks) ?e)"
    using Cons.prems(3) by (subst fetch_loop.simps) (simp add: typable_def)
  ultimately show ?case by (simp add: z)
qed

lemma fetch_input_typed:
  assumes "length buf = m" and "list_all typable bs" and "length bs < m"
  obtains out buf' where "fetch_input buf m (Idle # map Byte bs @ Byte 13 # ks) = Some (out, buf', ks)"
    "length buf' = m" "take (length bs) buf' = bs" "buf' ! length bs = 0"
proof -
  let ?e = "\<lparr>ed_buf = buf, ed_len = 0, ed_pos = 0\<rparr>"
  have wf: "ed_wf m ?e" and z: "z_of ?e = ([], [])" using assms by (simp_all add: ed_wf_def z_of_def)
  obtain out e' where f: "fetch_loop m (map Byte bs @ Byte 13 # ks) ?e = Some (out, e', ks)" "ed_wf m e'" "z_of e' = (bs, [])"
    using fetch_loop_typed [OF wf _ assms(2), of ks] z assms(3) by auto
  have "fetch_loop m (Idle # map Byte bs @ Byte 13 # ks) ?e = fetch_loop m (map Byte bs @ Byte 13 # ks) ?e"
    by (subst (1 2) fetch_loop.simps) simp
  with f(1) have "fetch_input buf m (Idle # map Byte bs @ Byte 13 # ks) = Some (out, (ed_buf e')[ed_len e' := 0], ks)"
    by (simp add: fetch_input_def)
  moreover have "length bs = ed_len e'" using fetch_input_buffer(4) [OF f(2)] f(3) by (simp add: z_text_def)
  ultimately show thesis
    using that [of out "(ed_buf e')[ed_len e' := 0]"] fetch_input_buffer [OF f(2)] f(3) by (simp add: z_text_def)
qed

section \<open>Property\<close>

text \<open>
  C39: A line that is typed into an array of \<open>max_len\<close> bytes, with any mixture of characters, backspace, delete, arrow
  keys and unknown escape sequences, is the line that the editor on two lists defines (and \<open>fetch_input\<close> waits forever
  exactly when that editor has not seen Enter). The text is shorter than the array, it is followed by a terminating zero
  and nothing outside the array is written. Before the line break the terminal shows exactly the text.
\<close>

theorem line_editor_refines:
  assumes "length buf = max_len" and "0 < max_len"
  shows "case fetch_input buf max_len ks of
      None \<Rightarrow> edit_line max_len (received (flush ks)) ([], []) = None
    | Some (out, buf', ks') \<Rightarrow>
        (\<exists>txt echo col. edit_line max_len (received (flush ks)) ([], []) = Some (txt, received ks') \<and>
          length txt < max_len \<and> length buf' = max_len \<and> take (length txt) buf' = txt \<and> buf' ! length txt = 0 \<and>
          out = echo @ [13, 10] \<and> terminal echo ([], 0) = (txt, col))"
  using assms by (rule fetch_input_edits)

text \<open>The keys \<open>a\<close>, \<open>b\<close>, left, \<open>c\<close>, \<open>x\<close>, backspace and Enter: the line is \<open>acb\<close>.\<close>

theorem line_editor_refines_witness:
  "fetch_input [7, 7, 7, 7, 7] 5 [Byte 13, Idle, Byte 0x61, Byte 0x62, Byte 0x1b, Byte 0x5b, Byte 0x44, Byte 0x63, Byte 0x78, Byte 8, Byte 13] =
     Some ([0x61, 0x62, 8, 0x63, 0x62, 8, 0x78, 0x62, 8, 8, 0x1b, 0x5b, 0x4b, 0x62, 8, 13, 10], [0x61, 0x63, 0x62, 0, 7], []) \<and>
   edit_line 5 [0x61, 0x62, 0x1b, 0x5b, 0x44, 0x63, 0x78, 8, 13] ([], []) = Some ([0x61, 0x63, 0x62], []) \<and>
   (\<exists>txt echo col. edit_line 5 [0x61, 0x62, 0x1b, 0x5b, 0x44, 0x63, 0x78, 8, 13] ([], []) = Some (txt, []) \<and>
      terminal echo ([], 0) = (txt, col))"
proof -
  let ?ks = "[Byte 13, Idle, Byte 0x61, Byte 0x62, Byte 0x1b, Byte 0x5b, Byte 0x44, Byte 0x63, Byte 0x78, Byte 8, Byte 13]"
  have f: "fetch_input [7, 7, 7, 7, 7] 5 ?ks =
     Some ([0x61, 0x62, 8, 0x63, 0x62, 8, 0x78, 0x62, 8, 8, 0x1b, 0x5b, 0x4b, 0x62, 8, 13, 10], [0x61, 0x63, 0x62, 0, 7], [])"
    and e: "edit_line 5 [0x61, 0x62, 0x1b, 0x5b, 0x44, 0x63, 0x78, 8, 13] ([], []) = Some ([0x61, 0x63, 0x62], [])"
    by code_simp+
  have "length [7, 7, 7, 7, 7 :: u8] = 5" "0 < (5 :: nat)" by simp_all
  from line_editor_refines [OF this, of ?ks, unfolded f] have
    "\<exists>txt echo col. edit_line 5 [0x61, 0x62, 0x1b, 0x5b, 0x44, 0x63, 0x78, 8, 13] ([], []) = Some (txt, []) \<and>
      terminal echo ([], 0) = (txt, col)" by auto
  with f e show ?thesis by blast
qed

end
