(* ===== verification/Terminal_Menu.thy ===== *)
theory Terminal_Menu
  imports Cmd_Channel Line_Editor
begin

text \<open>
  The interactive menus of the serial terminal (\<open>src/src/terminal_interface.c\<close>, \<open>read_terminal_line\<close> and the functions it
  calls). A menu is a function from the bytes that are typed and the system to the text on the terminal and the new
  system; \<open>None\<close> means that it waits for a key that never comes. Frames may arrive while it waits. The lemmas show that
  the menus keep the invariant of the system for every input and that a dialogue has the effect of the command of the
  command channel that it corresponds to.
\<close>

section \<open>The terminal session\<close>

text \<open>
  \<open>tm_buf\<close> is the array \<open>cmd_buf\<close>, \<open>tm_out\<close> the text sent so far. \<open>tm_tick\<close> counts the places where the program has waited;
  it selects what the environment does at the next one.
\<close>

record term_st =
  tm_keys :: "key list"
  tm_buf :: "u8 list"
  tm_out :: string
  tm_sys :: sys_st
  tm_tick :: nat

text \<open>
  The environment: the conversion of numbers, the frames that arrive during the blocking reads, the counters and frames of
  the waits for ping replies and of the scan, the number of attempts after which an endless ping is given up, and
  the counter that the delay between two attempts reads.
\<close>

record menu_env =
  me_cvt :: "int \<Rightarrow> int"
  me_idle :: "nat \<Rightarrow> (u32 \<times> pbuf) list"
  me_ping :: "nat \<Rightarrow> cmd_env"
  me_fuel :: nat

definition CMD_BUFFER_SIZE :: nat where "CMD_BUFFER_SIZE = 32"
definition PING_ATTEMPT_COUNT :: nat where "PING_ATTEMPT_COUNT = 4"
definition TERM_CTRLC :: u8 where "TERM_CTRLC = 3"

definition byte_char :: "u8 \<Rightarrow> char" where "byte_char b = char_of (unat b)"

definition tell :: "string \<Rightarrow> term_st \<Rightarrow> term_st" where
  "tell txt t = t\<lparr>tm_out := tm_out t @ txt\<rparr>"

definition tick :: "menu_env \<Rightarrow> term_st \<Rightarrow> term_st" where
  "tick ev t = t\<lparr>tm_sys := receive (me_idle ev (tm_tick t)) (tm_sys t), tm_tick := tm_tick t + 1\<rparr>"

text \<open>A single key, echoed as most menus do, and a whole line.\<close>

definition get_choice :: "menu_env \<Rightarrow> term_st \<Rightarrow> (u8 \<times> term_st) option" where
  "get_choice ev t =
     (case read_choice_char (tm_keys t) of None \<Rightarrow> None | Some (ch, ks) \<Rightarrow> Some (ch, (tick ev t)\<lparr>tm_keys := ks\<rparr>))"

definition get_choice_echo :: "menu_env \<Rightarrow> term_st \<Rightarrow> (u8 \<times> term_st) option" where
  "get_choice_echo ev t = map_option (\<lambda>(ch, t). (ch, tell (byte_char ch # crlf) t)) (get_choice ev t)"

definition ask :: "menu_env \<Rightarrow> term_st \<Rightarrow> term_st option" where
  "ask ev t =
     (case fetch_input (tm_buf t) CMD_BUFFER_SIZE (tm_keys t) of
        None \<Rightarrow> None
      | Some (echo, buf, ks) \<Rightarrow> Some (tell (map byte_char echo) ((tick ev t)\<lparr>tm_keys := ks, tm_buf := buf\<rparr>)))"

definition answer :: "term_st \<Rightarrow> string" where
  "answer t = cstr (map byte_char (tm_buf t))"

definition set_host :: "host_st \<Rightarrow> term_st \<Rightarrow> term_st" where
  "set_host h t = t\<lparr>tm_sys := (tm_sys t)\<lparr>sy_host := h\<rparr>\<rparr>"

abbreviation tm_host :: "term_st \<Rightarrow> host_st" where "tm_host t \<equiv> sy_host (tm_sys t)"
abbreviation tm_netifs :: "term_st \<Rightarrow> netif_ptr list" where "tm_netifs t \<equiv> netif_list (sys_net (tm_sys t))"

section \<open>Listing and choosing interfaces\<close>

definition lf :: string where "lf = [CHR 0x0a]"
definition Spacer :: string where "Spacer = ''*--------------------------------------*'' @ crlf @ lf"

definition sock_entry :: "nat \<Rightarrow> u16 \<Rightarrow> string" where
  "sock_entry j port = dec j @ ''.socket(local_port): '' @ dec (unat port) @ crlf"

definition netif_block :: "u8 \<Rightarrow> netif_ptr \<Rightarrow> host_st \<Rightarrow> string" where
  "netif_block i nif h =
     (let n = netifs (h_net h) nif in
      dec (unat i) @ ''.netif'' @ crlf @ ''IP:      '' @ ipaddr_ntoa (if_ip_addr n) @ crlf @
      ''Netmask: '' @ ipaddr_ntoa (if_netmask n) @ crlf @ ''GW:      '' @ ipaddr_ntoa (if_gw n) @ crlf @ crlf @
      ''Active Sockets:'' @ crlf @
      (if udp_source_count_sockets (Some nif) h \<noteq> 0 then
         concat (map (\<lambda>j. let info = udp_source_get_socket (Some nif) (j - 1) h in
                        if si_socket_id info \<noteq> UDP_SOCK_ID_INVALID then sock_entry j (si_local_port info) else [])
                   [1..<UDP_MAX_LISTENERS + 1])
       else ''No socket is present'' @ crlf @ lf) @ Spacer)"

fun netif_blocks :: "u8 \<Rightarrow> netif_ptr list \<Rightarrow> host_st \<Rightarrow> string" where
  "netif_blocks i [] h = []"
| "netif_blocks i (n # ns) h = netif_block i n h @ netif_blocks (i + 1) ns h"

definition terminal_list_netif :: "term_st \<Rightarrow> term_st" where
  "terminal_list_netif t = tell (netif_blocks 1 (tm_netifs t) (tm_host t)) t"

fun select_loop :: "netif_ptr list \<Rightarrow> u32 \<Rightarrow> netif_ptr option" where
  "select_loop [] idx = None"
| "select_loop (n # ns) idx = (if idx > 0 then select_loop ns (idx - 1) else Some n)"

definition terminal_select_netif :: "menu_env \<Rightarrow> term_st \<Rightarrow> (netif_ptr option \<times> term_st) option" where
  "terminal_select_netif ev t =
     (let t = tell (netif_blocks 1 (tm_netifs t) (tm_host t)) t; ns = tm_netifs t in
      case get_choice ev t of
        None \<Rightarrow> None
      | Some (ch, t) \<Rightarrow>
         (case select_loop ns (ucast ch - 0x30 - 1) of
            None \<Rightarrow> Some (None, tell (''Invalid selection... Exiting'' @ crlf) t)
          | Some n \<Rightarrow> Some (Some n, t)))"

text \<open>A submenu that works on a chosen interface and is left when the choice is invalid.\<close>

definition on_netif :: "menu_env \<Rightarrow> (netif_ptr \<Rightarrow> term_st \<Rightarrow> term_st option) \<Rightarrow> term_st \<Rightarrow> term_st option" where
  "on_netif ev f t =
     (case terminal_select_netif ev t of None \<Rightarrow> None | Some (None, t) \<Rightarrow> Some t | Some (Some n, t) \<Rightarrow> f n t)"

definition invalid_key :: "term_st \<Rightarrow> term_st" where
  "invalid_key t = tell (''Invalid Key... Exiting'' @ crlf) t"

section \<open>Configuring an interface\<close>

definition set_address :: "menu_env \<Rightarrow> string \<Rightarrow> u32 \<Rightarrow> (u32 \<Rightarrow> net_st \<Rightarrow> net_st) \<Rightarrow> term_st \<Rightarrow> term_st option" where
  "set_address ev what old store t =
     (case ask ev (tell (''Change '' @ what @ ''('' @ ipaddr_ntoa old @ '') to:'') t) of
        None \<Rightarrow> None
      | Some t \<Rightarrow>
         Some (case ipaddr_aton (answer t) of None \<Rightarrow> t | Some v \<Rightarrow> t\<lparr>tm_sys := upd_net (store v) (tm_sys t)\<rparr>))"

definition change_ip :: "menu_env \<Rightarrow> netif_ptr \<Rightarrow> term_st \<Rightarrow> term_st option" where
  "change_ip ev n t =
     map_option (\<lambda>t. set_host (udp_source_netif_ip_changed (Some n) (tm_host t)) t)
       (set_address ev ''IP address'' (if_ip_addr (netifs (sys_net (tm_sys t)) n)) (netif_set_ipaddr n) t)"

definition change_netmask :: "menu_env \<Rightarrow> netif_ptr \<Rightarrow> term_st \<Rightarrow> term_st option" where
  "change_netmask ev n t =
     set_address ev ''NetMask'' (if_netmask (netifs (sys_net (tm_sys t)) n)) (netif_set_netmask n) t"

definition change_gw :: "menu_env \<Rightarrow> netif_ptr \<Rightarrow> term_st \<Rightarrow> term_st option" where
  "change_gw ev n t =
     set_address ev ''GW address'' (if_gw (netifs (sys_net (tm_sys t)) n)) (netif_set_gw n) t"

definition open_socket :: "menu_env \<Rightarrow> term_st \<Rightarrow> term_st option" where
  "open_socket ev t =
     on_netif ev
       (\<lambda>n t. case ask ev (tell (''Input new socket port:'' @ crlf) t) of
          None \<Rightarrow> None
        | Some t \<Rightarrow>
           (let (err, sid, h) = udp_source_add_listener (Some n) (of_int (atoi (me_cvt ev) (answer t))) (tm_host t)
            in Some (tell (if err = ERR_OK then crlf @ ''Socket has been succesfully added'' @ crlf
                           else ''There has been an error while adding the socket'' @ crlf) (set_host h t))))
       (tell (''Please chose the interface you want to add socket to'' @ crlf @ lf @ Spacer) t)"

definition socket_list :: "netif_ptr \<Rightarrow> host_st \<Rightarrow> string" where
  "socket_list n h =
     concat (map (\<lambda>j. sock_entry (j + 1) (si_local_port (udp_source_get_socket (Some n) j h)))
               [0..<udp_source_count_sockets (Some n) h])"

text \<open>The list of the sockets and the choice of one of them by its number.\<close>

definition pick_socket :: "menu_env \<Rightarrow> netif_ptr \<Rightarrow> (udp_netif_socket_info \<Rightarrow> term_st \<Rightarrow> term_st option) \<Rightarrow> term_st \<Rightarrow> term_st option" where
  "pick_socket ev n f t =
     (case ask ev (tell (socket_list n (tm_host t)) t) of
        None \<Rightarrow> None
      | Some t \<Rightarrow>
         (let sel = (of_int (atoi (me_cvt ev) (answer t)) :: u32) in
          if sel < 1 \<or> unat sel > udp_source_count_sockets (Some n) (tm_host t)
          then Some (tell (''Invalid Socket. Procedure not completed'' @ crlf) t)
          else f (udp_source_get_socket (Some n) (unat (sel - 1)) (tm_host t)) t))"

definition delete_socket :: "menu_env \<Rightarrow> term_st \<Rightarrow> term_st option" where
  "delete_socket ev t =
     on_netif ev
       (\<lambda>n t. if udp_source_count_sockets (Some n) (tm_host t) = 0
              then Some (tell (''No socket is present. Aborting.'' @ crlf) t)
              else pick_socket ev n
                     (\<lambda>info t. Some (tell (crlf @ ''Socket has been succesfully deleted'' @ crlf)
                                (set_host (udp_source_remove_listener (si_socket_id info) (tm_host t)) t)))
                     (tell (''Select which socket you want to delete:'' @ crlf) t))
       (tell (''Please chose the interface you want to delete a socket from'' @ crlf @ lf @ Spacer) t)"

definition menu_configure :: "menu_env \<Rightarrow> term_st \<Rightarrow> term_st option" where
  "menu_configure ev t =
     on_netif ev
       (\<lambda>n t. case get_choice_echo ev
                (tell (''What do you want to edit?'' @ crlf @ ''1. IP Adress'' @ crlf @ ''2. NetMask'' @ crlf @
                   ''3. Default GateWay'' @ crlf @ ''4. Open New Socket'' @ crlf @ ''5. Delete Socket'' @ crlf @ lf) t) of
          None \<Rightarrow> None
        | Some (ch, t) \<Rightarrow>
           if ch = 0x31 then change_ip ev n t
           else if ch = 0x32 then change_netmask ev n t
           else if ch = 0x33 then change_gw ev n t
           else if ch = 0x34 then open_socket ev t
           else if ch = 0x35 then delete_socket ev t
           else Some (invalid_key t))
       (tell (''Please chose the interface you want to edit'' @ crlf @ lf) t)"

section \<open>Adding and deleting interfaces\<close>

definition ask_address :: "menu_env \<Rightarrow> string \<Rightarrow> (u32 \<Rightarrow> term_st \<Rightarrow> term_st option) \<Rightarrow> term_st \<Rightarrow> term_st option" where
  "ask_address ev prompt f t =
     (case ask ev (tell prompt t) of
        None \<Rightarrow> None
      | Some t \<Rightarrow>
         (case ipaddr_aton (answer t) of
            None \<Rightarrow> Some (tell (''Invalid value, netif not saved'' @ crlf) t)
          | Some v \<Rightarrow> f v t))"

definition add_netif :: "menu_env \<Rightarrow> term_st \<Rightarrow> term_st option" where
  "add_netif ev t =
     ask_address ev ''IP Address: '' (\<lambda>ip.
     ask_address ev ''Netmask Address: '' (\<lambda>nmask.
     ask_address ev ''GW Address: '' (\<lambda>gw t.
       (let (err, h) = net_if_add (Some ip) (Some nmask) (Some gw) (tm_host t); t = set_host h t in
        Some (if err = ERR_OK then tell (crlf @ ''New netif has been succesfully created'' @ crlf) t else t)))))
     (tell (''Please write the interface you want to add'' @ crlf) t)"

definition delete_netif :: "menu_env \<Rightarrow> term_st \<Rightarrow> term_st option" where
  "delete_netif ev t =
     on_netif ev
       (\<lambda>n t. let (err, h) = net_if_remove (Some n) (tm_host t) in
          Some (tell (if err = ERR_OK then crlf @ ''Netif has been succesfully deleted'' @ crlf
                      else ''There has been an error while deleting the netif'' @ crlf) (set_host h t)))
       (tell (''Please chose the interface you want to delete'' @ crlf @ lf) t)"

definition menu_netifs :: "menu_env \<Rightarrow> term_st \<Rightarrow> term_st option" where
  "menu_netifs ev t =
     (case get_choice_echo ev (tell (''What do you want to do?'' @ crlf @ lf @ ''1.Add Netif'' @ crlf @ ''2.Delete Netif'' @ crlf) t) of
        None \<Rightarrow> None
      | Some (ch, t) \<Rightarrow>
         if ch = 0x31 then add_netif ev t else if ch = 0x32 then delete_netif ev t else Some (invalid_key t))"

section \<open>Sending a datagram\<close>

definition split_target :: "term_st \<Rightarrow> (string \<times> string \<times> term_st) option" where
  "split_target t =
     (let a = answer t; pos = length (takeWhile (\<lambda>c. c \<noteq> CHR ''/'') a) in
      if pos < length a then Some (take pos a, drop (pos + 1) a, t\<lparr>tm_buf := (tm_buf t)[pos := 0]\<rparr>) else None)"

definition send_message :: "menu_env \<Rightarrow> udp_netif_socket_info \<Rightarrow> u32 \<Rightarrow> u16 \<Rightarrow> term_st \<Rightarrow> term_st option" where
  "send_message ev socket ip_rx port t =
     (case ask ev (tell (''Enter the message: '' @ crlf) t) of
        None \<Rightarrow> None
      | Some t \<Rightarrow>
         (let (err, h) = udp_source_data_send (si_socket_id socket) (si_netif socket) ip_rx port
                           (takeWhile (\<lambda>b. b \<noteq> 0) (tm_buf t)) (tm_host t)
          in Some (tell (if err \<noteq> ERR_OK then ''Failed to send message'' @ crlf else ''Message successfully sent'' @ crlf)
                     (set_host h t))))"

definition send_to :: "menu_env \<Rightarrow> udp_netif_socket_info \<Rightarrow> term_st \<Rightarrow> term_st option" where
  "send_to ev socket t =
     (case ask ev (tell (''Type the receiver IP address and port(192.168.0.1/5000): '' @ crlf @ lf) t) of
        None \<Rightarrow> None
      | Some t \<Rightarrow>
         (case split_target t of
            None \<Rightarrow> Some (tell (''Invalid format, expected IP/port'' @ crlf) t)
          | Some (ip_str, port_str, t) \<Rightarrow>
             (case ipaddr_aton ip_str of
                None \<Rightarrow> Some (tell (''Invalid IP'' @ crlf) t)
              | Some ip_rx \<Rightarrow>
                 (let port = (of_int (atoi (me_cvt ev) port_str) :: u16) in
                  if port = 0 then Some (tell (''Invalid Port'' @ crlf) t)
                  else send_message ev socket ip_rx port t))))"

definition menu_send :: "menu_env \<Rightarrow> term_st \<Rightarrow> term_st option" where
  "menu_send ev t =
     on_netif ev
       (\<lambda>n t. let t = tell (''Chose the sending port'' @ crlf) t in
          if udp_source_count_sockets (Some n) (tm_host t) = 0
          then Some (tell (''No active ports. Create a UDP socket first. Exiting...'' @ crlf) t)
          else
            pick_socket ev n (send_to ev) t)
       (tell (''Select the sender interface:'' @ crlf @ lf) t)"

section \<open>Ping\<close>

text \<open>One echo request and the wait for its reply: the error of the request, or the reply if one came in time.\<close>

definition ping_once :: "menu_env \<Rightarrow> netif_ptr \<Rightarrow> u32 \<Rightarrow> term_st \<Rightarrow> (err_t \<times> ping_result option \<times> term_st) option" where
  "ping_once ev n target t =
     (let e = me_ping ev (tm_tick t);
          (perr, net, ps) = ping_send (Some n) (Some target) (ev_frc e) (sys_net (tm_sys t)) (sy_ping (tm_sys t));
          s = set_net net ((tm_sys t)\<lparr>sy_ping := ps\<rparr>);
          t = t\<lparr>tm_tick := tm_tick t + 1\<rparr>
      in if perr \<noteq> ERR_OK then Some (perr, None, t\<lparr>tm_sys := s\<rparr>)
         else
           (case ping_wait_reply sy_ping sy_ping_update (ev_fuel e) (ev_clock e) (\<lambda>k. receive (ev_wait e k)) (ev_start e)
                   PING_TIMEOUT_MS s of
              None \<Rightarrow> None
            | Some (ok, res, s) \<Rightarrow> Some (ERR_OK, if ok then res else None, t\<lparr>tm_sys := s\<rparr>)))"

definition dec_int :: "int \<Rightarrow> string" where
  "dec_int i = (if i < 0 then CHR ''-'' # dec (nat (- i)) else dec (nat i))"

definition send_err_line :: "err_t \<Rightarrow> string" where
  "send_err_line perr = ''Ping send err: '' @ dec_int (err_code perr) @ crlf"

definition reply_line :: "ping_result \<Rightarrow> string \<Rightarrow> string" where
  "reply_line res time =
     ''Reply from '' @ ipaddr_ntoa (pr_from res) @ '': seq='' @ dec (unat (pr_seqno res)) @ '' bytes='' @
     dec (unat (pr_data_len res)) @ '' time'' @ time @ ''ms TTL='' @ dec (unat (pr_ttl res)) @ crlf"

definition timed_out :: string where "timed_out = ''Request timed out'' @ crlf"

fun menu_ping_loop :: "menu_env \<Rightarrow> netif_ptr \<Rightarrow> u32 \<Rightarrow> nat \<Rightarrow> term_st \<Rightarrow> term_st option" where
  "menu_ping_loop ev n target 0 t = Some t"
| "menu_ping_loop ev n target (Suc left) t =
     (case ping_once ev n target t of
        None \<Rightarrow> None
      | Some (perr, res, t) \<Rightarrow>
         if perr \<noteq> ERR_OK then Some (tell (send_err_line perr) t)
         else
           menu_ping_loop ev n target left
             (tell (case res of
                      Some r \<Rightarrow> reply_line r (if pr_rtt_ms r = 0 then ''<1'' else ''='' @ dec (unat (pr_rtt_ms r)))
                    | None \<Rightarrow> timed_out) t))"

definition menu_ping :: "menu_env \<Rightarrow> term_st \<Rightarrow> term_st option" where
  "menu_ping ev t =
     on_netif ev
       (\<lambda>n t. let ip_str = ipaddr_ntoa (if_ip_addr (netifs (sys_net (tm_sys t)) n)) in
          case ask ev (tell (''Ping from '' @ ip_str @ '' to:'') t) of
            None \<Rightarrow> None
          | Some t \<Rightarrow>
             (case ipaddr_aton (answer t) of
                None \<Rightarrow> Some (tell (''Invalid IP... Exiting'' @ crlf) t)
              | Some target \<Rightarrow>
                 menu_ping_loop ev n target PING_ATTEMPT_COUNT
                   (tell (''Pinging '' @ ipaddr_ntoa target @ '' from '' @ ip_str @ '':'' @ crlf) t)))
       (tell (''Please chose which netif you want to ping from:'' @ crlf) t)"

text \<open>
  The command \<open>ping <address> [-t]\<close>. The delay between two attempts of the endless form watches the serial line for
  Ctrl+C; a byte that is not Ctrl+C is lost.
\<close>

fun ctrlc_loop :: "nat \<Rightarrow> (nat \<Rightarrow> u32) \<Rightarrow> u32 \<Rightarrow> u32 \<Rightarrow> nat \<Rightarrow> key list \<Rightarrow> (bool \<times> key list) option" where
  "ctrlc_loop 0 clock start ticks k ks = None"
| "ctrlc_loop (Suc fuel) clock start ticks k ks =
     (if clock k - start < ticks then
        (case ks of
           Byte c # ks \<Rightarrow> if c = TERM_CTRLC then Some (True, ks) else ctrlc_loop fuel clock start ticks (k + 1) ks
         | Idle # ks \<Rightarrow> ctrlc_loop fuel clock start ticks (k + 1) ks
         | [] \<Rightarrow> ctrlc_loop fuel clock start ticks (k + 1) [])
      else Some (False, ks))"

definition wait_or_ctrlc :: "menu_env \<Rightarrow> u32 \<Rightarrow> term_st \<Rightarrow> (bool \<times> term_st) option" where
  "wait_or_ctrlc ev ms t =
     (let e = me_ping ev (tm_tick t) in
      map_option (\<lambda>(b, ks). (b, (tick ev t)\<lparr>tm_keys := ks\<rparr>))
        (ctrlc_loop (ev_fuel e) (ev_clock e) (ev_start e) (ms * 9375) 0 (tm_keys t)))"

record ping_stats =
  st_sent :: nat
  st_recv :: nat
  rtt_min :: u32
  rtt_max :: u32
  rtt_sum :: u32

definition count_reply :: "ping_result \<Rightarrow> ping_stats \<Rightarrow> ping_stats" where
  "count_reply res st =
     st\<lparr>st_recv := st_recv st + 1, rtt_sum := rtt_sum st + pr_rtt_ms res,
        rtt_min := (if pr_rtt_ms res < rtt_min st then pr_rtt_ms res else rtt_min st),
        rtt_max := (if pr_rtt_ms res > rtt_max st then pr_rtt_ms res else rtt_max st)\<rparr>"

fun ping_loop :: "menu_env \<Rightarrow> netif_ptr \<Rightarrow> u32 \<Rightarrow> bool \<Rightarrow> nat \<Rightarrow> nat \<Rightarrow> ping_stats \<Rightarrow> term_st \<Rightarrow> (ping_stats \<times> term_st) option" where
  "ping_loop ev n target continuous 0 attempt st t = None"
| "ping_loop ev n target continuous (Suc fuel) attempt st t =
     (if continuous \<or> attempt < PING_ATTEMPT_COUNT then
        (case ping_once ev n target t of
           None \<Rightarrow> None
         | Some (perr, res, t) \<Rightarrow>
            (let st = st\<lparr>st_sent := st_sent st + 1\<rparr>;
                 (st, txt) =
                   (if perr \<noteq> ERR_OK then (st, send_err_line perr)
                    else case res of
                           Some r \<Rightarrow> (count_reply r st, reply_line r (''='' @ dec (unat (pr_rtt_ms r))))
                         | None \<Rightarrow> (st, timed_out));
                 t = tell txt t
             in if continuous then
                  (case wait_or_ctrlc ev 1000 t of
                     None \<Rightarrow> None
                   | Some (stop, t) \<Rightarrow>
                      if stop then Some (st, t) else ping_loop ev n target continuous fuel (attempt + 1) st t)
                else ping_loop ev n target continuous fuel (attempt + 1) st t))
      else Some (st, t))"

declare ping_loop.simps [simp del]

definition stats_lines :: "string \<Rightarrow> ping_stats \<Rightarrow> string" where
  "stats_lines tgt_str st =
     crlf @ ''--- '' @ tgt_str @ '' ping statistics ---'' @ crlf @
     dec (st_sent st) @ '' transmitted, '' @ dec (st_recv st) @ '' received, '' @
     dec (if st_sent st > 0 then (st_sent st - st_recv st) * 100 div st_sent st else 0) @ ''% packet loss'' @ crlf @
     (if st_recv st > 0 then
        ''rtt min/avg/max = '' @ dec (unat (rtt_min st)) @ ''/'' @ dec (unat (rtt_sum st) div st_recv st) @ ''/'' @
        dec (unat (rtt_max st)) @ '' ms'' @ crlf
      else [])"

fun contains :: "string \<Rightarrow> string \<Rightarrow> bool" where
  "contains pat [] \<longleftrightarrow> pat = []"
| "contains pat (c # s) \<longleftrightarrow> take (length pat) (c # s) = pat \<or> contains pat s"

definition terminal_ping_command :: "menu_env \<Rightarrow> string \<Rightarrow> term_st \<Rightarrow> term_st option" where
  "terminal_ping_command ev arg t =
     (let argbuf = take 31 arg; continuous = contains ''-t'' argbuf; ip_str = takeWhile (\<lambda>c. c \<noteq> CHR '' '') argbuf in
      case ipaddr_aton ip_str of
        None \<Rightarrow> Some (tell (''Invalid IP address'' @ crlf) t)
      | Some target \<Rightarrow>
         on_netif ev
           (\<lambda>n t. let tgt_str = ipaddr_ntoa target in
              map_option (\<lambda>(st, t). tell (stats_lines tgt_str st) t)
                (ping_loop ev n target continuous (if continuous then me_fuel ev else PING_ATTEMPT_COUNT + 1) 0
                   \<lparr>st_sent = 0, st_recv = 0, rtt_min = 0xffffffff, rtt_max = 0, rtt_sum = 0\<rparr>
                   (tell (crlf @ ''Pinging '' @ tgt_str @ (if continuous then '' (Ctrl+C to stop):'' else '':'') @ crlf) t)))
           (tell (''Choose netif to send ping from:'' @ crlf) t))"

section \<open>The main menu\<close>

definition menu_arp_reset :: "term_st \<Rightarrow> term_st" where
  "menu_arp_reset t =
     tell (''ARP Table reset completed'' @ crlf)
       (t\<lparr>tm_sys := upd_net (\<lambda>net. net\<lparr>ns_link := foldl (\<lambda>l n. etharp_cleanup_netif n l) (ns_link net) (netif_list net)\<rparr>) (tm_sys t)\<rparr>)"

definition menu_scan :: "menu_env \<Rightarrow> term_st \<Rightarrow> term_st option" where
  "menu_scan ev t =
     on_netif ev
       (\<lambda>n t. let t = tell (''Scanning the network for open interfaces...'' @ crlf) t;
                 (err, out, s) = scan_network sys_net upd_net (\<lambda>k. receive (ev_scan (me_ping ev (tm_tick t)) k)) (Some n) (tm_sys t)
             in Some (tell (concat out @ (if err \<noteq> ERR_OK then ''Error while scanning'' @ crlf else []) @ ''Scan Complete'' @ crlf)
                       (t\<lparr>tm_sys := s, tm_tick := tm_tick t + 1\<rparr>)))
       (tell (''Select the interface to be used for scanning'' @ crlf) t)"

definition main_menu :: string where
  "main_menu =
     crlf @ ''Select the option you want to configure:'' @ crlf @ ''1. List Netif'' @ [CHR 0x27] @ ''s'' @ crlf @
     ''2. Configure Netif'' @ crlf @ ''3. Add/Delete Netif'' @ crlf @ ''4. UDP Data Send'' @ crlf @
     ''5. Ping an IP address'' @ crlf @ ''6. Reset the ARP tables'' @ crlf @ ''7. Scan Network'' @ crlf @ crlf"

definition menu_option :: "menu_env \<Rightarrow> int \<Rightarrow> term_st \<Rightarrow> term_st option" where
  "menu_option ev sel t =
     (if sel = 1 then Some (terminal_list_netif t)
      else if sel = 2 then menu_configure ev t
      else if sel = 3 then menu_netifs ev t
      else if sel = 4 then menu_send ev t
      else if sel = 5 then menu_ping ev t
      else if sel = 6 then Some (menu_arp_reset t)
      else if sel = 7 then menu_scan ev t
      else Some (invalid_key t))"

definition read_terminal_line :: "menu_env \<Rightarrow> term_st \<Rightarrow> term_st option" where
  "read_terminal_line ev t =
     (case ask ev (tell main_menu (t\<lparr>tm_keys := flush (tm_keys t)\<rparr>)) of
        None \<Rightarrow> None
      | Some t \<Rightarrow>
         (let line = answer t in
          if take 5 line = ''ping '' then terminal_ping_command ev (drop 5 line) t
          else if line = [] then Some t
          else if \<not> isdigit (hd line) then Some (tell (''Unknown command'' @ crlf) t)
          else menu_option ev (atoi (me_cvt ev) line) t))"
section \<open>The invariant\<close>

definition term_wf :: "term_st \<Rightarrow> bool" where
  "term_wf t \<longleftrightarrow> sys_wf (tm_sys t) \<and> length (tm_buf t) = CMD_BUFFER_SIZE"

text \<open>
  Rules for one step of a dialogue at a time: a dialogue that waits forever has no result, and otherwise the result of
  one step is the start of the next.
\<close>

lemma case_option_ok:
  "pred_option Q r \<Longrightarrow> (\<And>x. Q x \<Longrightarrow> pred_option P (f x)) \<Longrightarrow> pred_option P (case r of None \<Rightarrow> None | Some x \<Rightarrow> f x)"
  by (cases r) auto

lemma map_option_ok: "pred_option Q r \<Longrightarrow> (\<And>x. Q x \<Longrightarrow> P (f x)) \<Longrightarrow> pred_option P (map_option f r)"
  by (cases r) auto

lemma tell_simps [simp]:
  "tm_sys (tell txt t) = tm_sys t" "tm_buf (tell txt t) = tm_buf t" "tm_keys (tell txt t) = tm_keys t"
  "tm_tick (tell txt t) = tm_tick t" "term_wf (tell txt t) = term_wf t"
  by (simp_all add: tell_def term_wf_def)

lemma tick_simps [simp]:
  "tm_sys (tick ev t) = receive (me_idle ev (tm_tick t)) (tm_sys t)" "tm_buf (tick ev t) = tm_buf t"
  "tm_keys (tick ev t) = tm_keys t" "tm_out (tick ev t) = tm_out t" "tm_tick (tick ev t) = tm_tick t + 1"
  by (simp_all add: tick_def)

lemma set_host_simps [simp]:
  "tm_sys (set_host h t) = (tm_sys t)\<lparr>sy_host := h\<rparr>" "tm_buf (set_host h t) = tm_buf t"
  "tm_keys (set_host h t) = tm_keys t" "tm_tick (set_host h t) = tm_tick t"
  by (simp_all add: set_host_def)

text \<open>What a blocking read keeps: the invariant and the interfaces.\<close>

definition steady :: "term_st \<Rightarrow> term_st \<Rightarrow> bool" where
  "steady t t' \<longleftrightarrow> term_wf t' \<and> same_netifs (tm_sys t) (tm_sys t')"

lemma steady_wf: "steady t t' \<Longrightarrow> term_wf t'"
  by (simp add: steady_def)

lemma steady_netifs: "steady t t' \<Longrightarrow> tm_netifs t' = tm_netifs t"
  by (simp add: steady_def same_netifs_def)

lemma steady_tell [simp]: "steady t (tell txt t') = steady t t'" "steady (tell txt t) t' = steady t t'"
  by (simp_all add: steady_def)

lemma steady_tick: "term_wf t \<Longrightarrow> steady t (tick ev t)"
  by (simp add: steady_def term_wf_def receive_wf receive_same)

lemma get_choice_ok: "term_wf t \<Longrightarrow> pred_option (\<lambda>(ch, t'). steady t t') (get_choice ev t)"
  using steady_tick [of t ev]
  by (auto simp: get_choice_def steady_def term_wf_def split: option.split)

lemma get_choice_echo_ok: "term_wf t \<Longrightarrow> pred_option (\<lambda>(ch, t'). steady t t') (get_choice_echo ev t)"
  unfolding get_choice_echo_def by (rule map_option_ok [OF get_choice_ok]) auto

lemma fetch_input_length:
  assumes "length buf = m" and "0 < m" and "fetch_input buf m ks = Some (out, buf', ks')"
  shows "length buf' = m"
  using fetch_input_edits [OF assms(1,2), of ks] assms(3) by auto

lemma ask_ok: "term_wf t \<Longrightarrow> pred_option (steady t) (ask ev t)"
  using steady_tick [of t ev] fetch_input_length [of "tm_buf t" CMD_BUFFER_SIZE "tm_keys t"]
  by (auto simp: ask_def steady_def term_wf_def CMD_BUFFER_SIZE_def split: option.split)

lemma select_loop_in: "select_loop ns i = Some n \<Longrightarrow> n \<in> set ns"
  by (induction ns i rule: select_loop.induct) (auto split: if_splits)

lemma select_ok:
  assumes "term_wf t"
  shows "pred_option (\<lambda>(n, t'). steady t t' \<and> (\<forall>x. n = Some x \<longrightarrow> x \<in> set (tm_netifs t'))) (terminal_select_netif ev t)"
  unfolding terminal_select_netif_def Let_def
proof (rule case_option_ok)
  let ?t = "tell (netif_blocks 1 (tm_netifs t) (tm_host t)) t"
  show "pred_option (\<lambda>(ch, t'). steady ?t t') (get_choice ev ?t)" using assms by (intro get_choice_ok) simp
qed (auto simp: steady_netifs dest: select_loop_in split: option.split)

lemma on_netif_ok:
  assumes "term_wf t" and "\<And>n t'. term_wf t' \<Longrightarrow> n \<in> set (tm_netifs t') \<Longrightarrow> pred_option term_wf (f n t')"
  shows "pred_option term_wf (on_netif ev f t)"
  unfolding on_netif_def
  by (rule case_option_ok [OF select_ok [OF assms(1)]]) (auto simp: steady_def assms(2) split: option.split)

lemma ask_then:
  assumes "term_wf t" and "\<And>t'. term_wf t' \<Longrightarrow> same_netifs (tm_sys t) (tm_sys t') \<Longrightarrow> pred_option P (f t')"
  shows "pred_option P (case ask ev (tell txt t) of None \<Rightarrow> None | Some t \<Rightarrow> f t)"
  by (rule case_option_ok [OF ask_ok]) (use assms in \<open>auto simp: steady_def\<close>)
lemma set_host_wf: "term_wf t \<Longrightarrow> sys_wf ((tm_sys t)\<lparr>sy_host := h\<rparr>) \<Longrightarrow> term_wf (set_host h t)"
  by (simp add: term_wf_def)

lemma set_sys_wf: "term_wf t \<Longrightarrow> sys_wf s \<Longrightarrow> term_wf (t\<lparr>tm_sys := s\<rparr>)" "term_wf t \<Longrightarrow> sys_wf s \<Longrightarrow> term_wf (t\<lparr>tm_sys := s, tm_tick := k\<rparr>)"
  by (simp_all add: term_wf_def)

lemma term_wf_sys: "term_wf t \<Longrightarrow> sys_wf (tm_sys t)"
  by (simp add: term_wf_def)

lemma set_address_wf:
  assumes "term_wf t" and "\<And>v s. sys_wf s \<Longrightarrow> sys_wf (upd_net (store v) s)"
  shows "pred_option term_wf (set_address ev what old store t)"
  unfolding set_address_def using assms
  by (intro ask_then) (auto intro: set_sys_wf simp: term_wf_sys split: option.split)

lemma change_address_wf:
  assumes "term_wf t"
  shows "pred_option term_wf (change_ip ev n t)" "pred_option term_wf (change_netmask ev n t)" "pred_option term_wf (change_gw ev n t)"
proof -
  show "pred_option term_wf (change_ip ev n t)"
    unfolding change_ip_def
    by (rule map_option_ok [OF set_address_wf [OF assms]])
      (auto intro!: set_host_wf set_addr_sys_wf ip_changed_sys_wf simp: term_wf_sys)
  show "pred_option term_wf (change_netmask ev n t)" "pred_option term_wf (change_gw ev n t)"
    unfolding change_netmask_def change_gw_def by (auto intro!: set_address_wf [OF assms] intro: set_addr_sys_wf)
qed

lemma open_socket_wf: "term_wf t \<Longrightarrow> pred_option term_wf (open_socket ev t)"
  unfolding open_socket_def
  by (intro on_netif_ok ask_then)
    (auto simp: case_prod_beta same_netifs_def term_wf_sys intro!: set_host_wf add_listener_sys_wf)

lemma pick_socket_wf:
  assumes "term_wf t" and "\<And>info t'. term_wf t' \<Longrightarrow> same_netifs (tm_sys t) (tm_sys t') \<Longrightarrow> si_netif info \<in> {None, Some n} \<Longrightarrow> pred_option term_wf (f info t')"
  shows "pred_option term_wf (pick_socket ev n f t)"
  unfolding pick_socket_def using assms get_socket_netif by (intro ask_then) (auto simp: Let_def)

lemma delete_socket_wf: "term_wf t \<Longrightarrow> pred_option term_wf (delete_socket ev t)"
  unfolding delete_socket_def
  by (intro on_netif_ok) (auto intro!: pick_socket_wf set_host_wf remove_listener_sys_wf simp: term_wf_sys)

lemma menu_configure_wf: "term_wf t \<Longrightarrow> pred_option term_wf (menu_configure ev t)"
  unfolding menu_configure_def
  by (intro on_netif_ok case_option_ok [OF get_choice_echo_ok])
    (auto intro!: change_address_wf open_socket_wf delete_socket_wf dest: steady_wf simp: invalid_key_def)

lemma ask_address_wf:
  "term_wf t \<Longrightarrow> (\<And>v t'. term_wf t' \<Longrightarrow> pred_option term_wf (f v t')) \<Longrightarrow> pred_option term_wf (ask_address ev prompt f t)"
  unfolding ask_address_def by (intro ask_then) (auto split: option.split)

lemma add_netif_wf: "term_wf t \<Longrightarrow> pred_option term_wf (add_netif ev t)"
  unfolding add_netif_def
  by (intro ask_address_wf) (auto simp: Let_def case_prod_beta term_wf_sys intro!: set_host_wf net_if_add_sys_wf)

lemma delete_netif_wf: "term_wf t \<Longrightarrow> pred_option term_wf (delete_netif ev t)"
  unfolding delete_netif_def
  by (intro on_netif_ok) (auto simp: case_prod_beta term_wf_sys intro!: set_host_wf net_if_remove_sys_wf)

lemma menu_netifs_wf: "term_wf t \<Longrightarrow> pred_option term_wf (menu_netifs ev t)"
  unfolding menu_netifs_def
  by (intro case_option_ok [OF get_choice_echo_ok])
    (auto intro!: add_netif_wf delete_netif_wf dest: steady_wf simp: invalid_key_def)

lemma data_send_any_wf:
  assumes "sys_wf s" and "n \<in> set (netif_list (sys_net s))" and "x \<in> {None, Some n}"
  shows "sys_wf (s\<lparr>sy_host := snd (udp_source_data_send sid x dst port data (sy_host s))\<rparr>)"
proof (cases x)
  case None
  then show ?thesis using assms(1) by (simp add: udp_source_data_send_def split: option.split)
qed (use assms(3) data_send_sys_wf [OF assms(1,2)] in simp)

lemma send_message_wf:
  assumes "term_wf t" and "n \<in> set (tm_netifs t)" and "si_netif socket \<in> {None, Some n}"
  shows "pred_option term_wf (send_message ev socket ip port t)"
  unfolding send_message_def
proof (rule ask_then [OF assms(1)])
  fix t' assume "term_wf t'" "same_netifs (tm_sys t) (tm_sys t')"
  with assms(2,3) show "pred_option term_wf
     (let (err, h) = udp_source_data_send (si_socket_id socket) (si_netif socket) ip port (takeWhile (\<lambda>b. b \<noteq> 0) (tm_buf t')) (tm_host t')
      in Some (tell (if err \<noteq> ERR_OK then ''Failed to send message'' @ crlf else ''Message successfully sent'' @ crlf) (set_host h t')))"
    using data_send_any_wf [of "tm_sys t'" n "si_netif socket"]
    by (auto simp: case_prod_beta Let_def same_netifs_def term_wf_sys intro!: set_host_wf)
qed

lemma split_target_wf: "term_wf t \<Longrightarrow> split_target t = Some (a, b, t') \<Longrightarrow> term_wf t' \<and> tm_sys t' = tm_sys t"
  by (auto simp: split_target_def term_wf_def Let_def split: if_splits)

lemma send_to_wf:
  assumes "term_wf t" and "n \<in> set (tm_netifs t)" and "si_netif socket \<in> {None, Some n}"
  shows "pred_option term_wf (send_to ev socket t)"
  unfolding send_to_def
proof (rule ask_then [OF assms(1)])
  fix t2 assume t2: "term_wf t2" and s: "same_netifs (tm_sys t) (tm_sys t2)"
  have n: "n \<in> set (tm_netifs t2)" using assms(2) s by (simp add: same_netifs_def)
  show "pred_option term_wf (case split_target t2 of
            None \<Rightarrow> Some (tell (''Invalid format, expected IP/port'' @ crlf) t2)
          | Some (ip_str, port_str, t) \<Rightarrow>
             (case ipaddr_aton ip_str of
                None \<Rightarrow> Some (tell (''Invalid IP'' @ crlf) t)
              | Some ip_rx \<Rightarrow>
                 (let port = (of_int (atoi (me_cvt ev) port_str) :: u16) in
                  if port = 0 then Some (tell (''Invalid Port'' @ crlf) t)
                  else send_message ev socket ip_rx port t)))"
  proof (cases "split_target t2")
    case (Some x)
    obtain ip_str port_str t3 where x: "x = (ip_str, port_str, t3)" by (cases x)
    with Some have "term_wf t3" "tm_sys t3 = tm_sys t2" using split_target_wf [OF t2] by simp_all
    then show ?thesis using Some x n assms(3) send_message_wf [of t3 n socket] by (simp add: Let_def split: option.split)
  qed (use t2 in simp)
qed

lemma menu_send_wf: "term_wf t \<Longrightarrow> pred_option term_wf (menu_send ev t)"
  unfolding menu_send_def Let_def
  by (intro on_netif_ok) (auto simp: same_netifs_def intro!: pick_socket_wf send_to_wf)

lemma ping_send_same:
  assumes "ping_send (Some n) (Some target) frc net ps = (e, net', ps')"
  shows "netifs net' = netifs net \<and> netif_list net' = netif_list net"
proof -
  have "netifs net1 = netifs net \<and> netif_list net1 = netif_list net"
    if "ip_output_if p a b c d e n (net\<lparr>ns_link := l\<rparr>) = (x, net1)" for p a b c d e l x net1
    using ip_output_if_frame [of p a b c d e n "net\<lparr>ns_link := l\<rparr>"] that by simp
  with assms show ?thesis
    by (auto simp: ping_send_def Let_def split: prod.splits option.splits bool.splits if_splits)
qed

lemma wait_loop_same:
  assumes "wait_loop sy_ping sy_ping_update fuel clock (\<lambda>k. receive (frames k)) start ticks k s = Some (b, r, s')"
  shows "same_netifs s s'"
  using assms
proof (induction fuel arbitrary: k s)
  case (Suc fuel)
  let ?s = "receive (frames (2 * k + 1)) (receive (frames (2 * k)) s)"
  have "same_netifs s ?s" using same_netifs_trans [OF receive_same receive_same] .
  with Suc.IH [of "k + 1" ?s] Suc.prems same_netifs_trans [of s ?s] show ?case
    by (auto simp: Let_def same_netifs_def sys_net_def split: if_splits)
qed simp

lemma wait_same:
  "ping_wait_reply sy_ping sy_ping_update fuel clock (\<lambda>k. receive (frames k)) start t s = Some (b, r, s') \<Longrightarrow> same_netifs s s'"
  unfolding ping_wait_reply_def by (rule wait_loop_same)

lemma ping_once_wf:
  assumes "term_wf t" and "n \<in> set (tm_netifs t)"
  shows "pred_option (\<lambda>(perr, res, t'). steady t t') (ping_once ev n target t)"
proof -
  let ?e = "me_ping ev (tm_tick t)"
  obtain perr net ps where p: "ping_send (Some n) (Some target) (ev_frc ?e) (sys_net (tm_sys t)) (sy_ping (tm_sys t)) = (perr, net, ps)"
    by (metis prod_cases3)
  let ?s = "set_net net ((tm_sys t)\<lparr>sy_ping := ps\<rparr>)"
  have s: "sys_wf ?s" using ping_send_sys_wf [OF term_wf_sys [OF assms(1)] assms(2) p] .
  have same: "same_netifs (tm_sys t) ?s" using ping_send_same [OF p] by (simp add: same_netifs_def sys_net_def set_net_def)
  have "sys_wf s' \<and> same_netifs ?s s'"
    if "ping_wait_reply sy_ping sy_ping_update (ev_fuel ?e) (ev_clock ?e) (\<lambda>k. receive (ev_wait ?e k)) (ev_start ?e) PING_TIMEOUT_MS ?s = Some (b, r, s')"
    for b r s' using wait_sys_wf [OF s that] wait_same [OF that] by simp
  with assms s same same_netifs_trans [OF same] show ?thesis
    by (auto simp: ping_once_def p Let_def steady_def term_wf_def split: option.split)
qed

lemma menu_ping_loop_wf:
  "term_wf t \<Longrightarrow> n \<in> set (tm_netifs t) \<Longrightarrow> pred_option term_wf (menu_ping_loop ev n target k t)"
proof (induction k arbitrary: t)
  case (Suc k)
  show ?case unfolding menu_ping_loop.simps
    by (rule case_option_ok [OF ping_once_wf [OF Suc.prems]]) (use Suc in \<open>auto simp: steady_netifs steady_wf intro: steady_wf\<close>)
qed simp

lemma menu_ping_wf: "term_wf t \<Longrightarrow> pred_option term_wf (menu_ping ev t)"
  unfolding menu_ping_def Let_def
  by (intro on_netif_ok ask_then) (auto simp: same_netifs_def intro!: menu_ping_loop_wf split: option.split)

lemma wait_or_ctrlc_wf: "term_wf t \<Longrightarrow> pred_option (\<lambda>(b, t'). steady t t') (wait_or_ctrlc ev ms t)"
  unfolding wait_or_ctrlc_def Let_def using steady_tick [of t ev]
  by (auto simp: option.pred_map option.pred_True pred_option_def steady_def term_wf_def)

lemma ping_loop_wf:
  "term_wf t \<Longrightarrow> n \<in> set (tm_netifs t) \<Longrightarrow> pred_option (\<lambda>(st, t'). term_wf t') (ping_loop ev n target c fuel k st t)"
proof (induction fuel arbitrary: k st t)
  case (Suc fuel)
  have go: "pred_option (\<lambda>(st, t'). term_wf t')
      (if c then case wait_or_ctrlc ev 1000 t' of None \<Rightarrow> None
                 | Some (stop, t) \<Rightarrow> if stop then Some (st', t) else ping_loop ev n target c fuel (k + 1) st' t
       else ping_loop ev n target c fuel (k + 1) st' t')" if "steady t t'" for st' t'
  proof -
    have t': "term_wf t'" "n \<in> set (tm_netifs t')" using that Suc.prems(2) by (simp_all add: steady_def same_netifs_def)
    have "pred_option (\<lambda>(st, t'). term_wf t') (case wait_or_ctrlc ev 1000 t' of None \<Rightarrow> None
                 | Some (stop, t) \<Rightarrow> if stop then Some (st', t) else ping_loop ev n target c fuel (k + 1) st' t)"
      by (rule case_option_ok [OF wait_or_ctrlc_wf [OF t'(1)]]) (use Suc.IH t'(2) in \<open>auto simp: steady_def same_netifs_def\<close>)
    with Suc.IH [OF t'] show ?thesis by (cases c) simp_all
  qed
  show ?case
  proof (cases "c \<or> k < PING_ATTEMPT_COUNT")
    case True
    show ?thesis unfolding ping_loop.simps Let_def if_P [OF True]
      by (rule case_option_ok [OF ping_once_wf [OF Suc.prems]])
        (unfold case_prod_beta, rule go [unfolded case_prod_beta], simp add: case_prod_beta)
  qed (use Suc.prems in \<open>simp add: ping_loop.simps\<close>)
qed (simp add: ping_loop.simps)

lemma terminal_ping_command_wf:
  assumes "term_wf t"
  shows "pred_option term_wf (terminal_ping_command ev arg t)"
proof (cases "ipaddr_aton (takeWhile (\<lambda>c. c \<noteq> CHR '' '') (take 31 arg))")
  case (Some target)
  show ?thesis unfolding terminal_ping_command_def Let_def Some option.case
    using assms by (intro on_netif_ok map_option_ok [OF ping_loop_wf]) auto
qed (use assms in \<open>simp add: terminal_ping_command_def\<close>)

lemma menu_arp_reset_wf: "term_wf t \<Longrightarrow> term_wf (menu_arp_reset t)"
  unfolding menu_arp_reset_def tell_simps
  using arp_reset_cmd_wf [of "tm_sys t", unfolded cmd_arp_reset_def snd_reply] set_sys_wf(1) term_wf_sys by blast

lemma menu_scan_wf: "term_wf t \<Longrightarrow> pred_option term_wf (menu_scan ev t)"
  unfolding menu_scan_def Let_def
proof (intro on_netif_ok)
  fix n t assume t: "term_wf t" "n \<in> set (tm_netifs t)"
  let ?scan = "scan_network sys_net upd_net (\<lambda>k. receive (ev_scan (me_ping ev (tm_tick t)) k)) (Some n) (tm_sys t)"
  obtain err out s where sc: "?scan = (err, out, s)" by (metis prod_cases3)
  have "sys_wf s" by (rule scan_sys_wf [OF term_wf_sys [OF t(1)] t(2) sc])
  with t(1) sc show "pred_option term_wf
      (case scan_network sys_net upd_net (\<lambda>k. receive (ev_scan (me_ping ev (tm_tick (tell (''Scanning the network for open interfaces...'' @ crlf) t))) k))
              (Some n) (tm_sys (tell (''Scanning the network for open interfaces...'' @ crlf) t)) of
         (err, out, s) \<Rightarrow>
           Some (tell (concat out @ (if err \<noteq> ERR_OK then ''Error while scanning'' @ crlf else []) @ ''Scan Complete'' @ crlf)
             (tell (''Scanning the network for open interfaces...'' @ crlf) t\<lparr>tm_sys := s,
                tm_tick := tm_tick (tell (''Scanning the network for open interfaces...'' @ crlf) t) + 1\<rparr>)))"
    by (simp add: set_sys_wf)
qed simp

lemma read_terminal_line_wf:
  assumes "term_wf t"
  shows "pred_option term_wf (read_terminal_line ev t)"
proof -
  have "term_wf (t\<lparr>tm_keys := ks\<rparr>)" for ks using assms by (simp add: term_wf_def)
  then show ?thesis unfolding read_terminal_line_def menu_option_def Let_def
    by (intro ask_then)
      (auto intro!: menu_configure_wf menu_netifs_wf menu_send_wf menu_ping_wf menu_arp_reset_wf menu_scan_wf
        terminal_ping_command_wf simp: invalid_key_def terminal_list_netif_def)
qed
section \<open>Dialogues and commands\<close>

text \<open>
  The keys of a dialogue: a line is typed after the prompt and ended with Enter, a choice is one key. The pause before
  them is needed because pending bytes are thrown away.
\<close>

definition typed :: "string \<Rightarrow> key list" where
  "typed txt = Idle # map (\<lambda>c. Byte (of_char c)) txt @ [Byte 13]"

definition press :: "nat \<Rightarrow> key list" where
  "press k = [Idle, Byte (0x30 + of_nat k)]"

text \<open>The dialogue that corresponds to a command; a ping makes four attempts and has no corresponding command.\<close>

fun dialogue :: "command \<Rightarrow> key list" where
  "dialogue Netif_list = typed ''1''"
| "dialogue (Netif_add a m g) = typed ''3'' @ press 1 @ typed (ipaddr_ntoa a) @ typed (ipaddr_ntoa m) @ typed (ipaddr_ntoa g)"
| "dialogue (Netif_del i) = typed ''3'' @ press 2 @ press i"
| "dialogue (Netif_set i f a) =
     typed ''2'' @ press i @ press (if f = ''IP'' then 1 else if f = ''MASK'' then 2 else 3) @ typed (ipaddr_ntoa a)"
| "dialogue (Sock_open i p) = typed ''2'' @ press i @ press 4 @ press i @ typed (dec p)"
| "dialogue (Sock_close i n) = typed ''2'' @ press i @ press 5 @ press i @ typed (dec n)"
| "dialogue (Ping i a) = []"
| "dialogue (Scan i) = typed ''7'' @ press i"
| "dialogue Arp_reset = typed ''6''"
| "dialogue (Udp_send i n a p d) = typed ''4'' @ press i @ typed (dec n) @ typed (ipaddr_ntoa a @ ''/'' @ dec p) @ typed d"

definition plain_text :: "string \<Rightarrow> bool" where
  "plain_text txt \<longleftrightarrow> length txt < CMD_BUFFER_SIZE \<and> list_all (\<lambda>c. typable (of_char c) \<and> c \<noteq> CHR 0x00) txt"

fun has_dialogue :: "command \<Rightarrow> bool" where
  "has_dialogue Netif_list = True"
| "has_dialogue (Netif_add a m g) = True"
| "has_dialogue (Netif_del i) = (1 \<le> i \<and> i \<le> 9)"
| "has_dialogue (Netif_set i f a) = (1 \<le> i \<and> i \<le> 9 \<and> (f = ''IP'' \<or> f = ''MASK'' \<or> f = ''GW''))"
| "has_dialogue (Sock_open i p) = (1 \<le> i \<and> i \<le> 9 \<and> 1 \<le> p \<and> p \<le> 65535)"
| "has_dialogue (Sock_close i n) = (1 \<le> i \<and> i \<le> 9 \<and> n \<le> int_max)"
| "has_dialogue (Ping i a) = False"
| "has_dialogue (Scan i) = (1 \<le> i \<and> i \<le> 9)"
| "has_dialogue Arp_reset = True"
| "has_dialogue (Udp_send i n a p d) = (1 \<le> i \<and> i \<le> 9 \<and> n \<le> int_max \<and> 1 \<le> p \<and> p \<le> 65535 \<and> plain_text d)"

text \<open>A terminal on which nothing else happens while the program waits.\<close>

definition calm :: "cmd_env \<Rightarrow> menu_env" where
  "calm ev = \<lparr>me_cvt = ev_cvt ev, me_idle = (\<lambda>_. []), me_ping = (\<lambda>_. ev), me_fuel = 0\<rparr>"

definition ready :: "key list \<Rightarrow> sys_st \<Rightarrow> term_st \<Rightarrow> bool" where
  "ready ks s t \<longleftrightarrow> tm_keys t = ks \<and> tm_sys t = s \<and> length (tm_buf t) = CMD_BUFFER_SIZE"

lemma ready_tell [simp]: "ready ks s (tell txt t) = ready ks s t"
  by (simp add: ready_def)

lemma calm_simps [simp]: "me_cvt (calm ev) = ev_cvt ev" "me_idle (calm ev) k = []" "me_ping (calm ev) k = ev"
  by (simp_all add: calm_def)

lemma receive_none [simp]: "receive [] s = s"
  by (simp add: receive_def)

lemma byte_char_of_char [simp]: "byte_char (of_char c) = c"
  by (simp add: byte_char_def char_of_byte)

lemma of_char_zero: "(of_char c :: u8) = 0 \<Longrightarrow> c = CHR 0x00"
  using char_of_byte [of c] by (simp add: char_of_def)

lemma typable_char:
  assumes "c \<noteq> CHR 0x0d" and "c \<noteq> CHR 0x0a" and "c \<noteq> CHR 0x7f" and "c \<noteq> CHR 0x08" and "c \<noteq> CHR 0x1b"
  shows "typable (of_char c)"
proof -
  have "c = char_of (unat b)" if "(of_char c :: u8) = b" for b using char_of_byte [of c] that by simp
  from this [of 13] this [of 10] this [of "0x7f"] this [of 8] this [of "0x1b"] assms show ?thesis
    by (auto simp: typable_def char_of_def)
qed

lemma takeWhile_until: "\<forall>x \<in> set xs. P x \<Longrightarrow> \<not> P y \<Longrightarrow> takeWhile P (xs @ y # ys) = xs"
  by (induction xs) auto

lemma ask_typed:
  assumes "ready (typed txt @ ks) s t" and "plain_text txt"
  obtains t' where "ask (calm ev) t = Some t'" "ready ks s t'" "answer t' = txt" "takeWhile (\<lambda>b. b \<noteq> 0) (tm_buf t') = map of_char txt"
proof -
  let ?bs = "map of_char txt :: u8 list"
  have r: "length (tm_buf t) = CMD_BUFFER_SIZE" "tm_sys t = s" "tm_keys t = Idle # map Byte ?bs @ Byte 13 # ks"
    using assms(1) by (simp_all add: ready_def typed_def)
  have bs: "list_all typable ?bs" "length ?bs < CMD_BUFFER_SIZE" "0 \<notin> set ?bs"
    using assms(2) by (auto simp: plain_text_def list_all_iff dest: of_char_zero [OF sym])
  obtain out buf where f: "fetch_input (tm_buf t) CMD_BUFFER_SIZE (Idle # map Byte ?bs @ Byte 13 # ks) = Some (out, buf, ks)"
    "length buf = CMD_BUFFER_SIZE" "take (length ?bs) buf = ?bs" "buf ! length ?bs = 0"
    by (rule fetch_input_typed [OF r(1) bs(1,2)])
  let ?t = "tell (map byte_char out) ((tick (calm ev) t)\<lparr>tm_keys := ks, tm_buf := buf\<rparr>)"
  have buf: "buf = ?bs @ 0 # drop (Suc (length ?bs)) buf"
    using f(2-4) bs(2) by (metis append_take_drop_id Cons_nth_drop_Suc)
  have w: "takeWhile (\<lambda>b. b \<noteq> 0) buf = ?bs" by (subst buf, rule takeWhile_until) (use bs(3) in auto)
  have "answer ?t = txt"
  proof -
    have "map byte_char buf = txt @ CHR 0x00 # map byte_char (drop (Suc (length ?bs)) buf)"
      by (subst buf) (simp add: comp_def byte_char_def char_of_def [of 0])
    moreover have "CHR 0x00 \<notin> set txt" using assms(2) by (auto simp: plain_text_def list_all_iff)
    ultimately show ?thesis by (auto simp: answer_def cstr_def intro!: takeWhile_until)
  qed
  moreover have "ask (calm ev) t = Some ?t" using f(1) r(3) by (simp add: ask_def)
  moreover have "ready ks s ?t" using f(2) r(2) by (simp add: ready_def)
  ultimately show thesis using that w by simp
qed
lemma get_choice_press:
  assumes "ready (press k @ ks) s t"
  obtains t' where "get_choice (calm ev) t = Some (0x30 + of_nat k, t')" "ready ks s t'"
  using assms that by (simp add: get_choice_def read_choice_char_def press_def ready_def)

lemma get_choice_echo_press:
  assumes "ready (press k @ ks) s t"
  obtains t' where "get_choice_echo (calm ev) t = Some (0x30 + of_nat k, t')" "ready ks s t'"
  by (rule get_choice_press [OF assms, of ev]) (use that in \<open>simp add: get_choice_echo_def\<close>)

lemma select_loop_index: "k < 10 \<Longrightarrow> select_loop ns (of_nat k) = index_loop ns (int k + 1)"
proof (induction ns arbitrary: k)
  case (Cons n ns)
  show ?case
  proof (cases k)
    case (Suc j)
    have "(of_nat (Suc j) :: u32) \<noteq> 0" using Cons.prems Suc by (simp add: word_of_nat_eq_0_iff nat_dvd_not_less del: of_nat_Suc)
    then show ?thesis using Cons.IH [of j] Cons.prems Suc by (simp add: word_neq_0_conv [symmetric] add.commute)
  qed simp
qed simp

lemma select_press:
  assumes "ready (press i @ ks) s t" and "1 \<le> i" and "i \<le> 9"
  obtains t' where "terminal_select_netif (calm ev) t = Some (cmd_netif_by_index (int i) s, t')" "ready ks s t'"
proof -
  let ?t = "tell (netif_blocks 1 (tm_netifs t) (tm_host t)) t"
  have "ready (press i @ ks) s ?t" using assms(1) by simp
  then obtain t' where t': "get_choice (calm ev) ?t = Some (0x30 + of_nat i, t')" "ready ks s t'" by (rule get_choice_press)
  have "i \<in> {1, 2, 3, 4, 5, 6, 7, 8, 9}" using assms(2,3) by auto
  then have "(ucast (0x30 + of_nat i :: u8) - 0x30 - 1 :: u32) = of_nat (i - 1)" by auto
  then have "select_loop (tm_netifs ?t) (ucast (0x30 + of_nat i :: u8) - 0x30 - 1) = cmd_netif_by_index (int i) s"
    using assms select_loop_index [of "i - 1"] by (simp only: ready_def tell_simps) (simp add: cmd_netif_by_index_def of_nat_diff)
  with t' that show thesis
    by (cases "cmd_netif_by_index (int i) s") (simp_all add: terminal_select_netif_def)
qed

lemma on_netif_press:
  assumes "ready (press i @ ks) s t" and "1 \<le> i" and "i \<le> 9"
  obtains t' where "on_netif (calm ev) f t = (case cmd_netif_by_index (int i) s of None \<Rightarrow> Some t' | Some n \<Rightarrow> f n t')" "ready ks s t'"
  by (rule select_press [OF assms, of ev]) (use that in \<open>simp add: on_netif_def split: option.split\<close>)

lemma ntoa_chars: "c \<in> set (ipaddr_ntoa a) \<Longrightarrow> isdigit c \<or> c = CHR ''.''"
proof -
  have "isdigit (digit_chr d)" if "d \<in> set (byte_digits (unat (b :: u8)))" for d b
    using byte_digits_less [OF unat_u8_less that] by simp
  then have "\<forall>c \<in> set (dotted bs). isdigit c \<or> c = CHR ''.''" for bs by (auto simp: dotted_def)
  then show "c \<in> set (ipaddr_ntoa a) \<Longrightarrow> isdigit c \<or> c = CHR ''.''" unfolding ipaddr_ntoa_dotted by (meson in_set_butlastD)
qed

lemma plain_char: "isdigit c \<or> c = CHR ''.'' \<or> c = CHR ''/'' \<Longrightarrow> typable (of_char c) \<and> c \<noteq> CHR 0x00"
  by (auto intro!: typable_char simp: isdigit_def in_range_def chr_code_def)

lemma plain_ntoa: "plain_text (ipaddr_ntoa a)"
  using ntoa_word(2) [of a] by (auto simp: plain_text_def CMD_BUFFER_SIZE_def list_all_iff plain_char typable_def [of 46] dest!: ntoa_chars)

lemma plain_dec: "n \<le> int_max \<Longrightarrow> plain_text (dec n)"
  using length_dec [of 10 n] by (auto simp: plain_text_def CMD_BUFFER_SIZE_def int_max_def list_all_iff plain_char dest!: dec_digits)

lemma plain_target:
  assumes "p \<le> 65535"
  shows "plain_text (ipaddr_ntoa a @ ''/'' @ dec p)"
  using ntoa_word(2) [of a] length_dec [of 5 p] assms
  by (auto simp: plain_text_def CMD_BUFFER_SIZE_def list_all_iff plain_char typable_def [of 46] typable_def [of 47] dest!: dec_digits ntoa_chars)

text \<open>The first line of a dialogue chooses the submenu.\<close>

lemma option_chosen:
  assumes "ready (typed (dec k) @ ks) s t" and "cvt_ok (ev_cvt ev)" and "k \<le> 7"
  obtains t' where "read_terminal_line (calm ev) t = menu_option (calm ev) (int k) t'" "ready ks s t'"
proof -
  let ?t = "tell main_menu (t\<lparr>tm_keys := flush (tm_keys t)\<rparr>)"
  have "ready (typed (dec k) @ ks) s ?t" using assms(1) by (simp add: ready_def typed_def)
  then obtain t' where t': "ask (calm ev) ?t = Some t'" "ready ks s t'" "answer t' = dec k"
    by (rule ask_typed) (use assms(3) in \<open>auto intro: plain_dec simp: int_max_def\<close>)
  have "isdigit (hd (dec k))" using dec_digits [of "hd (dec k)" k] by simp
  moreover from this have "take 5 (dec k) \<noteq> ''ping ''" by (cases "dec k") (auto simp: isdigit_def in_range_def chr_code_def)
  moreover have "atoi (ev_cvt ev) (dec k) = int k"
    using cvt_exact [OF assms(2)] assms(3) by (simp add: atoi_printed int_max_def)
  ultimately have "read_terminal_line (calm ev) t = menu_option (calm ev) (int k) t'"
    using t' by (simp add: read_terminal_line_def)
  with t'(2) show thesis by (rule that [rotated])
qed
text \<open>A dialogue is done with the system \<open>s'\<close>; the rules follow it one input at a time.\<close>

definition ends :: "sys_st \<Rightarrow> term_st option \<Rightarrow> bool" where
  "ends s' r \<longleftrightarrow> (\<exists>t'. r = Some t' \<and> tm_sys t' = s')"

lemma ends_Some [simp]: "ends s' (Some t') \<longleftrightarrow> tm_sys t' = s'"
  by (simp add: ends_def)

lemma ask_ends:
  assumes "ready (typed txt @ ks) s t" and "plain_text txt"
    and "\<And>t'. ready ks s t' \<Longrightarrow> answer t' = txt \<Longrightarrow> takeWhile (\<lambda>b. b \<noteq> 0) (tm_buf t') = map of_char txt \<Longrightarrow> ends s' (f t')"
  shows "ends s' (case ask (calm ev) t of None \<Rightarrow> None | Some t \<Rightarrow> f t)"
  by (rule ask_typed [OF assms(1,2), of ev]) (use assms(3) in simp)

lemma choice_ends:
  assumes "ready (press k @ ks) s t" and "\<And>t'. ready ks s t' \<Longrightarrow> ends s' (f (0x30 + of_nat k) t')"
  shows "ends s' (case get_choice_echo (calm ev) t of None \<Rightarrow> None | Some (ch, t) \<Rightarrow> f ch t)"
  by (rule get_choice_echo_press [OF assms(1), of ev]) (use assms(2) in simp)

lemma on_netif_ends:
  assumes "ready (press i @ ks) s t" and "1 \<le> i" and "i \<le> 9"
    and "cmd_netif_by_index (int i) s = None \<Longrightarrow> s' = s"
    and "\<And>n t'. cmd_netif_by_index (int i) s = Some n \<Longrightarrow> ready ks s t' \<Longrightarrow> ends s' (f n t')"
  shows "ends s' (on_netif (calm ev) f t)"
proof (rule on_netif_press [OF assms(1-3), of ev f])
  fix t' assume t': "on_netif (calm ev) f t = (case cmd_netif_by_index (int i) s of None \<Rightarrow> Some t' | Some n \<Rightarrow> f n t')" "ready ks s t'"
  show ?thesis using t' assms(4,5) by (cases "cmd_netif_by_index (int i) s") (simp_all add: ready_def)
qed

lemma set_address_ends:
  assumes "ready (typed (ipaddr_ntoa a)) s t"
  shows "ends (upd_net (store a) s) (set_address (calm ev) what old store t)"
  unfolding set_address_def by (rule ask_ends [OF _ plain_ntoa]) (use assms in \<open>auto simp: ready_def aton_ntoa\<close>)

lemma ask_address_ends:
  assumes "ready (typed (ipaddr_ntoa a) @ ks) s t" and "\<And>t'. ready ks s t' \<Longrightarrow> ends s' (f a t')"
  shows "ends s' (ask_address (calm ev) prompt f t)"
  unfolding ask_address_def by (rule ask_ends [OF _ plain_ntoa]) (use assms in \<open>auto simp: aton_ntoa\<close>)

lemma pick_socket_ends:
  assumes "ready (typed (dec k) @ ks) s t" and "k \<le> int_max" and "cvt_ok (ev_cvt ev)"
    and "k < 1 \<or> k > udp_source_count_sockets (Some n) (sy_host s) \<Longrightarrow> s' = s"
    and "\<And>t'. 1 \<le> k \<Longrightarrow> k \<le> udp_source_count_sockets (Some n) (sy_host s) \<Longrightarrow> ready ks s t' \<Longrightarrow>
      ends s' (f (udp_source_get_socket (Some n) (k - 1) (sy_host s)) t')"
  shows "ends s' (pick_socket (calm ev) n f t)"
  unfolding pick_socket_def
proof (rule ask_ends [OF _ plain_dec [OF assms(2)]])
  fix t' assume t': "ready ks s t'" "answer t' = dec k"
  have k: "unat (of_int (atoi (ev_cvt ev) (dec k)) :: u32) = k"
    using cvt_exact [OF assms(3,2)] assms(2) by (simp add: atoi_printed int_max_def unat_of_nat)
  have "(of_int (atoi (ev_cvt ev) (dec k)) :: u32) < 1 \<longleftrightarrow> k < 1" by (simp add: word_less_nat_alt k)
  moreover have "1 \<le> k \<Longrightarrow> unat ((of_int (atoi (ev_cvt ev) (dec k)) :: u32) - 1) = k - 1"
    using k by (subst unat_minus_one) auto
  ultimately show "ends s' (let sel = (of_int (atoi (me_cvt (calm ev)) (answer t')) :: u32) in
        if sel < 1 \<or> unat sel > udp_source_count_sockets (Some n) (tm_host t')
        then Some (tell (''Invalid Socket. Procedure not completed'' @ crlf) t')
        else f (udp_source_get_socket (Some n) (unat (sel - 1)) (tm_host t')) t')"
    using t' k assms(4,5) by (auto simp: ready_def Let_def)
qed (use assms(1) in simp)

section \<open>Every dialogue\<close>

lemma add_dialogue:
  assumes "ready (typed (ipaddr_ntoa a) @ typed (ipaddr_ntoa m) @ typed (ipaddr_ntoa g)) s t"
  shows "ends (snd (act_netif_add a m g s)) (add_netif (calm ev) t)"
  unfolding add_netif_def act_netif_add_def
  by (intro ask_address_ends [where ks = "typed (ipaddr_ntoa m) @ typed (ipaddr_ntoa g)" and s = s]
      ask_address_ends [where ks = "typed (ipaddr_ntoa g)" and s = s] ask_address_ends [where ks = "[]" and s = s])
    (use assms in \<open>auto simp: ready_def Let_def case_prod_beta\<close>)

lemma del_dialogue:
  assumes "ready (press i) s t" and "1 \<le> i" and "i \<le> 9"
  shows "ends (snd (act_netif_del (int i) s)) (delete_netif (calm ev) t)"
  unfolding delete_netif_def act_netif_del_def
  by (rule on_netif_ends [where i = i and ks = "[]" and s = s])
    (use assms in \<open>auto simp: ready_def Let_def case_prod_beta\<close>)

lemma open_dialogue:
  assumes "ready (press i @ typed (dec p)) s t" and "1 \<le> i" and "i \<le> 9" and "cvt_ok (ev_cvt ev)" and "p \<le> 65535"
  shows "ends (snd (act_sock_open (int i) (int p) s)) (open_socket (calm ev) t)"
proof -
  have p: "p \<le> int_max" using assms(5) by (simp add: int_max_def)
  show ?thesis unfolding open_socket_def act_sock_open_def
    by (rule on_netif_ends [where i = i and ks = "typed (dec p)" and s = s],
        use assms in \<open>simp_all add: ready_def\<close>,
        rule ask_ends [where ks = "[]" and s = s, OF _ plain_dec [OF p]])
      (use assms cvt_exact [OF assms(4) p] in \<open>auto simp: ready_def Let_def case_prod_beta atoi_printed\<close>)
qed
lemma close_dialogue:
  assumes "ready (press i @ typed (dec k)) s t" and "1 \<le> i" and "i \<le> 9" and "cvt_ok (ev_cvt ev)" and "k \<le> int_max"
  shows "ends (snd (act_sock_close (int i) (int k) s)) (delete_socket (calm ev) t)"
  unfolding delete_socket_def
proof (rule on_netif_ends [where i = i and ks = "typed (dec k)" and s = s])
  fix n t' assume n: "cmd_netif_by_index (int i) s = Some n" and t': "ready (typed (dec k)) s t'"
  let ?c = "udp_source_count_sockets (Some n) (sy_host s)"
  have "ends (snd (act_sock_close (int i) (int k) s))
      (pick_socket (calm ev) n
         (\<lambda>info t. Some (tell (crlf @ ''Socket has been succesfully deleted'' @ crlf)
                    (set_host (udp_source_remove_listener (si_socket_id info) (tm_host t)) t)))
         (tell (''Select which socket you want to delete:'' @ crlf) t'))"
    by (rule pick_socket_ends [where k = k and ks = "[]" and s = s])
      (use t' n assms(4,5) in \<open>auto simp: act_sock_close_def ready_def Let_def nat_diff_distrib\<close>)
  moreover have "?c = 0 \<Longrightarrow> snd (act_sock_close (int i) (int k) s) = s" using n by (auto simp: act_sock_close_def)
  ultimately show "ends (snd (act_sock_close (int i) (int k) s))
      (if udp_source_count_sockets (Some n) (tm_host t') = 0
       then Some (tell (''No socket is present. Aborting.'' @ crlf) t')
       else pick_socket (calm ev) n
              (\<lambda>info t. Some (tell (crlf @ ''Socket has been succesfully deleted'' @ crlf)
                         (set_host (udp_source_remove_listener (si_socket_id info) (tm_host t)) t)))
              (tell (''Select which socket you want to delete:'' @ crlf) t'))"
    using t' by (simp add: ready_def)
qed (use assms in \<open>simp_all add: act_sock_close_def\<close>)

text \<open>The submenu that configures an interface; the choice of the interface is repeated for the sockets.\<close>

lemma configure_ends:
  assumes "ready (press i @ press k @ ks) s t" and "1 \<le> i" and "i \<le> 9"
    and "cmd_netif_by_index (int i) s = None \<Longrightarrow> s' = s"
    and "\<And>n t'. cmd_netif_by_index (int i) s = Some n \<Longrightarrow> ready ks s t' \<Longrightarrow>
      ends s' (if k = 1 then change_ip (calm ev) n t' else if k = 2 then change_netmask (calm ev) n t'
        else if k = 3 then change_gw (calm ev) n t' else if k = 4 then open_socket (calm ev) t'
        else if k = 5 then delete_socket (calm ev) t' else Some (invalid_key t'))"
    and "k \<in> {1, 2, 3, 4, 5}"
  shows "ends s' (menu_configure (calm ev) t)"
  unfolding menu_configure_def
  by (rule on_netif_ends [where i = i and ks = "press k @ ks" and s = s],
      use assms(1-4) in \<open>simp_all\<close>, rule choice_ends [where ks = ks and s = s and k = k])
    (use assms(5,6) in auto)

lemma set_dialogue:
  assumes "ready (press i @ press (if f = ''IP'' then 1 else if f = ''MASK'' then 2 else 3) @ typed (ipaddr_ntoa a)) s t"
    and "1 \<le> i" and "i \<le> 9" and "f = ''IP'' \<or> f = ''MASK'' \<or> f = ''GW''"
  shows "ends (snd (act_netif_set (int i) f a s)) (menu_configure (calm ev) t)"
proof (rule configure_ends [OF assms(1-3)])
  fix n t' assume n: "cmd_netif_by_index (int i) s = Some n" and t': "ready (typed (ipaddr_ntoa a)) s t'"
  obtain t1 where "set_address (calm ev) ''IP address'' (if_ip_addr (netifs (sys_net (tm_sys t')) n)) (netif_set_ipaddr n) t' = Some t1"
    "tm_sys t1 = upd_net (netif_set_ipaddr n a) s" using set_address_ends [OF t'] unfolding ends_def by metis
  then have "ends (let s = upd_net (netif_set_ipaddr n a) s in s\<lparr>sy_host := udp_source_netif_ip_changed (Some n) (sy_host s)\<rparr>)
      (change_ip (calm ev) n t')" by (simp add: change_ip_def Let_def)
  with assms(4) n set_address_ends [OF t'] show "ends (snd (act_netif_set (int i) f a s))
      (if (if f = ''IP'' then 1 else if f = ''MASK'' then 2 else 3) = (1 :: nat) then change_ip (calm ev) n t'
       else if (if f = ''IP'' then 1 else if f = ''MASK'' then 2 else 3) = (2 :: nat) then change_netmask (calm ev) n t'
       else if (if f = ''IP'' then 1 else if f = ''MASK'' then 2 else 3) = (3 :: nat) then change_gw (calm ev) n t'
       else if (if f = ''IP'' then 1 else if f = ''MASK'' then 2 else 3) = (4 :: nat) then open_socket (calm ev) t'
       else if (if f = ''IP'' then 1 else if f = ''MASK'' then 2 else 3) = (5 :: nat) then delete_socket (calm ev) t'
       else Some (invalid_key t'))"
    by (auto simp: act_netif_set_def change_netmask_def change_gw_def)
qed (auto simp: act_netif_set_def)

lemma scan_dialogue:
  assumes "ready (press i) s t" and "1 \<le> i" and "i \<le> 9"
  shows "ends (snd (act_scan ev (int i) s)) (menu_scan (calm ev) t)"
  unfolding menu_scan_def act_scan_def
  by (rule on_netif_ends [where i = i and ks = "[]" and s = s])
    (use assms in \<open>auto simp: ready_def Let_def case_prod_beta succeed_def\<close>)

lemma split_typed:
  assumes "answer t = ipaddr_ntoa a @ ''/'' @ dec p"
  shows "\<exists>t'. split_target t = Some (ipaddr_ntoa a, dec p, t') \<and> tm_sys t' = tm_sys t \<and> tm_keys t' = tm_keys t \<and> length (tm_buf t') = length (tm_buf t)"
proof -
  have "takeWhile (\<lambda>c. c \<noteq> CHR ''/'') (ipaddr_ntoa a @ CHR ''/'' # dec p) = ipaddr_ntoa a"
    by (rule takeWhile_until) (auto dest!: ntoa_chars simp: isdigit_def in_range_def chr_code_def)
  then show ?thesis using assms by (simp add: split_target_def Let_def)
qed

lemma send_message_ends:
  assumes "ready (typed d) s t" and "plain_text d"
  shows "ends (s\<lparr>sy_host := snd (udp_source_data_send (si_socket_id socket) (si_netif socket) a port (map of_char d) (sy_host s))\<rparr>)
    (send_message (calm ev) socket a port t)"
  unfolding send_message_def
  by (rule ask_ends [where ks = "[]" and s = s, OF _ assms(2)]) (use assms(1) in \<open>auto simp: ready_def Let_def case_prod_beta\<close>)

lemma send_to_ends:
  assumes "ready (typed (ipaddr_ntoa a @ ''/'' @ dec p) @ typed d) s t" and "cvt_ok (ev_cvt ev)" and "1 \<le> p" and "p \<le> 65535" and "plain_text d"
  shows "ends (s\<lparr>sy_host := snd (udp_source_data_send (si_socket_id socket) (si_netif socket) a (of_int (int p)) (map of_char d) (sy_host s))\<rparr>)
    (send_to (calm ev) socket t)"
  unfolding send_to_def
proof (rule ask_ends [where ks = "typed d" and s = s, OF _ plain_target [OF assms(4)]])
  fix t1 assume t1: "ready (typed d) s t1" "answer t1 = ipaddr_ntoa a @ ''/'' @ dec p"
  from split_typed [OF t1(2)] t1(1) obtain t2 where t2: "split_target t1 = Some (ipaddr_ntoa a, dec p, t2)" "ready (typed d) s t2"
    by (auto simp: ready_def)
  have p: "atoi (ev_cvt ev) (dec p) = int p" using cvt_exact [OF assms(2)] assms(4) by (simp add: atoi_printed int_max_def)
  have "(of_nat p :: u16) \<noteq> 0" using assms(3,4) by (simp add: word_of_nat_eq_0_iff nat_dvd_not_less)
  with t2 p send_message_ends [OF t2(2) assms(5)] show
    "ends (s\<lparr>sy_host := snd (udp_source_data_send (si_socket_id socket) (si_netif socket) a (of_int (int p)) (map of_char d) (sy_host s))\<rparr>)
      (case split_target t1 of
            None \<Rightarrow> Some (tell (''Invalid format, expected IP/port'' @ crlf) t1)
          | Some (ip_str, port_str, t) \<Rightarrow>
             (case ipaddr_aton ip_str of
                None \<Rightarrow> Some (tell (''Invalid IP'' @ crlf) t)
              | Some ip_rx \<Rightarrow>
                 (let port = (of_int (atoi (me_cvt (calm ev)) port_str) :: u16) in
                  if port = 0 then Some (tell (''Invalid Port'' @ crlf) t)
                  else send_message (calm ev) socket ip_rx port t)))"
    by (simp add: aton_ntoa)
qed (use assms(1) in simp)

lemma send_dialogue:
  assumes "ready (press i @ typed (dec k) @ typed (ipaddr_ntoa a @ ''/'' @ dec p) @ typed d) s t" and "1 \<le> i" and "i \<le> 9"
    and "cvt_ok (ev_cvt ev)" and "k \<le> int_max" and "1 \<le> p" and "p \<le> 65535" and "plain_text d"
  shows "ends (snd (act_udp_send (int i) (int k) a (int p) d s)) (menu_send (calm ev) t)"
  unfolding menu_send_def Let_def
proof (rule on_netif_ends [where i = i and ks = "typed (dec k) @ typed (ipaddr_ntoa a @ ''/'' @ dec p) @ typed d" and s = s])
  fix n t' assume n: "cmd_netif_by_index (int i) s = Some n"
    and t': "ready (typed (dec k) @ typed (ipaddr_ntoa a @ ''/'' @ dec p) @ typed d) s t'"
  let ?c = "udp_source_count_sockets (Some n) (sy_host s)" and ?s = "snd (act_udp_send (int i) (int k) a (int p) d s)"
  have "ends ?s (pick_socket (calm ev) n (send_to (calm ev)) (tell (''Chose the sending port'' @ crlf) t'))"
  proof (rule pick_socket_ends [where k = k and s = s, OF _ assms(5,4)])
    fix t1 assume t1: "1 \<le> k" "k \<le> ?c" "ready (typed (ipaddr_ntoa a @ ''/'' @ dec p) @ typed d) s t1"
    show "ends ?s (send_to (calm ev) (udp_source_get_socket (Some n) (k - 1) (sy_host s)) t1)"
      using send_to_ends [OF t1(3) assms(4,6,7,8)] n t1(1,2) by (simp add: act_udp_send_def Let_def case_prod_beta nat_diff_distrib)
  qed (use t' n in \<open>auto simp: act_udp_send_def\<close>)
  moreover have "?c = 0 \<Longrightarrow> ?s = s" using n by (auto simp: act_udp_send_def)
  ultimately show "ends ?s
      (if udp_source_count_sockets (Some n) (tm_host (tell (''Chose the sending port'' @ crlf) t')) = 0
       then Some (tell (''No active ports. Create a UDP socket first. Exiting...'' @ crlf) (tell (''Chose the sending port'' @ crlf) t'))
       else pick_socket (calm ev) n (send_to (calm ev)) (tell (''Chose the sending port'' @ crlf) t'))"
    using t' by (simp add: ready_def)
qed (use assms in \<open>simp_all add: act_udp_send_def\<close>)
section \<open>Properties\<close>

lemma no_netif:
  "cmd_netif_by_index i s = None \<Longrightarrow> snd (act_sock_open i p s) = s" "cmd_netif_by_index i s = None \<Longrightarrow> snd (act_sock_close i k s) = s"
  by (simp_all add: act_sock_open_def act_sock_close_def)

lemma dialogue_ends:
  assumes "has_dialogue c" and "cvt_ok (ev_cvt ev)" and "ready (dialogue c) s t"
  shows "\<exists>r. run_command ev c s = Some r \<and> ends (snd r) (read_terminal_line (calm ev) t)"
proof -
  have one: "dec 1 = ''1''" "dec 2 = ''2''" "dec 3 = ''3''" "dec 4 = ''4''" "dec 6 = ''6''" "dec 7 = ''7''" by code_simp+
  have opt: "\<exists>t'. ready ks s t' \<and> read_terminal_line (calm ev) t = menu_option (calm ev) (int k) t'"
    if "ready (typed (dec k) @ ks) s t" "k \<le> 7" for k ks
    by (rule option_chosen [OF that(1) assms(2) that(2)]) blast
  show ?thesis
  proof (cases c)
    case Netif_list
    then obtain t' where "ready [] s t'" "read_terminal_line (calm ev) t = menu_option (calm ev) 1 t'"
      using assms(3) one opt [of 1 "[]"] by auto
    with Netif_list show ?thesis by (simp add: menu_option_def terminal_list_netif_def ready_def cmd_netif_list_def)
  next
    case (Netif_add a m g)
    let ?ks = "typed (ipaddr_ntoa a) @ typed (ipaddr_ntoa m) @ typed (ipaddr_ntoa g)"
    obtain t' where t': "ready (press 1 @ ?ks) s t'" "read_terminal_line (calm ev) t = menu_option (calm ev) 3 t'"
      using assms(3) one Netif_add opt [of 3 "press 1 @ ?ks"] by auto
    have "ends (snd (act_netif_add a m g s)) (menu_netifs (calm ev) t')"
      unfolding menu_netifs_def using t'(1) add_dialogue by (intro choice_ends [where ks = ?ks and s = s and k = 1]) simp_all
    with t'(2) Netif_add show ?thesis by (simp add: menu_option_def)
  next
    case (Netif_del i)
    obtain t' where t': "ready (press 2 @ press i) s t'" "read_terminal_line (calm ev) t = menu_option (calm ev) 3 t'"
      using assms(3) one Netif_del opt [of 3 "press 2 @ press i"] by auto
    have "ends (snd (act_netif_del (int i) s)) (menu_netifs (calm ev) t')"
      unfolding menu_netifs_def using t'(1) assms(1) Netif_del del_dialogue
      by (intro choice_ends [where ks = "press i" and s = s and k = 2]) simp_all
    with t'(2) Netif_del show ?thesis by (simp add: menu_option_def)
  next
    case (Netif_set i f a)
    let ?ks = "press i @ press (if f = ''IP'' then 1 else if f = ''MASK'' then 2 else 3) @ typed (ipaddr_ntoa a)"
    obtain t' where t': "ready ?ks s t'" "read_terminal_line (calm ev) t = menu_option (calm ev) 2 t'"
      using assms(3) one Netif_set opt [of 2 ?ks] by auto
    have "ends (snd (act_netif_set (int i) f a s)) (menu_configure (calm ev) t')"
      using assms(1) Netif_set by (intro set_dialogue [OF t'(1)]) auto
    with t'(2) Netif_set show ?thesis by (simp add: menu_option_def)
  next
    case (Sock_open i p)
    obtain t' where t': "ready (press i @ press 4 @ press i @ typed (dec p)) s t'" "read_terminal_line (calm ev) t = menu_option (calm ev) 2 t'"
      using assms(3) one Sock_open opt [of 2 "press i @ press 4 @ press i @ typed (dec p)"] by auto
    have "ends (snd (act_sock_open (int i) (int p) s)) (menu_configure (calm ev) t')"
      using assms(1,2) Sock_open by (intro configure_ends [OF t'(1)]) (simp_all add: no_netif(1) open_dialogue)
    with t'(2) Sock_open show ?thesis by (simp add: menu_option_def)
  next
    case (Sock_close i k)
    obtain t' where t': "ready (press i @ press 5 @ press i @ typed (dec k)) s t'" "read_terminal_line (calm ev) t = menu_option (calm ev) 2 t'"
      using assms(3) one Sock_close opt [of 2 "press i @ press 5 @ press i @ typed (dec k)"] by auto
    have "ends (snd (act_sock_close (int i) (int k) s)) (menu_configure (calm ev) t')"
      using assms(1,2) Sock_close by (intro configure_ends [OF t'(1)]) (simp_all add: no_netif(2) close_dialogue)
    with t'(2) Sock_close show ?thesis by (simp add: menu_option_def)
  next
    case (Ping i a)
    then show ?thesis using assms(1) by simp
  next
    case (Scan i)
    obtain t' where t': "ready (press i) s t'" "read_terminal_line (calm ev) t = menu_option (calm ev) 7 t'"
      using assms(3) one Scan opt [of 7 "press i"] by auto
    with scan_dialogue [OF t'(1)] assms(1) Scan show ?thesis by (simp add: menu_option_def)
  next
    case Arp_reset
    then obtain t' where "ready [] s t'" "read_terminal_line (calm ev) t = menu_option (calm ev) 6 t'"
      using assms(3) one opt [of 6 "[]"] by auto
    with Arp_reset show ?thesis by (simp add: menu_option_def menu_arp_reset_def ready_def cmd_arp_reset_def)
  next
    case (Udp_send i k a p d)
    let ?ks = "press i @ typed (dec k) @ typed (ipaddr_ntoa a @ ''/'' @ dec p) @ typed d"
    obtain t' where t': "ready ?ks s t'" "read_terminal_line (calm ev) t = menu_option (calm ev) 4 t'"
      using assms(3) one Udp_send opt [of 4 ?ks] by auto
    with send_dialogue [OF t'(1)] assms(1,2) Udp_send show ?thesis by (simp add: menu_option_def)
  qed
qed
text \<open>
  C10: the menus and the command channel agree. The dialogue for a command (the answers that a user types at the prompts
  when nothing else arrives meanwhile) always comes to an end, and it leaves the system in exactly the state in which the
  command with the same interface, socket, addresses, port and data leaves it, also when the operation fails or is
  refused because the interface or the socket does not exist.
\<close>

theorem dialogue_agrees:
  assumes "has_dialogue c" and "cvt_ok (ev_cvt ev)"
    and "tm_keys t = dialogue c" and "length (tm_buf t) = CMD_BUFFER_SIZE"
  shows "\<exists>t' r. read_terminal_line (calm ev) t = Some t' \<and> run_command ev c (tm_sys t) = Some r \<and> tm_sys t' = snd r"
  using dialogue_ends [OF assms(1,2), of "tm_sys t" t] assms(3,4) by (auto simp: ready_def ends_def)

definition fresh_term :: "key list \<Rightarrow> sys_st \<Rightarrow> term_st" where
  "fresh_term ks s = \<lparr>tm_keys = ks, tm_buf = replicate CMD_BUFFER_SIZE 0, tm_out = [], tm_sys = s, tm_tick = 0\<rparr>"

theorem dialogue_agrees_witness:
  "has_dialogue (Udp_send 1 1 0x0a000005 7 ''hi'') \<and>
   (\<exists>t' r. read_terminal_line (calm quiet_env) (fresh_term (dialogue (Udp_send 1 1 0x0a000005 7 ''hi'')) (sys_of boot_two)) = Some t' \<and>
      run_command quiet_env (Udp_send 1 1 0x0a000005 7 ''hi'') (sys_of boot_two) = Some r \<and> tm_sys t' = snd r)"
proof -
  let ?c = "Udp_send 1 1 0x0a000005 7 ''hi''"
  have "plain_text ''hi''" by (simp add: plain_text_def CMD_BUFFER_SIZE_def typable_def)
  then have c: "has_dialogue ?c" by (simp add: int_max_def)
  from dialogue_agrees [OF c quiet_cvt, of "fresh_term (dialogue ?c) (sys_of boot_two)"] c show ?thesis
    by (simp add: fresh_term_def del: dialogue.simps)
qed

text \<open>
  C40: whatever is typed into the menus, in whatever order, whatever frames arrive while a menu waits and however long the
  waits for replies take, a menu that comes to an end leaves the invariant of the system intact and its input buffer
  with its size: no key sequence closes a socket in use, frees an interface twice or writes behind the buffer.
\<close>

theorem menu_invariant:
  assumes "read_terminal_line ev t = Some t'" and "sys_wf (tm_sys t)" and "length (tm_buf t) = CMD_BUFFER_SIZE"
  shows "sys_wf (tm_sys t') \<and> length (tm_buf t') = CMD_BUFFER_SIZE"
  using read_terminal_line_wf [of t ev] assms by (simp add: term_wf_def)

theorem menu_invariant_witness:
  "sys_wf (tm_sys (the (read_terminal_line (calm quiet_env) (fresh_term (typed ''3'' @ press 2 @ press 1) (sys_of boot_two)))))"
proof -
  let ?t = "fresh_term (typed ''3'' @ press 2 @ press 1) (sys_of boot_two)"
  have "read_terminal_line (calm quiet_env) ?t \<noteq> None"
    using dialogue_ends [of "Netif_del 1" quiet_env "sys_of boot_two" ?t] quiet_cvt by (auto simp: ready_def fresh_term_def ends_def)
  then have "read_terminal_line (calm quiet_env) ?t = Some (the (read_terminal_line (calm quiet_env) ?t))" by simp
  from menu_invariant [OF this] boot_two_sys_wf show ?thesis by (simp add: fresh_term_def)
qed

end
