(* ===== verification/Main_Loop.thy ===== *)
theory Main_Loop
  imports Terminal_Menu
begin

text \<open>
  The main loop of the firmware (\<open>src/example/hdk/src/lwip_main.c\<close>, \<open>EMAC_LwIP_Main\<close>): it prints what the sockets have
  received, hands the bytes of the serial line to the command channel and opens the menu. The program as a whole is a
  transition system whose steps are the receive interrupt and an iteration of the loop; inside an iteration the interrupt is taken
  at every poll of a socket or of the serial line and in the busy-waits, and what lies in between is atomic. Its
  invariant is the invariant of the system, and a datagram that was stored in a socket is reported by the next iteration.
\<close>

section \<open>One iteration\<close>

text \<open>\<open>mn_line\<close> is the line buffer of the command channel; the rest of the state is that of the terminal.\<close>

record main_st =
  mn_term :: term_st
  mn_line :: string

definition evt_text :: "udp_rx_msg \<Rightarrow> u32 \<Rightarrow> u16 \<Rightarrow> string" where
  "evt_text m my_ip port =
     crlf @ ''#EVT UDPRX '' @ ipaddr_ntoa (rm_src_ip m) @ '':'' @ dec (unat (rm_src_port m)) @ '' -> '' @ ipaddr_ntoa my_ip @ '':'' @
     dec (unat port) @ '' '' @ dec (unat (rm_data_len m)) @ '' bayt'' @ crlf @
     (if unat (rm_data_len m) > 0
      then ''#EVT Data: '' @ map byte_char (take (min 64 (unat (rm_data_len m))) (rm_data m)) @ crlf else [])"

text \<open>The next socket is asked for its message; frames may arrive before.\<close>

definition poll_socket :: "menu_env \<Rightarrow> netif_ptr \<Rightarrow> nat \<Rightarrow> term_st \<Rightarrow> term_st" where
  "poll_socket ev n j t =
     (let t = tick ev t; socket = udp_source_get_socket (Some n) j (tm_host t);
          (r, h) = udp_source_poll_rx (si_socket_id socket) (tm_host t);
          t = set_host h t
      in case r of
           None \<Rightarrow> t
         | Some m \<Rightarrow> tell (evt_text m (if_ip_addr (netifs (sys_net (tm_sys t)) (the (si_netif socket)))) (si_local_port socket)) t)"

text \<open>The sockets of one interface, from number \<open>j\<close> on; an interface has at most \<open>UDP_MAX_LISTENERS\<close>.\<close>

fun poll_sockets :: "menu_env \<Rightarrow> netif_ptr \<Rightarrow> nat \<Rightarrow> nat \<Rightarrow> term_st \<Rightarrow> term_st" where
  "poll_sockets ev n j 0 t = t"
| "poll_sockets ev n j (Suc left) t =
     (if j < udp_source_count_sockets (Some n) (tm_host t) then poll_sockets ev n (j + 1) left (poll_socket ev n j t) else t)"

fun poll_netifs :: "menu_env \<Rightarrow> netif_ptr list \<Rightarrow> term_st \<Rightarrow> term_st" where
  "poll_netifs ev [] t = t"
| "poll_netifs ev (n # ns) t = poll_netifs ev ns (poll_sockets ev n 0 UDP_MAX_LISTENERS t)"

definition rx_polling :: "menu_env \<Rightarrow> term_st \<Rightarrow> term_st" where
  "rx_polling ev t = poll_netifs ev (tm_netifs t) t"

text \<open>A byte of the serial line, if there is one: \<open>q\<close> opens the menu, everything else is for the command channel.\<close>

definition serial_input :: "menu_env \<Rightarrow> main_st \<Rightarrow> main_st option" where
  "serial_input ev st =
     (let t = mn_term st in
      case tm_keys t of
        Byte key # ks \<Rightarrow>
          if key = of_char CHR ''q'' then
            map_option (\<lambda>t. st\<lparr>mn_term := t\<rparr>) (read_terminal_line ev (t\<lparr>tm_keys := ks\<rparr>))
          else
            (case cmd_channel_feed (me_ping ev (tm_tick t)) key (mn_line st) (tm_sys t) of
               None \<Rightarrow> None
             | Some (out, line, s) \<Rightarrow>
                Some (st\<lparr>mn_term := tell (concat out) (t\<lparr>tm_keys := ks, tm_sys := s, tm_tick := tm_tick t + 1\<rparr>), mn_line := line\<rparr>))
      | Idle # ks \<Rightarrow> Some (st\<lparr>mn_term := t\<lparr>tm_keys := ks\<rparr>\<rparr>)
      | [] \<Rightarrow> Some st)"

definition main_iteration :: "menu_env \<Rightarrow> main_st \<Rightarrow> main_st option" where
  "main_iteration ev st = serial_input ev (st\<lparr>mn_term := rx_polling ev (mn_term st)\<rparr>)"

section \<open>The program as a transition system\<close>

text \<open>
  The program starts with the list of the interfaces on the terminal; the texts before it are left out. A step is a frame in the receive interrupt, an
  iteration of the main loop in some environment, or more input on the serial line. The environment \<open>ev\<close> brings the frames that
  arrive during the iteration, at its polls and busy-waits. The operations between these points are one step of the model.
  In the program an interrupt may come inside those that do not disable it; what it then does to \<open>udp_bind\<close> is in \<open>Pcb_List\<close>.
\<close>

definition main_start :: "u8 list \<Rightarrow> u32 \<Rightarrow> u32 \<Rightarrow> u32 \<Rightarrow> phy_st \<Rightarrow> mem_st \<Rightarrow> main_st option" where
  "main_start mac ip_ana netmask_ana gateway_ana phy mem =
     map_option (\<lambda>s. \<lparr>mn_term = terminal_list_netif
                        \<lparr>tm_keys = [], tm_buf = replicate CMD_BUFFER_SIZE 0, tm_out = [], tm_sys = s, tm_tick = 0\<rparr>,
                      mn_line = []\<rparr>)
       (sys_start mac ip_ana netmask_ana gateway_ana phy mem ''HDK enet_lwip (dual-ip)'')"

inductive main_step :: "main_st \<Rightarrow> main_st \<Rightarrow> bool" where
  interrupt: "main_step st (st\<lparr>mn_term := (mn_term st)\<lparr>tm_sys := ethernet_input now p (Hdk 0) (tm_sys (mn_term st))\<rparr>\<rparr>)"
| typed_key: "main_step st (st\<lparr>mn_term := (mn_term st)\<lparr>tm_keys := tm_keys (mn_term st) @ [k]\<rparr>\<rparr>)"
| iteration: "main_iteration ev st = Some st' \<Longrightarrow> main_step st st'"

inductive reachable :: "main_st \<Rightarrow> bool" where
  start: "length mac = 6 \<Longrightarrow> main_start mac a m g phy mem = Some st \<Longrightarrow> reachable st"
| step: "reachable st \<Longrightarrow> main_step st st' \<Longrightarrow> reachable st'"

inductive_cases main_stepE: "main_step st st'"

section \<open>The invariant\<close>

definition main_wf :: "main_st \<Rightarrow> bool" where
  "main_wf st \<longleftrightarrow> term_wf (mn_term st) \<and> length (mn_line st) < CMD_LINE_MAX"

lemma poll_socket_wf: "term_wf t \<Longrightarrow> term_wf (poll_socket ev n j t)"
proof -
  assume t: "term_wf t"
  let ?t = "tick ev t"
  have "term_wf ?t" using steady_tick [OF t] by (rule steady_wf)
  then have "term_wf (set_host (snd (udp_source_poll_rx sid (tm_host ?t))) ?t)" for sid
    by (intro set_host_wf poll_rx_sys_wf term_wf_sys)
  then show ?thesis unfolding poll_socket_def Let_def case_prod_beta by (simp split: option.split)
qed

lemma poll_sockets_wf: "term_wf t \<Longrightarrow> term_wf (poll_sockets ev n j left t)"
  by (induction ev n j left t rule: poll_sockets.induct) (auto intro: poll_socket_wf)

lemma rx_polling_wf: "term_wf t \<Longrightarrow> term_wf (rx_polling ev t)"
proof -
  have "term_wf t \<Longrightarrow> term_wf (poll_netifs ev ns t)" for ns t
    by (induction ns arbitrary: t) (auto intro: poll_sockets_wf)
  then show "term_wf t \<Longrightarrow> term_wf (rx_polling ev t)" by (simp add: rx_polling_def)
qed

lemma rx_polling_keys: "tm_keys (rx_polling ev t) = tm_keys t"
proof -
  have p: "tm_keys (poll_socket ev n j t) = tm_keys t" for ev n j t
    by (auto simp: poll_socket_def Let_def case_prod_beta split: option.split)
  have "tm_keys (poll_sockets ev n j left t) = tm_keys t" for n j left t
    by (induction ev n j left t rule: poll_sockets.induct) (auto simp: p)
  then have "tm_keys (poll_netifs ev ns t) = tm_keys t" for ns t by (induction ns arbitrary: t) auto
  then show ?thesis by (simp add: rx_polling_def)
qed

lemma iteration_idle: "tm_keys (mn_term st) = [] \<Longrightarrow> main_iteration ev st = Some (st\<lparr>mn_term := rx_polling ev (mn_term st)\<rparr>)"
  by (simp add: main_iteration_def serial_input_def rx_polling_keys)

lemma keys_wf [simp]: "term_wf (t\<lparr>tm_keys := ks\<rparr>) = term_wf t"
  by (simp add: term_wf_def)

lemma serial_input_wf:
  assumes "main_wf st" and "serial_input ev st = Some st'"
  shows "main_wf st'"
proof -
  let ?t = "mn_term st"
  have t: "term_wf ?t" and l: "length (mn_line st) < CMD_LINE_MAX" using assms(1) by (simp_all add: main_wf_def)
  show ?thesis
  proof (cases "tm_keys ?t")
    case Nil
    then show ?thesis using assms by (simp add: serial_input_def)
  next
    case (Cons k ks)
    show ?thesis
    proof (cases k)
      case Idle
      then show ?thesis using assms Cons by (auto simp: serial_input_def main_wf_def)
    next
      case (Byte key)
      show ?thesis
      proof (cases "key = of_char CHR ''q''")
        case True
        then show ?thesis using assms(2) Cons Byte read_terminal_line_wf [of "?t\<lparr>tm_keys := ks\<rparr>" ev] t l
          by (auto simp: serial_input_def main_wf_def)
      next
        case False
        then obtain out line s where f: "cmd_channel_feed (me_ping ev (tm_tick ?t)) key (mn_line st) (tm_sys ?t) = Some (out, line, s)"
          "st' = st\<lparr>mn_term := tell (concat out) (?t\<lparr>tm_keys := ks, tm_sys := s, tm_tick := tm_tick ?t + 1\<rparr>), mn_line := line\<rparr>"
          using assms(2) Cons Byte by (auto simp: serial_input_def Let_def split: option.splits)
        with feed_bound [OF l f(1)] feed_wf [OF term_wf_sys [OF t] f(1)] t show ?thesis by (simp add: main_wf_def term_wf_def)
      qed
    qed
  qed
qed

lemma main_step_wf: "main_step st st' \<Longrightarrow> main_wf st \<Longrightarrow> main_wf st'"
proof (induction rule: main_step.induct)
  case (interrupt st now p)
  then show ?case using ethernet_input_wf [of "tm_sys (mn_term st)" "Hdk 0"] Hdk0_in by (auto simp: main_wf_def term_wf_def)
next
  case (typed_key st k)
  then show ?case by (simp add: main_wf_def)
next
  case (iteration ev st st')
  have "main_wf (st\<lparr>mn_term := rx_polling ev (mn_term st)\<rparr>)" using iteration.prems rx_polling_wf by (simp add: main_wf_def)
  with iteration.hyps show ?case by (simp add: main_iteration_def serial_input_wf)
qed

lemma main_start_wf: "length mac = 6 \<Longrightarrow> \<exists>st. main_start mac a m g phy mem = Some st \<and> main_wf st"
  by (rule sys_start_wf [of mac a m g phy mem "''HDK enet_lwip (dual-ip)''"])
    (auto simp: main_start_def main_wf_def term_wf_def terminal_list_netif_def CMD_LINE_MAX_def)

lemma reachable_wf: "reachable st \<Longrightarrow> main_wf st"
proof (induction rule: reachable.induct)
  case (start mac a m g phy mem st)
  with main_start_wf [of mac a m g phy mem] show ?case by auto
qed (rule main_step_wf)
section \<open>Reception keeps stored messages\<close>

text \<open>
  What received frames leave of a slot: everything but an empty mailbox and the counts; and of the control blocks the
  ports that are bound.
\<close>

definition slot_kept :: "udp_listener \<Rightarrow> udp_listener \<Rightarrow> bool" where
  "slot_kept l l' \<longleftrightarrow> ls_pcb l' = ls_pcb l \<and> ls_netif l' = ls_netif l \<and> ls_generation l' = ls_generation l \<and>
     ls_in_use l' = ls_in_use l \<and> (rm_valid (ls_rx_msg l) \<longrightarrow> ls_rx_msg l' = ls_rx_msg l)"

definition host_kept :: "host_st \<Rightarrow> host_st \<Rightarrow> bool" where
  "host_kept h h' \<longleftrightarrow> list_all2 slot_kept (s_listeners h) (s_listeners h') \<and>
     (\<forall>i. pcb_local_port (pcb_at (h_udp h) i) \<noteq> 0 \<longrightarrow>
        pcb_local_port (pcb_at (h_udp h') i) = pcb_local_port (pcb_at (h_udp h) i))"

lemma slot_kept_refl [simp]: "slot_kept l l"
  by (simp add: slot_kept_def)

lemma slot_kept_trans: "slot_kept a b \<Longrightarrow> slot_kept b c \<Longrightarrow> slot_kept a c"
  by (auto simp: slot_kept_def)

lemma host_kept_refl [simp]: "host_kept h h"
  by (simp add: host_kept_def list_all2_same)

lemma host_kept_trans: "host_kept a b \<Longrightarrow> host_kept b c \<Longrightarrow> host_kept a c"
  by (auto simp: host_kept_def intro: list_all2_trans [OF slot_kept_trans])

lemma rx_callback_kept: "host_kept h (snd (udp_rx_callback i p a port h))"
proof -
  have "slot_kept (ls ! k) (ls[i := x] ! k)" if "slot_kept (ls ! i) x" "k < length ls" for ls x k
    using that by (cases "k = i") simp_all
  then have "list_all2 slot_kept ls (ls[i := x])" if "slot_kept (ls ! i) x" for ls x
    using that by (simp add: list_all2_conv_all_nth)
  then show ?thesis by (auto simp: udp_rx_callback_def host_kept_def upd_slot_def slot_kept_def list_all2_same)
qed

lemma bind_other: "i \<noteq> pcb \<Longrightarrow> pcb_at (snd (udp_bind pcb a port u)) i = pcb_at u i"
  by (auto simp: udp_bind_def udp_new_port_def Let_def upd_pcb_def split: prod.splits option.splits)

lemma sendto_ports:
  assumes "pcb_local_port (pcb_at (st_udp st) i) \<noteq> 0"
  shows "pcb_at (st_udp (snd (udp_sendto pcb p dst port st))) i = pcb_at (st_udp st) i"
proof -
  have "pcb_at u i = pcb_at (st_udp st) i"
    if "udp_bind pcb a q (st_udp st) = (e, u)" "pcb_local_port (pcb_at (st_udp st) pcb) = 0" for a q e u
    using bind_other [of i pcb a q "st_udp st"] that assms by (cases "i = pcb") auto
  then show ?thesis by (auto simp: udp_sendto_def udp_sendto_if_def Let_def split: option.splits prod.splits if_splits)
qed

lemma locator_kept: "host_kept (sy_host s) (sy_host (LocatorReceive pcb p a port s))"
proof -
  have "pcb_local_port (pcb_at (h_udp (sy_host (LocatorReceive pcb p a port s))) i) = pcb_local_port (pcb_at (h_udp (sy_host s)) i)"
    if "pcb_local_port (pcb_at (h_udp (sy_host s)) i) \<noteq> 0" for i
  proof -
    have "pcb_at (st_udp st') i = pcb_at (h_udp (sy_host s)) i"
      if "udp_sendto pcb q a port \<lparr>st_net = net, st_udp = h_udp (sy_host s)\<rparr> = (e, st')" for q net e st'
      using sendto_ports [of "\<lparr>st_net = net, st_udp = h_udp (sy_host s)\<rparr>" i pcb q a port] that
        \<open>pcb_local_port (pcb_at (h_udp (sy_host s)) i) \<noteq> 0\<close> by simp
    then show ?thesis by (auto simp: LocatorReceive_def set_net_def Let_def split: option.splits prod.splits)
  qed
  then show ?thesis by (simp add: host_kept_def LocatorReceive_listeners list_all2_same)
qed

lemma deliver_kept: "host_kept (sy_host s) (sy_host (udp_deliver pcb p a port s))"
  using locator_kept rx_callback_kept by (auto simp: udp_deliver_def split: udp_recv_fn.split)

lemma net_kept [simp]: "host_kept h (h'\<lparr>h_net := net\<rparr>) = host_kept h h'"
  by (simp add: host_kept_def)

lemma accept_kept: "host_kept (sy_host s) (sy_host (udp_accept q hlen n a b hdr pcb s))"
  using deliver_kept by (auto simp: udp_accept_def split: option.splits)

lemma demux_kept: "host_kept h (h\<lparr>h_udp := snd (udp_demux n src dst sp dp (h_udp h))\<rparr>)"
  by (auto simp: host_kept_def udp_demux_def Let_def list_all2_same split: prod.splits option.splits)

lemma input_kept: "host_kept (sy_host s) (sy_host (udp_input p inp src dst s))"
proof -
  have "host_kept (sy_host s) (sy_host (udp_accept q hlen n src dst hdr pcb (s\<lparr>sy_host := (sy_host s)\<lparr>h_udp := u\<rparr>\<rparr>)))"
    if "udp_demux n' src dst sp dp (h_udp (sy_host s)) = (pcb, u)" for q hlen n n' hdr pcb u sp dp
    using host_kept_trans [OF demux_kept [of "sy_host s" n' src dst sp dp] ] accept_kept [of "s\<lparr>sy_host := (sy_host s)\<lparr>h_udp := u\<rparr>\<rparr>"] that
    by simp
  then show ?thesis by (auto simp: udp_input_def Let_def split: option.splits prod.splits)
qed

lemma ip_deliver_kept: "host_kept (sy_host s) (sy_host (ip_deliver proto p inp src dst s))"
  using input_kept by (auto simp: ip_deliver_def)

lemma ip_input_kept: "host_kept (sy_host s) (sy_host (ip_input now p inp s))"
proof -
  have "host_kept (sy_host s) (sy_host (ip_deliver proto q inp src dst (s\<lparr>sy_ping := ps\<rparr>)))" for proto q src dst ps
    using ip_deliver_kept [of "s\<lparr>sy_ping := ps\<rparr>"] by simp
  then show ?thesis by (simp add: ip_input_def Let_def split: prod.splits bool.splits)
qed

lemma ethernet_input_kept: "host_kept (sy_host s) (sy_host (ethernet_input now p d s))"
  using ip_input_kept by (auto simp: ethernet_input_def Let_def split: option.splits)

lemma receive_kept: "host_kept (sy_host s) (sy_host (receive frames s))"
proof (induction frames arbitrary: s)
  case (Cons f frames)
  obtain now p where "f = (now, p)" by (cases f)
  with Cons.IH [of "ethernet_input now p (Hdk 0) s"] host_kept_trans [OF ethernet_input_kept] show ?case
    by (simp add: receive_def)
qed (simp add: receive_def)
section \<open>A stored message is reported\<close>

text \<open>Slot \<open>i\<close> on interface \<open>n\<close> holds message \<open>m\<close>; \<open>S\<close> gives the slots of each interface in the order of polling.\<close>

definition waiting :: "(netif_ptr \<Rightarrow> nat list) \<Rightarrow> netif_ptr \<Rightarrow> nat \<Rightarrow> udp_rx_msg \<Rightarrow> u32 \<Rightarrow> u16 \<Rightarrow> term_st \<Rightarrow> bool" where
  "waiting S n i m ip port t \<longleftrightarrow> term_wf t \<and> (\<forall>x. slots_on x (s_listeners (tm_host t)) = S x) \<and> i \<in> set (S n) \<and>
     ls_rx_msg (s_listeners (tm_host t) ! i) = m \<and> rm_valid m \<and> slot_port (tm_host t) (s_listeners (tm_host t) ! i) = port \<and>
     if_ip_addr (netifs (sys_net (tm_sys t)) n) = ip"

lemma term_wf_host: "term_wf t \<Longrightarrow> host_wf (tm_host t)"
  by (simp add: term_wf_def sys_wfD)

lemma reg_ok_term: "term_wf t \<Longrightarrow> reg_ok (tm_host t)"
  using term_wf_host [of t] by (simp add: host_wf_def)

lemma in_slots_on: "i \<in> set (slots_on n ls) \<longleftrightarrow> i < UDP_MAX_LISTENERS \<and> slot_on n (ls ! i)"
  by (auto simp: slots_on_def)

lemma kept_nth: "host_kept h h' \<Longrightarrow> reg_ok h \<Longrightarrow> i < UDP_MAX_LISTENERS \<Longrightarrow> slot_kept (s_listeners h ! i) (s_listeners h' ! i)"
  by (auto simp: host_kept_def reg_ok_def list_all2_conv_all_nth)

lemma kept_slots_on:
  assumes "host_kept h h'" and "reg_ok h"
  shows "slots_on x (s_listeners h') = slots_on x (s_listeners h)"
  unfolding slots_on_def using kept_nth [OF assms] by (intro filter_cong) (auto simp: slot_on_def slot_kept_def)

lemma waiting_tick:
  assumes "waiting S n i m ip port t"
  shows "waiting S n i m ip port (tick ev t)"
proof -
  let ?h = "tm_host t" and ?h' = "tm_host (tick ev t)"
  have t: "term_wf t" and i: "i < UDP_MAX_LISTENERS" "slot_on n (s_listeners ?h ! i)"
    using assms in_slots_on [of i n "s_listeners ?h"] by (auto simp: waiting_def)
  have k: "host_kept ?h ?h'" using receive_kept [of "tm_sys t"] by simp
  have s: "slot_kept (s_listeners ?h ! i) (s_listeners ?h' ! i)" using kept_nth [OF k reg_ok_term [OF t] i(1)] .
  obtain pcb where p: "ls_pcb (s_listeners ?h ! i) = Some pcb" "pcb \<in> set (udp_pcbs (h_udp ?h))"
    using host_wf_slot [OF term_wf_host [OF t] i(1)] i(2) unfolding slot_on_def by metis
  have "slot_port ?h' (s_listeners ?h' ! i) = slot_port ?h (s_listeners ?h ! i)"
    using k s p slot_port_bound [OF term_wf_host [OF t] p(2)] unfolding slot_port_def host_kept_def slot_kept_def by auto
  moreover have "term_wf (tick ev t)" "netifs (sys_net (tm_sys (tick ev t))) = netifs (sys_net (tm_sys t))"
    using steady_tick [OF t, of ev] by (simp_all add: steady_def same_netifs_def)
  ultimately show ?thesis
    using assms s kept_slots_on [OF k reg_ok_term [OF t]] by (simp add: waiting_def slot_kept_def)
qed

text \<open>Polling touches one slot only, and of that slot the mailbox and the count.\<close>

lemma poll_rx_slots:
  "slots_on x (s_listeners (snd (udp_source_poll_rx sid h))) = slots_on x (s_listeners h)"
proof -
  have "slot_on x (s_listeners (snd (udp_source_poll_rx sid h)) ! k) = slot_on x (s_listeners h ! k)" for k
    by (cases "resolve sid (s_listeners h)"; cases "k = the (resolve sid (s_listeners h))"; cases "k < length (s_listeners h)")
      (auto simp: udp_source_poll_rx_def upd_slot_def slot_on_def Let_def list_update_beyond)
  then show ?thesis by (simp add: slots_on_def)
qed

lemma poll_rx_other:
  "resolve sid (s_listeners h) \<noteq> Some i \<Longrightarrow> s_listeners (snd (udp_source_poll_rx sid h)) ! i = s_listeners h ! i"
  by (auto simp: udp_source_poll_rx_def upd_slot_def Let_def split: option.split)

lemma poll_rx_udp [simp]:
  "h_udp (snd (udp_source_poll_rx sid h)) = h_udp h" "h_net (snd (udp_source_poll_rx sid h)) = h_net h"
  by (auto simp: udp_source_poll_rx_def upd_slot_def Let_def split: option.split)

lemma polled_slot:
  assumes "waiting S n i m ip port t" and "j < length (S x)"
  shows "udp_source_get_socket (Some x) j (tm_host t) =
      \<lparr>si_netif = Some x, si_local_port = slot_port (tm_host t) (s_listeners (tm_host t) ! (S x ! j)),
       si_socket_id = make_id (S x ! j) (s_listeners (tm_host t))\<rparr>"
    "resolve (make_id (S x ! j) (s_listeners (tm_host t))) (s_listeners (tm_host t)) = Some (S x ! j)"
proof -
  have t: "term_wf t" and S: "slots_on x (s_listeners (tm_host t)) = S x" using assms(1) by (simp_all add: waiting_def)
  have c: "j < udp_source_count_sockets (Some x) (tm_host t)"
    using count_sockets_length [OF reg_ok_term [OF t], of x] assms(2) S by simp
  show "udp_source_get_socket (Some x) j (tm_host t) =
      \<lparr>si_netif = Some x, si_local_port = slot_port (tm_host t) (s_listeners (tm_host t) ! (S x ! j)),
       si_socket_id = make_id (S x ! j) (s_listeners (tm_host t))\<rparr>"
    using get_socket_in_range [OF reg_ok_term [OF t] c] S by metis
  have "S x ! j < UDP_MAX_LISTENERS" "ls_in_use (s_listeners (tm_host t) ! (S x ! j))"
    using slots_on_nth [of j x "s_listeners (tm_host t)"] S assms(2) by (simp_all add: slot_on_def)
  then show "resolve (make_id (S x ! j) (s_listeners (tm_host t))) (s_listeners (tm_host t)) = Some (S x ! j)"
    by (rule resolve_make_id)
qed

lemma poll_socket_other:
  assumes "waiting S n i m ip port t" and "j < length (S x)" and "S x ! j \<noteq> i"
  shows "waiting S n i m ip port (poll_socket ev x j t)"
proof -
  define u where "u = tick ev t"
  have w: "waiting S n i m ip port u" unfolding u_def by (rule waiting_tick [OF assms(1)])
  let ?sid = "make_id (S x ! j) (s_listeners (tm_host u))"
  let ?h = "snd (udp_source_poll_rx ?sid (tm_host u))"
  have "term_wf (set_host ?h u)" using w by (intro set_host_wf poll_rx_sys_wf term_wf_sys) (simp_all add: waiting_def)
  then have "waiting S n i m ip port (set_host ?h u)"
    using w poll_rx_other [of ?sid "tm_host u" i] polled_slot(2) [OF w assms(2)] assms(3)
    by (simp add: waiting_def poll_rx_slots slot_port_def sys_net_def)
  then show ?thesis
    by (simp add: poll_socket_def u_def [symmetric] polled_slot(1) [OF w assms(2)] case_prod_beta Let_def waiting_def split: option.split)
qed

lemma poll_socket_reports:
  assumes "waiting S n i m ip port t" and "j < length (S n)" and "S n ! j = i"
  shows "tm_out (poll_socket ev n j t) = tm_out t @ evt_text m ip port"
proof -
  define u where "u = tick ev t"
  have w: "waiting S n i m ip port u" unfolding u_def by (rule waiting_tick [OF assms(1)])
  have "fst (udp_source_poll_rx (make_id i (s_listeners (tm_host u))) (tm_host u)) = Some m"
    using w polled_slot(2) [OF w assms(2)] assms(3) by (simp add: udp_source_poll_rx_def waiting_def Let_def)
  moreover have "tm_out u = tm_out t" by (simp add: u_def)
  ultimately show ?thesis using w
    by (simp add: poll_socket_def u_def [symmetric] polled_slot(1) [OF w assms(2)] assms(3) case_prod_beta Let_def waiting_def
        tell_def sys_net_def set_host_def)
qed

text \<open>Output is only added to.\<close>

definition grows :: "term_st \<Rightarrow> term_st \<Rightarrow> bool" where
  "grows t t' \<longleftrightarrow> (\<exists>txt. tm_out t' = tm_out t @ txt)"

lemma grows_trans: "grows a b \<Longrightarrow> grows b c \<Longrightarrow> grows a c"
  by (auto simp: grows_def)

lemma poll_socket_grows: "grows t (poll_socket ev n j t)"
  by (auto simp: grows_def poll_socket_def Let_def case_prod_beta tell_def set_host_def split: option.split)

lemma poll_sockets_grows: "grows t (poll_sockets ev n j left t)"
  by (induction ev n j left t rule: poll_sockets.induct) (auto simp: grows_def intro: grows_trans [OF poll_socket_grows, unfolded grows_def])

lemma poll_netifs_grows: "grows t (poll_netifs ev ns t)"
  by (induction ns arbitrary: t) (auto simp: grows_def intro: grows_trans [OF poll_sockets_grows, unfolded grows_def])

definition reported :: "string \<Rightarrow> term_st \<Rightarrow> term_st \<Rightarrow> bool" where
  "reported txt t t' \<longleftrightarrow> (\<exists>pre post. tm_out t' = tm_out t @ pre @ txt @ post)"

lemma reported_grows: "grows s t \<Longrightarrow> reported txt t t' \<Longrightarrow> grows t' u \<Longrightarrow> reported txt s u"
  unfolding reported_def grows_def by (metis append.assoc)

lemma waiting_count: "waiting S n i m ip port t \<Longrightarrow> udp_source_count_sockets (Some x) (tm_host t) = length (S x)"
  by (auto simp: waiting_def count_sockets_length reg_ok_term)

lemma poll_sockets_reports:
  assumes "waiting S n i m ip port t" and "j \<le> k" and "k < length (S n)" and "S n ! k = i" and "k < j + left" and "distinct (S n)"
  shows "reported (evt_text m ip port) t (poll_sockets ev n j left t)"
  using assms
proof (induction left arbitrary: j t)
  case (Suc left)
  have j: "j < udp_source_count_sockets (Some n) (tm_host t)" using waiting_count [OF Suc.prems(1)] Suc.prems(2,3) by simp
  show ?case
  proof (cases "j = k")
    case True
    then have "reported (evt_text m ip port) t (poll_socket ev n j t)"
      using poll_socket_reports [OF Suc.prems(1) Suc.prems(3,4)] unfolding reported_def by (metis append_Nil append_Nil2)
    with j show ?thesis using reported_grows [OF _ _ poll_sockets_grows, of t t] by (simp add: grows_def)
  next
    case False
    then have "S n ! j \<noteq> i" using Suc.prems(2-4,6) by (auto simp: nth_eq_iff_index_eq)
    then have w: "waiting S n i m ip port (poll_socket ev n j t)"
      using Suc.prems(2,3) by (intro poll_socket_other [OF Suc.prems(1)]) simp_all
    have "reported (evt_text m ip port) (poll_socket ev n j t) (poll_sockets ev n (j + 1) left (poll_socket ev n j t))"
      using Suc.IH [OF w, of "j + 1"] Suc.prems False by simp
    with j show ?thesis using reported_grows [OF poll_socket_grows, of _ ev n j t] by (simp add: grows_def)
  qed
qed simp

lemma poll_sockets_waiting:
  assumes "waiting S n i m ip port t" and "i \<notin> set (S x)"
  shows "waiting S n i m ip port (poll_sockets ev x j left t)"
  using assms
proof (induction left arbitrary: j t)
  case (Suc left)
  show ?case
  proof (cases "j < length (S x)")
    case True
    then have "S x ! j \<noteq> i" using Suc.prems(2) nth_mem by blast
    with Suc.IH poll_socket_other [OF Suc.prems(1) True] Suc.prems(2) waiting_count [OF Suc.prems(1)] True show ?thesis by simp
  qed (use Suc.prems(1) waiting_count [OF Suc.prems(1)] in simp)
qed simp

lemma poll_netifs_reports:
  assumes "waiting S n i m ip port t" and "n \<in> set ns" and "\<And>x. distinct (S x)" and "\<And>x. x \<noteq> n \<Longrightarrow> i \<notin> set (S x)"
    and "\<And>x. length (S x) \<le> UDP_MAX_LISTENERS"
  shows "reported (evt_text m ip port) t (poll_netifs ev ns t)"
  using assms(1,2)
proof (induction ns arbitrary: t)
  case (Cons x ns)
  show ?case
  proof (cases "x = n")
    case True
    obtain k where k: "k < length (S n)" "S n ! k = i" using Cons.prems(1) by (auto simp: waiting_def in_set_conv_nth)
    have "reported (evt_text m ip port) t (poll_sockets ev n 0 UDP_MAX_LISTENERS t)"
      using poll_sockets_reports [OF Cons.prems(1) _ k, of 0 UDP_MAX_LISTENERS ev] k(1) assms(3,5) [of n] by simp
    with True show ?thesis using reported_grows [OF _ _ poll_netifs_grows, of t t] by (simp add: grows_def)
  next
    case False
    have w: "waiting S n i m ip port (poll_sockets ev x 0 UDP_MAX_LISTENERS t)"
      using poll_sockets_waiting [OF Cons.prems(1)] assms(4) False by blast
    with Cons.IH [OF w] Cons.prems(2) False reported_grows [OF poll_sockets_grows, of _ ev x 0 UDP_MAX_LISTENERS t] show ?thesis
      by (simp add: grows_def)
  qed
qed simp
lemma slot_on_listed:
  assumes "term_wf t" and "i < UDP_MAX_LISTENERS" and "slot_on n (s_listeners (tm_host t) ! i)"
  shows "n \<in> set (tm_netifs t)"
  using host_wf_slot [OF term_wf_host [OF assms(1)] assms(2)] assms(3) unfolding slot_on_def sys_net_def by (metis option.inject)

lemma rx_polling_reports:
  assumes "term_wf t" and "i < UDP_MAX_LISTENERS" and "slot_on n (s_listeners (tm_host t) ! i)"
    and "ls_rx_msg (s_listeners (tm_host t) ! i) = m" and "rm_valid m"
  shows "reported (evt_text m (if_ip_addr (netifs (sys_net (tm_sys t)) n)) (slot_port (tm_host t) (s_listeners (tm_host t) ! i))) t (rx_polling ev t)"
proof -
  let ?S = "\<lambda>x. slots_on x (s_listeners (tm_host t))"
  have "waiting ?S n i m (if_ip_addr (netifs (sys_net (tm_sys t)) n)) (slot_port (tm_host t) (s_listeners (tm_host t) ! i)) t"
    using assms by (simp add: waiting_def in_slots_on)
  moreover have "length (?S x) \<le> UDP_MAX_LISTENERS" for x
    using length_filter_le [of "\<lambda>i. slot_on x (s_listeners (tm_host t) ! i)" "[0..<UDP_MAX_LISTENERS]"] by (simp add: slots_on_def)
  moreover have "x \<noteq> n \<Longrightarrow> i \<notin> set (?S x)" for x using assms(3) by (auto simp: in_slots_on slot_on_def)
  moreover have "distinct (?S x)" for x by (simp add: slots_on_def)
  ultimately show ?thesis
    unfolding rx_polling_def using slot_on_listed [OF assms(1-3)] by (intro poll_netifs_reports) auto
qed

section \<open>Properties\<close>

text \<open>
  C2: the invariant of the program, for receive interrupts between operations. From power-on with any hardware address, any addresses
  and any outcome of the link set-up, with any input on the serial line (commands, menus, line noise) and any frames received
  between the iterations of the main loop, at its polls of the sockets and of the serial line (also while a menu waits for a key)
  and in its busy-waits, the invariant of the system holds in every state between the steps: the interface list, the
  pools, the ARP table, the control blocks and the socket registry are consistent with each other, and the two input
  buffers are within their arrays. The operations between these points are atomic in the model. The property does not cover an
  interrupt inside an operation that does not disable interrupts: \<open>interrupted_bind_loses_pcb\<close> in \<open>Pcb_List\<close> shows
  that \<open>udp_source_add_listener\<close> can lose a control block then.
\<close>

theorem reachable_invariant:
  assumes "reachable st"
  shows "sys_wf (tm_sys (mn_term st)) \<and> length (tm_buf (mn_term st)) = CMD_BUFFER_SIZE \<and> length (mn_line st) < CMD_LINE_MAX"
  using reachable_wf [OF assms] by (simp add: main_wf_def term_wf_def)

text \<open>A start, a frame of three bytes, and the first iteration of the loop.\<close>

theorem reachable_invariant_witness:
  "\<exists>st st'. main_start [2, 0, 0, 0, 0, 1] 0x0a00000a 0xffffff00 0x0a000001 \<lparr>phy_alive = True, phy_autoneg = True\<rparr>
       \<lparr>ms_alloc = [], ms_junk = (\<lambda>_. 0)\<rparr> = Some st \<and>
     main_iteration (calm quiet_env)
       (st\<lparr>mn_term := (mn_term st)\<lparr>tm_sys := ethernet_input 0 [\<lparr>ps_type = PBUF_POOL, ps_hidden = [], ps_payload = [1, 2, 3]\<rparr>]
          (Hdk 0) (tm_sys (mn_term st))\<rparr>\<rparr>) = Some st' \<and>
     sys_wf (tm_sys (mn_term st'))"
proof -
  let ?p = "[\<lparr>ps_type = PBUF_POOL, ps_hidden = [], ps_payload = [1, 2, 3]\<rparr>] :: pbuf"
  obtain st where st: "main_start [2, 0, 0, 0, 0, 1] 0x0a00000a 0xffffff00 0x0a000001 \<lparr>phy_alive = True, phy_autoneg = True\<rparr>
       \<lparr>ms_alloc = [], ms_junk = (\<lambda>_. 0)\<rparr> = Some st" and k: "tm_keys (mn_term st) = []"
    using main_start_wf [of "[2, 0, 0, 0, 0, 1]" "0x0a00000a" "0xffffff00" "0x0a000001" "\<lparr>phy_alive = True, phy_autoneg = True\<rparr>"
        "\<lparr>ms_alloc = [], ms_junk = (\<lambda>_. 0)\<rparr>"] by (auto simp: main_start_def terminal_list_netif_def)
  define st1 where "st1 = st\<lparr>mn_term := (mn_term st)\<lparr>tm_sys := ethernet_input 0 ?p (Hdk 0) (tm_sys (mn_term st))\<rparr>\<rparr>"
  have k1: "tm_keys (mn_term st1) = []" unfolding st1_def using k by simp
  let ?st2 = "st1\<lparr>mn_term := rx_polling (calm quiet_env) (mn_term st1)\<rparr>"
  have "reachable st1"
    unfolding st1_def by (rule reachable.step [OF reachable.start [OF _ st] main_step.interrupt]) simp
  moreover have i: "main_iteration (calm quiet_env) st1 = Some ?st2"
    by (rule iteration_idle [OF k1])
  ultimately have "reachable ?st2" by (blast intro: reachable.step main_step.iteration)
  note wf = conjunct1 [OF reachable_invariant [OF this]]
  show ?thesis by (intro exI conjI) (rule st, rule i [unfolded st1_def], rule wf [unfolded st1_def])
qed

text \<open>
  C4: a datagram that was stored in the mailbox of an open socket is reported by the next pass of the main loop over the
  sockets: its sender, the address and port of the socket, its length and up to 64 bytes of its data are on the terminal
  after the pass, whatever frames arrive while the pass runs (they cannot displace it, and neither can the polling of
  the other sockets).
\<close>

theorem message_reported:
  assumes "sys_wf (tm_sys t)" and "length (tm_buf t) = CMD_BUFFER_SIZE"
    and "i < UDP_MAX_LISTENERS" and "slot_on n (s_listeners (tm_host t) ! i)"
    and "ls_rx_msg (s_listeners (tm_host t) ! i) = m" and "rm_valid m"
  shows "\<exists>pre post. tm_out (rx_polling ev t) =
    tm_out t @ pre @ evt_text m (if_ip_addr (netifs (sys_net (tm_sys t)) n)) (slot_port (tm_host t) (s_listeners (tm_host t) ! i)) @ post"
  using rx_polling_reports [of t i n m ev] assms by (simp add: term_wf_def reported_def)

definition boot_message :: host_st where
  "boot_message = snd (udp_rx_callback 0 [\<lparr>ps_type = PBUF_POOL, ps_hidden = [], ps_payload = [0x68, 0x69]\<rparr>] 0x0a000005 9 boot_socket)"

theorem message_reported_witness:
  "\<exists>pre post. tm_out (rx_polling (calm quiet_env) (fresh_term [] (sys_of boot_message))) =
     pre @ evt_text (ls_rx_msg (s_listeners boot_message ! 0)) 0x0a00000a 5000 @ post"
proof -
  let ?t = "fresh_term [] (sys_of boot_message)"
  have "host_wf boot_message" unfolding boot_message_def by (rule rx_callback_wf [OF boot_socket_wf])
  moreover have "no_dhcp (h_net boot_message)" by code_simp
  ultimately have wf: "sys_wf (tm_sys ?t)" by (simp add: fresh_term_def sys_of_wf)
  have hyps: "length (tm_buf ?t) = CMD_BUFFER_SIZE" "0 < UDP_MAX_LISTENERS" "slot_on (Hdk 0) (s_listeners (tm_host ?t) ! 0)"
    "rm_valid (ls_rx_msg (s_listeners (tm_host ?t) ! 0))" by code_simp+
  have vals: "if_ip_addr (netifs (sys_net (tm_sys ?t)) (Hdk 0)) = 0x0a00000a"
    "slot_port (tm_host ?t) (s_listeners (tm_host ?t) ! 0) = 5000" by code_simp+
  have "tm_out ?t = []" "tm_host ?t = boot_message" by (simp_all add: fresh_term_def sys_of_def)
  with message_reported [OF wf hyps(1-3) refl hyps(4), of "calm quiet_env"] vals show ?thesis by simp
qed

end
