(* ===== verification/Mem_Heap.thy ===== *)
theory Mem_Heap
  imports Interfaces "HOL-Library.Monad_Syntax"
begin

text \<open>
  The heap allocator (\<open>core/mem.c\<close>) over the bytes of the heap: blocks are linked by offsets that their headers hold in
  memory. The specification is a list of blocks with their sizes; this theory relates the two and shows how the
  links change when a block is divided or joined.
\<close>

section \<open>Constants and sizes\<close>

text \<open>\<open>mem_size_t\<close> is \<open>u16_t\<close>, because \<open>MEM_SIZE\<close> is not above 64000. The header has 6 bytes and is aligned to 8.\<close>

type_synonym mem_size_t = u16

definition MEM_ALIGNMENT :: u32 where
  "MEM_ALIGNMENT = 4"

definition LWIP_MEM_ALIGN_SIZE :: "u32 \<Rightarrow> u32" where
  "LWIP_MEM_ALIGN_SIZE sz = (sz + MEM_ALIGNMENT - 1) AND NOT (MEM_ALIGNMENT - 1)"

definition MEM_SIZE :: u32 where
  "MEM_SIZE = 30 * 1024"

definition MIN_SIZE_ALIGNED :: u32 where
  "MIN_SIZE_ALIGNED = LWIP_MEM_ALIGN_SIZE 12"

definition SIZEOF_STRUCT_MEM :: u32 where
  "SIZEOF_STRUCT_MEM = LWIP_MEM_ALIGN_SIZE 6"

definition MEM_SIZE_ALIGNED :: u32 where
  "MEM_SIZE_ALIGNED = LWIP_MEM_ALIGN_SIZE MEM_SIZE"

section \<open>State\<close>

text \<open>
  A pointer is its distance from \<open>ram\<close>, so that \<open>ram\<close> is 0 and a pointer below the heap is negative; NULL is \<open>None\<close>.
  The fields are the bytes of the heap, the pointer to the lowest free block, and \<open>lwip_stats.mem\<close>.
\<close>

record mem_heap =
  hp_ram :: "int \<Rightarrow> u8"
  hp_lfree :: int
  hp_avail :: mem_size_t
  hp_used :: mem_size_t
  hp_max :: mem_size_t
  hp_err :: u16
  hp_illegal :: u16

definition ram_end :: int where
  "ram_end = uint MEM_SIZE_ALIGNED"

text \<open>\<open>struct mem\<close>: \<open>next\<close> at offset 0, \<open>prev\<close> at offset 2, \<open>used\<close> at offset 4.\<close>

definition rd16 :: "(int \<Rightarrow> u8) \<Rightarrow> int \<Rightarrow> u16" where
  "rd16 r p = mk16 (r p) (r (p + 1))"

definition wr16 :: "int \<Rightarrow> u16 \<Rightarrow> (int \<Rightarrow> u8) \<Rightarrow> int \<Rightarrow> u8" where
  "wr16 p v r = r(p := ucast (drop_bit 8 v), p + 1 := ucast v)"

definition mem_next :: "mem_heap \<Rightarrow> int \<Rightarrow> mem_size_t" where
  "mem_next h p = rd16 (hp_ram h) p"

definition mem_prev :: "mem_heap \<Rightarrow> int \<Rightarrow> mem_size_t" where
  "mem_prev h p = rd16 (hp_ram h) (p + 2)"

definition mem_used :: "mem_heap \<Rightarrow> int \<Rightarrow> u8" where
  "mem_used h p = hp_ram h (p + 4)"

definition set_next :: "int \<Rightarrow> mem_size_t \<Rightarrow> mem_heap \<Rightarrow> mem_heap" where
  "set_next p v h = h\<lparr>hp_ram := wr16 p v (hp_ram h)\<rparr>"

definition set_prev :: "int \<Rightarrow> mem_size_t \<Rightarrow> mem_heap \<Rightarrow> mem_heap" where
  "set_prev p v h = h\<lparr>hp_ram := wr16 (p + 2) v (hp_ram h)\<rparr>"

definition set_used :: "int \<Rightarrow> u8 \<Rightarrow> mem_heap \<Rightarrow> mem_heap" where
  "set_used p v h = h\<lparr>hp_ram := (hp_ram h)(p + 4 := v)\<rparr>"

definition stats_inc_used :: "mem_size_t \<Rightarrow> mem_heap \<Rightarrow> mem_heap" where
  "stats_inc_used n h =
     (let h = h\<lparr>hp_used := hp_used h + n\<rparr> in if hp_max h < hp_used h then h\<lparr>hp_max := hp_used h\<rparr> else h)"

definition stats_dec_used :: "mem_size_t \<Rightarrow> mem_heap \<Rightarrow> mem_heap" where
  "stats_dec_used n h = h\<lparr>hp_used := hp_used h - n\<rparr>"

section \<open>Operations\<close>

definition mem_init :: "mem_heap \<Rightarrow> mem_heap" where
  "mem_init h =
     (let h = set_used 0 0 (set_prev 0 0 (set_next 0 (ucast MEM_SIZE_ALIGNED) h));
          h = set_prev ram_end (ucast MEM_SIZE_ALIGNED)
                (set_next ram_end (ucast MEM_SIZE_ALIGNED) (set_used ram_end 1 h))
      in h\<lparr>hp_lfree := 0, hp_avail := ucast MEM_SIZE_ALIGNED\<rparr>)"

definition plug_forward :: "int \<Rightarrow> mem_heap \<Rightarrow> mem_heap" where
  "plug_forward mem h =
     (let nmem = uint (mem_next h mem)
      in if mem \<noteq> nmem \<and> mem_used h nmem = 0 \<and> nmem \<noteq> ram_end then
           let h = (if hp_lfree h = nmem then h\<lparr>hp_lfree := mem\<rparr> else h);
               h = set_next mem (mem_next h nmem) h
           in set_prev (uint (mem_next h nmem)) (word_of_int mem) h
         else h)"

definition plug_backward :: "int \<Rightarrow> mem_heap \<Rightarrow> mem_heap" where
  "plug_backward mem h =
     (let pmem = uint (mem_prev h mem)
      in if pmem \<noteq> mem \<and> mem_used h pmem = 0 then
           let h = (if hp_lfree h = mem then h\<lparr>hp_lfree := pmem\<rparr> else h);
               h = set_next pmem (mem_next h mem) h
           in set_prev (uint (mem_next h mem)) (word_of_int pmem) h
         else h)"

definition plug_holes :: "int \<Rightarrow> mem_heap \<Rightarrow> mem_heap" where
  "plug_holes mem h = plug_backward mem (plug_forward mem h)"

definition mem_free :: "int option \<Rightarrow> mem_heap \<Rightarrow> mem_heap" where
  "mem_free rmem h =
     (case rmem of
        None \<Rightarrow> h
      | Some rmem \<Rightarrow>
          if rmem < 0 \<or> ram_end \<le> rmem then h\<lparr>hp_illegal := hp_illegal h + 1\<rparr>
          else
            let mem = rmem - uint SIZEOF_STRUCT_MEM;
                h = set_used mem 0 h;
                h = (if mem < hp_lfree h then h\<lparr>hp_lfree := mem\<rparr> else h);
                h = stats_dec_used (mem_next h mem - word_of_int mem) h
            in plug_holes mem h)"

text \<open>The remainder of a block from \<open>ptr2\<close> on becomes a free block that follows \<open>mem\<close>.\<close>

definition insert_rest :: "int \<Rightarrow> mem_size_t \<Rightarrow> mem_size_t \<Rightarrow> mem_heap \<Rightarrow> mem_heap" where
  "insert_rest mem ptr2 nxt h =
     (let mem2 = uint ptr2;
          h = set_prev mem2 (word_of_int mem) (set_next mem2 nxt (set_used mem2 0 h));
          h = set_next mem ptr2 h
      in if uint (mem_next h mem2) \<noteq> ram_end then set_prev (uint (mem_next h mem2)) ptr2 h else h)"

text \<open>The rounding that \<open>mem_malloc\<close> and \<open>mem_trim\<close> start with, in 16 bits.\<close>

definition rounded_size :: "mem_size_t \<Rightarrow> mem_size_t" where
  "rounded_size sz =
     (let sz = ucast (LWIP_MEM_ALIGN_SIZE (ucast sz))
      in if ucast sz < MIN_SIZE_ALIGNED then ucast MIN_SIZE_ALIGNED else sz)"

definition mem_trim :: "int \<Rightarrow> mem_size_t \<Rightarrow> mem_heap \<Rightarrow> int option \<times> mem_heap" where
  "mem_trim rmem newsize h =
     (let newsize = rounded_size newsize
      in if MEM_SIZE_ALIGNED < ucast newsize then (None, h)
         else if rmem < 0 \<or> ram_end \<le> rmem then (Some rmem, h\<lparr>hp_illegal := hp_illegal h + 1\<rparr>)
         else
           let mem = rmem - uint SIZEOF_STRUCT_MEM;
               ptr = word_of_int mem :: mem_size_t;
               sz = mem_next h mem - ptr - ucast SIZEOF_STRUCT_MEM
           in if sz < newsize then (None, h)
              else if newsize = sz then (Some rmem, h)
              else
                let mem2 = uint (mem_next h mem);
                    ptr2 = ptr + ucast SIZEOF_STRUCT_MEM + newsize
                in if mem_used h mem2 = 0 then
                     let nxt = mem_next h mem2;
                         h = (if hp_lfree h = mem2 then h\<lparr>hp_lfree := uint ptr2\<rparr> else h)
                     in (Some rmem, stats_dec_used (sz - newsize) (insert_rest mem ptr2 nxt h))
                   else if ucast newsize + SIZEOF_STRUCT_MEM + MIN_SIZE_ALIGNED \<le> ucast sz then
                     let nxt = mem_next h mem;
                         h = (if uint ptr2 < hp_lfree h then h\<lparr>hp_lfree := uint ptr2\<rparr> else h)
                     in (Some rmem, stats_dec_used (sz - newsize) (insert_rest mem ptr2 nxt h))
                   else (Some rmem, h))"

text \<open>
  The two loops of \<open>mem_malloc\<close> follow links in memory and need not end on a damaged heap; a loop that does not end is
  \<open>None\<close>. The search gives \<open>Some None\<close> when it ends without a block.
\<close>

definition user_size :: "mem_size_t \<Rightarrow> mem_heap \<Rightarrow> u32" where
  "user_size ptr h = ucast (mem_next h (uint ptr)) - (ucast ptr + SIZEOF_STRUCT_MEM)"

partial_function (option) find_fit :: "mem_size_t \<Rightarrow> mem_size_t \<Rightarrow> mem_heap \<Rightarrow> mem_size_t option option" where
  "find_fit sz ptr h =
     (if uint ptr < uint MEM_SIZE_ALIGNED - uint sz then
        if mem_used h (uint ptr) = 0 \<and> ucast sz \<le> user_size ptr h then Some (Some ptr)
        else find_fit sz (mem_next h (uint ptr)) h
      else Some None)"

partial_function (option) next_free :: "int \<Rightarrow> mem_heap \<Rightarrow> int option" where
  "next_free cur h =
     (if mem_used h cur \<noteq> 0 \<and> cur \<noteq> ram_end then next_free (uint (mem_next h cur)) h else Some cur)"

definition take_block :: "mem_size_t \<Rightarrow> mem_size_t \<Rightarrow> mem_heap \<Rightarrow> mem_heap" where
  "take_block sz ptr h =
     (let mem = uint ptr
      in if ucast sz + SIZEOF_STRUCT_MEM + MIN_SIZE_ALIGNED \<le> user_size ptr h then
           let ptr2 = ptr + ucast SIZEOF_STRUCT_MEM + sz
           in stats_inc_used (sz + ucast SIZEOF_STRUCT_MEM)
                (set_used mem 1 (insert_rest mem ptr2 (mem_next h mem) h))
         else stats_inc_used (mem_next h mem - ptr) (set_used mem 1 h))"

definition mem_malloc :: "mem_size_t \<Rightarrow> mem_heap \<Rightarrow> (int option \<times> mem_heap) option" where
  "mem_malloc sz h =
     (if sz = 0 then Some (None, h)
      else
        let sz = rounded_size sz
        in if MEM_SIZE_ALIGNED < ucast sz then Some (None, h)
           else do {
             found \<leftarrow> find_fit sz (word_of_int (hp_lfree h)) h;
             case found of
               None \<Rightarrow> Some (None, h\<lparr>hp_err := hp_err h + 1\<rparr>)
             | Some ptr \<Rightarrow>
                 let mem = uint ptr;
                     h = take_block sz ptr h
                 in if mem = hp_lfree h then do {
                      cur \<leftarrow> next_free (hp_lfree h) h;
                      Some (Some (mem + uint SIZEOF_STRUCT_MEM), h\<lparr>hp_lfree := cur\<rparr>)
                    }
                    else Some (Some (mem + uint SIZEOF_STRUCT_MEM), h)
           })"

text \<open>\<open>memset\<close> gets the product of the two numbers in an \<open>int\<close>, while \<open>mem_malloc\<close> gets its lower 16 bits.\<close>

definition memset_zero :: "int \<Rightarrow> int \<Rightarrow> mem_heap \<Rightarrow> mem_heap" where
  "memset_zero p n h = h\<lparr>hp_ram := \<lambda>i. if p \<le> i \<and> i < p + n then 0 else hp_ram h i\<rparr>"

definition mem_calloc :: "mem_size_t \<Rightarrow> mem_size_t \<Rightarrow> mem_heap \<Rightarrow> (int option \<times> mem_heap) option" where
  "mem_calloc count sz h = do {
     (p, h) \<leftarrow> mem_malloc (count * sz) h;
     case p of
       None \<Rightarrow> Some (None, h)
     | Some q \<Rightarrow> Some (Some q, memset_zero q (uint (ucast count * ucast sz :: u32)) h)
   }"

section \<open>Bytes and words\<close>

lemma mem_constants [simp]:
  "SIZEOF_STRUCT_MEM = 8" "MIN_SIZE_ALIGNED = 12" "MEM_SIZE_ALIGNED = 30720" "ram_end = 30720"
  by (simp_all add: SIZEOF_STRUCT_MEM_def MIN_SIZE_ALIGNED_def MEM_SIZE_ALIGNED_def ram_end_def LWIP_MEM_ALIGN_SIZE_def
      MEM_ALIGNMENT_def MEM_SIZE_def)

lemma wr16_apply: "i \<noteq> p \<Longrightarrow> i \<noteq> p + 1 \<Longrightarrow> wr16 p v r i = r i"
  by (simp add: wr16_def)

lemma rd16_wr16 [simp]: "rd16 (wr16 p v r) p = v"
  by (simp add: rd16_def wr16_def)

lemma rd16_cong: "r' p = r p \<Longrightarrow> r' (p + 1) = r (p + 1) \<Longrightarrow> rd16 r' p = rd16 r p"
  by (simp add: rd16_def)

lemma uint_of_int_u16: "0 \<le> x \<Longrightarrow> x < 65536 \<Longrightarrow> uint (word_of_int x :: u16) = x"
  by (simp add: unsigned_of_int take_bit_int_eq_self)

section \<open>Specification: a list of blocks\<close>

text \<open>
  A block is its size with the header, and whether it is in use. \<open>block_at r q p n u\<close>: at offset \<open>p\<close> the bytes \<open>r\<close> have the
  header of a block of size \<open>n\<close> whose predecessor is at \<open>q\<close>; \<open>chain r q p bs\<close>: from \<open>p\<close> to the end the heap consists of \<open>bs\<close>.
\<close>

type_synonym block = "int \<times> bool"

definition block_at :: "(int \<Rightarrow> u8) \<Rightarrow> int \<Rightarrow> int \<Rightarrow> int \<Rightarrow> bool \<Rightarrow> bool" where
  "block_at r q p n u \<longleftrightarrow> uint (rd16 r p) = p + n \<and> uint (rd16 r (p + 2)) = q \<and> r (p + 4) = of_bool u \<and> 20 \<le> n \<and> 4 dvd n"

fun seg :: "(int \<Rightarrow> u8) \<Rightarrow> int \<Rightarrow> int \<Rightarrow> block list \<Rightarrow> bool" where
  "seg r q p [] \<longleftrightarrow> True"
| "seg r q p ((n, u) # bs) \<longleftrightarrow> block_at r q p n u \<and> seg r p (p + n) bs"

fun extent :: "block list \<Rightarrow> int" where
  "extent [] = 0"
| "extent ((n, u) # bs) = n + extent bs"

fun last_at :: "int \<Rightarrow> int \<Rightarrow> block list \<Rightarrow> int" where
  "last_at q p [] = q"
| "last_at q p ((n, u) # bs) = last_at p (p + n) bs"

definition chain :: "(int \<Rightarrow> u8) \<Rightarrow> int \<Rightarrow> int \<Rightarrow> block list \<Rightarrow> bool" where
  "chain r q p bs \<longleftrightarrow> seg r q p bs \<and> p + extent bs = ram_end \<and> uint (rd16 r ram_end) = ram_end \<and> r (ram_end + 4) = 1"

lemma extent_append [simp]: "extent (xs @ ys) = extent xs + extent ys"
  by (induction xs) auto

lemma seg_append: "seg r q p (xs @ ys) \<longleftrightarrow> seg r q p xs \<and> seg r (last_at q p xs) (p + extent xs) ys"
  by (induction xs arbitrary: q p) (auto simp: add.assoc)

lemma extent_nonneg: "seg r q p bs \<Longrightarrow> 0 \<le> extent bs"
  by (induction bs arbitrary: q p) (fastforce simp: block_at_def)+

lemma extent_aligned: "seg r q p bs \<Longrightarrow> 4 dvd extent bs"
  by (induction bs arbitrary: q p) (fastforce simp: block_at_def)+

lemma seg_cong:
  assumes "seg r q p bs" and "\<And>i. p \<le> i \<Longrightarrow> i < p + extent bs \<Longrightarrow> r' i = r i"
  shows "seg r' q p bs"
  using assms
proof (induction bs arbitrary: q p)
  case Nil
  then show ?case by simp
next
  case (Cons b bs)
  obtain n u where b: "b = (n, u)" by force
  have s: "block_at r q p n u" "seg r p (p + n) bs" using Cons.prems(1) b by simp_all
  then have n: "20 \<le> n" "0 \<le> extent bs" using extent_nonneg by (auto simp: block_at_def)
  then have "r' p = r p" "r' (p + 1) = r (p + 1)" "r' (p + 2) = r (p + 2)" "r' (p + 3) = r (p + 3)" "r' (p + 4) = r (p + 4)"
    using Cons.prems(2) b by simp_all
  then have "block_at r' q p n u" using s(1) by (simp add: block_at_def rd16_def add.assoc)
  moreover have "seg r' p (p + n) bs" using n b by (intro Cons.IH s(2) Cons.prems(2)) simp_all
  ultimately show ?case by (simp add: b)
qed

lemma chain_append: "chain r q p (xs @ ys) \<longleftrightarrow> seg r q p xs \<and> chain r (last_at q p xs) (p + extent xs) ys"
  by (auto simp: chain_def seg_append)

lemma chain_Cons: "chain r q p ((n, u) # bs) \<longleftrightarrow> block_at r q p n u \<and> chain r p (p + n) bs"
  by (auto simp: chain_def)

lemma chain_bound: "chain r q p bs \<Longrightarrow> p \<le> ram_end"
  using extent_nonneg by (fastforce simp: chain_def)

lemma chain_cong:
  assumes "chain r q p bs" and "\<And>i. p \<le> i \<Longrightarrow> r' i = r i"
  shows "chain r' q p bs"
proof -
  have p: "p \<le> 30720" using chain_bound [OF assms(1)] by simp
  have "seg r' q p bs" using assms by (auto simp: chain_def intro: seg_cong)
  with p assms show ?thesis by (auto simp: chain_def rd16_def)
qed

text \<open>The header at the end of the heap has no link backwards that is kept up to date.\<close>

lemma chain_relink:
  assumes "chain r q' p bs" and "uint v = q"
  shows "chain (wr16 (p + 2) v r) q p bs"
proof (cases bs)
  case Nil
  with assms show ?thesis by (auto simp: chain_def rd16_def wr16_def)
next
  case (Cons b cs)
  obtain n u where b: "b = (n, u)" by force
  with Cons assms(1) have c: "block_at r q' p n u" "chain r p (p + n) cs" by (simp_all add: chain_Cons)
  then have n: "20 \<le> n" by (simp add: block_at_def)
  have "block_at (wr16 (p + 2) v r) q p n u"
    using c(1) assms(2) by (simp add: block_at_def rd16_def [of _ p] wr16_def [of "p + 2"]) (simp add: rd16_def)
  moreover have "chain (wr16 (p + 2) v r) p (p + n) cs" by (rule chain_cong [OF c(2)]) (use n in \<open>simp add: wr16_def\<close>)
  ultimately show ?thesis by (simp add: Cons b chain_Cons)
qed

lemma chain_end_relink: "chain r q' p bs \<Longrightarrow> p = ram_end \<Longrightarrow> chain r q p bs"
proof (cases bs)
  case (Cons b cs)
  assume "chain r q' p bs" "p = ram_end"
  moreover obtain n u where "b = (n, u)" by force
  ultimately have "block_at r q' ram_end n u" "chain r ram_end (ram_end + n) cs" using Cons by (simp_all add: chain_Cons)
  then show ?thesis using chain_bound [of r ram_end "ram_end + n" cs] by (simp add: block_at_def)
qed (simp add: chain_def)

section \<open>How the links change\<close>

lemma heap_fields [simp]:
  "hp_lfree (set_next p v h) = hp_lfree h" "hp_lfree (set_prev p v h) = hp_lfree h" "hp_lfree (set_used p b h) = hp_lfree h"
  "hp_used (set_next p v h) = hp_used h" "hp_used (set_prev p v h) = hp_used h" "hp_used (set_used p b h) = hp_used h"
  "hp_ram (stats_inc_used n h) = hp_ram h" "hp_lfree (stats_inc_used n h) = hp_lfree h"
  "hp_used (stats_inc_used n h) = hp_used h + n"
  "hp_ram (stats_dec_used n h) = hp_ram h" "hp_lfree (stats_dec_used n h) = hp_lfree h"
  "hp_used (stats_dec_used n h) = hp_used h - n"
  by (simp_all add: set_next_def set_prev_def set_used_def stats_inc_used_def stats_dec_used_def Let_def)

lemma insert_rest_fields [simp]:
  "hp_lfree (insert_rest p a b h) = hp_lfree h" "hp_used (insert_rest p a b h) = hp_used h"
  by (simp_all add: insert_rest_def Let_def)

lemmas field_defs = mem_next_def mem_prev_def mem_used_def set_next_def set_prev_def set_used_def

text \<open>\<open>hdr p\<close>: the bytes of the header at \<open>p\<close>.\<close>

definition hdr :: "int \<Rightarrow> int set" where
  "hdr p = {p ..< p + 5}"

lemma wr16_outside: "i \<notin> hdr p \<Longrightarrow> wr16 p v r i = r i" "i \<notin> hdr p \<Longrightarrow> wr16 (p + 2) v r i = r i"
  "i \<notin> hdr p \<Longrightarrow> i \<noteq> p + 4"
  by (auto simp: wr16_def hdr_def)

lemma insert_rest_eq:
  fixes b :: mem_size_t and h :: mem_heap
  assumes "p + 20 \<le> uint a"
  defines "g \<equiv> set_next p a (set_prev (uint a) (word_of_int p) (set_next (uint a) b (set_used (uint a) 0 h)))"
  shows "insert_rest p a b h = (if uint b \<noteq> ram_end then set_prev (uint b) a g else g)"
  using assms(1) by (simp add: g_def insert_rest_def Let_def field_defs rd16_def wr16_def)

lemma insert_rest_outside:
  "i \<notin> hdr p \<Longrightarrow> i \<notin> hdr (uint a) \<Longrightarrow> i \<notin> hdr (uint b) \<Longrightarrow> p + 20 \<le> uint a \<Longrightarrow>
   hp_ram (insert_rest p a b h) i = hp_ram h i"
  by (simp add: insert_rest_eq field_defs wr16_outside)

text \<open>A block of size \<open>N\<close> at \<open>p\<close> is divided at \<open>k\<close>; what the bytes behind its header were does not matter.\<close>

lemma insert_rest_chain:
  assumes xs: "seg (hp_ram h) q0 p0 xs" "p = p0 + extent xs"
    and blk: "uint (mem_prev h p) = last_at q0 p0 xs" "mem_used h p = of_bool u"
    and ys: "chain (hp_ram h) q' (p + N) ys"
    and k: "20 \<le> k" "4 dvd k" "k + 20 \<le> N" "4 dvd N" and p: "0 \<le> p" "uint a = p + k" "uint b = p + N"
  shows "chain (hp_ram (insert_rest p a b h)) q0 p0 (xs @ (k, u) # (N - k, False) # ys)"
proof -
  let ?g = "set_next p a (set_prev (p + k) (word_of_int p) (set_next (p + k) b (set_used (p + k) 0 h)))"
  have r: "insert_rest p a b h = (if p + N \<noteq> ram_end then set_prev (p + N) a ?g else ?g)" (is "_ = ?h")
    using insert_rest_eq [of p a b h] k p by simp
  have b: "p + N \<le> 30720" using chain_bound [OF ys] by simp
  have low: "hp_ram ?h i = hp_ram h i" if "i < p" for i
    using that k by (simp add: field_defs wr16_def)
  have blk1: "block_at (hp_ram ?h) (last_at q0 p0 xs) p k u"
    using blk k p by (simp add: block_at_def field_defs rd16_def [of _ "p + 2"] wr16_apply) (simp add: rd16_def wr16_def)
  have "uint (word_of_int p :: u16) = p" using b k p by (intro uint_of_int_u16) simp_all
  then have blk2: "block_at (hp_ram ?h) p (p + k) (N - k) False"
    using k p by (simp add: block_at_def field_defs rd16_def wr16_def)
  have g: "chain (hp_ram ?g) q' (p + N) ys" by (rule chain_cong [OF ys]) (use k in \<open>simp add: field_defs wr16_def\<close>)
  have "chain (hp_ram ?h) (p + k) (p + N) ys"
  proof (cases "p + N = ram_end")
    case True
    then show ?thesis using chain_end_relink [OF g True, of "p + k"] by simp
  next
    case False
    then show ?thesis using chain_relink [OF g, of a "p + k"] p by (simp add: set_prev_def)
  qed
  moreover have "seg (hp_ram ?h) q0 p0 xs" by (rule seg_cong [OF xs(1)]) (use xs(2) low in simp)
  ultimately show ?thesis
    unfolding r using blk1 blk2 by (simp add: chain_append chain_Cons xs(2) [symmetric])
qed

text \<open>The block at \<open>p\<close> takes in everything up to the block at \<open>p + N\<close>.\<close>

lemma join_chain:
  assumes xs: "seg (hp_ram h) q0 p0 xs" "p = p0 + extent xs"
    and blk: "uint (mem_prev h p) = last_at q0 p0 xs" "mem_used h p = of_bool u"
    and ys: "chain (hp_ram h) q' (p + N) ys"
    and N: "20 \<le> N" "4 dvd N" and p: "uint w = p" "uint b = p + N"
  shows "chain (hp_ram (set_prev (p + N) w (set_next p b h))) q0 p0 (xs @ (N, u) # ys)" (is "chain (hp_ram ?h) _ _ _")
proof -
  have "block_at (hp_ram ?h) (last_at q0 p0 xs) p N u"
    using blk N p by (simp add: block_at_def field_defs rd16_def [of _ "p + 2"] wr16_apply) (simp add: rd16_def wr16_def)
  moreover have "chain (hp_ram (set_next p b h)) q' (p + N) ys"
    by (rule chain_cong [OF ys]) (use N in \<open>simp add: field_defs wr16_def\<close>)
  then have "chain (hp_ram ?h) p (p + N) ys" using p by (auto simp: set_prev_def intro: chain_relink)
  moreover have "seg (hp_ram ?h) q0 p0 xs" by (rule seg_cong [OF xs(1)]) (use xs(2) N in \<open>simp add: field_defs wr16_def\<close>)
  ultimately show ?thesis by (simp add: chain_append chain_Cons xs(2) [symmetric])
qed

lemma set_used_chain:
  assumes "chain (hp_ram h) q0 p0 (xs @ (n, u) # ys)" and "p = p0 + extent xs"
  shows "chain (hp_ram (set_used p (of_bool v) h)) q0 p0 (xs @ (n, v) # ys)" (is "chain (hp_ram ?h) _ _ _")
proof -
  have c: "seg (hp_ram h) q0 p0 xs" "block_at (hp_ram h) (last_at q0 p0 xs) p n u" "chain (hp_ram h) p (p + n) ys"
    using assms by (simp_all add: chain_append chain_Cons)
  have n: "20 \<le> n" using c(2) by (simp add: block_at_def)
  have "seg (hp_ram ?h) q0 p0 xs" by (rule seg_cong [OF c(1)]) (use assms in \<open>simp add: field_defs\<close>)
  moreover have "block_at (hp_ram ?h) (last_at q0 p0 xs) p n v" using c(2) by (simp add: block_at_def field_defs rd16_def)
  moreover have "chain (hp_ram ?h) p (p + n) ys" by (rule chain_cong [OF c(3)]) (use n in \<open>simp add: field_defs\<close>)
  ultimately show ?thesis by (simp add: chain_append chain_Cons assms(2) [symmetric])
qed

section \<open>Invariant and abstract operations\<close>

fun first_free :: "int \<Rightarrow> block list \<Rightarrow> int" where
  "first_free p [] = p"
| "first_free p ((n, u) # bs) = (if u then first_free (p + n) bs else p)"

fun used_total :: "block list \<Rightarrow> int" where
  "used_total [] = 0"
| "used_total ((n, u) # bs) = (if u then n else 0) + used_total bs"

fun coalesced :: "block list \<Rightarrow> bool" where
  "coalesced (a # b # bs) \<longleftrightarrow> (snd a \<or> snd b) \<and> coalesced (b # bs)"
| "coalesced bs \<longleftrightarrow> True"

definition heap_is :: "mem_heap \<Rightarrow> block list \<Rightarrow> bool" where
  "heap_is h bs \<longleftrightarrow> chain (hp_ram h) 0 0 bs \<and> hp_lfree h = first_free 0 bs \<and> coalesced bs \<and> uint (hp_used h) = used_total bs"

text \<open>First fit: the rest of the block is split off when it can hold the smallest block.\<close>

definition taken :: "int \<Rightarrow> int \<Rightarrow> block list" where
  "taken s n = (if s + 28 \<le> n then [(s + 8, True), (n - (s + 8), False)] else [(n, True)])"

fun alloc_list :: "int \<Rightarrow> int \<Rightarrow> block list \<Rightarrow> (int \<times> block list) option" where
  "alloc_list s p [] = None"
| "alloc_list s p ((n, u) # bs) =
     (if \<not> u \<and> s + 8 \<le> n then Some (p + 8, taken s n @ bs)
      else map_option (\<lambda>(q, cs). (q, (n, u) # cs)) (alloc_list s (p + n) bs))"

text \<open>A block that is released becomes free; then free neighbours are joined.\<close>

fun release_list :: "int \<Rightarrow> int \<Rightarrow> block list \<Rightarrow> block list" where
  "release_list q p [] = []"
| "release_list q p ((n, u) # bs) = (if q = p + 8 then (n, False) # bs else (n, u) # release_list q (p + n) bs)"

function (sequential) coalesce :: "block list \<Rightarrow> block list" where
  "coalesce ((m, False) # (n, False) # bs) = coalesce ((m + n, False) # bs)"
| "coalesce (b # bs) = b # coalesce bs"
| "coalesce [] = []"
  by pat_completeness auto
termination by (relation "measure length") auto

lemma alloc_list_Some:
  "alloc_list s p bs = Some (q, cs) \<Longrightarrow>
   \<exists>xs n ys. bs = xs @ (n, False) # ys \<and> cs = xs @ taken s n @ ys \<and> q = p + extent xs + 8 \<and> s + 8 \<le> n"
proof (induction bs arbitrary: p q cs)
  case (Cons b bs)
  obtain n u where b: "b = (n, u)" by force
  show ?case
  proof (cases "\<not> u \<and> s + 8 \<le> n")
    case True
    with Cons.prems b show ?thesis by (intro exI [of _ "[]"]) auto
  next
    case False
    with Cons.prems b obtain ds where d: "alloc_list s (p + n) bs = Some (q, ds)" "cs = (n, u) # ds" by auto
    from Cons.IH [OF d(1)] obtain xs m ys where
      "bs = xs @ (m, False) # ys" "ds = xs @ taken s m @ ys" "q = p + n + extent xs + 8" "s + 8 \<le> m" by auto
    with b d(2) show ?thesis by (intro exI [of _ "b # xs"] exI [of _ m] exI [of _ ys]) simp
  qed
qed simp

lemma alloc_list_None: "alloc_list s p bs = None \<longleftrightarrow> (\<forall>(n, u) \<in> set bs. u \<or> n < s + 8)"
  by (induction bs arbitrary: p) (auto split: if_splits)

lemma first_free_used: "\<forall>b \<in> set xs. snd b \<Longrightarrow> first_free p (xs @ ys) = first_free (p + extent xs) ys"
  by (induction xs arbitrary: p) (auto simp: add.assoc)

lemma first_free_keep: "\<not> (\<forall>b \<in> set xs. snd b) \<Longrightarrow> first_free p (xs @ ys) = first_free p xs"
proof (induction xs arbitrary: p)
  case (Cons b xs)
  obtain n u where "b = (n, u)" by force
  with Cons show ?case by (cases u) simp_all
qed simp

lemma first_free_cases:
  "\<exists>us vs. bs = us @ vs \<and> (\<forall>b \<in> set us. snd b) \<and> first_free p bs = p + extent us \<and> (vs = [] \<or> \<not> snd (hd vs))"
proof (induction bs arbitrary: p)
  case (Cons b bs)
  obtain n u where b: "b = (n, u)" by force
  show ?case
  proof (cases u)
    case True
    from Cons.IH [of "p + n"] obtain us vs where
      "bs = us @ vs" "\<forall>b \<in> set us. snd b" "first_free (p + n) bs = p + n + extent us" "vs = [] \<or> \<not> snd (hd vs)" by auto
    with True b show ?thesis by (intro exI [of _ "b # us"] exI [of _ vs]) simp
  next
    case False
    with b show ?thesis by (intro exI [of _ "[]"] exI [of _ "b # bs"]) simp
  qed
qed simp

lemma first_free_ge: "seg r q p bs \<Longrightarrow> p \<le> first_free p bs"
proof (induction bs arbitrary: q p)
  case (Cons b bs)
  obtain n u where b: "b = (n, u)" by force
  with Cons.prems have "seg r p (p + n) bs" "20 \<le> n" by (auto simp: block_at_def)
  with Cons.IH [of p "p + n"] b show ?case by simp
qed simp

lemma first_free_less: "seg r q p bs \<Longrightarrow> \<not> (\<forall>b \<in> set bs. snd b) \<Longrightarrow> first_free p bs < p + extent bs"
proof (induction bs arbitrary: q p)
  case (Cons b bs)
  obtain n u where b: "b = (n, u)" by force
  with Cons.prems have "seg r p (p + n) bs" "20 \<le> n" by (auto simp: block_at_def)
  moreover have "0 \<le> extent bs" using extent_nonneg [OF calculation(1)] .
  ultimately show ?case using Cons.IH [of p "p + n"] Cons.prems(2) b by (cases u) simp_all
qed simp

lemma used_total_append [simp]: "used_total (xs @ ys) = used_total xs + used_total ys"
  by (induction xs) auto

lemma used_total_bounds: "seg r q p bs \<Longrightarrow> 0 \<le> used_total bs \<and> used_total bs \<le> extent bs"
  by (induction bs arbitrary: q p) (fastforce simp: block_at_def)+

lemma coalesced_append:
  "coalesced (xs @ ys) \<longleftrightarrow> coalesced xs \<and> coalesced ys \<and> (xs = [] \<or> ys = [] \<or> snd (last xs) \<or> snd (hd ys))"
proof (induction xs)
  case (Cons a xs)
  then show ?case by (cases xs; cases ys) auto
qed simp

lemma coalesced_Cons: "coalesced (b # bs) \<longleftrightarrow> coalesced bs \<and> (bs = [] \<or> snd b \<or> snd (hd bs))"
  by (cases bs) auto

lemma coalesce_id: "coalesced bs \<Longrightarrow> coalesce bs = bs"
  by (induction bs rule: coalesce.induct) (auto simp: coalesced_Cons split: list.splits)

lemma coalesce_append:
  "coalesced xs \<Longrightarrow> xs = [] \<or> snd (last xs) \<or> ys = [] \<or> snd (hd ys) \<Longrightarrow> coalesce (xs @ ys) = xs @ coalesce ys"
proof (induction xs)
  case (Cons b xs)
  then have IH: "coalesce (xs @ ys) = xs @ coalesce ys" by (auto simp: coalesced_Cons split: if_splits)
  obtain n u where b: "b = (n, u)" by force
  show ?case
  proof (cases "xs @ ys")
    case (Cons c cs)
    obtain m v where c: "c = (m, v)" by force
    have "u \<or> v" using Cons.prems Cons b c by (cases xs) (auto simp: coalesced_Cons)
    then have "coalesce (b # xs @ ys) = b # coalesce (xs @ ys)" using Cons b c by (cases u; cases v) simp_all
    with IH show ?thesis by simp
  qed (simp add: b)
qed simp

lemma heap_isD:
  assumes "heap_is h (xs @ (n, u) # ys)"
  shows "seg (hp_ram h) 0 0 xs" "block_at (hp_ram h) (last_at 0 0 xs) (extent xs) n u"
    "chain (hp_ram h) (extent xs) (extent xs + n) ys" "0 \<le> extent xs" "extent xs + n \<le> 30720" "20 \<le> n" "4 dvd n"
proof -
  show c: "seg (hp_ram h) 0 0 xs" "block_at (hp_ram h) (last_at 0 0 xs) (extent xs) n u"
    "chain (hp_ram h) (extent xs) (extent xs + n) ys" using assms by (simp_all add: heap_is_def chain_append chain_Cons)
  show "0 \<le> extent xs" using extent_nonneg [OF c(1)] .
  show "extent xs + n \<le> 30720" using chain_bound [OF c(3)] by simp
  show "20 \<le> n" "4 dvd n" using c(2) by (simp_all add: block_at_def)
qed

lemma heap_is_used: "heap_is h bs \<Longrightarrow> used_total bs \<le> 30720 \<and> 0 \<le> used_total bs"
  using used_total_bounds [of "hp_ram h" 0 0 bs] by (auto simp: heap_is_def chain_def)

end
