(* ===== verification/Heap_Allocator.thy ===== *)
theory Heap_Allocator
  imports Mem_Heap
begin

text \<open>
  Correctness of the heap allocator of \<open>Mem_Heap\<close>: each operation implements its counterpart on lists of blocks, the
  allocator keeps the contract of \<open>region_allocator\<close>, and what the 16-bit sizes do at the end of their range.
\<close>

section \<open>Allocation\<close>

lemma uint_of_int_u32: "0 \<le> x \<Longrightarrow> x < 4294967296 \<Longrightarrow> uint (word_of_int x :: u32) = x"
  by (simp add: unsigned_of_int take_bit_int_eq_self)

lemma uint_widen [simp]: "uint (ucast (x :: u16) :: u32) = uint x"
proof -
  have "uint x < 4294967296" using uint_lt2p [of x] by simp
  then show ?thesis unfolding ucast_eq by (intro uint_of_int_u32) simp_all
qed

lemma uint_widen_20: "uint (20 + ucast (x :: u16) :: u32) = uint x + 20"
proof -
  have "20 + ucast x = (word_of_int (uint x + 20) :: u32)" by simp
  moreover have "uint x < 65536" using uint_lt2p [of x] by simp
  ultimately show ?thesis by (simp add: uint_of_int_u32 del: of_int_add of_int_numeral)
qed

lemma uint_eq_of_int: "uint (a :: u16) = x \<Longrightarrow> a = word_of_int x"
  by auto

lemma user_size_block:
  assumes "block_at (hp_ram h) q p n u" and "uint ptr = p" and "0 \<le> p" and "p + n \<le> 30720"
  shows "uint (user_size ptr h) = n - 8"
proof -
  have n: "uint (mem_next h p) = p + n" "20 \<le> n" using assms(1) by (simp_all add: block_at_def mem_next_def)
  have "user_size ptr h = word_of_int (n - 8)" using n(1) assms(2) by (simp add: user_size_def ucast_eq)
  with n assms show ?thesis by (simp add: uint_of_int_u32 del: of_int_diff of_int_numeral)
qed

lemma used_flag [simp]: "(of_bool u :: u8) = 0 \<longleftrightarrow> \<not> u"
  by simp

fun fit_at :: "int \<Rightarrow> int \<Rightarrow> block list \<Rightarrow> int option" where
  "fit_at s p [] = None"
| "fit_at s p ((n, u) # bs) = (if \<not> u \<and> s + 8 \<le> n then Some p else fit_at s (p + n) bs)"

lemma fit_at_alloc: "fit_at s p bs = map_option (\<lambda>x. fst x - 8) (alloc_list s p bs)"
  by (induction bs arbitrary: p) (auto simp: option.map_comp comp_def case_prod_beta)

lemma fit_at_small: "seg r q p bs \<Longrightarrow> extent bs < s + 8 \<Longrightarrow> fit_at s p bs = None"
proof (induction bs arbitrary: q p)
  case (Cons b bs)
  obtain n u where b: "b = (n, u)" by force
  with Cons.prems have "seg r p (p + n) bs" "20 \<le> n" "n + extent bs < s + 8" by (auto simp: block_at_def)
  moreover have "0 \<le> extent bs" using extent_nonneg [OF calculation(1)] .
  ultimately show ?case using b Cons.IH [of p "p + n"] by simp
qed simp

lemma fit_at_skip: "\<forall>b \<in> set us. snd b \<Longrightarrow> fit_at s p (us @ vs) = fit_at s (p + extent us) vs"
  by (induction us arbitrary: p) (auto simp: add.assoc)

lemma find_fit_chain:
  assumes "chain (hp_ram h) q p bs" and "0 \<le> p"
  shows "find_fit s (word_of_int p) h = Some (map_option word_of_int (fit_at (uint s) p bs))"
  using assms
proof (induction bs arbitrary: q p)
  case Nil
  then have "p = 30720" by (simp add: chain_def)
  then show ?case by (subst find_fit.simps) simp
next
  case (Cons b bs)
  obtain n u where b: "b = (n, u)" by force
  with Cons.prems have c: "block_at (hp_ram h) q p n u" "chain (hp_ram h) p (p + n) bs" by (simp_all add: chain_Cons)
  then have n: "20 \<le> n" "p + n \<le> 30720" using chain_bound by (auto simp: block_at_def)
  then have p: "uint (word_of_int p :: u16) = p" using Cons.prems(2) by (intro uint_of_int_u16) simp_all
  have us: "uint (user_size (word_of_int p) h) = n - 8" using user_size_block [OF c(1) p Cons.prems(2) n(2)] .
  have used: "mem_used h p = 0 \<longleftrightarrow> \<not> u" using c(1) by (simp add: block_at_def mem_used_def)
  have nx: "mem_next h p = word_of_int (p + n)" using c(1) by (intro uint_eq_of_int) (simp add: block_at_def mem_next_def)
  have le: "ucast s \<le> user_size (word_of_int p) h \<longleftrightarrow> uint s + 8 \<le> n" using us by (auto simp: word_le_def)
  have IH: "find_fit s (word_of_int (p + n)) h = Some (map_option word_of_int (fit_at (uint s) (p + n) bs))"
    using Cons.IH [OF c(2)] Cons.prems(2) n by simp
  show ?case
  proof (cases "p < 30720 - uint s")
    case True
    then show ?thesis using IH by (subst find_fit.simps) (simp add: p used le nx b del: of_int_add)
  next
    case False
    have "extent (b # bs) < uint s + 8" using Cons.prems(1) False by (simp add: chain_def)
    then have "fit_at (uint s) p (b # bs) = None" using Cons.prems(1) by (auto simp: chain_def intro: fit_at_small)
    with False show ?thesis by (subst find_fit.simps) (simp add: p)
  qed
qed

lemma find_fit_heap:
  assumes "heap_is h bs"
  shows "find_fit s (word_of_int (hp_lfree h)) h = Some (map_option word_of_int (fit_at (uint s) 0 bs))"
proof -
  obtain us vs where bs: "bs = us @ vs" "\<forall>b \<in> set us. snd b" "first_free 0 bs = extent us"
    using first_free_cases [of bs 0] by auto
  then have c: "seg (hp_ram h) 0 0 us" "chain (hp_ram h) (last_at 0 0 us) (extent us) vs" "hp_lfree h = extent us"
    using assms by (simp_all add: heap_is_def chain_append)
  then show ?thesis using find_fit_chain [OF c(2) extent_nonneg [OF c(1)], of s] bs(1,2) by (simp add: fit_at_skip)
qed

lemma next_free_chain: "chain (hp_ram h) q p bs \<Longrightarrow> next_free p h = Some (first_free p bs)"
proof (induction bs arbitrary: q p)
  case Nil
  then show ?case by (subst next_free.simps) (simp add: chain_def)
next
  case (Cons b bs)
  obtain n u where b: "b = (n, u)" by force
  with Cons.prems have c: "block_at (hp_ram h) q p n u" "chain (hp_ram h) p (p + n) bs" by (simp_all add: chain_Cons)
  then have "p + n \<le> 30720" "20 \<le> n" using chain_bound by (auto simp: block_at_def)
  then show ?case using b c(1) Cons.IH [OF c(2)] by (subst next_free.simps) (simp add: block_at_def mem_used_def mem_next_def)
qed

text \<open>The bytes that belong to the users of the allocated blocks.\<close>

fun data_area :: "int \<Rightarrow> block list \<Rightarrow> int set" where
  "data_area p [] = {}"
| "data_area p ((n, u) # bs) = (if u then {p + 8 ..< p + n} else {}) \<union> data_area (p + n) bs"

lemma data_area_append [simp]: "data_area p (xs @ ys) = data_area p xs \<union> data_area (p + extent xs) ys"
  by (induction xs arbitrary: p) (auto simp: add.assoc)

lemma data_area_bounds: "seg r q p bs \<Longrightarrow> i \<in> data_area p bs \<Longrightarrow> p + 8 \<le> i \<and> i < p + extent bs"
proof (induction bs arbitrary: q p)
  case (Cons b bs)
  obtain n u where b: "b = (n, u)" by force
  with Cons.prems have s: "seg r p (p + n) bs" "20 \<le> n" by (auto simp: block_at_def)
  show ?case using Cons.prems(2) Cons.IH [OF s(1)] extent_nonneg [OF s(1)] s(2) b by (fastforce split: if_splits)
qed simp

lemma heap_data_bounds:
  assumes "heap_is h (xs @ (n, u) # ys)"
  shows "i \<in> data_area 0 xs \<Longrightarrow> i < extent xs" "i \<in> data_area (extent xs + n) ys \<Longrightarrow> extent xs + n + 8 \<le> i"
  using data_area_bounds heap_isD(1,3) [OF assms] by (fastforce simp: chain_def)+

lemma uint_plus_u16:
  fixes a b :: u16
  assumes "uint a + uint b < 65536"
  shows "uint (a + b) = uint a + uint b"
proof -
  have "uint (word_of_int (uint a + uint b) :: u16) = uint a + uint b" using assms by (intro uint_of_int_u16) simp_all
  then show ?thesis by simp
qed

lemma uint_minus_u16:
  fixes a b :: u16
  assumes "uint b \<le> uint a"
  shows "uint (a - b) = uint a - uint b"
proof -
  have "uint a < 65536" "0 \<le> uint b" using uint_lt2p [of a] by simp_all
  then have "uint a - uint b < 65536" by linarith
  then have "uint (word_of_int (uint a - uint b) :: u16) = uint a - uint b" using assms by (intro uint_of_int_u16) simp_all
  then show ?thesis by simp
qed

lemma take_block_heap:
  assumes h: "heap_is h (xs @ (n, False) # ys)" and s: "12 \<le> uint s" "4 dvd uint s" "uint s + 8 \<le> n"
  defines "t \<equiv> take_block s (word_of_int (extent xs)) h"
  shows "chain (hp_ram t) 0 0 (xs @ taken (uint s) n @ ys)" "hp_lfree t = hp_lfree h"
    "uint (hp_used t) = used_total (xs @ taken (uint s) n @ ys)"
    "i \<notin> hdr (extent xs) \<Longrightarrow> i \<notin> hdr (extent xs + n) \<Longrightarrow> \<not> (extent xs \<le> i \<and> i < extent xs + n) \<Longrightarrow> hp_ram t i = hp_ram h i"
proof -
  note D = heap_isD [OF h]
  let ?p = "extent xs" and ?ptr = "word_of_int (extent xs) :: u16" and ?s = "uint s"
  have p: "uint ?ptr = ?p" using D by (intro uint_of_int_u16) simp_all
  have nx: "uint (mem_next h ?p) = ?p + n" "uint (mem_prev h ?p) = last_at 0 0 xs" "mem_used h ?p = 0"
    using D(2) by (simp_all add: block_at_def mem_next_def mem_prev_def mem_used_def)
  have split: "20 + ucast s \<le> user_size ?ptr h \<longleftrightarrow> ?s + 28 \<le> n"
    using user_size_block [OF D(2) p D(4,5)] by (auto simp: word_le_def uint_widen_20)
  have ptr2: "uint (?ptr + 8 + s) = ?p + (?s + 8)"
    using p s D by (simp add: uint_plus_u16 del: word_of_int_0)
  have u: "uint (hp_used h) = used_total xs + used_total ys" "0 \<le> used_total xs + used_total ys"
    "used_total xs + used_total ys + n \<le> 30720"
  proof -
    show "uint (hp_used h) = used_total xs + used_total ys" using h by (simp add: heap_is_def)
    then show "0 \<le> used_total xs + used_total ys" by (metis uint_ge_0)
    have "?p + n + extent ys = 30720" using h by (simp add: heap_is_def chain_def)
    moreover have "used_total xs \<le> extent xs" "used_total ys \<le> extent ys"
      using used_total_bounds D(1,3) by (auto simp: chain_def)
    ultimately show "used_total xs + used_total ys + n \<le> 30720" by simp
  qed
  let ?g = "insert_rest ?p (?ptr + 8 + s) (mem_next h ?p) h"
  have t: "t = (if ?s + 28 \<le> n then stats_inc_used (s + 8) (set_used ?p 1 ?g)
               else stats_inc_used (mem_next h ?p - ?ptr) (set_used ?p 1 h))"
    by (simp add: t_def take_block_def Let_def split p)
  show "hp_lfree t = hp_lfree h" by (simp add: t)
  show "chain (hp_ram t) 0 0 (xs @ taken ?s n @ ys)"
  proof (cases "?s + 28 \<le> n")
    case True
    have "chain (hp_ram ?g) 0 0 (xs @ (?s + 8, False) # (n - (?s + 8), False) # ys)"
      by (rule insert_rest_chain [OF D(1) _ _ _ D(3)]) (use nx s D True ptr2 in simp_all)
    from set_used_chain [OF this, of ?p True] True show ?thesis by (simp add: t taken_def)
  next
    case False
    have "chain (hp_ram h) 0 0 (xs @ (n, False) # ys)" using h by (simp add: heap_is_def)
    from set_used_chain [OF this, of ?p True] False show ?thesis by (simp add: t taken_def)
  qed
  show "uint (hp_used t) = used_total (xs @ taken ?s n @ ys)"
  proof (cases "?s + 28 \<le> n")
    case True
    have "uint (s + 8) = ?s + 8" using s D True by (simp add: uint_plus_u16)
    with True u show ?thesis by (simp add: t taken_def uint_plus_u16)
  next
    case False
    have "uint (mem_next h ?p - ?ptr) = n" using nx p D by (simp add: uint_minus_u16)
    with False u show ?thesis by (simp add: t taken_def uint_plus_u16)
  qed
  show "hp_ram t i = hp_ram h i" if i: "i \<notin> hdr ?p" "i \<notin> hdr (?p + n)" "\<not> (?p \<le> i \<and> i < ?p + n)"
  proof -
    have "hp_ram ?g i = hp_ram h i" if "?s + 28 \<le> n"
      by (rule insert_rest_outside) (use i that nx ptr2 s in \<open>auto simp: hdr_def\<close>)
    with i show ?thesis by (auto simp: t set_used_def hdr_def)
  qed
qed

text \<open>Sizes are rounded up to a multiple of four, at least 12; the last three 16-bit sizes wrap to zero.\<close>

definition round_up :: "int \<Rightarrow> int" where
  "round_up n = max 12 (4 * ((n + 3) div 4))"

lemma and_not_mask: "x AND NOT (mask n) = push_bit n (drop_bit n x)" for x :: "'a::len word"
  by (rule bit_word_eqI) (auto simp: bit_and_iff bit_not_iff bit_mask_iff bit_push_bit_iff bit_drop_bit_eq not_less)

lemma round_up_ge: "n \<le> round_up n"
  unfolding round_up_def by (rule max.coboundedI2) presburger

lemma align_size: "uint (LWIP_MEM_ALIGN_SIZE (ucast (n :: mem_size_t))) = 4 * ((uint n + 3) div 4)"
proof -
  have n: "uint n < 65536" using uint_lt2p [of n] by simp
  have "(ucast n + 3 :: u32) = word_of_int (uint n + 3)" by simp
  then have a: "uint (ucast n + 3 :: u32) = uint n + 3" using n by (simp add: uint_of_int_u32 del: of_int_add of_int_numeral)
  have "(- 4 :: u32) = NOT (mask 2)" by (simp add: mask_eq_exp_minus_1)
  then have "LWIP_MEM_ALIGN_SIZE (ucast n) = (ucast n + 3) AND NOT (mask 2)"
    by (simp add: LWIP_MEM_ALIGN_SIZE_def MEM_ALIGNMENT_def add.commute)
  then have "LWIP_MEM_ALIGN_SIZE (ucast n) = push_bit 2 (drop_bit 2 (ucast n + 3))"
    by (simp only: and_not_mask)
  moreover have "uint (push_bit 2 (drop_bit 2 x)) = 4 * (uint x div 4)" if "uint x < 70000" for x :: u32
  proof -
    have "uint (push_bit 2 (drop_bit 2 x)) = take_bit 32 (push_bit 2 (drop_bit 2 (take_bit 32 (uint x))))"
      by (simp only: unsigned_push_bit_eq unsigned_drop_bit_eq) simp
    moreover have "0 \<le> uint x div 4" "uint x div 4 < 17500" using that by (simp_all add: pos_imp_zdiv_nonneg_iff)
    ultimately show ?thesis using that by (simp add: push_bit_eq_mult drop_bit_eq_div take_bit_int_eq_self)
  qed
  ultimately show ?thesis using a n by simp
qed

lemma rounded_size_bounds: "12 \<le> uint (rounded_size n)" "4 dvd uint (rounded_size n)"
  and rounded_size_fits: "uint n \<le> 65532 \<Longrightarrow> uint (rounded_size n) = round_up (uint n)"
  and rounded_size_wraps: "65532 < uint n \<Longrightarrow> uint (rounded_size n) = 12"
proof -
  let ?w = "LWIP_MEM_ALIGN_SIZE (ucast n)" and ?a = "4 * ((uint n + 3) div 4)"
  have n: "0 \<le> uint n" "uint n < 65536" using uint_lt2p [of n] by simp_all
  have c: "uint (ucast ?w :: u16) = ?a mod 65536"
    by (simp add: unsigned_ucast_eq align_size take_bit_eq_mod)
  have lt: "(ucast (ucast ?w :: u16) :: u32) < 12 \<longleftrightarrow> ?a mod 65536 < 12" using c by (simp add: word_less_def)
  have r: "uint (rounded_size n) = (if ?a mod 65536 < 12 then 12 else ?a mod 65536)"
    by (simp add: rounded_size_def Let_def lt c)
  have "4 dvd ?a mod 65536" by (simp add: dvd_mod)
  then show "12 \<le> uint (rounded_size n)" "4 dvd uint (rounded_size n)" by (simp_all add: r)
  show "uint (rounded_size n) = round_up (uint n)" if "uint n \<le> 65532"
  proof -
    have "(uint n + 3) div 4 \<le> 16383" using that by linarith
    then have "?a \<le> 65532" by linarith
    moreover have "0 \<le> ?a" using n by linarith
    ultimately show ?thesis by (simp add: r round_up_def)
  qed
  show "uint (rounded_size n) = 12" if "65532 < uint n"
  proof -
    have "(uint n + 3) div 4 = 16384" using that n by linarith
    then show ?thesis by (simp add: r)
  qed
qed

lemma taken_shape:
  "extent (taken s n) = n" "taken s n \<noteq> []" "snd (hd (taken s n))"
  by (auto simp: taken_def)

lemma coalesced_taken:
  assumes "coalesced (xs @ (n, False) # ys)"
  shows "coalesced (xs @ taken s n @ ys)"
  using assms by (auto simp: coalesced_append coalesced_Cons taken_def)

lemma data_taken: "data_area 0 (xs @ (n, False) # ys) \<subseteq> data_area 0 (xs @ taken s n @ ys)"
  by (auto simp: taken_def)

text \<open>What \<open>mem_malloc\<close> does on the heap that is the list \<open>bs\<close>: a closed form of both loops.\<close>

lemma malloc_found:
  assumes h: "heap_is h (xs @ (n, False) # ys)" and s: "12 \<le> uint s" "4 dvd uint s" "uint s + 8 \<le> n"
  defines "t \<equiv> take_block s (word_of_int (extent xs)) h" and "cs \<equiv> xs @ taken (uint s) n @ ys"
  shows "\<exists>t'. (if extent xs = hp_lfree t then do { cur \<leftarrow> next_free (hp_lfree t) t; Some (Some q, t\<lparr>hp_lfree := cur\<rparr>) }
              else Some (Some q, t)) = Some (Some q, t') \<and> heap_is t' cs \<and> hp_ram t' = hp_ram t"
proof -
  note T = take_block_heap [OF h s, folded t_def cs_def]
  have c: "coalesced cs" using h by (simp add: cs_def heap_is_def coalesced_taken)
  have lf: "hp_lfree h = first_free 0 (xs @ (n, False) # ys)" using h by (simp add: heap_is_def)
  have sub: "chain (hp_ram t) (last_at 0 0 xs) (extent xs) (taken (uint s) n @ ys)" using T(1) by (simp add: cs_def chain_append)
  show ?thesis
  proof (cases "extent xs = hp_lfree t")
    case True
    have "\<forall>b \<in> set xs. snd b"
    proof (rule ccontr)
      assume nu: "\<not> (\<forall>b \<in> set xs. snd b)"
      then have "hp_lfree h = first_free 0 xs" using lf first_free_keep by metis
      then show False using first_free_less [OF heap_isD(1) [OF h] nu] True T(2) by simp
    qed
    then have "first_free 0 cs = first_free (extent xs) (taken (uint s) n @ ys)" by (simp add: cs_def first_free_used)
    then have "next_free (hp_lfree t) t = Some (first_free 0 cs)" using next_free_chain [OF sub] True by simp
    with True T c show ?thesis by (simp add: heap_is_def)
  next
    case False
    then have nu: "\<not> (\<forall>b \<in> set xs. snd b)" using lf T(2) first_free_used [of xs 0 "(n, False) # ys"] by fastforce
    have "hp_lfree t = first_free 0 cs" using lf T(2) nu first_free_keep unfolding cs_def by metis
    with False T c show ?thesis by (simp add: heap_is_def)
  qed
qed

lemma mem_malloc_found:
  assumes h: "heap_is h bs" and n: "n \<noteq> 0" and a: "alloc_list (uint (rounded_size n)) 0 bs = Some (q, cs)"
  shows "\<exists>t. mem_malloc n h = Some (Some q, t) \<and> heap_is t cs \<and> (\<forall>i \<in> data_area 0 bs. hp_ram t i = hp_ram h i)"
proof -
  let ?s = "rounded_size n"
  from alloc_list_Some [OF a] obtain xs m ys where
    bs: "bs = xs @ (m, False) # ys" "cs = xs @ taken (uint ?s) m @ ys" "q = extent xs + 8" "uint ?s + 8 \<le> m" by auto
  note D = heap_isD [OF h [unfolded bs(1)]]
  have "uint ?s \<le> 30720" using bs(4) D by simp
  then have small: "\<not> 30720 < (ucast ?s :: u32)" by (simp add: word_less_def)
  define w :: u16 where "w = word_of_int (extent xs)"
  have fit: "find_fit ?s (word_of_int (hp_lfree h)) h = Some (Some w)"
    using find_fit_heap [OF h, of ?s] a bs(3) by (simp add: fit_at_alloc w_def)
  have p: "uint w = extent xs" unfolding w_def using D by (intro uint_of_int_u16) simp_all
  define g where "g = take_block ?s w h"
  obtain t where t: "(if extent xs = hp_lfree g then do { cur \<leftarrow> next_free (hp_lfree g) g; Some (Some q, g\<lparr>hp_lfree := cur\<rparr>) }
      else Some (Some q, g)) = Some (Some q, t)" "heap_is t cs" "hp_ram t = hp_ram g"
    using malloc_found [OF h [unfolded bs(1)] rounded_size_bounds(1,2) bs(4), of q] bs(2) unfolding g_def w_def by blast
  have "mem_malloc n h = (if extent xs = hp_lfree g then do { cur \<leftarrow> next_free (hp_lfree g) g; Some (Some q, g\<lparr>hp_lfree := cur\<rparr>) }
      else Some (Some q, g))"
    by (simp add: mem_malloc_def Let_def n small fit p bs(3) g_def [symmetric])
  then have "mem_malloc n h = Some (Some q, t)" using t(1) by simp
  moreover have "hp_ram t i = hp_ram h i" if "i \<in> data_area 0 bs" for i
    unfolding t(3) g_def w_def
  proof (rule take_block_heap(4) [OF h [unfolded bs(1)] rounded_size_bounds(1,2) bs(4)])
    have "i < extent xs \<or> extent xs + m + 8 \<le> i"
      using that bs(1) heap_data_bounds [OF h [unfolded bs(1)], of i] by auto
    then show "i \<notin> hdr (extent xs)" "i \<notin> hdr (extent xs + m)" "\<not> (extent xs \<le> i \<and> i < extent xs + m)"
      using D by (auto simp: hdr_def)
  qed
  ultimately show ?thesis using t(2) by blast
qed

lemma mem_malloc_none:
  assumes h: "heap_is h bs" and n: "n \<noteq> 0" and a: "alloc_list (uint (rounded_size n)) 0 bs = None"
  shows "\<exists>t. mem_malloc n h = Some (None, t) \<and> heap_is t bs \<and> hp_ram t = hp_ram h"
proof -
  have "find_fit (rounded_size n) (word_of_int (hp_lfree h)) h = Some None"
    using find_fit_heap [OF h] a by (simp add: fit_at_alloc)
  with h n show ?thesis by (simp add: mem_malloc_def Let_def heap_is_def)
qed

section \<open>Release\<close>

lemma first_free_at: "first_free 0 (xs @ (n, False) # ys) = (if \<forall>b \<in> set xs. snd b then extent xs else first_free 0 xs)"
  using first_free_used [of xs 0 "(n, False) # ys"] first_free_keep [of xs 0 "(n, False) # ys"] by simp

lemma first_free_at_le: "seg r 0 0 xs \<Longrightarrow> first_free 0 (xs @ (n, False) # ys) \<le> extent xs"
  using first_free_less [of r 0 0 xs] by (cases "\<forall>b \<in> set xs. snd b") (simp_all add: first_free_at)

text \<open>No header lies in the bytes of the users.\<close>

lemma hdr_data:
  assumes "seg r q p (xs @ ys)" and "i \<in> data_area p (xs @ ys)"
  shows "i \<notin> hdr (p + extent xs)"
proof -
  have s: "seg r q p xs" "seg r (last_at q p xs) (p + extent xs) ys" using assms(1) by (simp_all add: seg_append)
  then show ?thesis using assms(2) data_area_bounds [OF s(1), of i] data_area_bounds [OF s(2), of i] by (auto simp: hdr_def)
qed

text \<open>Joining a free block of size \<open>n\<close> with the blocks that follow it.\<close>

fun join_next :: "int \<Rightarrow> block list \<Rightarrow> block list" where
  "join_next n ((m, False) # bs) = (n + m, False) # bs"
| "join_next n bs = (n, False) # bs"

lemma coalesce_join: "coalesced bs \<Longrightarrow> coalesce ((n, False) # bs) = join_next n bs"
proof (induction n bs rule: join_next.induct)
  case (1 n m bs)
  then have "coalesced ((n + m, False) # bs)" by (auto simp: coalesced_Cons)
  with coalesce_id [OF this] show ?case by simp
qed (simp_all add: coalesce_id coalesced_Cons)

lemma coalesced_join: "coalesced bs \<Longrightarrow> coalesced (join_next n bs)"
  by (induction n bs rule: join_next.induct) (auto simp: coalesced_Cons)

lemma data_join: "data_area p (join_next n bs) = data_area (p + n) bs" "used_total (join_next n bs) = used_total bs"
  by (induction n bs rule: join_next.induct) (auto simp: add.assoc)

lemma plug_forward_chain:
  assumes c: "chain (hp_ram h) 0 0 (xs @ (n, False) # ys)" and l: "hp_lfree h \<le> extent xs"
  defines "t \<equiv> plug_forward (extent xs) h"
  shows "chain (hp_ram t) 0 0 (xs @ join_next n ys)" "hp_lfree t = hp_lfree h" "hp_used t = hp_used h"
    "i \<in> data_area 0 (xs @ (n, False) # ys) \<Longrightarrow> hp_ram t i = hp_ram h i"
proof -
  let ?p = "extent xs"
  have D: "seg (hp_ram h) 0 0 xs" "block_at (hp_ram h) (last_at 0 0 xs) ?p n False" "chain (hp_ram h) ?p (?p + n) ys"
    using c by (simp_all add: chain_append chain_Cons)
  have p: "0 \<le> ?p" "20 \<le> n" "4 dvd n" using D extent_nonneg by (auto simp: block_at_def)
  have nx: "uint (mem_next h ?p) = ?p + n" "uint (mem_prev h ?p) = last_at 0 0 xs" "mem_used h ?p = 0"
    using D(2) by (simp_all add: block_at_def mem_next_def mem_prev_def mem_used_def)
  have "chain (hp_ram t) 0 0 (xs @ join_next n ys) \<and> hp_lfree t = hp_lfree h \<and> hp_used t = hp_used h \<and>
    (i \<in> data_area 0 (xs @ (n, False) # ys) \<longrightarrow> hp_ram t i = hp_ram h i)"
  proof (cases "ys = [] \<or> snd (hd ys)")
    case True
    have "mem_used h (?p + n) = 1 \<or> ?p + n = ram_end"
    proof (cases ys)
      case Nil
      with D(3) show ?thesis by (simp add: chain_def)
    next
      case (Cons b zs)
      with True D(3) show ?thesis by (cases b) (simp add: chain_Cons block_at_def mem_used_def)
    qed
    then have "t = h" by (auto simp: t_def plug_forward_def Let_def nx)
    moreover have "join_next n ys = (n, False) # ys" using True by (cases "(n, ys)" rule: join_next.cases) auto
    ultimately show ?thesis using c by simp
  next
    case False
    then obtain m zs where ys: "ys = (m, False) # zs" by (cases ys) auto
    have E: "block_at (hp_ram h) ?p (?p + n) m False" "chain (hp_ram h) (?p + n) (?p + n + m) zs"
      using D(3) by (simp_all add: ys chain_Cons)
    have m: "20 \<le> m" "4 dvd m" "?p + n + m \<le> 30720" using E chain_bound by (auto simp: block_at_def)
    let ?b = "mem_next h (?p + n)" and ?w = "word_of_int ?p :: u16"
    have b: "uint ?b = ?p + n + m" "mem_used h (?p + n) = 0" using E(1) by (simp_all add: block_at_def mem_next_def mem_used_def)
    have w: "uint ?w = ?p" using p m by (intro uint_of_int_u16) simp_all
    have "mem_next (set_next ?p ?b h) (?p + n) = ?b" using p by (simp add: mem_next_def set_next_def rd16_def wr16_def)
    then have t: "t = set_prev (?p + (n + m)) ?w (set_next ?p ?b h)"
      using l p m by (simp add: t_def plug_forward_def Let_def nx b add.assoc)
    have "chain (hp_ram t) 0 0 (xs @ (n + m, False) # zs)"
      unfolding t using E(2) nx p m b w by (intro join_chain [OF D(1)]) (simp_all add: add.assoc)
    moreover have "hp_ram t i = hp_ram h i" if "i \<in> data_area 0 (xs @ (n, False) # ys)"
    proof -
      have s: "seg (hp_ram h) 0 0 (xs @ (n, False) # ys)" using c by (simp add: chain_def)
      have "i \<notin> hdr ?p" using hdr_data [OF s that] by simp
      moreover have "i \<notin> hdr (?p + (n + m))"
        using hdr_data [of "hp_ram h" 0 0 "xs @ [(n, False), (m, False)]" zs i] s that by (simp add: ys)
      ultimately show ?thesis by (simp add: t set_prev_def set_next_def wr16_outside)
    qed
    ultimately show ?thesis by (simp add: t ys)
  qed
  then show "chain (hp_ram t) 0 0 (xs @ join_next n ys)" "hp_lfree t = hp_lfree h" "hp_used t = hp_used h"
    "i \<in> data_area 0 (xs @ (n, False) # ys) \<Longrightarrow> hp_ram t i = hp_ram h i" by simp_all
qed

text \<open>Joining it with the block in front; the predecessor of the first block is the block itself.\<close>

lemma last_at_snoc: "last_at q p (xs @ [(n, u)]) = p + extent xs"
  by (induction xs arbitrary: q p) (auto simp: add.assoc)

definition join_prev :: "block list \<Rightarrow> int \<Rightarrow> block list \<Rightarrow> block list" where
  "join_prev xs n ys = (if xs \<noteq> [] \<and> \<not> snd (last xs) then butlast xs @ (fst (last xs) + n, False) # ys else xs @ (n, False) # ys)"

lemma plug_backward_chain:
  assumes c: "chain (hp_ram h) 0 0 (xs @ (n, False) # ys)" and l: "hp_lfree h = first_free 0 (xs @ (n, False) # ys)"
  defines "t \<equiv> plug_backward (extent xs) h"
  shows "chain (hp_ram t) 0 0 (join_prev xs n ys)" "hp_lfree t = first_free 0 (join_prev xs n ys)" "hp_used t = hp_used h"
    "i \<in> data_area 0 (xs @ (n, False) # ys) \<Longrightarrow> hp_ram t i = hp_ram h i"
proof -
  let ?p = "extent xs"
  have D: "seg (hp_ram h) 0 0 xs" "block_at (hp_ram h) (last_at 0 0 xs) ?p n False" "chain (hp_ram h) ?p (?p + n) ys"
    using c by (simp_all add: chain_append chain_Cons)
  have p: "0 \<le> ?p" "20 \<le> n" "4 dvd n" "?p + n \<le> 30720" using D extent_nonneg chain_bound by (auto simp: block_at_def)
  have nx: "uint (mem_next h ?p) = ?p + n" "uint (mem_prev h ?p) = last_at 0 0 xs"
    using D(2) by (simp_all add: block_at_def mem_next_def mem_prev_def)
  have "chain (hp_ram t) 0 0 (join_prev xs n ys) \<and> hp_lfree t = first_free 0 (join_prev xs n ys) \<and> hp_used t = hp_used h \<and>
    (i \<in> data_area 0 (xs @ (n, False) # ys) \<longrightarrow> hp_ram t i = hp_ram h i)"
  proof (cases "xs = []")
    case True
    then have "t = h" using nx by (simp add: t_def plug_backward_def Let_def)
    with True c l show ?thesis by (simp add: join_prev_def)
  next
    case False
    then obtain ws b where "xs = ws @ [b]" by (cases xs rule: rev_cases) auto
    moreover obtain k v where "b = (k, v)" by force
    ultimately have xs: "xs = ws @ [(k, v)]" by simp
    let ?q = "extent ws"
    have E: "seg (hp_ram h) 0 0 ws" "block_at (hp_ram h) (last_at 0 0 ws) ?q k v" using D(1) by (simp_all add: xs seg_append)
    have q: "last_at 0 0 xs = ?q" "?p = ?q + k" "20 \<le> k" "4 dvd k" "0 \<le> ?q" using E extent_nonneg
      by (auto simp: xs last_at_snoc block_at_def)
    have u: "mem_used h ?q = of_bool v" "uint (mem_prev h ?q) = last_at 0 0 ws"
      using E(2) by (simp_all add: block_at_def mem_used_def mem_prev_def)
    show ?thesis
    proof (cases v)
      case True
      then have "t = h" using nx q u by (simp add: t_def plug_backward_def Let_def)
      with True c l show ?thesis by (simp add: join_prev_def xs)
    next
      case False
      let ?b = "mem_next h ?p" and ?w = "word_of_int ?q :: u16"
      have w: "uint ?w = ?q" using q p by (intro uint_of_int_u16) simp_all
      have le: "hp_lfree h \<le> ?q" using l first_free_at_le [OF E(1), of k "(n, False) # ys"] False by (simp add: xs)
      have "mem_next (set_next ?q ?b h) ?p = ?b" using q by (simp add: mem_next_def set_next_def rd16_def wr16_def)
      then have t: "t = set_prev (?q + (k + n)) ?w (set_next ?q ?b h)"
        using le q u nx False by (simp add: t_def plug_backward_def Let_def add.assoc)
      have "chain (hp_ram t) 0 0 (ws @ (k + n, False) # ys)"
        unfolding t using D(3) nx p q u w False by (intro join_chain [OF E(1)]) (simp_all add: add.assoc)
      moreover have "hp_ram t i = hp_ram h i" if "i \<in> data_area 0 (xs @ (n, False) # ys)"
      proof -
        have s: "seg (hp_ram h) 0 0 (xs @ (n, False) # ys)" using c by (simp add: chain_def)
        have "i \<notin> hdr ?q" using hdr_data [of "hp_ram h" 0 0 ws "(k, v) # (n, False) # ys" i] s that by (simp add: xs)
        moreover have "i \<notin> hdr (?q + (k + n))"
          using hdr_data [of "hp_ram h" 0 0 "xs @ [(n, False)]" ys i] s that by (simp add: xs add.assoc)
        ultimately show ?thesis by (simp add: t set_prev_def set_next_def wr16_outside)
      qed
      ultimately show ?thesis using l False by (simp add: t xs join_prev_def first_free_at)
    qed
  qed
  then show "chain (hp_ram t) 0 0 (join_prev xs n ys)" "hp_lfree t = first_free 0 (join_prev xs n ys)" "hp_used t = hp_used h"
    "i \<in> data_area 0 (xs @ (n, False) # ys) \<Longrightarrow> hp_ram t i = hp_ram h i" by simp_all
qed

lemma join_next_shape: "\<exists>m zs. join_next n ys = (m, False) # zs"
  by (induction n ys rule: join_next.induct) auto

lemma coalesce_release:
  assumes "coalesced (xs @ (n, True) # ys)" and "join_next n ys = (m, False) # zs"
  shows "coalesce (xs @ (n, False) # ys) = join_prev xs m zs" "coalesced (join_prev xs m zs)"
proof -
  have c: "coalesced xs" "coalesced ys" using assms(1) by (auto simp: coalesced_append coalesced_Cons)
  have z: "coalesced ((m, False) # zs)" using coalesced_join [OF c(2), of n] assms(2) by simp
  show j: "coalesced (join_prev xs m zs)"
  proof (cases "xs \<noteq> [] \<and> \<not> snd (last xs)")
    case True
    then have "coalesced (butlast xs @ [last xs])" using c(1) by simp
    then have "coalesced (butlast xs)" "butlast xs = [] \<or> snd (last (butlast xs))" using True
      by (simp_all only: coalesced_append) auto
    with True z show ?thesis by (auto simp: join_prev_def coalesced_append coalesced_Cons)
  next
    case False
    with c z show ?thesis by (auto simp: join_prev_def coalesced_append)
  qed
  show "coalesce (xs @ (n, False) # ys) = join_prev xs m zs"
  proof (cases "xs \<noteq> [] \<and> \<not> snd (last xs)")
    case True
    then obtain ws k where xs: "xs = ws @ [(k, False)]" by (cases xs rule: rev_cases) auto
    have ws: "coalesced ws" "ws = [] \<or> snd (last ws)" using c(1) by (auto simp: xs coalesced_append)
    have "coalesce (xs @ (n, False) # ys) = ws @ coalesce ((k + n, False) # ys)"
      using coalesce_append [OF ws(1), of "(k, False) # (n, False) # ys"] ws(2) by (auto simp: xs)
    moreover have "join_next (k + n) ys = (k + m, False) # zs" using assms(2) by (induction n ys rule: join_next.induct) auto
    ultimately show ?thesis by (simp add: coalesce_join [OF c(2)] xs join_prev_def)
  next
    case False
    then have "coalesce (xs @ (n, False) # ys) = xs @ coalesce ((n, False) # ys)" by (intro coalesce_append c(1)) auto
    with False show ?thesis by (auto simp: coalesce_join [OF c(2)] assms(2) join_prev_def)
  qed
qed

lemma data_join_prev: "data_area 0 (join_prev xs n ys) = data_area 0 (xs @ (n, False) # ys)"
  "used_total (join_prev xs n ys) = used_total xs + used_total ys"
proof -
  have "data_area 0 (join_prev xs n ys) = data_area 0 (xs @ (n, False) # ys) \<and>
    used_total (join_prev xs n ys) = used_total xs + used_total ys"
  proof (cases "xs \<noteq> [] \<and> \<not> snd (last xs)")
    case True
    then obtain ws k where "xs = ws @ [(k, False)]" by (cases xs rule: rev_cases) auto
    then show ?thesis by (simp add: join_prev_def add.assoc)
  qed (auto simp: join_prev_def)
  then show "data_area 0 (join_prev xs n ys) = data_area 0 (xs @ (n, False) # ys)"
    "used_total (join_prev xs n ys) = used_total xs + used_total ys" by simp_all
qed

lemma used_total_rest:
  assumes "heap_is h (xs @ (n, True) # ys)"
  shows "uint (hp_used h) = used_total xs + n + used_total ys" "0 \<le> used_total xs" "0 \<le> used_total ys"
  using assms heap_isD(1,3) [OF assms] used_total_bounds by (auto simp: heap_is_def chain_def)

lemma mem_free_heap:
  assumes h: "heap_is h (xs @ (n, True) # ys)"
  defines "t \<equiv> mem_free (Some (extent xs + 8)) h"
  shows "heap_is t (coalesce (xs @ (n, False) # ys))" "i \<in> data_area 0 (xs @ (n, False) # ys) \<Longrightarrow> hp_ram t i = hp_ram h i"
proof -
  let ?p = "extent xs"
  note D = heap_isD [OF h]
  define g where "g = stats_dec_used (mem_next h ?p - word_of_int ?p)
    (if ?p < hp_lfree h then set_used ?p 0 h\<lparr>hp_lfree := ?p\<rparr> else set_used ?p 0 h)"
  have nx: "mem_next (set_used ?p 0 h) ?p = mem_next h ?p" by (simp add: mem_next_def set_used_def rd16_def)
  then have "mem_next (set_used ?p 0 h\<lparr>hp_lfree := ?p\<rparr>) ?p = mem_next h ?p" by (simp add: mem_next_def)
  then have t: "t = plug_backward ?p (plug_forward ?p g)"
    using D nx by (simp add: t_def mem_free_def Let_def g_def plug_holes_def split: if_splits)
  have c: "chain (hp_ram g) 0 0 (xs @ (n, False) # ys)"
    using set_used_chain [of h 0 0 xs n True ys ?p False] h by (simp add: g_def heap_is_def)
  have l: "hp_lfree g = first_free 0 (xs @ (n, False) # ys)"
  proof (cases "\<forall>b \<in> set xs. snd b")
    case True
    have "hp_lfree h = first_free (?p + n) ys" using h first_free_used [OF True, of 0 "(n, True) # ys"] by (simp add: heap_is_def)
    moreover have "?p + n \<le> first_free (?p + n) ys" using D(3) by (auto simp: chain_def intro: first_free_ge)
    ultimately show ?thesis using D(6) first_free_at [of xs n ys] True by (simp add: g_def)
  next
    case False
    have "hp_lfree h = first_free 0 xs" using h first_free_keep [OF False, of 0 "(n, True) # ys"] by (simp add: heap_is_def)
    moreover have "first_free 0 xs < ?p" using first_free_less [OF D(1) False] by simp
    ultimately show ?thesis using first_free_keep [OF False, of 0 "(n, False) # ys"] by (simp add: g_def)
  qed
  then have le: "hp_lfree g \<le> ?p" using first_free_at_le [OF D(1)] by simp
  obtain m zs where z: "join_next n ys = (m, False) # zs" using join_next_shape by blast
  note F = plug_forward_chain [OF c le, unfolded z]
  have "first_free 0 (xs @ (n, False) # ys) = first_free 0 (xs @ (m, False) # zs)" by (simp only: first_free_at)
  with F(2) l have l2: "hp_lfree (plug_forward ?p g) = first_free 0 (xs @ (m, False) # zs)" by simp
  note B = plug_backward_chain [OF F(1) l2]
  have zs: "data_area (?p + n) ys = data_area (?p + m) zs" "used_total zs = used_total ys"
    using data_join(1) [of ?p n ys] data_join(2) [of n ys] by (simp_all add: z)
  have "uint (mem_next h ?p) = ?p + n" using D(2) by (simp add: block_at_def mem_next_def)
  moreover have "uint (word_of_int ?p :: u16) = ?p" using D by (intro uint_of_int_u16) simp_all
  ultimately have "uint (mem_next h ?p - word_of_int ?p) = n" using D by (simp add: uint_minus_u16)
  then have "uint (hp_used g) = used_total xs + used_total ys" using used_total_rest [OF h] D by (simp add: g_def uint_minus_u16)
  then have "uint (hp_used t) = used_total (join_prev xs m zs)" by (simp add: t B(3) F(3) data_join_prev zs)
  then show "heap_is t (coalesce (xs @ (n, False) # ys))"
    using B(1,2) coalesce_release [OF _ z, of xs] h by (simp add: heap_is_def t)
  show "hp_ram t i = hp_ram h i" if i: "i \<in> data_area 0 (xs @ (n, False) # ys)"
  proof -
    have "hp_ram t i = hp_ram g i" using i B(4) [of i] F(4) [of i] zs by (simp add: t)
    moreover have "i \<noteq> ?p + 4" using i hdr_data [of "hp_ram g" 0 0 xs "(n, False) # ys" i] c by (auto simp: chain_def hdr_def)
    ultimately show ?thesis by (simp add: g_def set_used_def)
  qed
qed

section \<open>Shrinking\<close>

text \<open>
  A block of size \<open>n\<close> in front of \<open>ys\<close> is shrunk to \<open>s\<close> bytes of data: a free successor grows to the left, otherwise the
  rest becomes a block when it is large enough.
\<close>

fun trim_list :: "int \<Rightarrow> int \<Rightarrow> block list \<Rightarrow> block list" where
  "trim_list s n ((m, False) # bs) =
     (if s + 8 < n then (s + 8, True) # (n + m - (s + 8), False) # bs else (n, True) # (m, False) # bs)"
| "trim_list s n bs = (if s + 28 \<le> n then (s + 8, True) # (n - (s + 8), False) # bs else (n, True) # bs)"

lemma trim_list_cases:
  assumes "s + 8 < n"
  shows "trim_list s n ys =
    (if ys \<noteq> [] \<and> \<not> snd (hd ys) then (s + 8, True) # (n + fst (hd ys) - (s + 8), False) # tl ys
     else if s + 28 \<le> n then (s + 8, True) # (n - (s + 8), False) # ys else (n, True) # ys)"
  using assms by (cases "(s, n, ys)" rule: trim_list.cases) auto

lemma trim_list_same: "n \<le> s + 8 \<Longrightarrow> trim_list s n ys = (n, True) # ys"
  by (cases "(s, n, ys)" rule: trim_list.cases) auto

lemma first_free_after_used:
  "first_free 0 (xs @ (k, True) # ys) = (if \<forall>b \<in> set xs. snd b then first_free (extent xs + k) ys else first_free 0 xs)"
  using first_free_used [of xs 0 "(k, True) # ys"] first_free_keep [of xs 0 "(k, True) # ys"] by simp

text \<open>The step that both branches share: a used block of \<open>N\<close> bytes is divided and the counters are corrected.\<close>

lemma trim_step:
  assumes h: "heap_is h (xs @ (n, True) # ys)" and zs: "chain (hp_ram h) q' (extent xs + N) zs"
    and k: "20 \<le> k" "4 dvd k" "k + 20 \<le> N" "4 dvd N" "k \<le> n" "used_total zs = used_total ys"
    and w: "uint a = extent xs + k" "uint b = extent xs + N" "uint d = n - k"
    and l: "l = first_free 0 (xs @ (k, True) # (N - k, False) # zs)"
    and c: "coalesced (xs @ (k, True) # (N - k, False) # zs)"
  defines "t \<equiv> stats_dec_used d (insert_rest (extent xs) a b (h\<lparr>hp_lfree := l\<rparr>))"
  shows "heap_is t (xs @ (k, True) # (N - k, False) # zs)"
    "i \<in> data_area 0 (xs @ (k, True) # (N - k, False) # zs) \<Longrightarrow> hp_ram t i = hp_ram h i"
proof -
  note D = heap_isD [OF h]
  have f: "uint (mem_prev (h\<lparr>hp_lfree := l\<rparr>) (extent xs)) = last_at 0 0 xs" "mem_used (h\<lparr>hp_lfree := l\<rparr>) (extent xs) = of_bool True"
    using D(2) by (simp_all add: block_at_def mem_prev_def mem_used_def)
  have t: "chain (hp_ram t) 0 0 (xs @ (k, True) # (N - k, False) # zs)"
    unfolding t_def using D zs k w f by (simp add: insert_rest_chain)
  have "uint (hp_used t) = used_total xs + k + used_total ys"
    using used_total_rest [OF h] k w by (simp add: t_def uint_minus_u16)
  then show "heap_is t (xs @ (k, True) # (N - k, False) # zs)" using t c l k by (simp add: heap_is_def t_def)
  have sg: "seg (hp_ram t) 0 0 (xs @ (k, True) # (N - k, False) # zs)" using t by (simp add: chain_def)
  show "hp_ram t i = hp_ram h i" if i: "i \<in> data_area 0 (xs @ (k, True) # (N - k, False) # zs)"
  proof -
    have "i \<notin> hdr (extent xs)" using hdr_data [OF sg i] by simp
    moreover have "i \<notin> hdr (extent xs + k)"
      using hdr_data [of "hp_ram t" 0 0 "xs @ [(k, True)]" "(N - k, False) # zs" i] sg i by simp
    moreover have "i \<notin> hdr (extent xs + N)"
      using hdr_data [of "hp_ram t" 0 0 "xs @ [(k, True), (N - k, False)]" zs i] sg i by simp
    ultimately show ?thesis using w k by (simp add: t_def insert_rest_outside)
  qed
qed

lemma lfree_if: "(if b then h\<lparr>hp_lfree := l\<rparr> else h) = h\<lparr>hp_lfree := if b then l else hp_lfree h\<rparr>"
  by simp

text \<open>\<open>mem_trim\<close> on an allocated block, with its 16-bit arithmetic evaluated; \<open>s\<close> is the rounded size.\<close>

lemma mem_trim_eq:
  fixes w :: mem_size_t and xs :: "block list"
  assumes h: "heap_is h (xs @ (n, True) # ys)" and fits: "uint (rounded_size w) + 8 \<le> n"
  defines "p \<equiv> extent xs" and "s \<equiv> rounded_size w" and "k \<equiv> uint (rounded_size w) + 8"
  defines "ptr2 \<equiv> word_of_int (extent xs) + 8 + rounded_size w :: u16"
    and "d \<equiv> mem_next h (extent xs) - word_of_int (extent xs) - 8 - rounded_size w"
  shows "mem_trim (p + 8) w h =
    (if n = k then (Some (p + 8), h)
     else if mem_used h (p + n) = 0 then
       (Some (p + 8), stats_dec_used d (insert_rest p ptr2 (mem_next h (p + n))
          (h\<lparr>hp_lfree := if hp_lfree h = p + n then p + k else hp_lfree h\<rparr>)))
     else if k + 20 \<le> n then
       (Some (p + 8), stats_dec_used d (insert_rest p ptr2 (mem_next h p)
          (h\<lparr>hp_lfree := if p + k < hp_lfree h then p + k else hp_lfree h\<rparr>)))
     else (Some (p + 8), h))" and "uint ptr2 = p + k" and "uint d = n - k" and "uint (mem_next h p) = p + n"
proof -
  let ?ptr = "word_of_int (extent xs) :: u16"
  note D = heap_isD [OF h, folded p_def]
  show nx: "uint (mem_next h p) = p + n" using D(2) by (simp add: block_at_def mem_next_def)
  have ptr: "uint ?ptr = p" using D unfolding p_def by (intro uint_of_int_u16) simp_all
  have e: "uint (mem_next h p - ?ptr) = n" using nx ptr D by (simp add: uint_minus_u16)
  have sz: "uint (mem_next h p - ?ptr - 8) = n - 8" using uint_minus_u16 [of 8 "mem_next h p - ?ptr"] e D by simp
  have "uint (?ptr + 8) = p + 8" using ptr D by (simp add: uint_plus_u16)
  then show a: "uint ptr2 = p + k" using fits D unfolding ptr2_def k_def by (simp add: uint_plus_u16)
  show "uint d = n - k" using sz fits by (simp add: d_def k_def p_def [symmetric] uint_minus_u16)
  have big: "\<not> 30720 < (ucast s :: u32)" "\<not> mem_next h p - ?ptr - 8 < s" "s = mem_next h p - ?ptr - 8 \<longleftrightarrow> n = k"
    "20 + ucast s \<le> (ucast (mem_next h p - ?ptr - 8) :: u32) \<longleftrightarrow> k + 20 \<le> n"
    using fits D sz by (auto simp: s_def k_def word_less_def word_le_def word_uint_eq_iff uint_widen_20)
  show "mem_trim (p + 8) w h =
    (if n = k then (Some (p + 8), h)
     else if mem_used h (p + n) = 0 then
       (Some (p + 8), stats_dec_used d (insert_rest p ptr2 (mem_next h (p + n))
          (h\<lparr>hp_lfree := if hp_lfree h = p + n then p + k else hp_lfree h\<rparr>)))
     else if k + 20 \<le> n then
       (Some (p + 8), stats_dec_used d (insert_rest p ptr2 (mem_next h p)
          (h\<lparr>hp_lfree := if p + k < hp_lfree h then p + k else hp_lfree h\<rparr>)))
     else (Some (p + 8), h))"
    using D big a nx by (simp add: mem_trim_def Let_def lfree_if s_def ptr2_def d_def p_def)
qed

text \<open>The lowest free block after a used block was shortened to \<open>k\<close> bytes.\<close>

lemma lfree_trim:
  fixes a :: int and zs :: "block list"
  assumes h: "heap_is h (xs @ (n, True) # ys)" and k: "0 < k" "k < n"
  defines "l \<equiv> first_free 0 (xs @ (k, True) # (a, False) # zs)"
  shows "l = (if extent xs + k < hp_lfree h then extent xs + k else hp_lfree h)"
    "ys = (m, False) # us \<Longrightarrow> l = (if hp_lfree h = extent xs + n then extent xs + k else hp_lfree h)"
proof -
  note D = heap_isD [OF h]
  have f: "hp_lfree h = (if \<forall>b \<in> set xs. snd b then first_free (extent xs + n) ys else first_free 0 xs)"
    using h by (simp add: heap_is_def first_free_after_used)
  have l: "l = (if \<forall>b \<in> set xs. snd b then extent xs + k else first_free 0 xs)" by (simp add: l_def first_free_after_used)
  have "extent xs + n \<le> first_free (extent xs + n) ys" using D(3) by (auto simp: chain_def intro: first_free_ge)
  moreover have "first_free 0 xs < extent xs" if "\<not> (\<forall>b \<in> set xs. snd b)" using first_free_less [OF D(1) that] by simp
  ultimately show "l = (if extent xs + k < hp_lfree h then extent xs + k else hp_lfree h)"
    "ys = (m, False) # us \<Longrightarrow> l = (if hp_lfree h = extent xs + n then extent xs + k else hp_lfree h)"
    using k f l by (cases "\<forall>b \<in> set xs. snd b"; simp)+
qed

lemma mem_trim_heap:
  assumes h: "heap_is h (xs @ (n, True) # ys)" and fits: "uint (rounded_size w) + 8 \<le> n"
  defines "bs \<equiv> xs @ trim_list (uint (rounded_size w)) n ys"
  shows "\<exists>t. mem_trim (extent xs + 8) w h = (Some (extent xs + 8), t) \<and> heap_is t bs \<and>
    (\<forall>i \<in> data_area 0 bs. hp_ram t i = hp_ram h i)"
proof -
  let ?p = "extent xs" and ?k = "uint (rounded_size w) + 8"
  note D = heap_isD [OF h] and S = rounded_size_bounds [of w] and E = mem_trim_eq [OF h fits]
  have k: "20 \<le> ?k" "4 dvd ?k" "0 < ?k" using S by simp_all
  have co: "coalesced (xs @ (n, True) # ys)" using h by (simp add: heap_is_def)
  have next_used: "mem_used h (?p + n) \<noteq> 0" if "ys = [] \<or> snd (hd ys)"
  proof (cases ys)
    case Nil
    with D(3) show ?thesis by (simp add: chain_def mem_used_def)
  next
    case (Cons b zs)
    with D(3) that show ?thesis by (cases b) (simp add: chain_Cons mem_used_def block_at_def)
  qed
  consider (same) "n = ?k" | (small) "?k < n" "n < ?k + 20" "ys = [] \<or> snd (hd ys)"
    | (grow) m us where "?k < n" "ys = (m, False) # us" | (split) "?k + 20 \<le> n" "ys = [] \<or> snd (hd ys)"
    using fits by (cases ys) fastforce+
  then show ?thesis
  proof cases
    case same
    with h E(1) show ?thesis by (simp add: bs_def trim_list_same)
  next
    case small
    with h E(1) next_used show ?thesis by (auto simp: bs_def trim_list_cases)
  next
    case (grow m us)
    have B: "block_at (hp_ram h) ?p (?p + n) m False" "chain (hp_ram h) (?p + n) (?p + (n + m)) us"
      using D(3) by (simp_all add: grow chain_Cons add.assoc)
    have m: "20 \<le> m" "4 dvd m" "uint (mem_next h (?p + n)) = ?p + (n + m)" "mem_used h (?p + n) = 0"
      using B(1) by (simp_all add: block_at_def mem_next_def mem_used_def add.assoc)
    have bs: "bs = xs @ (?k, True) # (n + m - ?k, False) # us" using grow by (simp add: bs_def)
    have c: "coalesced (xs @ (?k, True) # (n + m - ?k, False) # us)" using co by (auto simp: grow coalesced_append coalesced_Cons)
    note T = trim_step [OF h B(2) k(1,2) _ _ _ _ E(2) m(3) E(3) lfree_trim(2) [OF h k(3) grow, symmetric] c]
    show ?thesis using T grow D k m E(1) unfolding bs by simp
  next
    case split
    have bs: "bs = xs @ (?k, True) # (n - ?k, False) # ys" using split by (auto simp: bs_def trim_list_cases)
    have c: "coalesced (xs @ (?k, True) # (n - ?k, False) # ys)" using co split(2) by (auto simp: coalesced_append coalesced_Cons)
    have kn: "?k < n" using split(1) by simp
    note T = trim_step [OF h D(3) k(1,2) split(1) D(7) _ _ E(2,4,3) lfree_trim(1) [OF h k(3) kn, symmetric] c]
    show ?thesis using T split kn E(1) next_used [OF split(2)] unfolding bs by simp
  qed
qed

lemma mem_trim_too_large:
  assumes h: "heap_is h (xs @ (n, True) # ys)" and "n < uint (rounded_size w) + 8"
  shows "mem_trim (extent xs + 8) w h = (None, h)"
proof -
  note D = heap_isD [OF h]
  have "uint (mem_next h (extent xs)) = extent xs + n" using D(2) by (simp add: block_at_def mem_next_def)
  moreover have "uint (word_of_int (extent xs) :: u16) = extent xs" using D by (intro uint_of_int_u16) simp_all
  ultimately have "uint (mem_next h (extent xs) - word_of_int (extent xs)) = n" using D by (simp add: uint_minus_u16)
  then have "uint (mem_next h (extent xs) - word_of_int (extent xs) - 8) = n - 8"
    using uint_minus_u16 [of 8 "mem_next h (extent xs) - word_of_int (extent xs)"] D by simp
  then have "mem_next h (extent xs) - word_of_int (extent xs) - 8 < rounded_size w" using assms(2) by (simp add: word_less_def)
  with D show ?thesis by (simp add: mem_trim_def Let_def)
qed

section \<open>The contract of the allocator\<close>

lemma mem_init_heap: "hp_used h = 0 \<Longrightarrow> heap_is (mem_init h) [(30720, False)]"
  by (simp add: mem_init_def heap_is_def chain_def block_at_def Let_def field_defs rd16_def wr16_def)
    (simp add: mk16_def)

text \<open>The list of blocks is determined by the bytes.\<close>

lemma chain_unique: "chain r q p bs \<Longrightarrow> chain r q' p cs \<Longrightarrow> bs = cs"
proof (induction bs arbitrary: q q' p cs)
  case Nil
  then show ?case
  proof (cases cs)
    case (Cons c ds)
    obtain m v where "c = (m, v)" by force
    with Cons Nil.prems have "block_at r q' p m v" "chain r p (p + m) ds" "p = 30720" by (simp_all add: chain_Cons chain_def)
    then show ?thesis using chain_bound [of r p "p + m" ds] by (simp add: block_at_def)
  qed simp
next
  case (Cons b bs)
  obtain n u where b: "b = (n, u)" by force
  with Cons.prems have B: "block_at r q p n u" "chain r p (p + n) bs" by (simp_all add: chain_Cons)
  show ?case
  proof (cases cs)
    case Nil
    with Cons.prems have "p = 30720" by (simp add: chain_def)
    then show ?thesis using B chain_bound [OF B(2)] by (simp add: block_at_def)
  next
    case (Cons c ds)
    obtain m v where c: "c = (m, v)" by force
    with Cons Cons.prems have C: "block_at r q' p m v" "chain r p (p + m) ds" by (simp_all add: chain_Cons)
    then have "n = m" "u = v" using B by (auto simp: block_at_def of_bool_def split: if_splits)
    with Cons.IH [OF B(2)] C(2) show ?thesis by (simp add: b c Cons)
  qed
qed

lemma heap_is_unique: "heap_is h bs \<Longrightarrow> heap_is h cs \<Longrightarrow> bs = cs"
  using chain_unique by (auto simp: heap_is_def)

text \<open>The regions that users hold: pointer and number of bytes.\<close>

fun region_list :: "int \<Rightarrow> block list \<Rightarrow> (int \<times> int) list" where
  "region_list p [] = []"
| "region_list p ((n, u) # bs) = (if u then [(p + 8, n - 8)] else []) @ region_list (p + n) bs"

definition regions :: "mem_heap \<Rightarrow> (int \<times> int) set" where
  "regions h = {x. \<exists>bs. heap_is h bs \<and> x \<in> set (region_list 0 bs)}"

definition heap_ok :: "mem_heap \<Rightarrow> bool" where
  "heap_ok h \<longleftrightarrow> (\<exists>bs. heap_is h bs)"

lemma heap_okI: "heap_is h bs \<Longrightarrow> heap_ok h"
  by (auto simp: heap_ok_def)

lemma regions_eq: "heap_is h bs \<Longrightarrow> regions h = set (region_list 0 bs)"
  using heap_is_unique by (auto simp: regions_def)

lemma region_list_append [simp]: "region_list p (xs @ ys) = region_list p xs @ region_list (p + extent xs) ys"
  by (induction xs arbitrary: p) (auto simp: add.assoc)

lemma region_list_coalesce [simp]: "region_list p (coalesce bs) = region_list p bs"
  by (induction bs arbitrary: p rule: coalesce.induct) (auto simp: add.assoc [symmetric])

lemma region_bounds:
  "seg r q p bs \<Longrightarrow> (x, len) \<in> set (region_list p bs) \<Longrightarrow> p + 8 \<le> x \<and> x + len \<le> p + extent bs \<and> 12 \<le> len \<and> 4 dvd x - p"
proof (induction bs arbitrary: q p)
  case (Cons b bs)
  obtain n u where b: "b = (n, u)" by force
  with Cons.prems have s: "seg r p (p + n) bs" "20 \<le> n" "4 dvd n" by (auto simp: block_at_def)
  consider "(x, len) = (p + 8, n - 8)" | "(x, len) \<in> set (region_list (p + n) bs)" using Cons.prems(2) b by (auto split: if_splits)
  then show ?case
  proof cases
    case 1
    then show ?thesis using s extent_nonneg [OF s(1)] b by simp
  next
    case 2
    have "4 dvd x - p" using Cons.IH [OF s(1) 2] s(3) dvd_add [of 4 "x - (p + n)" n] by simp
    then show ?thesis using Cons.IH [OF s(1) 2] s(2) b by simp
  qed
qed simp

lemma region_split:
  "(x, len) \<in> set (region_list p bs) \<Longrightarrow> \<exists>xs ys. bs = xs @ (len + 8, True) # ys \<and> x = p + extent xs + 8"
proof (induction bs arbitrary: p)
  case (Cons b bs)
  obtain n u where b: "b = (n, u)" by force
  consider "u" "(x, len) = (p + 8, n - 8)" | "(x, len) \<in> set (region_list (p + n) bs)" using Cons.prems b by (auto split: if_splits)
  then show ?case
  proof cases
    case 1
    then show ?thesis using b by (intro exI [of _ "[]"] exI [of _ bs]) simp
  next
    case 2
    from Cons.IH [OF this] obtain xs ys where "bs = xs @ (len + 8, True) # ys" "x = p + n + extent xs + 8" by auto
    then show ?thesis using b by (intro exI [of _ "b # xs"] exI [of _ ys]) simp
  qed
qed simp

lemma heap_regions_apart:
  assumes "heap_is h bs" and "(q, m) \<in> set (region_list 0 bs)" and "(q', m') \<in> set (region_list 0 bs)" and "(q, m) \<noteq> (q', m')"
  shows "q + m \<le> q' \<or> q' + m' \<le> q"
proof -
  obtain xs ys where bs: "bs = xs @ (m + 8, True) # ys" "q = extent xs + 8" using region_split [OF assms(2)] by auto
  note D = heap_isD [OF assms(1) [unfolded bs(1)]]
  have "(q', m') \<in> set (region_list 0 xs) \<or> (q', m') \<in> set (region_list (extent xs + (m + 8)) ys)"
    using assms(3,4) bs by auto
  then show ?thesis
  proof
    assume "(q', m') \<in> set (region_list 0 xs)"
    then show ?thesis using region_bounds [OF D(1)] bs(2) by fastforce
  next
    assume "(q', m') \<in> set (region_list (extent xs + (m + 8)) ys)"
    then show ?thesis using region_bounds [of "hp_ram h" "extent xs" "extent xs + (m + 8)" ys q' m'] D(3) bs(2)
      by (auto simp: chain_def)
  qed
qed

lemma region_data: "(q, m) \<in> set (region_list p bs) \<Longrightarrow> q \<le> i \<Longrightarrow> i < q + m \<Longrightarrow> i \<in> data_area p bs"
  using region_split [of q m p bs] by auto

lemma region_list_taken:
  assumes "s + 8 \<le> n"
  shows "\<exists>m. s \<le> m \<and> region_list p (taken s n) = [(p + 8, m)]"
  using assms by (auto simp: taken_def)

lemma mem_malloc_Some:
  assumes h: "heap_is h bs" and m: "mem_malloc n h = Some (Some q, t)"
  shows "\<exists>cs. alloc_list (uint (rounded_size n)) 0 bs = Some (q, cs) \<and> heap_is t cs \<and>
    (\<forall>i \<in> data_area 0 bs. hp_ram t i = hp_ram h i)"
proof -
  have n: "n \<noteq> 0" using m by (auto simp: mem_malloc_def)
  have "alloc_list (uint (rounded_size n)) 0 bs \<noteq> None" using mem_malloc_none [OF h n] m by force
  then obtain q' cs where a: "alloc_list (uint (rounded_size n)) 0 bs = Some (q', cs)" by auto
  then show ?thesis using mem_malloc_found [OF h n a] m by auto
qed

lemma mem_malloc_regions:
  assumes h: "heap_is h bs" and m: "mem_malloc n h = Some (Some q, t)"
  shows "\<exists>m. uint (rounded_size n) \<le> m \<and> (q, m) \<notin> regions h \<and> regions t = insert (q, m) (regions h) \<and> heap_ok t \<and>
    (\<forall>i \<in> data_area 0 bs. hp_ram t i = hp_ram h i)"
proof -
  obtain cs where a: "alloc_list (uint (rounded_size n)) 0 bs = Some (q, cs)" "heap_is t cs"
    "\<forall>i \<in> data_area 0 bs. hp_ram t i = hp_ram h i"
    using mem_malloc_Some [OF h m] by blast
  from alloc_list_Some [OF a(1)] obtain xs k ys where
    bs: "bs = xs @ (k, False) # ys" "cs = xs @ taken (uint (rounded_size n)) k @ ys" "q = extent xs + 8" "uint (rounded_size n) + 8 \<le> k"
    by auto
  note D = heap_isD [OF h [unfolded bs(1)]]
  obtain m where rl: "uint (rounded_size n) \<le> m" "region_list (extent xs) (taken (uint (rounded_size n)) k) = [(q, m)]"
    using region_list_taken [OF bs(4), of "extent xs"] bs(3) by auto
  have "(q, m) \<notin> set (region_list 0 xs)" using region_bounds [OF D(1), of q m] bs(3) by auto
  moreover have "(q, m) \<notin> set (region_list (extent xs + k) ys)"
    using region_bounds [of "hp_ram h" "extent xs" "extent xs + k" ys q m] D bs(3) by (auto simp: chain_def)
  moreover have "extent (taken (uint (rounded_size n)) k) = k" using taken_shape by simp
  ultimately show ?thesis using rl a(2,3) by (auto simp: regions_eq [OF h] regions_eq [OF a(2)] bs(1,2) heap_ok_def)
qed

lemma mem_free_regions:
  assumes h: "heap_is h bs" and q: "(q, m) \<in> set (region_list 0 bs)"
  shows "heap_ok (mem_free (Some q) h) \<and> regions (mem_free (Some q) h) = set (region_list 0 bs) - {(q, m)} \<and>
    (\<forall>x k i. (x, k) \<in> set (region_list 0 bs) - {(q, m)} \<longrightarrow> x \<le> i \<longrightarrow> i < x + k \<longrightarrow> hp_ram (mem_free (Some q) h) i = hp_ram h i)"
proof -
  obtain xs ys where bs: "bs = xs @ (m + 8, True) # ys" "q = extent xs + 8" using region_split [OF q] by auto
  note D = heap_isD [OF h [unfolded bs(1)]] and F = mem_free_heap [OF h [unfolded bs(1)], folded bs(2)]
  let ?cs = "xs @ (m + 8, False) # ys"
  have "(q, m) \<notin> set (region_list 0 xs)" using region_bounds [OF D(1), of q m] bs(2) by auto
  moreover have "(q, m) \<notin> set (region_list (extent xs + (m + 8)) ys)"
    using region_bounds [of "hp_ram h" "extent xs" "extent xs + (m + 8)" ys q m] D bs(2) by (auto simp: chain_def)
  ultimately have e: "set (region_list 0 bs) - {(q, m)} = set (region_list 0 ?cs)" using bs by auto
  then have "hp_ram (mem_free (Some q) h) i = hp_ram h i" if "(x, k) \<in> set (region_list 0 bs) - {(q, m)}" "x \<le> i" "i < x + k" for x k i
    using F(2) region_data [of x k 0 ?cs i] that by simp
  with F(1) e show ?thesis by (auto simp: regions_eq [OF F(1)] heap_ok_def)
qed

interpretation lwip_heap: region_allocator heap_ok regions hp_ram mem_malloc mem_free
proof
  fix s :: mem_heap and n :: u16 and r :: "int option" and t and q m p k q' m' i :: int
  assume "heap_ok s"
  then obtain bs where h: "heap_is s bs" by (auto simp: heap_ok_def)
  show "\<exists>q t. mem_malloc n s = Some (q, t) \<and> heap_ok t"
  proof (cases "n = 0")
    case True
    with h show ?thesis by (auto simp: mem_malloc_def heap_ok_def)
  next
    case False
    show ?thesis
    proof (cases "alloc_list (uint (rounded_size n)) 0 bs")
      case None
      then show ?thesis using mem_malloc_none [OF h False] heap_okI by blast
    next
      case (Some x)
      then show ?thesis using mem_malloc_found [OF h False, of "fst x" "snd x"] heap_okI by auto
    qed
  qed
  show "mem_malloc n s = Some (Some q, t) \<Longrightarrow> \<exists>m. (q, m) \<notin> regions s \<and> regions t = insert (q, m) (regions s)"
    using mem_malloc_regions [OF h] by blast
  have none: "heap_is t bs \<and> hp_ram t = hp_ram s" if "mem_malloc n s = Some (None, t)"
    using that h mem_malloc_found [OF h, of n] mem_malloc_none [OF h, of n]
    by (cases "n = 0"; cases "alloc_list (uint (rounded_size n)) 0 bs") (fastforce simp: mem_malloc_def [of 0])+
  then show "mem_malloc n s = Some (None, t) \<Longrightarrow> regions t = regions s" using regions_eq h by auto
  show "(q, m) \<in> regions s \<Longrightarrow> heap_ok (mem_free (Some q) s) \<and> regions (mem_free (Some q) s) = regions s - {(q, m)}"
    using mem_free_regions [OF h] regions_eq [OF h] by auto
  show "(q, m) \<in> regions s \<Longrightarrow> (q', m') \<in> regions s \<Longrightarrow> (q, m) \<noteq> (q', m') \<Longrightarrow> q + m \<le> q' \<or> q' + m' \<le> q"
    using heap_regions_apart [OF h] regions_eq [OF h] by auto
  show "mem_malloc n s = Some (r, t) \<Longrightarrow> (q, m) \<in> regions s \<Longrightarrow> q \<le> i \<Longrightarrow> i < q + m \<Longrightarrow> hp_ram t i = hp_ram s i"
    using none mem_malloc_Some [OF h, of n _ t] region_data [of q m 0 bs i] regions_eq [OF h] by (cases r) fastforce+
  show "(p, k) \<in> regions s \<Longrightarrow> (q, m) \<in> regions s - {(p, k)} \<Longrightarrow> q \<le> i \<Longrightarrow> i < q + m \<Longrightarrow> hp_ram (mem_free (Some p) s) i = hp_ram s i"
    using mem_free_regions [OF h] regions_eq [OF h] by auto
qed

section \<open>Properties\<close>

lemma release_list_split:
  assumes "seg r q0 p (xs @ (n, u) # ys)"
  shows "release_list (p + extent xs + 8) p (xs @ (n, u) # ys) = xs @ (n, False) # ys"
  using assms
proof (induction xs arbitrary: q0 p)
  case (Cons b xs)
  obtain m v where b: "b = (m, v)" by force
  with Cons.prems have s: "20 \<le> m" "seg r p (p + m) (xs @ (n, u) # ys)" by (auto simp: block_at_def)
  then have "0 \<le> extent xs" using extent_nonneg by (auto simp: seg_append)
  with Cons.IH [OF s(2)] s(1) b show ?case by (simp add: add.assoc)
qed simp

lemma data_region: "i \<in> data_area p bs \<Longrightarrow> \<exists>(q, m) \<in> set (region_list p bs). q \<le> i \<and> i < q + m"
  by (induction bs arbitrary: p) (fastforce split: if_splits)+

lemma malloc_region:
  assumes "heap_ok h" and "n \<le> 65532" and "mem_malloc n h = Some (Some q, t)"
  shows "\<exists>k \<ge> uint n. 8 \<le> q \<and> q + k \<le> 30720 \<and> 4 dvd q \<and> (\<forall>(q', m) \<in> regions h. q + k \<le> q' \<or> q' + m \<le> q)"
proof -
  obtain bs where h: "heap_is h bs" using assms(1) by (auto simp: heap_ok_def)
  obtain k where k: "uint (rounded_size n) \<le> k" "(q, k) \<notin> regions h" "regions t = insert (q, k) (regions h)" "heap_ok t"
    using mem_malloc_regions [OF h assms(3)] by blast
  obtain cs where t: "heap_is t cs" using k(4) by (auto simp: heap_ok_def)
  have "(q, k) \<in> set (region_list 0 cs)" using k(3) regions_eq [OF t] by auto
  then have b: "8 \<le> q" "q + k \<le> 30720" "4 dvd q"
    using region_bounds [of "hp_ram t" 0 0 cs q k] t by (auto simp: heap_is_def chain_def)
  have "uint n \<le> 65532" using assms(2) by (auto simp: word_le_def)
  then have "uint n \<le> k" using k(1) rounded_size_fits [of n] round_up_ge [of "uint n"] by simp
  moreover have "q + k \<le> q' \<or> q' + m \<le> q" if "(q', m) \<in> regions h" for q' m
  proof -
    have "(q, k) \<noteq> (q', m)" using that k(2) by auto
    then show ?thesis using lwip_heap.apart [OF k(4), of q k q' m] k(3) that by simp
  qed
  ultimately show ?thesis using b by blast
qed

lemma only_free_block:
  assumes "heap_is h bs" and "region_list 0 bs = []"
  shows "bs = [(30720, False)]"
proof -
  have free: "region_list p cs = [] \<Longrightarrow> \<forall>b \<in> set cs. \<not> snd b" for p cs
    by (induction cs arbitrary: p) (fastforce split: if_splits)+
  have c: "coalesced bs" "extent bs = 30720" using assms(1) by (simp_all add: heap_is_def chain_def)
  show ?thesis
  proof (cases bs)
    case Nil
    with c show ?thesis by simp
  next
    case (Cons b cs)
    have "cs = []" using c(1) free [OF assms(2)] Cons by (cases cs) auto
    with Cons c(2) free [OF assms(2)] show ?thesis by (cases b) simp
  qed
qed

definition fresh_heap :: mem_heap where
  "fresh_heap = mem_init \<lparr>hp_ram = (\<lambda>_. 0), hp_lfree = 0, hp_avail = 0, hp_used = 0, hp_max = 0, hp_err = 0, hp_illegal = 0\<rparr>"

lemma fresh_heap_is: "heap_is fresh_heap [(30720, False)]"
  by (simp add: fresh_heap_def mem_init_heap)

lemma fresh_malloc: "\<exists>t. mem_malloc 100 fresh_heap = Some (Some 8, t) \<and> heap_is t [(108, True), (30612, False)]"
proof -
  have "uint (rounded_size 100) = 100" using rounded_size_fits [of 100] by (simp add: round_up_def)
  then have "alloc_list (uint (rounded_size 100)) 0 [(30720, False)] = Some (8, [(108, True), (30612, False)])"
    by (simp add: taken_def)
  from mem_malloc_found [OF fresh_heap_is _ this] show ?thesis by auto
qed

text \<open>
  C31: \<open>mem_malloc\<close> implements first fit on the list of blocks: on a heap that consists of the blocks \<open>bs\<close> the call returns, with
  the pointer and the blocks that the search of the list gives, or with NULL and an unchanged heap when no free block
  has room; the bytes of the allocated blocks stay as they are.
\<close>

theorem mem_malloc_refines:
  assumes "heap_is h bs" and "0 < n" and "n \<le> 65532"
  shows "case alloc_list (round_up (uint n)) 0 bs of
      None \<Rightarrow> \<exists>t. mem_malloc n h = Some (None, t) \<and> heap_is t bs \<and> hp_ram t = hp_ram h
    | Some (q, cs) \<Rightarrow> \<exists>t. mem_malloc n h = Some (Some q, t) \<and> heap_is t cs \<and> (\<forall>i \<in> data_area 0 bs. hp_ram t i = hp_ram h i)"
proof -
  have "uint n \<le> 65532" "n \<noteq> 0" using assms(2,3) by (auto simp: word_le_def)
  then show ?thesis
    using mem_malloc_found [OF assms(1), of n] mem_malloc_none [OF assms(1), of n] by (auto simp: rounded_size_fits split: option.split)
qed

theorem mem_malloc_refines_witness:
  "\<exists>t. mem_malloc 100 fresh_heap = Some (Some 8, t) \<and> heap_is t [(108, True), (30612, False)]"
  using mem_malloc_refines [OF fresh_heap_is, of 100] by (auto simp: round_up_def taken_def)

text \<open>
  C33: \<open>mem_free\<close> of a pointer that is held implements the release on the list of blocks: the block becomes free and all free
  neighbours are joined; the bytes of the regions that are still held stay as they are.
\<close>

theorem mem_free_refines:
  assumes "heap_is h bs" and "(q, m) \<in> set (region_list 0 bs)"
  shows "heap_is (mem_free (Some q) h) (coalesce (release_list q 0 bs)) \<and>
    (\<forall>i \<in> data_area 0 (release_list q 0 bs). hp_ram (mem_free (Some q) h) i = hp_ram h i)"
proof -
  obtain xs ys where bs: "bs = xs @ (m + 8, True) # ys" "q = extent xs + 8" using region_split [OF assms(2)] by auto
  have "seg (hp_ram h) 0 0 bs" using assms(1) by (simp add: heap_is_def chain_def)
  then have "release_list q 0 bs = xs @ (m + 8, False) # ys" using release_list_split [of "hp_ram h" 0 0 xs] bs by simp
  then show ?thesis using mem_free_heap [OF assms(1) [unfolded bs(1)]] bs(2) by simp
qed

theorem mem_free_refines_witness:
  "\<exists>t. mem_malloc 100 fresh_heap = Some (Some 8, t) \<and> heap_is (mem_free (Some 8) t) [(30720, False)]"
proof -
  obtain t where "mem_malloc 100 fresh_heap = Some (Some 8, t)" "heap_is t [(108, True), (30612, False)]"
    using fresh_malloc by blast
  with mem_free_refines [OF this(2), of 8 100] show ?thesis by auto
qed

text \<open>
  C32: Memory that \<open>mem_malloc\<close> returns is aligned to four bytes, lies inside the heap with its whole length, overlaps no region
  that was handed out before and not given back, and no byte of such a region is changed.
\<close>

theorem mem_malloc_safe:
  assumes "heap_ok h" and "n \<le> 65532" and "mem_malloc n h = Some (Some q, t)"
  shows "4 dvd q \<and> 8 \<le> q \<and> q + uint n \<le> ram_end \<and>
    (\<forall>(q', m) \<in> regions h. (q + uint n \<le> q' \<or> q' + m \<le> q) \<and> (\<forall>i. q' \<le> i \<and> i < q' + m \<longrightarrow> hp_ram t i = hp_ram h i))"
proof -
  obtain k where k: "uint n \<le> k" "8 \<le> q" "q + k \<le> 30720" "4 dvd q" "\<forall>(q', m) \<in> regions h. q + k \<le> q' \<or> q' + m \<le> q"
    using malloc_region [OF assms] by blast
  moreover have "hp_ram t i = hp_ram h i" if "(q', m) \<in> regions h" "q' \<le> i" "i < q' + m" for q' m i
    using lwip_heap.alloc_keeps [OF assms(1,3)] that by blast
  ultimately show ?thesis by fastforce
qed

theorem mem_malloc_safe_witness:
  "\<exists>t q u. mem_malloc 100 fresh_heap = Some (Some 8, t) \<and> mem_malloc 7 t = Some (Some q, u) \<and> (q + 7 \<le> 8 \<or> 108 \<le> q)"
proof -
  obtain t where t: "mem_malloc 100 fresh_heap = Some (Some 8, t)" "heap_is t [(108, True), (30612, False)]"
    using fresh_malloc by blast
  have "uint (rounded_size 7) = 12" using rounded_size_fits [of 7] by (simp add: round_up_def)
  then obtain u where u: "mem_malloc 7 t = Some (Some 116, u)" using mem_malloc_found [OF t(2), of 7] by (auto simp: taken_def)
  have "(8, 100) \<in> regions t" using regions_eq [OF t(2)] by simp
  with mem_malloc_safe [OF heap_okI [OF t(2)] _ u] t(1) u show ?thesis by fastforce
qed

text \<open>
  C34: Giving memory back at once undoes its allocation: after \<open>mem_malloc\<close> and \<open>mem_free\<close> the heap consists of the same blocks as
  before, with the same lowest free block and the same count of used bytes.
\<close>

theorem malloc_free_roundtrip:
  assumes "heap_is h bs" and "mem_malloc n h = Some (Some q, t)"
  shows "heap_is (mem_free (Some q) t) bs \<and> hp_lfree (mem_free (Some q) t) = hp_lfree h \<and> hp_used (mem_free (Some q) t) = hp_used h"
proof -
  let ?s = "uint (rounded_size n)"
  obtain cs where a: "alloc_list ?s 0 bs = Some (q, cs)" "heap_is t cs" using mem_malloc_Some [OF assms] by blast
  from alloc_list_Some [OF a(1)] obtain xs k ys where
    bs: "bs = xs @ (k, False) # ys" "cs = xs @ taken ?s k @ ys" "q = extent xs + 8" "?s + 8 \<le> k" by auto
  have c: "coalesced bs" using assms(1) by (simp add: heap_is_def)
  have "heap_is (mem_free (Some q) t) bs"
  proof (cases "?s + 28 \<le> k")
    case True
    then have cs: "cs = xs @ (?s + 8, True) # (k - (?s + 8), False) # ys" by (simp add: bs taken_def)
    have x: "coalesced xs" "xs = [] \<or> snd (last xs)" using c by (auto simp: bs coalesced_append)
    have "coalesce (xs @ (?s + 8, False) # (k - (?s + 8), False) # ys) = xs @ coalesce ((k, False) # ys)"
      using coalesce_append [OF x(1), of "(?s + 8, False) # (k - (?s + 8), False) # ys"] x(2) by auto
    also have "\<dots> = bs" using c coalesce_id [of "(k, False) # ys"] by (auto simp: bs coalesced_append)
    finally show ?thesis using mem_free_heap(1) [OF a(2) [unfolded cs]] bs(3) by simp
  next
    case False
    then have cs: "cs = xs @ (k, True) # ys" by (simp add: bs taken_def)
    show ?thesis using mem_free_heap(1) [OF a(2) [unfolded cs]] coalesce_id [OF c] bs by simp
  qed
  with assms(1) show ?thesis by (auto simp: heap_is_def word_uint_eq_iff)
qed

theorem malloc_free_roundtrip_witness:
  "\<exists>t. mem_malloc 100 fresh_heap = Some (Some 8, t) \<and> heap_is (mem_free (Some 8) t) [(30720, False)] \<and> hp_used (mem_free (Some 8) t) = 0"
proof -
  obtain t where t: "mem_malloc 100 fresh_heap = Some (Some 8, t)" using fresh_malloc by blast
  have "hp_used fresh_heap = 0" using fresh_heap_is by (simp add: heap_is_def word_uint_eq_iff)
  with malloc_free_roundtrip [OF fresh_heap_is t] t show ?thesis by auto
qed

text \<open>
  C36: \<open>mem_trim\<close> of a region to a size that is not larger keeps the pointer and the bytes of all regions, joins the part that is cut
  off with a free successor or makes it a free block when it is large enough; a larger size is refused without effect.
\<close>

theorem mem_trim_shrinks:
  assumes "heap_is h (xs @ (n, True) # ys)" and "w \<le> 65532"
  shows "if round_up (uint w) + 8 \<le> n then
      \<exists>t. mem_trim (extent xs + 8) w h = (Some (extent xs + 8), t) \<and> heap_is t (xs @ trim_list (round_up (uint w)) n ys) \<and>
        (\<forall>i \<in> data_area 0 (xs @ trim_list (round_up (uint w)) n ys). hp_ram t i = hp_ram h i)
    else mem_trim (extent xs + 8) w h = (None, h)"
proof -
  have "uint (rounded_size w) = round_up (uint w)" using assms(2) by (intro rounded_size_fits) (auto simp: word_le_def)
  then show ?thesis using mem_trim_heap [OF assms(1), of w] mem_trim_too_large [OF assms(1), of w] by auto
qed

theorem mem_trim_shrinks_witness:
  "\<exists>t u. mem_malloc 100 fresh_heap = Some (Some 8, t) \<and> mem_trim 8 50 t = (Some 8, u) \<and> heap_is u [(60, True), (30660, False)]"
proof -
  obtain t where t: "mem_malloc 100 fresh_heap = Some (Some 8, t)" "heap_is t ([] @ (108, True) # [(30612, False)])"
    using fresh_malloc by auto
  from mem_trim_shrinks [OF t(2), of 50] t(1) show ?thesis by (auto simp: round_up_def)
qed

text \<open>
  C35: Nothing is lost to fragmentation: when every region has been given back, in whatever order, the heap is one free block
  again and an allocation of all its 30712 bytes succeeds.
\<close>

theorem heap_recovers:
  assumes "heap_ok h" and "distinct ps" and "set ps = regions h"
  shows "heap_is (fold (\<lambda>(q, m). mem_free (Some q)) ps h) [(30720, False)] \<and>
    (\<exists>t. mem_malloc 30712 (fold (\<lambda>(q, m). mem_free (Some q)) ps h) = Some (Some 8, t))"
proof -
  define g where "g = fold (\<lambda>(q, m). mem_free (Some q)) ps h"
  have "heap_ok g" "regions g = {}"
    using lwip_heap.release_all_held [OF assms(1,2)] assms(3) by (simp_all add: g_def lwip_heap.release_all_def)
  then obtain bs where "heap_is g bs" "region_list 0 bs = []" using regions_eq by (auto simp: heap_ok_def)
  with only_free_block have g: "heap_is g [(30720, False)]" by blast
  have "uint (rounded_size 30712) = 30712" using rounded_size_fits [of 30712] by (simp add: round_up_def)
  then have "\<exists>t. mem_malloc 30712 g = Some (Some 8, t)" using mem_malloc_found [OF g, of 30712] by (auto simp: taken_def)
  with g show ?thesis by (simp add: g_def)
qed

theorem heap_recovers_witness:
  "\<exists>t u. mem_malloc 100 fresh_heap = Some (Some 8, t) \<and> mem_malloc 30712 (mem_free (Some 8) t) = Some (Some 8, u)"
proof -
  obtain t where t: "mem_malloc 100 fresh_heap = Some (Some 8, t)" "heap_is t [(108, True), (30612, False)]"
    using fresh_malloc by blast
  have "set [(8, 100)] = regions t" using regions_eq [OF t(2)] by simp
  with heap_recovers [OF heap_okI [OF t(2)], of "[(8, 100)]"] t(1) show ?thesis by auto
qed

section \<open>Sizes that wrap around\<close>

text \<open>The last three sizes of 16 bits are rounded to zero and get the smallest block instead of NULL.\<close>

lemma mem_malloc_wraps: "65532 < n \<Longrightarrow> mem_malloc n h = mem_malloc 12 h"
proof -
  assume n: "65532 < n"
  then have "uint (rounded_size n) = 12" by (intro rounded_size_wraps) (simp add: word_less_def)
  moreover have "uint (rounded_size 12) = 12" using rounded_size_fits [of 12] by (simp add: round_up_def)
  ultimately have "rounded_size n = rounded_size 12" by (simp add: word_uint_eq_iff)
  moreover have "n \<noteq> 0" using n by auto
  ultimately show ?thesis by (simp add: mem_malloc_def)
qed

text \<open>\<open>mem_calloc\<close> clears what it allocated when the product fits; otherwise it clears more than it allocated.\<close>

lemma mem_calloc_clears:
  assumes h: "heap_is h bs" and fits: "uint count * uint n \<le> 65532" and m: "mem_calloc count n h = Some (Some q, t)"
  shows "(\<forall>i. q \<le> i \<and> i < q + uint count * uint n \<longrightarrow> hp_ram t i = 0) \<and> (\<forall>i \<in> data_area 0 bs. hp_ram t i = hp_ram h i)"
proof -
  have p: "uint (count * n) = uint count * uint n" using fits by (simp add: uint_word_ariths take_bit_int_eq_self)
  have "(ucast count * ucast n :: u32) = word_of_int (uint count * uint n)" by simp
  then have p32: "uint (ucast count * ucast n :: u32) = uint count * uint n"
    using uint_of_int_u32 [of "uint count * uint n"] fits by simp
  obtain g where g: "mem_malloc (count * n) h = Some (Some q, g)" "t = memset_zero q (uint count * uint n) g"
    using m by (auto simp: mem_calloc_def p32 bind_eq_Some_conv split: option.splits)
  have le: "count * n \<le> 65532" using p fits by (simp add: word_le_def)
  have keep: "hp_ram g i = hp_ram h i" if "i \<in> data_area 0 bs" for i using mem_malloc_regions [OF h g(1)] that by blast
  have "i < q \<or> q + uint count * uint n \<le> i" if i: "i \<in> data_area 0 bs" for i
  proof -
    obtain q' m' where "(q', m') \<in> regions h" "q' \<le> i" "i < q' + m'" using data_region [OF i] regions_eq [OF h] by auto
    then show ?thesis using malloc_region [OF heap_okI [OF h] le g(1)] p by fastforce
  qed
  then have "hp_ram t i = hp_ram h i" if "i \<in> data_area 0 bs" for i
    using keep that by (fastforce simp: g(2) memset_zero_def)
  then show ?thesis by (simp add: g(2) memset_zero_def)
qed

lemma mem_calloc_overruns:
  assumes "heap_is h [(30720, False)]"
  shows "\<exists>t. mem_calloc 256 257 h = Some (Some 8, t) \<and> \<not> heap_ok t"
proof -
  have "uint (rounded_size 256) = 256" using rounded_size_fits [of 256] by (simp add: round_up_def)
  then obtain g where "mem_malloc 256 h = Some (Some 8, g)" using mem_malloc_found [OF assms, of 256] by (auto simp: taken_def)
  moreover have "(256 * 257 :: u16) = 256" "uint (ucast (256 :: u16) * ucast (257 :: u16) :: u32) = 65792" by code_simp+
  ultimately have c: "mem_calloc 256 257 h = Some (Some 8, memset_zero 8 65792 g)" unfolding mem_calloc_def by (simp only:) simp
  have "hp_ram (memset_zero 8 65792 g) 30724 = 0" by (simp add: memset_zero_def)
  then have "\<not> heap_ok (memset_zero 8 65792 g)" by (auto simp: heap_ok_def heap_is_def chain_def)
  with c show ?thesis by blast
qed

section \<open>An allocation in the receive interrupt\<close>

text \<open>
  Without an operating system the mutex of the heap is empty. A call that has found the block \<open>ptr\<close> and is interrupted before it
  marks the block will return \<open>ptr + 8\<close>; an equal request in the interrupt gets this pointer as well.
\<close>

lemma interrupted_malloc:
  assumes "heap_is h bs" and "mem_malloc n h = Some (Some q, t)"
  shows "\<exists>ptr. find_fit (rounded_size n) (word_of_int (hp_lfree h)) h = Some (Some ptr) \<and> q = uint ptr + 8"
proof -
  obtain cs where a: "alloc_list (uint (rounded_size n)) 0 bs = Some (q, cs)" using mem_malloc_Some [OF assms] by blast
  from alloc_list_Some [OF a] obtain xs k ys where bs: "bs = xs @ (k, False) # ys" "q = extent xs + 8" by auto
  note D = heap_isD [OF assms(1) [unfolded bs(1)]]
  have "uint (word_of_int (extent xs) :: u16) = extent xs" using D by (intro uint_of_int_u16) simp_all
  then show ?thesis using find_fit_heap [OF assms(1), of "rounded_size n"] a bs(2) by (simp add: fit_at_alloc)
qed

end
