(* ===== verification/Emac_Ring.thy ===== *)
theory Emac_Ring
  imports Lwip_Prelude "HOL-Library.Monad_Syntax"
begin

text \<open>
  The transmit descriptor ring of the Ethernet driver (\<open>ports/hdk/netif/hdkif.c\<close>): setting up the ring, handing a packet to
  the DMA engine, and the transmit interrupt, with the busy-waits of both. The DMA engine is a parameter; \<open>emac_dma\<close> is
  what the driver relies on.
\<close>

section \<open>Descriptors\<close>

definition EMAC_BUF_DESC_SOP :: u32 where "EMAC_BUF_DESC_SOP = 0x80000000"
definition EMAC_BUF_DESC_EOP :: u32 where "EMAC_BUF_DESC_EOP = 0x40000000"
definition EMAC_BUF_DESC_OWNER :: u32 where "EMAC_BUF_DESC_OWNER = 0x20000000"
definition EMAC_BUF_DESC_EOQ :: u32 where "EMAC_BUF_DESC_EOQ = 0x10000000"

text \<open>\<open>SIZE_EMAC_CTRL_RAM >> 1\<close> bytes for descriptors of 20 bytes.\<close>

definition NUM_BD :: nat where "NUM_BD = drop_bit 1 0x2000 div 20"

text \<open>The controller reads descriptors in the other byte order.\<close>

definition hdkif_swizzle_data :: "u32 \<Rightarrow> u32" where
  "hdkif_swizzle_data w =
     (push_bit 24 w AND 0xFF000000) OR (push_bit 8 w AND 0x00FF0000) OR
     (drop_bit 8 w AND 0x0000FF00) OR (drop_bit 24 w AND 0x000000FF)"

text \<open>
  A descriptor is an index into the ring; the byte order of the links cancels and is left out. \<open>tb_buf\<close> are the bytes that the
  buffer pointer points to; \<open>tb_pbuf\<close> is the number of the packet buffer.
\<close>

record emac_tx_bdp =
  tb_next :: "nat option"
  tb_buf :: "u8 list"
  tb_len :: u32
  tb_flags :: u32
  tb_pbuf :: nat

text \<open>
  \<open>struct txch\<close> with the descriptors, the register \<open>TXHDP\<close> of the channel, the frames that were sent, and the packet
  buffers that the driver released.
\<close>

record txch =
  tx_bd :: "nat \<Rightarrow> emac_tx_bdp"
  free_head :: "nat option"
  active_tail :: "nat option"
  next_bd_to_process :: "nat option"
  tx_hdp :: "nat option"
  tx_wire :: "u8 list list"
  tx_released :: "nat list"

definition upd_bd :: "nat \<Rightarrow> (emac_tx_bdp \<Rightarrow> emac_tx_bdp) \<Rightarrow> txch \<Rightarrow> txch" where
  "upd_bd i f t = t\<lparr>tx_bd := (tx_bd t)(i := f (tx_bd t i))\<rparr>"

definition bd_has :: "u32 \<Rightarrow> nat \<Rightarrow> txch \<Rightarrow> bool" where
  "bd_has f i t \<longleftrightarrow> hdkif_swizzle_data (tb_flags (tx_bd t i)) AND f = f"

definition len_field :: "nat \<Rightarrow> txch \<Rightarrow> u32" where
  "len_field i t = hdkif_swizzle_data (tb_flags (tx_bd t i)) AND 0xFFFF"

definition or_flag :: "u32 \<Rightarrow> nat \<Rightarrow> txch \<Rightarrow> txch" where
  "or_flag f i = upd_bd i (\<lambda>b. b\<lparr>tb_flags := tb_flags b OR hdkif_swizzle_data f\<rparr>)"

definition clear_flag :: "u32 \<Rightarrow> nat \<Rightarrow> txch \<Rightarrow> txch" where
  "clear_flag f i = upd_bd i (\<lambda>b. b\<lparr>tb_flags := tb_flags b AND hdkif_swizzle_data (NOT f)\<rparr>)"

section \<open>Setting up the ring\<close>

text \<open>The loop of \<open>hdkif_hw_init\<close> over the descriptors; the last one is linked to the first.\<close>

fun init_bds :: "nat \<Rightarrow> nat \<Rightarrow> txch \<Rightarrow> txch" where
  "init_bds 0 i t = t"
| "init_bds (Suc k) i t = init_bds k (i + 1) (upd_bd i (\<lambda>b. b\<lparr>tb_next := Some (i + 1), tb_flags := 0\<rparr>) t)"

definition tx_init :: "txch \<Rightarrow> txch" where
  "tx_init t =
     (let t = t\<lparr>free_head := Some 0, next_bd_to_process := Some 0, active_tail := None\<rparr>;
          t = init_bds NUM_BD 0 t
      in upd_bd (NUM_BD - 1) (\<lambda>b. b\<lparr>tb_next := Some 0\<rparr>) t)"

section \<open>Transmission\<close>

text \<open>
  The loop over the buffers of a packet: the descriptors from \<open>cur\<close> on are filled; the result is the next free descriptor
  and the last filled one. \<open>None\<close> stands for an access through a null pointer.
\<close>

fun fill_bds :: "nat \<Rightarrow> u8 list list \<Rightarrow> nat option \<Rightarrow> nat option \<Rightarrow> txch \<Rightarrow> (nat option \<times> nat option \<times> txch) option" where
  "fill_bds p [] cur bd_end t = Some (cur, bd_end, t)"
| "fill_bds p (q # qs) cur bd_end t = do {
     i \<leftarrow> cur;
     let t' = upd_bd i (\<lambda>b. b\<lparr>tb_buf := q, tb_len := hdkif_swizzle_data (of_nat (length q) AND 0xFFFF), tb_pbuf := p\<rparr>) t;
     fill_bds p qs (tb_next (tx_bd t' i)) (Some i) t'
   }"

text \<open>The busy-waits; the DMA engine runs while the processor polls. A wait that does not end is \<open>None\<close>.\<close>

partial_function (option) wait_eoq :: "(txch \<Rightarrow> txch) \<Rightarrow> nat \<Rightarrow> txch \<Rightarrow> txch option" where
  "wait_eoq dma i t = (if bd_has EMAC_BUF_DESC_EOQ i t then Some t else wait_eoq dma i (dma t))"

partial_function (option) wait_hdp :: "(txch \<Rightarrow> txch) \<Rightarrow> txch \<Rightarrow> txch option" where
  "wait_hdp dma t = (if tx_hdp t = None then Some t else wait_hdp dma (dma t))"

text \<open>The first half of \<open>hdkif_transmit\<close> fills the descriptors, the second hands them to the engine.\<close>

definition load_packet :: "nat \<Rightarrow> u16 \<Rightarrow> u8 list list \<Rightarrow> txch \<Rightarrow> (nat \<times> nat \<times> txch) option" where
  "load_packet p tot_len qs t = do {
     active_head \<leftarrow> free_head t;
     let t1 = upd_bd active_head (\<lambda>b. b\<lparr>tb_flags :=
                hdkif_swizzle_data (ucast tot_len OR (EMAC_BUF_DESC_SOP OR EMAC_BUF_DESC_OWNER))\<rparr>) t;
     (cur, bd_end, t2) \<leftarrow> fill_bds p qs (Some active_head) None t1;
     e \<leftarrow> bd_end;
     let t3 = or_flag EMAC_BUF_DESC_EOP e (upd_bd e (\<lambda>b. b\<lparr>tb_next := None\<rparr>) t2);
     Some (active_head, e, t3\<lparr>free_head := cur\<rparr>)
   }"

definition hdkif_transmit :: "(txch \<Rightarrow> txch) \<Rightarrow> nat \<Rightarrow> u16 \<Rightarrow> u8 list list \<Rightarrow> txch \<Rightarrow> txch option" where
  "hdkif_transmit dma p tot_len qs t = do {
     (active_head, bd_end, t4) \<leftarrow> load_packet p tot_len qs t;
     t5 \<leftarrow> (case active_tail t4 of
        None \<Rightarrow> Some (t4\<lparr>tx_hdp := Some active_head\<rparr>)
      | Some tail \<Rightarrow> do {
          u \<leftarrow> do { v \<leftarrow> wait_eoq dma tail t4; wait_hdp dma v };
          let u = upd_bd tail (\<lambda>b. b\<lparr>tb_next := Some active_head\<rparr>) u;
          Some (if bd_has EMAC_BUF_DESC_EOQ tail u then u\<lparr>tx_hdp := Some active_head\<rparr> else u)
        });
     Some (t5\<lparr>active_tail := Some bd_end\<rparr>)
   }"

section \<open>The transmit interrupt\<close>

partial_function (option) wait_owner :: "(txch \<Rightarrow> txch) \<Rightarrow> nat \<Rightarrow> txch \<Rightarrow> txch option" where
  "wait_owner dma i t = (if bd_has EMAC_BUF_DESC_OWNER i t then wait_owner dma i (dma t) else Some t)"

partial_function (option) find_eop :: "nat option \<Rightarrow> txch \<Rightarrow> nat option" where
  "find_eop cur t = do {
     i \<leftarrow> cur;
     if bd_has EMAC_BUF_DESC_EOP i t then Some i else find_eop (tb_next (tx_bd t i)) t
   }"

partial_function (option) tx_loop :: "(txch \<Rightarrow> txch) \<Rightarrow> txch \<Rightarrow> txch option" where
  "tx_loop dma t = do {
     head \<leftarrow> next_bd_to_process t;
     if bd_has EMAC_BUF_DESC_SOP head t then do {
       t1 \<leftarrow> wait_owner dma head t;
       e \<leftarrow> find_eop (Some head) t1;
       let t2 = clear_flag EMAC_BUF_DESC_EOP e (clear_flag EMAC_BUF_DESC_SOP head t1);
       let t3 = t2\<lparr>next_bd_to_process := (if tb_next (tx_bd t2 e) = None then free_head t2 else tb_next (tx_bd t2 e))\<rparr>;
       tx_loop dma (t3\<lparr>tx_released := tx_released t3 @ [tb_pbuf (tx_bd t3 e)]\<rparr>)
     }
     else Some t
   }"

definition hdkif_tx_inthandler :: "(txch \<Rightarrow> txch) \<Rightarrow> txch \<Rightarrow> txch option" where
  "hdkif_tx_inthandler dma t = tx_loop dma t"

section \<open>The DMA engine\<close>

text \<open>
  A packet in the ring is a list of linked descriptors of which exactly the last has the end mark, and whose first has the
  length of the frame. The engine sends the packet at \<open>TXHDP\<close>, gives its first descriptor back to the driver, and goes on with the next packet or, when there is no
  link, marks the end of the queue and clears \<open>TXHDP\<close>.
\<close>

fun packet :: "txch \<Rightarrow> nat list \<Rightarrow> bool" where
  "packet t [] \<longleftrightarrow> False"
| "packet t [e] \<longleftrightarrow> bd_has EMAC_BUF_DESC_EOP e t"
| "packet t (i # j # js) \<longleftrightarrow> \<not> bd_has EMAC_BUF_DESC_EOP i t \<and> tb_next (tx_bd t i) = Some j \<and> packet t (j # js)"

definition frame_of :: "txch \<Rightarrow> nat list \<Rightarrow> u8 list" where
  "frame_of t is = concat (map (\<lambda>i. take (unat (hdkif_swizzle_data (tb_len (tx_bd t i)))) (tb_buf (tx_bd t i))) is)"

definition dma_sent :: "nat list \<Rightarrow> txch \<Rightarrow> txch" where
  "dma_sent is t =
     (let e = last is;
          t = clear_flag EMAC_BUF_DESC_OWNER (hd is) (t\<lparr>tx_wire := tx_wire t @ [frame_of t is]\<rparr>)
      in case tb_next (tx_bd t e) of
           None \<Rightarrow> (or_flag EMAC_BUF_DESC_EOQ e t)\<lparr>tx_hdp := None\<rparr>
         | Some j \<Rightarrow> t\<lparr>tx_hdp := Some j\<rparr>)"

definition emac_dma :: "(txch \<Rightarrow> txch) \<Rightarrow> bool" where
  "emac_dma dma \<longleftrightarrow>
     (\<forall>t. tx_hdp t = None \<longrightarrow> dma t = t) \<and>
     (\<forall>t is. packet t is \<longrightarrow> length is \<le> NUM_BD \<longrightarrow> len_field (hd is) t = of_nat (length (frame_of t is)) \<longrightarrow>
        tx_hdp t = Some (hd is) \<longrightarrow> dma t = dma_sent is t)"

section \<open>Flags\<close>

text \<open>The byte order is an involution that works bit by bit.\<close>

definition swz_bit :: "nat \<Rightarrow> nat" where
  "swz_bit n = (if n < 8 then n + 24 else if n < 16 then n + 8 else if n < 24 then n - 8 else n - 24)"

lemma byte_masks:
  "(0xFF000000 :: u32) = push_bit 24 (mask 8)" "(0x00FF0000 :: u32) = push_bit 16 (mask 8)"
  "(0x0000FF00 :: u32) = push_bit 8 (mask 8)" "(0x000000FF :: u32) = mask 8"
  by (simp_all add: mask_eq_exp_minus_1 push_bit_eq_mult)

lemma bit_swizzle: "bit (hdkif_swizzle_data w) n \<longleftrightarrow> n < 32 \<and> bit w (swz_bit n)"
proof (cases "n < 32")
  case True
  then consider "n < 8" | "8 \<le> n" "n < 16" | "16 \<le> n" "n < 24" | "24 \<le> n" by linarith
  then show ?thesis
    using True unfolding hdkif_swizzle_data_def byte_masks
    by cases (auto simp: bit_or_iff bit_and_iff bit_push_bit_iff bit_drop_bit_eq bit_mask_iff swz_bit_def add.commute)
next
  case False
  then show ?thesis by (auto dest: bit_imp_le_length)
qed

lemma swizzle_swizzle [simp]: "hdkif_swizzle_data (hdkif_swizzle_data w) = w"
  by (rule bit_word_eqI) (auto simp: bit_swizzle swz_bit_def)

lemma swizzle_or: "hdkif_swizzle_data (v OR w) = hdkif_swizzle_data v OR hdkif_swizzle_data w"
  by (rule bit_word_eqI) (auto simp: bit_swizzle bit_or_iff)

lemma swizzle_and: "hdkif_swizzle_data (v AND w) = hdkif_swizzle_data v AND hdkif_swizzle_data w"
  by (rule bit_word_eqI) (auto simp: bit_swizzle bit_and_iff)

text \<open>The marks are single bits, so that setting and clearing one leaves the others alone.\<close>

definition mark :: "u32 \<Rightarrow> bool" where
  "mark f \<longleftrightarrow> (\<exists>k. 16 \<le> k \<and> k < 32 \<and> f = push_bit k 1)"

lemma marks [simp]: "mark EMAC_BUF_DESC_SOP" "mark EMAC_BUF_DESC_EOP" "mark EMAC_BUF_DESC_OWNER" "mark EMAC_BUF_DESC_EOQ"
proof -
  show "mark EMAC_BUF_DESC_SOP" unfolding mark_def EMAC_BUF_DESC_SOP_def by (rule exI [of _ 31]) (simp add: push_bit_eq_mult)
  show "mark EMAC_BUF_DESC_EOP" unfolding mark_def EMAC_BUF_DESC_EOP_def by (rule exI [of _ 30]) (simp add: push_bit_eq_mult)
  show "mark EMAC_BUF_DESC_OWNER" unfolding mark_def EMAC_BUF_DESC_OWNER_def by (rule exI [of _ 29]) (simp add: push_bit_eq_mult)
  show "mark EMAC_BUF_DESC_EOQ" unfolding mark_def EMAC_BUF_DESC_EOQ_def by (rule exI [of _ 28]) (simp add: push_bit_eq_mult)
qed

lemma mark_bit: "mark f \<Longrightarrow> \<exists>k. 16 \<le> k \<and> k < 32 \<and> (\<forall>w. w AND f = f \<longleftrightarrow> bit w k)"
proof -
  assume "mark f"
  then obtain k where k: "k < 32" "f = push_bit k 1" "16 \<le> k" by (auto simp: mark_def)
  have "w AND f = f \<longleftrightarrow> bit w k" for w :: u32
  proof
    assume "w AND f = f"
    moreover have "bit f k" using k by (simp add: bit_exp_iff)
    ultimately have "bit (w AND f) k" by simp
    then show "bit w k" by (simp add: bit_and_iff)
  next
    assume "bit w k"
    then show "w AND f = f" using k by (auto intro!: bit_word_eqI simp: bit_and_iff bit_exp_iff)
  qed
  with k(1,3) show ?thesis by blast
qed

lemma mark_or: "mark f \<Longrightarrow> (v OR w) AND f = f \<longleftrightarrow> v AND f = f \<or> w AND f = f"
proof -
  assume "mark f"
  then obtain k where "16 \<le> k" "\<And>w. w AND f = f \<longleftrightarrow> bit w k" using mark_bit by blast
  then show ?thesis by (simp add: bit_or_iff)
qed

lemma mark_and: "mark f \<Longrightarrow> (v AND w) AND f = f \<longleftrightarrow> v AND f = f \<and> w AND f = f"
proof -
  assume "mark f"
  then obtain k where "16 \<le> k" "\<And>w. w AND f = f \<longleftrightarrow> bit w k" using mark_bit by blast
  then show ?thesis by (simp add: bit_and_iff)
qed

lemma mark_not: "mark f \<Longrightarrow> NOT w AND f = f \<longleftrightarrow> w AND f \<noteq> f"
proof -
  assume "mark f"
  then obtain k where "k < 32" "\<And>w. w AND f = f \<longleftrightarrow> bit w k" using mark_bit by blast
  then show ?thesis by (simp add: bit_not_iff)
qed

lemma mark_len: "mark f \<Longrightarrow> ucast (x :: u16) AND f \<noteq> f"
proof -
  assume "mark f"
  then obtain k where "16 \<le> k" "\<And>w. w AND f = f \<longleftrightarrow> bit w k" using mark_bit by blast
  then show ?thesis by (auto simp: bit_ucast_iff dest: bit_imp_le_length)
qed

lemma upd_bd_apply [simp]: "tx_bd (upd_bd i f t) j = (if j = i then f (tx_bd t i) else tx_bd t j)"
  by (simp add: upd_bd_def)

lemma upd_bd_fields [simp]:
  "free_head (upd_bd i f t) = free_head t" "active_tail (upd_bd i f t) = active_tail t"
  "next_bd_to_process (upd_bd i f t) = next_bd_to_process t" "tx_hdp (upd_bd i f t) = tx_hdp t"
  "tx_wire (upd_bd i f t) = tx_wire t" "tx_released (upd_bd i f t) = tx_released t"
  by (simp_all add: upd_bd_def)

lemma bd_has_or: "mark f \<Longrightarrow> bd_has f i (or_flag g j t) \<longleftrightarrow> bd_has f i t \<or> i = j \<and> g AND f = f"
  by (auto simp: bd_has_def or_flag_def swizzle_or mark_or)

lemma bd_has_clear: "mark f \<Longrightarrow> bd_has f i (clear_flag g j t) \<longleftrightarrow> bd_has f i t \<and> \<not> (i = j \<and> g AND f = f)"
  by (auto simp: bd_has_def clear_flag_def swizzle_and mark_and mark_not)

lemma mark_high: "mark g \<Longrightarrow> g AND 0xFFFF = 0"
proof -
  assume "mark g"
  then obtain k where k: "16 \<le> k" "k < 32" "g = push_bit k 1" by (auto simp: mark_def)
  have m: "(0xFFFF :: u32) = mask 16" by (simp add: mask_eq_exp_minus_1)
  show ?thesis unfolding m using k by (intro bit_word_eqI) (auto simp: bit_and_iff bit_mask_iff bit_exp_iff)
qed

lemma len_field_or [simp]: "mark g \<Longrightarrow> len_field i (or_flag g j t) = len_field i t"
  using mark_high [of g] by (simp add: len_field_def or_flag_def swizzle_or bit.conj_disj_distrib2)

lemma len_field_clear [simp]: "mark g \<Longrightarrow> len_field i (clear_flag g j t) = len_field i t"
proof -
  assume "mark g"
  then have "\<not> (bit g n \<and> bit (0xFFFF :: u32) n)" for n
    using arg_cong [OF mark_high, of g "\<lambda>w. bit w n"] by (simp only: bit_and_iff bit_0_eq bot_apply) simp
  then have "NOT g AND 0xFFFF = (0xFFFF :: u32)" by (intro bit_word_eqI) (auto simp: bit_and_iff bit_not_iff)
  then show ?thesis by (auto simp: len_field_def clear_flag_def swizzle_and and.assoc)
qed

lemma low_half: "(ucast (x :: u16) :: u32) AND 0xFFFF = ucast x"
proof -
  have m: "(0xFFFF :: u32) = mask 16" by (simp add: mask_eq_exp_minus_1)
  have "bit x n \<Longrightarrow> n < 16" for n using bit_imp_le_length [of x n] by simp
  then show ?thesis unfolding m by (auto intro!: bit_word_eqI simp: bit_and_iff bit_mask_iff bit_ucast_iff)
qed

lemma len_field_cong: "tb_flags (tx_bd t' i) = tb_flags (tx_bd t i) \<Longrightarrow> len_field i t' = len_field i t"
  by (simp add: len_field_def)

lemma len_field_fields [simp]:
  "len_field i (t\<lparr>free_head := a\<rparr>) = len_field i t" "len_field i (t\<lparr>active_tail := a\<rparr>) = len_field i t"
  "len_field i (t\<lparr>next_bd_to_process := a\<rparr>) = len_field i t" "len_field i (t\<lparr>tx_hdp := a\<rparr>) = len_field i t"
  "len_field i (t\<lparr>tx_wire := w\<rparr>) = len_field i t" "len_field i (t\<lparr>tx_released := l\<rparr>) = len_field i t"
  by (simp_all add: len_field_def)

lemma bd_has_cong: "tb_flags (tx_bd t' i) = tb_flags (tx_bd t i) \<Longrightarrow> bd_has f i t' = bd_has f i t"
  by (simp add: bd_has_def)

lemma mark_meet [simp]:
  "EMAC_BUF_DESC_SOP AND EMAC_BUF_DESC_EOP \<noteq> EMAC_BUF_DESC_EOP" "EMAC_BUF_DESC_SOP AND EMAC_BUF_DESC_OWNER \<noteq> EMAC_BUF_DESC_OWNER"
  "EMAC_BUF_DESC_SOP AND EMAC_BUF_DESC_EOQ \<noteq> EMAC_BUF_DESC_EOQ" "EMAC_BUF_DESC_EOP AND EMAC_BUF_DESC_SOP \<noteq> EMAC_BUF_DESC_SOP"
  "EMAC_BUF_DESC_EOP AND EMAC_BUF_DESC_OWNER \<noteq> EMAC_BUF_DESC_OWNER" "EMAC_BUF_DESC_EOP AND EMAC_BUF_DESC_EOQ \<noteq> EMAC_BUF_DESC_EOQ"
  "EMAC_BUF_DESC_OWNER AND EMAC_BUF_DESC_SOP \<noteq> EMAC_BUF_DESC_SOP" "EMAC_BUF_DESC_OWNER AND EMAC_BUF_DESC_EOP \<noteq> EMAC_BUF_DESC_EOP"
  "EMAC_BUF_DESC_OWNER AND EMAC_BUF_DESC_EOQ \<noteq> EMAC_BUF_DESC_EOQ" "EMAC_BUF_DESC_EOQ AND EMAC_BUF_DESC_SOP \<noteq> EMAC_BUF_DESC_SOP"
  "EMAC_BUF_DESC_EOQ AND EMAC_BUF_DESC_EOP \<noteq> EMAC_BUF_DESC_EOP" "EMAC_BUF_DESC_EOQ AND EMAC_BUF_DESC_OWNER \<noteq> EMAC_BUF_DESC_OWNER"
  by (simp_all add: EMAC_BUF_DESC_SOP_def EMAC_BUF_DESC_EOP_def EMAC_BUF_DESC_OWNER_def EMAC_BUF_DESC_EOQ_def)

lemma flag_updates [simp]:
  "tb_next (tx_bd (or_flag g j t) i) = tb_next (tx_bd t i)" "tb_next (tx_bd (clear_flag g j t) i) = tb_next (tx_bd t i)"
  "tb_pbuf (tx_bd (or_flag g j t) i) = tb_pbuf (tx_bd t i)" "tb_pbuf (tx_bd (clear_flag g j t) i) = tb_pbuf (tx_bd t i)"
  "tb_buf (tx_bd (or_flag g j t) i) = tb_buf (tx_bd t i)" "tb_buf (tx_bd (clear_flag g j t) i) = tb_buf (tx_bd t i)"
  "tb_len (tx_bd (or_flag g j t) i) = tb_len (tx_bd t i)" "tb_len (tx_bd (clear_flag g j t) i) = tb_len (tx_bd t i)"
  by (simp_all add: or_flag_def clear_flag_def)

lemma flag_fields [simp]:
  "free_head (or_flag g j t) = free_head t" "active_tail (or_flag g j t) = active_tail t"
  "next_bd_to_process (or_flag g j t) = next_bd_to_process t" "tx_hdp (or_flag g j t) = tx_hdp t"
  "tx_wire (or_flag g j t) = tx_wire t" "tx_released (or_flag g j t) = tx_released t"
  "free_head (clear_flag g j t) = free_head t" "active_tail (clear_flag g j t) = active_tail t"
  "next_bd_to_process (clear_flag g j t) = next_bd_to_process t" "tx_hdp (clear_flag g j t) = tx_hdp t"
  "tx_wire (clear_flag g j t) = tx_wire t" "tx_released (clear_flag g j t) = tx_released t"
  by (simp_all add: or_flag_def clear_flag_def)

lemma bd_has_fields [simp]:
  "bd_has f i (t\<lparr>free_head := a\<rparr>) = bd_has f i t" "bd_has f i (t\<lparr>active_tail := a\<rparr>) = bd_has f i t"
  "bd_has f i (t\<lparr>next_bd_to_process := a\<rparr>) = bd_has f i t" "bd_has f i (t\<lparr>tx_hdp := a\<rparr>) = bd_has f i t"
  "bd_has f i (t\<lparr>tx_wire := w\<rparr>) = bd_has f i t" "bd_has f i (t\<lparr>tx_released := l\<rparr>) = bd_has f i t"
  by (simp_all add: bd_has_def)

section \<open>Invariant of the ring\<close>

text \<open>The descriptor \<open>k\<close> places behind \<open>a\<close>.\<close>

definition idx :: "nat \<Rightarrow> nat \<Rightarrow> nat" where
  "idx a k = (a + k) mod NUM_BD"

lemma NUM_BD [simp]: "NUM_BD = 204"
  by (simp add: NUM_BD_def drop_bit_eq_div)

lemma idx_less [simp]: "idx a k < 204"
  by (simp add: idx_def)

lemma idx_idx [simp]: "idx (idx a m) k = idx a (m + k)"
  by (simp add: idx_def mod_add_left_eq add.assoc)

lemma idx_Suc: "(idx a k + 1) mod 204 = idx a (k + 1)"
  by (simp add: idx_def mod_Suc_eq)

lemma idx_0: "a < 204 \<Longrightarrow> idx a 0 = a"
  by (simp add: idx_def)

lemma idx_full [simp]: "idx a (204 + k) = idx a k" "idx a (k + 204) = idx a k"
proof -
  have "(a + k + 204) mod 204 = (a + k) mod 204" by (rule mod_add_self2)
  then show "idx a (204 + k) = idx a k" "idx a (k + 204) = idx a k" by (simp_all add: idx_def ac_simps)
qed

lemma idx_inj: "j < k + 204 \<Longrightarrow> k < j + 204 \<Longrightarrow> idx a j = idx a k \<longleftrightarrow> j = k"
proof
  assume jk: "j < k + 204" "k < j + 204" "idx a j = idx a k"
  then have "(a + j) mod 204 = (a + k) mod 204" by (simp add: idx_def)
  then obtain m where "a + j = a + k + 204 * m \<or> a + k = a + j + 204 * m"
    by (metis nat_le_linear le_add_diff_inverse mod_eq_dvd_iff_nat dvd_def)
  with jk(1,2) show "j = k" by (cases m) auto
qed simp

lemma idx_surj: "a < 204 \<Longrightarrow> i < 204 \<Longrightarrow> \<exists>k < 204. i = idx a k"
proof -
  assume "a < 204" "i < 204"
  then have "i = idx a ((i + (204 - a)) mod 204)" by (simp add: idx_def mod_add_right_eq)
  then show ?thesis by (metis mod_less_divisor zero_less_numeral)
qed

text \<open>
  Packets that the driver has not processed yet: the number of the packet buffer and the number of descriptors.
  \<open>packets_at t a n ps\<close>: from the place \<open>n\<close> behind \<open>a\<close> on the ring holds the packets \<open>ps\<close>.
\<close>

fun places :: "(nat \<times> nat) list \<Rightarrow> nat" where
  "places [] = 0"
| "places ((p, c) # ps) = c + places ps"

fun starts :: "nat \<Rightarrow> (nat \<times> nat) list \<Rightarrow> nat list" where
  "starts n [] = []"
| "starts n ((p, c) # ps) = n # starts (n + c) ps"

fun packets_at :: "txch \<Rightarrow> nat \<Rightarrow> nat \<Rightarrow> (nat \<times> nat) list \<Rightarrow> bool" where
  "packets_at t a n [] \<longleftrightarrow> True"
| "packets_at t a n ((p, c) # ps) \<longleftrightarrow>
     0 < c \<and> bd_has EMAC_BUF_DESC_SOP (idx a n) t \<and> (\<forall>k. n < k \<and> k < n + c \<longrightarrow> \<not> bd_has EMAC_BUF_DESC_SOP (idx a k) t) \<and>
     bd_has EMAC_BUF_DESC_EOP (idx a (n + c - 1)) t \<and> (\<forall>k. n \<le> k \<and> k + 1 < n + c \<longrightarrow> \<not> bd_has EMAC_BUF_DESC_EOP (idx a k) t) \<and>
     tb_pbuf (tx_bd t (idx a (n + c - 1))) = p \<and> packets_at t a (n + c) ps"

text \<open>The links go around the ring, except behind the last packet that was handed over.\<close>

definition links :: "txch \<Rightarrow> bool" where
  "links t \<longleftrightarrow> (\<forall>i < NUM_BD. tb_next (tx_bd t i) = (if active_tail t = Some i then None else Some ((i + 1) mod NUM_BD)))"

text \<open>The frame that the engine is sending, if any, is that of the last packet; the heads of the others are given back.\<close>

definition flying :: "txch \<Rightarrow> nat \<Rightarrow> nat \<Rightarrow> (nat \<times> nat) list \<Rightarrow> u8 list option \<Rightarrow> bool" where
  "flying t a n ps fly \<longleftrightarrow>
     (case fly of
        None \<Rightarrow> tx_hdp t = None \<and> (\<forall>k \<in> set (starts n ps). \<not> bd_has EMAC_BUF_DESC_OWNER (idx a k) t) \<and>
          (\<forall>i. active_tail t = Some i \<longrightarrow> bd_has EMAC_BUF_DESC_EOQ i t)
      | Some f \<Rightarrow> ps \<noteq> [] \<and>
          (let m = n + places (butlast ps)
           in tx_hdp t = Some (idx a m) \<and> bd_has EMAC_BUF_DESC_OWNER (idx a m) t \<and> (\<forall>k \<in> set (starts n (butlast ps)). \<not> bd_has EMAC_BUF_DESC_OWNER (idx a k) t) \<and>
              frame_of t (map (idx a) [m ..< n + places ps]) = f \<and> len_field (idx a m) t = of_nat (length f)))"

definition ring_at :: "txch \<Rightarrow> nat \<Rightarrow> nat \<Rightarrow> (nat \<times> nat) list \<Rightarrow> u8 list option \<Rightarrow> bool" where
  "ring_at t a n ps fly \<longleftrightarrow>
     a < NUM_BD \<and> n + places ps \<le> NUM_BD \<and>
     next_bd_to_process t = Some (idx a n) \<and> free_head t = Some (idx a (n + places ps)) \<and>
     packets_at t a n ps \<and>
     (\<forall>k < NUM_BD. \<not> (n \<le> k \<and> k < n + places ps) \<longrightarrow>
        \<not> bd_has EMAC_BUF_DESC_SOP (idx a k) t \<and> \<not> bd_has EMAC_BUF_DESC_EOP (idx a k) t) \<and>
     links t \<and> (active_tail t = None \<longrightarrow> ps = []) \<and>
     (\<forall>i. active_tail t = Some i \<longrightarrow> i = idx a (n + places ps + (NUM_BD - 1))) \<and>
     flying t a n ps fly"

lemma places_append [simp]: "places (ps @ qs) = places ps + places qs"
  by (induction ps) auto

lemma packets_at_append: "packets_at t a n (ps @ qs) \<longleftrightarrow> packets_at t a n ps \<and> packets_at t a (n + places ps) qs"
  by (induction ps arbitrary: n) (auto simp: add.assoc)

lemma packets_at_cong:
  assumes "packets_at t a n ps"
    and "\<And>k. n \<le> k \<Longrightarrow> k < n + places ps \<Longrightarrow> bd_has EMAC_BUF_DESC_SOP (idx a k) t' = bd_has EMAC_BUF_DESC_SOP (idx a k) t \<and>
      bd_has EMAC_BUF_DESC_EOP (idx a k) t' = bd_has EMAC_BUF_DESC_EOP (idx a k) t \<and>
      tb_pbuf (tx_bd t' (idx a k)) = tb_pbuf (tx_bd t (idx a k))"
  shows "packets_at t' a n ps"
  using assms
proof (induction ps arbitrary: n)
  case (Cons x ps)
  obtain p c where x: "x = (p, c)" by force
  then have "0 < c" "packets_at t a (n + c) ps" using Cons.prems(1) by simp_all
  moreover have "packets_at t' a (n + c) ps" using Cons.prems(2) x by (intro Cons.IH calculation(2)) auto
  ultimately show ?case using Cons.prems x by auto
qed simp

lemma starts_snoc: "starts n (ps @ [(p, c)]) = starts n ps @ [n + places ps]"
  by (induction ps arbitrary: n) (auto simp: add.assoc)

lemma starts_range: "k \<in> set (starts n ps) \<Longrightarrow> packets_at t a n ps \<Longrightarrow> n \<le> k \<and> k < n + places ps"
  by (induction ps arbitrary: n) fastforce+

text \<open>The descriptors of one packet are a packet for the engine.\<close>

lemma packet_places:
  assumes "0 < c" and "bd_has EMAC_BUF_DESC_EOP (idx a (n + c - 1)) t"
    and "\<And>k. n \<le> k \<Longrightarrow> k + 1 < n + c \<Longrightarrow> \<not> bd_has EMAC_BUF_DESC_EOP (idx a k) t \<and> tb_next (tx_bd t (idx a k)) = Some (idx a (k + 1))"
  shows "packet t (map (idx a) [n ..< n + c])"
  using assms
proof (induction c arbitrary: n)
  case (Suc c)
  show ?case
  proof (cases c)
    case 0
    with Suc.prems show ?thesis by simp
  next
    case (Suc d)
    have "packet t (map (idx a) [n + 1 ..< n + 1 + c])"
      by (rule Suc.IH) (use Suc.prems Suc in auto)
    moreover obtain js where js: "map (idx a) [n + 1 ..< n + 1 + c] = idx a (n + 1) # js"
      using Suc by (simp add: upt_conv_Cons del: upt_Suc)
    moreover have "map (idx a) [n ..< n + Suc c] = idx a n # map (idx a) [n + 1 ..< n + 1 + c]"
      by (simp add: upt_conv_Cons del: upt_Suc)
    ultimately show ?thesis using Suc.prems(3) [of n] Suc by (simp only: packet.simps) simp
  qed
qed simp

section \<open>The engine and the busy-waits\<close>

text \<open>The state when the engine has sent the packet \<open>js\<close>, which was the last one.\<close>

definition finished :: "nat list \<Rightarrow> txch \<Rightarrow> txch" where
  "finished js t =
     (or_flag EMAC_BUF_DESC_EOQ (last js) (clear_flag EMAC_BUF_DESC_OWNER (hd js) (t\<lparr>tx_wire := tx_wire t @ [frame_of t js]\<rparr>)))
       \<lparr>tx_hdp := None\<rparr>"

definition in_flight :: "txch \<Rightarrow> nat list \<Rightarrow> bool" where
  "in_flight t js \<longleftrightarrow> packet t js \<and> length js \<le> NUM_BD \<and> len_field (hd js) t = of_nat (length (frame_of t js)) \<and> tx_hdp t = Some (hd js) \<and> tb_next (tx_bd t (last js)) = None"

lemma dma_finishes: "emac_dma dma \<Longrightarrow> in_flight t js \<Longrightarrow> dma t = finished js t"
proof -
  assume "emac_dma dma" and t: "in_flight t js"
  then have "dma t = dma_sent js t" unfolding emac_dma_def in_flight_def by blast
  with t show ?thesis by (simp add: in_flight_def dma_sent_def finished_def Let_def)
qed

lemma finished_marks [simp]:
  "bd_has EMAC_BUF_DESC_SOP i (finished js t) = bd_has EMAC_BUF_DESC_SOP i t"
  "bd_has EMAC_BUF_DESC_EOP i (finished js t) = bd_has EMAC_BUF_DESC_EOP i t"
  "bd_has EMAC_BUF_DESC_EOQ i (finished js t) \<longleftrightarrow> bd_has EMAC_BUF_DESC_EOQ i t \<or> i = last js"
  "bd_has EMAC_BUF_DESC_OWNER i (finished js t) \<longleftrightarrow> bd_has EMAC_BUF_DESC_OWNER i t \<and> i \<noteq> hd js"
  by (auto simp: finished_def bd_has_or bd_has_clear)

lemma finished_fields [simp]:
  "tb_next (tx_bd (finished js t) i) = tb_next (tx_bd t i)" "tb_pbuf (tx_bd (finished js t) i) = tb_pbuf (tx_bd t i)"
  "len_field i (finished js t) = len_field i t"
  "tb_buf (tx_bd (finished js t) i) = tb_buf (tx_bd t i)" "tb_len (tx_bd (finished js t) i) = tb_len (tx_bd t i)"
  "free_head (finished js t) = free_head t" "active_tail (finished js t) = active_tail t"
  "next_bd_to_process (finished js t) = next_bd_to_process t" "tx_hdp (finished js t) = None"
  "tx_wire (finished js t) = tx_wire t @ [frame_of t js]" "tx_released (finished js t) = tx_released t"
  by (simp_all add: finished_def)

lemma wait_idle:
  assumes "tx_hdp t = None" and "bd_has EMAC_BUF_DESC_EOQ i t"
  shows "do { u \<leftarrow> wait_eoq dma i t; wait_hdp dma u } = Some t"
  using assms by (subst wait_eoq.simps, simp, subst wait_hdp.simps, simp)

lemma wait_busy:
  assumes dma: "emac_dma dma" and t: "in_flight t js" and i: "last js = i"
  shows "do { u \<leftarrow> wait_eoq dma i t; wait_hdp dma u } = Some (finished js t)"
proof -
  have f: "dma t = finished js t" using dma_finishes [OF dma t] .
  have h: "tx_hdp t = Some (hd js)" using t by (simp add: in_flight_def)
  have w: "wait_hdp dma (finished js t) = Some (finished js t)" by (subst wait_hdp.simps) simp
  have w': "wait_hdp dma t = Some (finished js t)" using w f h by (subst wait_hdp.simps) simp
  show ?thesis
  proof (cases "bd_has EMAC_BUF_DESC_EOQ i t")
    case True
    then show ?thesis using w' by (subst wait_eoq.simps) simp
  next
    case False
    have "wait_eoq dma i (finished js t) = Some (finished js t)" using i by (subst wait_eoq.simps) simp
    with False f w show ?thesis by (subst wait_eoq.simps) simp
  qed
qed

lemma wait_owner_idle: "\<not> bd_has EMAC_BUF_DESC_OWNER i t \<Longrightarrow> wait_owner dma i t = Some t"
  by (subst wait_owner.simps) simp

lemma wait_owner_busy:
  assumes "emac_dma dma" and "in_flight t js" and "hd js = i" and "bd_has EMAC_BUF_DESC_OWNER i t"
  shows "wait_owner dma i t = Some (finished js t)"
proof -
  have "wait_owner dma i (finished js t) = Some (finished js t)" using assms(3) by (intro wait_owner_idle) simp
  then show ?thesis using dma_finishes [OF assms(1,2)] assms(4) by (subst wait_owner.simps) simp
qed

section \<open>Handing over a packet\<close>

lemma fill_bds_ring:
  assumes "\<And>m. m < length qs \<Longrightarrow> tb_next (tx_bd t (idx a (n + m))) = Some (idx a (n + m + 1))" and "length qs < 204"
  shows "\<exists>u. fill_bds p qs (Some (idx a n)) e t =
      Some (Some (idx a (n + length qs)), if qs = [] then e else Some (idx a (n + length qs - 1)), u) \<and>
    (\<forall>m < length qs. tx_bd u (idx a (n + m)) = (tx_bd t (idx a (n + m)))
       \<lparr>tb_buf := qs ! m, tb_len := hdkif_swizzle_data (of_nat (length (qs ! m)) AND 0xFFFF), tb_pbuf := p\<rparr>) \<and>
    (\<forall>i. (\<forall>m < length qs. i \<noteq> idx a (n + m)) \<longrightarrow> tx_bd u i = tx_bd t i) \<and> u = t\<lparr>tx_bd := tx_bd u\<rparr>"
  using assms
proof (induction qs arbitrary: n t e)
  case Nil
  then show ?case by simp
next
  case (Cons q qs)
  let ?f = "\<lambda>b. b\<lparr>tb_buf := q, tb_len := hdkif_swizzle_data (of_nat (length q) AND 0xFFFF), tb_pbuf := p\<rparr>"
  let ?t = "upd_bd (idx a n) ?f t"
  have ne: "idx a (n + 1 + m) \<noteq> idx a n" if "m < length qs" for m using idx_inj [of "n + 1 + m" n a] that Cons.prems(2) by simp
  have "tb_next (tx_bd ?t (idx a (n + 1 + m))) = Some (idx a (n + 1 + m + 1))" if "m < length qs" for m
    using Cons.prems(1) [of "Suc m"] that ne [OF that] by simp
  then obtain u where u: "fill_bds p qs (Some (idx a (n + 1))) (Some (idx a n)) ?t =
      Some (Some (idx a (n + 1 + length qs)), if qs = [] then Some (idx a n) else Some (idx a (n + 1 + length qs - 1)), u)"
    "\<forall>m < length qs. tx_bd u (idx a (n + 1 + m)) = (tx_bd ?t (idx a (n + 1 + m)))
       \<lparr>tb_buf := qs ! m, tb_len := hdkif_swizzle_data (of_nat (length (qs ! m)) AND 0xFFFF), tb_pbuf := p\<rparr>"
    "\<forall>i. (\<forall>m < length qs. i \<noteq> idx a (n + 1 + m)) \<longrightarrow> tx_bd u i = tx_bd ?t i" "u = ?t\<lparr>tx_bd := tx_bd u\<rparr>"
    using Cons.IH [of ?t "n + 1" "Some (idx a n)"] Cons.prems(2) by auto
  have "tb_next (tx_bd t (idx a n)) = Some (idx a (n + 1))" using Cons.prems(1) [of 0] by simp
  then have "fill_bds p (q # qs) (Some (idx a n)) e t =
    Some (Some (idx a (n + length (q # qs))), Some (idx a (n + length (q # qs) - 1)), u)" using u(1) by simp
  moreover have "tx_bd u (idx a (n + m)) = (tx_bd t (idx a (n + m)))\<lparr>tb_buf := (q # qs) ! m,
      tb_len := hdkif_swizzle_data (of_nat (length ((q # qs) ! m)) AND 0xFFFF), tb_pbuf := p\<rparr>" if "m < length (q # qs)" for m
  proof (cases m)
    case 0
    have "\<forall>m < length qs. idx a n \<noteq> idx a (n + 1 + m)" using ne by metis
    with 0 u(3) show ?thesis by simp
  next
    case (Suc k)
    then show ?thesis using u(2) ne [of k] that by simp
  qed
  moreover have "tx_bd u i = tx_bd t i" if i: "\<forall>m < length (q # qs). i \<noteq> idx a (n + m)" for i
  proof -
    have "i \<noteq> idx a n" "\<forall>m < length qs. i \<noteq> idx a (n + 1 + m)" using i [rule_format, of 0] i [rule_format, of "Suc _"] by auto
    then show ?thesis using u(3) by simp
  qed
  moreover have "u = t\<lparr>tx_bd := tx_bd u\<rparr>" using u(4) by (simp add: upd_bd_def)
  ultimately show ?case by (intro exI [of _ u]) simp
qed

text \<open>\<open>loaded t u a n p tot_len qs\<close>: the state \<open>u\<close> is \<open>t\<close> with the packet \<open>qs\<close> in the descriptors from place \<open>n\<close> on.\<close>

definition loaded :: "txch \<Rightarrow> txch \<Rightarrow> nat \<Rightarrow> nat \<Rightarrow> nat \<Rightarrow> u16 \<Rightarrow> u8 list list \<Rightarrow> bool" where
  "loaded t u a n p tot_len qs \<longleftrightarrow> len_field (idx a n) u = ucast tot_len \<and>
     free_head u = Some (idx a (n + length qs)) \<and>
     active_tail u = active_tail t \<and> next_bd_to_process u = next_bd_to_process t \<and> tx_hdp u = tx_hdp t \<and>
     tx_wire u = tx_wire t \<and> tx_released u = tx_released t \<and>
     (\<forall>i. tb_next (tx_bd u i) = (if i = idx a (n + length qs - 1) then None else tb_next (tx_bd t i))) \<and>
     (\<forall>i. bd_has EMAC_BUF_DESC_SOP i u \<longleftrightarrow> i = idx a n \<or> bd_has EMAC_BUF_DESC_SOP i t) \<and>
     (\<forall>i. bd_has EMAC_BUF_DESC_EOP i u \<longleftrightarrow> i = idx a (n + length qs - 1) \<or> bd_has EMAC_BUF_DESC_EOP i t \<and> i \<noteq> idx a n) \<and>
     (\<forall>i. bd_has EMAC_BUF_DESC_OWNER i u \<longleftrightarrow> i = idx a n \<or> bd_has EMAC_BUF_DESC_OWNER i t) \<and>
     (\<forall>i. bd_has EMAC_BUF_DESC_EOQ i u \<longleftrightarrow> bd_has EMAC_BUF_DESC_EOQ i t \<and> i \<noteq> idx a n) \<and>
     (\<forall>m < length qs. tb_buf (tx_bd u (idx a (n + m))) = qs ! m \<and> tb_pbuf (tx_bd u (idx a (n + m))) = p \<and>
        tb_len (tx_bd u (idx a (n + m))) = hdkif_swizzle_data (of_nat (length (qs ! m)) AND 0xFFFF)) \<and>
     (\<forall>i. (\<forall>m < length qs. i \<noteq> idx a (n + m)) \<longrightarrow> tx_bd u i = tx_bd t i)"

lemma load_packet_ring:
  assumes f: "free_head t = Some (idx a n)" and l: "\<And>m. m < length qs \<Longrightarrow> tb_next (tx_bd t (idx a (n + m))) = Some (idx a (n + m + 1))"
    and q: "qs \<noteq> []" "length qs < 204"
  defines "e \<equiv> idx a (n + length qs - 1)"
  shows "\<exists>u. load_packet p tot_len qs t = Some (idx a n, e, u) \<and> loaded t u a n p tot_len qs"
proof -
  let ?w = "hdkif_swizzle_data (ucast tot_len OR (EMAC_BUF_DESC_SOP OR EMAC_BUF_DESC_OWNER))"
  let ?t1 = "upd_bd (idx a n) (\<lambda>b. b\<lparr>tb_flags := ?w\<rparr>) t"
  have "tb_next (tx_bd ?t1 (idx a (n + m))) = Some (idx a (n + m + 1))" if "m < length qs" for m
    using l [OF that] by (cases "idx a (n + m) = idx a n") simp_all
  then obtain v where v: "fill_bds p qs (Some (idx a n)) None ?t1 = Some (Some (idx a (n + length qs)), Some e, v)"
    "\<forall>m < length qs. tx_bd v (idx a (n + m)) = (tx_bd ?t1 (idx a (n + m)))
       \<lparr>tb_buf := qs ! m, tb_len := hdkif_swizzle_data (of_nat (length (qs ! m)) AND 0xFFFF), tb_pbuf := p\<rparr>"
    "\<forall>i. (\<forall>m < length qs. i \<noteq> idx a (n + m)) \<longrightarrow> tx_bd v i = tx_bd ?t1 i" "v = ?t1\<lparr>tx_bd := tx_bd v\<rparr>"
    using fill_bds_ring [of qs ?t1 a n p None] q by (auto simp: e_def)
  have flags: "tb_flags (tx_bd v i) = tb_flags (tx_bd ?t1 i) \<and> tb_next (tx_bd v i) = tb_next (tx_bd ?t1 i)" for i
  proof (cases "\<forall>m < length qs. i \<noteq> idx a (n + m)")
    case True
    with v(3) show ?thesis by simp
  next
    case False
    with v(2) show ?thesis by auto
  qed
  have "0 < length qs" using q(1) by simp
  then have "n + length qs - 1 = n + (length qs - 1)" by arith
  with \<open>0 < length qs\<close> have e: "e = idx a (n + (length qs - 1))" "length qs - 1 < length qs" by (simp_all add: e_def)
  define u where "u = (or_flag EMAC_BUF_DESC_EOP e (upd_bd e (\<lambda>b. b\<lparr>tb_next := None\<rparr>) v))\<lparr>free_head := Some (idx a (n + length qs))\<rparr>"
  have bits: "bd_has f i (upd_bd e (\<lambda>b. b\<lparr>tb_next := None\<rparr>) v) \<longleftrightarrow>
      (if i = idx a n then EMAC_BUF_DESC_SOP AND f = f \<or> EMAC_BUF_DESC_OWNER AND f = f else bd_has f i t)" if "mark f" for f i
    using that flags [of i] flags [of e] by (auto simp: bd_has_def mark_or mark_len)
  have "(ucast tot_len OR (EMAC_BUF_DESC_SOP OR EMAC_BUF_DESC_OWNER) :: u32) AND 0xFFFF = ucast tot_len"
    by (simp add: bit.conj_disj_distrib2 low_half mark_high)
  then have lf: "len_field (idx a n) (upd_bd e (\<lambda>b. b\<lparr>tb_next := None\<rparr>) v) = ucast tot_len"
    using flags [of "idx a n"] by (cases "idx a n = e") (simp_all add: len_field_def)
  have fields: "active_tail v = active_tail t" "next_bd_to_process v = next_bd_to_process t" "tx_hdp v = tx_hdp t"
    "tx_wire v = tx_wire t" "tx_released v = tx_released t" by (subst v(4), simp)+
  have "load_packet p tot_len qs t = Some (idx a n, e, u)" using f v(1) by (simp add: load_packet_def Let_def u_def)
  moreover have "loaded t u a n p tot_len qs" unfolding loaded_def e_def [symmetric]
  proof (intro conjI)
    show "\<forall>m < length qs. tb_buf (tx_bd u (idx a (n + m))) = qs ! m \<and> tb_pbuf (tx_bd u (idx a (n + m))) = p \<and>
       tb_len (tx_bd u (idx a (n + m))) = hdkif_swizzle_data (of_nat (length (qs ! m)) AND 0xFFFF)"
      using v(2) by (auto simp: u_def or_flag_def)
    show "\<forall>i. (\<forall>m < length qs. i \<noteq> idx a (n + m)) \<longrightarrow> tx_bd u i = tx_bd t i"
    proof (intro allI impI)
      fix i
      assume i: "\<forall>m < length qs. i \<noteq> idx a (n + m)"
      have "i \<noteq> e" unfolding e(1) by (rule i [rule_format, OF e(2)])
      moreover have "i \<noteq> idx a n" using i [rule_format, of 0] q(1) by simp
      moreover note i
      ultimately show "tx_bd u i = tx_bd t i" using v(3) by (simp add: u_def or_flag_def)
    qed
  qed (use flags fields bits lf in \<open>auto simp: u_def bd_has_or\<close>)
  ultimately show ?thesis by blast
qed

text \<open>Descriptors that differ from \<open>u\<close> at most in what the engine writes.\<close>

definition same_packets :: "txch \<Rightarrow> txch \<Rightarrow> bool" where
  "same_packets u v \<longleftrightarrow>
     (\<forall>i. bd_has EMAC_BUF_DESC_SOP i v = bd_has EMAC_BUF_DESC_SOP i u \<and> bd_has EMAC_BUF_DESC_EOP i v = bd_has EMAC_BUF_DESC_EOP i u \<and>
        tb_next (tx_bd v i) = tb_next (tx_bd u i) \<and> tb_pbuf (tx_bd v i) = tb_pbuf (tx_bd u i) \<and>
        tb_buf (tx_bd v i) = tb_buf (tx_bd u i) \<and> tb_len (tx_bd v i) = tb_len (tx_bd u i) \<and> len_field i v = len_field i u) \<and>
     free_head v = free_head u \<and> active_tail v = active_tail u \<and> next_bd_to_process v = next_bd_to_process u \<and>
     tx_released v = tx_released u"

lemma same_packets_refl: "same_packets u u"
  by (simp add: same_packets_def)

lemma same_packets_finished: "same_packets u (finished js u)"
  by (simp add: same_packets_def)

lemma frame_of_cong:
  "(\<And>i. i \<in> set js \<Longrightarrow> tb_buf (tx_bd v i) = tb_buf (tx_bd u i) \<and> tb_len (tx_bd v i) = tb_len (tx_bd u i)) \<Longrightarrow> frame_of v js = frame_of u js"
  unfolding frame_of_def by (intro arg_cong [of _ _ concat] map_cong) auto

lemma ring_links:
  assumes "ring_at t a n ps fly" and "k + 1 < n + places ps + 204" and "n + places ps < k + 1 + 204"
  shows "k + 1 \<noteq> n + places ps \<Longrightarrow> tb_next (tx_bd t (idx a k)) = Some (idx a (k + 1))"
proof -
  assume k: "k + 1 \<noteq> n + places ps"
  have "active_tail t \<noteq> Some (idx a k)"
  proof
    assume "active_tail t = Some (idx a k)"
    then have "idx a k = idx a (n + places ps + 203)" using assms(1) by (simp add: ring_at_def)
    then have "idx a (k + 1) = idx a (n + places ps)" by (metis idx_Suc idx_full(2) add.assoc numeral_plus_one semiring_norm(5,2,8))
    with k assms(2,3) idx_inj [of "k + 1" "n + places ps" a] show False by simp
  qed
  then show ?thesis using assms(1) idx_Suc [of a k] by (simp add: ring_at_def links_def)
qed

text \<open>The packet that is being sent, seen from any state that agrees on its descriptors.\<close>

lemma flight_of:
  assumes R: "ring_at t a n ps (Some f)"
  defines "js \<equiv> map (idx a) [n + places (butlast ps) ..< n + places ps]"
  assumes same: "\<And>i. i \<in> set js \<Longrightarrow> bd_has EMAC_BUF_DESC_EOP i u = bd_has EMAC_BUF_DESC_EOP i t \<and> tx_bd u i = tx_bd t i"
    and h: "tx_hdp u = tx_hdp t"
  shows "in_flight u js" "frame_of u js = f" "last js = idx a (n + places ps - 1)" "active_tail t = Some (last js)"
    "hd js = idx a (n + places (butlast ps))"
proof -
  have ps: "ps \<noteq> []" and hd: "tx_hdp t = Some (idx a (n + places (butlast ps)))" and fr: "frame_of t js = f"
    and lf: "len_field (idx a (n + places (butlast ps))) t = of_nat (length f)"
    using R by (simp_all add: ring_at_def flying_def Let_def js_def)
  obtain p c where snoc: "ps = butlast ps @ [(p, c)]" using ps by (metis append_butlast_last_id prod.exhaust)
  let ?m = "n + places (butlast ps)"
  have pl: "places ps = places (butlast ps) + c" using arg_cong [OF snoc, of places] by simp
  have pk: "packets_at t a n (butlast ps @ [(p, c)])" using R snoc by (simp add: ring_at_def)
  then have c: "0 < c" "bd_has EMAC_BUF_DESC_EOP (idx a (?m + c - 1)) t"
    "\<And>k. ?m \<le> k \<Longrightarrow> k + 1 < ?m + c \<Longrightarrow> \<not> bd_has EMAC_BUF_DESC_EOP (idx a k) t"
    unfolding packets_at_append by simp_all
  have le: "n + places ps \<le> 204" using R by (simp add: ring_at_def)
  have js: "js = map (idx a) [?m ..< ?m + c]" by (simp add: js_def pl add.assoc)
  have "tb_next (tx_bd t (idx a k)) = Some (idx a (k + 1))" if "?m \<le> k" "k + 1 < ?m + c" for k
    using ring_links [OF R, of k] that pl le by simp
  then have "packet t js" using packet_places [OF c(1,2)] c(3) js by simp
  moreover have "packet u xs = packet t xs" if "\<And>i. i \<in> set xs \<Longrightarrow> bd_has EMAC_BUF_DESC_EOP i u = bd_has EMAC_BUF_DESC_EOP i t \<and> tx_bd u i = tx_bd t i" for xs
    using that by (induction t xs rule: packet.induct) auto
  ultimately have pu: "packet u js" using same by blast
  have ne: "js \<noteq> []" "length js = c" using c(1) by (simp_all add: js)
  show hdj: "hd js = idx a ?m" using c(1) by (simp add: js hd_map)
  have "last [?m ..< ?m + c] = ?m + c - 1" using c(1) by (simp add: last_upt)
  then show lst: "last js = idx a (n + places ps - 1)" using c(1) by (simp add: js last_map pl add.assoc)
  have "active_tail t \<noteq> None" using R ps by (auto simp: ring_at_def)
  moreover have "idx a (n + places ps + 203) = idx a (n + places ps - 1)"
    using idx_full(2) [of a "n + places ps - 1"] c(1) pl by (simp add: ac_simps)
  ultimately show at: "active_tail t = Some (last js)" using R lst by (auto simp: ring_at_def)
  then have "tb_next (tx_bd t (last js)) = None" using R lst by (simp add: ring_at_def links_def)
  moreover have "last js \<in> set js" using ne(1) by simp
  moreover have "hd js \<in> set js" using ne(1) by simp
  moreover show fu: "frame_of u js = f" using fr same frame_of_cong [of js u t] by simp
  ultimately show "in_flight u js" using pu h hd hdj ne(2) pl le same lf by (simp add: in_flight_def len_field_def)
qed

lemma transmit_settles:
  assumes dma: "emac_dma dma" and R: "ring_at t a 0 ps fly" and U: "loaded t u a (places ps) p tot_len qs"
    and cap: "places ps + length qs < 204"
  shows "\<exists>v. (case active_tail u of None \<Rightarrow> Some u | Some tail \<Rightarrow> do { w \<leftarrow> wait_eoq dma tail u; wait_hdp dma w }) = Some v \<and>
    same_packets u v \<and> tx_hdp v = None \<and> (\<forall>i. active_tail u = Some i \<longrightarrow> bd_has EMAC_BUF_DESC_EOQ i v) \<and>
    (\<forall>k \<in> set (starts 0 ps). \<not> bd_has EMAC_BUF_DESC_OWNER (idx a k) v) \<and> bd_has EMAC_BUF_DESC_OWNER (idx a (places ps)) v \<and>
    tx_wire v = tx_wire t @ (case fly of None \<Rightarrow> [] | Some f \<Rightarrow> [f])"
proof -
  let ?n = "places ps"
  have U1: "active_tail u = active_tail t" "tx_hdp u = tx_hdp t" "tx_wire u = tx_wire t"
    "\<And>i. bd_has EMAC_BUF_DESC_EOQ i u \<longleftrightarrow> bd_has EMAC_BUF_DESC_EOQ i t \<and> i \<noteq> idx a ?n"
    "\<And>i. bd_has EMAC_BUF_DESC_OWNER i u \<longleftrightarrow> i = idx a ?n \<or> bd_has EMAC_BUF_DESC_OWNER i t"
    "\<And>i. (\<forall>m < length qs. i \<noteq> idx a (?n + m)) \<longrightarrow> tx_bd u i = tx_bd t i"
    using U by (simp_all add: loaded_def)
  have tail: "i = idx a (?n + 203)" "i \<noteq> idx a ?n" if "active_tail t = Some i" for i
    using R that idx_inj [of "?n + 203" ?n a] by (auto simp: ring_at_def)
  have pk: "packets_at t a 0 ps" using R by (simp add: ring_at_def)
  have st: "idx a k \<noteq> idx a ?n" if "k \<in> set (starts 0 ps)" for k
    using starts_range [OF that pk] cap idx_inj [of k ?n a] by simp
  show ?thesis
  proof (cases fly)
    case None
    have F: "tx_hdp t = None" "\<And>k. k \<in> set (starts 0 ps) \<Longrightarrow> \<not> bd_has EMAC_BUF_DESC_OWNER (idx a k) t"
      "\<And>i. active_tail t = Some i \<Longrightarrow> bd_has EMAC_BUF_DESC_EOQ i t" using R None by (auto simp: ring_at_def flying_def)
    have q: "bd_has EMAC_BUF_DESC_EOQ i u" if "active_tail u = Some i" for i using that U1 F(3) tail by simp
    have "(case active_tail u of None \<Rightarrow> Some u | Some tail \<Rightarrow> do { w \<leftarrow> wait_eoq dma tail u; wait_hdp dma w }) = Some u"
      using wait_idle [of u _ dma] q U1 F(1) by (simp split: option.split)
    then show ?thesis using None q F st U1 same_packets_refl by auto
  next
    case (Some f)
    define js where "js = map (idx a) [0 + places (butlast ps) ..< 0 + places ps]"
    have "bd_has EMAC_BUF_DESC_EOP i u = bd_has EMAC_BUF_DESC_EOP i t \<and> tx_bd u i = tx_bd t i" if i: "i \<in> set js" for i
    proof -
      obtain k where k: "i = idx a k" "k < ?n" using i by (auto simp: js_def)
      then have "\<forall>m < length qs. i \<noteq> idx a (?n + m)" using cap idx_inj [of k _ a] by simp
      then show ?thesis using U1(6) by (simp add: bd_has_def)
    qed
    note G = flight_of [OF R [unfolded Some], folded js_def, OF this U1(2)]
    have w: "do { w \<leftarrow> wait_eoq dma (last js) u; wait_hdp dma w } = Some (finished js u)" by (rule wait_busy [OF dma G(1) refl])
    have own: "\<not> bd_has EMAC_BUF_DESC_OWNER (idx a k) (finished js u)" if k: "k \<in> set (starts 0 ps)" for k
    proof (cases "idx a k = hd js")
      case False
      have ps: "ps \<noteq> []" using R Some by (simp add: ring_at_def flying_def Let_def)
      then have "starts 0 ps = starts 0 (butlast ps) @ [places (butlast ps)]" using starts_snoc [of 0 "butlast ps"] by (metis append_butlast_last_id add_0 prod.exhaust)
      then have "k \<in> set (starts 0 (butlast ps))" using k False G(5) by auto
      then show ?thesis using R Some U1(5) st [OF k] by (simp add: ring_at_def flying_def Let_def)
    qed simp
    have "places (butlast ps) < places ps"
    proof -
      have "ps \<noteq> []" using R Some by (simp add: ring_at_def flying_def Let_def)
      then obtain p' c' where "ps = butlast ps @ [(p', c')]" by (metis append_butlast_last_id prod.exhaust)
      then have "packets_at t a 0 (butlast ps @ [(p', c')])" "places ps = places (butlast ps) + c'"
        using pk by (simp, metis places_append places.simps add.right_neutral)
      then show ?thesis unfolding packets_at_append by simp
    qed
    then have "idx a ?n \<noteq> hd js" using G(5) cap idx_inj [of ?n "places (butlast ps)" a] by simp
    then have "bd_has EMAC_BUF_DESC_OWNER (idx a ?n) (finished js u)" using U1(5) by simp
    then show ?thesis
      using w own G(2,4) U1(1,3) Some by (intro exI [of _ "finished js u"]) (simp add: same_packets_finished)
  qed
qed

lemma desc_len: "length (q :: u8 list) < 65536 \<Longrightarrow> unat (of_nat (length q) AND 0xFFFF :: u32) = length q"
proof -
  assume q: "length q < 65536"
  have "(0xFFFF :: u32) = mask 16" by (simp add: mask_eq_exp_minus_1)
  then have "(of_nat (length q) AND 0xFFFF :: u32) = take_bit 16 (of_nat (length q))" by (simp only: take_bit_eq_mask)
  then show ?thesis using q by (simp add: unsigned_take_bit_eq unsigned_of_nat take_bit_nat_eq_self)
qed

lemma frame_loaded:
  assumes "\<And>m. m < length qs \<Longrightarrow> tb_buf (tx_bd u (idx a (n + m))) = qs ! m \<and>
      tb_len (tx_bd u (idx a (n + m))) = hdkif_swizzle_data (of_nat (length (qs ! m)) AND 0xFFFF)"
    and "\<And>q. q \<in> set qs \<Longrightarrow> length q < 65536"
  shows "frame_of u (map (idx a) [n ..< n + length qs]) = concat qs"
proof -
  have "map ((\<lambda>i. take (unat (hdkif_swizzle_data (tb_len (tx_bd u i)))) (tb_buf (tx_bd u i))) \<circ> idx a) [n ..< n + length qs] = qs"
  proof (rule nth_equalityI)
    show "length (map ((\<lambda>i. take (unat (hdkif_swizzle_data (tb_len (tx_bd u i)))) (tb_buf (tx_bd u i))) \<circ> idx a) [n ..< n + length qs]) =
      length qs" by simp
    fix m
    assume "m < length (map ((\<lambda>i. take (unat (hdkif_swizzle_data (tb_len (tx_bd u i)))) (tb_buf (tx_bd u i))) \<circ> idx a) [n ..< n + length qs])"
    then have m: "m < length qs" by simp
    then have "length (qs ! m) < 65536" by (intro assms(2)) simp
    with m assms(1) [OF m] show "map ((\<lambda>i. take (unat (hdkif_swizzle_data (tb_len (tx_bd u i)))) (tb_buf (tx_bd u i))) \<circ> idx a)
      [n ..< n + length qs] ! m = qs ! m" by (simp add: desc_len)
  qed
  then show ?thesis by (simp add: frame_of_def)
qed

text \<open>The packet joins the ring: every link is in place again except that behind the new packet.\<close>

lemma ring_extended:
  assumes R: "ring_at t a 0 ps fly" and U: "loaded t u a (places ps) p tot_len qs" and V: "same_packets u v"
    and own: "\<forall>k \<in> set (starts 0 ps). \<not> bd_has EMAC_BUF_DESC_OWNER (idx a k) v" "bd_has EMAC_BUF_DESC_OWNER (idx a (places ps)) v"
    and cap: "places ps + length qs < 204" "qs \<noteq> []" and len: "\<And>q. q \<in> set qs \<Longrightarrow> length q < 65536" "unat tot_len = length (concat qs)"
    and W: "\<And>i. len_field i w = len_field i v" "\<And>f i. bd_has f i w = bd_has f i v" "\<And>i. tb_pbuf (tx_bd w i) = tb_pbuf (tx_bd v i)"
      "\<And>i. tb_buf (tx_bd w i) = tb_buf (tx_bd v i)" "\<And>i. tb_len (tx_bd w i) = tb_len (tx_bd v i)"
      "\<And>i. tb_next (tx_bd w i) = (if active_tail t = Some i then Some (idx a (places ps)) else tb_next (tx_bd v i))"
      "free_head w = free_head v" "next_bd_to_process w = next_bd_to_process v" "tx_hdp w = Some (idx a (places ps))"
      "active_tail w = Some (idx a (places ps + length qs - 1))"
  shows "ring_at w a 0 (ps @ [(p, length qs)]) (Some (concat qs))"
proof -
  let ?n = "places ps" and ?e = "places ps + length qs - 1"
  have q: "0 < length qs" using cap(2) by simp
  then have ge: "?n \<le> ?e" "\<not> ?n + length qs \<le> ?e" by arith+
  have ine: "idx a k = idx a m \<longleftrightarrow> k = m" if "k < 204" "m < 204" for k m using idx_inj [of k m a] that by simp
  have sop: "bd_has EMAC_BUF_DESC_SOP i w \<longleftrightarrow> i = idx a ?n \<or> bd_has EMAC_BUF_DESC_SOP i t" for i
    using U V W(2) by (simp add: loaded_def same_packets_def)
  have eop: "bd_has EMAC_BUF_DESC_EOP i w \<longleftrightarrow> i = idx a ?e \<or> bd_has EMAC_BUF_DESC_EOP i t \<and> i \<noteq> idx a ?n" for i
    using U V W(2) by (simp add: loaded_def same_packets_def)
  have clear: "\<not> bd_has EMAC_BUF_DESC_SOP (idx a k) t \<and> \<not> bd_has EMAC_BUF_DESC_EOP (idx a k) t" if "?n \<le> k" "k < 204" for k
    using R that by (simp add: ring_at_def)
  have old: "tx_bd u (idx a k) = tx_bd t (idx a k)" if "k < ?n" for k
    using U that cap ine by (auto simp: loaded_def)
  have pb: "tb_pbuf (tx_bd w (idx a k)) = tb_pbuf (tx_bd t (idx a k))" if "k < ?n" for k
    using V W(3) old [OF that] by (simp add: same_packets_def)
  have new: "tb_pbuf (tx_bd w (idx a (?n + m))) = p \<and> tb_buf (tx_bd w (idx a (?n + m))) = qs ! m \<and>
    tb_len (tx_bd w (idx a (?n + m))) = hdkif_swizzle_data (of_nat (length (qs ! m)) AND 0xFFFF)" if "m < length qs" for m
    using U V W(3,4,5) that by (simp add: loaded_def same_packets_def)
  have "packets_at w a 0 ps"
    by (rule packets_at_cong [of t]) (use R sop eop pb cap ine ge in \<open>auto simp: ring_at_def\<close>)
  moreover have "packets_at w a ?n [(p, length qs)]"
    using sop eop clear new [of "length qs - 1"] q cap ine by auto
  ultimately have pk: "packets_at w a 0 (ps @ [(p, length qs)])" by (simp add: packets_at_append)
  have free: "\<not> bd_has EMAC_BUF_DESC_SOP (idx a k) w \<and> \<not> bd_has EMAC_BUF_DESC_EOP (idx a k) w" if "?n + length qs \<le> k" "k < 204" for k
    using sop eop clear [of k] that ge cap ine [of k ?n] ine [of k ?e] by auto
  have tl: "i = idx a (?n + 203)" if "active_tail t = Some i" for i using R that by (simp add: ring_at_def)
  have "len_field (idx a ?n) w = ucast tot_len" using U V W(1) by (simp add: loaded_def same_packets_def)
  moreover have "ucast tot_len = (of_nat (length (concat qs)) :: u32)"
    using len(2) by (metis of_nat_unat)
  ultimately have lf: "len_field (idx a ?n) w = of_nat (length (concat qs))" by simp
  have "links w" unfolding links_def
  proof (intro allI impI)
    fix i
    assume i: "i < NUM_BD"
    have nx: "tb_next (tx_bd w i) = (if active_tail t = Some i then Some (idx a ?n)
        else if i = idx a ?e then None else tb_next (tx_bd t i))"
      using W(6) V U by (simp add: same_packets_def loaded_def)
    have "active_tail t \<noteq> Some (idx a ?e)"
    proof
      assume "active_tail t = Some (idx a ?e)"
      then have "idx a ?e = idx a (?n + 203)" by (rule tl)
      moreover have "?e < ?n + 203 + 204" "?n + 203 < ?e + 204" "?e \<noteq> ?n + 203" using cap(1) q by arith+
      ultimately show False using idx_inj [of ?e "?n + 203" a] by blast
    qed
    moreover have "(i + 1) mod 204 = idx a ?n" if "active_tail t = Some i"
    proof -
      have "(i + 1) mod 204 = idx a (?n + 203 + 1)" unfolding tl [OF that] by (rule idx_Suc)
      then show ?thesis using idx_full(2) [of a ?n] by (simp add: ac_simps)
    qed
    moreover have "tb_next (tx_bd t i) = (if active_tail t = Some i then None else Some ((i + 1) mod 204))"
      using R i by (simp add: ring_at_def links_def)
    ultimately show "tb_next (tx_bd w i) = (if active_tail w = Some i then None else Some ((i + 1) mod NUM_BD))"
      using nx W(10) by auto
  qed
  moreover have "flying w a 0 (ps @ [(p, length qs)]) (Some (concat qs))"
    using own W(2,9) new frame_loaded [of qs w a ?n] len lf by (simp add: flying_def Let_def)
  moreover have "idx a (?n + length qs + 203) = idx a ?e" using idx_full(2) [of a ?e] q by (simp add: ac_simps)
  ultimately show ?thesis
    using pk free R U V W(7,8,10) cap q by (auto simp: ring_at_def loaded_def same_packets_def)
qed

definition in_air :: "u8 list option \<Rightarrow> u8 list list" where
  "in_air fly = (case fly of None \<Rightarrow> [] | Some f \<Rightarrow> [f])"

lemma hdkif_transmit_ring:
  assumes dma: "emac_dma dma" and R: "ring_at t a 0 ps fly" and cap: "places ps + length qs < 204" "qs \<noteq> []"
    and len: "\<And>q. q \<in> set qs \<Longrightarrow> length q < 65536" "unat tot_len = length (concat qs)"
  shows "\<exists>w. hdkif_transmit dma p tot_len qs t = Some w \<and> ring_at w a 0 (ps @ [(p, length qs)]) (Some (concat qs)) \<and>
    tx_wire w = tx_wire t @ in_air fly \<and> tx_released w = tx_released t"
proof -
  let ?n = "places ps" and ?e = "idx a (places ps + length qs - 1)"
  have fh: "free_head t = Some (idx a ?n)" using R by (simp add: ring_at_def)
  have "tb_next (tx_bd t (idx a (?n + m))) = Some (idx a (?n + m + 1))" if "m < length qs" for m
    using ring_links [OF R, of "?n + m"] that cap by simp
  then obtain u where u: "load_packet p tot_len qs t = Some (idx a ?n, ?e, u)" "loaded t u a ?n p tot_len qs"
    using load_packet_ring [OF fh] cap by (metis add_lessD1 add.commute)
  have at: "active_tail u = active_tail t" and rel: "tx_released u = tx_released t" using u(2) by (simp_all add: loaded_def)
  obtain v where v: "(case active_tail u of None \<Rightarrow> Some u | Some tail \<Rightarrow> do { w \<leftarrow> wait_eoq dma tail u; wait_hdp dma w }) = Some v"
    "same_packets u v" "tx_hdp v = None" "\<forall>i. active_tail u = Some i \<longrightarrow> bd_has EMAC_BUF_DESC_EOQ i v"
    "\<forall>k \<in> set (starts 0 ps). \<not> bd_has EMAC_BUF_DESC_OWNER (idx a k) v" "bd_has EMAC_BUF_DESC_OWNER (idx a ?n) v"
    "tx_wire v = tx_wire t @ in_air fly"
    using transmit_settles [OF dma R u(2) cap(1)] unfolding in_air_def by blast
  define w where "w = (case active_tail t of None \<Rightarrow> v
      | Some k \<Rightarrow> upd_bd k (\<lambda>b. b\<lparr>tb_next := Some (idx a ?n)\<rparr>) v)\<lparr>tx_hdp := Some (idx a ?n), active_tail := Some ?e\<rparr>"
  have "hdkif_transmit dma p tot_len qs t = Some w"
  proof (cases "active_tail t")
    case None
    with v(1) at have "v = u" by simp
    with None u(1) at show ?thesis by (simp add: hdkif_transmit_def w_def)
  next
    case (Some k)
    have wt: "do { w \<leftarrow> wait_eoq dma k u; wait_hdp dma w } = Some v" using v(1) at Some by simp
    have q: "bd_has EMAC_BUF_DESC_EOQ k (upd_bd k (\<lambda>b. b\<lparr>tb_next := Some (idx a ?n)\<rparr>) v)"
      using v(4) at Some by (simp add: bd_has_def)
    show ?thesis using u(1) at Some by (simp add: hdkif_transmit_def w_def wt q Let_def)
  qed
  moreover have "ring_at w a 0 (ps @ [(p, length qs)]) (Some (concat qs))"
    by (rule ring_extended [OF R u(2) v(2,5,6) cap len]) (auto simp: w_def bd_has_def len_field_def split: option.split)
  moreover have "tx_wire w = tx_wire t @ in_air fly \<and> tx_released w = tx_released t"
    using v(2,7) rel by (simp add: w_def same_packets_def split: option.split)
  ultimately show ?thesis by blast
qed

section \<open>Processing the ring\<close>

lemma find_eop_packet:
  assumes "\<And>k. n \<le> k \<Longrightarrow> k + 1 < n + c \<Longrightarrow> \<not> bd_has EMAC_BUF_DESC_EOP (idx a k) t \<and> tb_next (tx_bd t (idx a k)) = Some (idx a (k + 1))"
    and "0 < c" and "bd_has EMAC_BUF_DESC_EOP (idx a (n + c - 1)) t"
  shows "find_eop (Some (idx a n)) t = Some (idx a (n + c - 1))"
  using assms
proof (induction c arbitrary: n)
  case (Suc c)
  show ?case
  proof (cases c)
    case 0
    with Suc.prems show ?thesis by (subst find_eop.simps) simp
  next
    case (Suc d)
    have "find_eop (Some (idx a (n + 1))) t = Some (idx a (n + 1 + c - 1))" by (rule Suc.IH) (use Suc.prems Suc in auto)
    then show ?thesis using Suc.prems(1) [of n] Suc by (subst find_eop.simps) simp
  qed
qed simp

text \<open>What one round of the interrupt handler does with the first packet.\<close>

definition done_packet :: "nat \<Rightarrow> nat \<Rightarrow> txch \<Rightarrow> txch" where
  "done_packet i e t =
     (let t = clear_flag EMAC_BUF_DESC_EOP e (clear_flag EMAC_BUF_DESC_SOP i t);
          t = t\<lparr>next_bd_to_process := (if tb_next (tx_bd t e) = None then free_head t else tb_next (tx_bd t e))\<rparr>
      in t\<lparr>tx_released := tx_released t @ [tb_pbuf (tx_bd t e)]\<rparr>)"

lemma done_packet_simps [simp]:
  "bd_has EMAC_BUF_DESC_SOP k (done_packet i e t) \<longleftrightarrow> bd_has EMAC_BUF_DESC_SOP k t \<and> k \<noteq> i"
  "bd_has EMAC_BUF_DESC_EOP k (done_packet i e t) \<longleftrightarrow> bd_has EMAC_BUF_DESC_EOP k t \<and> k \<noteq> e"
  "bd_has EMAC_BUF_DESC_OWNER k (done_packet i e t) = bd_has EMAC_BUF_DESC_OWNER k t"
  "bd_has EMAC_BUF_DESC_EOQ k (done_packet i e t) = bd_has EMAC_BUF_DESC_EOQ k t" "len_field k (done_packet i e t) = len_field k t"
  "tb_next (tx_bd (done_packet i e t) k) = tb_next (tx_bd t k)" "tb_pbuf (tx_bd (done_packet i e t) k) = tb_pbuf (tx_bd t k)"
  "tb_buf (tx_bd (done_packet i e t) k) = tb_buf (tx_bd t k)" "tb_len (tx_bd (done_packet i e t) k) = tb_len (tx_bd t k)"
  "free_head (done_packet i e t) = free_head t" "active_tail (done_packet i e t) = active_tail t"
  "tx_hdp (done_packet i e t) = tx_hdp t" "tx_wire (done_packet i e t) = tx_wire t"
  "tx_released (done_packet i e t) = tx_released t @ [tb_pbuf (tx_bd t e)]"
  "next_bd_to_process (done_packet i e t) = (if tb_next (tx_bd t e) = None then free_head t else tb_next (tx_bd t e))"
  by (auto simp: done_packet_def Let_def bd_has_clear)

lemma tx_loop_step:
  assumes "next_bd_to_process t = Some i" and "bd_has EMAC_BUF_DESC_SOP i t" and "wait_owner dma i t = Some u" and "find_eop (Some i) u = Some e"
  shows "tx_loop dma t = tx_loop dma (done_packet i e u)"
  using assms by (subst tx_loop.simps) (simp add: done_packet_def Let_def)

lemma tx_loop_stop:
  assumes "next_bd_to_process t = Some i" and "\<not> bd_has EMAC_BUF_DESC_SOP i t"
  shows "tx_loop dma t = Some t"
  using assms by (subst tx_loop.simps) simp

lemma packets_places_pos: "packets_at t a n (ps @ [(p, c)]) \<Longrightarrow> 0 < c"
  unfolding packets_at_append by simp

text \<open>When the engine has sent the last packet, the ring is the same but for the frame that was in the air.\<close>

lemma engine_done:
  assumes dma: "emac_dma dma" and R: "ring_at t a n ps (Some f)"
  obtains js where "dma t = finished js t" "ring_at (finished js t) a n ps None" "frame_of t js = f" "in_flight t js"
    "hd js = idx a (n + places (butlast ps))"
proof -
  define js where "js = map (idx a) [n + places (butlast ps) ..< n + places ps]"
  note G = flight_of [OF R, of t, folded js_def, OF _ refl]
  have ps: "ps \<noteq> []" using R by (simp add: ring_at_def flying_def Let_def)
  then obtain p c where snoc: "ps = butlast ps @ [(p, c)]" by (metis append_butlast_last_id prod.exhaust)
  have "starts n ps = starts n (butlast ps) @ [n + places (butlast ps)]" using starts_snoc [of n "butlast ps" p c] snoc by simp
  then have own: "\<forall>k \<in> set (starts n ps). \<not> bd_has EMAC_BUF_DESC_OWNER (idx a k) (finished js t)"
    using R G(5) by (auto simp: ring_at_def flying_def Let_def)
  have "packets_at (finished js t) a n ps" by (rule packets_at_cong [of t]) (use R in \<open>simp_all add: ring_at_def\<close>)
  then have "ring_at (finished js t) a n ps None"
    using R own G(4) by (simp add: ring_at_def links_def flying_def [of _ _ _ _ None])
  then show ?thesis using that [of js] dma_finishes [OF dma G(1)] G(1,2,5) by simp
qed

lemma ring_advance:
  assumes R: "ring_at t a n ((p, c) # ps) fly" and f: "fly = None \<or> ps \<noteq> []"
  shows "ring_at (done_packet (idx a n) (idx a (n + c - 1)) t) a (n + c) ps fly"
    "tx_released (done_packet (idx a n) (idx a (n + c - 1)) t) = tx_released t @ [p]"
proof -
  let ?e = "n + c - 1" and ?w = "done_packet (idx a n) (idx a (n + c - 1)) t"
  have P: "0 < c" "\<And>k. n < k \<Longrightarrow> k < n + c \<Longrightarrow> \<not> bd_has EMAC_BUF_DESC_SOP (idx a k) t"
    "\<And>k. n \<le> k \<Longrightarrow> k + 1 < n + c \<Longrightarrow> \<not> bd_has EMAC_BUF_DESC_EOP (idx a k) t" "tb_pbuf (tx_bd t (idx a ?e)) = p" "packets_at t a (n + c) ps"
    using R by (simp_all add: ring_at_def)
  have le: "n + c + places ps \<le> 204" using R by (simp add: ring_at_def add.assoc)
  have ine: "idx a k = idx a m \<longleftrightarrow> k = m" if "k < 204" "m < 204" for k m using idx_inj [of k m a] that by simp
  have ec: "?e + 1 = n + c" "n \<le> ?e" "?e < 204" "n < 204" using P(1) le by arith+
  show "tx_released ?w = tx_released t @ [p]" using P(4) by simp
  have "packets_at ?w a (n + c) ps"
    by (rule packets_at_cong [OF P(5)]) (use ine ec le in auto)
  moreover have "\<not> bd_has EMAC_BUF_DESC_SOP (idx a k) ?w \<and> \<not> bd_has EMAC_BUF_DESC_EOP (idx a k) ?w"
    if k: "k < 204" "\<not> (n + c \<le> k \<and> k < n + c + places ps)" for k
  proof (cases "n \<le> k \<and> k < n + c")
    case True
    then show ?thesis using P(2) [of k] P(3) [of k] ec by (cases "k = n"; cases "k = ?e") auto
  next
    case False
    then have "\<not> (n \<le> k \<and> k < n + places ((p, c) # ps))" using k by auto
    then show ?thesis using R k(1) by (simp add: ring_at_def)
  qed
  moreover have "next_bd_to_process ?w = Some (idx a (n + c))"
  proof (cases "active_tail t = Some (idx a ?e)")
    case True
    then have "idx a ?e = idx a (n + places ((p, c) # ps) + 203)" using R by (simp add: ring_at_def)
    then have "(idx a ?e + 1) mod 204 = (idx a (n + places ((p, c) # ps) + 203) + 1) mod 204" by simp
    then have "idx a (?e + 1) = idx a (n + places ((p, c) # ps) + 203 + 1)" unfolding idx_Suc .
    then have "idx a (n + c) = idx a (n + places ((p, c) # ps))"
      using ec(1) idx_full(2) [of a "n + places ((p, c) # ps)"] by (simp add: ac_simps)
    then show ?thesis using R True by (simp add: ring_at_def links_def)
  next
    case False
    then show ?thesis using R idx_Suc [of a ?e] ec(1) by (simp add: ring_at_def links_def)
  qed
  moreover have "flying ?w a (n + c) ps fly"
  proof (cases fly)
    case None
    then show ?thesis using R by (simp add: ring_at_def flying_def)
  next
    case (Some g)
    then have "ps \<noteq> []" using f by simp
    then show ?thesis
      using R Some frame_of_cong [of "map (idx a) [n + (c + places (butlast ps)) ..< n + (c + places ps)]" ?w t]
      by (simp add: ring_at_def flying_def Let_def add.assoc)
  qed
  moreover obtain tl where "active_tail t = Some tl" using R by (auto simp: ring_at_def)
  ultimately show "ring_at ?w a (n + c) ps fly" using R le by (simp add: ring_at_def links_def add.assoc)
qed

text \<open>The handler releases the buffers of all pending packets, in order, once the engine is done with the last.\<close>

lemma tx_loop_ring:
  assumes dma: "emac_dma dma" and "ring_at t a n ps fly"
  shows "\<exists>w. tx_loop dma t = Some w \<and> ring_at w a (n + places ps) [] None \<and>
    tx_released w = tx_released t @ map fst ps \<and> tx_wire w = tx_wire t @ in_air fly"
  using assms(2)
proof (induction ps arbitrary: t n fly)
  case Nil
  then have "fly = None" by (cases fly) (simp_all add: ring_at_def flying_def Let_def)
  moreover have "\<not> bd_has EMAC_BUF_DESC_SOP (idx a n) t"
  proof (cases "n = 204")
    case True
    then have "idx a n = idx a 0" using idx_full(2) [of a 0] by simp
    then show ?thesis using Nil True by (simp add: ring_at_def)
  next
    case False
    then show ?thesis using Nil by (simp add: ring_at_def)
  qed
  moreover have "next_bd_to_process t = Some (idx a n)" using Nil by (simp add: ring_at_def)
  ultimately show ?case using tx_loop_stop [of t] Nil by (simp add: in_air_def)
next
  case (Cons x ps)
  obtain p c where x: "x = (p, c)" by force
  have next_sop: "next_bd_to_process t = Some (idx a n)" "bd_has EMAC_BUF_DESC_SOP (idx a n) t"
    using Cons.prems x by (simp_all add: ring_at_def)
  obtain u fly' where u: "wait_owner dma (idx a n) t = Some u" "ring_at u a n ((p, c) # ps) fly'" "fly' = None \<or> ps \<noteq> []"
    "tx_released u = tx_released t" "tx_wire u @ in_air fly' = tx_wire t @ in_air fly"
  proof (cases "fly \<noteq> None \<and> ps = []")
    case True
    then obtain f where f: "fly = Some f" by blast
    have R: "ring_at t a n [(p, c)] (Some f)" using Cons.prems x True f by simp
    obtain js where js: "ring_at (finished js t) a n [(p, c)] None" "frame_of t js = f" "in_flight t js" "hd js = idx a n"
      using engine_done [OF dma R] by auto
    have "bd_has EMAC_BUF_DESC_OWNER (idx a n) t" using R by (simp add: ring_at_def flying_def Let_def)
    then have "wait_owner dma (idx a n) t = Some (finished js t)" using wait_owner_busy [OF dma js(3,4)] by simp
    with js True f show ?thesis by (intro that [of "finished js t" None]) (simp_all add: in_air_def)
  next
    case False
    have "\<not> bd_has EMAC_BUF_DESC_OWNER (idx a n) t"
      using Cons.prems x False by (cases fly) (auto simp: ring_at_def flying_def Let_def)
    with Cons.prems x False show ?thesis by (intro that [of t fly]) (auto simp: wait_owner_idle)
  qed
  have "find_eop (Some (idx a n)) u = Some (idx a (n + c - 1))"
  proof (rule find_eop_packet)
    have le: "n + c + places ps \<le> 204" using u(2) by (simp add: ring_at_def add.assoc)
    show "\<not> bd_has EMAC_BUF_DESC_EOP (idx a k) u \<and> tb_next (tx_bd u (idx a k)) = Some (idx a (k + 1))" if "n \<le> k" "k + 1 < n + c" for k
      using ring_links [OF u(2), of k] that le u(2) by (simp add: ring_at_def)
  qed (use u(2) in \<open>simp_all add: ring_at_def\<close>)
  note step = tx_loop_step [OF next_sop u(1) this]
  note adv = ring_advance [OF u(2,3)]
  obtain w where w: "tx_loop dma (done_packet (idx a n) (idx a (n + c - 1)) u) = Some w" "ring_at w a (n + c + places ps) [] None"
    "tx_released w = tx_released u @ [p] @ map fst ps" "tx_wire w = tx_wire u @ in_air fly'"
    using Cons.IH [OF adv(1)] adv(2) by auto
  with step u(4,5) x show ?case by (auto simp: add.assoc)
qed

lemma ring_rebase:
  assumes "ring_at w a n [] None"
  shows "ring_at w (idx a n) 0 [] None"
proof -
  have "\<exists>j < 204. idx (idx a n) k = idx a j" for k using idx_surj [of a "idx (idx a n) k"] assms by (simp add: ring_at_def)
  then have "\<not> bd_has EMAC_BUF_DESC_SOP (idx a (n + k)) w \<and> \<not> bd_has EMAC_BUF_DESC_EOP (idx a (n + k)) w" for k
    using assms by (simp add: ring_at_def) (metis)
  then show ?thesis using assms by (simp add: ring_at_def flying_def)
qed

end
