(* ===== verification/Emac_Driver.thy ===== *)
theory Emac_Driver
  imports Emac_Ring Etharp
begin

text \<open>
  The transmit side of the Ethernet driver as a queue: \<open>hdkif_output\<close> on the descriptor ring, the interrupt, and any order in which
  they occur. The ring does what the link model of the other theories says.
\<close>

section \<open>The ring after initialisation\<close>

lemma init_bds_keeps [simp]:
  "free_head (init_bds k i t) = free_head t" "active_tail (init_bds k i t) = active_tail t"
  "next_bd_to_process (init_bds k i t) = next_bd_to_process t" "tx_hdp (init_bds k i t) = tx_hdp t"
  "tx_wire (init_bds k i t) = tx_wire t" "tx_released (init_bds k i t) = tx_released t"
  by (induction k i t rule: init_bds.induct) simp_all

lemma init_bds_bd:
  "tb_next (tx_bd (init_bds k i t) j) = (if i \<le> j \<and> j < i + k then Some (j + 1) else tb_next (tx_bd t j)) \<and>
   tb_flags (tx_bd (init_bds k i t) j) = (if i \<le> j \<and> j < i + k then 0 else tb_flags (tx_bd t j))"
proof (induction k i t rule: init_bds.induct)
  case (2 k i t)
  then show ?case by (cases "j = i") auto
qed auto

lemma no_flags: "tb_flags (tx_bd t i) = 0 \<Longrightarrow> mark f \<Longrightarrow> \<not> bd_has f i t"
proof -
  assume "tb_flags (tx_bd t i) = 0" "mark f"
  moreover obtain k where "\<And>w. w AND f = f \<longleftrightarrow> bit w k" using mark_bit [OF \<open>mark f\<close>] by blast
  ultimately show ?thesis by (simp add: bd_has_def bit_swizzle)
qed

lemma tx_init_ring:
  assumes "tx_hdp t = None"
  shows "ring_at (tx_init t) 0 0 [] None"
proof -
  have bd: "tb_next (tx_bd (tx_init t) i) = Some ((i + 1) mod 204) \<and> tb_flags (tx_bd (tx_init t) i) = 0" if "i < 204" for i
  proof (cases "i = 203")
    case False
    then have "(i + 1) mod 204 = i + 1" using that by simp
    with False that show ?thesis using init_bds_bd [of 204 0 _ i] by (simp add: tx_init_def Let_def)
  qed (use init_bds_bd [of 204 0 _ i] in \<open>simp add: tx_init_def Let_def\<close>)
  then have "\<not> bd_has f (idx 0 k) (tx_init t)" if "mark f" for f k using no_flags [OF _ that] idx_less by blast
  moreover have "active_tail (tx_init t) = None" "tx_hdp (tx_init t) = None" "free_head (tx_init t) = Some 0"
    "next_bd_to_process (tx_init t) = Some 0" using assms by (simp_all add: tx_init_def Let_def)
  ultimately show ?thesis using bd by (simp add: ring_at_def links_def flying_def idx_0)
qed

lemma tx_init_keeps [simp]: "tx_wire (tx_init t) = tx_wire t" "tx_released (tx_init t) = tx_released t"
  by (simp_all add: tx_init_def Let_def)

section \<open>Handing over a packet buffer\<close>

text \<open>
  A packet given to \<open>hdkif_output\<close>: the number of the buffer, its chain, and the bytes in memory behind the payload of its
  first buffer, which are sent when the packet is padded.
\<close>

record tx_job =
  tj_id :: nat
  tj_chain :: pbuf
  tj_behind :: "u8 list"

definition hdkif_output_ring :: "(txch \<Rightarrow> txch) \<Rightarrow> tx_job \<Rightarrow> txch \<Rightarrow> txch option" where
  "hdkif_output_ring dma j t =
     (let p = tj_chain j;
          qs = map ps_payload p
      in if pbuf_tot_len p < MIN_PKT_LEN
         then hdkif_transmit dma (tj_id j) (of_nat MIN_PKT_LEN) (take MIN_PKT_LEN (hd qs @ tj_behind j) # tl qs) t
         else hdkif_transmit dma (tj_id j) (of_nat (pbuf_tot_len p)) qs t)"

text \<open>The packets that the driver sends as they are: a short one is a single buffer with room for the padding.\<close>

definition job_ok :: "tx_job \<Rightarrow> bool" where
  "job_ok j \<longleftrightarrow>
     (let p = tj_chain j
      in p \<noteq> [] \<and> pbuf_tot_len p < 65536 \<and>
         (pbuf_tot_len p < MIN_PKT_LEN \<longrightarrow> length p = 1 \<and> MIN_PKT_LEN \<le> pbuf_tot_len p + length (tj_behind j)))"

definition job_frame :: "tx_job \<Rightarrow> u8 list" where
  "job_frame j =
     (if pbuf_tot_len (tj_chain j) < MIN_PKT_LEN then take MIN_PKT_LEN (pbuf_bytes (tj_chain j) @ tj_behind j)
      else pbuf_bytes (tj_chain j))"

definition job_places :: "tx_job \<Rightarrow> nat" where
  "job_places j = length (tj_chain j)"

lemma seg_le_tot: "s \<in> set p \<Longrightarrow> length (ps_payload s) \<le> pbuf_tot_len p"
  by (induction p) (auto simp: pbuf_tot_len_def)

lemma hdkif_output_transmits:
  assumes "job_ok j"
  obtains tot_len qs where "hdkif_output_ring dma j t = hdkif_transmit dma (tj_id j) tot_len qs t"
    "length qs = job_places j" "qs \<noteq> []" "concat qs = job_frame j" "\<forall>q \<in> set qs. length q < 65536" "unat tot_len = length (concat qs)"
proof (cases "pbuf_tot_len (tj_chain j) < MIN_PKT_LEN")
  case True
  then obtain s where s: "tj_chain j = [s]" "60 \<le> length (ps_payload s) + length (tj_behind j)"
    using assms by (auto simp: job_ok_def Let_def length_Suc_conv MIN_PKT_LEN_def pbuf_tot_len_def)
  have tot: "unat (of_nat MIN_PKT_LEN :: u16) = 60" by (simp add: MIN_PKT_LEN_def)
  have len: "length (ps_payload s) < 60" using True s(1) by (simp add: MIN_PKT_LEN_def pbuf_tot_len_def)
  show ?thesis
    by (rule that [of "of_nat MIN_PKT_LEN" "[take MIN_PKT_LEN (ps_payload s @ tj_behind j)]"])
      (use True s tot len in \<open>auto simp: hdkif_output_ring_def job_places_def job_frame_def pbuf_bytes_def MIN_PKT_LEN_def\<close>)
next
  case False
  have lt: "pbuf_tot_len (tj_chain j) < 65536" "tj_chain j \<noteq> []" using assms by (simp_all add: job_ok_def Let_def)
  have "length (concat (map ps_payload (tj_chain j))) = pbuf_tot_len (tj_chain j)"
    by (simp add: pbuf_tot_len_bytes pbuf_bytes_def)
  moreover have "unat (of_nat (pbuf_tot_len (tj_chain j)) :: u16) = pbuf_tot_len (tj_chain j)"
    using lt(1) by (simp add: unat_of_nat)
  moreover have "length (ps_payload s) < 65536" if "s \<in> set (tj_chain j)" for s using seg_le_tot [OF that] lt(1) by simp
  ultimately show ?thesis
    by (intro that [of "of_nat (pbuf_tot_len (tj_chain j))" "map ps_payload (tj_chain j)"])
      (use False lt in \<open>auto simp: hdkif_output_ring_def Let_def job_places_def job_frame_def pbuf_bytes_def\<close>)
qed

section \<open>The ring is a transmit queue\<close>

definition job_pending :: "tx_job \<Rightarrow> nat \<times> nat" where
  "job_pending j = (tj_id j, job_places j)"

definition tx_rel :: "txch \<Rightarrow> u8 list list \<Rightarrow> nat list \<Rightarrow> tx_job list \<Rightarrow> bool" where
  "tx_rel t ws fs js \<longleftrightarrow>
     (\<exists>a fly. ring_at t a 0 (map job_pending js) fly \<and> ws = tx_wire t @ in_air fly \<and> fs = tx_released t)"

lemma places_jobs [simp]: "places (map job_pending js) = sum_list (map job_places js)"
  by (induction js) (simp_all add: job_pending_def)

lemma ids_jobs [simp]: "map fst (map job_pending js) = map tj_id js"
  by (simp add: job_pending_def)

lemma poll_ring: "emac_dma dma \<Longrightarrow> ring_at t a n ps fly \<Longrightarrow>
    ring_at (dma t) a n ps None \<and> tx_wire (dma t) = tx_wire t @ in_air fly \<and> tx_released (dma t) = tx_released t"
proof (cases fly)
  case None
  assume "emac_dma dma" "ring_at t a n ps fly"
  then have "dma t = t" using None by (simp add: ring_at_def flying_def emac_dma_def)
  then show ?thesis using \<open>ring_at t a n ps fly\<close> None by (simp add: in_air_def)
next
  case (Some f)
  assume "emac_dma dma" "ring_at t a n ps fly"
  then obtain js where "dma t = finished js t" "ring_at (finished js t) a n ps None" "frame_of t js = f"
    using engine_done [of dma t a n ps f] Some by blast
  then show ?thesis using Some by (simp add: in_air_def)
qed

lemma tx_queue_send:
  assumes dma: "emac_dma dma" and rel: "tx_rel t ws fs js" and ok: "job_ok j"
    and cap: "sum_list (map job_places js) + job_places j < 204"
  shows "\<exists>w. hdkif_output_ring dma j t = Some w \<and> tx_rel w (ws @ [job_frame j]) fs (js @ [j])"
proof -
  obtain a fly where R: "ring_at t a 0 (map job_pending js) fly" "ws = tx_wire t @ in_air fly" "fs = tx_released t"
    using rel by (auto simp: tx_rel_def)
  obtain tot_len qs where q: "hdkif_output_ring dma j t = hdkif_transmit dma (tj_id j) tot_len qs t" "length qs = job_places j"
    "qs \<noteq> []" "concat qs = job_frame j" "\<forall>q \<in> set qs. length q < 65536" "unat tot_len = length (concat qs)"
    by (rule hdkif_output_transmits [OF ok])
  have "places (map job_pending js) + length qs < 204" using cap q(2) by simp
  then obtain w where w: "hdkif_transmit dma (tj_id j) tot_len qs t = Some w"
    "ring_at w a 0 (map job_pending js @ [(tj_id j, length qs)]) (Some (concat qs))"
    "tx_wire w = tx_wire t @ in_air fly" "tx_released w = tx_released t"
    using hdkif_transmit_ring [OF dma R(1) _ q(3) _ q(6)] q(5) by blast
  moreover have "(tj_id j, length qs) = job_pending j" by (simp add: job_pending_def q(2))
  ultimately have "tx_rel w (ws @ [job_frame j]) fs (js @ [j])"
    unfolding tx_rel_def using R(2,3) q(4) by (intro exI [of _ a] exI [of _ "Some (concat qs)"]) (simp add: in_air_def)
  with w(1) q(1) show ?thesis by simp
qed

lemma tx_queue_drain:
  assumes "emac_dma dma" and "tx_rel t ws fs js"
  shows "\<exists>w. hdkif_tx_inthandler dma t = Some w \<and> tx_rel w ws (fs @ map tj_id js) []"
proof -
  obtain a fly where R: "ring_at t a 0 (map job_pending js) fly" "ws = tx_wire t @ in_air fly" "fs = tx_released t"
    using assms(2) by (auto simp: tx_rel_def)
  let ?n = "places (map job_pending js)"
  obtain w where w: "tx_loop dma t = Some w" "ring_at w a (0 + ?n) [] None"
    "tx_released w = tx_released t @ map fst (map job_pending js)" "tx_wire w = tx_wire t @ in_air fly"
    using tx_loop_ring [OF assms(1) R(1)] by blast
  have "tx_rel w ws (fs @ map tj_id js) []"
    unfolding tx_rel_def using ring_rebase [OF w(2)] w(3,4) R(2,3)
    by (intro exI [of _ "idx a (0 + ?n)"] exI [of _ None]) (simp only: ids_jobs list.map in_air_def option.case append_Nil2)
  with w(1) show ?thesis by (simp add: hdkif_tx_inthandler_def)
qed

lemma tx_queue_poll: "emac_dma dma \<Longrightarrow> tx_rel t ws fs js \<Longrightarrow> tx_rel (dma t) ws fs js"
  using poll_ring [of dma t] by (fastforce simp: tx_rel_def in_air_def)

lemma tx_queue: "emac_dma dma \<Longrightarrow>
    transmit_queue (hdkif_output_ring dma) (hdkif_tx_inthandler dma) dma job_ok job_places 204 job_frame tj_id tx_rel"
  by unfold_locales (simp_all add: tx_queue_send tx_queue_drain tx_queue_poll)

section \<open>An engine\<close>

text \<open>An engine that walks along the links to the end mark, for at most \<open>NUM_BD\<close> descriptors.\<close>

fun walk_packet :: "nat \<Rightarrow> txch \<Rightarrow> nat \<Rightarrow> nat list" where
  "walk_packet 0 t i = [i]"
| "walk_packet (Suc k) t i =
     (if bd_has EMAC_BUF_DESC_EOP i t then [i]
      else case tb_next (tx_bd t i) of None \<Rightarrow> [i] | Some j \<Rightarrow> i # walk_packet k t j)"

definition dma_model :: "txch \<Rightarrow> txch" where
  "dma_model t = (case tx_hdp t of None \<Rightarrow> t | Some i \<Rightarrow> dma_sent (walk_packet NUM_BD t i) t)"

lemma walk_packet: "packet t js \<Longrightarrow> length js \<le> k \<Longrightarrow> walk_packet k t (hd js) = js"
proof (induction t js arbitrary: k rule: packet.induct)
  case (2 t e)
  then show ?case by (cases k) auto
next
  case (3 t i j js)
  then show ?case by (cases k) auto
qed simp

lemma dma_model: "emac_dma dma_model"
  by (auto simp: emac_dma_def dma_model_def walk_packet simp del: NUM_BD)

interpretation txq: transmit_queue "hdkif_output_ring dma_model" "hdkif_tx_inthandler dma_model" dma_model
    job_ok job_places 204 job_frame tj_id tx_rel
  by (rule tx_queue [OF dma_model])

section \<open>Sequences of packets and interrupts\<close>

definition tx_run :: "(txch \<Rightarrow> txch) \<Rightarrow> tx_job queue_event list \<Rightarrow> txch \<Rightarrow> txch option" where
  "tx_run dma = queue_run (hdkif_output_ring dma) (hdkif_tx_inthandler dma) dma"

definition tx_fits :: "tx_job queue_event list \<Rightarrow> bool" where
  "tx_fits = room_for job_ok job_places NUM_BD 0"

text \<open>The same packets given to the link of the other theories, and a frame of that link on the wire.\<close>

definition link_sends :: "netif \<Rightarrow> tx_job list \<Rightarrow> link_st \<Rightarrow> link_st" where
  "link_sends n js s = fold (\<lambda>j s. snd (hdkif_output n (tj_chain j) s)) js s"

definition carries :: "tx_frame \<Rightarrow> u8 list \<Rightarrow> bool" where
  "carries f w \<longleftrightarrow> length w = tf_len f \<and> take (length (tf_bytes f)) w = tf_bytes f"

definition link_frame :: "nat \<Rightarrow> tx_job \<Rightarrow> tx_frame" where
  "link_frame inst j = \<lparr>tf_inst = inst, tf_bytes = pbuf_bytes (tj_chain j),
     tf_len = (if pbuf_tot_len (tj_chain j) < MIN_PKT_LEN then MIN_PKT_LEN else pbuf_tot_len (tj_chain j))\<rparr>"

lemma link_sends_frames:
  "if_state n = Some inst \<Longrightarrow> lk_tx (link_sends n js s) = lk_tx s @ map (link_frame inst) js"
  by (induction js arbitrary: s) (simp_all add: link_sends_def hdkif_output_def link_frame_def)

lemma job_frame_carries: "job_ok j \<Longrightarrow> carries (link_frame inst j) (job_frame j)"
  by (auto simp: carries_def link_frame_def job_frame_def job_ok_def Let_def pbuf_tot_len_bytes MIN_PKT_LEN_def)

lemma room_for_good: "room_for good cost cap n es \<Longrightarrow> j \<in> set (sent_jobs es) \<Longrightarrow> good j"
  by (induction good cost cap n es rule: room_for.induct) auto

lemma tx_init_rel: "tx_hdp t = None \<Longrightarrow> tx_rel (tx_init t) (tx_wire t) (tx_released t) []"
  unfolding tx_rel_def using tx_init_ring [of t] by (intro exI [of _ 0] exI [of _ None]) (simp add: in_air_def)

lemma tx_rel_air: "tx_rel w ws fs js \<Longrightarrow>
    \<exists>air. ws = tx_wire w @ air \<and> fs = tx_released w \<and> length air = (if tx_hdp w = None then 0 else 1) \<and>
      (js = [] \<longrightarrow> air = [])"
  by (auto simp: tx_rel_def ring_at_def flying_def Let_def in_air_def split: option.splits)

text \<open>
  C28: The descriptor ring implements the link that the other theories send on. After the initialisation of the driver, for
  every sequence of packets given to \<open>hdkif_output\<close>, transmit interrupts and progress of the DMA engine in which the packets
  fit into the descriptors that are not in use: no call hangs in a busy-wait or follows a null pointer, and the frames on the
  wire, followed by the one that is being sent, are those of the link model, in order, complete and padded; the buffers
  that were released are the first of those handed over, each once and in order.
\<close>

theorem ring_implements_link:
  assumes "emac_dma dma" and "tx_hdp t = None" and "tx_wire t = []" and "tx_released t = []" and "tx_fits es"
    and "if_state n = Some inst" and "lk_tx s = []"
  shows "\<exists>w air pend. tx_run dma es (tx_init t) = Some w \<and>
    list_all2 carries (lk_tx (link_sends n (sent_jobs es) s)) (tx_wire w @ air) \<and>
    length air = (if tx_hdp w = None then 0 else 1) \<and> tx_released w @ pend = map tj_id (sent_jobs es)"
proof -
  have rel: "tx_rel (tx_init t) [] [] []" using tx_init_rel assms(2-4) by metis
  have room: "room_for job_ok job_places 204 (sum_list (map job_places [])) es" using assms(5) by (simp add: tx_fits_def)
  obtain w fs ps where w: "tx_run dma es (tx_init t) = Some w" "tx_rel w (map job_frame (sent_jobs es)) fs ps"
    "fs @ map tj_id ps = map tj_id (sent_jobs es)"
    using transmit_queue.run_rel [OF tx_queue [OF assms(1)] rel room] by (auto simp: tx_run_def)
  have "list_all2 carries (map (link_frame inst) (sent_jobs es)) (map job_frame (sent_jobs es))"
    using room_for_good [OF room] job_frame_carries by (auto simp: list_all2_conv_all_nth)
  moreover obtain air where "map job_frame (sent_jobs es) = tx_wire w @ air" "fs = tx_released w"
    "length air = (if tx_hdp w = None then 0 else 1)" using tx_rel_air [OF w(2)] by blast
  moreover have "lk_tx (link_sends n (sent_jobs es) s) = map (link_frame inst) (sent_jobs es)"
    using link_sends_frames [OF assms(6)] assms(7) by simp
  ultimately show ?thesis using w(1,3) by (intro exI [of _ w] exI [of _ air] exI [of _ "map tj_id ps"]) simp
qed

text \<open>
  C29: The transmit interrupt returns and leaves nothing behind. After any such sequence of events, once the interrupt handler
  has run, every frame is on the wire, every packet buffer was released exactly once, in the order in which they were handed
  over, and the engine is idle.
\<close>

theorem tx_interrupt_drains:
  assumes "emac_dma dma" and "tx_hdp t = None" and "tx_wire t = []" and "tx_released t = []" and "tx_fits es"
  shows "\<exists>w. tx_run dma (es @ [Drain]) (tx_init t) = Some w \<and> tx_wire w = map job_frame (sent_jobs es) \<and>
    tx_released w = map tj_id (sent_jobs es) \<and> tx_hdp w = None"
proof -
  have rel: "tx_rel (tx_init t) [] [] []" using tx_init_rel assms(2-4) by metis
  have "room_for job_ok job_places 204 0 es" using assms(5) by (simp add: tx_fits_def)
  then obtain w where w: "tx_run dma (es @ [Drain]) (tx_init t) = Some w"
    "tx_rel w (map job_frame (sent_jobs es)) (map tj_id (sent_jobs es)) []"
    using transmit_queue.run_drained [OF tx_queue [OF assms(1)] rel] by (auto simp: tx_run_def)
  have "tx_hdp w = None" using w(2) by (auto simp: tx_rel_def ring_at_def flying_def split: option.splits)
  then show ?thesis using w tx_rel_air [OF w(2)] by simp
qed

text \<open>Two packets, the first short and the second in two buffers, with an interrupt in between.\<close>

definition tx_example :: "tx_job queue_event list" where
  "tx_example =
     [Send \<lparr>tj_id = 7, tj_chain = [\<lparr>ps_type = PBUF_RAM, ps_hidden = [], ps_payload = replicate 42 1\<rparr>], tj_behind = replicate 20 0\<rparr>,
      Poll, Drain,
      Send \<lparr>tj_id = 9, tj_chain = [\<lparr>ps_type = PBUF_POOL, ps_hidden = [], ps_payload = replicate 50 2\<rparr>,
        \<lparr>ps_type = PBUF_POOL, ps_hidden = [], ps_payload = replicate 30 3\<rparr>], tj_behind = []\<rparr>]"

definition tx_blank :: txch where
  "tx_blank = \<lparr>tx_bd = \<lambda>_. \<lparr>tb_next = None, tb_buf = [], tb_len = 0, tb_flags = 0, tb_pbuf = 0\<rparr>, free_head = None,
     active_tail = None, next_bd_to_process = None, tx_hdp = None, tx_wire = [], tx_released = []\<rparr>"

definition tx_example_link :: link_st where
  "tx_example_link = \<lparr>arp_table = [], etharp_cached_entry = 0, lk_mem = \<lparr>ms_alloc = [], ms_junk = \<lambda>_. 0\<rparr>, lk_tx = [], lk_fault = False\<rparr>"

lemma tx_example_fits: "tx_fits tx_example"
  by (simp add: tx_fits_def tx_example_def job_ok_def job_places_def pbuf_tot_len_def MIN_PKT_LEN_def)

lemma tx_blank: "tx_hdp tx_blank = None" "tx_wire tx_blank = []" "tx_released tx_blank = []"
  by (simp_all add: tx_blank_def)

lemma ring_implements_link_witness:
  "\<exists>w air pend. tx_run dma_model tx_example (tx_init tx_blank) = Some w \<and>
    list_all2 carries (lk_tx (link_sends (netif_zero\<lparr>if_state := Some 0\<rparr>) (sent_jobs tx_example) tx_example_link)) (tx_wire w @ air) \<and>
    length air = (if tx_hdp w = None then 0 else 1) \<and> tx_released w @ pend = [7, 9]"
  using ring_implements_link [OF dma_model tx_blank tx_example_fits, of "netif_zero\<lparr>if_state := Some 0\<rparr>" 0 tx_example_link]
  by (simp add: tx_example_link_def tx_example_def)

lemma tx_interrupt_drains_witness:
  "\<exists>w. tx_run dma_model (tx_example @ [Drain]) (tx_init tx_blank) = Some w \<and>
    tx_wire w = [replicate 42 1 @ replicate 18 0, replicate 50 2 @ replicate 30 3] \<and> tx_released w = [7, 9] \<and> tx_hdp w = None"
proof -
  have "map job_frame (sent_jobs tx_example) = [replicate 42 1 @ replicate 18 0, replicate 50 2 @ replicate 30 3]"
    by (simp add: tx_example_def job_frame_def pbuf_tot_len_def pbuf_bytes_def MIN_PKT_LEN_def)
  then show ?thesis using tx_interrupt_drains [OF dma_model tx_blank tx_example_fits] by (simp add: tx_example_def)
qed

section \<open>Packets that the driver does not send as they are\<close>

text \<open>
  A short packet in more than one buffer: only the length of its first buffer is raised to the minimum, and the descriptors
  then hold more bytes than the length that the first descriptor announces.
\<close>

lemma short_chain_mismatch:
  assumes "tj_chain j = s # s' # p" and "ps_payload s' \<noteq> []" and "pbuf_tot_len (tj_chain j) < MIN_PKT_LEN"
    and "MIN_PKT_LEN \<le> length (ps_payload s @ tj_behind j)"
  shows "\<exists>qs. hdkif_output_ring dma j t = hdkif_transmit dma (tj_id j) (of_nat MIN_PKT_LEN) qs t \<and>
    MIN_PKT_LEN < length (concat qs)"
proof -
  let ?qs = "take MIN_PKT_LEN (ps_payload s @ tj_behind j) # map ps_payload (s' # p)"
  have "length (take MIN_PKT_LEN (ps_payload s @ tj_behind j)) = MIN_PKT_LEN" using assms(4) by simp
  moreover have "0 < length (ps_payload s')" using assms(2) by simp
  ultimately have "MIN_PKT_LEN < length (concat ?qs)" by (simp only: concat.simps list.map length_append)
  moreover have "hdkif_output_ring dma j t = hdkif_transmit dma (tj_id j) (of_nat MIN_PKT_LEN) ?qs t"
    using assms(1,3) by (simp add: hdkif_output_ring_def Let_def)
  ultimately show ?thesis by blast
qed

text \<open>The driver does not look whether the descriptor at \<open>free_head\<close> is in use: it takes it in any case.\<close>

lemma load_overwrites:
  assumes "free_head t = Some i"
  shows "\<exists>u. load_packet p tot_len [q] t = Some (i, i, u) \<and> tb_pbuf (tx_bd u i) = p"
  using assms by (simp add: load_packet_def Let_def)

end
