(* ===== verification/Timers.thy ===== *)
theory Timers
  imports Etharp "HOL-Library.Monad_Syntax" "HOL-Library.Multiset"
begin

text \<open>
  The timer list (\<open>core/timers.c\<close>, for \<open>NO_SYS\<close>): one-shot timers in a list of time differences, and the cyclic timers of this
  configuration. The list is shown to be the sorted list of deadlines, and \<open>sys_check_timeouts\<close> to run each cyclic timer as often as
  it is due. (No part of the program calls \<open>sys_check_timeouts\<close>.)
\<close>

section \<open>The list\<close>

datatype sys_timeout_handler = Arp_timer | Dhcp_timer_coarse | Dhcp_timer_fine

record sys_timeo =
  to_time :: u32
  to_h :: "sys_timeout_handler option"
  to_arg :: "nat option"

text \<open>\<open>to_free\<close> is the number of free elements of the pool \<open>MEMP_SYS_TIMEOUT\<close>.\<close>

record timers_st =
  next_timeout :: "sys_timeo list"
  timeouts_last_time :: u32
  to_free :: nat

definition MEMP_NUM_SYS_TIMEOUT :: nat where "MEMP_NUM_SYS_TIMEOUT = 4"
definition ARP_TMR_INTERVAL :: u32 where "ARP_TMR_INTERVAL = 5000"
definition DHCP_COARSE_TIMER_MSECS :: u32 where "DHCP_COARSE_TIMER_MSECS = 60000"
definition DHCP_FINE_TIMER_MSECS :: u32 where "DHCP_FINE_TIMER_MSECS = 500"

text \<open>The loop of \<open>sys_timeout\<close> that looks for the place of the new element.\<close>

fun timeout_walk :: "sys_timeo \<Rightarrow> sys_timeo list \<Rightarrow> sys_timeo list" where
  "timeout_walk x [] = []"
| "timeout_walk x (t # ts) =
     (let x = x\<lparr>to_time := to_time x - to_time t\<rparr>
      in case ts of
           [] \<Rightarrow> [t, x]
         | u # us \<Rightarrow>
             if to_time u > to_time x then t # x # u\<lparr>to_time := to_time u - to_time x\<rparr> # us
             else t # timeout_walk x ts)"

definition sys_timeout :: "u32 \<Rightarrow> sys_timeout_handler option \<Rightarrow> nat option \<Rightarrow> timers_st \<Rightarrow> timers_st" where
  "sys_timeout msecs h arg s =
     (if to_free s = 0 then s
      else
        (let x = \<lparr>to_time = msecs, to_h = h, to_arg = arg\<rparr>; s = s\<lparr>to_free := to_free s - 1\<rparr>
         in case next_timeout s of
              [] \<Rightarrow> s\<lparr>next_timeout := [x]\<rparr>
            | t # ts \<Rightarrow>
                if to_time t > msecs then s\<lparr>next_timeout := x # t\<lparr>to_time := to_time t - msecs\<rparr> # ts\<rparr>
                else s\<lparr>next_timeout := timeout_walk x (t # ts)\<rparr>))"

fun unlink_timeout :: "sys_timeout_handler option \<Rightarrow> nat option \<Rightarrow> sys_timeo list \<Rightarrow> sys_timeo list option" where
  "unlink_timeout h arg [] = None"
| "unlink_timeout h arg (t # ts) =
     (if to_h t = h \<and> to_arg t = arg
      then Some (case ts of [] \<Rightarrow> [] | u # us \<Rightarrow> u\<lparr>to_time := to_time u + to_time t\<rparr> # us)
      else map_option (\<lambda>us. t # us) (unlink_timeout h arg ts))"

definition sys_untimeout :: "sys_timeout_handler option \<Rightarrow> nat option \<Rightarrow> timers_st \<Rightarrow> timers_st" where
  "sys_untimeout h arg s =
     (case unlink_timeout h arg (next_timeout s) of
        None \<Rightarrow> s
      | Some ts \<Rightarrow> s\<lparr>next_timeout := ts, to_free := to_free s + 1\<rparr>)"

definition sys_restart_timeouts :: "u32 \<Rightarrow> timers_st \<Rightarrow> timers_st" where
  "sys_restart_timeouts now s = s\<lparr>timeouts_last_time := now\<rparr>"

definition sys_timeouts_init :: "u32 \<Rightarrow> timers_st \<Rightarrow> timers_st" where
  "sys_timeouts_init now s =
     (let s = sys_timeout ARP_TMR_INTERVAL (Some Arp_timer) None s;
          s = sys_timeout DHCP_COARSE_TIMER_MSECS (Some Dhcp_timer_coarse) None s;
          s = sys_timeout DHCP_FINE_TIMER_MSECS (Some Dhcp_timer_fine) None s
      in s\<lparr>timeouts_last_time := now\<rparr>)"

section \<open>The handlers\<close>

text \<open>
  The timers with what their handlers act on. The DHCP routines visit the clients of the interfaces, of which there are none.
\<close>

record timed_st =
  tm_timers :: timers_st
  tm_link :: link_st

fun run_handler :: "sys_timeout_handler \<Rightarrow> timed_st \<Rightarrow> timed_st" where
  "run_handler Arp_timer s =
     (let s = s\<lparr>tm_link := etharp_tmr (tm_link s)\<rparr>
      in s\<lparr>tm_timers := sys_timeout ARP_TMR_INTERVAL (Some Arp_timer) None (tm_timers s)\<rparr>)"
| "run_handler Dhcp_timer_coarse s =
     s\<lparr>tm_timers := sys_timeout DHCP_COARSE_TIMER_MSECS (Some Dhcp_timer_coarse) None (tm_timers s)\<rparr>"
| "run_handler Dhcp_timer_fine s =
     s\<lparr>tm_timers := sys_timeout DHCP_FINE_TIMER_MSECS (Some Dhcp_timer_fine) None (tm_timers s)\<rparr>"

text \<open>The loop of \<open>sys_check_timeouts\<close>; it might not end, because the handlers start new timers.\<close>

partial_function (option) check_loop :: "u32 \<Rightarrow> u32 \<Rightarrow> timed_st \<Rightarrow> timed_st option" where
  "check_loop now diff s =
     (case next_timeout (tm_timers s) of
        [] \<Rightarrow> Some s
      | t # ts \<Rightarrow>
          if to_time t \<le> diff then
            (let m = tm_timers s;
                 s = s\<lparr>tm_timers := m\<lparr>timeouts_last_time := now, next_timeout := ts, to_free := to_free m + 1\<rparr>\<rparr>
             in check_loop now (diff - to_time t) (case to_h t of None \<Rightarrow> s | Some h \<Rightarrow> run_handler h s))
          else Some s)"

definition sys_check_timeouts :: "u32 \<Rightarrow> timed_st \<Rightarrow> timed_st option" where
  "sys_check_timeouts now s =
     (if next_timeout (tm_timers s) = [] then Some s
      else check_loop now (now - timeouts_last_time (tm_timers s)) s)"

section \<open>Deadlines\<close>

text \<open>The deadlines that the list stands for, when its time starts at \<open>b\<close>.\<close>

fun deadlines :: "nat \<Rightarrow> sys_timeo list \<Rightarrow> (nat \<times> sys_timeout_handler option \<times> nat option) list" where
  "deadlines b [] = []"
| "deadlines b (t # ts) = (b + unat (to_time t), to_h t, to_arg t) # deadlines (b + unat (to_time t)) ts"

text \<open>Insertion behind all deadlines that are not later.\<close>

fun add_deadline :: "nat \<times> 'k \<Rightarrow> (nat \<times> 'k) list \<Rightarrow> (nat \<times> 'k) list" where
  "add_deadline d [] = [d]"
| "add_deadline d (e # es) = (if fst d < fst e then d # e # es else e # add_deadline d es)"

lemma mset_add_deadline [simp]: "mset (add_deadline d es) = add_mset d (mset es)"
  by (induction es) auto

lemma set_add_deadline [simp]: "set (add_deadline d es) = insert d (set es)"
  by (induction es) auto

lemma deadlines_ge: "e \<in> set (deadlines b ts) \<Longrightarrow> b \<le> fst e"
  by (induction ts arbitrary: b) fastforce+

lemma deadlines_sorted: "sorted (map fst (deadlines b ts))"
  by (induction ts arbitrary: b) (auto dest: deadlines_ge)

lemma deadlines_walk:
  "to_time t \<le> to_time x \<Longrightarrow>
   deadlines b (timeout_walk x (t # ts)) = add_deadline (b + unat (to_time x), to_h x, to_arg x) (deadlines b (t # ts))"
proof (induction ts arbitrary: t x b)
  case Nil
  then show ?case by (simp add: unat_sub word_le_nat_alt)
next
  case (Cons u us)
  let ?x = "x\<lparr>to_time := to_time x - to_time t\<rparr>"
  have le: "unat (to_time t) \<le> unat (to_time x)" "unat (to_time ?x) = unat (to_time x) - unat (to_time t)"
    using Cons.prems by (simp_all add: unat_sub word_le_nat_alt)
  show ?case
  proof (cases "to_time ?x < to_time u")
    case True
    then have "unat (to_time ?x) \<le> unat (to_time u)" "unat (to_time u - to_time ?x) = unat (to_time u) - unat (to_time ?x)"
      "unat (to_time ?x) < unat (to_time u)"
      by (simp_all add: unat_sub word_le_nat_alt word_less_nat_alt order_less_imp_le)
    with True le show ?thesis by (auto simp: Let_def ac_simps)
  next
    case False
    then have "to_time u \<le> to_time ?x" by simp
    have eq: "b + unat (to_time t) + unat (to_time ?x) = b + unat (to_time x)" using le by simp
    have IH: "deadlines (b + unat (to_time t)) (timeout_walk ?x (u # us)) =
        add_deadline (b + unat (to_time x), to_h x, to_arg x) (deadlines (b + unat (to_time t)) (u # us))"
      using Cons.IH [OF \<open>to_time u \<le> to_time ?x\<close>, of "b + unat (to_time t)"] unfolding eq by simp
    have "timeout_walk x (t # u # us) = t # timeout_walk ?x (u # us)"
      using False by (subst timeout_walk.simps(2)) (simp add: Let_def del: timeout_walk.simps)
    moreover have "\<not> b + unat (to_time x) < b + unat (to_time t)" using le by simp
    ultimately show ?thesis using IH by (simp del: timeout_walk.simps)
  qed
qed

lemma sys_timeout_deadlines:
  assumes "0 < to_free s"
  shows "deadlines b (next_timeout (sys_timeout msecs h arg s)) = add_deadline (b + unat msecs, h, arg) (deadlines b (next_timeout s))"
proof (cases "next_timeout s")
  case Nil
  with assms show ?thesis by (simp add: sys_timeout_def)
next
  case (Cons t ts)
  let ?x = "\<lparr>to_time = msecs, to_h = h, to_arg = arg\<rparr>"
  show ?thesis
  proof (cases "msecs < to_time t")
    case True
    then have "unat msecs \<le> unat (to_time t)" "unat (to_time t - msecs) = unat (to_time t) - unat msecs" "unat msecs < unat (to_time t)"
      by (simp_all add: unat_sub word_le_nat_alt word_less_nat_alt order_less_imp_le)
    with True Cons assms show ?thesis by (simp add: sys_timeout_def Let_def)
  next
    case False
    then have "next_timeout (sys_timeout msecs h arg s) = timeout_walk ?x (t # ts)"
      using Cons assms by (simp add: sys_timeout_def Let_def del: timeout_walk.simps)
    moreover have "to_time t \<le> to_time ?x" using False by simp
    ultimately show ?thesis using deadlines_walk [of t ?x b ts] Cons by (simp del: timeout_walk.simps)
  qed
qed

text \<open>Removal of the first element with the given handler and argument keeps all other deadlines.\<close>

fun remove_deadline :: "'k \<Rightarrow> (nat \<times> 'k) list \<Rightarrow> (nat \<times> 'k) list" where
  "remove_deadline k [] = []"
| "remove_deadline k (e # es) = (if snd e = k then es else e # remove_deadline k es)"

lemma unlink_deadlines:
  "list_all (\<lambda>e. fst e < b + 4294967296) (deadlines b ts) \<Longrightarrow>
   deadlines b (case unlink_timeout h arg ts of None \<Rightarrow> ts | Some us \<Rightarrow> us) = remove_deadline (h, arg) (deadlines b ts)"
proof (induction h arg ts arbitrary: b rule: unlink_timeout.induct)
  case (2 h arg t ts)
  show ?case
  proof (cases "to_h t = h \<and> to_arg t = arg")
    case True
    then show ?thesis
    proof (cases ts)
      case (Cons u us)
      with 2 have "unat (to_time u) + unat (to_time t) < 4294967296" by simp
      then have "unat (to_time u + to_time t) = unat (to_time u) + unat (to_time t)" by (simp add: unat_word_ariths)
      with True Cons show ?thesis by (simp add: ac_simps)
    qed simp
  next
    case False
    have "list_all (\<lambda>e. fst e < b + unat (to_time t) + 4294967296) (deadlines (b + unat (to_time t)) ts)"
      using 2(2) by (auto simp: list_all_iff)
    from 2(1) [OF False this] False show ?thesis by (auto split: option.splits)
  qed
qed simp

lemma sys_untimeout_deadlines:
  "list_all (\<lambda>e. fst e < b + 4294967296) (deadlines b (next_timeout s)) \<Longrightarrow>
   deadlines b (next_timeout (sys_untimeout h arg s)) = remove_deadline (h, arg) (deadlines b (next_timeout s))"
  using unlink_deadlines [of b "next_timeout s" h arg] by (auto simp: sys_untimeout_def split: option.splits)

section \<open>Running the timers\<close>

fun period :: "sys_timeout_handler \<Rightarrow> nat" where
  "period Arp_timer = 5000"
| "period Dhcp_timer_coarse = 60000"
| "period Dhcp_timer_fine = 500"

lemma period_pos [simp]: "0 < period h" by (cases h) simp_all

text \<open>How often a cyclic timer with its next deadline at \<open>d\<close> is due up to \<open>D\<close>, and its first deadline behind \<open>D\<close>.\<close>

fun due :: "nat \<Rightarrow> nat \<times> sys_timeout_handler option \<times> nat option \<Rightarrow> nat" where
  "due D (d, h, a) = (if d \<le> D then (case h of None \<Rightarrow> 1 | Some h \<Rightarrow> (D - d) div period h + 1) else 0)"

fun advance :: "nat \<Rightarrow> nat \<times> sys_timeout_handler option \<times> nat option \<Rightarrow> nat \<times> sys_timeout_handler option \<times> nat option" where
  "advance D (d, h, a) = (d + due D (d, h, a) * (case h of None \<Rightarrow> 0 | Some h \<Rightarrow> period h), h, a)"

definition arp_due :: "nat \<Rightarrow> (nat \<times> sys_timeout_handler option \<times> nat option) list \<Rightarrow> nat" where
  "arp_due D es = sum_list (map (due D) (filter (\<lambda>e. fst (snd e) = Some Arp_timer) es))"

definition cyclic :: "sys_timeo list \<Rightarrow> bool" where
  "cyclic ts \<longleftrightarrow> list_all (\<lambda>t. to_h t \<noteq> None \<and> to_arg t = None) ts"

lemma due_step:
  assumes "d \<le> D"
  shows "due D (d, Some h, a) = Suc (due D (d + period h, Some h, a))"
    "advance D (d, Some h, a) = advance D (d + period h, Some h, a)"
proof -
  have "(D - d) div period h = (if D - d < period h then 0 else Suc ((D - d - period h) div period h))"
    by (simp add: div_if)
  moreover have "D - d < period h \<longleftrightarrow> \<not> d + period h \<le> D" using assms by arith
  ultimately show step: "due D (d, Some h, a) = Suc (due D (d + period h, Some h, a))"
    using assms by (simp add: diff_diff_left)
  show "advance D (d, Some h, a) = advance D (d + period h, Some h, a)"
    by (simp only: advance.simps step) simp
qed

lemma advance_later: "D < fst e \<Longrightarrow> advance D e = e \<and> due D e = 0"
  by (cases e) auto

lemma run_handler_effect:
  assumes "0 < to_free (tm_timers s)"
  shows "deadlines b (next_timeout (tm_timers (run_handler h s))) =
      add_deadline (b + period h, Some h, None) (deadlines b (next_timeout (tm_timers s)))"
    "tm_link (run_handler h s) = (if h = Arp_timer then etharp_tmr (tm_link s) else tm_link s)"
    "to_free (tm_timers (run_handler h s)) = to_free (tm_timers s) - 1"
    "timeouts_last_time (tm_timers (run_handler h s)) = timeouts_last_time (tm_timers s)"
  using assms sys_timeout_deadlines [of "tm_timers s" b]
  by (cases h; simp add: ARP_TMR_INTERVAL_def DHCP_COARSE_TIMER_MSECS_def DHCP_FINE_TIMER_MSECS_def)
    (cases h; simp add: sys_timeout_def Let_def split: list.split)+

lemma cyclic_deadlines: "cyclic ts \<longleftrightarrow> (\<forall>e \<in> set (deadlines b ts). fst (snd e) \<noteq> None \<and> snd (snd e) = None)"
  by (induction ts arbitrary: b) (auto simp: cyclic_def)

definition all_due :: "nat \<Rightarrow> (nat \<times> sys_timeout_handler option \<times> nat option) list \<Rightarrow> nat" where
  "all_due D es = sum_list (map (due D) es)"

lemma all_due_mset: "mset es = mset fs \<Longrightarrow> all_due D es = all_due D fs"
  unfolding all_due_def by (metis mset_map sum_mset_sum_list)

lemma arp_due_mset: "mset es = mset fs \<Longrightarrow> arp_due D es = arp_due D fs"
  unfolding arp_due_def all_due_def [symmetric] by (rule all_due_mset) simp

lemma all_due_add: "all_due D (add_deadline e es) = due D e + all_due D es"
  using all_due_mset [of "add_deadline e es" "e # es" D] by (simp add: all_due_def)

lemma arp_due_add: "arp_due D (add_deadline e es) = (if fst (snd e) = Some Arp_timer then due D e else 0) + arp_due D es"
  using arp_due_mset [of "add_deadline e es" "e # es" D] by (simp add: arp_due_def)

lemma check_loop_runs:
  assumes "cyclic (next_timeout (tm_timers s))" and "D = b + unat diff"
  defines "es \<equiv> deadlines b (next_timeout (tm_timers s))"
  shows "\<exists>w b'. check_loop now diff s = Some w \<and> b \<le> b' \<and> b' \<le> D \<and>
    mset (deadlines b' (next_timeout (tm_timers w))) = image_mset (advance D) (mset es) \<and>
    tm_link w = (etharp_tmr ^^ arp_due D es) (tm_link s) \<and> to_free (tm_timers w) = to_free (tm_timers s) \<and>
    (if all_due D es = 0 then w = s \<and> b' = b else timeouts_last_time (tm_timers w) = now)"
  using assms(1,2) unfolding es_def
proof (induction "all_due D (deadlines b (next_timeout (tm_timers s)))" arbitrary: s b diff rule: less_induct)
  case less
  let ?es = "deadlines b (next_timeout (tm_timers s))"
  have late: "\<exists>w b'. check_loop now diff s = Some w \<and> b \<le> b' \<and> b' \<le> D \<and>
      mset (deadlines b' (next_timeout (tm_timers w))) = image_mset (advance D) (mset ?es) \<and>
      tm_link w = (etharp_tmr ^^ arp_due D ?es) (tm_link s) \<and> to_free (tm_timers w) = to_free (tm_timers s) \<and>
      (if all_due D ?es = 0 then w = s \<and> b' = b else timeouts_last_time (tm_timers w) = now)"
    if stop: "check_loop now diff s = Some s" and all: "\<forall>e \<in> set ?es. D < fst e"
  proof -
    have "all_due D ?es = 0" "arp_due D ?es = 0" using all advance_later by (auto simp: all_due_def arp_due_def)
    moreover have "map (advance D) ?es = ?es" using all advance_later by (intro map_idI) blast
    then have "image_mset (advance D) (mset ?es) = mset ?es" by (metis mset_map)
    ultimately show ?thesis using stop less.prems(2) by (intro exI [of _ s] exI [of _ b]) simp
  qed
  show ?case
  proof (cases "next_timeout (tm_timers s)")
    case Nil
    then show ?thesis by (intro late) (subst check_loop.simps, simp_all)
  next
    case (Cons t ts)
    let ?d = "b + unat (to_time t)"
    show ?thesis
    proof (cases "to_time t \<le> diff")
      case False
      then have "D < ?d" using less.prems(2) by (simp add: word_le_nat_alt)
      then have "\<forall>e \<in> set ?es. D < fst e" using Cons deadlines_ge [of _ ?d ts] by fastforce
      then show ?thesis using Cons False by (intro late) (subst check_loop.simps, simp_all)
    next
      case True
      then have le: "unat (to_time t) \<le> unat diff" by (simp add: word_le_nat_alt)
      obtain h where h: "to_h t = Some h" "to_arg t = None" using less.prems(1) Cons by (auto simp: cyclic_def)
      let ?m = "tm_timers s"
      let ?s1 = "s\<lparr>tm_timers := ?m\<lparr>timeouts_last_time := now, next_timeout := ts, to_free := to_free ?m + 1\<rparr>\<rparr>"
      let ?s2 = "run_handler h ?s1" and ?e = "(?d + period h, Some h, None :: nat option)"
      have eff: "deadlines ?d (next_timeout (tm_timers ?s2)) = add_deadline ?e (deadlines ?d ts)"
        "tm_link ?s2 = (if h = Arp_timer then etharp_tmr (tm_link s) else tm_link s)"
        "to_free (tm_timers ?s2) = to_free ?m" "timeouts_last_time (tm_timers ?s2) = now"
        using run_handler_effect(1) [of ?s1 ?d h] run_handler_effect(2-4) [of ?s1 h] by simp_all
      have D: "D = ?d + unat (diff - to_time t)" "?d \<le> D" using less.prems(2) le True by (simp_all add: unat_sub)
      have es: "?es = (?d, Some h, None) # deadlines ?d ts" using Cons h by simp
      have all: "all_due D ?es = Suc (all_due D (deadlines ?d (next_timeout (tm_timers ?s2))))"
        unfolding es eff(1) all_due_add using due_step(1) [OF D(2)] by (simp add: all_due_def del: due.simps)
      have arp: "arp_due D ?es = (if h = Arp_timer then 1 else 0) + arp_due D (deadlines ?d (next_timeout (tm_timers ?s2)))"
        unfolding es eff(1) arp_due_add using due_step(1) [OF D(2)] by (simp add: arp_due_def del: due.simps)
      have cyc: "cyclic (next_timeout (tm_timers ?s2))"
      proof -
        have "cyclic ts" using less.prems(1) Cons by (simp add: cyclic_def)
        then show ?thesis unfolding cyclic_deadlines [of _ ?d] eff(1) set_add_deadline by simp
      qed
      obtain w b' where w: "check_loop now (diff - to_time t) ?s2 = Some w" "?d \<le> b'" "b' \<le> D"
        "mset (deadlines b' (next_timeout (tm_timers w))) = image_mset (advance D) (mset (deadlines ?d (next_timeout (tm_timers ?s2))))"
        "tm_link w = (etharp_tmr ^^ arp_due D (deadlines ?d (next_timeout (tm_timers ?s2)))) (tm_link ?s2)"
        "to_free (tm_timers w) = to_free (tm_timers ?s2)"
        "if all_due D (deadlines ?d (next_timeout (tm_timers ?s2))) = 0 then w = ?s2 \<and> b' = ?d else timeouts_last_time (tm_timers w) = now"
        using less.hyps [OF _ cyc D(1)] all by auto
      have "check_loop now diff s = Some w" using w(1) Cons True h by (subst check_loop.simps) (simp add: Let_def)
      moreover have "timeouts_last_time (tm_timers w) = now" using w(7) eff(4) by (auto split: if_splits)
      moreover have "image_mset (advance D) (mset ?es) = image_mset (advance D) (mset (deadlines ?d (next_timeout (tm_timers ?s2))))"
        unfolding es eff(1) using due_step(2) [OF D(2)] by (simp del: advance.simps)
      moreover have "tm_link w = (etharp_tmr ^^ arp_due D ?es) (tm_link s)"
        unfolding w(5) arp eff(2) by (simp add: funpow_swap1)
      ultimately show ?thesis using w(2-4,6) eff(3) all by (intro exI [of _ w] exI [of _ b']) simp
    qed
  qed
qed

text \<open>
  C38: \<open>sys_check_timeouts\<close> returns, although every handler starts its timer again, and runs each cyclic timer exactly as often
  as it is due: with \<open>D\<close> milliseconds since the last run (the counter may have wrapped around), a timer with its next deadline
  at \<open>d\<close> runs once for each of \<open>d\<close>, \<open>d\<close> plus a period, and so on up to \<open>D\<close>. The ARP cache is aged that often, every timer
  ends at its first deadline behind \<open>D\<close>, no timer is lost and the pool is as full as before. The deadlines that remain are
  counted from the last one that was due (\<open>b\<close>), although the time of the last run becomes the present.
\<close>

theorem cyclic_timers_run:
  fixes now :: u32
  assumes "cyclic (next_timeout (tm_timers s))"
  defines "es \<equiv> deadlines 0 (next_timeout (tm_timers s))" and "D \<equiv> unat (now - timeouts_last_time (tm_timers s))"
  shows "\<exists>w b. sys_check_timeouts now s = Some w \<and> tm_link w = (etharp_tmr ^^ arp_due D es) (tm_link s) \<and>
    mset (deadlines b (next_timeout (tm_timers w))) = image_mset (advance D) (mset es) \<and> b \<le> D \<and>
    to_free (tm_timers w) = to_free (tm_timers s) \<and>
    (if all_due D es = 0 then w = s \<and> b = 0 else timeouts_last_time (tm_timers w) = now)"
proof (cases "next_timeout (tm_timers s) = []")
  case True
  then have "sys_check_timeouts now s = Some s" "es = []" by (simp_all add: sys_check_timeouts_def es_def)
  then show ?thesis using True by (intro exI [of _ s] exI [of _ 0]) (simp add: arp_due_def all_due_def)
next
  case False
  have "D = 0 + unat (now - timeouts_last_time (tm_timers s))" by (simp add: D_def)
  moreover have "sys_check_timeouts now s = check_loop now (now - timeouts_last_time (tm_timers s)) s"
    using False by (simp add: sys_check_timeouts_def)
  ultimately show ?thesis using check_loop_runs [OF assms(1), of D 0 _ now, folded es_def] by metis
qed

text \<open>The timers as \<open>sys_timeouts_init\<close> starts them, shortly before the counter wraps around, and a check twelve seconds later.\<close>

definition started_timers :: "link_st \<Rightarrow> timed_st" where
  "started_timers l =
     \<lparr>tm_timers = sys_timeouts_init 0xfffffff0 \<lparr>next_timeout = [], timeouts_last_time = 0, to_free = MEMP_NUM_SYS_TIMEOUT\<rparr>,
      tm_link = l\<rparr>"

lemma started_timers_list:
  "tm_timers (started_timers l) =
     \<lparr>next_timeout = [\<lparr>to_time = 500, to_h = Some Dhcp_timer_fine, to_arg = None\<rparr>,
        \<lparr>to_time = 4500, to_h = Some Arp_timer, to_arg = None\<rparr>, \<lparr>to_time = 55000, to_h = Some Dhcp_timer_coarse, to_arg = None\<rparr>],
      timeouts_last_time = 0xfffffff0, to_free = 1\<rparr>"
  by (simp add: started_timers_def sys_timeouts_init_def sys_timeout_def Let_def MEMP_NUM_SYS_TIMEOUT_def
      ARP_TMR_INTERVAL_def DHCP_COARSE_TIMER_MSECS_def DHCP_FINE_TIMER_MSECS_def)

definition idle_link :: link_st where
  "idle_link = \<lparr>arp_table = [], etharp_cached_entry = 0, lk_mem = \<lparr>ms_alloc = [], ms_junk = \<lambda>_. 0\<rparr>, lk_tx = [], lk_fault = False\<rparr>"

lemma cyclic_timers_run_witness:
  "\<exists>w b. sys_check_timeouts 11984 (started_timers idle_link) = Some w \<and> tm_link w = etharp_tmr (etharp_tmr idle_link) \<and>
    mset (deadlines b (next_timeout (tm_timers w))) =
      {#(12500, Some Dhcp_timer_fine, None), (15000, Some Arp_timer, None), (60000, Some Dhcp_timer_coarse, None)#} \<and> b \<le> 12000"
proof -
  have "cyclic (next_timeout (tm_timers (started_timers idle_link)))" by (simp add: started_timers_list cyclic_def)
  note run = cyclic_timers_run [OF this, of 11984]
  have D: "unat (11984 - timeouts_last_time (tm_timers (started_timers idle_link))) = 12000" by (simp add: started_timers_list)
  have es: "deadlines 0 (next_timeout (tm_timers (started_timers idle_link))) =
      [(500, Some Dhcp_timer_fine, None), (5000, Some Arp_timer, None), (60000, Some Dhcp_timer_coarse, None)]"
    by (simp add: started_timers_list)
  have n: "arp_due 12000 [(500, Some Dhcp_timer_fine, None), (5000, Some Arp_timer, None), (60000, Some Dhcp_timer_coarse, None)] = 2"
    by (simp add: arp_due_def)
  have l: "tm_link (started_timers idle_link) = idle_link" by (simp add: started_timers_def)
  show ?thesis using run unfolding D es n l by (auto simp: numeral_2_eq_2)
qed

section \<open>Two defects\<close>

definition one_timer :: "u32 \<Rightarrow> link_st \<Rightarrow> timed_st" where
  "one_timer t0 l = \<lparr>tm_timers = \<lparr>next_timeout = [\<lparr>to_time = 5000, to_h = Some Arp_timer, to_arg = None\<rparr>],
     timeouts_last_time = t0, to_free = 3\<rparr>, tm_link = l\<rparr>"

lemma one_timer_check:
  assumes "now - t0 < 10000" and "5000 \<le> now - t0"
  shows "sys_check_timeouts now (one_timer t0 l) = Some (one_timer now (etharp_tmr l))"
proof -
  have "\<not> (5000 :: u32) \<le> now - t0 - 5000" using assms by unat_arith
  then have "check_loop now (now - t0 - 5000) (one_timer now (etharp_tmr l)) = Some (one_timer now (etharp_tmr l))"
    by (subst check_loop.simps) (simp add: one_timer_def)
  with assms(2) have "check_loop now (now - t0) (one_timer t0 l) = Some (one_timer now (etharp_tmr l))"
    by (subst check_loop.simps) (simp add: one_timer_def sys_timeout_def Let_def ARP_TMR_INTERVAL_def)
  then show ?thesis by (simp add: sys_check_timeouts_def one_timer_def)
qed

text \<open>
  The time since the last deadline that was due is lost: the ARP timer, due at 5000 and at 10000, is run by a check at 5999, and
  then not by a check at 10998.
\<close>

lemma remainder_lost:
  "sys_check_timeouts 5999 (one_timer 0 l) = Some (one_timer 5999 (etharp_tmr l))"
  "sys_check_timeouts 10998 (one_timer 5999 l) = Some (one_timer 5999 l)"
  by (rule one_timer_check; simp) (simp add: sys_check_timeouts_def one_timer_def check_loop.simps)

text \<open>A timeout is counted from the last run of a timer, not from its start: one of 5000 ms, started at 9000, is run by a check at 9000.\<close>

lemma timeout_early:
  fixes l :: link_st
  defines "s \<equiv> \<lparr>next_timeout = [], timeouts_last_time = 0, to_free = 4\<rparr>"
  shows "sys_check_timeouts 9000 \<lparr>tm_timers = sys_timeout ARP_TMR_INTERVAL (Some Arp_timer) None s, tm_link = l\<rparr> =
    Some (one_timer 9000 (etharp_tmr l))"
proof -
  have "\<lparr>tm_timers = sys_timeout ARP_TMR_INTERVAL (Some Arp_timer) None s, tm_link = l\<rparr> = one_timer 0 l"
    by (simp add: s_def sys_timeout_def one_timer_def ARP_TMR_INTERVAL_def)
  then show ?thesis using one_timer_check [of 9000 0 l] by simp
qed

end
