(* ===== verification/Arp_Cache.thy ===== *)
theory Arp_Cache
  imports Etharp
begin

text \<open>
  The ARP cache as a state machine: the operations of \<open>netif/etharp.c\<close> as steps, the states that they reach, and what ageing
  does to the entries.
\<close>

section \<open>Steps\<close>

text \<open>The cache at start-up is static memory, which is zero.\<close>

definition arp_start :: "link_st \<Rightarrow> bool" where
  "arp_start s \<longleftrightarrow>
     arp_table s = replicate ARP_TABLE_SIZE \<lparr>ae_q = None, ae_ipaddr = 0, ae_netif = None, ae_ethaddr = replicate 6 0,
       ae_state = ETHARP_STATE_EMPTY, ae_ctime = 0\<rparr> \<and>
     etharp_cached_entry s = 0"

text \<open>\<open>elsewhere\<close> stands for what the rest of the stack does: it allocates memory and sends frames.\<close>

inductive arp_step :: "link_st \<Rightarrow> link_st \<Rightarrow> bool" where
  query: "arp_step s (snd (etharp_query n a q s))"
| out_packet: "arp_step s (snd (etharp_output n q a s))"
| request: "arp_step s (snd (etharp_request n a s))"
| in_packet: "arp_step s (etharp_arp_input nif n p s)"
| update: "length ethaddr = 6 \<Longrightarrow> arp_step s (snd (etharp_update_arp_entry nif n a ethaddr flags s))"
| tmr: "arp_step s (etharp_tmr s)"
| cleanup: "arp_step s (etharp_cleanup_netif nif s)"
| elsewhere: "arp_table t = arp_table s \<Longrightarrow> etharp_cached_entry t = etharp_cached_entry s \<Longrightarrow> arp_step s t"

inductive arp_reachable :: "link_st \<Rightarrow> bool" where
  start: "arp_start s \<Longrightarrow> arp_reachable s"
| step: "arp_reachable s \<Longrightarrow> arp_step s t \<Longrightarrow> arp_reachable t"

lemma arp_start_wf: "arp_start s \<Longrightarrow> arp_wf s"
  by (auto simp: arp_start_def arp_wf_def arp_tab_wf_def entry_wf_def active_def ARP_TABLE_SIZE_def nth_Cons')

lemma arp_step_wf: "arp_step s t \<Longrightarrow> arp_wf s \<Longrightarrow> arp_wf t"
proof (induction rule: arp_step.induct)
  case (request s n a)
  then show ?case using arp_wf_cong [OF request_frame(1,2)] by blast
next
  case (elsewhere t s)
  then show ?case using arp_wf_cong by blast
qed (auto intro: wf_intros)

lemma arp_reachable_wf: "arp_reachable s \<Longrightarrow> arp_wf s"
  by (induction rule: arp_reachable.induct) (auto intro: arp_start_wf arp_step_wf)

section \<open>Ageing\<close>

lemma age_below: "entry_wf e \<Longrightarrow> active e \<Longrightarrow> unat (ae_ctime e) < 240"
proof -
  assume "entry_wf e" "active e"
  then have "ae_ctime e < 240"
    by (cases "ae_state e") (auto simp: entry_wf_def active_def etharp_const_defs intro: less_trans)
  then show ?thesis by (simp add: word_less_nat_alt)
qed

lemma tmr_entry_age:
  assumes "entry_wf e" and "active (tmr_entry e)"
  shows "active e \<and> unat (ae_ctime (tmr_entry e)) = unat (ae_ctime e) + 1"
proof -
  have a: "active e" using assms(2) tmr_entry_active by blast
  then have "unat (ae_ctime e + 1) = unat (ae_ctime e) + 1"
    using age_below [OF assms(1)] by (simp add: unat_word_ariths)
  then show ?thesis using a assms(2) by (auto simp: tmr_entry_def Let_def active_def free_entry_def split: if_splits)
qed

lemma age_grows:
  "entry_wf e \<Longrightarrow> active ((tmr_entry ^^ k) e) \<Longrightarrow> active e \<and> unat (ae_ctime ((tmr_entry ^^ k) e)) = unat (ae_ctime e) + k"
proof (induction k)
  case (Suc k)
  have "entry_wf ((tmr_entry ^^ j) e)" for j by (induction j) (use Suc.prems(1) tmr_entry_wf in auto)
  with tmr_entry_age [of "(tmr_entry ^^ k) e"] Suc show ?case by auto
qed simp

lemma tmr_funpow: "arp_table ((etharp_tmr ^^ k) s) = map (tmr_entry ^^ k) (arp_table s)"
  by (induction k) (simp_all add: etharp_tmr_def)

lemma entries_expire:
  assumes "entry_wf e"
  shows "\<not> active ((tmr_entry ^^ 240) e)" "ae_state e = ETHARP_STATE_PENDING \<Longrightarrow> \<not> active ((tmr_entry ^^ 2) e)"
proof -
  have wf: "entry_wf ((tmr_entry ^^ j) e)" for j by (induction j) (use assms tmr_entry_wf in auto)
  show "\<not> active ((tmr_entry ^^ 240) e)"
  proof
    assume a: "active ((tmr_entry ^^ 240) e)"
    then have "240 \<le> unat (ae_ctime ((tmr_entry ^^ 240) e))" using age_grows [OF assms, of 240] by linarith
    then show False using age_below [OF wf a] by linarith
  qed
  have keep: "ae_state x = ETHARP_STATE_PENDING \<Longrightarrow> active (tmr_entry x) \<Longrightarrow> ae_state (tmr_entry x) = ETHARP_STATE_PENDING" for x
    by (auto simp: tmr_entry_def Let_def active_def free_entry_def split: if_splits)
  show "\<not> active ((tmr_entry ^^ 2) e)" if p: "ae_state e = ETHARP_STATE_PENDING"
  proof
    assume a: "active ((tmr_entry ^^ 2) e)"
    then have "active (tmr_entry e)" using tmr_entry_active [of "tmr_entry e"] by (simp add: numeral_2_eq_2)
    then have "ae_state ((tmr_entry ^^ 2) e) = ETHARP_STATE_PENDING" using keep p a by (simp add: numeral_2_eq_2)
    then have "ae_ctime ((tmr_entry ^^ 2) e) < 2" using wf [of 2] by (simp add: entry_wf_def etharp_const_defs)
    then show False using age_grows [OF assms a] by (simp add: word_less_nat_alt)
  qed
qed

text \<open>
  C37: the ARP cache is well typed in every state that any sequence of its operations reaches from start-up: ten entries, six
  bytes of hardware address in each, waiting packets on pending entries only, no two entries in use for one address, the
  cached index inside the table, and the age of an entry in use below its limit, so that the eight-bit age never wraps
  around. If nothing else happens, an entry that waits for a reply is given up by the second tick, and after 240 ticks the
  cache is empty.
\<close>

theorem arp_cache_typed:
  assumes "arp_reachable s"
  shows "arp_wf s \<and> list_all (\<lambda>e. active e \<longrightarrow> unat (ae_ctime e + 1) = unat (ae_ctime e) + 1) (arp_table s) \<and>
    list_all (\<lambda>e. ae_state e = ETHARP_STATE_PENDING \<longrightarrow> \<not> active ((tmr_entry ^^ 2) e)) (arp_table s) \<and>
    list_all (\<lambda>e. \<not> active e) (arp_table ((etharp_tmr ^^ 240) s))"
proof -
  have wf: "arp_wf s" using arp_reachable_wf [OF assms] .
  then have e: "entry_wf e" if "e \<in> set (arp_table s)" for e using that by (simp add: arp_wf_def arp_tab_wf_def)
  have "unat (ae_ctime e + 1) = unat (ae_ctime e) + 1" if "e \<in> set (arp_table s)" "active e" for e
    using e [OF that(1)] that(2) by (auto simp: unat_word_ariths dest!: age_below)
  then show ?thesis using wf e entries_expire by (simp add: list_all_iff tmr_funpow)
qed

definition arp_boot :: link_st where
  "arp_boot = \<lparr>arp_table = replicate ARP_TABLE_SIZE \<lparr>ae_q = None, ae_ipaddr = 0, ae_netif = None, ae_ethaddr = replicate 6 0,
       ae_state = ETHARP_STATE_EMPTY, ae_ctime = 0\<rparr>,
     etharp_cached_entry = 0, lk_mem = \<lparr>ms_alloc = [], ms_junk = \<lambda>_. 0\<rparr>, lk_tx = [], lk_fault = False\<rparr>"

definition arp_asked :: link_st where
  "arp_asked = snd (etharp_query (netif_zero\<lparr>if_linkoutput := Hdkif_output, if_state := Some 0, if_hwaddr := replicate 6 2\<rparr>)
     0x0a000005 None arp_boot)"

theorem arp_cache_typed_witness:
  "arp_wf arp_asked \<and> ae_state (hd (arp_table arp_asked)) = ETHARP_STATE_PENDING \<and> length (lk_tx arp_asked) = 1 \<and>
   \<not> active (hd (arp_table ((etharp_tmr ^^ 240) arp_asked)))"
proof -
  have "arp_reachable arp_asked" unfolding arp_asked_def
    by (rule arp_reachable.step [OF arp_reachable.start arp_step.query]) (simp add: arp_start_def arp_boot_def)
  note typed = arp_cache_typed [OF this]
  have "arp_table ((etharp_tmr ^^ 240) arp_asked) \<noteq> []"
    using typed by (auto simp: tmr_funpow arp_wf_def arp_tab_wf_def ARP_TABLE_SIZE_def)
  then have "\<not> active (hd (arp_table ((etharp_tmr ^^ 240) arp_asked)))" using typed by (simp add: list_all_iff)
  moreover have "ae_state (hd (arp_table arp_asked)) = ETHARP_STATE_PENDING" "length (lk_tx arp_asked) = 1" by code_simp+
  ultimately show ?thesis using typed by blast
qed

end
