(* ===== verification/Pbuf_Store.thy ===== *)
theory Pbuf_Store
  imports Pbuf "HOL-Library.Monad_Syntax" "HOL-Library.Multiset"
begin

text \<open>
  Packet buffers in memory (\<open>core/pbuf.c\<close>): links, lengths and reference counts, with the operations that share and release
  buffers. The reference count of a buffer is shown to be the number of pointers to it, so that no operation follows a dangling
  pointer and nothing leaks.
\<close>

section \<open>Memory\<close>

record pbuf_hdr =
  pb_next :: "nat option"
  pb_tot_len :: u16
  pb_len :: u16
  pb_type :: pbuf_type
  pb_ref :: u16

text \<open>
  The buffers that exist, by their addresses, and the free elements of the pool. An access through a null pointer or to a
  buffer that does not exist is \<open>None\<close>.
\<close>

record pbuf_mem =
  pbs :: "nat \<Rightarrow> pbuf_hdr option"
  pb_pool :: "nat list"

definition upd_pb :: "nat \<Rightarrow> (pbuf_hdr \<Rightarrow> pbuf_hdr) \<Rightarrow> pbuf_mem \<Rightarrow> pbuf_mem option" where
  "upd_pb p f s = (case pbs s p of None \<Rightarrow> None | Some b \<Rightarrow> Some (s\<lparr>pbs := (pbs s)(p \<mapsto> f b)\<rparr>))"

definition dealloc :: "nat \<Rightarrow> pbuf_hdr \<Rightarrow> pbuf_mem \<Rightarrow> pbuf_mem" where
  "dealloc p b s =
     s\<lparr>pbs := (pbs s)(p := None), pb_pool := (if pb_type b = PBUF_POOL then p # pb_pool s else pb_pool s)\<rparr>"

section \<open>Operations\<close>

partial_function (option) free_loop :: "nat option \<Rightarrow> u8 \<Rightarrow> pbuf_mem \<Rightarrow> (u8 \<times> pbuf_mem) option" where
  "free_loop p cnt s =
     (case p of
        None \<Rightarrow> Some (cnt, s)
      | Some p \<Rightarrow> do {
          b \<leftarrow> pbs s p;
          if pb_ref b - 1 = 0 then free_loop (pb_next b) (cnt + 1) (dealloc p b s)
          else Some (cnt, s\<lparr>pbs := (pbs s)(p \<mapsto> b\<lparr>pb_ref := pb_ref b - 1\<rparr>)\<rparr>)
        })"

definition pbuf_free :: "nat option \<Rightarrow> pbuf_mem \<Rightarrow> (u8 \<times> pbuf_mem) option" where
  "pbuf_free p s = free_loop p 0 s"

definition pbuf_ref :: "nat option \<Rightarrow> pbuf_mem \<Rightarrow> pbuf_mem option" where
  "pbuf_ref p s = (case p of None \<Rightarrow> Some s | Some p \<Rightarrow> upd_pb p (\<lambda>b. b\<lparr>pb_ref := pb_ref b + 1\<rparr>) s)"

text \<open>The loop of \<open>pbuf_cat\<close> to the last buffer, with the update of the last total length behind it.\<close>

partial_function (option) cat_loop :: "nat \<Rightarrow> nat \<Rightarrow> pbuf_mem \<Rightarrow> (nat \<times> pbuf_mem) option" where
  "cat_loop p t s = do {
     b \<leftarrow> pbs s p;
     bt \<leftarrow> pbs s t;
     let s' = s\<lparr>pbs := (pbs s)(p \<mapsto> b\<lparr>pb_tot_len := pb_tot_len b + pb_tot_len bt\<rparr>)\<rparr>;
     case pb_next b of None \<Rightarrow> Some (p, s') | Some q \<Rightarrow> cat_loop q t s'
   }"

definition pbuf_cat :: "nat option \<Rightarrow> nat option \<Rightarrow> pbuf_mem \<Rightarrow> pbuf_mem option" where
  "pbuf_cat h t s =
     (case (h, t) of
        (Some h, Some t) \<Rightarrow> do {
          (p, s) \<leftarrow> cat_loop h t s;
          upd_pb p (\<lambda>b. b\<lparr>pb_next := Some t\<rparr>) s
        }
      | _ \<Rightarrow> Some s)"

definition pbuf_chain_mem :: "nat option \<Rightarrow> nat option \<Rightarrow> pbuf_mem \<Rightarrow> pbuf_mem option" where
  "pbuf_chain_mem h t s = do { s \<leftarrow> pbuf_cat h t s; pbuf_ref t s }"

definition pbuf_dechain :: "nat \<Rightarrow> pbuf_mem \<Rightarrow> (nat option \<times> pbuf_mem) option" where
  "pbuf_dechain p s = do {
     b \<leftarrow> pbs s p;
     case pb_next b of
       None \<Rightarrow> Some (None, s)
     | Some q \<Rightarrow> do {
         s \<leftarrow> upd_pb q (\<lambda>c. c\<lparr>pb_tot_len := pb_tot_len b - pb_len b\<rparr>) s;
         s \<leftarrow> upd_pb p (\<lambda>b. b\<lparr>pb_next := None, pb_tot_len := pb_len b\<rparr>) s;
         (tail_gone, s) \<leftarrow> pbuf_free (Some q) s;
         Some (if tail_gone > 0 then None else Some q, s)
       }
   }"

text \<open>
  \<open>pbuf_alloc\<close>. For \<open>PBUF_POOL\<close> the loop appends buffers behind \<open>r\<close> until \<open>rem_len\<close> bytes are covered; when the pool runs
  empty, the chain from \<open>p\<close> is freed. For the other types \<open>a\<close> is the answer of \<open>mem_malloc\<close> or \<open>memp_malloc\<close>.
\<close>

function pool_loop :: "nat \<Rightarrow> nat \<Rightarrow> nat \<Rightarrow> pbuf_mem \<Rightarrow> (nat option \<times> pbuf_mem) option" where
  "pool_loop p r rem_len s =
     (if rem_len = 0 then Some (Some p, s)
      else case pb_pool s of
        [] \<Rightarrow> map_option (\<lambda>(_, s). (None, s)) (pbuf_free (Some p) s)
      | q # qs \<Rightarrow>
          (let len = min rem_len PBUF_POOL_BUFSIZE;
               s = s\<lparr>pb_pool := qs, pbs := (pbs s)(q \<mapsto> \<lparr>pb_next = None, pb_tot_len = of_nat rem_len, pb_len = of_nat len,
                 pb_type = PBUF_POOL, pb_ref = 1\<rparr>)\<rparr>
           in case upd_pb r (\<lambda>b. b\<lparr>pb_next := Some q\<rparr>) s of
                None \<Rightarrow> None
              | Some s \<Rightarrow> pool_loop p q (rem_len - len) s))"
  by auto
termination
  by (relation "measure (\<lambda>(p, r, n, s). n)") (auto simp: PBUF_POOL_BUFSIZE_def)

definition pbuf_alloc_mem :: "pbuf_layer \<Rightarrow> u16 \<Rightarrow> pbuf_type \<Rightarrow> nat option \<Rightarrow> pbuf_mem \<Rightarrow> (nat option \<times> pbuf_mem) option" where
  "pbuf_alloc_mem layer n ty a s =
     (if ty = PBUF_POOL then
        (case pb_pool s of
           [] \<Rightarrow> Some (None, s)
         | p # ps \<Rightarrow>
             (let len = min (unat n) (PBUF_POOL_BUFSIZE - LWIP_MEM_ALIGN_SIZE (layer_offset layer));
                  s = s\<lparr>pb_pool := ps, pbs := (pbs s)(p \<mapsto> \<lparr>pb_next = None, pb_tot_len = n, pb_len = of_nat len,
                    pb_type = PBUF_POOL, pb_ref = 1\<rparr>)\<rparr>
              in pool_loop p p (unat n - len) s))
      else
        (case a of
           None \<Rightarrow> Some (None, s)
         | Some p \<Rightarrow> Some (Some p, s\<lparr>pbs := (pbs s)(p \<mapsto> \<lparr>pb_next = None, pb_tot_len = n, pb_len = n,
             pb_type = ty, pb_ref = 1\<rparr>)\<rparr>)))"

section \<open>The invariant\<close>

definition next_rel :: "pbuf_mem \<Rightarrow> (nat \<times> nat) set" where
  "next_rel s = {(q, p). \<exists>b. pbs s q = Some b \<and> pb_next b = Some p}"

definition links_to :: "nat \<Rightarrow> pbuf_mem \<Rightarrow> nat set" where
  "links_to p s = {q. (q, p) \<in> next_rel s}"

text \<open>
  \<open>H\<close> are the pointers to buffers that the program holds. Each buffer that exists is counted as often as there are pointers to
  it, in \<open>H\<close> or in links, and at least once; pointers lead to buffers that exist; links have no cycles.
\<close>

definition counted :: "pbuf_mem \<Rightarrow> nat multiset \<Rightarrow> bool" where
  "counted s H \<longleftrightarrow>
     finite (dom (pbs s)) \<and>
     (\<forall>p b. pbs s p = Some b \<longrightarrow> unat (pb_ref b) = count H p + card (links_to p s) \<and> 0 < unat (pb_ref b)) \<and>
     set_mset H \<subseteq> dom (pbs s) \<and> Range (next_rel s) \<subseteq> dom (pbs s) \<and> acyclic (next_rel s)"

definition pool_ok :: "nat set \<Rightarrow> pbuf_mem \<Rightarrow> bool" where
  "pool_ok N s \<longleftrightarrow> distinct (pb_pool s) \<and> set (pb_pool s) \<inter> dom (pbs s) = {} \<and>
     set (pb_pool s) \<union> {p. \<exists>b. pbs s p = Some b \<and> pb_type b = PBUF_POOL} = N"

lemma next_rel_iff: "(q, p) \<in> next_rel s \<longleftrightarrow> (\<exists>b. pbs s q = Some b \<and> pb_next b = Some p)"
  by (simp add: next_rel_def)

lemma next_rel_fun: "(q, p) \<in> next_rel s \<Longrightarrow> (q, p') \<in> next_rel s \<Longrightarrow> p = p'"
  by (auto simp: next_rel_def)

lemma finite_links: "finite (dom (pbs s)) \<Longrightarrow> finite (links_to p s)"
  by (rule finite_subset [of _ "dom (pbs s)"]) (auto simp: links_to_def next_rel_def)

lemma countedD:
  assumes "counted s H"
  shows "finite (dom (pbs s))" "pbs s p = Some b \<Longrightarrow> unat (pb_ref b) = count H p + card (links_to p s)"
    "pbs s p = Some b \<Longrightarrow> 0 < unat (pb_ref b)" "p \<in># H \<Longrightarrow> \<exists>b. pbs s p = Some b"
    "(q, p) \<in> next_rel s \<Longrightarrow> \<exists>b. pbs s p = Some b" "acyclic (next_rel s)" "finite (links_to p s)"
  using assms finite_links [of s p] unfolding counted_def by blast+

text \<open>A change of one buffer that keeps its link.\<close>

lemma next_rel_upd: "pbs s p = Some b \<Longrightarrow> pb_next (f b) = pb_next b \<Longrightarrow> next_rel (s\<lparr>pbs := (pbs s)(p \<mapsto> f b)\<rparr>) = next_rel s"
  by (auto simp: next_rel_def split: if_splits)

lemma next_rel_dealloc: "next_rel (dealloc p b s) = {(q, r) \<in> next_rel s. q \<noteq> p}"
  by (auto simp: next_rel_def dealloc_def split: if_splits)

lemma countedI:
  assumes "finite (dom (pbs s))"
    and "\<And>p b. pbs s p = Some b \<Longrightarrow> unat (pb_ref b) = count H p + card (links_to p s) \<and> 0 < unat (pb_ref b)"
    and "\<And>p. p \<in># H \<Longrightarrow> p \<in> dom (pbs s)" and "\<And>q p. (q, p) \<in> next_rel s \<Longrightarrow> p \<in> dom (pbs s)"
    and "acyclic (next_rel s)"
  shows "counted s H"
  using assms unfolding counted_def by blast

lemma free_shared:
  assumes "counted s (add_mset p H)" and "pbs s p = Some b" and "pb_ref b - 1 \<noteq> 0"
  shows "counted (s\<lparr>pbs := (pbs s)(p \<mapsto> b\<lparr>pb_ref := pb_ref b - 1\<rparr>)\<rparr>) H"
proof -
  have n: "next_rel (s\<lparr>pbs := (pbs s)(p \<mapsto> b\<lparr>pb_ref := pb_ref b - 1\<rparr>)\<rparr>) = next_rel s"
    using next_rel_upd [OF assms(2), of "\<lambda>b. b\<lparr>pb_ref := pb_ref b - 1\<rparr>"] by simp
  have "0 < unat (pb_ref b)" using countedD(3) [OF assms(1,2)] .
  then have r: "unat (pb_ref b - 1) = unat (pb_ref b) - 1" by (simp add: unat_minus_one unat_gt_0)
  moreover have "0 < unat (pb_ref b - 1)" using assms(3) by (simp add: unat_gt_0)
  moreover have "unat (pb_ref b) = Suc (count H p) + card (links_to p s)" using countedD(2) [OF assms(1,2)] by simp
  ultimately have c: "unat (pb_ref b - 1) = count H p + card (links_to p s) \<and> 0 < unat (pb_ref b - 1)" by linarith
  let ?s = "s\<lparr>pbs := (pbs s)(p \<mapsto> b\<lparr>pb_ref := pb_ref b - 1\<rparr>)\<rparr>"
  have l: "links_to r ?s = links_to r s" for r by (simp add: links_to_def n)
  have d: "dom (pbs ?s) = dom (pbs s)" using assms(2) by auto
  show ?thesis
  proof (rule countedI)
    show "finite (dom (pbs ?s))" using countedD(1) [OF assms(1)] d by simp
    show "unat (pb_ref x) = count H r + card (links_to r ?s) \<and> 0 < unat (pb_ref x)" if "pbs ?s r = Some x" for r x
    proof (cases "r = p")
      case True
      then show ?thesis using that c l by auto
    next
      case False
      then have "pbs s r = Some x" using that by simp
      then show ?thesis using countedD(2,3) [OF assms(1), of r x] l False by simp
    qed
    show "r \<in> dom (pbs ?s)" if "r \<in># H" for r using countedD(4) [OF assms(1), of r] that d by auto
    show "r \<in> dom (pbs ?s)" if "(q, r) \<in> next_rel ?s" for q r using countedD(5) [OF assms(1), of q r] that n d by auto
    show "acyclic (next_rel ?s)" using countedD(6) [OF assms(1)] n by simp
  qed
qed

lemma free_last:
  assumes "counted s (add_mset p H)" and "pbs s p = Some b" and "pb_ref b - 1 = 0"
  shows "counted (dealloc p b s) (case pb_next b of None \<Rightarrow> H | Some q \<Rightarrow> add_mset q H)"
proof -
  have fin: "finite (dom (pbs s))" "finite (links_to r s)" for r using countedD(1,7) [OF assms(1)] by auto
  have "pb_ref b = 1" using assms(3) by simp
  then have "Suc (count H p) + card (links_to p s) = 1" using countedD(2) [OF assms(1,2)] by simp
  then have none: "count H p = 0" "links_to p s = {}" using fin(2) by simp_all
  then have away: "(q, p) \<notin> next_rel s" for q by (auto simp: links_to_def)
  have links: "links_to r (dealloc p b s) = links_to r s - {p}" for r
    by (auto simp: links_to_def next_rel_dealloc)
  let ?H = "case pb_next b of None \<Rightarrow> H | Some q \<Rightarrow> add_mset q H"
  have cnt: "unat (pb_ref c) = count ?H r + card (links_to r (dealloc p b s)) \<and> 0 < unat (pb_ref c)"
    if "pbs (dealloc p b s) r = Some c" for r c
  proof -
    have rp: "r \<noteq> p" "pbs s r = Some c" using that by (auto simp: dealloc_def split: if_splits)
    have old: "unat (pb_ref c) = count H r + card (links_to r s)" "0 < unat (pb_ref c)"
      using countedD(2,3) [OF assms(1) rp(2)] rp(1) by simp_all
    show ?thesis
    proof (cases "pb_next b = Some r")
      case True
      then have "p \<in> links_to r s" using assms(2) by (auto simp: links_to_def next_rel_iff)
      then have "card (links_to r s) = Suc (card (links_to r s - {p}))" using fin(2) by (metis card.remove)
      with True old show ?thesis by (simp add: links)
    next
      case False
      then have "p \<notin> links_to r s" using assms(2) by (auto simp: links_to_def next_rel_iff)
      then have "links_to r s - {p} = links_to r s" by simp
      moreover have "count ?H r = count H r" using False by (auto split: option.split)
      ultimately show ?thesis using old by (simp add: links)
    qed
  qed
  have "set_mset ?H \<subseteq> dom (pbs (dealloc p b s))"
  proof
    fix r
    assume "r \<in># ?H"
    then have "r \<in># H \<or> (p, r) \<in> next_rel s" using assms(2) by (auto simp: next_rel_iff split: option.splits)
    moreover have "r \<noteq> p" using none(1) away calculation by (auto simp: count_eq_zero_iff)
    ultimately show "r \<in> dom (pbs (dealloc p b s))"
      using countedD(4,5) [OF assms(1)] by (auto simp: dealloc_def)
  qed
  moreover have "Range (next_rel (dealloc p b s)) \<subseteq> dom (pbs (dealloc p b s))"
    using countedD(5) [OF assms(1)] away by (auto simp: next_rel_dealloc) (auto simp: dealloc_def)
  moreover have "acyclic (next_rel (dealloc p b s))"
    by (rule acyclic_subset [OF countedD(6) [OF assms(1)]]) (auto simp: next_rel_dealloc)
  moreover have "finite (dom (pbs (dealloc p b s)))" using fin(1) by (simp add: dealloc_def)
  ultimately show ?thesis unfolding counted_def using cnt by blast
qed

lemma dealloc_pool: "pool_ok N s \<Longrightarrow> pbs s p = Some b \<Longrightarrow> pool_ok N (dealloc p b s)"
  by (auto simp: pool_ok_def dealloc_def)

text \<open>Releasing a pointer: the buffers that are not counted any more are given back, and no other buffer changes but for its count.\<close>

lemma free_loop_counted:
  assumes "counted s (H + (case p of None \<Rightarrow> {#} | Some p \<Rightarrow> {#p#}))"
  shows "\<exists>c t. free_loop p cnt s = Some (c, t) \<and> counted t H \<and> dom (pbs t) \<subseteq> dom (pbs s) \<and> (\<forall>N. pool_ok N s \<longrightarrow> pool_ok N t)"
  using assms
proof (induction "card (dom (pbs s))" arbitrary: s p cnt rule: less_induct)
  case less
  show ?case
  proof (cases p)
    case None
    with less.prems show ?thesis by (subst free_loop.simps) simp
  next
    case (Some x)
    then have C: "counted s (add_mset x H)" using less.prems by simp
    obtain b where b: "pbs s x = Some b" using countedD(4) [OF C, of x] by auto
    show ?thesis
    proof (cases "pb_ref b - 1 = 0")
      case False
      then show ?thesis using free_shared [OF C b] Some b by (subst free_loop.simps) (auto simp: pool_ok_def)
    next
      case True
      let ?s = "dealloc x b s"
      have dm: "dom (pbs ?s) = dom (pbs s) - {x}" by (auto simp: dealloc_def)
      have "card (dom (pbs ?s)) < card (dom (pbs s))"
        using b countedD(1) [OF C] unfolding dm by (intro card_Diff1_less) auto
      moreover have "counted ?s (H + (case pb_next b of None \<Rightarrow> {#} | Some p \<Rightarrow> {#p#}))"
        using free_last [OF C b True] by (simp split: option.splits)
      ultimately obtain c t where "free_loop (pb_next b) (cnt + 1) ?s = Some (c, t)" "counted t H" "dom (pbs t) \<subseteq> dom (pbs ?s)"
        "\<forall>N. pool_ok N ?s \<longrightarrow> pool_ok N t"
        using less.hyps by blast
      then show ?thesis using Some b True dm dealloc_pool [OF _ b] by (subst free_loop.simps) auto
    qed
  qed
qed

section \<open>Links, lengths and counts\<close>

text \<open>Lengths do not matter for the invariant.\<close>

definition shape :: "pbuf_mem \<Rightarrow> nat list \<times> (nat \<Rightarrow> (nat option \<times> pbuf_type \<times> u16) option)" where
  "shape s = (pb_pool s, \<lambda>x. map_option (\<lambda>b. (pb_next b, pb_type b, pb_ref b)) (pbs s x))"

lemma shape_lookup:
  assumes "shape s = shape t" and "pbs s p = Some b"
  obtains c where "pbs t p = Some c" "pb_next c = pb_next b" "pb_type c = pb_type b" "pb_ref c = pb_ref b"
proof -
  have "map_option (\<lambda>b. (pb_next b, pb_type b, pb_ref b)) (pbs s p) = map_option (\<lambda>b. (pb_next b, pb_type b, pb_ref b)) (pbs t p)"
    using arg_cong [OF assms(1), of "\<lambda>x. snd x p"] by (simp add: shape_def)
  then have m: "map_option (\<lambda>b. (pb_next b, pb_type b, pb_ref b)) (pbs t p) = Some (pb_next b, pb_type b, pb_ref b)"
    using assms(2) by simp
  show ?thesis
  proof (cases "pbs t p")
    case None
    then show ?thesis using m by simp
  next
    case (Some c)
    then show ?thesis using m that [of c] by simp
  qed
qed

lemma shape_le:
  assumes "shape s = shape t"
  shows "dom (pbs s) \<subseteq> dom (pbs t)" "next_rel s \<subseteq> next_rel t"
proof -
  show "dom (pbs s) \<subseteq> dom (pbs t)"
  proof
    fix p
    assume "p \<in> dom (pbs s)"
    then obtain b where "pbs s p = Some b" by auto
    then obtain c where "pbs t p = Some c" by (rule shape_lookup [OF assms])
    then show "p \<in> dom (pbs t)" by (rule domI)
  qed
  show "next_rel s \<subseteq> next_rel t"
  proof
    fix e
    assume "e \<in> next_rel s"
    then obtain q p b where e: "e = (q, p)" "pb_next b = Some p" and "pbs s q = Some b" by (auto simp: next_rel_def)
    from this(3) obtain c where "pbs t q = Some c" "pb_next c = pb_next b" by (rule shape_lookup [OF assms])
    then show "e \<in> next_rel t" using e by (simp add: next_rel_iff)
  qed
qed

lemma shape_dom: "shape s = shape t \<Longrightarrow> dom (pbs s) = dom (pbs t)"
  using shape_le(1) [of s t] shape_le(1) [of t s] by simp

lemma shape_next: "shape s = shape t \<Longrightarrow> next_rel s = next_rel t"
  using shape_le(2) [of s t] shape_le(2) [of t s] by simp

lemma shape_counted:
  assumes "shape s = shape t" and "counted s H"
  shows "counted t H"
proof (rule countedI)
  have l: "links_to p t = links_to p s" for p using shape_next [OF assms(1)] by (simp add: links_to_def)
  show "finite (dom (pbs t))" using countedD(1) [OF assms(2)] shape_dom [OF assms(1)] by simp
  show "unat (pb_ref b) = count H p + card (links_to p t) \<and> 0 < unat (pb_ref b)" if "pbs t p = Some b" for p b
    using shape_lookup [OF assms(1) [symmetric] that] countedD(2,3) [OF assms(2), of p] l by metis
  show "p \<in> dom (pbs t)" if "p \<in># H" for p
    using countedD(4) [OF assms(2) that] shape_dom [OF assms(1)] by blast
  show "p \<in> dom (pbs t)" if "(q, p) \<in> next_rel t" for q p
    using countedD(5) [OF assms(2), of q p] shape_next [OF assms(1)] shape_dom [OF assms(1)] that by blast
  show "acyclic (next_rel t)" using countedD(6) [OF assms(2)] shape_next [OF assms(1)] by simp
qed

lemma shape_pool: "shape s = shape t \<Longrightarrow> pool_ok N s \<Longrightarrow> pool_ok N t"
proof -
  assume a: "shape s = shape t" "pool_ok N s"
  have "pb_pool s = pb_pool t" using a(1) by (simp add: shape_def)
  moreover have "{p. \<exists>b. pbs s p = Some b \<and> pb_type b = PBUF_POOL} = {p. \<exists>b. pbs t p = Some b \<and> pb_type b = PBUF_POOL}"
    by (auto elim: shape_lookup [OF a(1)] shape_lookup [OF a(1) [symmetric]])
  ultimately show "pool_ok N t" using a(2) shape_dom [OF a(1)] by (simp add: pool_ok_def)
qed

lemma shape_lens: "pbs s p = Some b \<Longrightarrow> shape (s\<lparr>pbs := (pbs s)(p \<mapsto> b\<lparr>pb_tot_len := n\<rparr>)\<rparr>) = shape s"
  by (auto simp: shape_def fun_eq_iff)

text \<open>One more pointer to a buffer.\<close>

lemma counted_ref:
  assumes "counted s H" and "pbs s p = Some b" and "unat (pb_ref b) < 65535"
  shows "counted (s\<lparr>pbs := (pbs s)(p \<mapsto> b\<lparr>pb_ref := pb_ref b + 1\<rparr>)\<rparr>) (add_mset p H)" (is "counted ?s _")
proof (rule countedI)
  have n: "next_rel ?s = next_rel s" using next_rel_upd [OF assms(2), of "\<lambda>b. b\<lparr>pb_ref := pb_ref b + 1\<rparr>"] by simp
  then have l: "links_to r ?s = links_to r s" for r by (simp add: links_to_def)
  have d: "dom (pbs ?s) = dom (pbs s)" using assms(2) by auto
  have r: "unat (pb_ref b + 1) = Suc (unat (pb_ref b))" using assms(3) by (simp add: unat_word_ariths)
  show "finite (dom (pbs ?s))" using countedD(1) [OF assms(1)] d by simp
  show "unat (pb_ref x) = count (add_mset p H) q + card (links_to q ?s) \<and> 0 < unat (pb_ref x)" if "pbs ?s q = Some x" for q x
  proof (cases "q = p")
    case True
    then show ?thesis using that r l countedD(2) [OF assms(1,2)] by auto
  next
    case False
    then have "pbs s q = Some x" using that by simp
    then show ?thesis using countedD(2,3) [OF assms(1), of q x] l False by simp
  qed
  show "q \<in> dom (pbs ?s)" if "q \<in># add_mset p H" for q using countedD(4) [OF assms(1), of q] that d assms(2) by auto
  show "q \<in> dom (pbs ?s)" if "(r, q) \<in> next_rel ?s" for q r using countedD(5) [OF assms(1), of r q] that n d by auto
  show "acyclic (next_rel ?s)" using countedD(6) [OF assms(1)] n by simp
qed

text \<open>A pointer that the program holds becomes a link.\<close>

lemma counted_link:
  assumes "counted s (add_mset t H)" and "pbs s p = Some b" and "pb_next b = None" and "(t, p) \<notin> (next_rel s)\<^sup>*"
  shows "counted (s\<lparr>pbs := (pbs s)(p \<mapsto> b\<lparr>pb_next := Some t\<rparr>)\<rparr>) H" (is "counted ?s _")
proof (rule countedI)
  have n: "next_rel ?s = insert (p, t) (next_rel s)" using assms(2,3) by (auto simp: next_rel_def split: if_splits)
  have d: "dom (pbs ?s) = dom (pbs s)" using assms(2) by auto
  have "p \<notin> links_to t s" using assms(2,3) by (simp add: links_to_def next_rel_iff)
  moreover have "links_to q ?s = (if q = t then insert p (links_to t s) else links_to q s)" for q
    by (auto simp: links_to_def n)
  ultimately have l: "card (links_to q ?s) = card (links_to q s) + (if q = t then 1 else 0)" for q
    using countedD(7) [OF assms(1), of t] by simp
  show "finite (dom (pbs ?s))" using countedD(1) [OF assms(1)] d by simp
  show "unat (pb_ref x) = count H q + card (links_to q ?s) \<and> 0 < unat (pb_ref x)" if x: "pbs ?s q = Some x" for q x
  proof -
    obtain y where "pbs s q = Some y" "pb_ref y = pb_ref x" using x assms(2) by (cases "q = p") auto
    then show ?thesis using countedD(2,3) [OF assms(1), of q y] l [of q] by (auto split: if_splits)
  qed
  show "q \<in> dom (pbs ?s)" if "q \<in># H" for q using countedD(4) [OF assms(1), of q] that d by auto
  show "q \<in> dom (pbs ?s)" if "(r, q) \<in> next_rel ?s" for q r
    using countedD(5) [OF assms(1), of r q] countedD(4) [OF assms(1), of t] that n d by auto
  show "acyclic (next_rel ?s)" using countedD(6) [OF assms(1)] assms(4) n by (simp add: acyclic_insert)
qed

text \<open>A link becomes a pointer that the program holds.\<close>

lemma counted_unlink:
  assumes "counted s H" and "pbs s p = Some b" and "pb_next b = Some t"
  shows "counted (s\<lparr>pbs := (pbs s)(p \<mapsto> b\<lparr>pb_next := None, pb_tot_len := m\<rparr>)\<rparr>) (add_mset t H)" (is "counted ?s _")
proof (rule countedI)
  have n: "next_rel ?s = next_rel s - {(p, t)}" using assms(2,3) by (auto simp: next_rel_def split: if_splits)
  have d: "dom (pbs ?s) = dom (pbs s)" using assms(2) by auto
  have pt: "(p, t) \<in> next_rel s" using assms(2,3) by (simp add: next_rel_iff)
  have "links_to q ?s = (if q = t then links_to t s - {p} else links_to q s)" for q
    by (auto simp: links_to_def n)
  moreover have "card (links_to t s) = Suc (card (links_to t s - {p}))"
    using pt countedD(7) [OF assms(1)] by (intro card.remove) (auto simp: links_to_def)
  ultimately have l: "card (links_to q s) = card (links_to q ?s) + (if q = t then 1 else 0)" for q by simp
  show "finite (dom (pbs ?s))" using countedD(1) [OF assms(1)] d by simp
  show "unat (pb_ref x) = count (add_mset t H) q + card (links_to q ?s) \<and> 0 < unat (pb_ref x)" if x: "pbs ?s q = Some x" for q x
  proof -
    obtain y where "pbs s q = Some y" "pb_ref y = pb_ref x" using x assms(2) by (cases "q = p") auto
    then show ?thesis using countedD(2,3) [OF assms(1), of q y] l [of q] by (auto split: if_splits)
  qed
  show "q \<in> dom (pbs ?s)" if "q \<in># add_mset t H" for q
    using countedD(4) [OF assms(1), of q] countedD(5) [OF assms(1) pt] that d by auto
  show "q \<in> dom (pbs ?s)" if "(r, q) \<in> next_rel ?s" for q r
    using countedD(5) [OF assms(1), of r q] that n d by auto
  show "acyclic (next_rel ?s)" by (rule acyclic_subset [OF countedD(6) [OF assms(1)]]) (auto simp: n)
qed

text \<open>A new buffer.\<close>

lemma counted_fresh:
  assumes "counted s H" and "pbs s p = None" and "pb_next b = None" and "pb_ref b = 1"
  shows "counted (s\<lparr>pb_pool := ps, pbs := (pbs s)(p \<mapsto> b)\<rparr>) (add_mset p H)" (is "counted ?s _")
proof (rule countedI)
  have n: "next_rel ?s = next_rel s" using assms(2,3) by (auto simp: next_rel_def split: if_splits)
  then have l: "links_to q ?s = links_to q s" for q by (simp add: links_to_def)
  have d: "dom (pbs ?s) = insert p (dom (pbs s))" by auto
  have "p \<notin># H" using countedD(4) [OF assms(1), of p] assms(2) by auto
  moreover have "links_to p s = {}" using countedD(5) [OF assms(1), of _ p] assms(2) by (auto simp: links_to_def)
  ultimately have z: "count H p = 0" "card (links_to p s) = 0" by (simp_all add: count_eq_zero_iff)
  show "finite (dom (pbs ?s))" using countedD(1) [OF assms(1)] d by simp
  show "unat (pb_ref x) = count (add_mset p H) q + card (links_to q ?s) \<and> 0 < unat (pb_ref x)" if "pbs ?s q = Some x" for q x
  proof (cases "q = p")
    case True
    then show ?thesis using that z l assms(4) by auto
  next
    case False
    then have "pbs s q = Some x" using that by simp
    then show ?thesis using countedD(2,3) [OF assms(1), of q x] l False by simp
  qed
  show "q \<in> dom (pbs ?s)" if "q \<in># add_mset p H" for q using countedD(4) [OF assms(1), of q] that d by auto
  show "q \<in> dom (pbs ?s)" if "(r, q) \<in> next_rel ?s" for q r using countedD(5) [OF assms(1), of r q] that n d by auto
  show "acyclic (next_rel ?s)" using countedD(6) [OF assms(1)] n by simp
qed

text \<open>With no pointer held by the program, no buffer is left: the first of its chain would not be counted.\<close>

lemma no_holder_no_buffer:
  assumes "counted s {#}"
  shows "pbs s = Map.empty"
proof (rule ccontr)
  assume "pbs s \<noteq> Map.empty"
  then have ne: "dom (pbs s) \<noteq> {}" by auto
  have "finite (next_rel s)"
    by (rule finite_subset [of _ "dom (pbs s) \<times> dom (pbs s)"])
      (use countedD(1,5) [OF assms] in \<open>auto simp: next_rel_iff\<close>)
  then have "wf (next_rel s)" using countedD(6) [OF assms] by (rule finite_acyclic_wf)
  then obtain p where p: "p \<in> dom (pbs s)" "\<And>q. (q, p) \<in> next_rel s \<Longrightarrow> q \<notin> dom (pbs s)"
    using ne wf_eq_minimal [of "next_rel s"] by (metis all_not_in_conv)
  then have "links_to p s = {}" by (auto simp: links_to_def next_rel_iff)
  then show False using countedD(2,3) [OF assms, of p] p(1) by auto
qed

section \<open>The operations keep the invariant\<close>

lemma pool_ok_upd: "pool_ok N s \<Longrightarrow> pbs s p = Some b \<Longrightarrow> pb_type c = pb_type b \<Longrightarrow> pool_ok N (s\<lparr>pbs := (pbs s)(p \<mapsto> c)\<rparr>)"
  by (auto simp: pool_ok_def)

abbreviation held :: "nat option \<Rightarrow> nat multiset" where
  "held p \<equiv> (case p of None \<Rightarrow> {#} | Some p \<Rightarrow> {#p#})"

lemma pbuf_free_counted:
  assumes "counted s (add_mset p H)"
  shows "\<exists>c t. pbuf_free (Some p) s = Some (c, t) \<and> counted t H \<and> dom (pbs t) \<subseteq> dom (pbs s) \<and> (\<forall>N. pool_ok N s \<longrightarrow> pool_ok N t)"
  using free_loop_counted [of s H "Some p" 0] assms by (simp add: pbuf_free_def)

lemma pbuf_ref_counted:
  assumes "counted s H" and "p \<in> dom (pbs s)" and "\<And>b. pbs s p = Some b \<Longrightarrow> unat (pb_ref b) < 65535"
  shows "\<exists>t. pbuf_ref (Some p) s = Some t \<and> counted t (add_mset p H) \<and> (\<forall>N. pool_ok N s \<longrightarrow> pool_ok N t)"
proof -
  obtain b where b: "pbs s p = Some b" using assms(2) by auto
  show ?thesis using counted_ref [OF assms(1) b assms(3) [OF b]] b by (auto simp: pbuf_ref_def upd_pb_def pool_ok_def)
qed

text \<open>The walk to the last buffer ends there, and changes lengths only.\<close>

lemma cat_loop_last:
  assumes "wf (R\<inverse>)" and "next_rel s = R" and "Range R \<subseteq> dom (pbs s)" and "p \<in> dom (pbs s)" and "t \<in> dom (pbs s)"
  shows "\<exists>l s' b. cat_loop p t s = Some (l, s') \<and> shape s' = shape s \<and> (p, l) \<in> R\<^sup>* \<and> pbs s' l = Some b \<and> pb_next b = None"
  using assms
proof (induction p arbitrary: s rule: wf_induct_rule)
  case (less p s)
  then obtain b bt where b: "pbs s p = Some b" "pbs s t = Some bt" by auto
  let ?s = "s\<lparr>pbs := (pbs s)(p \<mapsto> b\<lparr>pb_tot_len := pb_tot_len b + pb_tot_len bt\<rparr>)\<rparr>"
  have sh: "shape ?s = shape s" by (rule shape_lens [OF b(1)])
  show ?case
  proof (cases "pb_next b")
    case None
    then show ?thesis using b sh by (subst cat_loop.simps) auto
  next
    case (Some q)
    then have pq: "(p, q) \<in> R" using b less.prems(1) by (auto simp: next_rel_iff)
    have d: "dom (pbs ?s) = dom (pbs s)" using shape_dom [OF sh] .
    have "next_rel ?s = R" using less.prems(1) shape_next [OF sh] by simp
    moreover have "Range R \<subseteq> dom (pbs ?s)" "t \<in> dom (pbs ?s)" unfolding d using less.prems(2,4) by blast+
    moreover have "q \<in> dom (pbs ?s)" unfolding d using pq less.prems(2) by blast
    ultimately have "\<exists>l s' c. cat_loop q t ?s = Some (l, s') \<and> shape s' = shape ?s \<and> (q, l) \<in> R\<^sup>* \<and> pbs s' l = Some c \<and> pb_next c = None"
      using less.IH [of q ?s] pq by blast
    then obtain l s' c where "cat_loop q t ?s = Some (l, s')" "shape s' = shape ?s" "(q, l) \<in> R\<^sup>*"
      "pbs s' l = Some c" "pb_next c = None" by blast
    then show ?thesis using b Some sh pq converse_rtrancl_into_rtrancl [OF pq, of l] by (subst cat_loop.simps) auto
  qed
qed

text \<open>
  \<open>pbuf_cat\<close> and \<open>pbuf_chain\<close> on buffers whose chains have nothing in common: the first takes the pointer to the second over, the
  second keeps it. Whatever the chains are, the operations end.
\<close>

definition chains_apart :: "nat \<Rightarrow> nat \<Rightarrow> pbuf_mem \<Rightarrow> bool" where
  "chains_apart h t s \<longleftrightarrow> (\<nexists>x. (h, x) \<in> (next_rel s)\<^sup>* \<and> (t, x) \<in> (next_rel s)\<^sup>*)"

lemma pbuf_cat_result:
  assumes "counted s H" and "h \<in> dom (pbs s)" and "t \<in> dom (pbs s)"
  obtains l s' b where "shape s' = shape s" "(h, l) \<in> (next_rel s)\<^sup>*" "pbs s' l = Some b" "pb_next b = None"
    "pbuf_cat (Some h) (Some t) s = Some (s'\<lparr>pbs := (pbs s')(l \<mapsto> b\<lparr>pb_next := Some t\<rparr>)\<rparr>)"
proof -
  have "next_rel s \<subseteq> dom (pbs s) \<times> dom (pbs s)" using countedD(5) [OF assms(1)] by (auto simp: next_rel_iff)
  then have "finite (next_rel s)" using countedD(1) [OF assms(1)] by (meson finite_SigmaI finite_subset)
  then have "wf ((next_rel s)\<inverse>)" using countedD(6) [OF assms(1)] by (rule finite_acyclic_wf_converse)
  moreover have "Range (next_rel s) \<subseteq> dom (pbs s)" using countedD(5) [OF assms(1)] by blast
  ultimately obtain l s' b where r: "cat_loop h t s = Some (l, s')" "shape s' = shape s" "(h, l) \<in> (next_rel s)\<^sup>*"
    "pbs s' l = Some b" "pb_next b = None"
    using cat_loop_last [of "next_rel s" s h t] assms(2,3) by blast
  then have "pbuf_cat (Some h) (Some t) s = Some (s'\<lparr>pbs := (pbs s')(l \<mapsto> b\<lparr>pb_next := Some t\<rparr>)\<rparr>)"
    by (simp add: pbuf_cat_def upd_pb_def)
  with r(2-5) show ?thesis by (rule that)
qed

lemma pbuf_cat_counted:
  assumes "counted s (add_mset t H)" and "h \<in> dom (pbs s)" and "chains_apart h t s"
  shows "\<exists>s'. pbuf_cat (Some h) (Some t) s = Some s' \<and> counted s' H \<and> dom (pbs s') = dom (pbs s) \<and>
     (\<forall>p b'. pbs s' p = Some b' \<longrightarrow> (\<exists>b. pbs s p = Some b \<and> pb_ref b' = pb_ref b)) \<and> (\<forall>N. pool_ok N s \<longrightarrow> pool_ok N s')"
proof -
  have "t \<in> dom (pbs s)" using countedD(4) [OF assms(1), of t] by auto
  then obtain l s1 b where r: "shape s1 = shape s" "(h, l) \<in> (next_rel s)\<^sup>*" "pbs s1 l = Some b" "pb_next b = None"
    "pbuf_cat (Some h) (Some t) s = Some (s1\<lparr>pbs := (pbs s1)(l \<mapsto> b\<lparr>pb_next := Some t\<rparr>)\<rparr>)" (is "_ = Some ?s")
    by (rule pbuf_cat_result [OF assms(1,2)])
  have "(t, l) \<notin> (next_rel s1)\<^sup>*" using assms(3) r(2) shape_next [OF r(1)] by (auto simp: chains_apart_def)
  with shape_counted [OF r(1) [symmetric] assms(1)] r(3,4) have "counted ?s H" by (rule counted_link)
  moreover have "dom (pbs ?s) = dom (pbs s)" using shape_dom [OF r(1)] r(3) by auto
  moreover have "\<exists>b. pbs s p = Some b \<and> pb_ref b' = pb_ref b" if x: "pbs ?s p = Some b'" for p b'
  proof -
    obtain c where "pbs s1 p = Some c" "pb_ref c = pb_ref b'" using x r(3) by (cases "p = l") auto
    then show ?thesis using shape_lookup [OF r(1)] by metis
  qed
  moreover have "pool_ok N ?s" if "pool_ok N s" for N
    using pool_ok_upd [OF shape_pool [OF r(1) [symmetric] that] r(3)] by simp
  ultimately show ?thesis using r(5) by blast
qed

lemma pbuf_chain_counted:
  assumes "counted s (add_mset t H)" and "h \<in> dom (pbs s)" and "chains_apart h t s"
    and "\<And>b. pbs s t = Some b \<Longrightarrow> unat (pb_ref b) < 65535"
  shows "\<exists>s'. pbuf_chain_mem (Some h) (Some t) s = Some s' \<and> counted s' (add_mset t H) \<and> (\<forall>N. pool_ok N s \<longrightarrow> pool_ok N s')"
proof -
  obtain s1 where s1: "pbuf_cat (Some h) (Some t) s = Some s1" "counted s1 H" "dom (pbs s1) = dom (pbs s)"
    "\<forall>p b'. pbs s1 p = Some b' \<longrightarrow> (\<exists>b. pbs s p = Some b \<and> pb_ref b' = pb_ref b)" "\<forall>N. pool_ok N s \<longrightarrow> pool_ok N s1"
    using pbuf_cat_counted [OF assms(1-3)] by blast
  have "t \<in> dom (pbs s1)" using s1(3) countedD(4) [OF assms(1), of t] by auto
  moreover have "unat (pb_ref b) < 65535" if "pbs s1 t = Some b" for b using s1(4) that assms(4) by fastforce
  ultimately show ?thesis using pbuf_ref_counted [OF s1(2), of t] s1(1,5) by (auto simp: pbuf_chain_mem_def)
qed

lemma pbuf_dechain_counted:
  assumes "counted s H" and "p \<in> dom (pbs s)"
  shows "\<exists>q s'. pbuf_dechain p s = Some (q, s') \<and> counted s' H \<and> (\<forall>N. pool_ok N s \<longrightarrow> pool_ok N s')"
proof -
  obtain b where b: "pbs s p = Some b" using assms(2) by auto
  show ?thesis
  proof (cases "pb_next b")
    case None
    then show ?thesis using assms(1) b by (auto simp: pbuf_dechain_def)
  next
    case (Some q)
    then have e: "(p, q) \<in> next_rel s" using b by (simp add: next_rel_iff)
    obtain c where c: "pbs s q = Some c" using countedD(5) [OF assms(1) e] by blast
    have pq: "p \<noteq> q" using countedD(6) [OF assms(1)] e by (auto simp: acyclic_def)
    let ?s = "s\<lparr>pbs := (pbs s)(q \<mapsto> c\<lparr>pb_tot_len := pb_tot_len b - pb_len b\<rparr>)\<rparr>"
    let ?t = "?s\<lparr>pbs := (pbs ?s)(p \<mapsto> b\<lparr>pb_next := None, pb_tot_len := pb_len b\<rparr>)\<rparr>"
    have sh: "shape s = shape ?s" by (rule shape_lens [OF c, symmetric])
    have pb: "pbs ?s p = Some b" using b pq by simp
    have "counted ?t (add_mset q H)" by (rule counted_unlink [OF shape_counted [OF sh assms(1)] pb Some])
    then obtain n t where "pbuf_free (Some q) ?t = Some (n, t)" "counted t H" "\<forall>N. pool_ok N ?t \<longrightarrow> pool_ok N t"
      using pbuf_free_counted by blast
    moreover have "pool_ok N ?t" if "pool_ok N s" for N
      using pool_ok_upd [OF shape_pool [OF sh that] pb] by simp
    ultimately show ?thesis using b c pq Some by (simp add: pbuf_dechain_def upd_pb_def)
  qed
qed

text \<open>Taking a buffer from the pool.\<close>

lemma take_pool:
  assumes "counted s H" and "pool_ok N s" and "pb_pool s = q # qs" and "pb_next b = None" and "pb_ref b = 1" and "pb_type b = PBUF_POOL"
  shows "counted (s\<lparr>pb_pool := qs, pbs := (pbs s)(q \<mapsto> b)\<rparr>) (add_mset q H)"
    "pool_ok N (s\<lparr>pb_pool := qs, pbs := (pbs s)(q \<mapsto> b)\<rparr>)" "pbs s q = None"
proof -
  have q: "q \<notin> dom (pbs s)" "q \<notin> set qs" using assms(2,3) by (auto simp: pool_ok_def)
  then show "pbs s q = None" by blast
  then show "counted (s\<lparr>pb_pool := qs, pbs := (pbs s)(q \<mapsto> b)\<rparr>) (add_mset q H)"
    using counted_fresh [OF assms(1) _ assms(4,5)] by blast
  show "pool_ok N (s\<lparr>pb_pool := qs, pbs := (pbs s)(q \<mapsto> b)\<rparr>)"
    using assms(2,3,6) q by (auto simp: pool_ok_def)
qed

declare pool_loop.simps [simp del]

lemma pool_loop_counted:
  assumes "counted s (add_mset p H)" and "pool_ok N s" and "pbs s r = Some b" and "pb_next b = None"
  shows "\<exists>a t. pool_loop p r n s = Some (a, t) \<and> counted t (H + held a) \<and> pool_ok N t \<and> a \<in> {None, Some p}"
  using assms
proof (induction p r n s arbitrary: b rule: pool_loop.induct)
  case (1 p r n s)
  show ?case
  proof (cases "n = 0")
    case True
    then show ?thesis using "1.prems" by (simp add: pool_loop.simps)
  next
    case n: False
    show ?thesis
    proof (cases "pb_pool s")
      case Nil
      then show ?thesis using n pbuf_free_counted [OF "1.prems"(1)] "1.prems"(2)
        by (subst pool_loop.simps) auto
    next
      case (Cons q qs)
      let ?len = "min n PBUF_POOL_BUFSIZE"
      let ?b = "\<lparr>pb_next = None, pb_tot_len = of_nat n, pb_len = of_nat ?len, pb_type = PBUF_POOL, pb_ref = 1\<rparr>"
      let ?s = "s\<lparr>pb_pool := qs, pbs := (pbs s)(q \<mapsto> ?b)\<rparr>"
      let ?t = "?s\<lparr>pbs := (pbs ?s)(r \<mapsto> b\<lparr>pb_next := Some q\<rparr>)\<rparr>"
      note t = take_pool [OF "1.prems"(1,2) Cons, of ?b, simplified]
      have rq: "r \<noteq> q" using t(3) "1.prems"(3) by auto
      then have r: "pbs ?s r = Some b" "pbs ?t q = Some ?b" using "1.prems"(3) by simp_all
      have up: "upd_pb r (\<lambda>b. b\<lparr>pb_next := Some q\<rparr>) ?s = Some ?t" using r by (simp add: upd_pb_def)
      have "(q, x) \<notin> next_rel ?s" for x by (simp add: next_rel_iff)
      then have "(q, r) \<notin> (next_rel ?s)\<^sup>*" using rq by (blast elim: converse_rtranclE)
      then have c: "counted ?t (add_mset p H)" using counted_link [OF t(1) r(1) "1.prems"(4)] by simp
      have pk: "pool_ok N ?t" by (rule pool_ok_upd [OF t(2) r(1)]) simp
      have "\<exists>a u. pool_loop p q (n - ?len) ?t = Some (a, u) \<and> counted u (H + held a) \<and> pool_ok N u \<and> a \<in> {None, Some p}"
        by (rule "1.IH" [OF n Cons refl refl up c pk r(2)]) simp
      then show ?thesis using n Cons up by (subst pool_loop.simps) (simp add: Let_def)
    qed
  qed
qed

lemma pbuf_alloc_counted:
  assumes "counted s H" and "pool_ok N s" and "\<And>p. a = Some p \<Longrightarrow> p \<notin> dom (pbs s) \<and> p \<notin> N"
  shows "\<exists>p t. pbuf_alloc_mem layer n ty a s = Some (p, t) \<and> counted t (H + held p) \<and> pool_ok N t"
proof (cases "ty = PBUF_POOL")
  case True
  show ?thesis
  proof (cases "pb_pool s")
    case Nil
    then show ?thesis using True assms(1,2) by (simp add: pbuf_alloc_mem_def)
  next
    case (Cons p ps)
    let ?len = "min (unat n) (PBUF_POOL_BUFSIZE - LWIP_MEM_ALIGN_SIZE (layer_offset layer))"
    let ?b = "\<lparr>pb_next = None, pb_tot_len = n, pb_len = of_nat ?len, pb_type = PBUF_POOL, pb_ref = 1\<rparr>"
    note t = take_pool [OF assms(1,2) Cons, of ?b, simplified]
    have "\<exists>a t. pool_loop p p (unat n - ?len) (s\<lparr>pb_pool := ps, pbs := (pbs s)(p \<mapsto> ?b)\<rparr>) = Some (a, t) \<and>
        counted t (H + held a) \<and> pool_ok N t \<and> a \<in> {None, Some p}"
      by (rule pool_loop_counted [OF t(1,2), of p ?b]) simp_all
    then show ?thesis using True Cons by (simp add: pbuf_alloc_mem_def Let_def) blast
  qed
next
  case ty: False
  show ?thesis
  proof (cases a)
    case None
    then show ?thesis using ty assms(1,2) by (simp add: pbuf_alloc_mem_def)
  next
    case (Some p)
    then have p: "pbs s p = None" "p \<notin> N" using assms(3) [OF Some] by auto
    let ?b = "\<lparr>pb_next = None, pb_tot_len = n, pb_len = n, pb_type = ty, pb_ref = 1\<rparr>"
    have "counted (s\<lparr>pbs := (pbs s)(p \<mapsto> ?b)\<rparr>) (add_mset p H)"
      using counted_fresh [OF assms(1) p(1), of ?b "pb_pool s"] by simp
    moreover have "pool_ok N (s\<lparr>pbs := (pbs s)(p \<mapsto> ?b)\<rparr>)"
      using assms(2) p ty by (auto simp: pool_ok_def)
    ultimately show ?thesis using ty Some by (simp add: pbuf_alloc_mem_def)
  qed
qed

section \<open>Runs of the program\<close>

text \<open>
  Any sequence of these operations by a program that keeps track of the pointers it holds: an allocator other than that of the
  pool answers with memory that is not in use, a count does not exceed 65535, and chains that are put together are apart.
\<close>

inductive pbuf_state :: "nat set \<Rightarrow> pbuf_mem \<Rightarrow> nat multiset \<Rightarrow> bool" for N where
  boot: "distinct ps \<Longrightarrow> set ps = N \<Longrightarrow> pbuf_state N \<lparr>pbs = Map.empty, pb_pool = ps\<rparr> {#}"
| alloc: "pbuf_state N s H \<Longrightarrow> (\<And>p. a = Some p \<Longrightarrow> p \<notin> dom (pbs s) \<and> p \<notin> N) \<Longrightarrow>
    pbuf_alloc_mem layer n ty a s = Some (p, t) \<Longrightarrow> pbuf_state N t (H + held p)"
| share: "pbuf_state N s H \<Longrightarrow> p \<in># H \<Longrightarrow> (\<And>b. pbs s p = Some b \<Longrightarrow> unat (pb_ref b) < 65535) \<Longrightarrow>
    pbuf_ref (Some p) s = Some t \<Longrightarrow> pbuf_state N t (add_mset p H)"
| free: "pbuf_state N s (add_mset p H) \<Longrightarrow> pbuf_free (Some p) s = Some (c, t) \<Longrightarrow> pbuf_state N t H"
| cat: "pbuf_state N s (add_mset t H) \<Longrightarrow> h \<in># H \<Longrightarrow> chains_apart h t s \<Longrightarrow>
    pbuf_cat (Some h) (Some t) s = Some s' \<Longrightarrow> pbuf_state N s' H"
| chain: "pbuf_state N s (add_mset t H) \<Longrightarrow> h \<in># H \<Longrightarrow> chains_apart h t s \<Longrightarrow>
    (\<And>b. pbs s t = Some b \<Longrightarrow> unat (pb_ref b) < 65535) \<Longrightarrow>
    pbuf_chain_mem (Some h) (Some t) s = Some s' \<Longrightarrow> pbuf_state N s' (add_mset t H)"
| dechain: "pbuf_state N s H \<Longrightarrow> p \<in># H \<Longrightarrow> pbuf_dechain p s = Some (q, t) \<Longrightarrow> pbuf_state N t H"

lemma held_dom: "counted s H \<Longrightarrow> p \<in># H \<Longrightarrow> p \<in> dom (pbs s)"
  using countedD(4) by blast

lemma pbuf_state_counted: "pbuf_state N s H \<Longrightarrow> counted s H \<and> pool_ok N s"
proof (induction rule: pbuf_state.induct)
  case (boot ps)
  then show ?case by (auto simp: counted_def pool_ok_def next_rel_def acyclic_def)
next
  case (alloc s H a layer n ty p t)
  then show ?case using pbuf_alloc_counted [of s H N a layer n ty] by force
next
  case (share s H p t)
  then show ?case using pbuf_ref_counted [of s H p] held_dom [of s H p] by force
next
  case (free s p H c t)
  then show ?case using pbuf_free_counted [of s p H] by force
next
  case (cat s t H h s')
  then show ?case using pbuf_cat_counted [of s t H h] held_dom [of s "add_mset t H" h] by force
next
  case (chain s t H h s')
  then show ?case using pbuf_chain_counted [of s t H h] held_dom [of s "add_mset t H" h] by force
next
  case (dechain s H p q t)
  then show ?case using pbuf_dechain_counted [of s H p] held_dom [of s H p] by force
qed

text \<open>
  C26: the reference count of every packet buffer always is the number of pointers to it, from the program and from other
  buffers, whatever sequence of allocations, \<open>pbuf_ref\<close>, \<open>pbuf_free\<close>, \<open>pbuf_cat\<close>, \<open>pbuf_chain\<close> and \<open>pbuf_dechain\<close> ran before.
  A buffer of the pool is free or in use and never both. No operation on a pointer that the program holds follows a dangling
  pointer or fails to end. When the program has given up its pointers, every buffer is released and the pool is full.
\<close>

theorem pbuf_counts_exact:
  assumes "pbuf_state N s H"
  shows "counted s H \<and> pool_ok N s \<and>
    (p \<in># H \<longrightarrow> pbuf_free (Some p) s \<noteq> None \<and> pbuf_dechain p s \<noteq> None) \<and>
    (p \<in># H \<and> q \<in># H \<longrightarrow> pbuf_cat (Some p) (Some q) s \<noteq> None) \<and>
    pbuf_alloc_mem layer n PBUF_POOL None s \<noteq> None \<and>
    (H = {#} \<longrightarrow> pbs s = Map.empty \<and> set (pb_pool s) = N)"
proof -
  have c: "counted s H" and k: "pool_ok N s" using pbuf_state_counted [OF assms] by blast+
  have "pbuf_free (Some p) s \<noteq> None \<and> pbuf_dechain p s \<noteq> None" if "p \<in># H"
    using pbuf_free_counted [of s p "H - {#p#}"] pbuf_dechain_counted [OF c held_dom [OF c that]] c that by auto
  moreover have "pbuf_cat (Some p) (Some q) s \<noteq> None" if "p \<in># H" "q \<in># H"
    using pbuf_cat_result [OF c held_dom [OF c that(1)] held_dom [OF c that(2)]] by blast
  moreover have "pbuf_alloc_mem layer n PBUF_POOL None s \<noteq> None"
    using pbuf_alloc_counted [OF c k, of None layer n PBUF_POOL] by auto
  moreover have "pbs s = Map.empty \<and> set (pb_pool s) = N" if "H = {#}"
    using no_holder_no_buffer [of s] c k that by (auto simp: pool_ok_def)
  ultimately show ?thesis using c k by blast
qed

definition two_buffers :: pbuf_mem where
  "two_buffers = \<lparr>pbs = [1 \<mapsto> \<lparr>pb_next = Some 2, pb_tot_len = 300, pb_len = 256, pb_type = PBUF_POOL, pb_ref = 1\<rparr>,
     2 \<mapsto> \<lparr>pb_next = None, pb_tot_len = 44, pb_len = 44, pb_type = PBUF_POOL, pb_ref = 1\<rparr>], pb_pool = [3]\<rparr>"

lemma alloc_two_buffers:
  "pbuf_alloc_mem PBUF_RAW 300 PBUF_POOL None \<lparr>pbs = Map.empty, pb_pool = [1, 2, 3]\<rparr> = Some (Some 1, two_buffers)"
  by (simp add: pbuf_alloc_mem_def pool_loop.simps upd_pb_def two_buffers_def PBUF_POOL_BUFSIZE_def layer_offset_def
      LWIP_MEM_ALIGN_SIZE_def fun_eq_iff)

theorem pbuf_counts_exact_witness: "counted two_buffers {#1#} \<and> pool_ok {1, 2, 3} two_buffers \<and> pbuf_free (Some 1) two_buffers \<noteq> None"
proof -
  have "pbuf_state {1, 2, 3} \<lparr>pbs = Map.empty, pb_pool = [1, 2, 3]\<rparr> {#}" by (rule boot) auto
  then have "pbuf_state {1, 2, 3} two_buffers ({#} + held (Some 1))"
    by (rule alloc [OF _ _ alloc_two_buffers]) simp
  then show ?thesis using pbuf_counts_exact [of "{1, 2, 3}" two_buffers "{#1#}" 1 1] by simp
qed

end
