(* ===== verification/Rx_Ring.thy ===== *)
theory Rx_Ring
  imports Emac_Ring Pbuf_Store Interfaces
begin

text \<open>
  The receive side of the Ethernet driver (\<open>ports/hdk/netif/hdkif.c\<close>): the list of receive descriptors with their packet buffers,
  its set-up in \<open>hdkif_hw_init\<close> and the receive interrupt \<open>hdkif_rx_inthandler\<close>. The DMA engine is a parameter; \<open>emac_rx_dma\<close> is
  what the driver relies on. The engine works between the calls of the handler.
\<close>

section \<open>Descriptors\<close>

text \<open>A buffer pointer is the number of the packet buffer whose payload it points to.\<close>

record emac_rx_bdp =
  rb_next :: "nat option"
  rb_bufptr :: nat
  rb_len :: u32
  rb_flags :: u32
  rb_pbuf :: nat

text \<open>
  \<open>struct rxch\<close> with the descriptors, the register \<open>RXHDP\<close> of the channel, the packet buffers with the contents of their payload,
  the frames that were given to \<open>ethernet_input\<close>, each with the total length of its chain, and the chains of received buffers that
  the transmit channel holds (\<open>curr_bd->pbuf\<close> of its descriptors), because a reply was built in them.
\<close>

record rxch =
  rx_bd :: "nat \<Rightarrow> emac_rx_bdp"
  rx_free_head :: "nat option"
  rx_active_head :: "nat option"
  rx_active_tail :: "nat option"
  freed_pbuf_len :: u32
  rx_hdp :: "nat option"
  rx_mem :: pbuf_mem
  rx_data :: "nat \<Rightarrow> u8 list"
  rx_up :: "(u16 \<times> u8 list) list"
  rx_held :: "nat list"

definition upd_rb :: "nat \<Rightarrow> (emac_rx_bdp \<Rightarrow> emac_rx_bdp) \<Rightarrow> rxch \<Rightarrow> rxch" where
  "upd_rb i f s = s\<lparr>rx_bd := (rx_bd s)(i := f (rx_bd s i))\<rparr>"

definition rb_has :: "u32 \<Rightarrow> nat \<Rightarrow> rxch \<Rightarrow> bool" where
  "rb_has f i s \<longleftrightarrow> hdkif_swizzle_data (rb_flags (rx_bd s i)) AND f = f"

definition put_pb :: "nat \<Rightarrow> pbuf_hdr \<Rightarrow> rxch \<Rightarrow> rxch" where
  "put_pb p b s = s\<lparr>rx_mem := (rx_mem s)\<lparr>pbs := (pbs (rx_mem s))(p \<mapsto> b)\<rparr>\<rparr>"

section \<open>Setting up the list\<close>

definition MAX_RX_PBUF_ALLOC :: nat where "MAX_RX_PBUF_ALLOC = 10"
definition PBUF_LEN_MAX :: u16 where "PBUF_LEN_MAX = 1514"

text \<open>\<open>pbuf_clen\<close> on buffers in memory.\<close>

partial_function (option) clen_loop :: "nat option \<Rightarrow> u8 \<Rightarrow> pbuf_mem \<Rightarrow> u8 option" where
  "clen_loop p n m = (case p of None \<Rightarrow> Some n | Some p \<Rightarrow> do { b \<leftarrow> pbs m p; clen_loop (pb_next b) (n + 1) m })"

text \<open>The descriptors from \<open>cur\<close> on get the buffers of a chain; the result is the next descriptor and the last one written.\<close>

partial_function (option) rx_write_bds :: "nat option \<Rightarrow> nat \<Rightarrow> nat \<Rightarrow> nat \<Rightarrow> rxch \<Rightarrow> (nat \<times> nat \<times> nat \<times> rxch) option" where
  "rx_write_bds q cur l num_bd s =
     (case q of
        None \<Rightarrow> Some (cur, l, num_bd, s)
      | Some p \<Rightarrow> do {
          b \<leftarrow> pbs (rx_mem s) p;
          rx_write_bds (pb_next b) (cur + 1) cur (num_bd - 1)
            (upd_rb cur (\<lambda>_. \<lparr>rb_next = Some (cur + 1), rb_bufptr = p, rb_len = hdkif_swizzle_data (ucast (pb_len b)),
               rb_flags = hdkif_swizzle_data EMAC_BUF_DESC_OWNER, rb_pbuf = p\<rparr>) s)
        })"

text \<open>The loop of \<open>hdkif_hw_init\<close>; \<open>k\<close> more chains are to be allocated.\<close>

fun rx_init_loop :: "nat \<Rightarrow> nat \<Rightarrow> nat \<Rightarrow> nat \<Rightarrow> rxch \<Rightarrow> (nat \<times> rxch) option" where
  "rx_init_loop 0 cur l num_bd s = Some (l, s)"
| "rx_init_loop (Suc k) cur l num_bd s = do {
     (p, m) \<leftarrow> pbuf_alloc_mem PBUF_RAW PBUF_LEN_MAX PBUF_POOL None (rx_mem s);
     let s = s\<lparr>rx_mem := m\<rparr>;
     if p = None then Some (l, s)
     else do {
       n \<leftarrow> clen_loop p 0 m;
       if unat n \<le> num_bd then do {
         (cur, l, num_bd, s) \<leftarrow> rx_write_bds p cur l num_bd s;
         rx_init_loop k cur l num_bd s
       }
       else do { (_, m) \<leftarrow> pbuf_free p m; Some (l, s\<lparr>rx_mem := m\<rparr>) }
     }
   }"

text \<open>The descriptors start behind those of the transmit channel, at \<open>NUM_BD + 1\<close>.\<close>

definition rx_init :: "rxch \<Rightarrow> rxch option" where
  "rx_init s = do {
     let h = NUM_BD + 1;
     let s = s\<lparr>rx_active_head := Some h, rx_free_head := None, freed_pbuf_len := 0\<rparr>;
     (l, s) \<leftarrow> rx_init_loop MAX_RX_PBUF_ALLOC h h (NUM_BD - 1) s;
     let s = upd_rb l (\<lambda>b. b\<lparr>rb_next := None\<rparr>) s;
     Some (s\<lparr>rx_active_tail := Some l, rx_hdp := rx_active_head s\<rparr>)
   }"

section \<open>The receive interrupt\<close>

text \<open>
  The loop over the descriptors of a packet, from \<open>i\<close> on: it links the buffers and writes the lengths that were received; the
  result is the descriptor with the end mark, its link and the length of the buffers. Following a null pointer is \<open>None\<close>.
\<close>

partial_function (option) rx_collect :: "nat \<Rightarrow> u16 \<Rightarrow> u32 \<Rightarrow> u32 \<Rightarrow> rxch \<Rightarrow> (nat \<times> nat option \<times> u32 \<times> rxch) option" where
  "rx_collect i tot_len ex_len len_to_alloc s = do {
     let bd = rx_bd s i;
     b \<leftarrow> pbs (rx_mem s) (rb_pbuf bd);
     nx \<leftarrow> (if pb_next b = None then do { j \<leftarrow> rb_next bd; Some (rb_pbuf (rx_bd s j)) } else pb_next b);
     let n = hdkif_swizzle_data (rb_len bd) AND 0xFFFF;
     let s = put_pb (rb_pbuf bd) (b\<lparr>pb_next := Some nx, pb_len := ucast n, pb_tot_len := tot_len - ucast ex_len\<rparr>) s;
     if rb_has EMAC_BUF_DESC_EOP i s then Some (i, rb_next bd, len_to_alloc + ucast (pb_len b), s)
     else do { j \<leftarrow> rb_next bd; rx_collect j tot_len (ex_len + n) (len_to_alloc + ucast (pb_len b)) s }
   }"

partial_function (option) chain_data :: "nat option \<Rightarrow> rxch \<Rightarrow> u8 list option" where
  "chain_data p s =
     (case p of
        None \<Rightarrow> Some []
      | Some p \<Rightarrow> do { b \<leftarrow> pbs (rx_mem s) p; d \<leftarrow> chain_data (pb_next b) s; Some (take (unat (pb_len b)) (rx_data s p) @ d) })"

text \<open>The end of \<open>pbuf_realloc\<close>: of the chain at \<open>p\<close> the first \<open>k + 1\<close> buffers stay, and the others are released.\<close>

fun cut_chain :: "nat \<Rightarrow> nat \<Rightarrow> pbuf_mem \<Rightarrow> pbuf_mem option" where
  "cut_chain 0 p m = do {
     b \<leftarrow> pbs m p;
     case pb_next b of
       None \<Rightarrow> Some m
     | Some r \<Rightarrow> do { (_, m) \<leftarrow> pbuf_free (Some r) m; Some (m\<lparr>pbs := (pbs m)(p \<mapsto> b\<lparr>pb_next := None\<rparr>)\<rparr>) }
   }"
| "cut_chain (Suc k) p m = do { b \<leftarrow> pbs m p; case pb_next b of None \<Rightarrow> Some m | Some r \<Rightarrow> cut_chain k r m }"

text \<open>
  \<open>ethernet_input\<close>, as far as the buffers of the driver are concerned; what it does with the contents is described in \<open>Rx_Path\<close>.
  It reads the chain; \<open>ip_input\<close> may cut off the end of the chain behind the packet; an ARP or echo reply is built in the
  received buffers, so that \<open>hdkif_output\<close> takes a reference and the transmit channel holds the chain; and in the end the chain is
  released. Which of this happens to the \<open>n\<close>-th frame is the parameter \<open>treat n\<close>: the number of buffers behind the first that stay, and
  whether a reply holds them. Nothing is assumed about it. (The one return that keeps a buffer without holding it, in
  \<open>udp_rx_callback\<close> for a slot that is not in use, is not reached: the invariant of the registry ties every callback to an open slot.)
\<close>

type_synonym treatment = "nat \<Rightarrow> nat \<times> bool"

definition hand_up :: "treatment \<Rightarrow> nat \<Rightarrow> rxch \<Rightarrow> rxch option" where
  "hand_up treat q s = do {
     b \<leftarrow> pbs (rx_mem s) q;
     d \<leftarrow> chain_data (Some q) s;
     let (k, holds) = treat (length (rx_up s));
     m \<leftarrow> cut_chain k q (rx_mem s);
     m \<leftarrow> (if holds then pbuf_ref (Some q) m else Some m);
     (_, m) \<leftarrow> pbuf_free (Some q) m;
     Some (s\<lparr>rx_mem := m, rx_up := rx_up s @ [(pb_tot_len b, d)], rx_held := (if holds then rx_held s @ [q] else rx_held s)\<rparr>)
   }"

text \<open>The transmit interrupt, which empties the transmit ring (\<open>Emac_Driver\<close>), releases the chains one after the other.\<close>

fun free_heads :: "nat list \<Rightarrow> pbuf_mem \<Rightarrow> pbuf_mem option" where
  "free_heads [] m = Some m"
| "free_heads (q # qs) m = do { (_, m) \<leftarrow> pbuf_free (Some q) m; free_heads qs m }"

definition tx_release :: "rxch \<Rightarrow> rxch option" where
  "tx_release s = do { m \<leftarrow> free_heads (rx_held s) (rx_mem s); Some (s\<lparr>rx_mem := m, rx_held := []\<rparr>) }"

text \<open>The loop that gives new buffers to descriptors; the results are the buffers that are left, the next descriptor and the last.\<close>

partial_function (option) rx_refill ::
    "nat option \<Rightarrow> nat option \<Rightarrow> nat \<Rightarrow> rxch \<Rightarrow> (nat option \<times> nat option \<times> nat \<times> rxch) option" where
  "rx_refill q cur l s =
     (case q of
        None \<Rightarrow> Some (None, cur, l, s)
      | Some p \<Rightarrow>
          if cur = rx_active_head s then Some (Some p, cur, l, s)
          else do {
            i \<leftarrow> cur;
            b \<leftarrow> pbs (rx_mem s) p;
            let s = upd_rb i (\<lambda>bd. bd\<lparr>rb_bufptr := p, rb_len := hdkif_swizzle_data (ucast (pb_len b) AND 0xFFFF),
                      rb_flags := hdkif_swizzle_data EMAC_BUF_DESC_OWNER, rb_pbuf := p\<rparr>) s;
            rx_refill (pb_next b) (rb_next (rx_bd s i)) i (s\<lparr>freed_pbuf_len := freed_pbuf_len s - ucast (pb_len b)\<rparr>)
          })"

text \<open>One packet, which starts at \<open>h\<close>; \<open>l\<close> is the variable \<open>last_bd\<close>.\<close>

definition rx_packet :: "treatment \<Rightarrow> nat \<Rightarrow> nat \<Rightarrow> rxch \<Rightarrow> (nat \<times> rxch) option" where
  "rx_packet treat h l s = do {
     let s = (if rx_free_head s = None then s\<lparr>rx_free_head := Some h\<rparr> else s);
     let tot_len = ucast (hdkif_swizzle_data (rb_flags (rx_bd s h)) AND 0xFFFF);
     let q = rb_pbuf (rx_bd s h);
     (e, cur, len_to_alloc, s) \<leftarrow> rx_collect h tot_len 0 0 s;
     b \<leftarrow> pbs (rx_mem s) (rb_pbuf (rx_bd s e));
     s \<leftarrow> hand_up treat q (put_pb (rb_pbuf (rx_bd s e)) (b\<lparr>pb_next := None\<rparr>) s);
     let s = s\<lparr>rx_active_head := cur, freed_pbuf_len := freed_pbuf_len s + len_to_alloc\<rparr>;
     (new_pbuf, m) \<leftarrow> pbuf_alloc_mem PBUF_RAW (ucast (freed_pbuf_len s)) PBUF_POOL None (rx_mem s);
     let s = s\<lparr>rx_mem := m\<rparr>;
     if new_pbuf = None then Some (l, s)
     else do {
       (q, cur, l, s) \<leftarrow> rx_refill new_pbuf (rx_free_head s) l s;
       (_, m) \<leftarrow> (if q = None then Some (0, rx_mem s) else pbuf_free q (rx_mem s));
       tail \<leftarrow> rx_active_tail s;
       f \<leftarrow> Some (rx_free_head s);
       let s = upd_rb tail (\<lambda>bd. bd\<lparr>rb_next := f\<rparr>) (upd_rb l (\<lambda>bd. bd\<lparr>rb_next := None\<rparr>) (s\<lparr>rx_mem := m\<rparr>));
       let s = (if rb_has EMAC_BUF_DESC_EOQ tail s then s\<lparr>rx_hdp := f\<rparr> else s);
       Some (l, s\<lparr>rx_free_head := cur, rx_active_tail := Some l\<rparr>)
     }
   }"

text \<open>The engine runs while the handler waits for a packet that is being received.\<close>

partial_function (option) rx_loop :: "(rxch \<Rightarrow> rxch) \<Rightarrow> treatment \<Rightarrow> nat \<Rightarrow> rxch \<Rightarrow> rxch option" where
  "rx_loop dma treat l s = do {
     h \<leftarrow> rx_active_head s;
     if \<not> rb_has EMAC_BUF_DESC_SOP h s then Some s
     else if rb_has EMAC_BUF_DESC_OWNER h s then rx_loop dma treat l (dma s)
     else do { (l, s) \<leftarrow> rx_packet treat h l s; rx_loop dma treat l s }
   }"

definition hdkif_rx_inthandler :: "(rxch \<Rightarrow> rxch) \<Rightarrow> treatment \<Rightarrow> rxch \<Rightarrow> rxch option" where
  "hdkif_rx_inthandler dma treat s = do { l \<leftarrow> rx_active_tail s; rx_loop dma treat l s }"

section \<open>The DMA engine\<close>

text \<open>
  The engine fills the buffers of successive descriptors, writes into each how many bytes it holds, marks the end and at last the
  start of the packet, and marks the end of the queue when it followed the last link.
\<close>

definition buf_size :: "nat \<Rightarrow> rxch \<Rightarrow> nat" where
  "buf_size i s = unat (hdkif_swizzle_data (rb_len (rx_bd s i)) AND 0xFFFF)"

fun rx_place :: "nat list \<Rightarrow> u8 list \<Rightarrow> rxch \<Rightarrow> rxch" where
  "rx_place [] f s = s"
| "rx_place (i # js) f s =
     (let n = min (buf_size i s) (length f)
      in rx_place js (drop n f)
           (upd_rb i (\<lambda>b. b\<lparr>rb_len := hdkif_swizzle_data (of_nat n), rb_flags := hdkif_swizzle_data (if js = [] then EMAC_BUF_DESC_EOP else 0)\<rparr>)
             (s\<lparr>rx_data := (rx_data s)(rb_bufptr (rx_bd s i) := take n f)\<rparr>)))"

definition rx_filled :: "nat list \<Rightarrow> u8 list \<Rightarrow> rxch \<Rightarrow> rxch" where
  "rx_filled js f s =
     (let t = rx_place js f s;
          t = upd_rb (hd js) (\<lambda>b. b\<lparr>rb_flags := rb_flags b OR hdkif_swizzle_data (EMAC_BUF_DESC_SOP OR ucast (of_nat (length f) :: u16))\<rparr>) t
      in case rb_next (rx_bd t (last js)) of
           None \<Rightarrow> (upd_rb (last js) (\<lambda>b. b\<lparr>rb_flags := rb_flags b OR hdkif_swizzle_data EMAC_BUF_DESC_EOQ\<rparr>) t)\<lparr>rx_hdp := None\<rparr>
         | Some j \<Rightarrow> t\<lparr>rx_hdp := Some j\<rparr>)"

fun bd_path :: "rxch \<Rightarrow> nat list \<Rightarrow> bool" where
  "bd_path s [] \<longleftrightarrow> True"
| "bd_path s [i] \<longleftrightarrow> True"
| "bd_path s (i # j # js) \<longleftrightarrow> rb_next (rx_bd s i) = Some j \<and> bd_path s (j # js)"

text \<open>\<open>takes f js s\<close>: a frame needs the descriptors \<open>js\<close>, all of them.\<close>

definition takes :: "u8 list \<Rightarrow> nat list \<Rightarrow> rxch \<Rightarrow> bool" where
  "takes f js s \<longleftrightarrow> js \<noteq> [] \<and> bd_path s js \<and> list_all (\<lambda>i. rb_has EMAC_BUF_DESC_OWNER i s) js \<and>
     sum_list (map (\<lambda>i. buf_size i s) (butlast js)) < length f \<and> length f \<le> sum_list (map (\<lambda>i. buf_size i s) js)"

definition emac_rx_dma :: "(u8 list \<Rightarrow> rxch \<Rightarrow> rxch) \<Rightarrow> bool" where
  "emac_rx_dma dma \<longleftrightarrow>
     (\<forall>f js s. distinct js \<and> length js \<le> NUM_BD \<and> rx_hdp s = Some (hd js) \<and> takes f js s \<longrightarrow> dma f s = rx_filled js f s)"

text \<open>An engine that follows the links as long as bytes are left.\<close>

fun rx_walk :: "nat \<Rightarrow> nat \<Rightarrow> nat \<Rightarrow> rxch \<Rightarrow> nat list" where
  "rx_walk 0 n i s = [i]"
| "rx_walk (Suc k) n i s =
     (if n \<le> buf_size i s then [i]
      else case rb_next (rx_bd s i) of None \<Rightarrow> [i] | Some j \<Rightarrow> i # rx_walk k (n - buf_size i s) j s)"

definition rx_dma_model :: "u8 list \<Rightarrow> rxch \<Rightarrow> rxch" where
  "rx_dma_model f s = (case rx_hdp s of None \<Rightarrow> s | Some i \<Rightarrow> rx_filled (rx_walk NUM_BD (length f) i s) f s)"

lemma rx_walk_takes:
  "bd_path s js \<Longrightarrow> js \<noteq> [] \<Longrightarrow> sum_list (map (\<lambda>i. buf_size i s) (butlast js)) < n \<Longrightarrow> n \<le> sum_list (map (\<lambda>i. buf_size i s) js) \<Longrightarrow>
     length js \<le> k \<Longrightarrow> rx_walk k n (hd js) s = js"
proof (induction s js arbitrary: n k rule: bd_path.induct)
  case (3 s i j js)
  then obtain k' where k: "k = Suc k'" by (cases k) auto
  have "\<not> n \<le> buf_size i s" using "3.prems"(3) by simp
  moreover have "rx_walk k' (n - buf_size i s) (hd (j # js)) s = j # js" by (rule "3.IH") (use "3.prems" k in auto)
  ultimately show ?case using "3.prems"(1) k by simp
next
  case (2 s i)
  then show ?case by (cases k) auto
qed simp

lemma rx_dma_model: "emac_rx_dma rx_dma_model"
  by (auto simp: emac_rx_dma_def rx_dma_model_def takes_def rx_walk_takes simp del: NUM_BD)

section \<open>Chains in memory\<close>

text \<open>
  A chain of buffers of the pool with one reference each, given by the addresses and lengths of the buffers; \<open>z\<close> is the link of
  the last.
\<close>

definition at_first :: "(nat \<times> 'a) list \<Rightarrow> nat option \<Rightarrow> nat option" where
  "at_first ps z = (case ps of [] \<Rightarrow> z | x # _ \<Rightarrow> Some (fst x))"

lemma at_first_simps [simp]: "at_first [] z = z" "at_first (x # ps) z = Some (fst x)"
  by (simp_all add: at_first_def)

fun pchain :: "pbuf_mem \<Rightarrow> (nat \<times> nat) list \<Rightarrow> nat option \<Rightarrow> bool" where
  "pchain m [] z \<longleftrightarrow> True"
| "pchain m ((p, n) # ps) z \<longleftrightarrow>
     (\<exists>b. pbs m p = Some b \<and> pb_next b = at_first ps z \<and> unat (pb_len b) = n \<and> pb_ref b = 1 \<and> pb_type b = PBUF_POOL) \<and> pchain m ps z"

lemma pchain_cong: "(\<And>p. p \<in> set (map fst ps) \<Longrightarrow> pbs m' p = pbs m p) \<Longrightarrow> pchain m' ps z = pchain m ps z"
  by (induction m ps z rule: pchain.induct) auto

lemma pchain_append: "pchain m (ps @ qs) z \<longleftrightarrow> pchain m ps (at_first qs z) \<and> pchain m qs z"
proof (induction m ps z rule: pchain.induct)
  case (2 m p n ps z)
  then show ?case by (cases ps) auto
qed simp

lemma free_pchain:
  assumes "pchain m ps None" and "distinct (map fst ps)"
  shows "\<exists>c m'. free_loop (at_first ps None) k m = Some (c, m') \<and> pb_pool m' = rev (map fst ps) @ pb_pool m \<and>
    pbs m' = (\<lambda>x. if x \<in> set (map fst ps) then None else pbs m x)"
  using assms
proof (induction ps arbitrary: m k)
  case Nil
  then show ?case by (simp add: free_loop.simps)
next
  case (Cons x ps)
  obtain p n where x: "x = (p, n)" by force
  then obtain b where b: "pbs m p = Some b" "pb_next b = at_first ps None" "pb_ref b = 1" "pb_type b = PBUF_POOL" "pchain m ps None"
    using Cons.prems(1) by auto
  have "pchain (dealloc p b m) ps None" using b(5) Cons.prems(2) x by (subst pchain_cong) (auto simp: dealloc_def)
  then obtain c m' where m': "free_loop (at_first ps None) (k + 1) (dealloc p b m) = Some (c, m')"
    "pb_pool m' = rev (map fst ps) @ pb_pool (dealloc p b m)"
    "pbs m' = (\<lambda>x. if x \<in> set (map fst ps) then None else pbs (dealloc p b m) x)"
    using Cons.IH Cons.prems(2) by fastforce
  have "free_loop (at_first (x # ps) None) k m = Some (c, m')" using m'(1) b x by (subst free_loop.simps) simp
  moreover have "pb_pool m' = rev (map fst (x # ps)) @ pb_pool m" using m'(2) b x by (simp add: dealloc_def)
  moreover have "pbs m' = (\<lambda>y. if y \<in> set (map fst (x # ps)) then None else pbs m y)"
    using m'(3) x by (auto simp: dealloc_def fun_eq_iff)
  ultimately show ?case by blast
qed

text \<open>The lengths of the buffers that the pool gives for \<open>n\<close> bytes.\<close>

function slices :: "nat \<Rightarrow> nat list" where
  "slices n = (if n = 0 then [] else min n 256 # slices (n - 256))"
  by auto
termination
  by (relation "measure id") auto

declare slices.simps [simp del]

lemma slices_0 [simp]: "slices 0 = []"
  by (simp add: slices.simps)

lemma slices_pos: "n \<noteq> 0 \<Longrightarrow> slices n = min n 256 # slices (n - 256)"
  by (simp add: slices.simps [of n])

lemma sum_slices [simp]: "sum_list (slices n) = n"
  by (induction n rule: slices.induct) (subst slices.simps, auto)

lemma slices_le: "x \<in> set (slices n) \<Longrightarrow> 0 < x \<and> x \<le> 256"
proof (induction n rule: slices.induct)
  case (1 n)
  then show ?case by (cases "n = 0") (auto simp: slices.simps [of n])
qed

lemma length_slices: "n \<le> 256 * k \<Longrightarrow> 256 * k < n + 256 \<Longrightarrow> length (slices n) = k"
proof (induction n arbitrary: k rule: slices.induct)
  case (1 n)
  show ?case
  proof (cases "n = 0")
    case True
    then show ?thesis using "1.prems" by (simp add: slices.simps [of n])
  next
    case False
    obtain k' where k: "k = Suc k'" using False "1.prems" by (cases k) auto
    have "length (slices (n - 256)) = k'"
    proof (cases "n \<le> 256")
      case True
      then show ?thesis using "1.prems" k by (simp add: slices.simps [of 0])
    next
      case n: False
      show ?thesis by (rule "1.IH" [OF False]) (use "1.prems" k n in auto)
    qed
    then show ?thesis using False k by (simp add: slices.simps [of n])
  qed
qed

lemma pool_loop_pchain:
  assumes "pb_pool m = qs @ rest" and "length qs = length (slices n)" and "distinct (r # qs)" and "n < 65536"
    and "pbs m r = Some b" and "pb_next b = None"
  shows "\<exists>m'. pool_loop p r n m = Some (Some p, m') \<and> pb_pool m' = rest \<and> pchain m' (zip qs (slices n)) None \<and>
    pbs m' r = Some (b\<lparr>pb_next := at_first (zip qs (slices n)) None\<rparr>) \<and> (\<forall>x. x \<notin> insert r (set qs) \<longrightarrow> pbs m' x = pbs m x)"
  using assms
proof (induction qs arbitrary: r n m b)
  case Nil
  then have "n = 0" by (cases "n = 0") (auto simp: slices.simps [of n])
  with Nil show ?case by (simp add: pool_loop.simps slices.simps)
next
  case (Cons q qs)
  then have n: "n \<noteq> 0" by (cases "n = 0") auto
  note sl = slices_pos [OF n]
  let ?len = "min n PBUF_POOL_BUFSIZE"
  let ?b = "\<lparr>pb_next = None, pb_tot_len = of_nat n, pb_len = of_nat ?len, pb_type = PBUF_POOL, pb_ref = 1\<rparr>"
  let ?s = "m\<lparr>pb_pool := qs @ rest, pbs := (pbs m)(q \<mapsto> ?b)\<rparr>"
  let ?t = "?s\<lparr>pbs := (pbs ?s)(r \<mapsto> b\<lparr>pb_next := Some q\<rparr>)\<rparr>"
  have len: "unat (of_nat ?len :: u16) = min n 256" using Cons.prems(4) by (simp add: unat_of_nat PBUF_POOL_BUFSIZE_def)
  have rq: "r \<noteq> q" using Cons.prems(3) by simp
  have "n - ?len = n - 256" by (simp add: PBUF_POOL_BUFSIZE_def)
  moreover have "pool_loop p r n m = pool_loop p q (n - ?len) ?t"
    using n Cons.prems(1,5) rq by (subst pool_loop.simps) (simp add: Let_def upd_pb_def)
  ultimately have step: "pool_loop p r n m = pool_loop p q (n - 256) ?t" by simp
  have "\<exists>m'. pool_loop p q (n - 256) ?t = Some (Some p, m') \<and> pb_pool m' = rest \<and> pchain m' (zip qs (slices (n - 256))) None \<and>
    pbs m' q = Some (?b\<lparr>pb_next := at_first (zip qs (slices (n - 256))) None\<rparr>) \<and> (\<forall>x. x \<notin> insert q (set qs) \<longrightarrow> pbs m' x = pbs ?t x)"
    by (rule Cons.IH) (use Cons.prems sl rq in auto)
  then obtain m' where m': "pool_loop p q (n - 256) ?t = Some (Some p, m')" "pb_pool m' = rest" "pchain m' (zip qs (slices (n - 256))) None"
    "pbs m' q = Some (?b\<lparr>pb_next := at_first (zip qs (slices (n - 256))) None\<rparr>)" "\<forall>x. x \<notin> insert q (set qs) \<longrightarrow> pbs m' x = pbs ?t x" by blast
  have "pbs m' r = Some (b\<lparr>pb_next := Some q\<rparr>)" using m'(5) Cons.prems(3) by simp
  then show ?case using step m' sl len rq by (intro exI [of _ m']) auto
qed

text \<open>\<open>pbuf_alloc\<close> takes the first buffers of the pool.\<close>

lemma alloc_pchain:
  assumes "pb_pool m = qs @ rest" and "length qs = length (slices (unat n))" and "distinct qs" and "n \<noteq> 0"
  shows "\<exists>m'. pbuf_alloc_mem PBUF_RAW n PBUF_POOL None m = Some (Some (hd qs), m') \<and> pb_pool m' = rest \<and>
    pchain m' (zip qs (slices (unat n))) None \<and> (\<forall>x. x \<notin> set qs \<longrightarrow> pbs m' x = pbs m x) \<and> qs \<noteq> []"
proof -
  have n: "unat n \<noteq> 0" "unat n < 65536" using assms(4) unsigned_less [of n, where ?'a = nat] by (simp_all add: unat_eq_zero)
  have lt: "unat n - 256 < 65536" using n(2) by linarith
  note sl = slices_pos [OF n(1)]
  then obtain p ps where qs: "qs = p # ps" using assms(2) by (cases qs) auto
  let ?len = "min (unat n) (PBUF_POOL_BUFSIZE - LWIP_MEM_ALIGN_SIZE (layer_offset PBUF_RAW))"
  have l: "?len = min (unat n) 256" by (simp add: PBUF_POOL_BUFSIZE_def LWIP_MEM_ALIGN_SIZE_def layer_offset_def)
  let ?b = "\<lparr>pb_next = None, pb_tot_len = n, pb_len = of_nat ?len, pb_type = PBUF_POOL, pb_ref = 1\<rparr>"
  let ?s = "m\<lparr>pb_pool := ps @ rest, pbs := (pbs m)(p \<mapsto> ?b)\<rparr>"
  have "\<exists>m'. pool_loop p p (unat n - 256) ?s = Some (Some p, m') \<and> pb_pool m' = rest \<and> pchain m' (zip ps (slices (unat n - 256))) None \<and>
    pbs m' p = Some (?b\<lparr>pb_next := at_first (zip ps (slices (unat n - 256))) None\<rparr>) \<and> (\<forall>x. x \<notin> insert p (set ps) \<longrightarrow> pbs m' x = pbs ?s x)"
    by (rule pool_loop_pchain) (use assms qs sl lt in auto)
  then obtain m' where m': "pool_loop p p (unat n - 256) ?s = Some (Some p, m')" "pb_pool m' = rest"
    "pchain m' (zip ps (slices (unat n - 256))) None" "pbs m' p = Some (?b\<lparr>pb_next := at_first (zip ps (slices (unat n - 256))) None\<rparr>)"
    "\<forall>x. x \<notin> insert p (set ps) \<longrightarrow> pbs m' x = pbs ?s x" by blast
  moreover have "unat n - min (unat n) 256 = unat n - 256" by simp
  then have "pbuf_alloc_mem PBUF_RAW n PBUF_POOL None m = pool_loop p p (unat n - 256) ?s"
    using assms(1) qs l by (simp only: pbuf_alloc_mem_def Let_def append_Cons list.case) simp
  moreover have "unat (of_nat ?len :: u16) = min (unat n) 256" unfolding l by (simp add: unat_of_nat)
  ultimately show ?thesis using sl qs by (intro exI [of _ m']) simp
qed

section \<open>Descriptors with their buffers\<close>

text \<open>
  A piece of the list of descriptors, given by the descriptors, the buffers and the lengths of the buffers; \<open>z\<close> is the descriptor behind it with its
  buffer. The link of a buffer is empty or leads to the buffer of the next descriptor.
\<close>

type_synonym cell = "nat \<times> nat \<times> nat"

abbreviation bds :: "cell list \<Rightarrow> nat list" where "bds cs \<equiv> map fst cs"
abbreviation bufs :: "cell list \<Rightarrow> nat list" where "bufs cs \<equiv> map (\<lambda>c. fst (snd c)) cs"
abbreviation lens :: "cell list \<Rightarrow> nat list" where "lens cs \<equiv> map (\<lambda>c. snd (snd c)) cs"

definition cell_at :: "cell list \<Rightarrow> (nat \<times> nat) option \<Rightarrow> (nat \<times> nat) option" where
  "cell_at cs z = (case cs of [] \<Rightarrow> z | c # _ \<Rightarrow> Some (fst c, fst (snd c)))"

lemma cell_at_simps [simp]: "cell_at [] z = z" "cell_at (c # cs) z = Some (fst c, fst (snd c))"
  by (simp_all add: cell_at_def)

lemma cell_at_append: "cell_at (cs @ ds) z = cell_at cs (cell_at ds z)"
  by (cases cs) auto

lemma cell_at_last: "cs \<noteq> [] \<Longrightarrow> cell_at cs z = Some (fst (hd cs), fst (snd (hd cs)))"
  by (cases cs) auto

fun cells :: "rxch \<Rightarrow> cell list \<Rightarrow> (nat \<times> nat) option \<Rightarrow> bool" where
  "cells s [] z \<longleftrightarrow> True"
| "cells s ((i, p, n) # cs) z \<longleftrightarrow>
     rb_pbuf (rx_bd s i) = p \<and> rb_bufptr (rx_bd s i) = p \<and> rb_next (rx_bd s i) = map_option fst (cell_at cs z) \<and>
     (\<exists>b. pbs (rx_mem s) p = Some b \<and> unat (pb_len b) = n \<and> pb_ref b = 1 \<and> pb_type b = PBUF_POOL \<and>
       (pb_next b = None \<or> pb_next b = map_option snd (cell_at cs z))) \<and>
     cells s cs z"

lemma cells_append: "cells s (cs @ ds) z \<longleftrightarrow> cells s cs (cell_at ds z) \<and> cells s ds z"
  by (induction s cs z rule: cells.induct) (auto simp: cell_at_append)

lemma cells_cong:
  assumes "\<And>i. i \<in> set (bds cs) \<Longrightarrow> rb_pbuf (rx_bd t i) = rb_pbuf (rx_bd s i) \<and> rb_bufptr (rx_bd t i) = rb_bufptr (rx_bd s i) \<and>
      rb_next (rx_bd t i) = rb_next (rx_bd s i)"
    and "\<And>p. p \<in> set (bufs cs) \<Longrightarrow> pbs (rx_mem t) p = pbs (rx_mem s) p"
  shows "cells t cs z = cells s cs z"
  using assms by (induction s cs z rule: cells.induct) auto

text \<open>What the handler reads in the buffers of a packet: as many bytes as the descriptor says.\<close>

definition rx_received :: "rxch \<Rightarrow> cell list \<Rightarrow> (nat \<times> nat) list" where
  "rx_received s cs = map (\<lambda>c. (fst (snd c), buf_size (fst c) s)) cs"

definition packet_data :: "rxch \<Rightarrow> cell list \<Rightarrow> u8 list" where
  "packet_data s cs = concat (map (\<lambda>c. take (buf_size (fst c) s) (rx_data s (fst (snd c)))) cs)"

lemma buf_len: "unat (ucast (hdkif_swizzle_data w AND 0xFFFF) :: u16) = unat (hdkif_swizzle_data w AND 0xFFFF)"
proof -
  have m: "(0xFFFF :: u32) = mask 16" by (simp add: mask_eq_exp_minus_1)
  have "hdkif_swizzle_data w AND 0xFFFF < 2 ^ 16" unfolding m by (rule and_mask_less') simp
  then have "unat (hdkif_swizzle_data w AND 0xFFFF) < 65536" by (simp add: word_less_nat_alt)
  then show ?thesis by (simp add: unsigned_ucast_eq take_bit_nat_eq_self)
qed

lemma put_pb_simps [simp]:
  "rx_bd (put_pb p b s) = rx_bd s" "rx_data (put_pb p b s) = rx_data s" "rx_up (put_pb p b s) = rx_up s" "rx_held (put_pb p b s) = rx_held s"
  "pbs (rx_mem (put_pb p b s)) = (pbs (rx_mem s))(p \<mapsto> b)" "pb_pool (rx_mem (put_pb p b s)) = pb_pool (rx_mem s)"
  "buf_size i (put_pb p b s) = buf_size i s" "rb_has f i (put_pb p b s) = rb_has f i s"
  by (simp_all add: put_pb_def buf_size_def rb_has_def)

text \<open>The loop over a packet that ends with \<open>cs\<close>, in front of the descriptor \<open>j\<close> with the buffer \<open>q\<close>.\<close>

lemma rx_collect_cells:
  assumes "cells s cs (Some (j, q))" and "rb_pbuf (rx_bd s j) = q" and "cs \<noteq> []" and "distinct (bufs cs)"
    and "list_all (\<lambda>c. \<not> rb_has EMAC_BUF_DESC_EOP (fst c) s) (butlast cs)" and "rb_has EMAC_BUF_DESC_EOP (fst (last cs)) s"
  shows "\<exists>m b. rx_collect (fst (hd cs)) tot ex ln s = Some (fst (last cs), Some j, ln + of_nat (sum_list (lens cs)), s\<lparr>rx_mem := m\<rparr>) \<and>
    pb_pool m = pb_pool (rx_mem s) \<and> (\<forall>x. x \<notin> set (bufs cs) \<longrightarrow> pbs m x = pbs (rx_mem s) x) \<and>
    pchain m (rx_received s cs) (Some q) \<and> pbs m (fst (snd (hd cs))) = Some b \<and> pb_tot_len b = tot - ucast ex"
  using assms
proof (induction cs arbitrary: s ex ln)
  case Nil
  then show ?case by simp
next
  case (Cons c cs)
  obtain i p n where c: "c = (i, p, n)" by (cases c) auto
  let ?z = "cell_at cs (Some (j, q))"
  obtain b where i: "rb_pbuf (rx_bd s i) = p" "rb_next (rx_bd s i) = map_option fst ?z" "pbs (rx_mem s) p = Some b" "unat (pb_len b) = n"
    "pb_ref b = 1" "pb_type b = PBUF_POOL" "pb_next b = None \<or> pb_next b = map_option snd ?z" "cells s cs (Some (j, q))"
    using Cons.prems(1) c by auto
  obtain j' q' where z: "?z = Some (j', q')" by (cases cs) auto
  have q': "rb_pbuf (rx_bd s j') = q'"
  proof (cases cs)
    case Nil
    then show ?thesis using z Cons.prems(2) by simp
  next
    case (Cons d ds)
    then show ?thesis using z i(8) by (cases d) auto
  qed
  have ln: "ln + ucast (pb_len b) = ln + (of_nat n :: u32)" using i(4) of_nat_unat by metis
  let ?n = "hdkif_swizzle_data (rb_len (rx_bd s i)) AND 0xFFFF"
  let ?b = "b\<lparr>pb_next := Some q', pb_len := ucast ?n, pb_tot_len := tot - ucast ex\<rparr>"
  let ?s = "put_pb p ?b s"
  have nx: "(if pb_next b = None then do { j \<leftarrow> rb_next (rx_bd s i); Some (rb_pbuf (rx_bd s j)) } else pb_next b) = Some q'"
    using i(2,7) z q' by auto
  have len: "unat (pb_len ?b) = buf_size i s" by (simp add: buf_len buf_size_def)
  have mem: "?s = s\<lparr>rx_mem := rx_mem ?s\<rparr>" by (simp add: put_pb_def)
  show ?case
  proof (cases cs)
    case Nil
    then have "rb_has EMAC_BUF_DESC_EOP i s" "q' = q" "j' = j" using Cons.prems(6) c z by auto
    then have "rx_collect i tot ex ln s = Some (i, Some j, ln + of_nat n, ?s)"
      using i nx ln z by (subst rx_collect.simps) (simp add: Let_def)
    then show ?thesis using Nil c len i mem \<open>q' = q\<close> by (auto simp: rx_received_def intro!: exI [of _ "rx_mem ?s"])
  next
    case (Cons d ds)
    have "\<not> rb_has EMAC_BUF_DESC_EOP i s" using Cons.prems(5) c Cons by simp
    then have step: "rx_collect i tot ex ln s = rx_collect j' tot (ex + ?n) (ln + of_nat n) ?s"
      using i nx ln z by (subst rx_collect.simps) (simp add: Let_def)
    have "cells ?s cs (Some (j, q))" using i(8) Cons.prems(4) c by (subst cells_cong [of _ _ s]) auto
    then obtain m b' where m: "rx_collect (fst (hd cs)) tot (ex + ?n) (ln + of_nat n) ?s =
        Some (fst (last cs), Some j, ln + of_nat n + of_nat (sum_list (lens cs)), ?s\<lparr>rx_mem := m\<rparr>)"
      "pb_pool m = pb_pool (rx_mem ?s)" "\<forall>x. x \<notin> set (bufs cs) \<longrightarrow> pbs m x = pbs (rx_mem ?s) x" "pchain m (rx_received ?s cs) (Some q)"
      using Cons.IH [of ?s "ex + ?n" "ln + of_nat n"] Cons.prems c Cons by auto
    have p: "pbs m p = Some ?b" using m(3) Cons.prems(4) c by auto
    have "fst (hd cs) = j'" "at_first (rx_received s cs) (Some q) = Some q'" using z Cons by (auto simp: rx_received_def)
    moreover have "rx_received ?s cs = rx_received s cs" by (simp add: rx_received_def)
    ultimately have "pchain m (rx_received s (c # cs)) (Some q)" using m(4) p len i(5,6) c by (simp add: rx_received_def)
    moreover have "?s\<lparr>rx_mem := m\<rparr> = s\<lparr>rx_mem := m\<rparr>" by (simp add: put_pb_def)
    ultimately show ?thesis using step m(1-3) p c Cons \<open>fst (hd cs) = j'\<close>
      by (intro exI [of _ m] exI [of _ ?b]) (auto simp: add.assoc)
  qed
qed

text \<open>Closing the chain.\<close>

lemma pchain_close:
  assumes "pchain m ps (Some q)" and "distinct (map fst ps)" and "ps \<noteq> []" and "pbs m (fst (last ps)) = Some b"
  shows "pchain (m\<lparr>pbs := (pbs m)(fst (last ps) \<mapsto> b\<lparr>pb_next := None\<rparr>)\<rparr>) ps None"
proof -
  obtain p n qs where ps: "ps = qs @ [(p, n)]" using assms(3) by (metis append_butlast_last_id prod.exhaust)
  then have "pchain m qs (Some p)" "unat (pb_len b) = n" "pb_ref b = 1" "pb_type b = PBUF_POOL"
    using assms(1,4) by (auto simp: pchain_append)
  moreover have "p \<notin> set (map fst qs)" using assms(2) ps by simp
  then have "pchain (m\<lparr>pbs := (pbs m)(p \<mapsto> b\<lparr>pb_next := None\<rparr>)\<rparr>) qs (Some p) = pchain m qs (Some p)"
    by (intro pchain_cong) auto
  ultimately show ?thesis using ps by (simp add: pchain_append)
qed

lemma chain_data_pchain: "pchain (rx_mem s) ps None \<Longrightarrow>
    chain_data (at_first ps None) s = Some (concat (map (\<lambda>(p, n). take n (rx_data s p)) ps))"
proof (induction ps)
  case Nil
  then show ?case by (simp add: chain_data.simps)
next
  case (Cons x ps)
  then show ?case by (cases x) (subst chain_data.simps, auto)
qed

lemma cut_pchain:
  assumes "pchain m ps None" and "distinct (map fst ps)" and "ps \<noteq> []"
  shows "\<exists>m'. cut_chain k (fst (hd ps)) m = Some m' \<and> pb_pool m' = rev (map fst (drop (Suc k) ps)) @ pb_pool m \<and>
    pchain m' (take (Suc k) ps) None \<and> (\<forall>x. x \<notin> set (map fst ps) \<longrightarrow> pbs m' x = pbs m x)"
  using assms
proof (induction k arbitrary: ps)
  case 0
  obtain p n qs where ps: "ps = (p, n) # qs" using "0.prems"(3) by (cases ps) auto
  then obtain b where b: "pbs m p = Some b" "pb_next b = at_first qs None" "unat (pb_len b) = n" "pb_ref b = 1" "pb_type b = PBUF_POOL"
    "pchain m qs None" using "0.prems"(1) by auto
  show ?case
  proof (cases qs)
    case Nil
    then show ?thesis using ps b by simp
  next
    case (Cons x xs)
    then have f: "at_first qs None = Some (fst x)" by simp
    have "distinct (map fst qs)" using "0.prems"(2) ps by simp
    then obtain c m' where "pbuf_free (Some (fst x)) m = Some (c, m')" "pb_pool m' = rev (map fst qs) @ pb_pool m"
      "pbs m' = (\<lambda>x. if x \<in> set (map fst qs) then None else pbs m x)"
      using free_pchain [OF b(6), of 0] f by (auto simp: pbuf_free_def)
    then show ?thesis using ps b f by (auto simp: Cons)
  qed
next
  case (Suc k)
  obtain p n qs where ps: "ps = (p, n) # qs" using Suc.prems(3) by (cases ps) auto
  then obtain b where b: "pbs m p = Some b" "pb_next b = at_first qs None" "unat (pb_len b) = n" "pb_ref b = 1" "pb_type b = PBUF_POOL"
    "pchain m qs None" using Suc.prems(1) by auto
  show ?case
  proof (cases qs)
    case Nil
    then show ?thesis using ps b by simp
  next
    case (Cons x xs)
    then obtain m' where m': "cut_chain k (fst x) m = Some m'" "pb_pool m' = rev (map fst (drop (Suc k) qs)) @ pb_pool m"
      "pchain m' (take (Suc k) qs) None" "\<forall>x. x \<notin> set (map fst qs) \<longrightarrow> pbs m' x = pbs m x"
      using Suc.IH [of qs] b(6) Suc.prems(2) ps by auto
    have "pbs m' p = Some b" using m'(4) b(1) Suc.prems(2) ps by simp
    then show ?thesis using m' ps b Cons by auto
  qed
qed

text \<open>A reference and a release in turn leave a chain as it is.\<close>

lemma ref_free:
  assumes "pbs m p = Some b" and "pb_ref b = 1"
  shows "do { m \<leftarrow> pbuf_ref (Some p) m; pbuf_free (Some p) m } = Some (0, m)"
proof -
  have "b\<lparr>pb_ref := 1\<rparr> = b" using assms(2) by (intro pbuf_hdr.equality) simp_all
  then have "(pbs m)(p \<mapsto> b\<lparr>pb_ref := 1\<rparr>) = pbs m" using assms(1) by (simp add: fun_upd_idem)
  then show ?thesis using assms by (simp add: pbuf_ref_def upd_pb_def pbuf_free_def free_loop.simps)
qed

text \<open>The buffers of the \<open>n\<close>-th chain that a reply holds.\<close>

definition kept_part :: "treatment \<Rightarrow> nat \<Rightarrow> (nat \<times> nat) list \<Rightarrow> (nat \<times> nat) list" where
  "kept_part treat n ps = (if snd (treat n) then take (Suc (fst (treat n))) ps else [])"

lemma hand_up_pchain:
  fixes ps :: "(nat \<times> nat) list" and treat :: treatment
  assumes "pchain (rx_mem s) ps None" and "distinct (map fst ps)" and "ps \<noteq> []" and "pbs (rx_mem s) (fst (hd ps)) = Some b"
  defines "kp \<equiv> kept_part treat (length (rx_up s)) ps"
  shows "\<exists>m gone. hand_up treat (fst (hd ps)) s =
      Some (s\<lparr>rx_mem := m, rx_up := rx_up s @ [(pb_tot_len b, concat (map (\<lambda>(p, n). take n (rx_data s p)) ps))],
        rx_held := rx_held s @ map fst (take 1 kp)\<rparr>) \<and>
    pb_pool m = gone @ pb_pool (rx_mem s) \<and> mset (map fst kp @ gone) = mset (map fst ps) \<and> pchain m kp None \<and>
    (\<forall>x. x \<notin> set (map fst ps) \<longrightarrow> pbs m x = pbs (rx_mem s) x)"
proof -
  obtain k holds where t: "treat (length (rx_up s)) = (k, holds)" by force
  let ?k = "take (Suc k) ps" and ?d = "drop (Suc k) ps"
  obtain p n qs where ps: "ps = (p, n) # qs" using assms(3) by (cases ps) auto
  have h: "at_first ps None = Some p" "fst (hd ps) = p" "at_first ?k None = Some p" "p \<in> set (map fst ?k)" using ps by simp_all
  obtain m1 where m1: "cut_chain k p (rx_mem s) = Some m1" "pb_pool m1 = rev (map fst ?d) @ pb_pool (rx_mem s)" "pchain m1 ?k None"
    "\<And>x. x \<notin> set (map fst ps) \<Longrightarrow> pbs m1 x = pbs (rx_mem s) x"
    using cut_pchain [OF assms(1-3), of k] h(2) by auto
  have d: "chain_data (Some p) s = Some (concat (map (\<lambda>(p, n). take n (rx_data s p)) ps))"
    using chain_data_pchain [OF assms(1)] h(1) by simp
  have split: "mset (map fst ?k) + mset (map fst ?d) = mset (map fst ps)"
    by (metis append_take_drop_id map_append mset_append)
  show ?thesis
  proof (cases holds)
    case True
    then have kp: "kp = ?k" using t by (simp add: kp_def kept_part_def)
    obtain b1 where "pbs m1 p = Some b1" "pb_ref b1 = 1" using m1(3) ps by auto
    from ref_free [OF this] have "hand_up treat p s = Some (s\<lparr>rx_mem := m1,
        rx_up := rx_up s @ [(pb_tot_len b, concat (map (\<lambda>(p, n). take n (rx_data s p)) ps))], rx_held := rx_held s @ [p]\<rparr>)"
      using assms(4) d m1(1) t True h(2) by (auto simp: hand_up_def split: Option.bind_splits)
    then show ?thesis using m1 split kp ps by (intro exI [of _ m1] exI [of _ "rev (map fst ?d)"]) auto
  next
    case False
    then have kp: "kp = []" using t by (simp add: kp_def kept_part_def)
    have "distinct (map fst ?k)" using assms(2) by (metis distinct_take take_map)
    then obtain c m2 where m2: "pbuf_free (Some p) m1 = Some (c, m2)" "pb_pool m2 = rev (map fst ?k) @ pb_pool m1"
      "pbs m2 = (\<lambda>x. if x \<in> set (map fst ?k) then None else pbs m1 x)"
      using free_pchain [OF m1(3), of 0] h(3) by (auto simp: pbuf_free_def)
    then have "hand_up treat p s = Some (s\<lparr>rx_mem := m2,
        rx_up := rx_up s @ [(pb_tot_len b, concat (map (\<lambda>(p, n). take n (rx_data s p)) ps))], rx_held := rx_held s\<rparr>)"
      using assms(4) d m1(1) t False h(2) by (simp add: hand_up_def)
    moreover have "set (map fst ?k) \<subseteq> set (map fst ps)" by (metis set_take_subset take_map)
    ultimately show ?thesis using m1 m2 split kp h(2)
      by (intro exI [of _ m2] exI [of _ "rev (map fst ?k) @ rev (map fst ?d)"]) auto
  qed
qed

text \<open>Giving new buffers to descriptors.\<close>

fun rearm :: "cell list \<Rightarrow> rxch \<Rightarrow> rxch" where
  "rearm [] s = s"
| "rearm ((i, p, n) # cs) s =
     rearm cs ((upd_rb i (\<lambda>bd. bd\<lparr>rb_bufptr := p, rb_len := hdkif_swizzle_data (of_nat n), rb_flags := hdkif_swizzle_data EMAC_BUF_DESC_OWNER,
       rb_pbuf := p\<rparr>) s)\<lparr>freed_pbuf_len := freed_pbuf_len s - of_nat n\<rparr>)"

lemma upd_rb_simps [simp]:
  "rx_bd (upd_rb i f s) j = (if j = i then f (rx_bd s i) else rx_bd s j)" "rx_mem (upd_rb i f s) = rx_mem s" "rx_data (upd_rb i f s) = rx_data s"
  "rx_up (upd_rb i f s) = rx_up s" "rx_hdp (upd_rb i f s) = rx_hdp s" "rx_free_head (upd_rb i f s) = rx_free_head s"
  "rx_active_head (upd_rb i f s) = rx_active_head s" "rx_active_tail (upd_rb i f s) = rx_active_tail s"
  "freed_pbuf_len (upd_rb i f s) = freed_pbuf_len s" "rx_held (upd_rb i f s) = rx_held s"
  by (simp_all add: upd_rb_def)

lemma rearm_keeps [simp]:
  "rx_held (rearm cs s) = rx_held s" "rx_mem (rearm cs s) = rx_mem s" "rx_data (rearm cs s) = rx_data s" "rx_up (rearm cs s) = rx_up s" "rx_hdp (rearm cs s) = rx_hdp s"
  "rx_free_head (rearm cs s) = rx_free_head s" "rx_active_head (rearm cs s) = rx_active_head s" "rx_active_tail (rearm cs s) = rx_active_tail s"
  "freed_pbuf_len (rearm cs s) = freed_pbuf_len s - of_nat (sum_list (lens cs))" "rb_next (rx_bd (rearm cs s) i) = rb_next (rx_bd s i)"
  by (induction cs s rule: rearm.induct) (simp_all add: algebra_simps)

lemma rearm_bd: "i \<notin> set (bds cs) \<Longrightarrow> rx_bd (rearm cs s) i = rx_bd s i"
  by (induction cs s rule: rearm.induct) auto

lemma rearm_cell: "distinct (bds cs) \<Longrightarrow> (i, p, n) \<in> set cs \<Longrightarrow>
    rx_bd (rearm cs s) i = (rx_bd s i)\<lparr>rb_bufptr := p, rb_len := hdkif_swizzle_data (of_nat n),
      rb_flags := hdkif_swizzle_data EMAC_BUF_DESC_OWNER, rb_pbuf := p\<rparr>"
proof (induction cs s rule: rearm.induct)
  case (2 j q k cs s)
  show ?case
  proof (cases "(i, p, n) = (j, q, k)")
    case True
    then show ?thesis using "2.prems" rearm_bd [of i cs] by simp
  next
    case False
    then have "i \<noteq> j" "(i, p, n) \<in> set cs" using "2.prems" by force+
    then show ?thesis using "2.IH" "2.prems"(1) by simp
  qed
qed simp

fun bd_links :: "rxch \<Rightarrow> nat list \<Rightarrow> nat option \<Rightarrow> bool" where
  "bd_links s [] z \<longleftrightarrow> True"
| "bd_links s (i # js) z \<longleftrightarrow> rb_next (rx_bd s i) = (case js of [] \<Rightarrow> z | j # _ \<Rightarrow> Some j) \<and> bd_links s js z"

lemma bd_links_cong: "(\<And>i. i \<in> set js \<Longrightarrow> rb_next (rx_bd t i) = rb_next (rx_bd s i)) \<Longrightarrow> bd_links t js z = bd_links s js z"
  by (induction t js z rule: bd_links.induct) auto

lemma bd_links_append: "bd_links s (is @ [i]) z \<longleftrightarrow> bd_links s is (Some i) \<and> rb_next (rx_bd s i) = z"
proof (induction "is")
  case (Cons j js)
  then show ?case by (cases js) auto
qed simp

lemma bd_links_end:
  assumes "bd_links s js z" and "js \<noteq> []" and "distinct js"
    and "\<And>i. i \<in> set js \<Longrightarrow> rb_next (rx_bd t i) = (if i = last js then z' else rb_next (rx_bd s i))"
  shows "bd_links t js z'"
proof -
  obtain i "is" where js: "js = is @ [i]" using assms(2) by (metis append_butlast_last_id)
  have "bd_links t is (Some i) = bd_links s is (Some i)" by (rule bd_links_cong) (use assms(3,4) js in auto)
  then show ?thesis using assms(1,4) js by (simp add: bd_links_append)
qed

lemma rx_refill_cells:
  assumes "cs \<noteq> []" and "pchain (rx_mem s) (map snd cs) None" and "bd_links s (bds cs) (rx_active_head s)" and "rx_active_head s = Some h"
    and "h \<notin> set (bds cs)"
  shows "rx_refill (Some (fst (snd (hd cs)))) (Some (fst (hd cs))) l s = Some (None, Some h, fst (last cs), rearm cs s)"
  using assms
proof (induction cs arbitrary: s l)
  case Nil
  then show ?case by simp
next
  case (Cons c cs)
  obtain i p n where c: "c = (i, p, n)" by (cases c) auto
  then obtain b where b: "pbs (rx_mem s) p = Some b" "pb_next b = at_first (map snd cs) None" "unat (pb_len b) = n"
    "pchain (rx_mem s) (map snd cs) None" using Cons.prems(2) by auto
  let ?s = "(upd_rb i (\<lambda>bd. bd\<lparr>rb_bufptr := p, rb_len := hdkif_swizzle_data (of_nat n), rb_flags := hdkif_swizzle_data EMAC_BUF_DESC_OWNER,
       rb_pbuf := p\<rparr>) s)\<lparr>freed_pbuf_len := freed_pbuf_len s - of_nat n\<rparr>"
  have u: "ucast (pb_len b) = (of_nat n :: u32)" using b(3) of_nat_unat by metis
  then have l16: "(of_nat n :: u32) AND 0xFFFF = of_nat n" using low_half [of "pb_len b"] by simp
  have step: "rx_refill (Some p) (Some i) l s = rx_refill (pb_next b) (rb_next (rx_bd s i)) i ?s"
    using b u l16 Cons.prems(4,5) c by (subst rx_refill.simps) (simp add: Let_def)
  show ?case
  proof (cases cs)
    case Nil
    then have "pb_next b = None" "rb_next (rx_bd s i) = Some h" using b(2) Cons.prems(3,4) c by simp_all
    moreover have "rx_refill None (Some h) i ?s = Some (None, Some h, i, ?s)" by (subst rx_refill.simps) simp
    ultimately show ?thesis using step c Nil by simp
  next
    case (Cons d ds)
    have "bd_links ?s (bds cs) z = bd_links s (bds cs) z" for z by (rule bd_links_cong) simp
    then have "bd_links ?s (bds cs) (rx_active_head ?s)" using Cons.prems(3) c by simp
    then have "rx_refill (Some (fst (snd (hd cs)))) (Some (fst (hd cs))) i ?s = Some (None, Some h, fst (last cs), rearm cs ?s)"
      using Cons.prems b(4) c Cons by (intro Cons.IH) simp_all
    moreover have "pb_next b = Some (fst (snd (hd cs)))" "rb_next (rx_bd s i) = Some (fst (hd cs))"
      using b(2) Cons.prems(3) c Cons by simp_all
    ultimately show ?thesis using step c Cons by simp
  qed
qed

lemma len_field_small: "n < 65536 \<Longrightarrow> unat (hdkif_swizzle_data (hdkif_swizzle_data (of_nat n)) AND 0xFFFF) = n"
proof -
  assume n: "n < 65536"
  then have "unat (of_nat n :: u16) = n" by (simp add: unat_of_nat)
  then have "(of_nat n :: u32) = ucast (of_nat n :: u16)" using of_nat_unat by metis
  then have "(of_nat n :: u32) AND 0xFFFF = of_nat n" using low_half [of "of_nat n"] by simp
  then show ?thesis using n by (simp add: unat_of_nat)
qed

section \<open>One packet\<close>

text \<open>A packet that was received, in front of the other descriptors.\<close>

definition pkt_at :: "rxch \<Rightarrow> cell list \<Rightarrow> u8 list \<Rightarrow> bool" where
  "pkt_at s cs f \<longleftrightarrow> cs \<noteq> [] \<and> rb_has EMAC_BUF_DESC_SOP (fst (hd cs)) s \<and> \<not> rb_has EMAC_BUF_DESC_OWNER (fst (hd cs)) s \<and>
     ucast (hdkif_swizzle_data (rb_flags (rx_bd s (fst (hd cs)))) AND 0xFFFF) = (of_nat (length f) :: u16) \<and>
     list_all (\<lambda>c. \<not> rb_has EMAC_BUF_DESC_EOP (fst c) s) (butlast cs) \<and> rb_has EMAC_BUF_DESC_EOP (fst (last cs)) s \<and>
     packet_data s cs = f"

text \<open>Descriptors that wait for the engine.\<close>

definition idle_at :: "rxch \<Rightarrow> cell list \<Rightarrow> bool" where
  "idle_at s cs \<longleftrightarrow> (\<forall>(i, p, n) \<in> set cs. rb_flags (rx_bd s i) = hdkif_swizzle_data EMAC_BUF_DESC_OWNER \<and> buf_size i s = n \<and> 0 < n \<and> n \<le> 256)"

lemma cells_links: "cells s cs z \<Longrightarrow> bd_links s (bds cs) (map_option fst z)"
proof (induction s cs z rule: cells.induct)
  case (2 s i p n cs z)
  then show ?case by (cases cs) auto
qed simp

lemma cells_pbuf: "cells s cs z \<Longrightarrow> c \<in> set cs \<Longrightarrow> rb_pbuf (rx_bd s (fst c)) = fst (snd c)"
  by (induction s cs z rule: cells.induct) auto

lemma cells_of_pchain:
  assumes "pchain (rx_mem t) (map snd cs) None" and "bd_links t (bds cs) None"
    and "\<And>i p n. (i, p, n) \<in> set cs \<Longrightarrow> rb_pbuf (rx_bd t i) = p \<and> rb_bufptr (rx_bd t i) = p"
  shows "cells t cs None"
  using assms
proof (induction cs)
  case (Cons c cs)
  obtain i p n where c: "c = (i, p, n)" by (cases c) auto
  have "cells t cs None" using Cons.IH Cons.prems c by auto
  moreover have "at_first (map snd cs) None = map_option snd (cell_at cs None)" by (cases cs) auto
  moreover have "(case bds cs of [] \<Rightarrow> None | j # _ \<Rightarrow> Some j) = map_option fst (cell_at cs None)" by (cases cs) auto
  ultimately show ?case using Cons.prems c by auto
qed simp

lemma cells_relink:
  assumes "cells s ds None" and "ds \<noteq> []" and "distinct (bds ds)"
    and "\<And>i. i \<in> set (bds ds) \<Longrightarrow> rb_pbuf (rx_bd t i) = rb_pbuf (rx_bd s i) \<and> rb_bufptr (rx_bd t i) = rb_bufptr (rx_bd s i) \<and>
      rb_next (rx_bd t i) = (if i = fst (last ds) then Some j else rb_next (rx_bd s i))"
    and "\<And>p. p \<in> set (bufs ds) \<Longrightarrow> pbs (rx_mem t) p = pbs (rx_mem s) p"
  shows "cells t ds (Some (j, q))"
proof -
  obtain i p n cs where ds: "ds = cs @ [(i, p, n)]" using assms(2) by (metis append_butlast_last_id prod_cases3)
  then have c: "cells s cs (Some (i, p))" "cells s [(i, p, n)] None" using assms(1) by (auto simp: cells_append)
  have "cells t cs (Some (i, p)) = cells s cs (Some (i, p))"
    by (rule cells_cong) (use assms(3-5) ds in auto)
  moreover have "cells t [(i, p, n)] (Some (j, q))" using c(2) assms(4) [of i] assms(5) [of p] ds by auto
  ultimately show ?thesis using c(1) ds by (simp add: cells_append)
qed

lemma zip_cells [simp]:
  "length is = length ps \<Longrightarrow> length ns = length ps \<Longrightarrow> bds (zip is (zip ps ns)) = is"
  "length is = length ps \<Longrightarrow> length ns = length ps \<Longrightarrow> bufs (zip is (zip ps ns)) = ps"
  "length is = length ps \<Longrightarrow> length ns = length ps \<Longrightarrow> lens (zip is (zip ps ns)) = ns"
  "length is = length ps \<Longrightarrow> length ns = length ps \<Longrightarrow> map snd (zip is (zip ps ns)) = zip ps ns"
proof -
  assume l: "length is = length ps" "length ns = length ps"
  have s: "map snd (zip is (zip ps ns)) = zip ps ns" using l by simp
  show "bds (zip is (zip ps ns)) = is" "map snd (zip is (zip ps ns)) = zip ps ns" using l by simp_all
  have "bufs (zip is (zip ps ns)) = map fst (map snd (zip is (zip ps ns)))" "lens (zip is (zip ps ns)) = map snd (map snd (zip is (zip ps ns)))"
    by simp_all
  then show "bufs (zip is (zip ps ns)) = ps" "lens (zip is (zip ps ns)) = ns" using l unfolding s by simp_all
qed

text \<open>The descriptors of a packet with the buffers \<open>qs\<close>, which they get when the packet was handed up.\<close>

definition refreshed :: "nat list \<Rightarrow> cell list \<Rightarrow> cell list" where
  "refreshed qs cs = zip (bds cs) (zip qs (slices (sum_list (lens cs))))"

lemma handed_up:
  fixes treat :: treatment
  assumes "cells s cs (Some (j, q))" and "rb_pbuf (rx_bd s j) = q" and "distinct (bufs cs)" and "pkt_at s cs f"
    and "rx_collect (fst (hd cs)) (of_nat (length f)) 0 0 s = Some (e, cur, a, s1)"
  defines "kp \<equiv> kept_part treat (length (rx_up s)) (rx_received s cs)"
  shows "e = fst (last cs) \<and> cur = Some j \<and> a = of_nat (sum_list (lens cs)) \<and>
    (\<exists>b m gone. pbs (rx_mem s1) (rb_pbuf (rx_bd s1 e)) = Some b \<and>
      hand_up treat (fst (snd (hd cs))) (put_pb (rb_pbuf (rx_bd s1 e)) (b\<lparr>pb_next := None\<rparr>) s1) =
        Some (s\<lparr>rx_mem := m, rx_up := rx_up s @ [(of_nat (length f), f)], rx_held := rx_held s @ map fst (take 1 kp)\<rparr>) \<and>
      pb_pool m = gone @ pb_pool (rx_mem s) \<and> mset (map fst kp @ gone) = mset (bufs cs) \<and> pchain m kp None \<and>
      (\<forall>x. x \<notin> set (bufs cs) \<longrightarrow> pbs m x = pbs (rx_mem s) x))"
proof -
  have k: "cs \<noteq> []" "list_all (\<lambda>c. \<not> rb_has EMAC_BUF_DESC_EOP (fst c) s) (butlast cs)" "rb_has EMAC_BUF_DESC_EOP (fst (last cs)) s"
    "packet_data s cs = f" using assms(4) by (simp_all add: pkt_at_def)
  let ?r = "rx_received s cs"
  have r: "map fst ?r = bufs cs" "?r \<noteq> []" "fst (hd ?r) = fst (snd (hd cs))" "fst (last ?r) = fst (snd (last cs))"
    using k(1) by (simp_all add: rx_received_def hd_map last_map)
  obtain m1 b1 where m1: "e = fst (last cs)" "cur = Some j" "a = of_nat (sum_list (lens cs))" "s1 = s\<lparr>rx_mem := m1\<rparr>"
    "pb_pool m1 = pb_pool (rx_mem s)" "\<forall>x. x \<notin> set (bufs cs) \<longrightarrow> pbs m1 x = pbs (rx_mem s) x" "pchain m1 ?r (Some q)"
    "pbs m1 (fst (snd (hd cs))) = Some b1" "pb_tot_len b1 = of_nat (length f)"
    using rx_collect_cells [OF assms(1,2) k(1) assms(3) k(2,3), of "of_nat (length f)" 0 0] assms(5) by auto
  have le: "rb_pbuf (rx_bd s1 e) = fst (snd (last cs))" using cells_pbuf [OF assms(1)] k(1) m1(1,4) by simp
  have "?r = butlast ?r @ [last ?r]" using r(2) by simp
  then have "pchain m1 [last ?r] (Some q)" using m1(7) pchain_append by metis
  then obtain b where b: "pbs m1 (fst (snd (last cs))) = Some b" using r(4) by (cases "last ?r") auto
  let ?s = "put_pb (fst (snd (last cs))) (b\<lparr>pb_next := None\<rparr>) s1"
  have pc: "pchain (rx_mem ?s) ?r None"
    using pchain_close [OF m1(7) _ r(2), of b] r(1,4) b assms(3) m1(4) by (simp add: put_pb_def)
  obtain b' where b': "pbs (rx_mem ?s) (fst (snd (hd cs))) = Some b'" "pb_tot_len b' = of_nat (length f)"
    using m1(4,8,9) b by (cases "fst (snd (hd cs)) = fst (snd (last cs))") auto
  have dat: "concat (map (\<lambda>(p, n). take n (rx_data ?s p)) ?r) = f"
    using k(4) m1(4) by (simp add: rx_received_def packet_data_def comp_def)
  have up: "rx_up ?s = rx_up s" "rx_held ?s = rx_held s" using m1(4) by simp_all
  have "distinct (map fst ?r)" "pbs (rx_mem ?s) (fst (hd ?r)) = Some b'" using r(1,3) assms(3) b'(1) by simp_all
  note hu = hand_up_pchain [OF pc this(1) r(2) this(2), of treat, unfolded up r(1,3) dat b'(2), folded kp_def]
  then obtain m gone where m: "hand_up treat (fst (snd (hd cs))) ?s =
      Some (?s\<lparr>rx_mem := m, rx_up := rx_up s @ [(of_nat (length f), f)], rx_held := rx_held s @ map fst (take 1 kp)\<rparr>)"
    "pb_pool m = gone @ pb_pool (rx_mem ?s)" "mset (map fst kp @ gone) = mset (bufs cs)" "pchain m kp None"
    "\<And>x. x \<notin> set (bufs cs) \<Longrightarrow> pbs m x = pbs (rx_mem ?s) x"
    by blast
  have "?s\<lparr>rx_mem := m, rx_up := rx_up s @ [(of_nat (length f), f)], rx_held := rx_held s @ map fst (take 1 kp)\<rparr> =
      s\<lparr>rx_mem := m, rx_up := rx_up s @ [(of_nat (length f), f)], rx_held := rx_held s @ map fst (take 1 kp)\<rparr>"
    using m1(4) by (simp add: put_pb_def)
  moreover have "\<forall>x. x \<notin> set (bufs cs) \<longrightarrow> pbs m x = pbs (rx_mem s) x"
    using m(5) m1(4,6) k(1) by (auto simp: put_pb_def)
  ultimately show ?thesis using m(1-4) m1 b le by (intro conjI exI [of _ b] exI [of _ m] exI [of _ gone]) simp_all
qed

lemma refreshed_lists:
  assumes "cs \<noteq> []" and "sum_list (lens cs) \<le> 256 * length cs" and "256 * length cs < sum_list (lens cs) + 256" and "length qs = length cs"
  shows "bds (refreshed qs cs) = bds cs" "bufs (refreshed qs cs) = qs" "lens (refreshed qs cs) = slices (sum_list (lens cs))"
    "map snd (refreshed qs cs) = zip qs (slices (sum_list (lens cs)))" "refreshed qs cs \<noteq> []"
proof -
  have "length (slices (sum_list (lens cs))) = length cs" by (rule length_slices [OF assms(2,3)])
  then have l: "length (bds cs) = length qs" "length (slices (sum_list (lens cs))) = length qs" using assms(4) by simp_all
  show "bds (refreshed qs cs) = bds cs" "bufs (refreshed qs cs) = qs" "lens (refreshed qs cs) = slices (sum_list (lens cs))"
    "map snd (refreshed qs cs) = zip qs (slices (sum_list (lens cs)))"
    unfolding refreshed_def using zip_cells [OF l] by simp_all
  from this(1) show "refreshed qs cs \<noteq> []" using assms(1) by auto
qed

definition ring_ends :: "rxch \<Rightarrow> cell list \<Rightarrow> bool" where
  "ring_ends s cs \<longleftrightarrow> rx_active_head s = Some (fst (hd cs)) \<and> rx_active_tail s = Some (fst (last cs)) \<and>
     (rx_free_head s = None \<or> rx_free_head s = Some (fst (hd cs))) \<and> freed_pbuf_len s = 0"

text \<open>
  The descriptors of the packet \<open>cs\<close> with their new buffers behind the descriptors \<open>ds\<close>; the engine gets them at once if it
  waits for a descriptor.
\<close>

definition relinked :: "nat list \<Rightarrow> cell list \<Rightarrow> cell list \<Rightarrow> rxch \<Rightarrow> rxch" where
  "relinked qs cs ds s =
     (upd_rb (fst (last ds)) (\<lambda>bd. bd\<lparr>rb_next := Some (fst (hd cs))\<rparr>)
       (upd_rb (fst (last cs)) (\<lambda>bd. bd\<lparr>rb_next := None\<rparr>) (rearm (refreshed qs cs) s)))
     \<lparr>rx_hdp := (if rb_has EMAC_BUF_DESC_EOQ (fst (last ds)) s then Some (fst (hd cs)) else rx_hdp s),
      rx_free_head := Some (fst (hd ds)), rx_active_tail := Some (fst (last cs))\<rparr>"

lemma relinked_bd:
  assumes "cs \<noteq> []" and "ds \<noteq> []" and "distinct (bds cs)" and "set (bds cs) \<inter> set (bds ds) = {}" and rf: "bds (refreshed qs cs) = bds cs"
  shows "i \<in> set (bds ds) \<Longrightarrow>
      rx_bd (relinked qs cs ds s) i = (rx_bd s i)\<lparr>rb_next := (if i = fst (last ds) then Some (fst (hd cs)) else rb_next (rx_bd s i))\<rparr>"
    and "(i, p, n) \<in> set (refreshed qs cs) \<Longrightarrow>
      rx_bd (relinked qs cs ds s) i = (rx_bd s i)\<lparr>rb_bufptr := p, rb_len := hdkif_swizzle_data (of_nat n),
        rb_flags := hdkif_swizzle_data EMAC_BUF_DESC_OWNER, rb_pbuf := p, rb_next := (if i = fst (last cs) then None else rb_next (rx_bd s i))\<rparr>"
    and "i \<in> set (bds cs) \<Longrightarrow> rb_next (rx_bd (relinked qs cs ds s) i) = (if i = fst (last cs) then None else rb_next (rx_bd s i))"
proof -
  have "fst (last cs) \<in> set (bds cs)" "fst (last ds) \<in> set (bds ds)" using assms(1,2) by simp_all
  then have out: "fst (last cs) \<notin> set (bds ds)" "fst (last ds) \<notin> set (bds cs)" using assms(4) by blast+
  show "rx_bd (relinked qs cs ds s) i = (rx_bd s i)\<lparr>rb_next := (if i = fst (last ds) then Some (fst (hd cs)) else rb_next (rx_bd s i))\<rparr>"
    if i: "i \<in> set (bds ds)"
  proof -
    have "i \<notin> set (bds (refreshed qs cs))" "i \<noteq> fst (last cs)" unfolding rf using i assms(4) out(1) by blast+
    moreover have "rx_bd (rearm (refreshed qs cs) s) i = rx_bd s i" using rearm_bd [OF calculation(1)] .
    ultimately show ?thesis by (cases "i = fst (last ds)") (auto simp: relinked_def)
  qed
  show "rb_next (rx_bd (relinked qs cs ds s) i) = (if i = fst (last cs) then None else rb_next (rx_bd s i))" if "i \<in> set (bds cs)"
  proof -
    have "i \<noteq> fst (last ds)" using that out(2) by blast
    then show ?thesis by (simp add: relinked_def)
  qed
  show "rx_bd (relinked qs cs ds s) i = (rx_bd s i)\<lparr>rb_bufptr := p, rb_len := hdkif_swizzle_data (of_nat n),
      rb_flags := hdkif_swizzle_data EMAC_BUF_DESC_OWNER, rb_pbuf := p, rb_next := (if i = fst (last cs) then None else rb_next (rx_bd s i))\<rparr>"
    if c: "(i, p, n) \<in> set (refreshed qs cs)"
  proof -
    have "i \<in> set (bds cs)" using c rf by (metis fst_conv image_eqI list.set_map)
    then have "i \<noteq> fst (last ds)" using out(2) by blast
    moreover have "distinct (bds (refreshed qs cs))" using rf assms(3) by simp
    note rearm_cell [OF this c, of s]
    ultimately show ?thesis by (cases "i = fst (last cs)") (auto simp: relinked_def)
  qed
qed

lemma relinked_keeps [simp]:
  "rx_mem (relinked qs cs ds s) = rx_mem s" "rx_data (relinked qs cs ds s) = rx_data s" "rx_held (relinked qs cs ds s) = rx_held s" "rx_up (relinked qs cs ds s) = rx_up s"
  "rx_active_head (relinked qs cs ds s) = rx_active_head s" "rx_free_head (relinked qs cs ds s) = Some (fst (hd ds))"
  "rx_active_tail (relinked qs cs ds s) = Some (fst (last cs))"
  "freed_pbuf_len (relinked qs cs ds s) = freed_pbuf_len s - of_nat (sum_list (lens (refreshed qs cs)))"
  "rx_hdp (relinked qs cs ds s) = (if rb_has EMAC_BUF_DESC_EOQ (fst (last ds)) s then Some (fst (hd cs)) else rx_hdp s)"
  by (simp_all add: relinked_def)

lemma relinked_cells:
  assumes ne: "cs \<noteq> []" "ds \<noteq> []" and dist: "distinct (bds cs)" "set (bds cs) \<inter> set (bds ds) = {}" "distinct (bds ds)"
    and rf: "bds (refreshed qs cs) = bds cs" "refreshed qs cs \<noteq> []" and l: "bd_links s (bds cs) z" and c: "cells s ds None"
    and m: "pchain (rx_mem s) (map snd (refreshed qs cs)) None"
  shows "cells (relinked qs cs ds s) (ds @ refreshed qs cs) None"
proof -
  let ?u = "relinked qs cs ds s"
  note bd = relinked_bd [OF ne dist(1,2) rf(1)]
  have "cells ?u ds (Some (fst (hd cs), fst (snd (hd (refreshed qs cs)))))"
    by (rule cells_relink [OF c ne(2) dist(3)]) (simp_all add: bd(1))
  moreover have "cells ?u (refreshed qs cs) None"
  proof (rule cells_of_pchain)
    show "pchain (rx_mem ?u) (map snd (refreshed qs cs)) None" using m by simp
    show "bd_links ?u (bds (refreshed qs cs)) None" unfolding rf(1)
      by (rule bd_links_end [OF l _ dist(1)]) (use ne(1) bd(3) in \<open>simp_all add: last_map\<close>)
    show "rb_pbuf (rx_bd ?u i) = p \<and> rb_bufptr (rx_bd ?u i) = p" if "(i, p, n) \<in> set (refreshed qs cs)" for i p n
      using bd(2) [OF that] by simp
  qed
  moreover have "fst (hd (refreshed qs cs)) = fst (hd cs)" using rf ne(1) by (metis hd_map)
  ultimately show ?thesis using cell_at_last [OF rf(2)] by (simp only: cells_append)
qed

lemma relinked_idle:
  assumes ne: "cs \<noteq> []" "ds \<noteq> []" and dist: "distinct (bds cs)" "set (bds cs) \<inter> set (bds ds) = {}"
    and rf: "bds (refreshed qs cs) = bds cs" "lens (refreshed qs cs) = slices L"
  shows "idle_at (relinked qs cs ds s) (refreshed qs cs)"
  unfolding idle_at_def
proof (clarify)
  fix i p n
  assume c: "(i, p, n) \<in> set (refreshed qs cs)"
  then have "n \<in> set (lens (refreshed qs cs))" by force
  then have n: "0 < n" "n \<le> 256" using slices_le rf(2) by simp_all
  note bd = relinked_bd(2) [OF ne dist rf(1) c, of s]
  have "buf_size i (relinked qs cs ds s) = n" unfolding buf_size_def bd using n len_field_small [of n] by simp
  then show "rb_flags (rx_bd (relinked qs cs ds s) i) = hdkif_swizzle_data EMAC_BUF_DESC_OWNER \<and> buf_size i (relinked qs cs ds s) = n \<and> 0 < n \<and> n \<le> 256"
    using bd n by simp
qed

text \<open>New buffers for the packet, from the pool.\<close>

lemma fresh_buffers:
  assumes "pb_pool m = qs @ rest" and "distinct qs" and "cs \<noteq> []" and "length qs = length cs"
    and L: "sum_list (lens cs) \<le> 256 * length cs" "256 * length cs < sum_list (lens cs) + 256" "sum_list (lens cs) < 65536"
  obtains m' where "pbuf_alloc_mem PBUF_RAW (ucast (of_nat (sum_list (lens cs)) :: u32)) PBUF_POOL None m = Some (Some (hd qs), m')"
    "pb_pool m' = rest" "pchain m' (map snd (refreshed qs cs)) None" "\<And>x. x \<notin> set qs \<Longrightarrow> pbs m' x = pbs m x"
proof -
  let ?L = "sum_list (lens cs)"
  have n: "unat (of_nat ?L :: u16) = ?L" "unat (of_nat ?L :: u32) = ?L" using L(3) by (simp_all add: unat_of_nat)
  have u: "ucast (of_nat ?L :: u32) = (of_nat ?L :: u16)" using n(2) of_nat_unat by metis
  have pos: "0 < ?L" using L(2) assms(3) by (cases cs) auto
  have "length qs = length (slices (unat (of_nat ?L :: u16)))" unfolding n(1) using length_slices [OF L(1,2)] assms(4) by simp
  moreover have "(of_nat ?L :: u16) \<noteq> 0" using n(1) pos by (metis unat_0 less_irrefl)
  ultimately obtain m' where "pbuf_alloc_mem PBUF_RAW (of_nat ?L) PBUF_POOL None m = Some (Some (hd qs), m')"
    "pb_pool m' = rest" "pchain m' (zip qs (slices (unat (of_nat ?L :: u16)))) None"
    "\<And>x. x \<notin> set qs \<Longrightarrow> pbs m' x = pbs m x"
    using alloc_pchain [OF assms(1)] assms(2) by blast
  then show ?thesis using that [of m'] refreshed_lists(4) [OF assms(3) L(1,2) assms(4)] unfolding u n(1) by simp
qed

text \<open>
  Where the buffers of a packet go: \<open>bs\<close> are those of the packet, \<open>kp\<close> what a reply holds and \<open>gone\<close> what came back, and the descriptors get
  \<open>qs\<close>. No buffer is in two places.
\<close>

lemma pool_split:
  fixes bs :: "nat list"
  assumes "mset (map fst kp @ gone) = mset bs" and "distinct (bs @ pool)" and "length kp \<le> length pool"
  obtains qs rest where "gone @ pool = qs @ rest" "length qs = length bs" "distinct qs" "mset (qs @ rest @ map fst kp) = mset (bs @ pool)"
    "set (map fst kp) \<inter> set qs = {}" "length rest + length kp = length pool"
proof -
  define qs where "qs = take (length bs) (gone @ pool)"
  define rest where "rest = drop (length bs) (gone @ pool)"
  have e: "qs @ rest = gone @ pool" unfolding qs_def rest_def by (rule append_take_drop_id)
  have "mset (qs @ rest @ map fst kp) = mset (gone @ pool) + mset (map fst kp)" unfolding e [symmetric] by simp
  also have "\<dots> = mset (map fst kp @ gone) + mset pool" by simp
  finally have m: "mset (qs @ rest @ map fst kp) = mset (bs @ pool)" unfolding assms(1) by simp
  then have d: "distinct (qs @ rest @ map fst kp)" using assms(2) by (metis mset_eq_imp_distinct_iff)
  have "size (mset (map fst kp @ gone)) = size (mset bs)" using assms(1) by (rule arg_cong)
  then have len: "length kp + length gone = length bs" by simp
  then have "length qs = length bs" "length rest + length kp = length pool" using assms(3) unfolding qs_def rest_def by simp_all
  then show ?thesis using that [of qs rest] e m d by auto
qed

text \<open>The run of the handler for a packet.\<close>

lemma rx_packet_run:
  fixes treat :: treatment
  assumes c: "cells s cs (Some (j, q))" and jq: "rb_pbuf (rx_bd s j) = q" "j = fst (hd ds)" "j \<notin> set (bds cs)" and ne: "ds \<noteq> []"
    and dist: "distinct (bds cs)" "set (bds cs) \<inter> set (bds ds) = {}" "distinct (bufs cs @ pb_pool (rx_mem s))"
    and P: "pkt_at s cs f" and R: "ring_ends s (cs @ ds)"
    and L: "sum_list (lens cs) \<le> 256 * length cs" "256 * length cs < sum_list (lens cs) + 256" "sum_list (lens cs) < 65536"
  defines "kp \<equiv> kept_part treat (length (rx_up s)) (rx_received s cs)"
  assumes K: "length kp \<le> length (pb_pool (rx_mem s))"
  shows "\<exists>m qs. length qs = length cs \<and>
    rx_packet treat (fst (hd cs)) l s = Some (fst (last cs), relinked qs cs ds (s\<lparr>rx_free_head := Some (fst (hd cs)),
      rx_up := rx_up s @ [(of_nat (length f), f)], rx_held := rx_held s @ map fst (take 1 kp), rx_active_head := Some j,
      freed_pbuf_len := of_nat (sum_list (lens cs)), rx_mem := m\<rparr>)) \<and>
    mset (qs @ pb_pool m @ map fst kp) = mset (bufs cs @ pb_pool (rx_mem s)) \<and> length (pb_pool m) + length kp = length (pb_pool (rx_mem s)) \<and>
    pchain m (map snd (refreshed qs cs)) None \<and> pchain m kp None \<and>
    (\<forall>x. x \<notin> set (bufs cs @ pb_pool (rx_mem s)) \<longrightarrow> pbs m x = pbs (rx_mem s) x)"
proof -
  have k: "cs \<noteq> []" using P by (simp add: pkt_at_def)
  let ?h = "fst (hd cs)" and ?L = "sum_list (lens cs)" and ?s = "s\<lparr>rx_free_head := Some (fst (hd cs))\<rparr>"
  have s0: "(if rx_free_head s = None then s\<lparr>rx_free_head := Some ?h\<rparr> else s) = ?s"
    using R k by (auto simp: ring_ends_def hd_append)
  have c0: "cells ?s cs (Some (j, q))" "pkt_at ?s cs f" "rb_pbuf (rx_bd ?s j) = q"
    using c P jq(1) cells_cong [of cs ?s s "Some (j, q)"] by (simp_all add: pkt_at_def rb_has_def packet_data_def buf_size_def)
  have kp: "kept_part treat (length (rx_up ?s)) (rx_received ?s cs) = kp" by (simp add: kp_def rx_received_def buf_size_def)
  have dcs: "distinct (bufs cs)" using dist(3) by simp
  obtain e cur a s1 where col: "rx_collect ?h (of_nat (length f)) 0 0 ?s = Some (e, cur, a, s1)"
    using rx_collect_cells [OF c0(1,3) k dcs] c0(2) unfolding pkt_at_def by blast
  note up' = handed_up [OF c0(1,3) dcs c0(2) col, of treat, unfolded kp]
  then obtain b m gone where up: "cur = Some j" "a = of_nat ?L" "pbs (rx_mem s1) (rb_pbuf (rx_bd s1 e)) = Some b"
    "hand_up treat (fst (snd (hd cs))) (put_pb (rb_pbuf (rx_bd s1 e)) (b\<lparr>pb_next := None\<rparr>) s1) =
        Some (?s\<lparr>rx_mem := m, rx_up := rx_up s @ [(of_nat (length f), f)], rx_held := rx_held s @ map fst (take 1 kp)\<rparr>)"
    "pb_pool m = gone @ pb_pool (rx_mem s)" "mset (map fst kp @ gone) = mset (bufs cs)" "pchain m kp None"
    "\<And>x. x \<notin> set (bufs cs) \<Longrightarrow> pbs m x = pbs (rx_mem s) x" by auto
  obtain qs rest where qs: "gone @ pb_pool (rx_mem s) = qs @ rest" "length qs = length (bufs cs)" "distinct qs"
    "mset (qs @ rest @ map fst kp) = mset (bufs cs @ pb_pool (rx_mem s))" "set (map fst kp) \<inter> set qs = {}"
    "length rest + length kp = length (pb_pool (rx_mem s))"
    using pool_split [OF up(6) dist(3) K] by blast
  have lq: "length qs = length cs" using qs(2) by simp
  note rf = refreshed_lists [OF k L(1,2) lq]
  obtain m' where m': "pbuf_alloc_mem PBUF_RAW (ucast (of_nat ?L :: u32)) PBUF_POOL None m = Some (Some (hd qs), m')"
    "pb_pool m' = rest" "pchain m' (map snd (refreshed qs cs)) None" "\<And>x. x \<notin> set qs \<Longrightarrow> pbs m' x = pbs m x"
    using fresh_buffers [OF up(5) [unfolded qs(1)] qs(3) k lq L] by blast
  let ?s5 = "s\<lparr>rx_free_head := Some ?h, rx_up := rx_up s @ [(of_nat (length f), f)], rx_held := rx_held s @ map fst (take 1 kp),
      rx_active_head := Some j, freed_pbuf_len := of_nat ?L, rx_mem := m'\<rparr>"
  have hd: "hd qs = fst (snd (hd (refreshed qs cs)))" "?h = fst (hd (refreshed qs cs))" "fst (last cs) = fst (last (refreshed qs cs))"
    using rf k by (metis hd_map last_map map_is_Nil_conv)+
  have "bd_links ?s5 (bds (refreshed qs cs)) (rx_active_head ?s5)"
    using cells_links [OF c] bd_links_cong [of "bds cs" ?s5 s] rf(1) by simp
  then have ref: "rx_refill (Some (hd qs)) (Some ?h) l ?s5 = Some (None, Some j, fst (last cs), rearm (refreshed qs cs) ?s5)"
    using rx_refill_cells [of "refreshed qs cs" ?s5 j l] rf(1,5) m'(3) jq(3) hd by simp
  define S where "S = rearm (refreshed qs cs) ?s5"
  have S: "rx_free_head S = Some ?h" "rx_active_tail S = Some (fst (last ds))" "rx_hdp S = rx_hdp s"
    using R ne by (simp_all add: S_def ring_ends_def)
  let ?t = "upd_rb (fst (last ds)) (\<lambda>bd. bd\<lparr>rb_next := Some ?h\<rparr>) (upd_rb (fst (last cs)) (\<lambda>bd. bd\<lparr>rb_next := None\<rparr>) S)"
  have eoq: "rb_has EMAC_BUF_DESC_EOQ (fst (last ds)) ?t = rb_has EMAC_BUF_DESC_EOQ (fst (last ds)) s"
    using relinked_bd(1) [OF k ne dist(1,2) rf(1), of "fst (last ds)" ?s5] ne by (simp add: rb_has_def relinked_def S_def split: if_splits)
  have tot: "ucast (hdkif_swizzle_data (rb_flags (rx_bd ?s ?h)) AND 0xFFFF) = (of_nat (length f) :: u16)"
    using c0(2) by (simp add: pkt_at_def)
  have hb: "rb_pbuf (rx_bd ?s ?h) = fst (snd (hd cs))" using cells_pbuf [OF c0(1)] k by simp
  have freed: "freed_pbuf_len s = 0" using R by (simp add: ring_ends_def)
  have "rx_packet treat ?h l s = Some (fst (last cs), (let t = ?t
      in if rb_has EMAC_BUF_DESC_EOQ (fst (last ds)) t then t\<lparr>rx_hdp := Some ?h, rx_free_head := Some j, rx_active_tail := Some (fst (last cs))\<rparr>
         else t\<lparr>rx_free_head := Some j, rx_active_tail := Some (fst (last cs))\<rparr>))"
    unfolding rx_packet_def s0 Let_def tot hb
    using col up(1-4) freed m'(1) ref [folded S_def] S(1,2) by simp
  moreover have "t\<lparr>rx_free_head := Some j, rx_active_tail := Some (fst (last cs))\<rparr> =
      t\<lparr>rx_hdp := rx_hdp s, rx_free_head := Some j, rx_active_tail := Some (fst (last cs))\<rparr>" if "rx_hdp t = rx_hdp s" for t
    using that by (intro rxch.equality) simp_all
  ultimately have run: "rx_packet treat ?h l s = Some (fst (last cs), relinked qs cs ds ?s5)"
    using eoq S(3) jq(2) by (simp add: Let_def S_def relinked_def rb_has_def)
  have "pchain m' kp None = pchain m kp None" by (rule pchain_cong) (use m'(4) qs(5) in blast)
  then have chain: "pchain m' kp None" using up(7) by simp
  have "set qs \<subseteq> set (bufs cs @ pb_pool (rx_mem s))"
    using arg_cong [OF qs(4), of set_mset] by (simp only: set_mset_mset set_append) blast
  then have "pbs m' x = pbs (rx_mem s) x" if "x \<notin> set (bufs cs @ pb_pool (rx_mem s))" for x
    using that m'(4) [of x] up(8) [of x] by auto
  then show ?thesis using run lq m'(2,3) qs(4,6) chain by (intro exI [of _ m'] exI [of _ qs]) simp
qed

text \<open>The handler hands the frame up and moves the descriptors, with new buffers, behind the others.\<close>

lemma rx_packet_cells:
  fixes treat :: treatment
  assumes C: "cells s (cs @ ds) None" and ne: "ds \<noteq> []"
    and dist: "distinct (bds (cs @ ds))" "distinct (bufs (cs @ ds) @ pb_pool (rx_mem s))"
    and P: "pkt_at s cs f" and R: "ring_ends s (cs @ ds)"
    and L: "sum_list (lens cs) \<le> 256 * length cs" "256 * length cs < sum_list (lens cs) + 256" "sum_list (lens cs) < 65536"
  defines "kp \<equiv> kept_part treat (length (rx_up s)) (rx_received s cs)"
  assumes K: "length kp \<le> length (pb_pool (rx_mem s))"
  shows "\<exists>t qs. rx_packet treat (fst (hd cs)) l s = Some (fst (last cs), t) \<and> length qs = length cs \<and>
    cells t (ds @ refreshed qs cs) None \<and> ring_ends t (ds @ refreshed qs cs) \<and>
    idle_at t (refreshed qs cs) \<and> rx_up t = rx_up s @ [(of_nat (length f), f)] \<and> rx_held t = rx_held s @ map fst (take 1 kp) \<and>
    mset (qs @ pb_pool (rx_mem t) @ map fst kp) = mset (bufs cs @ pb_pool (rx_mem s)) \<and>
    length (pb_pool (rx_mem t)) + length kp = length (pb_pool (rx_mem s)) \<and> pchain (rx_mem t) kp None \<and>
    (\<forall>x. x \<notin> set (bufs cs @ pb_pool (rx_mem s)) \<longrightarrow> pbs (rx_mem t) x = pbs (rx_mem s) x) \<and>
    rx_data t = rx_data s \<and> rx_hdp t = (if rb_has EMAC_BUF_DESC_EOQ (fst (last ds)) s then Some (fst (hd cs)) else rx_hdp s) \<and>
    (\<forall>i \<in> set (bds ds). rb_flags (rx_bd t i) = rb_flags (rx_bd s i) \<and> rb_len (rx_bd t i) = rb_len (rx_bd s i))"
proof -
  have k: "cs \<noteq> []" using P by (simp add: pkt_at_def)
  obtain j q where j: "cell_at ds None = Some (j, q)" "j = fst (hd ds)" "q = fst (snd (hd ds))" using ne cell_at_last by blast
  have cd: "cells s cs (Some (j, q))" "cells s ds None" using C j(1) by (auto simp: cells_append)
  have jq: "rb_pbuf (rx_bd s j) = q" using cells_pbuf [OF cd(2), of "hd ds"] ne j by simp
  have dc: "distinct (bds cs)" "set (bds cs) \<inter> set (bds ds) = {}" "distinct (bufs cs @ pb_pool (rx_mem s))" "distinct (bds ds)"
    "set (bufs cs @ pb_pool (rx_mem s)) \<inter> set (bufs ds) = {}"
    using dist unfolding map_append distinct_append set_append by blast+
  have "j \<in> set (bds ds)" using j(2) ne by simp
  then have out: "j \<notin> set (bds cs)" using dc(2) by blast
  let ?s = "\<lambda>m. s\<lparr>rx_free_head := Some (fst (hd cs)), rx_up := rx_up s @ [(of_nat (length f), f)],
      rx_held := rx_held s @ map fst (take 1 kp), rx_active_head := Some j, freed_pbuf_len := of_nat (sum_list (lens cs)), rx_mem := m\<rparr>"
  obtain m qs where m: "length qs = length cs" "rx_packet treat (fst (hd cs)) l s = Some (fst (last cs), relinked qs cs ds (?s m))"
    "mset (qs @ pb_pool m @ map fst kp) = mset (bufs cs @ pb_pool (rx_mem s))" "length (pb_pool m) + length kp = length (pb_pool (rx_mem s))"
    "pchain m (map snd (refreshed qs cs)) None" "pchain m kp None"
    "\<And>x. x \<notin> set (bufs cs @ pb_pool (rx_mem s)) \<Longrightarrow> pbs m x = pbs (rx_mem s) x"
    using rx_packet_run [OF cd(1) jq j(2) out ne dc(1-3) P R L, of treat l] K unfolding kp_def by blast
  note rf = refreshed_lists [OF k L(1,2) m(1)]
  let ?u = "relinked qs cs ds (?s m)"
  have "bd_links (?s m) (bds cs) (Some j)" using cells_links [OF cd(1)] bd_links_cong [of "bds cs" "?s m" s] by simp
  moreover have "cells (?s m) ds None"
  proof -
    have "cells (?s m) ds None = cells s ds None"
    proof (rule cells_cong)
      show "pbs (rx_mem (?s m)) p = pbs (rx_mem s) p" if "p \<in> set (bufs ds)" for p
        using m(7) [of p] that dc(5) by auto
    qed simp
    then show ?thesis using cd(2) by simp
  qed
  ultimately have "cells ?u (ds @ refreshed qs cs) None"
    using relinked_cells [OF k ne dc(1,2,4) rf(1,5)] m(5) by simp
  moreover have "idle_at ?u (refreshed qs cs)" by (rule relinked_idle [OF k ne dc(1,2) rf(1,3)])
  moreover have "ring_ends ?u (ds @ refreshed qs cs)"
    using ne rf(1,3,5) j(2) k by (simp add: ring_ends_def) (metis last_map)
  moreover have "rb_has g i (?s m) = rb_has g i s" for g i by (simp add: rb_has_def)
  ultimately show ?thesis using m(1-4,6,7) relinked_bd(1) [OF k ne dc(1,2) rf(1)] by (intro exI [of _ ?u] exI [of _ qs]) simp
qed

section \<open>The ring between calls of the handler\<close>

text \<open>
  \<open>pks\<close> are the packets that were received and not handed up yet, each with its frame, \<open>ds\<close> the descriptors behind them that
  wait for the engine, and \<open>hs\<close> the chains that the transmit channel holds. No buffer is in two of these places or in the pool. The
  descriptors and the bytes of their buffers are never lost.
\<close>

abbreviation rx_taken :: "(cell list \<times> u8 list) list \<Rightarrow> cell list" where
  "rx_taken pks \<equiv> concat (map fst pks)"

abbreviation held_bufs :: "(nat \<times> nat) list list \<Rightarrow> nat list" where
  "held_bufs hs \<equiv> map fst (concat hs)"

text \<open>Every chain that is held is intact, with one reference at its head.\<close>

definition held_at :: "rxch \<Rightarrow> (nat \<times> nat) list list \<Rightarrow> bool" where
  "held_at s hs \<longleftrightarrow> rx_held s = map (\<lambda>ps. fst (hd ps)) hs \<and> list_all (\<lambda>ps. ps \<noteq> [] \<and> pchain (rx_mem s) ps None) hs"

definition rx_at :: "rxch \<Rightarrow> (cell list \<times> u8 list) list \<Rightarrow> cell list \<Rightarrow> (nat \<times> nat) list list \<Rightarrow> bool" where
  "rx_at s pks ds hs \<longleftrightarrow>
     cells s (rx_taken pks @ ds) None \<and> distinct (bds (rx_taken pks @ ds)) \<and>
     distinct (bufs (rx_taken pks @ ds) @ held_bufs hs @ pb_pool (rx_mem s)) \<and> held_at s hs \<and>
     ring_ends s (rx_taken pks @ ds) \<and> length (rx_taken pks @ ds) = 60 \<and> sum_list (lens (rx_taken pks @ ds)) = 15140 \<and>
     list_all (\<lambda>c. snd (snd c) \<le> 256) (rx_taken pks) \<and>
     list_all (\<lambda>(cs, f). pkt_at s cs f \<and> length f \<le> 1514 \<and> sum_list (lens cs) < length f + 256) pks \<and>
     idle_at s ds \<and> rx_hdp s = map_option fst (cell_at ds None) \<and>
     (ds = [] \<longrightarrow> rb_has EMAC_BUF_DESC_EOQ (fst (last (rx_taken pks))) s)"

lemma held_at_cong:
  assumes "held_at s hs" and "rx_held t = rx_held s" and "\<And>x. x \<in> set (held_bufs hs) \<Longrightarrow> pbs (rx_mem t) x = pbs (rx_mem s) x"
  shows "held_at t hs"
proof -
  have "pchain (rx_mem t) ps None = pchain (rx_mem s) ps None" if "ps \<in> set hs" for ps
    by (rule pchain_cong) (use assms(3) that in force)
  then show ?thesis using assms(1,2) by (simp add: held_at_def list_all_iff)
qed

text \<open>A reply holds another chain, or none.\<close>

lemma held_at_add:
  assumes "held_at s hs" and "rx_held t = rx_held s @ map fst (take 1 kp)"
    and "\<And>x. x \<in> set (held_bufs hs) \<Longrightarrow> pbs (rx_mem t) x = pbs (rx_mem s) x" and "pchain (rx_mem t) kp None"
  shows "held_at t (hs @ (if kp = [] then [] else [kp]))"
proof -
  have "held_at (t\<lparr>rx_held := rx_held s\<rparr>) hs" by (rule held_at_cong [OF assms(1)]) (simp_all add: assms(3))
  then show ?thesis using assms(2,4) by (cases kp) (auto simp: held_at_def)
qed

lemma sum_le_256: "list_all (\<lambda>c. snd (snd c) \<le> 256) cs \<Longrightarrow> sum_list (lens cs) \<le> 256 * length cs" for cs :: "cell list"
  by (induction cs) auto

lemma idle_le_256: "idle_at s cs \<Longrightarrow> list_all (\<lambda>c. snd (snd c) \<le> 256) cs"
  by (auto simp: idle_at_def list_all_iff)

lemma owner_only:
  assumes "rb_flags (rx_bd s i) = hdkif_swizzle_data EMAC_BUF_DESC_OWNER"
  shows "rb_has EMAC_BUF_DESC_OWNER i s" "\<not> rb_has EMAC_BUF_DESC_SOP i s" "\<not> rb_has EMAC_BUF_DESC_EOQ i s"
  using assms by (simp_all add: rb_has_def)

lemma idle_flags: "idle_at s cs \<Longrightarrow> c \<in> set cs \<Longrightarrow> rb_flags (rx_bd s (fst c)) = hdkif_swizzle_data EMAC_BUF_DESC_OWNER"
  by (auto simp: idle_at_def)

text \<open>What the handler does to a packet leaves the others as they are.\<close>

lemma pkt_at_cong:
  assumes "pkt_at s cs f" and "\<And>i. i \<in> set (bds cs) \<Longrightarrow> rb_flags (rx_bd t i) = rb_flags (rx_bd s i) \<and> rb_len (rx_bd t i) = rb_len (rx_bd s i)"
    and "\<And>p. p \<in> set (bufs cs) \<Longrightarrow> rx_data t p = rx_data s p"
  shows "pkt_at t cs f"
proof -
  have ne: "cs \<noteq> []" using assms(1) by (simp add: pkt_at_def)
  have has: "rb_has g (fst c) t = rb_has g (fst c) s" if "c \<in> set cs" for g c using assms(2) that by (simp add: rb_has_def)
  have "packet_data t cs = packet_data s cs"
    unfolding packet_data_def by (rule arg_cong [of _ _ concat], rule map_cong) (use assms(2,3) in \<open>auto simp: buf_size_def\<close>)
  moreover have "\<not> rb_has EMAC_BUF_DESC_EOP (fst c) t" if "c \<in> set (butlast cs)" for c
    using has [OF in_set_butlastD [OF that]] assms(1) that by (simp add: pkt_at_def list_all_iff)
  then have "list_all (\<lambda>c. \<not> rb_has EMAC_BUF_DESC_EOP (fst c) t) (butlast cs)" by (simp add: list_all_iff)
  moreover have "rb_flags (rx_bd t (fst (hd cs))) = rb_flags (rx_bd s (fst (hd cs)))" using assms(2) ne by simp
  ultimately show ?thesis using assms(1) has [of "hd cs"] has [of "last cs"] ne by (simp add: pkt_at_def)
qed

lemma idle_at_cong:
  "idle_at s cs \<Longrightarrow> (\<And>i. i \<in> set (bds cs) \<Longrightarrow> rb_flags (rx_bd t i) = rb_flags (rx_bd s i) \<and> rb_len (rx_bd t i) = rb_len (rx_bd s i)) \<Longrightarrow>
     idle_at t cs"
  by (force simp: idle_at_def buf_size_def)

text \<open>At most so many buffers hold a frame.\<close>

definition frame_bufs :: "u8 list \<Rightarrow> nat" where
  "frame_bufs f = (length f + 511) div 256"

definition kept_count :: "treatment \<Rightarrow> nat \<Rightarrow> u8 list \<Rightarrow> nat" where
  "kept_count treat n f = (if snd (treat n) then min (Suc (fst (treat n))) (frame_bufs f) else 0)"

fun kept_counts :: "treatment \<Rightarrow> nat \<Rightarrow> u8 list list \<Rightarrow> nat" where
  "kept_counts treat n [] = 0"
| "kept_counts treat n (f # fs) = kept_count treat n f + kept_counts treat (Suc n) fs"

text \<open>The buffers of a packet, in bytes and in number.\<close>

lemma rx_at_lengths:
  assumes A: "rx_at s ((cs, f) # pks) ds hs"
  shows "sum_list (lens cs) \<le> 256 * length cs" "256 * length cs < sum_list (lens cs) + 256" "sum_list (lens cs) < 65536"
    "rx_taken pks @ ds \<noteq> []" "length (kept_part treat n (rx_received s cs)) \<le> kept_count treat n f"
proof -
  let ?ds = "rx_taken pks @ ds"
  have C: "length (cs @ ?ds) = 60" "sum_list (lens (cs @ ?ds)) = 15140"
    and k: "list_all (\<lambda>c. snd (snd c) \<le> 256) cs" "list_all (\<lambda>c. snd (snd c) \<le> 256) (rx_taken pks)" "idle_at s ds"
    and P: "length f \<le> 1514" "sum_list (lens cs) < length f + 256" using A by (simp_all add: rx_at_def)
  have k': "list_all (\<lambda>c. snd (snd c) \<le> 256) ?ds" using k(2) idle_le_256 [OF k(3)] by simp
  show L: "sum_list (lens cs) \<le> 256 * length cs" "256 * length cs < sum_list (lens cs) + 256" "sum_list (lens cs) < 65536"
    using sum_le_256 [OF k(1)] sum_le_256 [OF k'] C P by simp_all
  show "?ds \<noteq> []"
  proof
    assume e: "?ds = []"
    have "sum_list (lens cs) = 15140" using C(2) unfolding e by simp
    then show False using P by simp
  qed
  have "256 * length cs < length f + 512" using L(2) P(2) by simp
  then have "length cs \<le> frame_bufs f" unfolding frame_bufs_def by linarith
  then show "length (kept_part treat n (rx_received s cs)) \<le> kept_count treat n f"
    by (simp add: kept_part_def kept_count_def rx_received_def min.coboundedI1)
qed

lemma rx_packet_step:
  fixes treat :: treatment
  assumes A: "rx_at s ((cs, f) # pks) ds hs"
  defines "kp \<equiv> kept_part treat (length (rx_up s)) (rx_received s cs)"
  assumes K: "length kp \<le> length (pb_pool (rx_mem s))"
  shows "\<exists>t qs. rx_packet treat (fst (hd cs)) l s = Some (fst (last cs), t) \<and>
    rx_at t pks (ds @ refreshed qs cs) (hs @ (if kp = [] then [] else [kp])) \<and>
    rx_up t = rx_up s @ [(of_nat (length f), f)] \<and> length (pb_pool (rx_mem t)) + length kp = length (pb_pool (rx_mem s))"
proof -
  let ?ds = "rx_taken pks @ ds"
  have C: "cells s (cs @ ?ds) None" "distinct (bds (cs @ ?ds))" "distinct (bufs (cs @ ?ds) @ held_bufs hs @ pb_pool (rx_mem s))"
    "ring_ends s (cs @ ?ds)" "length (cs @ ?ds) = 60" "sum_list (lens (cs @ ?ds)) = 15140" "held_at s hs"
    and k: "list_all (\<lambda>c. snd (snd c) \<le> 256) (rx_taken pks)"
    and P: "pkt_at s cs f" "length f \<le> 1514"
    and pks: "list_all (\<lambda>(cs, f). pkt_at s cs f \<and> length f \<le> 1514 \<and> sum_list (lens cs) < length f + 256) pks"
    and idle: "idle_at s ds" "rx_hdp s = map_option fst (cell_at ds None)"
    and eoq: "ds = [] \<Longrightarrow> rb_has EMAC_BUF_DESC_EOQ (fst (last (cs @ rx_taken pks))) s"
    using A by (simp_all add: rx_at_def)
  note L = rx_at_lengths(1-3) [OF A] and ne = rx_at_lengths(4) [OF A]
  have d: "distinct (bufs (cs @ ?ds) @ pb_pool (rx_mem s))" "set (held_bufs hs) \<inter> set (bufs cs @ pb_pool (rx_mem s)) = {}"
    using C(3) unfolding map_append distinct_append set_append by blast+
  obtain t qs where t: "rx_packet treat (fst (hd cs)) l s = Some (fst (last cs), t)" "length qs = length cs" "cells t (?ds @ refreshed qs cs) None"
    "ring_ends t (?ds @ refreshed qs cs)" "idle_at t (refreshed qs cs)" "rx_up t = rx_up s @ [(of_nat (length f), f)]"
    "rx_held t = rx_held s @ map fst (take 1 kp)" "mset (qs @ pb_pool (rx_mem t) @ map fst kp) = mset (bufs cs @ pb_pool (rx_mem s))"
    "length (pb_pool (rx_mem t)) + length kp = length (pb_pool (rx_mem s))" "pchain (rx_mem t) kp None"
    "\<And>x. x \<notin> set (bufs cs @ pb_pool (rx_mem s)) \<Longrightarrow> pbs (rx_mem t) x = pbs (rx_mem s) x" "rx_data t = rx_data s"
    "rx_hdp t = (if rb_has EMAC_BUF_DESC_EOQ (fst (last ?ds)) s then Some (fst (hd cs)) else rx_hdp s)"
    "\<And>i. i \<in> set (bds ?ds) \<Longrightarrow> rb_flags (rx_bd t i) = rb_flags (rx_bd s i) \<and> rb_len (rx_bd t i) = rb_len (rx_bd s i)"
    using rx_packet_cells [OF C(1) ne C(2) d(1) P(1) C(4) L, of treat l] K unfolding kp_def by blast
  have cs: "cs \<noteq> []" using P(1) by (simp add: pkt_at_def)
  let ?hs = "hs @ (if kp = [] then [] else [kp])"
  note rf = refreshed_lists [OF cs L(1,2) t(2)]
  have "distinct (bds ?ds @ bds cs)" using C(2) unfolding map_append distinct_append by blast
  then have "distinct (bds (?ds @ refreshed qs cs))" by (simp only: map_append rf(1))
  moreover have "distinct (bufs (?ds @ refreshed qs cs) @ held_bufs ?hs @ pb_pool (rx_mem t))"
  proof -
    have "mset (bufs (?ds @ refreshed qs cs) @ held_bufs ?hs @ pb_pool (rx_mem t)) =
      mset (bufs ?ds) + mset (held_bufs hs) + mset (qs @ pb_pool (rx_mem t) @ map fst kp)"
      by (simp only: map_append rf(2) mset_append) (simp add: ac_simps)
    also have "\<dots> = mset (bufs (cs @ ?ds) @ held_bufs hs @ pb_pool (rx_mem s))" unfolding t(8) by simp
    finally show ?thesis using C(3) mset_eq_imp_distinct_iff by blast
  qed
  moreover have "held_at t ?hs"
    by (rule held_at_add [OF C(7) t(7) _ t(10)]) (use t(11) d(2) in blast)
  moreover have "length (?ds @ refreshed qs cs) = 60" using C(5) rf(1) by (metis add.commute length_append length_map)
  moreover have "sum_list (lens (?ds @ refreshed qs cs)) = 15140" using C(6) rf(3) by simp
  moreover have "list_all (\<lambda>(cs, f). pkt_at t cs f \<and> length f \<le> 1514 \<and> sum_list (lens cs) < length f + 256) pks"
    unfolding list_all_iff
  proof clarify
    fix c g
    assume c: "(c, g) \<in> set pks"
    then have g: "pkt_at s c g \<and> length g \<le> 1514 \<and> sum_list (lens c) < length g + 256" using pks by (auto simp: list_all_iff)
    have sub: "set (bds c) \<subseteq> set (bds ?ds)" using c by force
    have "pkt_at t c g"
    proof (rule pkt_at_cong [of s])
      show "rb_flags (rx_bd t i) = rb_flags (rx_bd s i) \<and> rb_len (rx_bd t i) = rb_len (rx_bd s i)" if "i \<in> set (bds c)" for i
        using t(14) sub that by blast
    qed (use g t(12) in simp_all)
    then show "pkt_at t c g \<and> length g \<le> 1514 \<and> sum_list (lens c) < length g + 256" using g by simp
  qed
  moreover have "idle_at t (ds @ refreshed qs cs)"
    using idle_at_cong [OF idle(1), of t] t(5,14) by (auto simp: idle_at_def)
  moreover have "rx_hdp t = map_option fst (cell_at (ds @ refreshed qs cs) None)"
  proof (cases "ds = []")
    case True
    then have "fst (hd (refreshed qs cs)) = fst (hd cs)" using rf(1,5) cs by (metis hd_map)
    moreover have "rb_has EMAC_BUF_DESC_EOQ (fst (last ?ds)) s" using eoq True ne by simp
    ultimately show ?thesis using t(13) True cell_at_last [OF rf(5)] by simp
  next
    case False
    then have "\<not> rb_has EMAC_BUF_DESC_EOQ (fst (last ?ds)) s" using owner_only(3) idle_flags [OF idle(1)] by simp
    then show ?thesis using t(13) idle(2) False by (cases ds) simp_all
  qed
  ultimately have "rx_at t pks (ds @ refreshed qs cs) ?hs" using t(3,4) k rf(5) unfolding rx_at_def append_assoc by simp
  with t(1,6,9) show ?thesis by blast
qed

text \<open>The handler hands up every packet and returns, if the pool has the buffers that replies hold.\<close>

lemma rx_loop_ring:
  assumes "rx_at s pks ds hs" and "kept_counts treat (length (rx_up s)) (map snd pks) \<le> length (pb_pool (rx_mem s))"
  shows "\<exists>t ds' hs'. rx_loop dma treat l s = Some t \<and> rx_at t [] ds' hs' \<and>
     rx_up t = rx_up s @ map (\<lambda>(cs, f). (of_nat (length f), f)) pks \<and>
     length (pb_pool (rx_mem t)) + length (concat hs') = length (pb_pool (rx_mem s)) + length (concat hs) \<and>
     length (concat hs') \<le> length (concat hs) + kept_counts treat (length (rx_up s)) (map snd pks)"
  using assms
proof (induction pks arbitrary: s ds hs l)
  case Nil
  then have "ds \<noteq> []" "idle_at s ds" "rx_active_head s = Some (fst (hd ds))" by (auto simp: rx_at_def ring_ends_def)
  then have "\<not> rb_has EMAC_BUF_DESC_SOP (fst (hd ds)) s" using owner_only(2) idle_flags by simp
  then have "rx_loop dma treat l s = Some s" using \<open>rx_active_head s = _\<close> by (subst rx_loop.simps) simp
  then show ?case using Nil by auto
next
  case (Cons x pks)
  obtain cs f where x: "x = (cs, f)" by force
  let ?kp = "kept_part treat (length (rx_up s)) (rx_received s cs)"
  have A: "rx_at s ((cs, f) # pks) ds hs" using Cons.prems(1) x by simp
  have k: "length ?kp \<le> kept_count treat (length (rx_up s)) f" by (rule rx_at_lengths(5) [OF A])
  have room: "kept_count treat (length (rx_up s)) f + kept_counts treat (Suc (length (rx_up s))) (map snd pks) \<le> length (pb_pool (rx_mem s))"
    using Cons.prems(2) x by simp
  let ?hs = "hs @ (if ?kp = [] then [] else [?kp])"
  have "length ?kp \<le> length (pb_pool (rx_mem s))" using k room by simp
  then obtain t qs where t: "rx_packet treat (fst (hd cs)) l s = Some (fst (last cs), t)" "rx_at t pks (ds @ refreshed qs cs) ?hs"
    "rx_up t = rx_up s @ [(of_nat (length f), f)]" "length (pb_pool (rx_mem t)) + length ?kp = length (pb_pool (rx_mem s))"
    using rx_packet_step [OF A, of treat l] by blast
  have len: "length (concat ?hs) = length (concat hs) + length ?kp" by simp
  have "pkt_at s cs f" "rx_active_head s = Some (fst (hd cs))"
    using A by (auto simp: rx_at_def ring_ends_def pkt_at_def hd_append)
  then have step: "rx_loop dma treat l s = rx_loop dma treat (fst (last cs)) t" using t(1) by (subst rx_loop.simps) (simp add: pkt_at_def)
  have "kept_counts treat (length (rx_up t)) (map snd pks) \<le> length (pb_pool (rx_mem t))" using room t(3,4) k by simp
  from Cons.IH [OF t(2) this, of "fst (last cs)"] obtain v ds' hs' where v: "rx_loop dma treat (fst (last cs)) t = Some v" "rx_at v [] ds' hs'"
    "rx_up v = rx_up t @ map (\<lambda>(cs, f). (of_nat (length f), f)) pks"
    "length (pb_pool (rx_mem v)) + length (concat hs') = length (pb_pool (rx_mem t)) + length (concat ?hs)"
    "length (concat hs') \<le> length (concat ?hs) + kept_counts treat (length (rx_up t)) (map snd pks)" by blast
  have "length (pb_pool (rx_mem v)) + length (concat hs') = length (pb_pool (rx_mem s)) + length (concat hs)" using v(4) len t(4) by linarith
  moreover have "length (concat hs') \<le> length (concat hs) + kept_counts treat (length (rx_up s)) (map snd (x # pks))"
    using v(5) len k t(3) x by simp
  ultimately show ?case using step v(1-3) t(3) x by (intro exI [of _ v] exI [of _ ds'] exI [of _ hs']) simp
qed

text \<open>The transmit interrupt gives back what replies held.\<close>

lemma free_heads_chains:
  assumes "list_all (\<lambda>ps. ps \<noteq> [] \<and> pchain m ps None) hs" and "distinct (held_bufs hs)"
  shows "\<exists>m' gs. free_heads (map (\<lambda>ps. fst (hd ps)) hs) m = Some m' \<and> pb_pool m' = gs @ pb_pool m \<and> mset gs = mset (held_bufs hs) \<and>
    (\<forall>x. x \<notin> set (held_bufs hs) \<longrightarrow> pbs m' x = pbs m x)"
  using assms
proof (induction hs arbitrary: m)
  case Nil
  then show ?case by simp
next
  case (Cons ps hs)
  have ps: "ps \<noteq> []" "pchain m ps None" "distinct (map fst ps)" using Cons.prems by simp_all
  then have h: "at_first ps None = Some (fst (hd ps))" by (cases ps) auto
  obtain c m1 where m1: "pbuf_free (Some (fst (hd ps))) m = Some (c, m1)" "pb_pool m1 = rev (map fst ps) @ pb_pool m"
    "pbs m1 = (\<lambda>x. if x \<in> set (map fst ps) then None else pbs m x)"
    using free_pchain [OF ps(2,3), of 0] h by (auto simp: pbuf_free_def)
  have apart: "set (map fst ps) \<inter> set (held_bufs hs) = {}" "distinct (held_bufs hs)" using Cons.prems(2) by auto
  have "pchain m1 qs None = pchain m qs None" if "qs \<in> set hs" for qs
  proof (rule pchain_cong)
    fix x
    assume "x \<in> set (map fst qs)"
    then have "x \<in> set (held_bufs hs)" using that by auto
    then have "x \<notin> set (map fst ps)" using apart(1) by blast
    then show "pbs m1 x = pbs m x" using m1(3) by simp
  qed
  then have "list_all (\<lambda>ps. ps \<noteq> [] \<and> pchain m1 ps None) hs" using Cons.prems(1) by (simp add: list_all_iff)
  from Cons.IH [OF this apart(2)] obtain m' gs where "free_heads (map (\<lambda>ps. fst (hd ps)) hs) m1 = Some m'" "pb_pool m' = gs @ pb_pool m1"
    "mset gs = mset (held_bufs hs)" "\<forall>x. x \<notin> set (held_bufs hs) \<longrightarrow> pbs m' x = pbs m1 x" by blast
  then show ?case using m1 by (intro exI [of _ m'] exI [of _ "gs @ rev (map fst ps)"]) auto
qed

lemma tx_release_ring:
  assumes "rx_at s pks ds hs"
  shows "\<exists>t. tx_release s = Some t \<and> rx_at t pks ds [] \<and> rx_up t = rx_up s \<and>
    length (pb_pool (rx_mem t)) = length (pb_pool (rx_mem s)) + length (concat hs)"
proof -
  let ?cs = "rx_taken pks @ ds"
  have A: "cells s ?cs None" "distinct (bufs ?cs @ held_bufs hs @ pb_pool (rx_mem s))" "rx_held s = map (\<lambda>ps. fst (hd ps)) hs"
    "list_all (\<lambda>ps. ps \<noteq> [] \<and> pchain (rx_mem s) ps None) hs" using assms by (simp_all add: rx_at_def held_at_def)
  have "distinct (held_bufs hs)" using A(2) unfolding distinct_append by blast
  from free_heads_chains [OF A(4) this] obtain m gs where m: "free_heads (rx_held s) (rx_mem s) = Some m"
    "pb_pool m = gs @ pb_pool (rx_mem s)" "mset gs = mset (held_bufs hs)" "\<And>x. x \<notin> set (held_bufs hs) \<Longrightarrow> pbs m x = pbs (rx_mem s) x"
    unfolding A(3) by blast
  let ?t = "s\<lparr>rx_mem := m, rx_held := []\<rparr>"
  have "cells ?t ?cs None = cells s ?cs None"
  proof (rule cells_cong)
    show "pbs (rx_mem ?t) p = pbs (rx_mem s) p" if "p \<in> set (bufs ?cs)" for p
    proof -
      have "p \<notin> set (held_bufs hs)" using that A(2) unfolding distinct_append set_append by blast
      then show ?thesis using m(4) by simp
    qed
  qed simp
  moreover have "distinct (bufs ?cs @ held_bufs [] @ pb_pool m)"
  proof -
    have "mset (bufs ?cs @ held_bufs [] @ pb_pool m) = mset (bufs ?cs @ held_bufs hs @ pb_pool (rx_mem s))" using m(2,3) by simp
    then show ?thesis using A(2) mset_eq_imp_distinct_iff by blast
  qed
  moreover have "pkt_at ?t = pkt_at s" "idle_at ?t = idle_at s" "rb_has g i ?t = rb_has g i s" "ring_ends ?t = ring_ends s" for g i
    by (simp_all add: fun_eq_iff pkt_at_def idle_at_def rb_has_def packet_data_def buf_size_def ring_ends_def)
  ultimately have "rx_at ?t pks ds []" using assms unfolding rx_at_def by (simp add: held_at_def)
  moreover have "length gs = length (concat hs)" using arg_cong [OF m(3), of size] by simp
  ultimately show ?thesis using m(1,2) by (intro exI [of _ ?t]) (simp add: tx_release_def)
qed

section \<open>A frame arrives\<close>

lemma rx_place_keeps [simp]:
  "rx_held (rx_place js f s) = rx_held s" "rx_mem (rx_place js f s) = rx_mem s" "rx_up (rx_place js f s) = rx_up s" "rx_hdp (rx_place js f s) = rx_hdp s"
  "rx_free_head (rx_place js f s) = rx_free_head s" "rx_active_head (rx_place js f s) = rx_active_head s"
  "rx_active_tail (rx_place js f s) = rx_active_tail s" "freed_pbuf_len (rx_place js f s) = freed_pbuf_len s"
  "rb_next (rx_bd (rx_place js f s) i) = rb_next (rx_bd s i)" "rb_pbuf (rx_bd (rx_place js f s) i) = rb_pbuf (rx_bd s i)"
  "rb_bufptr (rx_bd (rx_place js f s) i) = rb_bufptr (rx_bd s i)"
  by (induction js arbitrary: f s) (simp_all add: Let_def)

lemma rx_place_bd: "i \<notin> set js \<Longrightarrow> rx_bd (rx_place js f s) i = rx_bd s i"
  by (induction js f s rule: rx_place.induct) (simp_all add: Let_def)

lemma rx_place_flags: "distinct js \<Longrightarrow> i \<in> set js \<Longrightarrow>
    rb_flags (rx_bd (rx_place js f s) i) = hdkif_swizzle_data (if i = last js then EMAC_BUF_DESC_EOP else 0)"
proof (induction js f s rule: rx_place.induct)
  case (2 j js f s)
  show ?case
  proof (cases "i = j")
    case True
    then show ?thesis using "2.prems"(1) by (auto simp: rx_place_bd Let_def)
  next
    case False
    then show ?thesis using "2.IH" "2.prems" by (auto simp: Let_def)
  qed
qed simp

text \<open>The data end up in the buffers of the descriptors.\<close>

lemma rx_place_data_keep: "(\<And>i. i \<in> set js \<Longrightarrow> rb_bufptr (rx_bd s i) \<noteq> p) \<Longrightarrow> rx_data (rx_place js f s) p = rx_data s p"
  by (induction js f s rule: rx_place.induct) (auto simp: Let_def)

lemma rx_place_data:
  assumes "cells s cs z" and "distinct (bds cs)" and "distinct (bufs cs)" and "idle_at s cs" and "length f \<le> sum_list (lens cs)"
  shows "packet_data (rx_place (bds cs) f s) cs = f"
  using assms
proof (induction cs arbitrary: s f)
  case Nil
  then show ?case by (simp add: packet_data_def)
next
  case (Cons c cs)
  obtain i p n where c: "c = (i, p, n)" by (cases c) auto
  have i: "buf_size i s = n" "n \<le> 256" "rb_bufptr (rx_bd s i) = p" "cells s cs z" "idle_at s cs"
    using Cons.prems(1,4) c by (auto simp: idle_at_def)
  let ?k = "min n (length f)"
  let ?s = "upd_rb i (\<lambda>b. b\<lparr>rb_len := hdkif_swizzle_data (of_nat ?k), rb_flags := hdkif_swizzle_data (if bds cs = [] then EMAC_BUF_DESC_EOP else 0)\<rparr>)
             (s\<lparr>rx_data := (rx_data s)(p := take ?k f)\<rparr>)"
  let ?t = "rx_place (bds cs) (drop ?k f) ?s"
  have eq: "rx_place (bds (c # cs)) f s = ?t" using i(1,3) c by (simp add: Let_def)
  have out: "i \<notin> set (bds cs)" "p \<notin> set (bufs cs)" using Cons.prems(2,3) c by auto
  have "cells ?s cs z" using i(4) out by (subst cells_cong [of _ _ s]) auto
  moreover have "idle_at ?s cs" by (rule idle_at_cong [OF i(5)]) (use out in auto)
  moreover have "length (drop ?k f) \<le> sum_list (lens cs)" using Cons.prems(5) c by auto
  ultimately have rest: "packet_data ?t cs = drop ?k f" using Cons.IH [of ?s "drop ?k f"] Cons.prems(2,3) by simp
  have "rx_bd ?t i = rx_bd ?s i" by (rule rx_place_bd [OF out(1)])
  then have "buf_size i ?t = ?k" using len_field_small [of ?k] i(2) by (simp add: buf_size_def)
  moreover have "rx_data ?t p = rx_data ?s p"
  proof (rule rx_place_data_keep)
    fix j
    assume "j \<in> set (bds cs)"
    then obtain d where d: "d \<in> set cs" "fst d = j" by auto
    have "rb_bufptr (rx_bd s (fst d)) = fst (snd d)" using i(4) d(1) by (induction s cs z rule: cells.induct) auto
    then show "rb_bufptr (rx_bd ?s j) \<noteq> p" using d out by auto
  qed
  ultimately have "take (buf_size i ?t) (rx_data ?t p) = take ?k f" by simp
  then show ?case using rest unfolding eq by (simp add: packet_data_def c)
qed

lemma rb_has_upd: "mark g \<Longrightarrow> rb_has g i (upd_rb j (\<lambda>b. b\<lparr>rb_flags := rb_flags b OR hdkif_swizzle_data w\<rparr>) s) \<longleftrightarrow>
    rb_has g i s \<or> i = j \<and> w AND g = g"
  by (auto simp: rb_has_def swizzle_or mark_or)

lemma rb_has_swz: "rb_flags (rx_bd s i) = hdkif_swizzle_data w \<Longrightarrow> rb_has g i s \<longleftrightarrow> w AND g = g"
  by (simp add: rb_has_def)

lemma zero_mark: "mark g \<Longrightarrow> 0 AND g \<noteq> g"
proof -
  assume "mark g"
  then obtain k where "\<And>w. w AND g = g \<longleftrightarrow> bit w k" using mark_bit by blast
  then have "0 AND g = g \<longleftrightarrow> bit (0 :: u32) k" .
  then show ?thesis by simp
qed

text \<open>The packet that the engine leaves behind.\<close>

lemma rx_filled_pkt:
  assumes "cells s cs z" and "distinct (bds cs)" and "distinct (bufs cs)" and "idle_at s cs" and "cs \<noteq> []"
    and "length f \<le> sum_list (lens cs)"
  shows "pkt_at (rx_filled (bds cs) f s) cs f"
proof -
  let ?h = "fst (hd cs)" and ?e = "fst (last cs)" and ?g = "EMAC_BUF_DESC_SOP OR ucast (of_nat (length f) :: u16)"
  let ?p = "rx_place (bds cs) f s"
  let ?t = "upd_rb ?h (\<lambda>b. b\<lparr>rb_flags := rb_flags b OR hdkif_swizzle_data ?g\<rparr>) ?p"
  let ?u = "upd_rb ?e (\<lambda>b. b\<lparr>rb_flags := rb_flags b OR hdkif_swizzle_data EMAC_BUF_DESC_EOQ\<rparr>) ?t"
  have he: "hd (bds cs) = ?h" "last (bds cs) = ?e" using assms(5) by (simp_all add: hd_map last_map)
  have fl: "rb_flags (rx_bd ?p i) = hdkif_swizzle_data (if i = ?e then EMAC_BUF_DESC_EOP else 0)" if "i \<in> set (bds cs)" for i
    using rx_place_flags [OF assms(2) that] he by simp
  have hin: "?h \<in> set (bds cs)" "?e \<in> set (bds cs)" using assms(5) by simp_all
  have g: "?g AND m = m \<longleftrightarrow> EMAC_BUF_DESC_SOP AND m = m" if "mark m" for m using mark_or [OF that] mark_len [OF that] by simp
  have eop: "rb_has EMAC_BUF_DESC_EOP i ?t \<longleftrightarrow> i = ?e" "rb_has EMAC_BUF_DESC_EOP i ?u \<longleftrightarrow> i = ?e" if "i \<in> set (bds cs)" for i
    using rb_has_swz [OF fl [OF that], of EMAC_BUF_DESC_EOP] g [of EMAC_BUF_DESC_EOP] zero_mark [of EMAC_BUF_DESC_EOP]
    by (simp_all add: rb_has_upd)
  have inner: "fst c \<noteq> ?e" if "c \<in> set (butlast cs)" for c
  proof -
    have "cs = butlast cs @ [last cs]" using assms(5) by simp
    then have "distinct (bds (butlast cs) @ [?e])" using assms(2) by (metis list.simps(8,9) map_append)
    then have "?e \<notin> set (bds (butlast cs))" by simp
    moreover have "fst c \<in> set (bds (butlast cs))" using that by simp
    ultimately show ?thesis by metis
  qed
  have sop: "rb_has EMAC_BUF_DESC_SOP ?h ?t" "rb_has EMAC_BUF_DESC_SOP ?h ?u" using g [of EMAC_BUF_DESC_SOP] by (simp_all add: rb_has_upd)
  have own: "\<not> rb_has EMAC_BUF_DESC_OWNER ?h ?t" "\<not> rb_has EMAC_BUF_DESC_OWNER ?h ?u"
    using rb_has_swz [OF fl [OF hin(1)], of EMAC_BUF_DESC_OWNER] g [of EMAC_BUF_DESC_OWNER] zero_mark [of EMAC_BUF_DESC_OWNER]
    by (simp_all add: rb_has_upd)
  have fields: "hdkif_swizzle_data (rb_flags (rx_bd ?t ?h)) AND 0xFFFF = ucast (of_nat (length f) :: u16)"
    "hdkif_swizzle_data (rb_flags (rx_bd ?u ?h)) AND 0xFFFF = ucast (of_nat (length f) :: u16)"
    using fl [OF hin(1)] low_half [of "of_nat (length f)"] mark_high [of EMAC_BUF_DESC_EOP] mark_high [of EMAC_BUF_DESC_SOP] mark_high [of EMAC_BUF_DESC_EOQ]
    by (cases "?h = ?e"; simp add: swizzle_or bit.conj_disj_distrib2)+
  have data: "packet_data ?p cs = f" by (rule rx_place_data [OF assms(1-4,6)])
  have "packet_data ?t cs = packet_data ?p cs" "packet_data ?u cs = packet_data ?p cs"
    unfolding packet_data_def by (rule arg_cong [of _ _ concat], rule map_cong; simp add: buf_size_def)+
  then have pd: "packet_data ?t cs = f" "packet_data ?u cs = f" using data by simp_all
  have I: "pkt_at v cs f" if v: "rb_has EMAC_BUF_DESC_SOP ?h v" "\<not> rb_has EMAC_BUF_DESC_OWNER ?h v"
      "hdkif_swizzle_data (rb_flags (rx_bd v ?h)) AND 0xFFFF = ucast (of_nat (length f) :: u16)"
      "\<And>i. i \<in> set (bds cs) \<Longrightarrow> rb_has EMAC_BUF_DESC_EOP i v \<longleftrightarrow> i = ?e" "packet_data v cs = f" for v
  proof -
    have "ucast (hdkif_swizzle_data (rb_flags (rx_bd v ?h)) AND 0xFFFF) = (of_nat (length f) :: u16)"
      unfolding v(3) by (rule bit_word_eqI) (auto simp: bit_ucast_iff)
    moreover have "\<not> rb_has EMAC_BUF_DESC_EOP (fst c) v" if "c \<in> set (butlast cs)" for c
    proof -
      have "fst c \<in> set (bds cs)" using in_set_butlastD [OF that] by simp
      then show ?thesis using v(4) inner [OF that] by blast
    qed
    moreover have "rb_has EMAC_BUF_DESC_EOP ?e v" using v(4) [OF hin(2)] by simp
    ultimately show ?thesis using v(1,2,5) assms(5) by (simp add: pkt_at_def list_all_iff)
  qed
  have "pkt_at ?t cs f" by (rule I [OF sop(1) own(1) fields(1) eop(1) pd(1)])
  moreover have "pkt_at ?u cs f" by (rule I [OF sop(2) own(2) fields(2) eop(2) pd(2)])
  moreover have "pkt_at (t\<lparr>rx_hdp := x\<rparr>) cs f = pkt_at t cs f" for t x
    by (simp add: pkt_at_def rb_has_def packet_data_def buf_size_def)
  ultimately show ?thesis unfolding rx_filled_def he Let_def by (cases "rb_next (rx_bd ?t ?e)") (simp_all only: option.case)
qed

lemma frame_prefix:
  assumes "0 < n" and "n \<le> sum_list (lens ds)"
  shows "\<exists>cs es. ds = cs @ es \<and> cs \<noteq> [] \<and> sum_list (lens (butlast cs)) < n \<and> n \<le> sum_list (lens cs)"
  using assms
proof (induction ds arbitrary: n)
  case Nil
  then show ?case by simp
next
  case (Cons d ds)
  show ?case
  proof (cases "n \<le> snd (snd d)")
    case True
    then show ?thesis using Cons.prems(1) by (intro exI [of _ "[d]"] exI [of _ ds]) simp
  next
    case False
    then have "0 < n - snd (snd d)" "n - snd (snd d) \<le> sum_list (lens ds)" using Cons.prems(2) by simp_all
    then obtain cs es where cs: "ds = cs @ es" "cs \<noteq> []" "sum_list (lens (butlast cs)) < n - snd (snd d)"
      "n - snd (snd d) \<le> sum_list (lens cs)" using Cons.IH by blast
    then have "snd (snd d) + sum_list (lens (butlast cs)) < n" "n \<le> snd (snd d) + sum_list (lens cs)" using False by linarith+
    then have "d # ds = (d # cs) @ es \<and> d # cs \<noteq> [] \<and> sum_list (lens (butlast (d # cs))) < n \<and> n \<le> sum_list (lens (d # cs))"
      using cs by simp
    then show ?thesis by blast
  qed
qed

lemma cells_bd_path: "cells s cs z \<Longrightarrow> bd_path s (bds cs)"
proof (induction s cs z rule: cells.induct)
  case (2 s i p n cs z)
  then show ?case by (cases cs) auto
qed simp

lemma idle_takes:
  assumes "cells s cs z" and "idle_at s cs" and "cs \<noteq> []" and "sum_list (lens (butlast cs)) < length f" and "length f \<le> sum_list (lens cs)"
  shows "takes f (bds cs) s"
proof -
  have bs: "buf_size (fst c) s = snd (snd c)" if "c \<in> set cs" for c using assms(2) that by (auto simp: idle_at_def)
  have size: "map (\<lambda>i. buf_size i s) (bds es) = lens es" if "set es \<subseteq> set cs" for es
    unfolding map_map
  proof (rule map_cong [OF refl])
    fix c
    assume "c \<in> set es"
    then have "c \<in> set cs" using that by blast
    then show "((\<lambda>i. buf_size i s) \<circ> fst) c = snd (snd c)" by (simp add: bs)
  qed
  have "list_all (\<lambda>i. rb_has EMAC_BUF_DESC_OWNER i s) (bds cs)"
    using owner_only(1) idle_flags [OF assms(2)] by (auto simp: list_all_iff)
  moreover have "set (butlast cs) \<subseteq> set cs" by (auto dest: in_set_butlastD)
  ultimately show ?thesis
    using assms(3-5) cells_bd_path [OF assms(1)] size [of cs] size [of "butlast cs"] by (simp add: takes_def map_butlast [symmetric] del: map_map)
qed

text \<open>What the engine leaves alone, and where it waits.\<close>

lemma rx_filled_keeps:
  "rx_held (rx_filled js f s) = rx_held s" "rx_mem (rx_filled js f s) = rx_mem s" "rx_up (rx_filled js f s) = rx_up s" "rx_free_head (rx_filled js f s) = rx_free_head s"
  "rx_active_head (rx_filled js f s) = rx_active_head s" "rx_active_tail (rx_filled js f s) = rx_active_tail s"
  "freed_pbuf_len (rx_filled js f s) = freed_pbuf_len s" "rb_next (rx_bd (rx_filled js f s) i) = rb_next (rx_bd s i)"
  "rb_pbuf (rx_bd (rx_filled js f s) i) = rb_pbuf (rx_bd s i)" "rb_bufptr (rx_bd (rx_filled js f s) i) = rb_bufptr (rx_bd s i)"
  "rx_hdp (rx_filled js f s) = rb_next (rx_bd s (last js))"
  by (simp_all add: rx_filled_def Let_def split: option.split)

lemma rx_filled_bd: "js \<noteq> [] \<Longrightarrow> i \<notin> set js \<Longrightarrow> rx_bd (rx_filled js f s) i = rx_bd s i"
proof -
  assume "js \<noteq> []" "i \<notin> set js"
  then have "i \<noteq> hd js" "i \<noteq> last js" by auto
  then show ?thesis using \<open>i \<notin> set js\<close> by (simp add: rx_filled_def Let_def rx_place_bd split: option.split)
qed

lemma rx_filled_eoq:
  assumes "rb_next (rx_bd s (last js)) = None"
  shows "rb_has EMAC_BUF_DESC_EOQ (last js) (rx_filled js f s)"
proof -
  let ?t = "upd_rb (hd js) (\<lambda>b. b\<lparr>rb_flags := rb_flags b OR hdkif_swizzle_data (EMAC_BUF_DESC_SOP OR ucast (of_nat (length f) :: u16))\<rparr>) (rx_place js f s)"
  have "rb_next (rx_bd ?t (last js)) = None" using assms by (cases "last js = hd js") auto
  then have "rx_filled js f s =
      (upd_rb (last js) (\<lambda>b. b\<lparr>rb_flags := rb_flags b OR hdkif_swizzle_data EMAC_BUF_DESC_EOQ\<rparr>) ?t)\<lparr>rx_hdp := None\<rparr>"
    by (simp only: rx_filled_def Let_def option.case)
  moreover have "rb_has g i (t\<lparr>rx_hdp := x\<rparr>) = rb_has g i t" for g i t x by (simp add: rb_has_def)
  ultimately show ?thesis using rb_has_upd [of EMAC_BUF_DESC_EOQ "last js" "last js" EMAC_BUF_DESC_EOQ ?t] by simp
qed

lemma rx_filled_data: "js \<noteq> [] \<Longrightarrow> (\<And>i. i \<in> set js \<Longrightarrow> rb_bufptr (rx_bd s i) \<noteq> p) \<Longrightarrow> rx_data (rx_filled js f s) p = rx_data s p"
  using rx_place_data_keep [of js s p f] by (simp add: rx_filled_def Let_def split: option.split)

lemma rx_arrive:
  assumes A: "rx_at s pks ds hs" and dma: "emac_rx_dma dma" and f: "0 < length f" "length f \<le> 1514" "length f \<le> sum_list (lens ds)"
  shows "\<exists>cs es. ds = cs @ es \<and> rx_at (dma f s) (pks @ [(cs, f)]) es hs \<and> rx_up (dma f s) = rx_up s \<and> rx_mem (dma f s) = rx_mem s"
proof -
  obtain cs es where ds: "ds = cs @ es" "cs \<noteq> []" "sum_list (lens (butlast cs)) < length f" "length f \<le> sum_list (lens cs)"
    using frame_prefix [OF f(1,3)] by blast
  have A': "cells s (rx_taken pks @ cs @ es) None" "distinct (bds (rx_taken pks @ cs @ es))" "distinct (bufs (rx_taken pks @ cs @ es) @ held_bufs hs @ pb_pool (rx_mem s))" "held_at s hs"
    "ring_ends s (rx_taken pks @ cs @ es)" "idle_at s cs" "idle_at s es" "rx_hdp s = Some (fst (hd cs))"
    "list_all (\<lambda>(cs, f). pkt_at s cs f \<and> length f \<le> 1514 \<and> sum_list (lens cs) < length f + 256) pks"
    "length (rx_taken pks @ cs @ es) = 60" "sum_list (lens (rx_taken pks @ cs @ es)) = 15140" "list_all (\<lambda>c. snd (snd c) \<le> 256) (rx_taken pks)"
    using A ds(1,2) by (auto simp: rx_at_def idle_at_def cell_at_append cell_at_last)
  have c: "cells s cs (cell_at es None)" "distinct (bds cs)" "distinct (bufs cs)" using A'(1-3) by (auto simp: cells_append)
  have out: "set (bds (rx_taken pks)) \<inter> set (bds cs) = {}" "set (bds es) \<inter> set (bds cs) = {}"
    "set (bufs (rx_taken pks)) \<inter> set (bufs cs) = {}"
    using A'(2,3) unfolding map_append distinct_append set_append by blast+
  let ?t = "rx_filled (bds cs) f s"
  have "length (bds cs) \<le> NUM_BD" "hd (bds cs) = fst (hd cs)" using A'(10) ds(2) by (simp_all add: hd_map)
  then have t: "dma f s = ?t" using dma c(2) A'(8) idle_takes [OF c(1) A'(6) ds(2-4)] unfolding emac_rx_dma_def by simp
  have "cells ?t (rx_taken pks @ cs @ es) None = cells s (rx_taken pks @ cs @ es) None"
    by (rule cells_cong) (simp_all add: rx_filled_keeps)
  moreover have "held_at ?t hs" by (rule held_at_cong [OF A'(4)]) (simp_all add: rx_filled_keeps)
  moreover have "ring_ends ?t (rx_taken pks @ cs @ es)" using A'(5) by (simp add: ring_ends_def rx_filled_keeps)
  moreover have "pkt_at ?t cs f" by (rule rx_filled_pkt [OF c A'(6) ds(2,4)])
  moreover have "sum_list (lens cs) < length f + 256"
  proof -
    have "snd (snd (last cs)) \<le> 256" using idle_le_256 [OF A'(6)] ds(2) by (simp add: list_all_iff)
    moreover have "sum_list (lens cs) = sum_list (lens (butlast cs)) + snd (snd (last cs))"
      using ds(2) by (subst append_butlast_last_id [of cs, symmetric]) (simp_all del: append_butlast_last_id)
    ultimately show ?thesis using ds(3) by simp
  qed
  moreover have "pkt_at ?t c g" if "(c, g) \<in> set pks" for c g
  proof (rule pkt_at_cong [of s])
    show "pkt_at s c g" using A'(9) that by (auto simp: list_all_iff)
    have sub: "set (bds c) \<subseteq> set (bds (rx_taken pks))" "set (bufs c) \<subseteq> set (bufs (rx_taken pks))" using that by force+
    show "rb_flags (rx_bd ?t i) = rb_flags (rx_bd s i) \<and> rb_len (rx_bd ?t i) = rb_len (rx_bd s i)" if "i \<in> set (bds c)" for i
    proof -
      have "i \<notin> set (bds cs)" using that sub(1) out(1) by blast
      then show ?thesis using rx_filled_bd [of "bds cs" i f s] ds(2) by simp
    qed
    show "rx_data ?t p = rx_data s p" if "p \<in> set (bufs c)" for p
    proof (rule rx_filled_data)
      fix i
      assume "i \<in> set (bds cs)"
      then obtain d where d: "d \<in> set cs" "fst d = i" by auto
      then have "rb_bufptr (rx_bd s i) = fst (snd d)" using c(1) by (induction s cs "cell_at es None" rule: cells.induct) auto
      moreover have "fst (snd d) \<in> set (bufs cs)" using d(1) by simp
      ultimately show "rb_bufptr (rx_bd s i) \<noteq> p" using that sub(2) out(3) by auto
    qed (use ds(2) in simp)
  qed
  moreover have "idle_at ?t es"
  proof (rule idle_at_cong [OF A'(7)])
    show "rb_flags (rx_bd ?t i) = rb_flags (rx_bd s i) \<and> rb_len (rx_bd ?t i) = rb_len (rx_bd s i)" if "i \<in> set (bds es)" for i
    proof -
      have "i \<notin> set (bds cs)" using that out(2) by blast
      then show ?thesis using rx_filled_bd [of "bds cs" i f s] ds(2) by simp
    qed
  qed
  moreover have nx: "rb_next (rx_bd s (fst (last cs))) = map_option fst (cell_at es None)"
  proof -
    have "cs = butlast cs @ [last cs]" using ds(2) by simp
    then have "cells s [last cs] (cell_at es None)" using c(1) cells_append by metis
    then show ?thesis by (cases "last cs") simp
  qed
  moreover have "rx_hdp ?t = map_option fst (cell_at es None)" using nx ds(2) by (simp add: rx_filled_keeps last_map)
  moreover have "rb_has EMAC_BUF_DESC_EOQ (fst (last cs)) ?t" if "es = []"
    using rx_filled_eoq [of s "bds cs" f] nx that ds(2) by (simp add: last_map)
  moreover have "list_all (\<lambda>c. snd (snd c) \<le> 256) cs" by (rule idle_le_256 [OF A'(6)])
  ultimately have "rx_at ?t (pks @ [(cs, f)]) es hs"
    using A' ds(2) f(2) by (auto simp: rx_at_def list_all_iff rx_filled_keeps)
  then show ?thesis using ds(1) t by (auto simp: rx_filled_keeps)
qed

section \<open>The list after initialisation\<close>

fun arm_new :: "nat \<Rightarrow> (nat \<times> nat) list \<Rightarrow> rxch \<Rightarrow> rxch" where
  "arm_new cur [] s = s"
| "arm_new cur ((p, n) # ps) s =
     arm_new (cur + 1) ps (upd_rb cur (\<lambda>_. \<lparr>rb_next = Some (cur + 1), rb_bufptr = p, rb_len = hdkif_swizzle_data (of_nat n),
       rb_flags = hdkif_swizzle_data EMAC_BUF_DESC_OWNER, rb_pbuf = p\<rparr>) s)"

lemma arm_new_keeps [simp]:
  "rx_held (arm_new cur ps s) = rx_held s" "rx_mem (arm_new cur ps s) = rx_mem s" "rx_up (arm_new cur ps s) = rx_up s" "rx_free_head (arm_new cur ps s) = rx_free_head s"
  "rx_active_head (arm_new cur ps s) = rx_active_head s" "freed_pbuf_len (arm_new cur ps s) = freed_pbuf_len s"
  by (induction cur ps s rule: arm_new.induct) simp_all

lemma arm_new_bd: "\<not> (cur \<le> i \<and> i < cur + length ps) \<Longrightarrow> rx_bd (arm_new cur ps s) i = rx_bd s i"
  by (induction cur ps s rule: arm_new.induct) auto

lemma rx_write_pchain: "pchain (rx_mem s) ps None \<Longrightarrow> rx_write_bds (at_first ps None) cur l num_bd s =
    Some (cur + length ps, (if ps = [] then l else cur + length ps - 1), num_bd - length ps, arm_new cur ps s)"
proof (induction cur ps s arbitrary: l num_bd rule: arm_new.induct)
  case (1 cur s)
  then show ?case by (simp add: rx_write_bds.simps)
next
  case (2 cur p n ps s)
  then obtain b where b: "pbs (rx_mem s) p = Some b" "pb_next b = at_first ps None" "unat (pb_len b) = n" "pchain (rx_mem s) ps None"
    by auto
  have u: "ucast (pb_len b) = (of_nat n :: u32)" using b(3) of_nat_unat by metis
  show ?case using b(1,2) u "2.IH" [of cur num_bd] "2.IH" [of "cur" "num_bd - 1"] b(4)
    by (subst rx_write_bds.simps) auto
qed

lemma arm_new_cells:
  assumes "pchain (rx_mem s) ps None" and "list_all (\<lambda>x. 0 < snd x \<and> snd x \<le> 256) ps"
  shows "cells (arm_new cur ps s) (zip [cur ..< cur + length ps] ps) (Some (cur + length ps, q)) \<and>
    idle_at (arm_new cur ps s) (zip [cur ..< cur + length ps] ps)"
  using assms
proof (induction cur ps s rule: arm_new.induct)
  case (1 cur s)
  then show ?case by (simp add: idle_at_def)
next
  case (2 cur p n ps s)
  let ?b = "\<lparr>rb_next = Some (cur + 1), rb_bufptr = p, rb_len = hdkif_swizzle_data (of_nat n),
       rb_flags = hdkif_swizzle_data EMAC_BUF_DESC_OWNER, rb_pbuf = p\<rparr>"
  define t where "t = arm_new (cur + 1) ps (upd_rb cur (\<lambda>_. ?b) s)"
  define cs where "cs = zip [cur + 1 ..< cur + 1 + length ps] ps"
  define e where "e = cur + 1 + length ps"
  have z: "zip [cur ..< cur + length ((p, n) # ps)] ((p, n) # ps) = (cur, p, n) # cs" "cur + length ((p, n) # ps) = e"
    "arm_new cur ((p, n) # ps) s = t"
    by (simp_all add: upt_conv_Cons cs_def e_def t_def del: upt_Suc)
  have rest: "cells t cs (Some (e, q))" "idle_at t cs" using "2.IH" "2.prems" by (simp_all add: t_def cs_def e_def)
  have bd: "rx_bd t cur = ?b" by (simp add: arm_new_bd t_def)
  obtain b where b: "pbs (rx_mem t) p = Some b" "pb_next b = at_first ps None" "unat (pb_len b) = n" "pb_ref b = 1"
    "pb_type b = PBUF_POOL" using "2.prems"(1) by (auto simp: t_def)
  have nx: "map_option fst (cell_at cs (Some (e, q))) = Some (cur + 1)"
    unfolding cs_def e_def by (cases ps) (simp_all add: upt_conv_Cons del: upt_Suc)
  have pn: "pb_next b = None \<or> pb_next b = map_option snd (cell_at cs (Some (e, q)))"
    unfolding b(2) cs_def e_def by (cases ps) (simp_all add: upt_conv_Cons del: upt_Suc)
  have "buf_size cur t = n" using bd len_field_small [of n] "2.prems"(2) by (simp add: buf_size_def)
  then have "idle_at t ((cur, p, n) # cs)" using rest(2) bd "2.prems"(2) by (simp add: idle_at_def)
  moreover have "cells t ((cur, p, n) # cs) (Some (e, q))"
  proof -
    obtain x where "cell_at cs (Some (e, q)) = Some (cur + 1, x)" using nx by auto
    then show ?thesis using rest(1) bd b pn by simp
  qed
  ultimately show ?case unfolding z(1,3) unfolding z(2) by blast
qed

lemma clen_pchain: "pchain m ps None \<Longrightarrow> clen_loop (at_first ps None) k m = Some (k + of_nat (length ps))"
proof (induction ps arbitrary: k)
  case Nil
  then show ?case by (simp add: clen_loop.simps)
next
  case (Cons x ps)
  then show ?case by (cases x) (subst clen_loop.simps, auto simp: algebra_simps)
qed

lemma slices_1514: "slices 1514 = [256, 256, 256, 256, 256, 234]"
  by (simp add: slices.simps)

text \<open>The descriptors from \<open>cur\<close> on after \<open>k\<close> allocations.\<close>

definition new_cells :: "nat \<Rightarrow> nat \<Rightarrow> nat list \<Rightarrow> cell list" where
  "new_cells k cur qs = zip [cur ..< cur + 6 * k] (zip qs (concat (replicate k (slices 1514))))"

lemma length_sizes: "length (concat (replicate k (slices 1514))) = 6 * k"
  by (induction k) (simp_all add: slices_1514)

lemma new_cells_lists:
  assumes "length qs = 6 * k"
  shows "bds (new_cells k cur qs) = [cur ..< cur + 6 * k]" "bufs (new_cells k cur qs) = qs"
    "lens (new_cells k cur qs) = concat (replicate k (slices 1514))" "length (new_cells k cur qs) = 6 * k"
proof -
  have l: "length [cur ..< cur + 6 * k] = length qs" "length (concat (replicate k (slices 1514))) = length qs"
    using assms length_sizes by simp_all
  show "bds (new_cells k cur qs) = [cur ..< cur + 6 * k]" "bufs (new_cells k cur qs) = qs"
    "lens (new_cells k cur qs) = concat (replicate k (slices 1514))"
    unfolding new_cells_def using zip_cells [OF l] by simp_all
  from this(1) show "length (new_cells k cur qs) = 6 * k" by (metis add_diff_cancel_left' length_map length_upt)
qed

lemma new_cells_Suc:
  assumes "length q1 = 6"
  shows "new_cells (Suc k) cur (q1 @ q2) = zip [cur ..< cur + 6] (zip q1 (slices 1514)) @ new_cells k (cur + 6) q2"
proof -
  have "[cur ..< cur + 6 * Suc k] = [cur ..< cur + 6] @ [cur + 6 ..< cur + 6 + 6 * k]"
    using upt_add_eq_append [of cur "cur + 6" "6 * k"] by (simp add: add.assoc)
  moreover have "length (slices 1514) = 6" by (simp add: slices_1514)
  ultimately show ?thesis using assms by (simp add: new_cells_def)
qed

lemma alloc_1514:
  assumes "pb_pool m = qs @ rest" and "length qs = 6" and "distinct qs"
  obtains m' where "pbuf_alloc_mem PBUF_RAW PBUF_LEN_MAX PBUF_POOL None m = Some (Some (hd qs), m')" "pb_pool m' = rest"
    "pchain m' (zip qs (slices 1514)) None" "\<And>x. x \<notin> set qs \<Longrightarrow> pbs m' x = pbs m x"
proof -
  have u: "unat PBUF_LEN_MAX = 1514" "PBUF_LEN_MAX \<noteq> 0" by (simp_all add: PBUF_LEN_MAX_def)
  have "length qs = length (slices (unat PBUF_LEN_MAX))" using assms(2) unfolding u(1) by (simp add: slices_1514)
  from alloc_pchain [OF assms(1) this assms(3) u(2)] show ?thesis using that unfolding u(1) by blast
qed

lemma rx_init_loop_cells:
  assumes "pb_pool (rx_mem s) = qs @ rest" and "length qs = 6 * k" and "distinct qs" and "6 * k \<le> num_bd"
  shows "\<exists>t. rx_init_loop k cur l num_bd s = Some (if k = 0 then l else cur + 6 * k - 1, t) \<and>
    (\<forall>q. cells t (new_cells k cur qs) (Some (cur + 6 * k, q))) \<and> idle_at t (new_cells k cur qs) \<and> pb_pool (rx_mem t) = rest \<and>
    (\<forall>i < cur. rx_bd t i = rx_bd s i) \<and> (\<forall>x. x \<notin> set qs \<longrightarrow> pbs (rx_mem t) x = pbs (rx_mem s) x) \<and>
    rx_up t = rx_up s \<and> rx_held t = rx_held s \<and> rx_free_head t = rx_free_head s \<and> rx_active_head t = rx_active_head s \<and> freed_pbuf_len t = freed_pbuf_len s"
  using assms
proof (induction k arbitrary: cur l num_bd s qs)
  case 0
  then show ?case by (simp add: new_cells_def idle_at_def)
next
  case (Suc k)
  let ?q = "take 6 qs" and ?r = "drop 6 qs"
  have q: "length ?q = 6" "length ?r = 6 * k" "distinct ?q" "distinct ?r" "set ?q \<inter> set ?r = {}" "set qs = set ?q \<union> set ?r"
    "qs = ?q @ ?r" using Suc.prems(2,3)
    by (simp_all add: distinct_take distinct_drop set_take_disj_set_drop_if_distinct) (metis append_take_drop_id set_append)
  have "pb_pool (rx_mem s) = ?q @ (?r @ rest)" using Suc.prems(1) q(7) by simp
  then obtain m where m: "pbuf_alloc_mem PBUF_RAW PBUF_LEN_MAX PBUF_POOL None (rx_mem s) = Some (Some (hd ?q), m)"
    "pb_pool m = ?r @ rest" "pchain m (zip ?q (slices 1514)) None" "\<And>x. x \<notin> set ?q \<Longrightarrow> pbs m x = pbs (rx_mem s) x"
    by (rule alloc_1514) (use q in auto)
  let ?ps = "zip ?q (slices 1514)"
  have l: "length ?ps = 6" using q(1) by (simp add: slices_1514)
  then have ne: "?ps \<noteq> []" by auto
  have h: "at_first ?ps None = Some (hd ?q)"
  proof -
    obtain x xs where x: "?q = x # xs" using q(1) by (cases ?q) auto
    show ?thesis unfolding x by (simp add: slices_1514)
  qed
  let ?s = "s\<lparr>rx_mem := m\<rparr>"
  have "clen_loop (Some (hd ?q)) 0 m = Some 6" using clen_pchain [OF m(3), of 0] h l by simp
  moreover have "rx_write_bds (Some (hd ?q)) cur l num_bd ?s = Some (cur + 6, cur + 5, num_bd - 6, arm_new cur ?ps ?s)"
    using rx_write_pchain [of ?s ?ps cur l num_bd] m(3) h l ne by simp
  ultimately have step: "rx_init_loop (Suc k) cur l num_bd s = rx_init_loop k (cur + 6) (cur + 5) (num_bd - 6) (arm_new cur ?ps ?s)"
    using m(1) Suc.prems(4) by (simp add: Let_def)
  define u where "u = arm_new cur ?ps ?s"
  have "\<exists>t. rx_init_loop k (cur + 6) (cur + 5) (num_bd - 6) u = Some (if k = 0 then cur + 5 else cur + 6 + 6 * k - 1, t) \<and>
    (\<forall>q. cells t (new_cells k (cur + 6) ?r) (Some (cur + 6 + 6 * k, q))) \<and> idle_at t (new_cells k (cur + 6) ?r) \<and> pb_pool (rx_mem t) = rest \<and>
    (\<forall>i < cur + 6. rx_bd t i = rx_bd u i) \<and> (\<forall>x. x \<notin> set ?r \<longrightarrow> pbs (rx_mem t) x = pbs (rx_mem u) x) \<and>
    rx_up t = rx_up u \<and> rx_held t = rx_held u \<and> rx_free_head t = rx_free_head u \<and> rx_active_head t = rx_active_head u \<and> freed_pbuf_len t = freed_pbuf_len u"
    by (rule Suc.IH) (use m(2) q Suc.prems(4) in \<open>simp_all add: u_def\<close>)
  then obtain t where t: "rx_init_loop k (cur + 6) (cur + 5) (num_bd - 6) u = Some (if k = 0 then cur + 5 else cur + 6 + 6 * k - 1, t)"
    "\<And>q. cells t (new_cells k (cur + 6) ?r) (Some (cur + 6 + 6 * k, q))" "idle_at t (new_cells k (cur + 6) ?r)" "pb_pool (rx_mem t) = rest"
    "\<And>i. i < cur + 6 \<Longrightarrow> rx_bd t i = rx_bd u i" "\<And>x. x \<notin> set ?r \<Longrightarrow> pbs (rx_mem t) x = pbs (rx_mem u) x"
    "rx_up t = rx_up u" "rx_held t = rx_held u" "rx_free_head t = rx_free_head u" "rx_active_head t = rx_active_head u" "freed_pbuf_len t = freed_pbuf_len u" by blast
  let ?cs = "zip [cur ..< cur + 6] ?ps"
  have "list_all (\<lambda>x. 0 < snd x \<and> snd x \<le> 256) ?ps" using slices_le by (auto simp: list_all_iff dest: set_zip_rightD)
  then have new: "cells u ?cs (Some (cur + 6, y)) \<and> idle_at u ?cs" for y
    using arm_new_cells [of ?s ?ps cur y] m(3) l by (simp add: u_def del: upt_Suc)
  have bs: "set (bds ?cs) = {cur ..< cur + 6}" "set (bufs ?cs) = set ?q"
    using zip_cells [of "[cur ..< cur + 6]" ?q "slices 1514"] q(1) by (simp_all add: slices_1514 del: upt_Suc)
  have "cells t ?cs (Some (cur + 6, y))" for y
  proof -
    have "cells t ?cs (Some (cur + 6, y)) = cells u ?cs (Some (cur + 6, y))"
    proof (rule cells_cong)
      show "rb_pbuf (rx_bd t i) = rb_pbuf (rx_bd u i) \<and> rb_bufptr (rx_bd t i) = rb_bufptr (rx_bd u i) \<and> rb_next (rx_bd t i) = rb_next (rx_bd u i)"
        if "i \<in> set (bds ?cs)" for i using that t(5) unfolding bs(1) by simp
      show "pbs (rx_mem t) p = pbs (rx_mem u) p" if "p \<in> set (bufs ?cs)" for p
      proof -
        have "p \<notin> set ?r" using that q(5) unfolding bs(2) by blast
        then show ?thesis by (rule t(6))
      qed
    qed
    then show ?thesis using new by simp
  qed
  moreover have "\<exists>y. cell_at (new_cells k (cur + 6) ?r) (Some (cur + 6 + 6 * k, z)) = Some (cur + 6, y)" for z
  proof (cases k)
    case 0
    then show ?thesis by (simp add: new_cells_def)
  next
    case (Suc j)
    then have "new_cells k (cur + 6) ?r \<noteq> []" "hd (bds (new_cells k (cur + 6) ?r)) = cur + 6"
      using new_cells_lists [OF q(2), of "cur + 6"] by (auto simp del: upt_Suc)
    then show ?thesis by (simp add: cell_at_last hd_map)
  qed
  ultimately have "cells t (?cs @ new_cells k (cur + 6) ?r) (Some (cur + 6 + 6 * k, z))" for z
    using t(2) [of z] unfolding cells_append by metis
  moreover have "idle_at t ?cs" by (rule idle_at_cong [of u]) (use new t(5) bs(1) in auto)
  then have "idle_at t (?cs @ new_cells k (cur + 6) ?r)" using t(3) by (auto simp: idle_at_def)
  moreover have "new_cells (Suc k) cur qs = ?cs @ new_cells k (cur + 6) ?r"
    using new_cells_Suc [OF q(1), of k cur ?r] q(7) by simp
  moreover have "\<forall>i < cur. rx_bd t i = rx_bd s i" using t(5) by (simp add: u_def arm_new_bd)
  moreover have "\<forall>x. x \<notin> set qs \<longrightarrow> pbs (rx_mem t) x = pbs (rx_mem s) x" using t(6) m(4) q(6) by (simp add: u_def)
  ultimately show ?case using step t(1,4,7-11) by (intro exI [of _ t]) (auto simp: u_def add.assoc)
qed

lemma cells_end:
  assumes "\<And>q. cells s cs (Some (j, q))" and "cs \<noteq> []" and "distinct (bds cs)"
    and "\<And>i. i \<in> set (bds cs) \<Longrightarrow> rb_pbuf (rx_bd t i) = rb_pbuf (rx_bd s i) \<and> rb_bufptr (rx_bd t i) = rb_bufptr (rx_bd s i) \<and>
      rb_next (rx_bd t i) = (if i = fst (last cs) then None else rb_next (rx_bd s i))"
    and "\<And>p. p \<in> set (bufs cs) \<Longrightarrow> pbs (rx_mem t) p = pbs (rx_mem s) p"
  shows "cells t cs None"
proof -
  obtain i p n ds where cs: "cs = ds @ [(i, p, n)]" using assms(2) by (metis append_butlast_last_id prod_cases3)
  then have c: "cells s ds (Some (i, p))" "cells s [(i, p, n)] (Some (j, 0))" "cells s [(i, p, n)] (Some (j, 1))"
    using assms(1) by (auto simp: cells_append)
  have "cells t ds (Some (i, p)) = cells s ds (Some (i, p))"
    by (rule cells_cong) (use assms(3-5) cs in auto)
  moreover have "cells t [(i, p, n)] None" using c(2,3) assms(4) [of i] assms(5) [of p] cs by auto
  ultimately show ?thesis using c(1) cs by (simp add: cells_append)
qed

lemma sum_sizes: "sum_list (concat (replicate k (slices 1514))) = k * 1514"
  by (induction k) simp_all

lemma rx_init_ring:
  assumes "distinct (pb_pool (rx_mem s))" and "60 \<le> length (pb_pool (rx_mem s))" and "rx_held s = []"
  shows "\<exists>t ds. rx_init s = Some t \<and> rx_at t [] ds [] \<and> rx_up t = rx_up s \<and> pb_pool (rx_mem t) = drop 60 (pb_pool (rx_mem s))"
proof -
  let ?q = "take 60 (pb_pool (rx_mem s))" and ?s = "s\<lparr>rx_active_head := Some 205, rx_free_head := None, freed_pbuf_len := 0\<rparr>"
  let ?cs = "new_cells 10 205 ?q"
  have q: "length ?q = 6 * 10" "distinct ?q" using assms by simp_all
  note cl = new_cells_lists [OF q(1), of 205]
  have "pb_pool (rx_mem ?s) = ?q @ drop 60 (pb_pool (rx_mem s))" by simp
  from rx_init_loop_cells [OF this q(1,2), of 203 205 205] obtain u where u: "rx_init_loop 10 205 205 203 ?s = Some (264, u)"
    "\<And>q. cells u ?cs (Some (265, q))" "idle_at u ?cs" "pb_pool (rx_mem u) = drop 60 (pb_pool (rx_mem s))"
    "rx_up u = rx_up s" "rx_held u = []" "rx_free_head u = None" "rx_active_head u = Some 205" "freed_pbuf_len u = 0" using assms(3) by auto
  have ends: "fst (hd ?cs) = 205" "fst (last ?cs) = 264" "?cs \<noteq> []"
  proof -
    show ne: "?cs \<noteq> []" using cl(4) by auto
    then show "fst (hd ?cs) = 205" using hd_map [of ?cs fst] unfolding cl(1) by simp
    show "fst (last ?cs) = 264" using last_map [of ?cs fst, OF ne] unfolding cl(1) by simp
  qed
  let ?t = "(upd_rb 264 (\<lambda>b. b\<lparr>rb_next := None\<rparr>) u)\<lparr>rx_active_tail := Some 264, rx_hdp := Some 205\<rparr>"
  have "rx_init s = Some ?t" using u(1,8) by (simp add: rx_init_def MAX_RX_PBUF_ALLOC_def Let_def)
  moreover have "cells ?t ?cs None"
    by (rule cells_end [OF u(2) ends(3)]) (use cl(1) ends(2) in auto)
  moreover have "idle_at ?t ?cs" by (rule idle_at_cong [OF u(3)]) simp
  moreover have "ring_ends ?t ?cs" using ends u by (simp add: ring_ends_def)
  moreover have "sum_list (lens ?cs) = 15140" unfolding cl(3) sum_sizes by simp
  moreover have "distinct (bds ?cs)" "distinct (bufs ?cs @ held_bufs [] @ pb_pool (rx_mem ?t))"
  proof -
    show "distinct (bds ?cs)" unfolding cl(1) by simp
    have "bufs ?cs @ held_bufs [] @ pb_pool (rx_mem ?t) = pb_pool (rx_mem s)" using u(4) unfolding cl(2) by simp
    then show "distinct (bufs ?cs @ held_bufs [] @ pb_pool (rx_mem ?t))" using assms(1) by simp
  qed
  moreover have "held_at ?t []" using u(6) by (simp add: held_at_def)
  moreover have "length ?cs = 60" using cl(4) by simp
  moreover have "rx_hdp ?t = map_option fst (cell_at ?cs None)" using ends by (simp add: cell_at_last)
  ultimately have "rx_at ?t [] ?cs []" using ends(3) by (simp only: rx_at_def list.map concat.simps append_Nil list.pred_inject(1)) simp
  with \<open>rx_init s = Some ?t\<close> u(4,5) show ?thesis by (intro exI [of _ ?t] exI [of _ ?cs]) simp
qed

section \<open>Frames and interrupts\<close>

text \<open>A frame needs its own length and at most 255 bytes at the end of its last buffer.\<close>

definition frame_ok :: "u8 list \<Rightarrow> bool" where
  "frame_ok f \<longleftrightarrow> 0 < length f \<and> length f \<le> unat PBUF_LEN_MAX"

definition frame_room :: "u8 list \<Rightarrow> nat" where
  "frame_room f = length f + 256"

definition rx_capacity :: nat where
  "rx_capacity = MAX_RX_PBUF_ALLOC * unat PBUF_LEN_MAX + 257"

lemma rx_capacity [simp]: "rx_capacity = 15397"
  by (simp add: rx_capacity_def MAX_RX_PBUF_ALLOC_def PBUF_LEN_MAX_def)

datatype rx_event = Arrive "u8 list" | Rx_int | Tx_int

fun arrived :: "rx_event list \<Rightarrow> u8 list list" where
  "arrived [] = []"
| "arrived (Arrive f # es) = f # arrived es"
| "arrived (Rx_int # es) = arrived es"
| "arrived (Tx_int # es) = arrived es"

fun rx_run :: "(u8 list \<Rightarrow> rxch \<Rightarrow> rxch) \<Rightarrow> (rxch \<Rightarrow> rxch) \<Rightarrow> treatment \<Rightarrow> rx_event list \<Rightarrow> rxch \<Rightarrow> rxch option" where
  "rx_run dma busy treat [] s = Some s"
| "rx_run dma busy treat (Arrive f # es) s = rx_run dma busy treat es (dma f s)"
| "rx_run dma busy treat (Rx_int # es) s = do { s \<leftarrow> hdkif_rx_inthandler busy treat s; rx_run dma busy treat es s }"
| "rx_run dma busy treat (Tx_int # es) s = do { s \<leftarrow> tx_release s; rx_run dma busy treat es s }"

text \<open>
  What the events need: the frames \<open>ps\<close> that wait for the receive interrupt fit the armed buffers, and at each receive interrupt the
  buffers that replies hold until the next transmit interrupt are not more than the \<open>spare\<close> buffers of the pool. \<open>n\<close> frames
  were handed up before, and replies hold at most \<open>h\<close> buffers.
\<close>

fun rx_fits :: "treatment \<Rightarrow> nat \<Rightarrow> nat \<Rightarrow> u8 list list \<Rightarrow> nat \<Rightarrow> rx_event list \<Rightarrow> bool" where
  "rx_fits treat spare n ps h [] \<longleftrightarrow> True"
| "rx_fits treat spare n ps h (Arrive f # es) \<longleftrightarrow>
     frame_ok f \<and> sum_list (map frame_room ps) + frame_room f < rx_capacity \<and> rx_fits treat spare n (ps @ [f]) h es"
| "rx_fits treat spare n ps h (Rx_int # es) \<longleftrightarrow>
     h + kept_counts treat n ps \<le> spare \<and> rx_fits treat spare (n + length ps) [] (h + kept_counts treat n ps) es"
| "rx_fits treat spare n ps h (Tx_int # es) \<longleftrightarrow> rx_fits treat spare n ps 0 es"

text \<open>The frames \<open>fs\<close> were handed up and the frames \<open>ps\<close> wait.\<close>

definition rx_rel :: "nat \<Rightarrow> rxch \<Rightarrow> u8 list list \<Rightarrow> u8 list list \<Rightarrow> nat \<Rightarrow> bool" where
  "rx_rel spare s fs ps h \<longleftrightarrow>
     (\<exists>pks ds hs. rx_at s pks ds hs \<and> ps = map snd pks \<and> rx_up s = map (\<lambda>f. (of_nat (length f), f)) fs \<and>
       length (pb_pool (rx_mem s)) + length (concat hs) = spare \<and> length (concat hs) \<le> h)"

lemma taken_room:
  "list_all (\<lambda>(cs, f). sum_list (lens cs) < length f + 256) pks \<Longrightarrow>
     sum_list (lens (rx_taken pks)) \<le> sum_list (map frame_room (map snd pks))"
proof (induction pks)
  case (Cons x pks)
  then show ?case by (cases x) (simp add: frame_room_def)
qed simp

lemma rx_rel_arrive:
  assumes "emac_rx_dma dma" and "rx_rel k s fs ps h" and "frame_ok f" and "sum_list (map frame_room ps) + frame_room f < rx_capacity"
  shows "rx_rel k (dma f s) fs (ps @ [f]) h"
proof -
  obtain pks ds hs where R: "rx_at s pks ds hs" "ps = map snd pks" "rx_up s = map (\<lambda>f. (of_nat (length f), f)) fs"
    "length (pb_pool (rx_mem s)) + length (concat hs) = k" "length (concat hs) \<le> h" using assms(2) unfolding rx_rel_def by blast
  have "list_all (\<lambda>(cs, f). sum_list (lens cs) < length f + 256) pks" using R(1) by (auto simp: rx_at_def list_all_iff)
  then have room: "sum_list (lens (rx_taken pks)) \<le> sum_list (map frame_room ps)" using taken_room R(2) by blast
  have "sum_list (lens (rx_taken pks @ ds)) = 15140" using R(1) by (simp add: rx_at_def)
  then have "sum_list (lens (rx_taken pks)) + sum_list (lens ds) = 15140" by simp
  then have "length f \<le> sum_list (lens ds)" using room assms(4) by (simp add: frame_room_def)
  moreover have "0 < length f" "length f \<le> 1514" using assms(3) by (simp_all add: frame_ok_def PBUF_LEN_MAX_def)
  ultimately obtain cs es where "rx_at (dma f s) (pks @ [(cs, f)]) es hs" "rx_up (dma f s) = rx_up s" "rx_mem (dma f s) = rx_mem s"
    using rx_arrive [OF R(1) assms(1)] by blast
  then show ?thesis using R(2-5) unfolding rx_rel_def by (intro exI [of _ "pks @ [(cs, f)]"] exI [of _ es] exI [of _ hs]) simp
qed

lemma rx_rel_rx_int:
  assumes "rx_rel k s fs ps h" and "h + kept_counts treat (length fs) ps \<le> k"
  shows "\<exists>t. hdkif_rx_inthandler busy treat s = Some t \<and> rx_rel k t (fs @ ps) [] (h + kept_counts treat (length fs) ps)"
proof -
  obtain pks ds hs where R: "rx_at s pks ds hs" "ps = map snd pks" "rx_up s = map (\<lambda>f. (of_nat (length f), f)) fs"
    "length (pb_pool (rx_mem s)) + length (concat hs) = k" "length (concat hs) \<le> h" using assms(1) unfolding rx_rel_def by blast
  obtain l where l: "rx_active_tail s = Some l" using R(1) by (auto simp: rx_at_def ring_ends_def)
  have n: "length (rx_up s) = length fs" using R(3) by simp
  have "kept_counts treat (length (rx_up s)) (map snd pks) \<le> length (pb_pool (rx_mem s))" using assms(2) R(2,4,5) n by simp
  from rx_loop_ring [OF R(1) this, of busy l] obtain t ds' hs' where t: "rx_loop busy treat l s = Some t" "rx_at t [] ds' hs'"
    "rx_up t = rx_up s @ map (\<lambda>(cs, f). (of_nat (length f), f)) pks"
    "length (pb_pool (rx_mem t)) + length (concat hs') = length (pb_pool (rx_mem s)) + length (concat hs)"
    "length (concat hs') \<le> length (concat hs) + kept_counts treat (length fs) ps" unfolding n R(2) by blast
  have "map (\<lambda>(cs, f). (of_nat (length f), f)) pks = map (\<lambda>f. (of_nat (length f) :: u16, f)) ps" using R(2) by auto
  then have "rx_rel k t (fs @ ps) [] (h + kept_counts treat (length fs) ps)"
    unfolding rx_rel_def using t(2-5) R(3-5) by (intro exI [of _ "[]"] exI [of _ ds'] exI [of _ hs']) simp
  then show ?thesis using t(1) l by (simp add: hdkif_rx_inthandler_def)
qed

lemma rx_rel_tx_int: "rx_rel k s fs ps h \<Longrightarrow> \<exists>t. tx_release s = Some t \<and> rx_rel k t fs ps 0"
proof -
  assume "rx_rel k s fs ps h"
  then obtain pks ds hs where R: "rx_at s pks ds hs" "ps = map snd pks" "rx_up s = map (\<lambda>f. (of_nat (length f), f)) fs"
    "length (pb_pool (rx_mem s)) + length (concat hs) = k" unfolding rx_rel_def by blast
  from tx_release_ring [OF R(1)] obtain t where "tx_release s = Some t" "rx_at t pks ds []" "rx_up t = rx_up s"
    "length (pb_pool (rx_mem t)) = length (pb_pool (rx_mem s)) + length (concat hs)" by blast
  then show ?thesis using R(2-4) unfolding rx_rel_def by (intro exI [of _ t] conjI exI [of _ pks] exI [of _ ds] exI [of _ "[]"]) simp_all
qed

lemma rx_run_rel:
  assumes "emac_rx_dma dma" and "rx_rel k s fs ps h" and "rx_fits treat k (length fs) ps h (es @ [Rx_int])"
  shows "\<exists>u h'. rx_run dma busy treat (es @ [Rx_int]) s = Some u \<and> rx_rel k u (fs @ ps @ arrived es) [] h'"
  using assms(2,3)
proof (induction es arbitrary: s fs ps h)
  case Nil
  then show ?case using rx_rel_rx_int [of k s fs ps h treat busy] by auto
next
  case (Cons e es)
  show ?case
  proof (cases e)
    case (Arrive f)
    then have "rx_rel k (dma f s) fs (ps @ [f]) h" using rx_rel_arrive [OF assms(1) Cons.prems(1)] Cons.prems(2) by simp
    from Cons.IH [OF this] Cons.prems(2) Arrive show ?thesis by simp
  next
    case Rx_int
    then obtain t where t: "hdkif_rx_inthandler busy treat s = Some t" "rx_rel k t (fs @ ps) [] (h + kept_counts treat (length fs) ps)"
      using rx_rel_rx_int [OF Cons.prems(1), of treat busy] Cons.prems(2) by auto
    from Cons.IH [OF t(2)] Cons.prems(2) Rx_int t(1) show ?thesis by simp
  next
    case Tx_int
    then obtain t where t: "tx_release s = Some t" "rx_rel k t fs ps 0" using rx_rel_tx_int [OF Cons.prems(1)] by blast
    from Cons.IH [OF t(2)] Cons.prems(2) Tx_int t(1) show ?thesis by simp
  qed
qed

text \<open>
  C27: the receive side of the driver delivers what arrives, whatever \<open>ethernet_input\<close> does with the buffers (\<open>treat\<close>: it may cut off the end
  of a chain, and a reply may hold the rest until the transmit interrupt). From the initialisation on, for every sequence of frames,
  receive interrupts and transmit interrupts in which the frames fit the armed buffers and the buffers that replies hold
  between two transmit interrupts are not more than the pool has beyond the sixty of the descriptors, the handler never follows a
  null pointer, returns, and gives to \<open>ethernet_input\<close> every frame exactly once, in order, complete, and in a chain whose total
  length is that of the frame. After the interrupt all sixty descriptors wait for the engine again with buffers for ten full frames;
  every other buffer is in the pool or in a chain that the transmit channel holds; and the next transmit interrupt gives
  those back, so that no buffer is lost.
\<close>

theorem receive_ring_delivers:
  assumes "emac_rx_dma dma" and "distinct (pb_pool (rx_mem s))" and "60 \<le> length (pb_pool (rx_mem s))" and "rx_up s = []" and "rx_held s = []"
    and "rx_fits treat (length (pb_pool (rx_mem s)) - 60) 0 [] 0 (es @ [Rx_int])"
  shows "\<exists>t u v ds hs. rx_init s = Some t \<and> rx_run dma busy treat (es @ [Rx_int]) t = Some u \<and>
    rx_up u = map (\<lambda>f. (of_nat (length f), f)) (arrived es) \<and>
    rx_at u [] ds hs \<and> length ds = 60 \<and> sum_list (lens ds) = 15140 \<and> idle_at u ds \<and>
    length (pb_pool (rx_mem u)) + length (concat hs) + 60 = length (pb_pool (rx_mem s)) \<and>
    tx_release u = Some v \<and> rx_at v [] ds [] \<and> rx_up v = rx_up u \<and> length (pb_pool (rx_mem v)) + 60 = length (pb_pool (rx_mem s))"
proof -
  let ?k = "length (pb_pool (rx_mem s)) - 60"
  obtain t ds0 where t: "rx_init s = Some t" "rx_at t [] ds0 []" "rx_up t = []" "pb_pool (rx_mem t) = drop 60 (pb_pool (rx_mem s))"
    using rx_init_ring [OF assms(2,3,5)] assms(4) by auto
  have "rx_rel ?k t [] [] 0" unfolding rx_rel_def using t by (intro exI [of _ "[]"] exI [of _ ds0]) simp
  then obtain u h' where u: "rx_run dma busy treat (es @ [Rx_int]) t = Some u" "rx_rel ?k u (arrived es) [] h'"
    using rx_run_rel [OF assms(1), of ?k t "[]" "[]" 0 treat es busy] assms(6) by auto
  then obtain ds hs where ds: "rx_at u [] ds hs" "rx_up u = map (\<lambda>f. (of_nat (length f), f)) (arrived es)"
    "length (pb_pool (rx_mem u)) + length (concat hs) = ?k" by (auto simp: rx_rel_def)
  then have "length ds = 60" "sum_list (lens ds) = 15140" "idle_at u ds" by (simp_all add: rx_at_def)
  moreover obtain v where "tx_release u = Some v" "rx_at v [] ds []" "rx_up v = rx_up u"
    "length (pb_pool (rx_mem v)) = length (pb_pool (rx_mem u)) + length (concat hs)"
    using tx_release_ring [OF ds(1)] by blast
  ultimately show ?thesis using t(1) u(1) ds assms(3)
    by (intro exI [of _ t] exI [of _ u] exI [of _ v] exI [of _ ds] exI [of _ hs]) simp
qed

definition rx_blank :: rxch where
  "rx_blank = \<lparr>rx_bd = \<lambda>_. \<lparr>rb_next = None, rb_bufptr = 0, rb_len = 0, rb_flags = 0, rb_pbuf = 0\<rparr>, rx_free_head = None,
     rx_active_head = None, rx_active_tail = None, freed_pbuf_len = 0, rx_hdp = None,
     rx_mem = \<lparr>pbs = Map.empty, pb_pool = [0 ..< 96]\<rparr>, rx_data = \<lambda>_. [], rx_up = [], rx_held = []\<rparr>"

text \<open>
  A request of one buffer whose reply holds it, a frame of three buffers that is released, both interrupts, and a full
  frame whose reply holds all but what is cut off behind the fourth buffer.
\<close>

definition rx_example :: "rx_event list" where
  "rx_example = [Arrive (replicate 60 1), Arrive (replicate 600 2), Rx_int, Tx_int, Arrive (replicate 1514 3)]"

definition rx_replies :: treatment where
  "rx_replies n = (3, n \<noteq> 1)"

lemma rx_example_fits: "rx_fits rx_replies (length (pb_pool (rx_mem rx_blank)) - 60) 0 [] 0 (rx_example @ [Rx_int])"
  by (simp add: rx_example_def frame_ok_def frame_room_def PBUF_LEN_MAX_def kept_count_def frame_bufs_def rx_replies_def rx_blank_def)

lemma rx_blank: "distinct (pb_pool (rx_mem rx_blank))" "60 \<le> length (pb_pool (rx_mem rx_blank))" "rx_up rx_blank = []" "rx_held rx_blank = []"
  by (simp_all add: rx_blank_def)

theorem receive_ring_delivers_witness:
  "\<exists>t u v ds hs. rx_init rx_blank = Some t \<and> rx_run rx_dma_model (\<lambda>s. s) rx_replies (rx_example @ [Rx_int]) t = Some u \<and>
    rx_up u = [(60, replicate 60 1), (600, replicate 600 2), (1514, replicate 1514 3)] \<and> length ds = 60 \<and> idle_at u ds \<and> held_at u hs \<and>
    length (pb_pool (rx_mem u)) + length (concat hs) = 36 \<and> tx_release u = Some v \<and> length (pb_pool (rx_mem v)) = 36"
proof -
  have "map (\<lambda>f. (of_nat (length f) :: u16, f)) (arrived rx_example) = [(60, replicate 60 1), (600, replicate 600 2), (1514, replicate 1514 3)]"
    by (simp add: rx_example_def)
  moreover have "length (pb_pool (rx_mem rx_blank)) = 96" by (simp add: rx_blank_def)
  ultimately show ?thesis using receive_ring_delivers [OF rx_dma_model rx_blank rx_example_fits, of "\<lambda>s. s"]
    by (auto simp: rx_at_def)
qed

section \<open>When buffers are missing\<close>

text \<open>
  If no buffers come back, the list of descriptors becomes shorter with every packet. The handler follows the link of the last descriptor to
  find the next buffer although there is none.
\<close>

lemma tail_follows_null:
  assumes "pbs (rx_mem s) (rb_pbuf (rx_bd s i)) = Some b" and "pb_next b = None" and "rb_next (rx_bd s i) = None"
  shows "rx_collect i tot ex ln s = None"
  using assms by (subst rx_collect.simps) (simp add: Let_def)

text \<open>And when the last packet was taken, the handler looks for the next one behind a null pointer.\<close>

lemma empty_follows_null: "rx_active_head s = None \<Longrightarrow> rx_loop dma treat l s = None"
  by (subst rx_loop.simps) simp

end
