(* ===== verification/Pcb_List.thy ===== *)
theory Pcb_List
  imports Rx_Path
begin

text \<open>
  The list \<open>udp_pcbs\<close> of \<open>core/udp.c\<close> with its links in memory, and the single writes that change it. Each operation, run
  without interruption, does to the links what \<open>Udp\<close> and \<open>Rx_Path\<close> do to the list of control blocks. If the receive interrupt comes
  between the two writes of \<open>udp_bind\<close>, a control block is lost; \<open>udp_source_add_listener\<close> does not exclude this.
\<close>

section \<open>The links\<close>

record pcb_list =
  pl_head :: "nat option"
  pl_next :: "nat \<Rightarrow> nat option"

definition set_link :: "nat \<Rightarrow> nat option \<Rightarrow> pcb_list \<Rightarrow> pcb_list" where
  "set_link p q l = l\<lparr>pl_next := (pl_next l)(p := q)\<rparr>"

text \<open>\<open>pcb->next = udp_pcbs\<close> and \<open>udp_pcbs = pcb\<close>, the end of \<open>udp_bind\<close> for a control block that is not on the list.\<close>

definition link_front :: "nat \<Rightarrow> pcb_list \<Rightarrow> pcb_list" where
  "link_front p l = set_link p (pl_head l) l"

definition publish :: "nat \<Rightarrow> pcb_list \<Rightarrow> pcb_list" where
  "publish p l = l\<lparr>pl_head := Some p\<rparr>"

definition pcb_insert :: "nat \<Rightarrow> pcb_list \<Rightarrow> pcb_list" where
  "pcb_insert p l = publish p (link_front p l)"

text \<open>The control block \<open>p\<close> behind \<open>prev\<close> is moved to the front, in \<open>udp_input\<close>.\<close>

definition pcb_to_front :: "nat \<Rightarrow> nat \<Rightarrow> pcb_list \<Rightarrow> pcb_list" where
  "pcb_to_front prev p l = publish p (link_front p (set_link prev (pl_next l p) l))"

text \<open>The search of \<open>udp_input\<close>; following a link out of the list of a damaged memory may not end.\<close>

partial_function (option) pcb_search ::
    "(nat \<Rightarrow> bool) \<Rightarrow> (nat \<Rightarrow> bool) \<Rightarrow> (nat \<Rightarrow> bool) \<Rightarrow> nat option \<Rightarrow> nat option \<Rightarrow> nat option \<Rightarrow> pcb_list \<Rightarrow> (nat option \<times> pcb_list) option" where
  "pcb_search loc rem unc prev pcb uncon l =
     (case pcb of
        None \<Rightarrow> Some (uncon, l)
      | Some p \<Rightarrow>
          if loc p \<and> rem p then Some (Some p, (case prev of None \<Rightarrow> l | Some q \<Rightarrow> pcb_to_front q p l))
          else pcb_search loc rem unc (Some p) (pl_next l p) (if loc p \<and> uncon = None \<and> unc p then Some p else uncon) l)"

text \<open>Taking a control block off the list, in \<open>udp_remove\<close>: the loop goes on behind the place that it found.\<close>

partial_function (option) unlink_loop :: "nat \<Rightarrow> nat option \<Rightarrow> pcb_list \<Rightarrow> pcb_list option" where
  "unlink_loop p pcb2 l =
     (case pcb2 of
        None \<Rightarrow> Some l
      | Some q \<Rightarrow>
         (let l = (if pl_next l q = Some p then set_link q (pl_next l p) l else l)
          in unlink_loop p (pl_next l q) l))"

definition pcb_unlink :: "nat \<Rightarrow> pcb_list \<Rightarrow> pcb_list option" where
  "pcb_unlink p l =
     (if pl_head l = Some p then Some (l\<lparr>pl_head := pl_next l p\<rparr>) else unlink_loop p (pl_head l) l)"

section \<open>Each operation alone\<close>

fun linked :: "(nat \<Rightarrow> nat option) \<Rightarrow> nat option \<Rightarrow> nat list \<Rightarrow> nat option \<Rightarrow> bool" where
  "linked nx h [] z \<longleftrightarrow> h = z"
| "linked nx h (p # ps) z \<longleftrightarrow> h = Some p \<and> linked nx (nx p) ps z"

definition pcbs_are :: "pcb_list \<Rightarrow> nat list \<Rightarrow> bool" where
  "pcbs_are l ps \<longleftrightarrow> linked (pl_next l) (pl_head l) ps None \<and> distinct ps"

lemma linked_append: "linked nx h (ps @ qs) z \<longleftrightarrow> (\<exists>y. linked nx h ps y \<and> linked nx y qs z)"
  by (induction ps arbitrary: h) auto

lemma linked_cong: "(\<And>p. p \<in> set ps \<Longrightarrow> nx' p = nx p) \<Longrightarrow> linked nx' h ps z = linked nx h ps z"
  by (induction ps arbitrary: h) auto

lemma linked_other [simp]: "p \<notin> set ps \<Longrightarrow> linked (nx(p := q)) h ps z = linked nx h ps z"
  by (rule linked_cong) auto

lemma insert_implements: "pcbs_are l ps \<Longrightarrow> p \<notin> set ps \<Longrightarrow> pcbs_are (pcb_insert p l) (p # ps)"
  by (simp add: pcbs_are_def pcb_insert_def publish_def link_front_def set_link_def)

lemma to_front_implements:
  assumes "pcbs_are l (as @ q # p # bs)"
  shows "pcbs_are (pcb_to_front q p l) (p # as @ q # bs)"
  using assms by (auto simp: pcbs_are_def pcb_to_front_def publish_def link_front_def set_link_def linked_append)

lemma search_implements:
  assumes "pcbs_are l (prev @ ps)" and "demux_loop loc rem unc prev ps uncon = (r, qs)"
  shows "\<exists>l'. pcb_search loc rem unc (if prev = [] then None else Some (last prev)) (case ps of [] \<Rightarrow> None | p # _ \<Rightarrow> Some p) uncon l = Some (r, l') \<and>
    pcbs_are l' qs"
  using assms
proof (induction loc rem unc prev ps uncon rule: demux_loop.induct)
  case (1 loc rem unc prev uncon)
  then show ?case by (subst pcb_search.simps) simp
next
  case (2 loc rem unc prev pcb rest uncon)
  have nx: "pl_next l pcb = (case rest of [] \<Rightarrow> None | p # _ \<Rightarrow> Some p)"
    using "2.prems"(1) by (cases rest) (auto simp: pcbs_are_def linked_append)
  show ?case
  proof (cases "loc pcb \<and> rem pcb")
    case True
    then have r: "r = Some pcb" "qs = pcb # prev @ rest" using "2.prems"(2) by (auto split: if_splits)
    show ?thesis
    proof (cases prev rule: rev_cases)
      case Nil
      then show ?thesis using True r "2.prems"(1) by (subst pcb_search.simps) simp
    next
      case (snoc as q)
      then have "pcbs_are (pcb_to_front q pcb l) (pcb # as @ q # rest)" using "2.prems"(1) by (intro to_front_implements) simp
      then show ?thesis using True r snoc by (subst pcb_search.simps) simp
    qed
  next
    case False
    let ?u = "if loc pcb \<and> uncon = None \<and> unc pcb then Some pcb else uncon"
    have "demux_loop loc rem unc (prev @ [pcb]) rest ?u = (r, qs)" using "2.prems"(2) by (simp only: demux_loop.simps False if_False)
    moreover have "pcbs_are l ((prev @ [pcb]) @ rest)" using "2.prems"(1) by simp
    ultimately have "\<exists>l'. pcb_search loc rem unc (Some pcb) (pl_next l pcb) ?u l = Some (r, l') \<and> pcbs_are l' qs"
      using "2.IH" [OF False] nx by simp
    then show ?thesis by (subst pcb_search.simps) (simp only: list.case option.case False if_False)
  qed
qed

lemma unlink_loop_rest: "linked (pl_next l) h ps None \<Longrightarrow> p \<notin> set ps \<Longrightarrow> unlink_loop p h l = Some l"
proof (induction ps arbitrary: h)
  case Nil
  then show ?case by (simp add: unlink_loop.simps)
next
  case (Cons q qs)
  then have "pl_next l q \<noteq> Some p" by (cases qs) auto
  then show ?case using Cons by (subst unlink_loop.simps) (simp add: Let_def)
qed

lemma unlink_loop_finds:
  assumes "linked (pl_next l) h (as @ q # p # bs) None" and "distinct (as @ q # p # bs)"
  shows "unlink_loop p h l = Some (set_link q (pl_next l p) l)"
  using assms
proof (induction as arbitrary: h)
  case Nil
  let ?l = "set_link q (pl_next l p) l"
  have "linked (pl_next ?l) (pl_next l p) bs None" using Nil by (simp add: set_link_def)
  then have "unlink_loop p (pl_next l p) ?l = Some ?l" by (rule unlink_loop_rest) (use Nil in simp)
  then show ?case using Nil by (subst unlink_loop.simps) (simp add: Let_def set_link_def)
next
  case (Cons a as)
  have "pl_next l a \<noteq> Some p" using Cons.prems by (cases as) auto
  moreover have "unlink_loop p (pl_next l a) l = Some (set_link q (pl_next l p) l)" using Cons by simp
  ultimately show ?case using Cons.prems by (subst unlink_loop.simps) (simp add: Let_def)
qed

lemma unlink_implements:
  assumes "pcbs_are l ps"
  shows "\<exists>l'. pcb_unlink p l = Some l' \<and> pcbs_are l' (remove1 p ps)"
proof (cases "p \<in> set ps")
  case False
  then have "pl_head l \<noteq> Some p" using assms by (cases ps) (auto simp: pcbs_are_def)
  then show ?thesis using assms False unlink_loop_rest [of l "pl_head l" ps p]
    by (simp add: pcb_unlink_def pcbs_are_def remove1_idem)
next
  case True
  then obtain as bs where ps: "ps = as @ p # bs" "p \<notin> set as" by (metis split_list_first)
  show ?thesis
  proof (cases as rule: rev_cases)
    case Nil
    then show ?thesis using assms ps by (simp add: pcb_unlink_def pcbs_are_def)
  next
    case (snoc cs q)
    then have ps': "ps = cs @ q # p # bs" using ps by simp
    then have "pl_head l \<noteq> Some p" using assms by (cases cs) (auto simp: pcbs_are_def)
    moreover have "unlink_loop p (pl_head l) l = Some (set_link q (pl_next l p) l)"
      using assms ps' by (intro unlink_loop_finds [of l _ cs q p bs]) (simp_all add: pcbs_are_def)
    moreover have "remove1 p ps = cs @ q # bs" using ps' assms by (auto simp: pcbs_are_def remove1_append)
    moreover have "pcbs_are (set_link q (pl_next l p) l) (cs @ q # bs)"
      using assms ps' by (auto simp: pcbs_are_def set_link_def linked_append)
    ultimately show ?thesis by (simp add: pcb_unlink_def)
  qed
qed

section \<open>An interrupt between the two writes\<close>

text \<open>
  \<open>udp_bind\<close> has written the link of the new control block \<open>n\<close>; the interrupt moves \<open>p\<close> to the front; then \<open>udp_bind\<close> writes the
  head of the list. The result is a proper list again, with \<open>n\<close> and without \<open>p\<close>.
\<close>

lemma interrupted_bind_loses_pcb:
  assumes "pcbs_are l (as @ q # p # bs)" and "n \<notin> set (as @ q # p # bs)"
  shows "pcbs_are (publish n (pcb_to_front q p (link_front n l))) (n # as @ q # bs)"
  using assms by (auto simp: pcbs_are_def pcb_to_front_def publish_def link_front_def set_link_def linked_append)

text \<open>With interrupts disabled around the call, the interrupt comes before or after, and nothing is lost.\<close>

lemma protected_bind_keeps_pcbs:
  assumes "pcbs_are l (as @ q # p # bs)" and "n \<notin> set (as @ q # p # bs)"
  shows "pcbs_are (pcb_insert n (pcb_to_front q p l)) (n # p # as @ q # bs)"
    and "pcbs_are (pcb_to_front q p (pcb_insert n l)) (p # n # as @ q # bs)"
proof -
  show "pcbs_are (pcb_insert n (pcb_to_front q p l)) (n # p # as @ q # bs)"
    using insert_implements [OF to_front_implements [OF assms(1)], of n] assms(2) by simp
  have "pcbs_are (pcb_insert n l) ((n # as) @ q # p # bs)" using insert_implements [OF assms] by simp
  from to_front_implements [OF this] show "pcbs_are (pcb_to_front q p (pcb_insert n l)) (p # n # as @ q # bs)" by simp
qed

text \<open>The lists of a socket 1, the locator 2 and a new socket 3.\<close>

lemma interrupted_bind_example:
  "pcbs_are \<lparr>pl_head = Some 1, pl_next = [1 \<mapsto> 2]\<rparr> [1, 2]"
  "pcbs_are (publish 3 (pcb_to_front 1 2 (link_front 3 \<lparr>pl_head = Some 1, pl_next = [1 \<mapsto> 2]\<rparr>))) [3, 1]"
  by (simp_all add: pcbs_are_def pcb_to_front_def publish_def link_front_def set_link_def)

end
