(* ===== verification/Spec2Isabelle.thy ===== *)
theory Spec2Isabelle
  imports Alias_Filter End_To_End Main_Loop Heap_Allocator Emac_Driver Timers Arp_Cache Rx_Ring Pcb_List
begin

text \<open>
  A verification library for the firmware in \<open>src/\<close>: a TMS570LC43 board that runs the lwIP 1.4.1 network stack without an
  operating system and carries several IP addresses on one Ethernet controller. Each further address is an alias
  interface that shares the driver of the physical one; UDP sockets are opened per interface; a command channel and
  menus on a serial line control everything.

  \<^bold>\<open>Parts of the program and how they interact.\<close> Frames arrive in the receive interrupt, which calls \<open>ethernet_input\<close>
  (\<open>netif/etharp.c\<close>) for the physical interface. The alias filter (\<open>src/netif_alias_filter.c\<close>) picks the interface that
  the frame is for; ARP packets go to the ARP cache, IP packets through \<open>ip_input\<close> to RAW, UDP or ICMP; \<open>udp_input\<close>
  searches the control blocks and calls back into the socket registry (\<open>src/UDP_source.c\<close>) or the device locator
  (\<open>ports/hdk/locator.c\<close>). The main loop reads bytes from the serial line; commands add and remove interfaces
  (\<open>src/net_manager.c\<close> over \<open>ports/hdk/lwiplib.c\<close> over \<open>core/netif.c\<close>), open, close and use sockets, ping
  (\<open>src/ping.c\<close>) and scan. Sending goes through \<open>udp_sendto_if\<close>, \<open>ip_output_if\<close>, \<open>etharp_output\<close> and the driver
  (\<open>ports/hdk/netif/hdkif.c\<close>), where the model ends with the list of frames that were put on the wire.

  \<^bold>\<open>Theories, in the order of the layers.\<close> A record of a theory is the C structure or the global variables of the file
  it models, an operation takes the state last and returns it last, and the names are those of the code.
  \<^item> \<open>Lwip_Prelude\<close>: word types, error codes, byte order, reading and writing bytes; the collections \<open>wf_intros\<close>
    (operations keep invariants) and \<open>frame_simps\<close> (what an operation leaves alone).
  \<^item> \<open>Interfaces\<close>: the contracts between components as locales: first-fit slot pools, handles with generations, the
    provider of control blocks, heap allocators, transmit queues, text forms. Each is interpreted on the definitions of the component that provides it:
    \<open>ip_text\<close> in \<open>Ip_Addr\<close>, \<open>udpp\<close> in \<open>Udp\<close>, \<open>aliases\<close> in \<open>Lwiplib\<close>, \<open>sock\<close> and \<open>slots\<close> in \<open>Udp_Source\<close>,
    \<open>lwip_heap\<close> in \<open>Heap_Allocator\<close>, \<open>txq\<close> in \<open>Emac_Driver\<close>.
  \<^item> \<open>Ip_Addr\<close> (\<open>core/ipv4/ip_addr.c\<close>, \<open>ip_addr.h\<close>, \<open>struct netif\<close>): address tests, netmasks, text of addresses and back.
  \<^item> \<open>Inet_Chksum\<close> (\<open>core/ipv4/inet_chksum.c\<close>): the optimised sums, shown equal to the one's complement sum.
  \<^item> \<open>Pbuf\<close> (\<open>core/pbuf.c\<close>): a packet buffer chain is a list of segments with hidden headroom and payload.
  \<^item> \<open>Etharp\<close> (\<open>netif/etharp.c\<close>): the ARP cache with its entry states, victim choice, ageing, queries and replies.
  \<^item> \<open>Arp_Cache\<close>: the operations of the cache as a state machine, and ageing.
  \<^item> \<open>Pbuf_Store\<close> (\<open>core/pbuf.c\<close>): the buffers in memory, with links and reference counts; \<open>counted s H\<close> says that the
    counts are exact when the program holds the pointers \<open>H\<close>. The other theories use the contents of a chain only.
  \<^item> \<open>Netif\<close> (\<open>core/netif.c\<close>, output of \<open>core/ipv4/ip.c\<close>): the interface list, routing, \<open>ip_output_if\<close>.
  \<^item> \<open>Udp\<close> (\<open>core/udp.c\<close>, \<open>core/memp.c\<close>): control blocks, ports, binding, sending.
  \<^item> \<open>Lwiplib\<close> (\<open>ports/hdk/lwiplib.c\<close>, start-up of \<open>hdkif.c\<close>): the physical interface and the pool of aliases.
  \<^item> \<open>Udp_Source\<close> (\<open>src/UDP_source.c\<close>): the socket registry; \<open>host_wf\<close> is its invariant, over the layers below.
  \<^item> \<open>Net_Manager\<close> (\<open>src/net_manager.c\<close>) and \<open>Alias_Filter\<close> (\<open>src/netif_alias_filter.c\<close>).
  \<^item> \<open>C_Library\<close>: the parts of the C library that the terminal and the scan use.
  \<^item> \<open>Ping\<close> (\<open>core/raw.c\<close>, \<open>src/ping.c\<close>): request, receive hook, busy-wait, network scan.
  \<^item> \<open>Icmp\<close> (\<open>core/ipv4/icmp.c\<close>): echo replies and destination-unreachable messages.
  \<^item> \<open>Tcp_Reset\<close> (\<open>core/tcp_in.c\<close>, \<open>core/tcp_out.c\<close>): \<open>tcp_input\<close> for the empty lists of control blocks of this program.
  \<^item> \<open>Rx_Path\<close> (\<open>ethernet_input\<close>, \<open>ip_input\<close>, \<open>raw_input\<close>, \<open>udp_input\<close>, the locator): the receive path; \<open>sys_wf\<close> is the
    invariant of the whole system and \<open>sys_start\<close> the start-up sequence of \<open>example/hdk/src/lwip_main.c\<close>.
  \<^item> \<open>Pcb_List\<close> (\<open>core/udp.c\<close>): the list of control blocks with its links in memory; each operation alone does what \<open>Udp\<close> and
    \<open>Rx_Path\<close> do to the list, and an interrupt between the writes of \<open>udp_bind\<close> loses a control block.
  \<^item> \<open>End_To_End\<close>: properties of whole exchanges between hosts.
  \<^item> \<open>System_Invariant\<close>: \<open>sys_wf\<close> under every operation of the main loop.
  \<^item> \<open>Cmd_Channel\<close> (\<open>src/terminal_interface.c\<close>, \<open>cmd_*\<close>): the command channel.
  \<^item> \<open>Line_Editor\<close> (\<open>src/terminal_interface.c\<close>, \<open>fetch_input\<close>): the line editor of the menus, with a model of the
    terminal that shows its output.
  \<^item> \<open>Terminal_Menu\<close> (\<open>src/terminal_interface.c\<close>, \<open>read_terminal_line\<close>, \<open>terminal_*\<close>): the interactive menus.
  \<^item> \<open>Main_Loop\<close> (\<open>example/hdk/src/lwip_main.c\<close>): the main loop and the program as a transition system.
  \<^item> \<open>Mem_Heap\<close>, \<open>Heap_Allocator\<close> (\<open>core/mem.c\<close>): the allocator over the bytes of the heap; \<open>heap_is h bs\<close> relates the bytes to
    a list of blocks. The other theories use the heap only through the outcome of an allocation.
  \<^item> \<open>Emac_Ring\<close>, \<open>Emac_Driver\<close> (\<open>ports/hdk/netif/hdkif.c\<close>): the ring of transmit descriptors, \<open>hdkif_output\<close> and the transmit
    interrupt; \<open>ring_at\<close> is the invariant of the ring. The DMA engine is a parameter, and \<open>emac_dma\<close> says what the driver
    relies on; \<open>dma_model\<close> is an engine that satisfies it. The other theories use the driver through the list of frames
    that were given to it.
  \<^item> \<open>Rx_Ring\<close> (\<open>ports/hdk/netif/hdkif.c\<close>): the list of receive descriptors with their packet buffers, and the receive interrupt;
    \<open>rx_at s pks ds hs\<close> is the invariant, with the packets \<open>pks\<close> received, the descriptors \<open>ds\<close> waiting, and the chains \<open>hs\<close> that
    ARP and echo replies, which are built in the received buffers, hold until the transmit interrupt. Again the engine is a parameter
    (\<open>emac_rx_dma\<close>, \<open>rx_dma_model\<close>); it works between the calls of the handler. \<open>ethernet_input\<close> is represented by what it does
    to the buffers: it may cut off the end of the chain (\<open>pbuf_realloc\<close>), a reply may hold the rest, and what is not held is
    released; which of this happens to which frame is a parameter without assumptions. Only the driver takes buffers from this pool.
  \<^item> \<open>Timers\<close> (\<open>core/timers.c\<close>): the timer list as the list of its deadlines, and the cyclic timers.

  \<^bold>\<open>What the lemmas show.\<close> Invariants: the ARP table, the reference counts, the pools, the interface list, the registry and the whole system keep
  their invariants under every operation that runs to its end, for every frame and every byte stream, so that no handle, callback or
  control block dangles between operations. Functional behaviour: opening and closing sockets, adding and removing interfaces, sending, the echo
  request and reply, ARP replies, TCP resets, with the exact frames and on every error path. Equivalence and refinement: the sums
  equal the reference sum, the mailbox of a socket is a one-place buffer, the line editor is the editor on two lists, a
  dialogue with the menus has the effect of the command it stands for, the allocator is first fit with joining on a list
  of blocks, the transmit ring puts on the wire what the link model says, and the receive ring hands up what arrived. Liveness: a stored message is reported by the next pass of the main loop, the heap recovers when everything
  was given back, the transmit interrupt releases every buffer. Round trips: addresses and commands are read
  back from their text, datagrams arrive in the socket they were sent to. Errors: damaged headers, corrupted datagrams
  and rejected commands have no effect. Termination: the busy-waits end although the counter wraps, and so does the loop
  over the timers although every timer starts itself again.

  \<^bold>\<open>Bounds and fuel.\<close> Loops over lists and tables are structural. The search for a free port runs at most once through the
  range of ephemeral ports and its fuel is the length of that range. Busy-waits have fuel in iterations;
  \<open>Ping.ping_wait_ends\<close> shows that the number of ticks of the timeout is enough. The endless ping of the menu and the wait
  for a key have fuel from the environment and give \<open>None\<close> when it runs out. The loop over the sockets of an interface
  ends at the size of the registry. The loops of the allocator follow links in memory, so that they are partial; they
  are shown to end on every heap that satisfies the invariant.

  \<^bold>\<open>Modelling decisions.\<close> The target is big-endian, so that \<open>htons\<close> and its relatives are the identity. The outcome of each heap
  allocation is an oracle in the state (\<open>ms_alloc\<close>), as are the bytes of fresh memory (\<open>ms_junk\<close>). The receive interrupt is taken
  between the iterations of the main loop, at every poll of a socket or of the serial line, and in the busy-waits, where the
  frames that arrive are an argument; the operations in between are atomic. In the program this holds only for those that disable
  interrupts. The writes of \<open>udp_bind\<close>, which \<open>udp_source_add_listener\<close> leaves open to the interrupt, are modelled one by one
  in \<open>Pcb_List\<close>, which shows what an interrupt between them destroys; the ARP table and the heap are also changed
  without protection by the operations that send. Properties of reachable states are about the states between the steps of
  this model. Input from the serial line is a stream of bytes
  and idle polls, with the frames that arrive at each. The value of a decimal number that does not fit an \<open>int\<close> is the parameter \<open>cvt\<close>, because the C standard leaves
  it undefined.

  \<^bold>\<open>Not modelled.\<close> TCP connections (none exists in this program, so that \<open>tcp_input\<close> only resets), DHCP
  (never started), what the options compile out (DNS, SNMP, IGMP, AutoIP, fragmentation, PPP, the socket APIs), the web
  server, the registers of the controller,
  the generated device drivers, and the desktop program.
\<close>

end
